(* ===== verification/Prelude.thy ===== *)
theory Prelude
  imports Main "HOL-Library.Char_ord" "HOL-Library.List_Lexorder" "HOL-Library.AList"
    "HOL-Library.Multiset"
begin

text \<open>
  Shared vocabulary of the development: Python strings, errors as values, insertion-ordered
  dictionaries (a Python \<open>dict\<close> is an association list with distinct keys, written with
  \<open>AList.update\<close>), and the idiom \<open>d = defaultdict(list); d[key(x)].append(x)\<close>
  that several modules use. Lemmas that the component proofs share are declared \<open>[simp]\<close> or
  collected in \<open>py_simps\<close>.
\<close>

named_theorems py_simps "unfolding rules for the string and error helpers"
named_theorems inv_intros "introduction rules for component invariants"

section \<open>Errors as values\<close>

text \<open>The exceptions the modelled code raises or catches, by class.\<close>

datatype py_error =
    ValueError | TypeError | KeyError | IndexError | AttributeError | AssertionError
  | ValidationError | IntegrityError | MultipleObjectsReturned | DoesNotExist
  | UnMergeablePackageError | NoAffectedPackages | InvalidJobOperation | ConnectionError
  | PlainException | FieldError | DatabaseError

type_synonym 'a result = "py_error + 'a"

fun bind_result :: "'a result \<Rightarrow> ('a \<Rightarrow> 'b result) \<Rightarrow> 'b result" where
  "bind_result (Inl e) f = Inl e"
| "bind_result (Inr a) f = f a"

lemma bind_result_Inr: "bind_result x f = Inr y \<longleftrightarrow> (\<exists>z. x = Inr z \<and> f z = Inr y)"
  by (cases x) auto

lemma map_sum_Inr: "map_sum id h x = Inr y \<longleftrightarrow> (\<exists>z. x = Inr z \<and> h z = y)"
  by (cases x) auto

text \<open>A list comprehension whose body may raise: the first exception ends it.\<close>

fun map_result :: "('a \<Rightarrow> 'b result) \<Rightarrow> 'a list \<Rightarrow> 'b list result" where
  "map_result f [] = Inr []"
| "map_result f (x # xs) =
     (case f x of Inl e \<Rightarrow> Inl e
      | Inr y \<Rightarrow> (case map_result f xs of Inl e \<Rightarrow> Inl e | Inr ys \<Rightarrow> Inr (y # ys)))"

lemma map_result_Inr_iff:
  "map_result f xs = Inr ys \<longleftrightarrow> list_all2 (\<lambda>x y. f x = Inr y) xs ys"
proof (induction xs arbitrary: ys)
  case Nil
  then show ?case by auto
next
  case (Cons x xs)
  then show ?case by (cases ys) (auto simp flip: Cons.IH split: sum.splits)
qed

lemma map_result_Inl: "map_result f xs = Inl e \<Longrightarrow> \<exists>x\<in>set xs. f x = Inl e"
  by (induction xs) (auto split: sum.splits)

lemma bind_result_Inl: "bind_result x f = Inl e \<longleftrightarrow> x = Inl e \<or> (\<exists>y. x = Inr y \<and> f y = Inl e)"
  by (cases x) auto

lemma map_sum_Inl: "map_sum id h x = Inl e \<longleftrightarrow> x = Inl e"
  by (cases x) auto

lemma map_result_all_Inr [simp]:
  "(\<And>x. x \<in> set xs \<Longrightarrow> f x = Inr (g x)) \<Longrightarrow> map_result f xs = Inr (map g xs)"
  by (induction xs) auto

section \<open>Strings\<close>

text \<open>
  \<open>str\<close> values are lists of characters, the code points below 256 (whitespace and lower case
  follow Unicode there; upper case is that of ASCII letters); an absent (\<open>None\<close>) string is an
  option.
\<close>

definition is_space :: "char \<Rightarrow> bool" where
  "is_space c \<longleftrightarrow> of_char c \<in> {9, 10, 11, 12, 13, 28, 29, 30, 31, 32, 133, 160 :: nat}"

definition is_digit :: "char \<Rightarrow> bool" where
  "is_digit c \<longleftrightarrow> 48 \<le> (of_char c :: nat) \<and> (of_char c :: nat) \<le> 57"

definition lower_char :: "char \<Rightarrow> char" where
  "lower_char c = (if 65 \<le> (of_char c :: nat) \<and> (of_char c :: nat) \<le> 90 \<or>
                      192 \<le> (of_char c :: nat) \<and> (of_char c :: nat) \<le> 222 \<and> (of_char c :: nat) \<noteq> 215
                   then char_of (of_char c + 32 :: nat) else c)"

definition upper_char :: "char \<Rightarrow> char" where
  "upper_char c = (if 97 \<le> (of_char c :: nat) \<and> (of_char c :: nat) \<le> 122
                   then char_of (of_char c - 32 :: nat) else c)"

definition lower :: "string \<Rightarrow> string" where
  "lower s = map lower_char s"

definition upper :: "string \<Rightarrow> string" where
  "upper s = map upper_char s"

definition strip :: "string \<Rightarrow> string" where
  "strip s = rev (dropWhile is_space (rev (dropWhile is_space s)))"

text \<open>\<open>s.replace(c, "")\<close> for a single character \<open>c\<close>.\<close>

definition remove_char :: "char \<Rightarrow> string \<Rightarrow> string" where
  "remove_char c s = filter (\<lambda>x. x \<noteq> c) s"

text \<open>\<open>"".join(s.split())\<close>: every whitespace character goes.\<close>

definition squash :: "string \<Rightarrow> string" where
  "squash s = filter (\<lambda>x. \<not> is_space x) s"

definition starts_with :: "string \<Rightarrow> string \<Rightarrow> bool" where
  "starts_with p s \<longleftrightarrow> take (length p) s = p"

definition ends_with :: "string \<Rightarrow> string \<Rightarrow> bool" where
  "ends_with p s \<longleftrightarrow> length p \<le> length s \<and> drop (length s - length p) s = p"

text \<open>\<open>s.split(c)\<close> with a one-character separator, and \<open>c.join\<close>.\<close>

fun split_on :: "char \<Rightarrow> string \<Rightarrow> string list" where
  "split_on c [] = [[]]"
| "split_on c (x # xs) =
     (if x = c then [] # split_on c xs
      else (case split_on c xs of [] \<Rightarrow> [[x]] | y # ys \<Rightarrow> (x # y) # ys))"

text \<open>
  \<open>s.partition(sep)\<close> and, for one character, \<open>s.rpartition(sep)\<close>: the parts around the first
  (last) occurrence.
\<close>

fun partition_on :: "string \<Rightarrow> string \<Rightarrow> string \<times> string \<times> string" where
  "partition_on sep s =
     (if starts_with sep s then ([], sep, drop (length sep) s)
      else (case s of [] \<Rightarrow> ([], [], [])
            | c # cs \<Rightarrow> (let (a, m, b) = partition_on sep cs in (c # a, m, b))))"

declare partition_on.simps [simp del]

definition contains_str :: "string \<Rightarrow> string \<Rightarrow> bool" where
  "contains_str sub s \<longleftrightarrow> list_ex (\<lambda>i. starts_with sub (drop i s)) [0..<Suc (length s)]"

text \<open>\<open>int(s)\<close>: surrounding whitespace, a sign, digits with single underscores between them.\<close>

fun int_digits :: "bool \<Rightarrow> int \<Rightarrow> string \<Rightarrow> int result" where
  "int_digits seen acc [] = (if seen then Inr acc else Inl ValueError)"
| "int_digits seen acc (c # cs) =
     (if is_digit c then int_digits True (10 * acc + int (of_char c - 48)) cs
      else if c = CHR ''_'' \<and> seen then
        (case cs of [] \<Rightarrow> Inl ValueError
         | d # _ \<Rightarrow> if is_digit d then int_digits True acc cs else Inl ValueError)
      else Inl ValueError)"

definition py_int :: "string \<Rightarrow> int result" where
  "py_int s = (case strip s of
       [] \<Rightarrow> Inl ValueError
     | c # cs \<Rightarrow> if c = CHR ''-'' then map_sum id uminus (int_digits False 0 cs)
                else if c = CHR ''+'' then int_digits False 0 cs
                else int_digits False 0 (c # cs))"

fun join_with :: "string \<Rightarrow> string list \<Rightarrow> string" where
  "join_with sep [] = []"
| "join_with sep [x] = x"
| "join_with sep (x # y # ys) = x @ sep @ join_with sep (y # ys)"

definition rpartition_char :: "char \<Rightarrow> string \<Rightarrow> string \<times> string \<times> string" where
  "rpartition_char c s =
     (let parts = split_on c s
      in if length parts = 1 then ([], [], s) else (join_with [c] (butlast parts), [c], last parts))"

lemma split_on_not_Nil [simp]: "split_on c s \<noteq> []"
  by (induction s) (auto split: list.splits)

lemma join_with_Cons: "xs \<noteq> [] \<Longrightarrow> join_with sep (x # xs) = x @ sep @ join_with sep xs"
  by (cases xs) auto

lemma join_split [simp]: "join_with [c] (split_on c s) = s"
proof (induction s)
  case Nil
  then show ?case by simp
next
  case (Cons x s)
  obtain y ys where s: "split_on c s = y # ys"
    by (metis split_on_not_Nil list.exhaust)
  with Cons show ?case by (cases ys) (auto simp: join_with_Cons)
qed

lemma split_on_no_sep: "x \<in> set (split_on c s) \<Longrightarrow> c \<notin> set x"
  by (induction s arbitrary: x) (auto split: if_splits list.splits)

lemma split_on_append:
  "c \<notin> set a \<Longrightarrow> split_on c (a @ c # b) = a # split_on c b"
  by (induction a) auto

lemma split_on_single: "c \<notin> set a \<Longrightarrow> split_on c a = [a]"
  by (induction a) auto

lemma squash_append [simp]: "squash (a @ b) = squash a @ squash b"
  by (simp add: squash_def)

lemma squash_idem [simp]: "squash (squash s) = squash s"
  by (simp add: squash_def)

section \<open>Relations and indices\<close>

lemma rtrancl_image:
  assumes "(x, y) \<in> r\<^sup>*" and "\<And>a b. (a, b) \<in> r \<Longrightarrow> (f a, f b) \<in> s"
  shows "(f x, f y) \<in> s\<^sup>*"
  using assms(1)
  by (induction rule: rtrancl_induct) (auto intro: rtrancl_into_rtrancl assms(2))

lemma rtrancl_insert_edge:
  "(E \<union> {(i, k), (k, i)})\<^sup>* =
     {(a, b). (a, b) \<in> E\<^sup>* \<or> (a, i) \<in> E\<^sup>* \<and> (k, b) \<in> E\<^sup>* \<or> (a, k) \<in> E\<^sup>* \<and> (i, b) \<in> E\<^sup>*}"
  (is "?L = ?R")
proof (rule subset_antisym)
  show "?L \<subseteq> ?R"
  proof (rule subrelI)
    fix a b assume "(a, b) \<in> ?L"
    then show "(a, b) \<in> ?R"
    proof (induction rule: rtrancl_induct)
      case base
      then show ?case by simp
    next
      case (step y z)
      then show ?case by (auto intro: rtrancl_into_rtrancl)
    qed
  qed
  have "E\<^sup>* \<subseteq> ?L" by (rule rtrancl_mono) auto
  moreover have "(i, k) \<in> ?L" "(k, i) \<in> ?L" by auto
  ultimately show "?R \<subseteq> ?L" by (auto intro: rtrancl_trans)
qed

lemma set_enumerate0: "set (enumerate 0 xs) = (\<lambda>i. (i, xs ! i)) ` {..<length xs}"
  by (rule set_eqI) (auto simp: in_set_enumerate_eq image_iff prod_eq_iff)

lemma bex_enumerate: "(\<exists>x\<in>set (enumerate 0 xs). Q (fst x)) \<longleftrightarrow> (\<exists>i<length xs. Q i)"
proof
  assume "\<exists>i<length xs. Q i"
  then obtain i where "i < length xs" "Q i" by blast
  then have "(i, xs ! i) \<in> set (enumerate 0 xs)" "Q (fst (i, xs ! i))"
    by (simp_all add: in_set_enumerate_eq)
  then show "\<exists>x\<in>set (enumerate 0 xs). Q (fst x)" by blast
qed (auto simp: in_set_enumerate_eq)

section \<open>Sorting\<close>

text \<open>
  \<open>sorted(xs, key=k, reverse=True)\<close> keeps the original order of equal keys, so it is the
  stable ascending sort of the reversed list, reversed.
\<close>

definition sorted_desc :: "('a \<Rightarrow> 'k::linorder) \<Rightarrow> 'a list \<Rightarrow> 'a list" where
  "sorted_desc k xs = rev (sort_key k (rev xs))"

lemma mset_sorted_desc [simp]: "mset (sorted_desc k xs) = mset xs"
  by (simp add: sorted_desc_def)

lemma set_sorted_desc [simp]: "set (sorted_desc k xs) = set xs"
  by (simp add: sorted_desc_def)

lemma length_sorted_desc [simp]: "length (sorted_desc k xs) = length xs"
  by (simp add: sorted_desc_def)

lemma sorted_desc_sorted: "sorted (rev (map k (sorted_desc k xs)))"
  by (simp add: sorted_desc_def rev_map)

lemma hd_sorted_desc_max:
  assumes "x \<in> set xs" shows "k x \<le> k (hd (sorted_desc k xs))"
proof -
  have ne: "sort_key k (rev xs) \<noteq> []"
    using assms by (metis length_0_conv length_pos_if_in_set length_rev length_sort less_nat_zero_code)
  obtain ys z where s: "sort_key k (rev xs) = ys @ [z]"
    using ne by (metis rev_exhaust)
  have "sorted (map k (ys @ [z]))" using s by (metis sorted_sort_key)
  moreover have "x \<in> set (ys @ [z])" using assms s by (metis set_rev set_sort)
  ultimately have "k x \<le> k z" by (auto simp: sorted_append)
  then show ?thesis by (simp add: sorted_desc_def s)
qed

text \<open>\<open>max(xs, key=k)\<close>: the first element with the largest key.\<close>

fun first_max :: "('a \<Rightarrow> 'k::linorder) \<Rightarrow> 'a \<Rightarrow> 'a list \<Rightarrow> 'a" where
  "first_max k best [] = best"
| "first_max k best (x # xs) = first_max k (if k best < k x then x else best) xs"

definition py_max :: "('a \<Rightarrow> 'k::linorder) \<Rightarrow> 'a list \<Rightarrow> 'a option" where
  "py_max k xs = (case xs of [] \<Rightarrow> None | x # ys \<Rightarrow> Some (first_max k x ys))"

lemma first_max_in: "first_max k b xs \<in> insert b (set xs)"
  by (induction xs arbitrary: b) (auto split: if_splits)

lemma first_max_ge_best: "k b \<le> k (first_max k b xs)"
proof (induction xs arbitrary: b)
  case Nil
  then show ?case by simp
next
  case (Cons y ys)
  have "k b \<le> k (if k b < k y then y else b)" by auto
  also have "\<dots> \<le> k (first_max k (if k b < k y then y else b) ys)" by (rule Cons.IH)
  finally show ?case by simp
qed

lemma first_max_ge: "x \<in> set xs \<Longrightarrow> k x \<le> k (first_max k b xs)"
proof (induction xs arbitrary: b)
  case Nil
  then show ?case by simp
next
  case (Cons y ys)
  have "k y \<le> k (if k b < k y then y else b)" by auto
  also have "\<dots> \<le> k (first_max k (if k b < k y then y else b) ys)" by (rule first_max_ge_best)
  finally show ?case using Cons by auto
qed

lemma py_max_in: "py_max k xs = Some m \<Longrightarrow> m \<in> set xs"
  using first_max_in [of k] by (fastforce simp: py_max_def split: list.splits)

lemma py_max_ge: "py_max k xs = Some m \<Longrightarrow> x \<in> set xs \<Longrightarrow> k x \<le> k m"
  by (auto simp: py_max_def first_max_ge first_max_ge_best split: list.splits)

lemma py_max_None [simp]: "py_max k xs = None \<longleftrightarrow> xs = []"
  by (simp add: py_max_def split: list.splits)

section \<open>Dictionaries with insertion order\<close>

text \<open>
  The contract of the mappings the clients use: what \<open>lookup\<close> returns after a \<open>put\<close>,
  the keys in order of first insertion.
\<close>

locale odict =
  fixes empty :: 'd
    and put :: "'k \<Rightarrow> 'v \<Rightarrow> 'd \<Rightarrow> 'd"
    and lookup :: "'d \<Rightarrow> 'k \<Rightarrow> 'v option"
    and keys :: "'d \<Rightarrow> 'k list"
  assumes lookup_empty: "lookup empty k = None"
    and lookup_put: "lookup (put k v d) = (lookup d)(k \<mapsto> v)"
    and keys_empty: "keys empty = []"
    and keys_put: "keys (put k v d) = (if k \<in> set (keys d) then keys d else keys d @ [k])"
    and keys_lookup: "k \<in> set (keys d) \<longleftrightarrow> lookup d k \<noteq> None"
begin

lemma lookup_fold_put_notin:
  "k \<notin> fst ` set kvs \<Longrightarrow> lookup (fold (\<lambda>(k, v). put k v) kvs d) k = lookup d k"
  by (induction kvs arbitrary: d) (auto simp: lookup_put)

lemma keys_fold_put:
  "set (keys (fold (\<lambda>(k, v). put k v) kvs d)) = set (keys d) \<union> fst ` set kvs"
  by (induction kvs arbitrary: d) (auto simp: keys_put split: if_splits)

end

definition dict_keys :: "('k \<times> 'v) list \<Rightarrow> 'k list" where
  "dict_keys d = map fst d"

definition dict_values :: "('k \<times> 'v) list \<Rightarrow> 'v list" where
  "dict_values d = map snd d"

definition dict_get :: "('k \<times> 'v) list \<Rightarrow> 'k \<Rightarrow> 'v \<Rightarrow> 'v" where
  "dict_get d k dflt = (case map_of d k of None \<Rightarrow> dflt | Some v \<Rightarrow> v)"

lemma map_of_update [simp]: "map_of (AList.update k v d) = (map_of d)(k \<mapsto> v)"
  by (rule update_conv')

lemma dict_keys_update:
  "dict_keys (AList.update k v d) = (if k \<in> set (dict_keys d) then dict_keys d else dict_keys d @ [k])"
  by (induction d) (auto simp: dict_keys_def)

lemma set_dict_keys_update: "set (dict_keys (AList.update k v d)) = insert k (set (dict_keys d))"
  by (auto simp: dict_keys_update)

lemma dict_keys_map_of: "k \<in> set (dict_keys d) \<longleftrightarrow> map_of d k \<noteq> None"
  by (simp add: dict_keys_def map_of_eq_None_iff)

interpretation alist: odict "[]" AList.update map_of dict_keys
  by unfold_locales (simp_all add: dict_keys_update dict_keys_map_of, simp add: dict_keys_def)

lemma update_absent: "k \<notin> fst ` set d \<Longrightarrow> AList.update k v d = d @ [(k, v)]"
  by (induction d) auto

lemma fold_update_distinct:
  "distinct (map f xs) \<Longrightarrow> f ` set xs \<inter> fst ` set d = {} \<Longrightarrow>
   fold (\<lambda>x. AList.update (f x) (g x)) xs d = d @ map (\<lambda>x. (f x, g x)) xs"
proof (induction xs arbitrary: d)
  case (Cons x xs)
  then have "AList.update (f x) (g x) d = d @ [(f x, g x)]" by (simp add: update_absent)
  with Cons show ?case by auto
qed simp

lemma fold_update_distinct0:
  "distinct (map f xs) \<Longrightarrow> fold (\<lambda>x. AList.update (f x) (g x)) xs [] = map (\<lambda>x. (f x, g x)) xs"
  using fold_update_distinct [of f xs "[]" g] by simp

section \<open>Grouping with \<open>defaultdict(list)\<close>\<close>

definition dd_append :: "'k \<Rightarrow> 'a \<Rightarrow> ('k \<times> 'a list) list \<Rightarrow> ('k \<times> 'a list) list" where
  "dd_append k x d = AList.update k (dict_get d k [] @ [x]) d"

definition group_by :: "('a \<Rightarrow> 'k) \<Rightarrow> 'a list \<Rightarrow> ('k \<times> 'a list) list" where
  "group_by key xs = fold (\<lambda>x. dd_append (key x) x) xs []"

lemma map_of_dd_append: "map_of (dd_append k x d) = (map_of d)(k \<mapsto> dict_get d k [] @ [x])"
  by (simp add: dd_append_def)

lemma dict_get_dd_append:
  "dict_get (dd_append k x d) j [] = dict_get d j [] @ (if j = k then [x] else [])"
  by (simp add: dict_get_def map_of_dd_append)

lemma dict_get_fold_dd:
  "dict_get (fold (\<lambda>x. dd_append (key x) x) xs d) k [] = dict_get d k [] @ filter (\<lambda>x. key x = k) xs"
  by (induction xs arbitrary: d) (auto simp: dict_get_dd_append)

lemma dom_fold_dd:
  "dom (map_of (fold (\<lambda>x. dd_append (key x) x) xs d)) = dom (map_of d) \<union> key ` set xs"
  by (induction xs arbitrary: d) (auto simp: map_of_dd_append)

lemma group_by_lookup:
  "map_of (group_by key xs) k =
     (if k \<in> key ` set xs then Some (filter (\<lambda>x. key x = k) xs) else None)"
proof -
  have dom: "dom (map_of (group_by key xs)) = key ` set xs"
    unfolding group_by_def by (simp add: dom_fold_dd)
  have get: "dict_get (group_by key xs) k [] = filter (\<lambda>x. key x = k) xs"
    unfolding group_by_def by (simp add: dict_get_fold_dd) (simp add: dict_get_def)
  show ?thesis
  proof (cases "map_of (group_by key xs) k")
    case None
    then have "k \<notin> key ` set xs" using dom by blast
    with None show ?thesis by simp
  next
    case (Some ys)
    then have "k \<in> key ` set xs" using dom by blast
    with Some get show ?thesis by (simp add: dict_get_def)
  qed
qed

lemma distinct_fold_dd:
  "distinct (map fst d) \<Longrightarrow> distinct (map fst (fold (\<lambda>x. dd_append (key x) x) xs d))"
  by (induction xs arbitrary: d) (auto simp: dd_append_def distinct_update)

lemma distinct_keys_group_by [simp]: "distinct (map fst (group_by key xs))"
  by (simp add: group_by_def distinct_fold_dd)

lemma group_by_mem:
  "(k, ys) \<in> set (group_by key xs) \<longleftrightarrow> k \<in> key ` set xs \<and> ys = filter (\<lambda>x. key x = k) xs"
proof -
  have "map_of (group_by key xs) k = Some ys \<longleftrightarrow> (k, ys) \<in> set (group_by key xs)"
    by (rule map_of_eq_Some_iff [OF distinct_keys_group_by])
  then show ?thesis by (auto simp: group_by_lookup split: if_splits)
qed

lemma group_by_values:
  "ys \<in> set (dict_values (group_by key xs)) \<longleftrightarrow>
     (\<exists>x\<in>set xs. ys = filter (\<lambda>y. key y = key x) xs)"
proof -
  have "ys \<in> set (dict_values (group_by key xs)) \<longleftrightarrow> (\<exists>k. (k, ys) \<in> set (group_by key xs))"
    by (force simp: dict_values_def)
  also have "\<dots> \<longleftrightarrow> (\<exists>x\<in>set xs. ys = filter (\<lambda>y. key y = key x) xs)"
    by (simp only: group_by_mem) blast
  finally show ?thesis .
qed

lemma group_by_values_nonempty: "ys \<in> set (dict_values (group_by key xs)) \<Longrightarrow> ys \<noteq> []"
  by (auto simp: group_by_values filter_empty_conv)

lemma mset_dd_append:
  "distinct (map fst d) \<Longrightarrow>
   mset (concat (map snd (AList.update k (dict_get d k [] @ [x]) d))) =
   add_mset x (mset (concat (map snd d)))"
proof (induction d)
  case Nil
  then show ?case by (simp add: dict_get_def)
next
  case (Cons p d)
  obtain a b where p: "p = (a, b)" by force
  show ?case
  proof (cases "a = k")
    case True
    with p show ?thesis by (simp add: dict_get_def)
  next
    case False
    with Cons p show ?thesis by (simp add: dict_get_def)
  qed
qed

lemma mset_fold_dd:
  "distinct (map fst d) \<Longrightarrow>
   mset (concat (map snd (fold (\<lambda>x. dd_append (key x) x) xs d))) =
   mset xs + mset (concat (map snd d))"
proof (induction xs arbitrary: d)
  case Nil
  then show ?case by simp
next
  case (Cons x xs)
  have "distinct (map fst (dd_append (key x) x d))"
    using Cons.prems by (simp add: dd_append_def distinct_update)
  moreover have "mset (concat (map snd (dd_append (key x) x d))) =
      add_mset x (mset (concat (map snd d)))"
    unfolding dd_append_def by (rule mset_dd_append [OF Cons.prems])
  ultimately show ?case using Cons.IH by simp
qed

lemma mset_group_by: "mset (concat (dict_values (group_by key xs))) = mset xs"
  using mset_fold_dd [of "[]" key xs] by (simp add: group_by_def dict_values_def)

end
