(* ===== verification/Purl.thy ===== *)
theory Purl
  imports Prelude
begin

text \<open>
  Package URLs. The \<open>packageurl\<close> library is not part of the repository; the fields of its
  objects are a record, and what the modules call of it (constructor, parser, printer,
  normalisation) is the record \<open>purl_lib\<close>, a parameter of the definitions that use it. Here also
  the helpers of \<open>vulnerabilities/utils.py\<close> on package URLs.
\<close>

record purl =
  ptype :: string
  pnamespace :: "string option"
  pname :: string
  pversion :: "string option"
  pqualifiers :: "(string \<times> string) list"
  psubpath :: "string option"

datatype purl_or_str = PObj purl | PStr string

text \<open>
  \<open>lib_purl\<close> is \<open>PackageURL(type, namespace, name, version, qualifiers, subpath)\<close>,
  \<open>lib_fields\<close> is \<open>to_dict(encode=True, empty="")\<close>, \<open>lib_of_fields\<close> is \<open>PackageURL(**d)\<close>.
\<close>

record purl_lib =
  lib_purl :: "string \<Rightarrow> string option \<Rightarrow> string \<Rightarrow> string option \<Rightarrow> (string \<times> string) list \<Rightarrow>
     string option \<Rightarrow> purl"
  lib_from_string :: "string \<Rightarrow> purl result"
  lib_to_string :: "purl \<Rightarrow> string"
  lib_normalize_qualifiers :: "(string \<times> string) list \<Rightarrow> string"
  lib_normalize_subpath :: "string \<Rightarrow> string"
  lib_fields :: "purl \<Rightarrow> (string \<times> string) list"
  lib_of_fields :: "(string \<times> string) list \<Rightarrow> purl result"

fun as_purl :: "purl_lib \<Rightarrow> purl_or_str \<Rightarrow> purl result" where
  "as_purl L (PObj p) = Inr p"
| "as_purl L (PStr s) = lib_from_string L s"

definition truthy_opt :: "string option \<Rightarrow> bool" where
  "truthy_opt s \<longleftrightarrow> s \<noteq> None \<and> s \<noteq> Some []"

text \<open>\<open>purl_to_dict\<close>; \<open>without_empty_values\<close> drops the empty members.\<close>

definition purl_to_dict :: "purl_lib \<Rightarrow> purl_or_str \<Rightarrow> bool \<Rightarrow> (string \<times> string) list result" where
  "purl_to_dict L p with_empty =
     (case as_purl L p of Inl e \<Rightarrow> Inl e
      | Inr q \<Rightarrow> (let mapping = lib_fields L q
                 in Inr (if \<not> with_empty then filter (\<lambda>(k, v). v \<noteq> []) mapping else mapping)))"

fun normalize_purl :: "purl_lib \<Rightarrow> purl_or_str \<Rightarrow> purl result" where
  "normalize_purl L (PObj p) = lib_from_string L (lib_to_string L p)"
| "normalize_purl L (PStr s) = lib_from_string L s"

definition update_purl_version :: "purl_lib \<Rightarrow> purl_or_str \<Rightarrow> string option \<Rightarrow> purl result" where
  "update_purl_version L p version =
     (case normalize_purl L p of Inl e \<Rightarrow> Inl e
      | Inr q \<Rightarrow> if \<not> truthy_opt version then Inr q
                else normalize_purl L (PObj (lib_purl L (ptype q) (pnamespace q) (pname q) version
                       (pqualifiers q) (psubpath q))))"

definition plain_purl :: "purl_lib \<Rightarrow> purl_or_str \<Rightarrow> purl result" where
  "plain_purl L p = map_sum id
     (\<lambda>q. lib_purl L (ptype q) (pnamespace q) (pname q) (pversion q) [] None) (as_purl L p)"

end
