(* ===== verification/Json.thy ===== *)
theory Json
  imports Prelude
begin

text \<open>
  JSON values, and what \<open>vulnerabilities/utils.py\<close> does with them: \<open>sha256_digest\<close> hashes
  \<open>json.dumps(data, separators=(",", ":"), sort_keys=True)\<close>. The serialisation with sorted keys
  is the function \<open>canon\<close> (a value with every object's members sorted by key); the digest of the
  serialised text is a parameter \<open>H\<close> of the definitions that use it.
\<close>

datatype json =
    JNull | JBool bool | JInt int | JStr string
  | JArr "json list" | JObj "(string \<times> json) list"

definition jstr_opt :: "string option \<Rightarrow> json" where
  "jstr_opt s = (case s of None \<Rightarrow> JNull | Some x \<Rightarrow> JStr x)"

definition jint_opt :: "int option \<Rightarrow> json" where
  "jint_opt s = (case s of None \<Rightarrow> JNull | Some x \<Rightarrow> JInt x)"

definition jstrs :: "string list \<Rightarrow> json" where
  "jstrs xs = JArr (map JStr xs)"

text \<open>Lookup of a member, as \<open>d.get(key)\<close>.\<close>

fun jget :: "json \<Rightarrow> string \<Rightarrow> json option" where
  "jget (JObj ms) k = map_of ms k"
| "jget _ k = None"

fun canon :: "json \<Rightarrow> json" where
  "canon (JArr xs) = JArr (map canon xs)"
| "canon (JObj ms) = JObj (sort_key fst (map (\<lambda>(k, v). (k, canon v)) ms))"
| "canon j = j"

definition sha256_digest :: "(json \<Rightarrow> string) \<Rightarrow> json \<Rightarrow> string" where
  "sha256_digest H data = H (canon data)"

lemma jstr_inj [simp]: "jstrs xs = jstrs ys \<longleftrightarrow> xs = ys"
  by (simp add: jstrs_def inj_map_eq_map inj_def)

lemma canon_jstrs [simp]: "canon (jstrs xs) = jstrs xs"
  by (simp add: jstrs_def comp_def)

text \<open>The digest does not see the order in which an object's members are written.\<close>

lemma mset_eq_short: "mset xs = mset ys \<Longrightarrow> length xs \<le> 1 \<Longrightarrow> xs = ys"
  by (cases xs) (auto simp: Suc_le_eq)

lemma sort_key_perm_distinct:
  assumes "mset xs = mset ys" "distinct (map fst xs)"
  shows "sort_key fst xs = sort_key fst ys"
proof (rule properties_for_sort_key)
  show "mset (sort_key fst ys) = mset xs" using assms(1) by simp
  show "sorted (map fst (sort_key fst ys))" by simp
  have d: "distinct (map fst ys)"
    using assms by (metis mset_eq_imp_distinct_iff mset_map)
  have "filter (\<lambda>x. fst x = k) xs = filter (\<lambda>x. fst x = k) ys" for k
  proof -
    have one: "length (filter (\<lambda>x. fst x = k) zs) \<le> 1" if "distinct (map fst zs)"
      for zs :: "('a \<times> 'b) list"
      using that by (induction zs) (force simp: filter_empty_conv)+
    have "mset (filter (\<lambda>x. fst x = k) xs) = mset (filter (\<lambda>x. fst x = k) ys)"
      using assms(1) by (simp add: mset_filter)
    moreover have "length (filter (\<lambda>x. fst x = k) xs) \<le> 1" by (rule one [OF assms(2)])
    ultimately show ?thesis by (rule mset_eq_short)
  qed
  then show "filter (\<lambda>x. fst k = fst x) (sort_key fst ys) = filter (\<lambda>x. fst k = fst x) xs"
    if "k \<in> set (sort_key fst ys)" for k
    by (simp add: eq_commute [of "fst k"] sort_key_stable)
qed

end
