(* ===== verification/Utils.thy ===== *)
theory Utils
  imports Purl Json
begin

text \<open>
  Helpers of \<open>vulnerabilities/utils.py\<close> that importers and improvers share: front matter of
  Markdown advisories, the nearest patched package, traversal of parsed JSON, de-duplication,
  version ranges, weaknesses, the nginx rule, the pipeline registry and the SSVC calculator.
  Version classes and ranges come from the \<open>univers\<close> library: versions are elements of a linear
  order, a range is the pair of its constructor (\<open>version_class\<close>, which may raise) and its
  membership test (which may raise).
\<close>

section \<open>Text\<close>

text \<open>\<open>str.splitlines\<close>: a carriage return and line feed count as one line break.\<close>

definition line_break :: "char \<Rightarrow> bool" where
  "line_break c \<longleftrightarrow> of_char c \<in> {10, 11, 12, 13, 28, 29, 30, 133 :: nat}"

definition skip_lf :: "string \<Rightarrow> string" where
  "skip_lf cs = (case cs of [] \<Rightarrow> [] | d # ds \<Rightarrow> if of_char d = (10 :: nat) then ds else cs)"

lemma length_skip_lf [termination_simp]: "length (skip_lf cs) < Suc (length cs)"
  by (cases cs) (auto simp: skip_lf_def)

fun splitlines_from :: "string \<Rightarrow> string \<Rightarrow> string list" where
  "splitlines_from acc [] = (if acc = [] then [] else [rev acc])"
| "splitlines_from acc (c # cs) =
     (if of_char c = (13 :: nat) then
        rev acc # splitlines_from [] (skip_lf cs)
      else if line_break c then rev acc # splitlines_from [] cs
      else splitlines_from (c # acc) cs)"

definition splitlines :: "string \<Rightarrow> string list" where
  "splitlines s = splitlines_from [] s"

definition newline :: char where
  "newline = char_of (10 :: nat)"

definition split_markdown_front_matter :: "string \<Rightarrow> string \<times> string" where
  "split_markdown_front_matter text =
     (case splitlines text of
        [] \<Rightarrow> ([], [])
      | l # ls \<Rightarrow>
          if l = ''---''
          then (let (frontmatter, _, markdown) =
                      partition_on ([newline] @ ''---'' @ [newline]) (join_with [newline] ls)
                in (frontmatter, markdown))
          else ([], text))"

definition build_description :: "string option \<Rightarrow> string option \<Rightarrow> string" where
  "build_description summary0 description0 =
     (let summary = strip (case summary0 of None \<Rightarrow> [] | Some s \<Rightarrow> s);
          description = strip (case description0 of None \<Rightarrow> [] | Some s \<Rightarrow> s)
      in if description = [] then summary
         else if summary \<noteq> [] \<and> \<not> contains_str summary description
              then join_with [newline] [summary, description] else description)"

text \<open>\<open>url.strip("/").rpartition("/")\<close>\<close>

definition strip_char :: "char \<Rightarrow> string \<Rightarrow> string" where
  "strip_char c s = rev (dropWhile ((=) c) (rev (dropWhile ((=) c) s)))"

definition get_reference_id :: "string \<Rightarrow> string" where
  "get_reference_id url =
     (let (_, _, ref_id) = rpartition_char (CHR ''/'') (strip_char (CHR ''/'') url) in ref_id)"

definition clean_nginx_git_tag :: "string \<Rightarrow> string" where
  "clean_nginx_git_tag tag =
     (if starts_with ''release-'' tag
      then (let (_, _, rest) = partition_on ''release-'' tag in rest) else tag)"

text \<open>
  \<open>commit_regex.fullmatch\<close>: five to forty hexadecimal digits (either case). \<open>cve_regex.match\<close>: a
  prefix \<open>CVE-dddd-\<close> and at least four digits, in any case.
\<close>

definition is_hex_digit :: "char \<Rightarrow> bool" where
  "is_hex_digit c \<longleftrightarrow> is_digit c \<or> lower_char c \<in> set ''abcdef''"

definition is_commit :: "string \<Rightarrow> bool" where
  "is_commit s \<longleftrightarrow> 5 \<le> length s \<and> length s \<le> 40 \<and> list_all is_hex_digit s"

definition is_cve :: "string \<Rightarrow> bool" where
  "is_cve s \<longleftrightarrow> upper (take 4 s) = ''CVE-'' \<and> 13 \<le> length s \<and>
     list_all is_digit (take 4 (drop 4 s)) \<and> s ! 8 = CHR ''-'' \<and> list_all is_digit (take 4 (drop 9 s))"

section \<open>Lists and dictionaries\<close>

text \<open>\<open>list(dict.fromkeys(original))\<close>\<close>

definition dedupe :: "'a list \<Rightarrow> 'a list" where
  "dedupe original = dict_keys (fold (\<lambda>x. AList.update x ()) original [])"

datatype path_key = AKey string | AIdx int

fun falsy :: "json \<Rightarrow> bool" where
  "falsy JNull = True"
| "falsy (JBool b) = (\<not> b)"
| "falsy (JInt n) = (n = 0)"
| "falsy (JStr s) = (s = [])"
| "falsy (JArr xs) = (xs = [])"
| "falsy (JObj ms) = (ms = [])"

text \<open>\<open>entity[attribute]\<close> of a Python list: a negative index counts from the end.\<close>

definition py_index :: "'a list \<Rightarrow> int \<Rightarrow> 'a result" where
  "py_index xs i =
     (if 0 \<le> i \<and> i < int (length xs) then Inr (xs ! nat i)
      else if i < 0 \<and> - int (length xs) \<le> i then Inr (xs ! nat (int (length xs) + i))
      else Inl IndexError)"

text \<open>\<open>get_item\<close>; the absent result \<open>None\<close> is \<open>JNull\<close>.\<close>

fun get_item :: "json \<Rightarrow> path_key list \<Rightarrow> json result" where
  "get_item entity [] = Inr entity"
| "get_item entity (a # as) =
     (if falsy entity then Inr JNull
      else (case entity of
          JObj ms \<Rightarrow> (case a of
              AKey k \<Rightarrow> (case map_of ms k of None \<Rightarrow> Inr JNull | Some v \<Rightarrow> get_item v as)
            | AIdx _ \<Rightarrow> Inr JNull)
        | JArr xs \<Rightarrow> (case a of
              AKey _ \<Rightarrow> Inr JNull
            | AIdx i \<Rightarrow> if int (length xs) \<le> i then Inr JNull
                        else (case py_index xs i of Inl e \<Rightarrow> Inl e | Inr v \<Rightarrow> get_item v as))
        | _ \<Rightarrow> Inr JNull))"

text \<open>\<open>AffectedPackage\<close> of \<open>utils.py\<close>: a vulnerable package and the package that fixes it.\<close>

record patched =
  vulnerable_package :: "purl option"
  patched_package :: "purl option"

definition get_affected_packages_by_patched_package :: "patched list \<Rightarrow> (purl option \<times> purl list) list" where
  "get_affected_packages_by_patched_package pkgs =
     map (\<lambda>(k, ps). (k, map (\<lambda>p. the (vulnerable_package p)) ps))
       (group_by patched_package (filter (\<lambda>p. vulnerable_package p \<noteq> None) pkgs))"

text \<open>\<open>VersionedPackage\<close>: a package with its version; \<open>bisect_right\<close> as the library's loop.\<close>

fun bisect_right_loop :: "nat \<Rightarrow> ('v::linorder) list \<Rightarrow> 'v \<Rightarrow> nat \<Rightarrow> nat \<Rightarrow> nat" where
  "bisect_right_loop fuel xs v lo hi =
     (case fuel of 0 \<Rightarrow> lo
      | Suc f \<Rightarrow> if lo < hi
          then (let mid = (lo + hi) div 2
                in if v < xs ! mid then bisect_right_loop f xs v lo mid
                   else bisect_right_loop f xs v (mid + 1) hi)
          else lo)"

declare bisect_right_loop.simps [simp del]

definition bisect_right :: "('v::linorder) list \<Rightarrow> 'v \<Rightarrow> nat" where
  "bisect_right xs v = bisect_right_loop (length xs) xs v 0 (length xs)"

definition nearest_patched_package ::
    "(purl \<Rightarrow> 'v::linorder) \<Rightarrow> purl list \<Rightarrow> purl list \<Rightarrow> patched list" where
  "nearest_patched_package ver vulnerable resolved =
     (let vs = sort_key ver vulnerable;
          rs = sort_key ver resolved
      in map (\<lambda>p. let i = bisect_right (map ver rs) (ver p)
                  in \<lparr>vulnerable_package = Some p,
                      patched_package = (if i < length rs then Some (rs ! i) else None)\<rparr>) vs)"

section \<open>Versions, weaknesses, nginx\<close>

definition lstrip_v :: "string \<Rightarrow> string" where
  "lstrip_v s = dropWhile (\<lambda>c. c = CHR ''v'' \<or> c = CHR ''V'') s"

fun resolve_loop :: "(string \<Rightarrow> 'v result) \<Rightarrow> ('v \<Rightarrow> bool result) \<Rightarrow> string list \<Rightarrow> string list \<Rightarrow>
    string list \<Rightarrow> string list \<Rightarrow> string list \<times> string list" where
  "resolve_loop vc mem ign [] aff una = (aff, una)"
| "resolve_loop vc mem ign (p # ps) aff una =
     (if p \<in> set ign then resolve_loop vc mem ign ps aff una
      else (let q = lstrip_v (remove_char (CHR '' '') p)
            in (case vc q of
                  Inl _ \<Rightarrow> resolve_loop vc mem ign ps aff una
                | Inr v \<Rightarrow> (case mem v of
                      Inl _ \<Rightarrow> resolve_loop vc mem ign ps aff una
                    | Inr True \<Rightarrow> resolve_loop vc mem ign ps (aff @ [q]) una
                    | Inr False \<Rightarrow> resolve_loop vc mem ign ps aff (una @ [q])))))"

text \<open>The range, when there is one, as its version constructor and membership test.\<close>

definition resolve_version_range ::
    "((string \<Rightarrow> 'v result) \<times> ('v \<Rightarrow> bool result)) option \<Rightarrow> string list option \<Rightarrow> string list \<Rightarrow>
     string list \<times> string list" where
  "resolve_version_range rng versions ign =
     (case rng of None \<Rightarrow> ([], [])
      | Some (vc, mem) \<Rightarrow> resolve_loop vc mem ign (case versions of None \<Rightarrow> [] | Some vs \<Rightarrow> vs) [] [])"

definition get_cwe_id :: "string \<Rightarrow> int result" where
  "get_cwe_id cwe_string =
     (case split_on (CHR ''-'') cwe_string of
        _ # x # _ \<Rightarrow> py_int x
      | _ \<Rightarrow> Inl IndexError)"

text \<open>\<open>known\<close> is membership in the CWE database. An absent string is \<open>None\<close>.\<close>

fun create_weaknesses_list :: "(int \<Rightarrow> bool) \<Rightarrow> string option list \<Rightarrow> int list result" where
  "create_weaknesses_list known [] = Inr []"
| "create_weaknesses_list known (s # ss) =
     (if \<not> truthy_opt s then create_weaknesses_list known ss
      else (case get_cwe_id (the s) of
              Inl e \<Rightarrow> Inl e
            | Inr n \<Rightarrow> if n \<noteq> 0 \<and> known n
                       then map_sum id ((#) n) (create_weaknesses_list known ss)
                       else create_weaknesses_list known ss))"

text \<open>A version of nginx is an element of a linear order with a minor number.\<close>

fun nginx_fixed :: "('v::linorder \<Rightarrow> int) \<Rightarrow> 'v \<Rightarrow> 'v list \<Rightarrow> bool" where
  "nginx_fixed minor v [] = False"
| "nginx_fixed minor v (f # fs) = (if minor v = minor f \<and> f \<le> v then True else nginx_fixed minor v fs)"

definition is_vulnerable_nginx_version ::
    "('v::linorder \<Rightarrow> bool) \<Rightarrow> ('v \<Rightarrow> int) \<Rightarrow> 'v \<Rightarrow> 'v list \<Rightarrow> bool" where
  "is_vulnerable_nginx_version in_range minor v fixed =
     (if in_range v then \<not> nginx_fixed minor v fixed else False)"

section \<open>Registry of pipelines\<close>

text \<open>A pipeline class: whether it derives from \<open>VulnerableCodePipeline\<close>, and its two names.\<close>

record pipeline_class =
  is_pipeline :: bool
  pipeline_id :: string
  qualified_name :: string

definition registry_key :: "pipeline_class \<Rightarrow> string" where
  "registry_key p = (if is_pipeline p then pipeline_id p else qualified_name p)"

fun create_registry_loop :: "pipeline_class list \<Rightarrow> (string \<times> pipeline_class) list \<Rightarrow>
    (string \<times> pipeline_class) list result" where
  "create_registry_loop [] reg = Inr reg"
| "create_registry_loop (p # ps) reg =
     (let key = registry_key p
      in if key = [] then Inl PlainException
         else if key \<in> set (dict_keys reg) then Inl PlainException
         else create_registry_loop ps (AList.update key p reg))"

definition create_registry :: "pipeline_class list \<Rightarrow> (string \<times> pipeline_class) list result" where
  "create_registry ps = create_registry_loop ps []"

section \<open>De-duplication\<close>

lemma dict_keys_fold_unit:
  "dict_keys (fold (\<lambda>x. AList.update x ()) xs d) =
     dict_keys d @ rev (remdups (rev (filter (\<lambda>x. x \<notin> set (dict_keys d)) xs)))"
proof (induction xs arbitrary: d rule: rev_induct)
  case (snoc x xs)
  show ?case
    by (auto simp: snoc dict_keys_update)
qed simp

text \<open>
  \<open>dedupe\<close> keeps the first occurrence of every element, in order, and nothing else.
\<close>

theorem dedupe_first_occurrences:
  "dedupe xs = rev (remdups (rev xs)) \<and> distinct (dedupe xs) \<and> set (dedupe xs) = set xs"
proof -
  have "dedupe xs = rev (remdups (rev xs))"
    using dict_keys_fold_unit [of xs "[]"] by (simp add: dedupe_def dict_keys_def)
  then show ?thesis by simp
qed

lemma distinct_dedupe [simp]: "distinct (dedupe xs)"
  by (simp add: dedupe_first_occurrences)

lemma set_dedupe [simp]: "set (dedupe xs) = set xs"
  by (simp add: dedupe_first_occurrences)

section \<open>Nearest patched package\<close>

lemma bisect_loop_ok:
  assumes "sorted xs" "hi \<le> length xs" "lo \<le> hi" "hi - lo \<le> fuel"
    and "\<forall>j<lo. xs ! j \<le> v" "\<forall>j. hi \<le> j \<longrightarrow> j < length xs \<longrightarrow> v < xs ! j"
  shows "bisect_right_loop fuel xs v lo hi \<le> length xs \<and>
     (\<forall>j<bisect_right_loop fuel xs v lo hi. xs ! j \<le> v) \<and>
     (\<forall>j. bisect_right_loop fuel xs v lo hi \<le> j \<longrightarrow> j < length xs \<longrightarrow> v < xs ! j)"
  using assms(2-)
proof (induction fuel arbitrary: lo hi)
  case 0
  then show ?case by (simp add: bisect_right_loop.simps)
next
  case (Suc f)
  show ?case
  proof (cases "lo < hi")
    case False
    with Suc.prems show ?thesis by (simp add: bisect_right_loop.simps [of "Suc f"])
  next
    case True
    let ?mid = "(lo + hi) div 2"
    have m: "lo \<le> ?mid" "?mid < hi" using True by auto
    show ?thesis
    proof (cases "v < xs ! ?mid")
      case True
      have "v < xs ! j" if "?mid \<le> j" "j < length xs" for j
      proof -
        have "xs ! ?mid \<le> xs ! j" using assms(1) that by (rule sorted_nth_mono)
        with True show ?thesis by (rule less_le_trans)
      qed
      then have up: "\<forall>j. ?mid \<le> j \<longrightarrow> j < length xs \<longrightarrow> v < xs ! j" by blast
      have "bisect_right_loop (Suc f) xs v lo hi = bisect_right_loop f xs v lo ?mid"
        using True \<open>lo < hi\<close> by (simp add: bisect_right_loop.simps [of "Suc f"])
      then show ?thesis
        using Suc.IH [of ?mid lo] Suc.prems m up by simp
    next
      case False
      have "xs ! j \<le> v" if "j < Suc ?mid" for j
      proof -
        have "xs ! j \<le> xs ! ?mid" using assms(1) that m Suc.prems(1) by (intro sorted_nth_mono) auto
        with False show ?thesis by simp
      qed
      then have down: "\<forall>j<Suc ?mid. xs ! j \<le> v" by blast
      have "bisect_right_loop (Suc f) xs v lo hi = bisect_right_loop f xs v (Suc ?mid) hi"
        using False \<open>lo < hi\<close> by (simp add: bisect_right_loop.simps [of "Suc f"])
      then show ?thesis
        using Suc.IH [of hi "Suc ?mid"] Suc.prems m down by simp
    qed
  qed
qed

lemma bisect_right_ok:
  assumes "sorted xs"
  shows "bisect_right xs v \<le> length xs" "\<forall>j<bisect_right xs v. xs ! j \<le> v"
    "\<forall>j. bisect_right xs v \<le> j \<longrightarrow> j < length xs \<longrightarrow> v < xs ! j"
  using bisect_loop_ok [OF assms, of "length xs" 0 "length xs" v] by (auto simp: bisect_right_def)

lemma nearest_one:
  fixes ver :: "purl \<Rightarrow> 'v::linorder"
  assumes rs: "rs = sort_key ver resolved" and i: "i = bisect_right (map ver rs) v"
  shows "if i < length rs then rs ! i \<in> set resolved \<and> v < ver (rs ! i) \<and>
             (\<forall>r\<in>set resolved. v < ver r \<longrightarrow> ver (rs ! i) \<le> ver r)
         else \<forall>r\<in>set resolved. ver r \<le> v"
proof -
  have s: "sorted (map ver rs)" by (simp add: rs)
  have set: "set rs = set resolved" by (simp add: rs)
  note b = bisect_right_ok [OF s, of v, folded i]
  show ?thesis
  proof (cases "i < length rs")
    case True
    have "ver (rs ! i) \<le> ver r" if r: "r \<in> set resolved" "v < ver r" for r
    proof -
      from r(1) set obtain j where j: "j < length rs" "r = rs ! j" by (metis in_set_conv_nth)
      have "\<not> j < i" using b(2) j r(2) by (metis leD nth_map)
      then have "map ver rs ! i \<le> map ver rs ! j" using s j by (intro sorted_nth_mono) auto
      with True j show ?thesis by simp
    qed
    moreover have "v < ver (rs ! i)" using b(3) True by simp
    ultimately show ?thesis using True set by auto
  next
    case False
    have "ver r \<le> v" if "r \<in> set resolved" for r
    proof -
      from that set obtain j where "j < length rs" "r = rs ! j" by (metis in_set_conv_nth)
      with False b(2) [rule_format, of j] show ?thesis by simp
    qed
    with False show ?thesis by simp
  qed
qed

text \<open>
  \<open>nearest_patched_package\<close> answers for every vulnerable package, in version order: the patched
  package is a resolved package with the least version above the vulnerable one, and it is absent
  exactly when no resolved version is greater.
\<close>

theorem nearest_patched_is_least_greater:
  fixes ver :: "purl \<Rightarrow> 'v::linorder"
  shows "map vulnerable_package (nearest_patched_package ver vulnerable resolved) =
      map Some (sort_key ver vulnerable) \<and>
    (\<forall>p\<in>set (nearest_patched_package ver vulnerable resolved). \<exists>q\<in>set vulnerable.
       vulnerable_package p = Some q \<and>
       (case patched_package p of
          None \<Rightarrow> \<forall>r\<in>set resolved. ver r \<le> ver q
        | Some r \<Rightarrow> r \<in> set resolved \<and> ver q < ver r \<and>
            (\<forall>r'\<in>set resolved. ver q < ver r' \<longrightarrow> ver r \<le> ver r')))"
proof (rule conjI)
  show "map vulnerable_package (nearest_patched_package ver vulnerable resolved) =
      map Some (sort_key ver vulnerable)"
    by (simp add: nearest_patched_package_def Let_def)
  show "\<forall>p\<in>set (nearest_patched_package ver vulnerable resolved). \<exists>q\<in>set vulnerable.
       vulnerable_package p = Some q \<and>
       (case patched_package p of
          None \<Rightarrow> \<forall>r\<in>set resolved. ver r \<le> ver q
        | Some r \<Rightarrow> r \<in> set resolved \<and> ver q < ver r \<and>
            (\<forall>r'\<in>set resolved. ver q < ver r' \<longrightarrow> ver r \<le> ver r'))"
    using nearest_one [OF refl refl, of ver resolved]
    by (fastforce simp: nearest_patched_package_def Let_def split: if_splits)
qed

definition demo_pkg :: "string \<Rightarrow> purl" where
  "demo_pkg v = \<lparr>ptype = ''npm'', pnamespace = None, pname = ''a'', pversion = Some v,
     pqualifiers = [], psubpath = None\<rparr>"

definition demo_version :: "purl \<Rightarrow> nat" where
  "demo_version p = length (the (pversion p))"

lemma nearest_patched_is_least_greater_witness:
  "map vulnerable_package (nearest_patched_package demo_version [demo_pkg ''1''] [demo_pkg ''111'', demo_pkg ''11'']) =
      map Some (sort_key demo_version [demo_pkg ''1''])"
  by (rule nearest_patched_is_least_greater [THEN conjunct1])

section \<open>Traversal of parsed JSON\<close>

text \<open>
  \<open>get_item\<close> promises \<open>None\<close> for a path it cannot follow; the only error it can raise is an
  \<open>IndexError\<close>, and only through a negative index that reaches before the start of a list.
\<close>

theorem get_item_errors:
  assumes "get_item entity path = Inl e"
  shows "e = IndexError \<and> (\<exists>i. AIdx i \<in> set path \<and> i < 0)"
  using assms
proof (induction path arbitrary: entity)
  case (Cons a as)
  have step: ?case if "get_item v as = Inl e" for v
    using Cons.IH [OF that] by auto
  show ?case
  proof (cases entity)
    case (JArr xs)
    show ?thesis
    proof (cases a)
      case (AIdx i)
      with Cons.prems JArr have i: "xs \<noteq> []" "\<not> int (length xs) \<le> i" by (auto split: if_splits)
      show ?thesis
      proof (cases "py_index xs i")
        case (Inl e')
        with Cons.prems JArr AIdx i have "e = e'" by simp
        with Inl i AIdx show ?thesis by (auto simp: py_index_def split: if_splits)
      next
        case (Inr v)
        with Cons.prems JArr AIdx i have "get_item v as = Inl e" by simp
        then show ?thesis by (rule step)
      qed
    qed (use Cons.prems JArr in \<open>auto split: if_splits\<close>)
  next
    case (JObj ms)
    show ?thesis
    proof (cases a)
      case (AKey k)
      with Cons.prems JObj show ?thesis
        by (cases "map_of ms k") (auto split: if_splits dest: Cons.IH)
    qed (use Cons.prems JObj in \<open>auto split: if_splits\<close>)
  qed (use Cons.prems in \<open>auto split: if_splits\<close>)
qed simp

lemma get_item_errors_witness:
  "IndexError = IndexError \<and> (\<exists>i. AIdx i \<in> set [AIdx (- 2)] \<and> i < 0)"
  by (rule get_item_errors [where entity = "JArr [JInt 1]"]) (simp add: py_index_def)

section \<open>Version ranges\<close>

lemma resolve_loop_eq:
  "resolve_loop vc mem ign ps aff una =
     (let ok = \<lambda>b q. \<exists>v. vc q = Inr v \<and> mem v = Inr b;
          qs = map (\<lambda>p. lstrip_v (remove_char (CHR '' '') p)) (filter (\<lambda>p. p \<notin> set ign) ps)
      in (aff @ filter (ok True) qs, una @ filter (ok False) qs))"
  by (induction ps arbitrary: aff una) (auto simp: Let_def split: sum.splits bool.splits)

text \<open>
  \<open>resolve_version_range\<close> splits the cleaned versions that are not ignored into those the
  range contains and those it does not, each in order; a version that cannot be parsed, or whose
  membership test raises, is in neither list.
\<close>

theorem resolve_version_range_split:
  "resolve_version_range (Some (vc, mem)) (Some versions) ign =
     (let qs = map (\<lambda>p. lstrip_v (remove_char (CHR '' '') p)) (filter (\<lambda>p. p \<notin> set ign) versions)
      in (filter (\<lambda>q. \<exists>v. vc q = Inr v \<and> mem v = Inr True) qs,
          filter (\<lambda>q. \<exists>v. vc q = Inr v \<and> mem v = Inr False) qs))"
  by (simp add: resolve_version_range_def resolve_loop_eq Let_def)

section \<open>Registry\<close>

lemma create_registry_loop_ok:
  "create_registry_loop ps reg = Inr r \<longleftrightarrow>
     list_all (\<lambda>p. registry_key p \<noteq> []) ps \<and> distinct (map registry_key ps) \<and>
     set (map registry_key ps) \<inter> set (dict_keys reg) = {} \<and>
     r = reg @ map (\<lambda>p. (registry_key p, p)) ps"
proof (induction ps arbitrary: reg)
  case (Cons p ps)
  show ?case
  proof (cases "registry_key p = [] \<or> registry_key p \<in> set (dict_keys reg)")
    case True
    then show ?thesis by (auto simp: Let_def)
  next
    case False
    then have "AList.update (registry_key p) p reg = reg @ [(registry_key p, p)]"
      by (simp add: dict_keys_def update_absent)
    with False Cons show ?thesis by (auto simp: Let_def dict_keys_def)
  qed
qed auto

text \<open>
  \<open>create_registry\<close> succeeds exactly when every pipeline has a non-empty key and no two have
  the same, and then maps the keys to the pipelines in the order given.
\<close>

theorem create_registry_iff:
  "create_registry ps = Inr r \<longleftrightarrow>
     list_all (\<lambda>p. registry_key p \<noteq> []) ps \<and> distinct (map registry_key ps) \<and>
     r = map (\<lambda>p. (registry_key p, p)) ps"
  by (simp add: create_registry_def create_registry_loop_ok dict_keys_def)

section \<open>Front matter\<close>

definition plain_line :: "string \<Rightarrow> bool" where
  "plain_line l \<longleftrightarrow> list_all (\<lambda>c. \<not> line_break c) l"

lemma newline_break [simp]: "line_break newline" "of_char newline = (10 :: nat)"
  by (simp_all add: line_break_def newline_def)

lemma splitlines_from_line:
  "plain_line l \<Longrightarrow> splitlines_from acc (l @ newline # rest) = (rev acc @ l) # splitlines_from [] rest"
proof (induction l arbitrary: acc)
  case (Cons c l)
  then have "\<not> line_break c" "of_char c \<noteq> (13 :: nat)" by (auto simp: plain_line_def line_break_def)
  with Cons show ?case by (simp add: plain_line_def)
qed simp

lemma splitlines_from_last:
  "plain_line l \<Longrightarrow> acc @ l \<noteq> [] \<Longrightarrow> splitlines_from acc l = [rev acc @ l]"
proof (induction l arbitrary: acc)
  case (Cons c l)
  then have "\<not> line_break c" "of_char c \<noteq> (13 :: nat)" by (auto simp: plain_line_def line_break_def)
  with Cons show ?case by (simp add: plain_line_def)
qed simp

lemma splitlines_join:
  "list_all plain_line ls \<Longrightarrow> ls \<noteq> [] \<Longrightarrow> last ls \<noteq> [] \<Longrightarrow> splitlines (join_with [newline] ls) = ls"
  unfolding splitlines_def
proof (induction ls)
  case (Cons l ls)
  then show ?case
    by (cases ls) (simp_all add: splitlines_from_line splitlines_from_last)
qed simp

lemma starts_with_Cons [simp]:
  "starts_with (x # xs) [] = False" "starts_with (x # xs) (y # ys) \<longleftrightarrow> x = y \<and> starts_with xs ys"
  "starts_with [] ys"
  by (auto simp: starts_with_def)

definition fence :: string where
  "fence = newline # ''---'' @ [newline]"

lemma dash_not_newline [simp]: "CHR ''-'' \<noteq> newline" "newline \<noteq> CHR ''-''"
proof -
  have "(of_char (CHR ''-'') :: nat) \<noteq> of_char newline" by simp
  then show "CHR ''-'' \<noteq> newline" "newline \<noteq> CHR ''-''" by metis+
qed

lemma fence_line:
  "newline \<notin> set l \<Longrightarrow> starts_with (''---'' @ [newline]) (l @ newline # r) \<longleftrightarrow> l = ''---''"
  by (cases l; cases "tl l"; cases "tl (tl l)"; cases "tl (tl (tl l))") auto

lemma partition_fence_line:
  "newline \<notin> set l \<Longrightarrow> partition_on fence (l @ newline # rest) =
     (if starts_with (''---'' @ [newline]) rest then (l, fence, drop 4 rest)
      else (let (a, m, b) = partition_on fence rest in (l @ newline # a, m, b)))"
proof (induction l)
  case Nil
  then show ?case
    by (subst partition_on.simps) (simp add: fence_def numeral_eq_Suc Let_def split: prod.splits)
next
  case (Cons c l)
  then have "c \<noteq> newline" by auto
  with Cons show ?case
    by (subst partition_on.simps) (simp add: fence_def Let_def split: prod.splits)
qed

lemma partition_fence:
  assumes "fm \<noteq> []" "\<forall>l\<in>set fm. newline \<notin> set l" "\<forall>l\<in>set (tl fm). l \<noteq> ''---''" "b \<noteq> []"
  shows "partition_on fence (join_with [newline] (fm @ ''---'' # b)) =
     (join_with [newline] fm, fence, join_with [newline] b)"
  using assms
proof (induction fm)
  case (Cons l fm)
  show ?case
  proof (cases fm)
    case Nil
    obtain x xs where b: "b = x # xs" using Cons.prems(4) by (cases b) auto
    have "join_with [newline] ((l # fm) @ ''---'' # b) =
        l @ newline # ''---'' @ newline # join_with [newline] b"
      by (simp add: Nil b)
    then show ?thesis
      using Cons.prems(2) Nil by (simp add: partition_fence_line)
  next
    case (Cons l2 fm2)
    let ?rest = "join_with [newline] (fm @ ''---'' # b)"
    have j: "join_with [newline] ((l # fm) @ ''---'' # b) = l @ newline # ?rest"
      by (simp add: Cons)
    obtain r where r: "?rest = l2 @ newline # r"
      by (cases fm2; cases b) (auto simp: Cons)
    have "\<not> starts_with (''---'' @ [newline]) ?rest"
      using Cons.prems(2,3) Cons unfolding r by (subst fence_line) auto
    moreover have "partition_on fence ?rest = (join_with [newline] fm, fence, join_with [newline] b)"
      using Cons.IH Cons.prems Cons by simp
    ultimately show ?thesis
      using Cons.prems(2) unfolding j by (simp add: partition_fence_line) (simp add: Cons)
  qed
qed simp

text \<open>
  \<open>split_markdown_front_matter\<close> inverts the layout: a document made of a \<open>---\<close> line, at least
  one front-matter line, a \<open>---\<close> line and a body that does not end in an empty line splits into
  exactly the two parts. (Only the first front-matter line may itself be \<open>---\<close>.)
\<close>

theorem front_matter_roundtrip:
  assumes "fm \<noteq> []" "list_all plain_line (fm @ b)" "\<forall>l\<in>set (tl fm). l \<noteq> ''---''"
    and "b \<noteq> []" "last b \<noteq> []"
  shows "split_markdown_front_matter (join_with [newline] (''---'' # fm @ ''---'' # b)) =
     (join_with [newline] fm, join_with [newline] b)"
proof -
  have "plain_line ''---''" by (simp add: plain_line_def line_break_def)
  then have "splitlines (join_with [newline] (''---'' # fm @ ''---'' # b)) = ''---'' # fm @ ''---'' # b"
    using assms by (intro splitlines_join) auto
  moreover have "\<forall>l\<in>set fm. newline \<notin> set l"
    using assms(2) by (auto simp: list_all_iff plain_line_def) (metis UnCI newline_break(1))
  then have "partition_on fence (join_with [newline] (fm @ ''---'' # b)) =
     (join_with [newline] fm, fence, join_with [newline] b)"
    using assms by (intro partition_fence) auto
  ultimately show ?thesis
    by (simp add: split_markdown_front_matter_def fence_def)
qed

lemma front_matter_roundtrip_witness:
  "split_markdown_front_matter (join_with [newline] (''---'' # [''id: 1''] @ ''---'' # [''text''])) =
     (join_with [newline] [''id: 1''], join_with [newline] [''text''])"
  by (rule front_matter_roundtrip) (simp_all add: plain_line_def line_break_def)

end
