(* ===== verification/Normalize.thy ===== *)
theory Normalize
  imports Json
begin

text \<open>
  The normalisation helpers of \<open>vulnerabilities/utils.py\<close>: \<open>normalize_text\<close> and
  \<open>normalize_list\<close> (for lists of strings, the only lists the modelled callers give it besides
  those of the data classes).
\<close>

definition normalize_text :: "string option \<Rightarrow> string" where
  "normalize_text t = (case t of None \<Rightarrow> [] | Some s \<Rightarrow> if s = [] then [] else lower (squash s))"

definition normalize_list :: "string list \<Rightarrow> string list" where
  "normalize_list lst = (let xs = filter (\<lambda>x. x \<noteq> []) lst in if xs = [] then [] else sort xs)"

lemma normalize_list_sort: "normalize_list lst = sort (filter (\<lambda>x. x \<noteq> []) lst)"
  by (simp add: normalize_list_def Let_def)

lemma mset_normalize_list: "mset (normalize_list lst) = filter_mset (\<lambda>x. x \<noteq> []) (mset lst)"
  by (simp add: normalize_list_sort mset_filter)

lemma normalize_list_eq_iff:
  "normalize_list xs = normalize_list ys \<longleftrightarrow>
     mset (filter (\<lambda>x. x \<noteq> []) xs) = mset (filter (\<lambda>x. x \<noteq> []) ys)"
proof
  assume "normalize_list xs = normalize_list ys"
  then have "mset (normalize_list xs) = mset (normalize_list ys)" by simp
  then show "mset (filter (\<lambda>x. x \<noteq> []) xs) = mset (filter (\<lambda>x. x \<noteq> []) ys)"
    by (simp add: normalize_list_sort)
next
  assume "mset (filter (\<lambda>x. x \<noteq> []) xs) = mset (filter (\<lambda>x. x \<noteq> []) ys)"
  then show "normalize_list xs = normalize_list ys"
    unfolding normalize_list_sort by (intro properties_for_sort) simp_all
qed

lemma normalize_list_idem [simp]: "normalize_list (normalize_list xs) = normalize_list xs"
  unfolding normalize_list_eq_iff by (simp add: normalize_list_sort filter_sort)

end
