(* ===== verification/Importer.thy ===== *)
theory Importer
  imports Utils Normalize "HOL-Library.Product_Lexorder" "HOL-Library.Option_ord"
begin

text \<open>
  The data classes of \<open>vulnerabilities/importer.py\<close>: what an importer hands to the import
  pipeline. Each class is a record, its \<open>__post_init__\<close> is the function \<open>..._init\<close> (an object
  exists when it returns), and \<open>to_dict\<close> and \<open>from_dict\<close> go to and from JSON. Version ranges
  (\<open>'r\<close>), versions (\<open>'v\<close>) and timestamps (\<open>'d\<close>) belong to \<open>univers\<close> and \<open>datetime\<close>: their
  printers and parsers, the digest of a patch text and the replacement character U+FFFD (not one
  of the model's characters) are the fields of the parameter \<open>ext\<close>. A JSON value of another type
  than the code expects is a \<open>TypeError\<close> of the model.
\<close>

record ('r, 'v, 'd) ext =
  purls :: purl_lib
  range_str :: "'r \<Rightarrow> string"
  range_parse :: "string \<Rightarrow> 'r result"
  version_str :: "'v \<Rightarrow> string"
  range_version :: "'r \<Rightarrow> string \<Rightarrow> 'v result"
  type_version :: "string \<Rightarrow> (string \<Rightarrow> 'v result) option"
  iso :: "'d \<Rightarrow> string"
  iso_parse :: "string \<Rightarrow> 'd result"
  sha512 :: "string \<Rightarrow> string"
  repl_char :: char

section \<open>Fields of a JSON object\<close>

text \<open>\<open>d[key]\<close> with a string, a string or null; \<open>d.get(key)\<close>.\<close>

definition req :: "json \<Rightarrow> string \<Rightarrow> json result" where
  "req d k = (case jget d k of None \<Rightarrow> Inl KeyError | Some v \<Rightarrow> Inr v)"

definition opt :: "json \<Rightarrow> string \<Rightarrow> json" where
  "opt d k = (case jget d k of None \<Rightarrow> JNull | Some v \<Rightarrow> v)"

fun as_str :: "json \<Rightarrow> string result" where
  "as_str (JStr s) = Inr s"
| "as_str _ = Inl TypeError"

fun as_str_opt :: "json \<Rightarrow> string option result" where
  "as_str_opt (JStr s) = Inr (Some s)"
| "as_str_opt JNull = Inr None"
| "as_str_opt _ = Inl TypeError"

fun as_list :: "json \<Rightarrow> json list result" where
  "as_list (JArr xs) = Inr xs"
| "as_list _ = Inl TypeError"

fun as_int :: "json \<Rightarrow> int result" where
  "as_int (JInt n) = Inr n"
| "as_int _ = Inl TypeError"

fun as_fields :: "json \<Rightarrow> (string \<times> string) list result" where
  "as_fields (JObj ms) = map_result (\<lambda>(k, v). map_sum id (Pair k) (as_str v)) ms"
| "as_fields _ = Inl TypeError"

definition jfields :: "(string \<times> string) list \<Rightarrow> json" where
  "jfields fs = JObj (map (\<lambda>(k, v). (k, JStr v)) fs)"

text \<open>\<open>x or []\<close> and \<open>x or None\<close> on a JSON value.\<close>

definition or_empty_list :: "json \<Rightarrow> json" where
  "or_empty_list j = (if falsy j then JArr [] else j)"

definition str_or_none :: "string option \<Rightarrow> string option" where
  "str_or_none s = (if truthy_opt s then s else None)"

text \<open>\<open>d.get(k)\<close>, \<open>d.get(k) or []\<close>, \<open>d.get(k) or {}\<close>, \<open>d.get(k) or ""\<close>.\<close>

fun dget :: "json \<Rightarrow> string \<Rightarrow> json result" where
  "dget (JObj ms) k = Inr (opt (JObj ms) k)"
| "dget _ k = Inl AttributeError"

definition dlist :: "json \<Rightarrow> string \<Rightarrow> json list result" where
  "dlist d k = bind_result (dget d k) (\<lambda>j. if falsy j then Inr [] else as_list j)"

definition dobj :: "json \<Rightarrow> string \<Rightarrow> json result" where
  "dobj d k = map_sum id (\<lambda>j. if falsy j then JObj [] else j) (dget d k)"

definition dstr :: "json \<Rightarrow> string \<Rightarrow> string result" where
  "dstr d k = bind_result (dget d k) (\<lambda>j. if falsy j then Inr [] else as_str j)"

section \<open>Severities\<close>

text \<open>The keys of \<open>SCORING_SYSTEMS\<close>; a scoring system is named by its identifier.\<close>

definition SCORING_SYSTEMS :: "string list" where
  "SCORING_SYSTEMS = [''cvssv2'', ''cvssv3'', ''cvssv3.1'', ''cvssv4'', ''rhbs'', ''rhas'', ''archlinux'',
     ''cvssv3.1_qr'', ''generic_textual'', ''apache_httpd'', ''apache_tomcat'', ''epss'', ''ssvc'',
     ''openssl'', ''ubuntu-priority'']"

datatype 'd stamp = Stamp 'd | StampText string

record 'd severity =
  sev_system :: string
  sev_value :: string
  sev_elements :: string
  sev_published :: "'d stamp option"
  sev_url :: "string option"

definition severity_to_dict :: "('r, 'v, 'd) ext \<Rightarrow> 'd severity \<Rightarrow> json" where
  "severity_to_dict X s = JObj ([(''system'', JStr (sev_system s)), (''value'', JStr (sev_value s)),
       (''scoring_elements'', JStr (sev_elements s))] @
     (case sev_published s of
        None \<Rightarrow> []
      | Some (Stamp d) \<Rightarrow> [(''published_at'', JStr (iso X d))]
      | Some (StampText t) \<Rightarrow> if t = [] then [] else [(''published_at'', JStr t)]))"

definition severity_from_dict :: "json \<Rightarrow> 'd severity result" where
  "severity_from_dict d =
     (case bind_result (req d ''system'') as_str of Inl e \<Rightarrow> Inl e
      | Inr sys \<Rightarrow> if sys \<notin> set SCORING_SYSTEMS then Inl KeyError
        else (case bind_result (req d ''value'') as_str of Inl e \<Rightarrow> Inl e
          | Inr v \<Rightarrow> (case as_str (case jget d ''scoring_elements'' of None \<Rightarrow> JStr [] | Some j \<Rightarrow> j) of Inl e \<Rightarrow> Inl e
            | Inr el \<Rightarrow> (case as_str_opt (opt d ''published_at'') of Inl e \<Rightarrow> Inl e
              | Inr p \<Rightarrow> Inr \<lparr>sev_system = sys, sev_value = v, sev_elements = el,
                           sev_published = map_option StampText p, sev_url = None\<rparr>))))"

text \<open>
  \<open>_cmp_key\<close>: sorting compares the publication dates of two severities that agree on the other
  fields, and a comparison of an absent with a present one, or of a date with a text, raises.
\<close>

definition sev_prefix :: "'d severity \<Rightarrow> string \<times> string \<times> string" where
  "sev_prefix s = (sev_system s, sev_value s, sev_elements s)"

fun stamp_kind :: "'d stamp option \<Rightarrow> nat" where
  "stamp_kind None = 0"
| "stamp_kind (Some (Stamp d)) = 1"
| "stamp_kind (Some (StampText t)) = 2"

fun stamp_date :: "'d stamp option \<Rightarrow> 'd option" where
  "stamp_date (Some (Stamp d)) = Some d"
| "stamp_date _ = None"

fun stamp_text :: "'d stamp option \<Rightarrow> string" where
  "stamp_text (Some (StampText t)) = t"
| "stamp_text _ = []"

definition sev_key :: "'d severity \<Rightarrow> (string \<times> string \<times> string) \<times> 'd option \<times> string" where
  "sev_key s = (sev_prefix s, stamp_date (sev_published s), stamp_text (sev_published s))"

definition sort_severities :: "'d::linorder severity list \<Rightarrow> 'd severity list result" where
  "sort_severities ss =
     (if list_all (\<lambda>s. list_all (\<lambda>t. sev_prefix s = sev_prefix t \<longrightarrow>
             stamp_kind (sev_published s) = stamp_kind (sev_published t)) ss) ss
      then Inr (sort_key sev_key ss) else Inl TypeError)"

section \<open>References\<close>

record reference =
  ref_id :: string
  ref_type :: string
  ref_url :: string

definition reference_init :: "reference \<Rightarrow> reference result" where
  "reference_init r = (if ref_url r = [] then Inl TypeError else Inr r)"

definition reference_to_dict :: "reference \<Rightarrow> json" where
  "reference_to_dict r = JObj [(''reference_id'', JStr (ref_id r)), (''reference_type'', JStr (ref_type r)),
     (''url'', JStr (ref_url r))]"

definition reference_from_dict :: "json \<Rightarrow> reference result" where
  "reference_from_dict d =
     (case bind_result (req d ''reference_id'') as_str of Inl e \<Rightarrow> Inl e
      | Inr i \<Rightarrow> (case as_str_opt (opt d ''reference_type'') of Inl e \<Rightarrow> Inl e
        | Inr t \<Rightarrow> (case bind_result (req d ''url'') as_str of Inl e \<Rightarrow> Inl e
          | Inr u \<Rightarrow> reference_init \<lparr>ref_id = i, ref_type = (case t of None \<Rightarrow> [] | Some x \<Rightarrow> x), ref_url = u\<rparr>)))"

definition reference_from_url :: "string \<Rightarrow> reference result" where
  "reference_from_url u =
     (let i = get_reference_id u
      in if contains_str ''GHSA-'' (upper i) then reference_init \<lparr>ref_id = i, ref_type = [], ref_url = u\<rparr>
         else if starts_with ''RHSA-'' i \<or> starts_with ''RHEA-'' i \<or> starts_with ''RHBA-'' i
         then reference_init \<lparr>ref_id = i, ref_type = [], ref_url = u\<rparr>
         else if is_cve i then reference_init \<lparr>ref_id = upper i, ref_type = [], ref_url = u\<rparr>
         else reference_init \<lparr>ref_id = [], ref_type = [], ref_url = u\<rparr>)"

definition reference_key :: "reference \<Rightarrow> string \<times> string \<times> string" where
  "reference_key r = (ref_id r, ref_type r, ref_url r)"

section \<open>Patches\<close>

record commit_patch =
  vcs_url :: "string option"
  commit_hash :: "string option"
  cp_text :: "string option"
  cp_checksum :: "string option"

definition checksum_of :: "('r, 'v, 'd) ext \<Rightarrow> string option \<Rightarrow> string option" where
  "checksum_of X t = (if truthy_opt t then Some (sha512 X (the t)) else None)"

definition commit_init :: "('r, 'v, 'd) ext \<Rightarrow> commit_patch \<Rightarrow> commit_patch result" where
  "commit_init X c =
     (if \<not> truthy_opt (commit_hash c) then Inl ValueError
      else if \<not> is_commit (the (commit_hash c)) then Inl ValueError
      else if \<not> truthy_opt (vcs_url c) then Inl ValueError
      else Inr (c\<lparr>cp_checksum := checksum_of X (cp_text c)\<rparr>))"

definition commit_to_dict :: "commit_patch \<Rightarrow> json" where
  "commit_to_dict c = JObj [(''vcs_url'', jstr_opt (vcs_url c)), (''commit_hash'', jstr_opt (commit_hash c)),
     (''patch_text'', jstr_opt (cp_text c)), (''patch_checksum'', jstr_opt (cp_checksum c))]"

definition commit_from_dict :: "('r, 'v, 'd) ext \<Rightarrow> json \<Rightarrow> commit_patch result" where
  "commit_from_dict X d =
     (case as_str_opt (opt d ''vcs_url'') of Inl e \<Rightarrow> Inl e
      | Inr u \<Rightarrow> (case as_str_opt (opt d ''commit_hash'') of Inl e \<Rightarrow> Inl e
        | Inr h \<Rightarrow> (case as_str_opt (opt d ''patch_text'') of Inl e \<Rightarrow> Inl e
          | Inr t \<Rightarrow> commit_init X \<lparr>vcs_url = u, commit_hash = h, cp_text = t, cp_checksum = None\<rparr>)))"

record patch_data =
  patch_url :: "string option"
  pd_text :: "string option"
  pd_checksum :: "string option"

definition patch_init :: "('r, 'v, 'd) ext \<Rightarrow> patch_data \<Rightarrow> patch_data result" where
  "patch_init X p =
     (if \<not> truthy_opt (patch_url p) \<and> \<not> truthy_opt (pd_text p) then Inl ValueError
      else Inr (p\<lparr>pd_checksum := checksum_of X (pd_text p)\<rparr>))"

definition patch_to_dict :: "patch_data \<Rightarrow> json" where
  "patch_to_dict p = JObj [(''patch_url'', jstr_opt (patch_url p)), (''patch_text'', jstr_opt (pd_text p)),
     (''patch_checksum'', jstr_opt (pd_checksum p))]"

definition patch_from_dict :: "('r, 'v, 'd) ext \<Rightarrow> json \<Rightarrow> patch_data result" where
  "patch_from_dict X d =
     (case as_str_opt (opt d ''patch_url'') of Inl e \<Rightarrow> Inl e
      | Inr u \<Rightarrow> (case as_str_opt (opt d ''patch_text'') of Inl e \<Rightarrow> Inl e
        | Inr t \<Rightarrow> patch_init X \<lparr>patch_url = u, pd_text = t, pd_checksum = None\<rparr>))"

definition str_or_empty :: "string option \<Rightarrow> string" where
  "str_or_empty s = (case s of None \<Rightarrow> [] | Some x \<Rightarrow> x)"

definition patch_key :: "patch_data \<Rightarrow> string \<times> string \<times> string" where
  "patch_key p = (str_or_empty (patch_url p), str_or_empty (pd_text p), str_or_empty (pd_checksum p))"

section \<open>Affected packages\<close>

record 'r affected_v2 =
  ap_package :: purl
  ap_affected :: "'r option"
  ap_fixed :: "'r option"
  ap_introduced_by :: "commit_patch list"
  ap_fixed_by :: "commit_patch list"

definition affected_init :: "'r affected_v2 \<Rightarrow> 'r affected_v2 result" where
  "affected_init a =
     (if truthy_opt (pversion (ap_package a)) then Inl ValueError
      else if ap_affected a = None \<and> ap_fixed a = None \<and> ap_introduced_by a = [] \<and> ap_fixed_by a = []
      then Inl ValueError else Inr a)"

definition affected_to_dict :: "('r, 'v, 'd) ext \<Rightarrow> 'r affected_v2 \<Rightarrow> json" where
  "affected_to_dict X a = JObj [
     (''package'', jfields (lib_fields (purls X) (ap_package a))),
     (''affected_version_range'', jstr_opt (map_option (range_str X) (ap_affected a))),
     (''fixed_version_range'', jstr_opt (map_option (range_str X) (ap_fixed a))),
     (''introduced_by_commit_patches'', JArr (map commit_to_dict (ap_introduced_by a))),
     (''fixed_by_commit_patches'', JArr (map commit_to_dict (ap_fixed_by a)))]"

text \<open>\<open>VersionRange.from_string(x) if x else None\<close>\<close>

definition parse_range :: "('r, 'v, 'd) ext \<Rightarrow> string option \<Rightarrow> 'r option result" where
  "parse_range X s = (if truthy_opt s then map_sum id Some (range_parse X (the s)) else Inr None)"

text \<open>
  A range that cannot be parsed, or nothing to say of the package, is logged and gives no object
  (\<open>Inr None\<close>).
\<close>

definition affected_from_dict :: "('r, 'v, 'd) ext \<Rightarrow> json \<Rightarrow> 'r affected_v2 option result" where
  "affected_from_dict X d =
     (case bind_result (bind_result (req d ''package'') as_fields) (lib_of_fields (purls X)) of Inl e \<Rightarrow> Inl e
      | Inr p \<Rightarrow> (case bind_result (req d ''affected_version_range'') as_str_opt of Inl e \<Rightarrow> Inl e
        | Inr ar \<Rightarrow> (case bind_result (req d ''fixed_version_range'') as_str_opt of Inl e \<Rightarrow> Inl e
          | Inr fr \<Rightarrow> (case as_list (or_empty_list (opt d ''introduced_by_commit_patches'')) of Inl e \<Rightarrow> Inl e
            | Inr is \<Rightarrow> (case as_list (or_empty_list (opt d ''fixed_by_commit_patches'')) of Inl e \<Rightarrow> Inl e
              | Inr fs \<Rightarrow> (case (parse_range X ar, parse_range X fr) of
                  (Inr a, Inr f) \<Rightarrow>
                    if f = None \<and> a = None \<and> is = [] \<and> fs = [] then Inr None
                    else (case map_result (commit_from_dict X) is of Inl e \<Rightarrow> Inl e
                      | Inr ics \<Rightarrow> (case map_result (commit_from_dict X) fs of Inl e \<Rightarrow> Inl e
                        | Inr fcs \<Rightarrow> map_sum id Some (affected_init \<lparr>ap_package = p, ap_affected = a, ap_fixed = f,
                            ap_introduced_by = ics, ap_fixed_by = fcs\<rparr>)))
                | _ \<Rightarrow> Inr None))))))"

section \<open>Advisories\<close>

record ('r, 'd) adv_data =
  ad_id :: string
  ad_aliases :: "string list"
  ad_summary :: "string option"
  ad_affected :: "'r affected_v2 list"
  ad_references :: "reference list"
  ad_patches :: "patch_data list"
  ad_published :: "'d option"
  ad_weaknesses :: "int list"
  ad_severities :: "'d severity list"
  ad_url :: "string option"
  ad_original :: "string option"

definition clean_summary :: "('r, 'v, 'd) ext \<Rightarrow> string \<Rightarrow> string" where
  "clean_summary X s = (let t = strip s in map (\<lambda>c. if of_char c = (0 :: nat) then repl_char X else c) t)"

definition advisory_init :: "('r, 'v, 'd) ext \<Rightarrow> ('r, 'd) adv_data \<Rightarrow> ('r, 'd) adv_data result" where
  "advisory_init X a =
     (if ad_id a = [] then Inl ValueError
      else if ad_id a \<in> set (ad_aliases a) then Inl ValueError
      else Inr (if truthy_opt (ad_summary a)
                then a\<lparr>ad_summary := Some (clean_summary X (the (ad_summary a)))\<rparr> else a))"

definition advisory_to_dict :: "('r, 'v, 'd) ext \<Rightarrow> ('r, 'd) adv_data \<Rightarrow> json" where
  "advisory_to_dict X a = JObj [
     (''advisory_id'', JStr (ad_id a)),
     (''aliases'', jstrs (ad_aliases a)),
     (''summary'', jstr_opt (ad_summary a)),
     (''affected_packages'', JArr (map (affected_to_dict X) (ad_affected a))),
     (''references'', JArr (map reference_to_dict (ad_references a))),
     (''patches'', JArr (map patch_to_dict (ad_patches a))),
     (''severities'', JArr (map (severity_to_dict X) (ad_severities a))),
     (''date_published'', jstr_opt (map_option (iso X) (ad_published a))),
     (''weaknesses'', JArr (map JInt (ad_weaknesses a))),
     (''url'', JStr (if truthy_opt (ad_url a) then the (ad_url a) else []))]"

definition parse_date :: "('r, 'v, 'd) ext \<Rightarrow> string option \<Rightarrow> 'd option result" where
  "parse_date X s = (if truthy_opt s then map_sum id Some (iso_parse X (the s)) else Inr None)"

definition get_or :: "json \<Rightarrow> string \<Rightarrow> json \<Rightarrow> json" where
  "get_or d k dflt = (case jget d k of None \<Rightarrow> dflt | Some v \<Rightarrow> v)"

text \<open>
  \<open>AffectedPackageV2.from_dict\<close> can give no object; the list of the code then holds \<open>None\<close>, here
  an option.
\<close>

definition list_of :: "(json \<Rightarrow> 'a result) \<Rightarrow> json \<Rightarrow> 'a list result" where
  "list_of f j = bind_result (as_list j) (map_result f)"

definition advisory_from_dict ::
    "('r, 'v, 'd) ext \<Rightarrow> json \<Rightarrow> (('r, 'd) adv_data \<times> 'r affected_v2 option list) result" where
  "advisory_from_dict X d =
     bind_result (bind_result (req d ''date_published'') as_str_opt) (\<lambda>date.
     bind_result (bind_result (req d ''advisory_id'') as_str) (\<lambda>i.
     bind_result (bind_result (req d ''aliases'') (list_of as_str)) (\<lambda>als.
     bind_result (bind_result (req d ''summary'') as_str_opt) (\<lambda>su.
     bind_result (bind_result (req d ''affected_packages'')
        (\<lambda>j. bind_result (as_list j) (\<lambda>xs. map_result (affected_from_dict X) (filter (\<lambda>x. x \<noteq> JNull) xs)))) (\<lambda>aps.
     bind_result (list_of (patch_from_dict X) (get_or d ''patches'' (JArr []))) (\<lambda>ps.
     bind_result (bind_result (req d ''references'') (list_of reference_from_dict)) (\<lambda>refs.
     bind_result (parse_date X date) (\<lambda>dt.
     bind_result (bind_result (req d ''weaknesses'') (list_of as_int)) (\<lambda>ws.
     bind_result (list_of severity_from_dict (get_or d ''severities'' (JArr []))) (\<lambda>ss.
     bind_result (as_str_opt (opt d ''url'')) (\<lambda>u.
     bind_result (advisory_init X \<lparr>ad_id = i, ad_aliases = als, ad_summary = su,
         ad_affected = concat (map (\<lambda>a. case a of None \<Rightarrow> [] | Some x \<Rightarrow> [x]) aps),
         ad_references = refs, ad_patches = ps, ad_published = dt, ad_weaknesses = ws,
         ad_severities = ss, ad_url = str_or_none u, ad_original = None\<rparr>) (\<lambda>a.
     Inr (a, aps)))))))))))))"

section \<open>Round trips\<close>

text \<open>
  What is assumed of the libraries: parsing inverts printing, a printed value is not empty, and
  the replacement character is neither NUL nor whitespace.
\<close>

definition ext_laws :: "('r, 'v, 'd) ext \<Rightarrow> bool" where
  "ext_laws X \<longleftrightarrow>
     (\<forall>r. range_parse X (range_str X r) = Inr r \<and> range_str X r \<noteq> []) \<and>
     (\<forall>d. iso_parse X (iso X d) = Inr d \<and> iso X d \<noteq> []) \<and>
     of_char (repl_char X) \<noteq> (0 :: nat) \<and> \<not> is_space (repl_char X)"

lemma as_fields_jfields [simp]: "as_fields (jfields fs) = Inr fs"
  by (induction fs) (auto simp: jfields_def)

lemma as_str_opt_jstr [simp]: "as_str_opt (jstr_opt s) = Inr s"
  by (cases s) (auto simp: jstr_opt_def)

lemma list_of_map:
  "(\<And>x. x \<in> set xs \<Longrightarrow> f (g x) = Inr (h x)) \<Longrightarrow> list_of f (JArr (map g xs)) = Inr (map h xs)"
  unfolding list_of_def by (induction xs) auto

lemma commit_roundtrip:
  "commit_init X c = Inr c \<Longrightarrow> commit_from_dict X (commit_to_dict c) = Inr c"
  by (cases c) (auto simp: commit_from_dict_def commit_to_dict_def opt_def commit_init_def split: if_splits)

lemma patch_roundtrip:
  "patch_init X p = Inr p \<Longrightarrow> patch_from_dict X (patch_to_dict p) = Inr p"
  by (cases p) (auto simp: patch_from_dict_def patch_to_dict_def opt_def patch_init_def split: if_splits)

lemma reference_roundtrip:
  "reference_init r = Inr r \<Longrightarrow> reference_from_dict (reference_to_dict r) = Inr r"
  by (auto simp: reference_from_dict_def reference_to_dict_def opt_def req_def reference_init_def split: if_splits)

text \<open>What a severity keeps: not its url, and its publication date only as text.\<close>

definition severity_loaded :: "('r, 'v, 'd) ext \<Rightarrow> 'd severity \<Rightarrow> 'd severity" where
  "severity_loaded X s = s\<lparr>sev_published := (case sev_published s of
       None \<Rightarrow> None | Some (Stamp d) \<Rightarrow> Some (StampText (iso X d))
     | Some (StampText t) \<Rightarrow> if t = [] then None else Some (StampText t)), sev_url := None\<rparr>"

lemma severity_roundtrip:
  "sev_system s \<in> set SCORING_SYSTEMS \<Longrightarrow>
   severity_from_dict (severity_to_dict X s) = Inr (severity_loaded X s)"
  by (auto simp: severity_from_dict_def severity_to_dict_def opt_def req_def severity_loaded_def
      split: option.splits stamp.splits)

lemma parse_range_str [simp]:
  "ext_laws X \<Longrightarrow> parse_range X (map_option (range_str X) r) = Inr r"
  by (cases r) (auto simp: parse_range_def ext_laws_def truthy_opt_def)

lemma parse_date_iso [simp]:
  "ext_laws X \<Longrightarrow> parse_date X (map_option (iso X) r) = Inr r"
  by (cases r) (auto simp: parse_date_def ext_laws_def truthy_opt_def)

lemma commits_roundtrip:
  "\<forall>c\<in>set cs. commit_init X c = Inr c \<Longrightarrow> map_result (commit_from_dict X) (map commit_to_dict cs) = Inr cs"
  by (induction cs) (auto simp: commit_roundtrip)

lemma as_list_or_empty [simp]: "as_list (or_empty_list (JArr xs)) = Inr xs"
  by (simp add: or_empty_list_def)

text \<open>
  A valid affected package passes its constructor, and its package is an object of the
  \<open>packageurl\<close> library: its fields give it back.
\<close>

definition affected_valid :: "('r, 'v, 'd) ext \<Rightarrow> 'r affected_v2 \<Rightarrow> bool" where
  "affected_valid X a \<longleftrightarrow> affected_init a = Inr a \<and>
     lib_of_fields (purls X) (lib_fields (purls X) (ap_package a)) = Inr (ap_package a) \<and>
     (\<forall>c\<in>set (ap_introduced_by a) \<union> set (ap_fixed_by a). commit_init X c = Inr c)"

lemma affected_roundtrip:
  assumes "ext_laws X" "affected_valid X a"
  shows "affected_from_dict X (affected_to_dict X a) = Inr (Some a)"
proof -
  have p: "lib_of_fields (purls X) (lib_fields (purls X) (ap_package a)) = Inr (ap_package a)"
    using assms by (simp add: affected_valid_def)
  have c: "map_result (commit_from_dict X) (map commit_to_dict (ap_introduced_by a)) = Inr (ap_introduced_by a)"
    "map_result (commit_from_dict X) (map commit_to_dict (ap_fixed_by a)) = Inr (ap_fixed_by a)"
    using assms(2) by (auto simp: affected_valid_def intro: commits_roundtrip)
  show ?thesis
    using assms p c
    by (auto simp: affected_from_dict_def affected_to_dict_def req_def opt_def affected_valid_def
        affected_init_def split: if_splits)
qed

lemma dropWhile_rev_idem:
  assumes "dropWhile P xs = xs"
  shows "dropWhile P (rev (dropWhile P (rev xs))) = rev (dropWhile P (rev xs))"
proof -
  let ?ys = "rev (dropWhile P (rev xs))"
  have x: "xs = ?ys @ rev (takeWhile P (rev xs))"
    by (metis rev_append rev_rev_ident takeWhile_dropWhile_id)
  show ?thesis
  proof (cases ?ys)
    case (Cons y zs)
    with x have "hd xs = y" "xs \<noteq> []" by (metis append_Cons list.sel(1), metis append_is_Nil_conv list.distinct(1))
    with assms have "\<not> P y" by (metis dropWhile_eq_self_iff)
    then show ?thesis by (simp only: Cons dropWhile.simps if_False)
  qed (simp only: dropWhile.simps)
qed

lemma strip_idem [simp]: "strip (strip s) = strip s"
proof -
  have "dropWhile is_space (strip s) = strip s"
    unfolding strip_def by (rule dropWhile_rev_idem) simp
  then show ?thesis by (simp add: strip_def [of "strip s"]) (simp add: strip_def)
qed

lemma strip_map:
  assumes "\<And>c. is_space (f c) = is_space c"
  shows "strip (map f s) = map f (strip s)"
proof -
  have "is_space \<circ> f = is_space" using assms by (simp add: comp_def)
  then show ?thesis by (simp add: strip_def dropWhile_map rev_map)
qed

lemma clean_summary_idem:
  assumes "ext_laws X"
  shows "clean_summary X (clean_summary X s) = clean_summary X s"
proof -
  let ?f = "\<lambda>c. if of_char c = (0 :: nat) then repl_char X else c"
  have "is_space (?f c) = is_space c" for c using assms by (auto simp: ext_laws_def is_space_def)
  then have "strip (map ?f (strip s)) = map ?f (strip s)" by (simp add: strip_map)
  moreover have "?f (?f c) = ?f c" for c using assms by (simp add: ext_laws_def)
  ultimately show ?thesis by (simp add: clean_summary_def Let_def comp_def)
qed

text \<open>What the constructor returns is a valid object: constructing it again changes nothing.\<close>

lemma advisory_init_valid:
  assumes "ext_laws X" "advisory_init X a0 = Inr a"
  shows "advisory_init X a = Inr a"
proof (cases "truthy_opt (ad_summary a0)")
  case True
  then have a: "a = a0\<lparr>ad_summary := Some (clean_summary X (the (ad_summary a0)))\<rparr>"
    using assms(2) by (auto simp: advisory_init_def split: if_splits)
  with assms show ?thesis by (auto simp: advisory_init_def clean_summary_idem [OF assms(1)] split: if_splits)
next
  case False
  with assms(2) show ?thesis by (auto simp: advisory_init_def split: if_splits)
qed

definition advisory_valid :: "('r, 'v, 'd) ext \<Rightarrow> ('r, 'd) adv_data \<Rightarrow> bool" where
  "advisory_valid X a \<longleftrightarrow> advisory_init X a = Inr a \<and> (\<forall>p\<in>set (ad_affected a). affected_valid X p) \<and>
     (\<forall>r\<in>set (ad_references a). reference_init r = Inr r) \<and> (\<forall>p\<in>set (ad_patches a). patch_init X p = Inr p) \<and>
     (\<forall>s\<in>set (ad_severities a). sev_system s \<in> set SCORING_SYSTEMS)"

text \<open>
  C38: an advisory survives the trip to JSON and back: \<open>from_dict (to_dict a)\<close> returns, with every
  affected package read back, and the result differs from \<open>a\<close> only in what \<open>to_dict\<close> does not
  write: the original advisory text, the url of a severity, its publication date (text afterwards)
  and an empty url (absent afterwards).
\<close>

theorem advisory_roundtrip:
  assumes "ext_laws X" "advisory_valid X a"
  shows "advisory_from_dict X (advisory_to_dict X a) =
     Inr (a\<lparr>ad_severities := map (severity_loaded X) (ad_severities a), ad_url := str_or_none (ad_url a),
            ad_original := None\<rparr>, map Some (ad_affected a))"
proof -
  let ?J = "advisory_to_dict X a"
  have v: "advisory_init X a = Inr a" using assms(2) by (simp add: advisory_valid_def)
  have ap: "map_result (affected_from_dict X) (filter (\<lambda>x. x \<noteq> JNull) (map (affected_to_dict X) (ad_affected a))) =
      Inr (map Some (ad_affected a))"
  proof -
    have f: "filter (\<lambda>x. x \<noteq> JNull) (map (affected_to_dict X) as) = map (affected_to_dict X) as" for as
      by (induction as) (auto simp: affected_to_dict_def)
    have "\<forall>p\<in>set as. affected_valid X p \<Longrightarrow> map_result (affected_from_dict X) (map (affected_to_dict X) as) = Inr (map Some as)" for as
      by (induction as) (auto simp: affected_roundtrip [OF assms(1)])
    then show ?thesis using assms(2) unfolding f by (simp add: advisory_valid_def)
  qed
  have als: "list_of as_str (jstrs (ad_aliases a)) = Inr (ad_aliases a)"
    using list_of_map [of "ad_aliases a" as_str JStr id] by (simp add: jstrs_def)
  have ws: "list_of as_int (JArr (map JInt (ad_weaknesses a))) = Inr (ad_weaknesses a)"
    using list_of_map [of "ad_weaknesses a" as_int JInt id] by simp
  have ps: "list_of (patch_from_dict X) (JArr (map patch_to_dict (ad_patches a))) = Inr (ad_patches a)"
    using list_of_map [of "ad_patches a" "patch_from_dict X" patch_to_dict id] assms(2)
    by (simp add: advisory_valid_def patch_roundtrip)
  have refs: "list_of reference_from_dict (JArr (map reference_to_dict (ad_references a))) = Inr (ad_references a)"
    using list_of_map [of "ad_references a" reference_from_dict reference_to_dict id] assms(2)
    by (simp add: advisory_valid_def reference_roundtrip)
  have ss: "list_of severity_from_dict (JArr (map (severity_to_dict X) (ad_severities a))) =
      Inr (map (severity_loaded X) (ad_severities a))"
    using assms(2) by (intro list_of_map severity_roundtrip) (simp add: advisory_valid_def)
  have cc: "concat (map (\<lambda>a. case a of None \<Rightarrow> [] | Some x \<Rightarrow> [x]) (map Some as)) = as" for as :: "'a affected_v2 list"
    by (induction as) auto
  have u: "str_or_none (Some (if truthy_opt (ad_url a) then the (ad_url a) else [])) = str_or_none (ad_url a)"
    by (auto simp: str_or_none_def truthy_opt_def)
  have init: "advisory_init X (a\<lparr>ad_severities := s, ad_url := y, ad_original := z\<rparr>) =
      Inr (a\<lparr>ad_severities := s, ad_url := y, ad_original := z\<rparr>)" for s y z
    using v by (cases a) (auto simp: advisory_init_def split: if_splits)
  have fields: "req ?J ''date_published'' = Inr (jstr_opt (map_option (iso X) (ad_published a)))"
    "req ?J ''advisory_id'' = Inr (JStr (ad_id a))" "req ?J ''aliases'' = Inr (jstrs (ad_aliases a))"
    "req ?J ''summary'' = Inr (jstr_opt (ad_summary a))"
    "req ?J ''affected_packages'' = Inr (JArr (map (affected_to_dict X) (ad_affected a)))"
    "get_or ?J ''patches'' (JArr []) = JArr (map patch_to_dict (ad_patches a))"
    "req ?J ''references'' = Inr (JArr (map reference_to_dict (ad_references a)))"
    "req ?J ''weaknesses'' = Inr (JArr (map JInt (ad_weaknesses a)))"
    "get_or ?J ''severities'' (JArr []) = JArr (map (severity_to_dict X) (ad_severities a))"
    "opt ?J ''url'' = JStr (if truthy_opt (ad_url a) then the (ad_url a) else [])"
    by (simp_all add: advisory_to_dict_def req_def opt_def get_or_def)
  have rec: "\<lparr>ad_id = ad_id a, ad_aliases = ad_aliases a, ad_summary = ad_summary a, ad_affected = ad_affected a,
      ad_references = ad_references a, ad_patches = ad_patches a, ad_published = ad_published a,
      ad_weaknesses = ad_weaknesses a, ad_severities = s, ad_url = y, ad_original = z\<rparr> =
      a\<lparr>ad_severities := s, ad_url := y, ad_original := z\<rparr>" for s y z
    by simp
  show ?thesis
    by (simp only: advisory_from_dict_def fields bind_result.simps as_str_opt_jstr as_str.simps als as_list.simps ap ps
        refs parse_date_iso [OF assms(1)] ws ss as_str_opt.simps cc u rec init)
qed

definition demo_purl_lib :: purl_lib where
  "demo_purl_lib = \<lparr>lib_purl = (\<lambda>t ns n v q s. \<lparr>ptype = t, pnamespace = ns, pname = n, pversion = v,
       pqualifiers = q, psubpath = s\<rparr>),
     lib_from_string = (\<lambda>s. Inl ValueError), lib_to_string = (\<lambda>p. ptype p @ ''/'' @ pname p),
     lib_normalize_qualifiers = (\<lambda>q. []), lib_normalize_subpath = (\<lambda>s. s),
     lib_fields = (\<lambda>p. [(''type'', ptype p), (''name'', pname p)]),
     lib_of_fields = (\<lambda>d. Inr \<lparr>ptype = dict_get d ''type'' [], pnamespace = None, pname = dict_get d ''name'' [],
       pversion = None, pqualifiers = [], psubpath = None\<rparr>)\<rparr>"

definition demo_ext :: "(nat, nat, nat) ext" where
  "demo_ext = \<lparr>purls = demo_purl_lib, range_str = (\<lambda>n. replicate (Suc n) (CHR ''r'')),
     range_parse = (\<lambda>s. Inr (length s - 1)), version_str = (\<lambda>n. replicate n (CHR ''v'')),
     range_version = (\<lambda>r s. Inr (length s)), type_version = (\<lambda>t. None),
     iso = (\<lambda>n. replicate (Suc n) (CHR ''d'')), iso_parse = (\<lambda>s. Inr (length s - 1)),
     sha512 = (\<lambda>s. s), repl_char = CHR ''?''\<rparr>"

definition demo_advisory :: "(nat, nat) adv_data" where
  "demo_advisory = \<lparr>ad_id = ''GHSA-1'', ad_aliases = [''CVE-1''], ad_summary = Some ''text'',
     ad_affected = [\<lparr>ap_package = \<lparr>ptype = ''npm'', pnamespace = None, pname = ''a'', pversion = None,
         pqualifiers = [], psubpath = None\<rparr>, ap_affected = Some 3, ap_fixed = None,
         ap_introduced_by = [], ap_fixed_by = []\<rparr>],
     ad_references = [\<lparr>ref_id = [], ref_type = [], ref_url = ''u''\<rparr>],
     ad_patches = [\<lparr>patch_url = Some ''u'', pd_text = None, pd_checksum = None\<rparr>],
     ad_published = Some 7, ad_weaknesses = [79],
     ad_severities = [\<lparr>sev_system = ''cvssv3.1'', sev_value = ''9.8'', sev_elements = [],
         sev_published = Some (Stamp 4), sev_url = Some ''s''\<rparr>],
     ad_url = None, ad_original = Some ''raw''\<rparr>"

lemma demo_ext_laws: "ext_laws demo_ext"
  by (simp add: ext_laws_def demo_ext_def is_space_def)

lemma demo_advisory_valid: "advisory_valid demo_ext demo_advisory"
  by (simp add: advisory_valid_def demo_advisory_def advisory_init_def clean_summary_def strip_def
      is_space_def truthy_opt_def affected_valid_def affected_init_def demo_ext_def demo_purl_lib_def
      reference_init_def patch_init_def checksum_of_def SCORING_SYSTEMS_def dict_get_def)

lemma advisory_roundtrip_witness:
  "advisory_from_dict demo_ext (advisory_to_dict demo_ext demo_advisory) =
     Inr (demo_advisory\<lparr>ad_severities := map (severity_loaded demo_ext) (ad_severities demo_advisory),
            ad_url := str_or_none (ad_url demo_advisory), ad_original := None\<rparr>,
          map Some (ad_affected demo_advisory))"
  by (rule advisory_roundtrip [OF demo_ext_laws demo_advisory_valid])

section \<open>The content id\<close>

text \<open>
  \<open>compute_content_id_v2\<close>: the digest of the normalised fields; every list of objects is sorted
  by the comparison key of its class. The \<open>str\<close> of a list of commits is a parameter.
\<close>

definition affected_key ::
    "('r, 'v, 'd) ext \<Rightarrow> (commit_patch list \<Rightarrow> string) \<Rightarrow> 'r affected_v2 \<Rightarrow> string list" where
  "affected_key X commits_str a = [lib_to_string (purls X) (ap_package a),
     (case ap_affected a of None \<Rightarrow> [] | Some r \<Rightarrow> range_str X r),
     (case ap_fixed a of None \<Rightarrow> [] | Some r \<Rightarrow> range_str X r),
     commits_str (ap_introduced_by a), commits_str (ap_fixed_by a)]"

definition compute_content_id_v2 ::
    "(json \<Rightarrow> string) \<Rightarrow> ('r, 'v, 'd::linorder) ext \<Rightarrow> (commit_patch list \<Rightarrow> string) \<Rightarrow>
     ('r, 'd) adv_data \<Rightarrow> string result" where
  "compute_content_id_v2 H X cs a =
     map_sum id (\<lambda>sevs. sha256_digest H (JObj [
       (''advisory_id'', JStr (normalize_text (Some (ad_id a)))),
       (''aliases'', jstrs (normalize_list (ad_aliases a))),
       (''summary'', JStr (normalize_text (ad_summary a))),
       (''affected_packages'', JArr (map (affected_to_dict X) (sort_key (affected_key X cs) (ad_affected a)))),
       (''references'', JArr (map reference_to_dict (sort_key reference_key (ad_references a)))),
       (''severities'', JArr (map (severity_to_dict X) sevs)),
       (''weaknesses'', JArr (map JInt (sort (filter (\<lambda>w. w \<noteq> 0) (ad_weaknesses a))))),
       (''patches'', JArr (map patch_to_dict (sort_key patch_key (ad_patches a)))),
       (''url'', jstr_opt (ad_url a))])) (sort_severities (ad_severities a))"

text \<open>Sorting a permutation by a key gives the same dictionaries when equal keys mean equal dictionaries.\<close>

lemma sort_key_perm:
  assumes "mset xs = mset ys" "\<And>x y. x \<in> set xs \<Longrightarrow> y \<in> set xs \<Longrightarrow> k x = k y \<Longrightarrow> f x = f y"
  shows "map f (sort_key k xs) = map f (sort_key k ys)"
proof -
  have keys: "map k (sort_key k xs) = map k (sort_key k ys)"
  proof -
    have "sort (map k zs) = map k (sort_key k zs)" for zs by (rule properties_for_sort) simp_all
    moreover have "sort (map k xs) = sort (map k ys)" using assms(1) by (intro properties_for_sort) simp_all
    ultimately show ?thesis by metis
  qed
  have set: "set (sort_key k xs) = set xs" "set (sort_key k ys) = set xs"
    using assms(1) by (auto dest: mset_eq_setD)
  show ?thesis
  proof (rule nth_equalityI)
    show "length (map f (sort_key k xs)) = length (map f (sort_key k ys))"
      by (simp add: mset_eq_length [OF assms(1)])
    fix i assume "i < length (map f (sort_key k xs))"
    moreover have "length (sort_key k ys) = length (sort_key k xs)"
      by (simp add: mset_eq_length [OF assms(1)])
    ultimately have i: "i < length (sort_key k xs)" "i < length (sort_key k ys)" by simp_all
    then have "k (sort_key k xs ! i) = k (sort_key k ys ! i)" using keys by (metis nth_map)
    moreover have "sort_key k xs ! i \<in> set xs" "sort_key k ys ! i \<in> set xs" using i set nth_mem by metis+
    ultimately have "f (sort_key k xs ! i) = f (sort_key k ys ! i)" by (intro assms(2))
    then show "map f (sort_key k xs) ! i = map f (sort_key k ys) ! i"
      using i by simp
  qed
qed

lemma published_by_key:
  assumes "stamp_date p = stamp_date q" "stamp_text p = stamp_text q"
  shows "(case p of None \<Rightarrow> [] | Some (Stamp d) \<Rightarrow> [(''published_at'', JStr (iso X d))]
      | Some (StampText t) \<Rightarrow> if t = [] then [] else [(''published_at'', JStr t)]) =
    (case q of None \<Rightarrow> [] | Some (Stamp d) \<Rightarrow> [(''published_at'', JStr (iso X d))]
      | Some (StampText t) \<Rightarrow> if t = [] then [] else [(''published_at'', JStr t)])"
  using assms by (cases p rule: stamp_kind.cases; cases q rule: stamp_kind.cases) simp_all

lemma sort_severities_perm:
  assumes "mset ss = mset ts"
  shows "map_sum id (map (severity_to_dict X)) (sort_severities ss) =
         map_sum id (map (severity_to_dict X)) (sort_severities ts)"
proof -
  have "severity_to_dict X s = severity_to_dict X t" if "sev_key s = sev_key t" for s t
    using that published_by_key [of "sev_published s" "sev_published t" X]
    unfolding severity_to_dict_def sev_key_def sev_prefix_def by simp
  then have m: "map (severity_to_dict X) (sort_key sev_key ss) = map (severity_to_dict X) (sort_key sev_key ts)"
    by (rule sort_key_perm [OF assms])
  have "set ss = set ts" using assms by (rule mset_eq_setD)
  then have "list_all (\<lambda>s. list_all (P s) ss) ss = list_all (\<lambda>s. list_all (P s) ts) ts" for P
    by (simp only: list_all_iff)
  then show ?thesis unfolding sort_severities_def by (simp add: m)
qed

text \<open>
  the content id does not depend on the order in which an importer lists aliases, packages,
  references, severities, weaknesses and patches, nor on the publication date or the original text,
  provided that packages (and patches) with equal comparison keys have equal dictionaries.
\<close>

theorem content_id_order:
  fixes a b :: "('r, 'd::linorder) adv_data"
  assumes "ad_id a = ad_id b" "ad_summary a = ad_summary b" "ad_url a = ad_url b"
    and "mset (ad_aliases a) = mset (ad_aliases b)" "mset (ad_affected a) = mset (ad_affected b)"
    and "mset (ad_references a) = mset (ad_references b)" "mset (ad_severities a) = mset (ad_severities b)"
    and "mset (ad_weaknesses a) = mset (ad_weaknesses b)" "mset (ad_patches a) = mset (ad_patches b)"
    and "\<forall>p\<in>set (ad_affected a). \<forall>q\<in>set (ad_affected a).
           affected_key X cs p = affected_key X cs q \<longrightarrow> affected_to_dict X p = affected_to_dict X q"
    and "\<forall>p\<in>set (ad_patches a). \<forall>q\<in>set (ad_patches a).
           patch_key p = patch_key q \<longrightarrow> patch_to_dict p = patch_to_dict q"
  shows "compute_content_id_v2 H X cs a = compute_content_id_v2 H X cs b"
proof -
  have al: "normalize_list (ad_aliases a) = normalize_list (ad_aliases b)"
    using assms(4) by (simp add: normalize_list_eq_iff)
  have ap: "map (affected_to_dict X) (sort_key (affected_key X cs) (ad_affected a)) =
      map (affected_to_dict X) (sort_key (affected_key X cs) (ad_affected b))"
    by (rule sort_key_perm [OF assms(5)]) (use assms(10) in blast)
  have re: "map reference_to_dict (sort_key reference_key (ad_references a)) =
      map reference_to_dict (sort_key reference_key (ad_references b))"
    by (rule sort_key_perm [OF assms(6)]) (simp add: reference_key_def reference_to_dict_def)
  have pa: "map patch_to_dict (sort_key patch_key (ad_patches a)) = map patch_to_dict (sort_key patch_key (ad_patches b))"
    by (rule sort_key_perm [OF assms(9)]) (use assms(11) in blast)
  have we: "sort (filter (\<lambda>w. w \<noteq> 0) (ad_weaknesses a)) = sort (filter (\<lambda>w. w \<noteq> 0) (ad_weaknesses b))"
    by (rule properties_for_sort) (simp_all add: assms(8))
  show ?thesis
    using sort_severities_perm [OF assms(7), of X]
    by (cases "sort_severities (ad_severities a)"; cases "sort_severities (ad_severities b)")
      (simp_all add: compute_content_id_v2_def assms(1-3) al ap re pa we)
qed

definition demo_reordered :: "(nat, nat) adv_data" where
  "demo_reordered = demo_advisory\<lparr>ad_published := None, ad_original := None\<rparr>"

lemma content_id_order_witness:
  "compute_content_id_v2 (\<lambda>j. ''h'') demo_ext (\<lambda>c. []) demo_advisory =
   compute_content_id_v2 (\<lambda>j. ''h'') demo_ext (\<lambda>c. []) demo_reordered"
  by (rule content_id_order) (simp_all add: demo_reordered_def demo_advisory_def)

text \<open>
  Without the proviso it does depend on the order: two patches, one with an absent and one with an
  empty url, have the same key and different dictionaries.
\<close>

lemma content_id_patch_order:
  "\<exists>p q. patch_init demo_ext p = Inr p \<and> patch_init demo_ext q = Inr q \<and>
     map patch_to_dict (sort_key patch_key [p, q]) \<noteq> map patch_to_dict (sort_key patch_key [q, p])"
  by (rule exI [of _ "\<lparr>patch_url = None, pd_text = Some ''t'', pd_checksum = Some ''t''\<rparr>"],
      rule exI [of _ "\<lparr>patch_url = Some [], pd_text = Some ''t'', pd_checksum = Some ''t''\<rparr>"])
    (simp add: patch_init_def checksum_of_def truthy_opt_def patch_key_def str_or_empty_def
      patch_to_dict_def jstr_opt_def demo_ext_def)

section \<open>Affected packages of the first generation\<close>

text \<open>
  A fixed version read from a dictionary of an unknown package type stays a text.
\<close>

datatype 'v fixed_version = Version 'v | VersionText string

record ('r, 'f) affected_v1 =
  a1_package :: purl
  a1_range :: "'r option"
  a1_fixed :: "'f option"

definition affected1_init :: "('r, 'v fixed_version) affected_v1 \<Rightarrow> ('r, 'v fixed_version) affected_v1 result" where
  "affected1_init a =
     (if truthy_opt (pversion (a1_package a)) then Inl ValueError
      else if a1_range a = None \<and> (a1_fixed a = None \<or> a1_fixed a = Some (VersionText [])) then Inl ValueError
      else Inr a)"

fun fixed_text :: "('r, 'v, 'd) ext \<Rightarrow> 'v fixed_version option \<Rightarrow> string option" where
  "fixed_text X None = None"
| "fixed_text X (Some (Version v)) = Some (version_str X v)"
| "fixed_text X (Some (VersionText t)) = (if t = [] then None else Some t)"

definition get_fixed_purl :: "('r, 'v, 'd) ext \<Rightarrow> ('r, 'v fixed_version) affected_v1 \<Rightarrow> purl result" where
  "get_fixed_purl X a =
     (case fixed_text X (a1_fixed a) of None \<Rightarrow> Inl ValueError
      | Some t \<Rightarrow> update_purl_version (purls X) (PObj (a1_package a)) (Some t))"

definition affected1_to_dict :: "('r, 'v, 'd) ext \<Rightarrow> ('r, 'v fixed_version) affected_v1 \<Rightarrow> json" where
  "affected1_to_dict X a = JObj [
     (''package'', jfields (lib_fields (purls X) (a1_package a))),
     (''affected_version_range'', jstr_opt (map_option (range_str X) (a1_range a))),
     (''fixed_version'', jstr_opt (fixed_text X (a1_fixed a)))]"

definition affected1_from_dict ::
    "('r, 'v, 'd) ext \<Rightarrow> json \<Rightarrow> ('r, 'v fixed_version) affected_v1 option result" where
  "affected1_from_dict X d =
     (case bind_result (bind_result (req d ''package'') as_fields) (lib_of_fields (purls X)) of Inl e \<Rightarrow> Inl e
      | Inr p \<Rightarrow> (case bind_result (req d ''affected_version_range'') as_str_opt of Inl e \<Rightarrow> Inl e
        | Inr ar \<Rightarrow>
          (case (if truthy_opt ar \<and> ar \<noteq> Some ''None'' then map_sum id Some (range_parse X (the ar)) else Inr None) of
             Inl _ \<Rightarrow> Inr None
           | Inr rng \<Rightarrow> (case bind_result (req d ''fixed_version'') as_str_opt of Inl e \<Rightarrow> Inl e
             | Inr fv \<Rightarrow>
                 (case (if \<not> truthy_opt fv then Inr None
                        else (case rng of
                            Some r \<Rightarrow> map_sum id (\<lambda>v. Some (Version v)) (range_version X r (the fv))
                          | None \<Rightarrow> (case type_version X (ptype p) of
                              Some f \<Rightarrow> map_sum id (\<lambda>v. Some (Version v)) (f (the fv))
                            | None \<Rightarrow> Inr (Some (VersionText (the fv)))))) of
                    Inl e \<Rightarrow> Inl e
                  | Inr fixed \<Rightarrow>
                      if fixed = None \<and> rng = None then Inr None
                      else map_sum id Some (affected1_init \<lparr>a1_package = p, a1_range = rng, a1_fixed = fixed\<rparr>))))))"

text \<open>\<open>AffectedPackage.merge\<close>, with the fixed versions in a linear order.\<close>

definition merge_affected ::
    "('r, 'f::linorder) affected_v1 list \<Rightarrow> (purl \<times> 'r list \<times> 'f list) result" where
  "merge_affected pkgs =
     (case pkgs of [] \<Rightarrow> Inl NoAffectedPackages
      | p # ps \<Rightarrow>
          if list_all (\<lambda>q. a1_package q = a1_package p) ps
          then Inr (a1_package p,
                    dedupe (concat (map (\<lambda>q. case a1_range q of None \<Rightarrow> [] | Some r \<Rightarrow> [r]) pkgs)),
                    sort (dedupe (concat (map (\<lambda>q. case a1_fixed q of None \<Rightarrow> [] | Some f \<Rightarrow> [f]) pkgs))))
          else Inl UnMergeablePackageError)"

text \<open>
  \<open>AffectedPackage.merge\<close> succeeds exactly for a non-empty list of packages with one package
  URL; the ranges are those given without repetition, and the fixed versions those given, strictly
  ascending.
\<close>

theorem merge_affected_ok:
  fixes pkgs :: "('r, 'f::linorder) affected_v1 list"
  shows "merge_affected pkgs = Inr (p, rs, fs) \<longleftrightarrow> pkgs \<noteq> [] \<and> a1_package ` set pkgs = {p} \<and>
     rs = dedupe (concat (map (\<lambda>q. case a1_range q of None \<Rightarrow> [] | Some r \<Rightarrow> [r]) pkgs)) \<and>
     set fs = {f. \<exists>q\<in>set pkgs. a1_fixed q = Some f} \<and> sorted_wrt (<) fs"
proof -
  let ?fx = "concat (map (\<lambda>q. case a1_fixed q of None \<Rightarrow> [] | Some f \<Rightarrow> [f]) pkgs)"
  have dd: "dedupe xs = rev (remdups (rev xs))" for xs :: "'f list"
    using dict_keys_fold_unit [of xs "[]"] by (simp add: dedupe_def dict_keys_def)
  have s: "set (sort (dedupe ?fx)) = {f. \<exists>q\<in>set pkgs. a1_fixed q = Some f}"
    by (auto simp: dd split: option.splits)
  have o: "sorted_wrt (<) (sort (dedupe ?fx))"
    by (simp add: dd strict_sorted_iff)
  have u: "fs = sort (dedupe ?fx) \<longleftrightarrow> set fs = {f. \<exists>q\<in>set pkgs. a1_fixed q = Some f} \<and> sorted_wrt (<) fs"
    using s o strict_sorted_equal [of fs "sort (dedupe ?fx)"] by auto
  have one: "pkgs \<noteq> [] \<and> a1_package ` set pkgs = {p} \<longleftrightarrow>
      (\<exists>q qs. pkgs = q # qs \<and> a1_package q = p \<and> list_all (\<lambda>x. a1_package x = a1_package q) qs)"
    by (cases pkgs) (auto simp: list_all_iff)
  show ?thesis
    unfolding u [symmetric] conj_assoc [symmetric] one
    by (cases pkgs) (auto simp: merge_affected_def)
qed

end
