(* ===== verification/Packages.thy ===== *)
theory Packages
  imports Complex_Main Purl
begin

text \<open>
  Tables of the database and the packages of the second generation: \<open>PackageV2\<close> and
  \<open>PackageQuerySetV2\<close> of \<open>vulnerabilities/models.py\<close>.

  A table is the list of its rows in the order of their creation, and the primary key of a row is its
  position. A bulk creation that ignores conflicts skips a row that a unique constraint rejects.
\<close>

section \<open>Tables\<close>

definition rows_where :: "('a \<Rightarrow> bool) \<Rightarrow> 'a list \<Rightarrow> nat list" where
  "rows_where P t = filter (\<lambda>i. P (t ! i)) [0..<length t]"

fun bulk_create :: "('a \<Rightarrow> 'a \<Rightarrow> bool) \<Rightarrow> 'a list \<Rightarrow> 'a list \<Rightarrow> 'a list" where
  "bulk_create conflict [] t = t"
| "bulk_create conflict (r # rs) t =
     bulk_create conflict rs (if list_ex (conflict r) t then t else t @ [r])"

text \<open>The rows in the order of a column, those where it is null last.\<close>

definition nulls_last :: "('a \<Rightarrow> 'k::linorder option) \<Rightarrow> 'a list \<Rightarrow> 'a list" where
  "nulls_last f xs = sort_key (\<lambda>x. the (f x)) (filter (\<lambda>x. f x \<noteq> None) xs) @ filter (\<lambda>x. f x = None) xs"

text \<open>
  The pattern of the \<open>get_or_create_...\<close> functions: the rows whose key is not in the table yet are
  created, and all the rows with a wanted key are returned.
\<close>

definition get_or_create_rows :: "('a \<Rightarrow> 'k) \<Rightarrow> ('a \<Rightarrow> 'a \<Rightarrow> bool) \<Rightarrow> 'a list \<Rightarrow> 'a list \<Rightarrow> nat list \<times> 'a list" where
  "get_or_create_rows key conflict wanted t =
     (let t' = bulk_create conflict (filter (\<lambda>r. key r \<notin> key ` set t) wanted) t
      in (rows_where (\<lambda>r. key r \<in> key ` set wanted) t', t'))"

lemma bulk_create_prefix: "\<exists>new. bulk_create conflict rs t = t @ new \<and> set new \<subseteq> set rs"
proof (induction rs arbitrary: t)
  case (Cons r rs)
  show ?case
  proof (cases "list_ex (conflict r) t")
    case True
    with Cons.IH [of t] show ?thesis by auto
  next
    case False
    from Cons.IH [of "t @ [r]"] obtain new where "bulk_create conflict rs (t @ [r]) = t @ r # new" "set new \<subseteq> set rs"
      by auto
    with False show ?thesis by (intro exI [of _ "r # new"]) auto
  qed
qed simp

lemma bulk_create_has: "r \<in> set rs \<Longrightarrow> \<exists>x\<in>set (bulk_create conflict rs t). x = r \<or> conflict r x"
proof (induction rs arbitrary: t)
  case (Cons a rs)
  show ?case
  proof (cases "r = a")
    case True
    let ?t = "if list_ex (conflict a) t then t else t @ [a]"
    have "\<exists>x\<in>set ?t. x = a \<or> conflict a x"
      by (cases "list_ex (conflict a) t") (auto simp: list_ex_iff)
    then have "\<exists>x\<in>set ?t. x = r \<or> conflict r x" unfolding True .
    moreover have "set ?t \<subseteq> set (bulk_create conflict rs ?t)"
      using bulk_create_prefix [of conflict rs ?t] by (elim exE conjE) simp
    ultimately have "\<exists>x\<in>set (bulk_create conflict rs ?t). x = r \<or> conflict r x" by (meson subsetD)
    then show ?thesis by simp
  next
    case False
    with Cons.prems have "r \<in> set rs" by simp
    then show ?thesis unfolding bulk_create.simps by (rule Cons.IH)
  qed
qed simp

lemma bulk_create_keys:
  assumes "\<And>a b. conflict a b \<Longrightarrow> key a = key b"
  shows "key ` set (bulk_create conflict rs t) = key ` set rs \<union> key ` set t"
proof (induction rs arbitrary: t)
  case (Cons r rs)
  show ?case
  proof (cases "list_ex (conflict r) t")
    case True
    then have "key r \<in> key ` set t" using assms by (auto simp: list_ex_iff)
    with True Cons.IH [of t] show ?thesis by auto
  next
    case False
    with Cons.IH [of "t @ [r]"] show ?thesis by auto
  qed
qed simp

text \<open>
  The contract of a store of rows: what is asked for is there afterwards, under exactly the asked keys;
  old rows keep their place; and asking again changes nothing.
\<close>

locale row_store =
  fixes ensure :: "'a list \<Rightarrow> 'a list \<Rightarrow> nat list \<times> 'a list"
    and key :: "'a \<Rightarrow> 'k"
  assumes ensure_extends: "\<exists>new. snd (ensure ws t) = t @ new \<and> key ` set new \<subseteq> key ` set ws"
    and ensure_returns: "fst (ensure ws t) = rows_where (\<lambda>r. key r \<in> key ` set ws) (snd (ensure ws t))"
    and ensure_present: "key ` set ws \<subseteq> key ` set (snd (ensure ws t))"
    and ensure_noop: "key ` set ws \<subseteq> key ` set t \<Longrightarrow> snd (ensure ws t) = t"
begin

lemma ensure_keys: "(\<lambda>i. key (snd (ensure ws t) ! i)) ` set (fst (ensure ws t)) = key ` set ws"
proof
  show "(\<lambda>i. key (snd (ensure ws t) ! i)) ` set (fst (ensure ws t)) \<subseteq> key ` set ws"
    unfolding ensure_returns by (auto simp: rows_where_def)
  show "key ` set ws \<subseteq> (\<lambda>i. key (snd (ensure ws t) ! i)) ` set (fst (ensure ws t))"
  proof
    fix k assume k: "k \<in> key ` set ws"
    then have "k \<in> key ` set (snd (ensure ws t))" using ensure_present by blast
    then obtain r where "r \<in> set (snd (ensure ws t))" "k = key r" by blast
    then obtain i where i: "i < length (snd (ensure ws t))" "k = key (snd (ensure ws t) ! i)"
      by (auto simp: in_set_conv_nth)
    then have "i \<in> set (fst (ensure ws t))" unfolding ensure_returns using k by (simp add: rows_where_def)
    with i(2) show "k \<in> (\<lambda>i. key (snd (ensure ws t) ! i)) ` set (fst (ensure ws t))" by blast
  qed
qed

lemma ensure_idem: "ensure ws (snd (ensure ws t)) = ensure ws t"
proof -
  have s: "snd (ensure ws (snd (ensure ws t))) = snd (ensure ws t)"
    by (rule ensure_noop [OF ensure_present])
  then have "fst (ensure ws (snd (ensure ws t))) = fst (ensure ws t)"
    by (simp add: ensure_returns)
  with s show ?thesis by (simp add: prod_eq_iff)
qed

lemma ensure_old_row: "i < length t \<Longrightarrow> snd (ensure ws t) ! i = t ! i"
  using ensure_extends [of ws t] by (auto simp: nth_append)

lemma ensure_in_range: "i \<in> set (fst (ensure ws t)) \<Longrightarrow> i < length (snd (ensure ws t))"
  unfolding ensure_returns by (auto simp: rows_where_def)

lemma ensure_length: "length t \<le> length (snd (ensure ws t))"
  using ensure_extends [of ws t] by auto

end

text \<open>A table whose unique columns contain the key gives such a store.\<close>

locale keyed_table =
  fixes key :: "'a \<Rightarrow> 'k"
    and conflict :: "'a \<Rightarrow> 'a \<Rightarrow> bool"
  assumes conflict_key: "conflict a b \<Longrightarrow> key a = key b"

sublocale keyed_table \<subseteq> store: row_store "get_or_create_rows key conflict" key
proof
  fix ws t
  let ?new = "filter (\<lambda>r. key r \<notin> key ` set t) ws"
  from bulk_create_prefix [of conflict ?new t] obtain new where
    new: "bulk_create conflict ?new t = t @ new" "set new \<subseteq> set ?new" by blast
  then have "key ` set new \<subseteq> key ` set ws" by auto
  with new(1) show "\<exists>new. snd (get_or_create_rows key conflict ws t) = t @ new \<and> key ` set new \<subseteq> key ` set ws"
    by (simp add: get_or_create_rows_def Let_def)
  show "fst (get_or_create_rows key conflict ws t) =
      rows_where (\<lambda>r. key r \<in> key ` set ws) (snd (get_or_create_rows key conflict ws t))"
    by (simp add: get_or_create_rows_def Let_def)
  show "key ` set ws \<subseteq> key ` set (snd (get_or_create_rows key conflict ws t))"
  proof
    fix k assume "k \<in> key ` set ws"
    then have "k \<in> key ` set ?new \<union> key ` set t" by auto
    then show "k \<in> key ` set (snd (get_or_create_rows key conflict ws t))"
      using bulk_create_keys [of conflict key ?new t] conflict_key
      by (simp add: get_or_create_rows_def Let_def)
  qed
  assume "key ` set ws \<subseteq> key ` set t"
  then have "?new = []" by (auto simp: filter_empty_conv)
  then show "snd (get_or_create_rows key conflict ws t) = t"
    by (simp add: get_or_create_rows_def Let_def)
qed

section \<open>Packages\<close>

record package_row =
  pkg_fields :: "(string \<times> string) list"
  package_url :: string
  plain_package_url :: string
  is_ghost :: bool
  pkg_risk_score :: "rat option"
  version_rank :: nat

abbreviation pkg_field :: "string \<Rightarrow> package_row \<Rightarrow> string" where
  "pkg_field k p \<equiv> dict_get (pkg_fields p) k []"

definition package_of_purl :: "purl_lib \<Rightarrow> purl_or_str \<Rightarrow> package_row result" where
  "package_of_purl L p =
     (case purl_to_dict L p True of Inl e \<Rightarrow> Inl e
      | Inr d \<Rightarrow> (case lib_of_fields L d of Inl e \<Rightarrow> Inl e
        | Inr q \<Rightarrow> (case normalize_purl L (PObj q) of Inl e \<Rightarrow> Inl e
          | Inr n \<Rightarrow> (case plain_purl L (PObj n) of Inl e \<Rightarrow> Inl e
            | Inr pl \<Rightarrow> Inr \<lparr>pkg_fields = d, package_url = lib_to_string L n,
                          plain_package_url = lib_to_string L pl, is_ghost = False,
                          pkg_risk_score = None, version_rank = 0\<rparr>))))"

definition unique_package_fields :: "string list" where
  "unique_package_fields = [''type'', ''namespace'', ''name'', ''version'', ''qualifiers'', ''subpath'']"

definition package_conflict :: "package_row \<Rightarrow> package_row \<Rightarrow> bool" where
  "package_conflict p q \<longleftrightarrow> package_url p = package_url q \<or>
     list_all (\<lambda>k. pkg_field k p = pkg_field k q) unique_package_fields"

definition bulk_get_or_create_from_purls ::
    "purl_lib \<Rightarrow> purl_or_str list \<Rightarrow> package_row list \<Rightarrow> (nat list \<times> package_row list) result" where
  "bulk_get_or_create_from_purls L purls t =
     (case map_result (package_of_purl L) purls of
        Inl e \<Rightarrow> Inl e
      | Inr rows \<Rightarrow>
          (let t' = bulk_create package_conflict rows t
           in Inr (rows_where (\<lambda>r. package_url r \<in> package_url ` set rows) t', t')))"

section \<open>Version ranks\<close>

text \<open>The other versions of a package, and the ranks that \<open>calculate_version_rank\<close> gives them.\<close>

definition same_package :: "package_row \<Rightarrow> package_row \<Rightarrow> bool" where
  "same_package p q \<longleftrightarrow> list_all (\<lambda>k. pkg_field k p = pkg_field k q) [''type'', ''namespace'', ''name'']"

definition group_packages :: "package_row \<Rightarrow> package_row list \<Rightarrow> nat list" where
  "group_packages p t = rows_where (same_package p) t"

fun set_ranks :: "nat \<Rightarrow> nat list \<Rightarrow> package_row list \<Rightarrow> package_row list" where
  "set_ranks rank [] t = t"
| "set_ranks rank (i # is) t = set_ranks (Suc rank) is (t[i := (t ! i)\<lparr>version_rank := rank\<rparr>])"

text \<open>
  A query of packages of one name is ordered by the rank, then by the version, the qualifiers and the
  subpath as texts (\<open>Meta.ordering\<close>; texts compare by their code points here).
\<close>

definition meta_order :: "package_row list \<Rightarrow> nat list \<Rightarrow> nat list" where
  "meta_order t is = sort_key (\<lambda>i. version_rank (t ! i))
     (sort_key (\<lambda>i. map (\<lambda>k. pkg_field k (t ! i)) [''version'', ''qualifiers'', ''subpath'']) is)"

text \<open>
  \<open>vclass ty v\<close> is the version of the text \<open>v\<close> in the scheme of the package type \<open>ty\<close>; an invalid
  version raises. The method returns the rank that its own, older copy of the row has.
\<close>

definition calculate_version_rank ::
    "(string \<Rightarrow> string \<Rightarrow> ('v::linorder) result) \<Rightarrow> package_row \<Rightarrow> package_row list \<Rightarrow> (nat \<times> package_row list) result" where
  "calculate_version_rank vclass p t =
     (let grp = meta_order t (group_packages p t)
      in if list_ex (\<lambda>i. version_rank (t ! i) = 0) grp
         then (case map_result (\<lambda>i. vclass (pkg_field ''type'' p) (pkg_field ''version'' (t ! i))) grp of
             Inl e \<Rightarrow> Inl e
           | Inr vs \<Rightarrow> Inr (version_rank p, set_ranks 1 (map fst (sort_key snd (zip grp vs))) t))
         else Inr (version_rank p, t))"

definition fixed_by_versions :: "package_row \<Rightarrow> package_row list \<Rightarrow> nat list" where
  "fixed_by_versions p t =
     rows_where (\<lambda>q. list_all (\<lambda>k. pkg_field k q = pkg_field k p)
                       [''name'', ''namespace'', ''type'', ''qualifiers'', ''subpath'']) t"

text \<open>
  \<open>get_non_vulnerable_versions\<close>: \<open>affected\<close> and \<open>fixing\<close> tell which packages a latest, unfurled
  advisory names as affected and as fixing.
\<close>

definition get_non_vulnerable_versions ::
    "(string \<Rightarrow> string \<Rightarrow> ('v::linorder) result) \<Rightarrow> (nat \<Rightarrow> bool) \<Rightarrow> (nat \<Rightarrow> bool) \<Rightarrow> package_row \<Rightarrow> package_row list \<Rightarrow>
       ((nat option \<times> nat option) \<times> package_row list) result" where
  "get_non_vulnerable_versions vclass affected fixing p t =
     (case (if version_rank p = 0 then map_sum id snd (calculate_version_rank vclass p t) else Inr t) of
        Inl e \<Rightarrow> Inl e
      | Inr t \<Rightarrow>
          (let qs = sort_key (\<lambda>i. version_rank (t ! i))
                      (filter (\<lambda>i. fixing i \<and> \<not> affected i \<and> \<not> is_ghost (t ! i) \<and>
                                   version_rank (t ! i) > version_rank p) (fixed_by_versions p t))
           in Inr (if qs = [] then (None, None) else (Some (hd qs), Some (last qs)), t)))"

section \<open>Ranks follow versions\<close>

lemma set_ranks_nth:
  "distinct is \<Longrightarrow> set is \<subseteq> {..<length t} \<Longrightarrow>
   length (set_ranks r is t) = length t \<and>
   (\<forall>k<length is. set_ranks r is t ! (is ! k) = (t ! (is ! k))\<lparr>version_rank := r + k\<rparr>) \<and>
   (\<forall>i. i \<notin> set is \<longrightarrow> set_ranks r is t ! i = t ! i)"
proof (induction "is" arbitrary: r t)
  case (Cons i "is")
  let ?t = "t[i := (t ! i)\<lparr>version_rank := r\<rparr>]"
  from Cons.prems have "distinct is" "set is \<subseteq> {..<length ?t}" "i \<notin> set is" "i < length t" by auto
  note ih = Cons.IH [OF this(1,2), of "Suc r"]
  have "set_ranks r (i # is) t ! ((i # is) ! k) = (t ! ((i # is) ! k))\<lparr>version_rank := r + k\<rparr>"
    if "k < length (i # is)" for k
  proof (cases k)
    case 0
    with ih \<open>i \<notin> set is\<close> \<open>i < length t\<close> show ?thesis by simp
  next
    case (Suc m)
    with that have m: "m < length is" by simp
    then have "is ! m \<noteq> i" using \<open>i \<notin> set is\<close> nth_mem by metis
    with ih m Suc show ?thesis by simp
  qed
  then show ?case using ih by simp
qed simp

lemma meta_order_perm [simp]: "set (meta_order t is) = set is" "distinct (meta_order t is) = distinct is"
  by (simp_all add: meta_order_def)

lemma group_packages_props: "distinct (group_packages p t) \<and> set (group_packages p t) \<subseteq> {..<length t}"
  by (auto simp: group_packages_def rows_where_def)

definition group_version :: "(string \<Rightarrow> string \<Rightarrow> ('v::linorder) result) \<Rightarrow> package_row \<Rightarrow> package_row \<Rightarrow> 'v result" where
  "group_version vclass p q = vclass (pkg_field ''type'' p) (pkg_field ''version'' q)"

text \<open>The ranks of a group tell its versions apart and are in their order.\<close>

definition ranked :: "(string \<Rightarrow> string \<Rightarrow> ('v::linorder) result) \<Rightarrow> package_row \<Rightarrow> package_row list \<Rightarrow> bool" where
  "ranked vclass p t \<longleftrightarrow>
     (\<forall>i\<in>set (group_packages p t). 0 < version_rank (t ! i) \<and> (\<exists>v. group_version vclass p (t ! i) = Inr v)) \<and>
     (\<forall>i\<in>set (group_packages p t). \<forall>j\<in>set (group_packages p t).
        (version_rank (t ! i) = version_rank (t ! j) \<longrightarrow> i = j) \<and>
        (\<forall>v w. group_version vclass p (t ! i) = Inr v \<longrightarrow> group_version vclass p (t ! j) = Inr w \<longrightarrow> v < w \<longrightarrow>
           version_rank (t ! i) < version_rank (t ! j)))"

lemma map_result_nth:
  "map_result f xs = Inr ys \<Longrightarrow> length ys = length xs \<and> (\<forall>i<length xs. f (xs ! i) = Inr (ys ! i))"
  by (auto simp: map_result_Inr_iff list_all2_conv_all_nth)

lemma same_package_rank [simp]: "same_package p (q\<lparr>version_rank := n\<rparr>) = same_package p q"
  by (simp add: same_package_def)

text \<open>The packages of a group, in any order, sorted by their versions and ranked in that order.\<close>

lemma set_ranks_ranked:
  assumes "distinct g" "set g = set (group_packages p t)" "map_result (\<lambda>i. group_version vclass p (t ! i)) g = Inr vs"
    "t' = set_ranks 1 (map fst (sort_key snd (zip g vs))) t"
  shows "ranked vclass p t' \<and> length t' = length t \<and>
     list_all (\<lambda>i. if i \<in> set g then t' ! i = (t ! i)\<lparr>version_rank := version_rank (t' ! i)\<rparr>
                   else t' ! i = t ! i) [0..<length t]"
proof -
  let ?g = "g"
  note g = group_packages_props [of p t]
  note vs = assms(3) and t' = assms(4)
  let ?ps = "sort_key snd (zip ?g vs)"
  let ?is = "map fst ?ps"
  note vn = map_result_nth [OF vs]
  have "mset ?ps = mset (zip ?g vs)" by simp
  then have "mset ?is = mset (map fst (zip ?g vs))" by (simp only: mset_map)
  then have "mset ?is = mset ?g" using vn by simp
  then have "set ?is = set ?g" "distinct ?is" using assms(1) by (metis mset_eq_setD, metis mset_eq_imp_distinct_iff)
  then have is_props: "distinct ?is" "set ?is \<subseteq> {..<length t}" using g assms(2) by auto
  note ranks = set_ranks_nth [OF is_props, of 1, folded t']
  have pos: "\<exists>k<length ?ps. fst (?ps ! k) = i \<and> group_version vclass p (t ! i) = Inr (snd (?ps ! k)) \<and>
      version_rank (t' ! i) = Suc k" if "i \<in> set ?g" for i
  proof -
    from that \<open>set ?is = set ?g\<close> obtain k where k: "k < length ?ps" "fst (?ps ! k) = i"
      by (metis in_set_conv_nth length_map nth_map)
    have "?ps ! k \<in> set (zip ?g vs)" using k(1) nth_mem [of k ?ps] by simp
    then obtain m where m: "m < length ?g" "?ps ! k = (?g ! m, vs ! m)" using vn by (auto simp: set_zip)
    with vn k(2) have "group_version vclass p (t ! i) = Inr (snd (?ps ! k))" by auto
    moreover have "version_rank (t' ! i) = Suc k" using ranks k by auto
    ultimately show ?thesis using k by blast
  qed
  have sorted: "snd (?ps ! k) \<le> snd (?ps ! l)" if "k \<le> l" "l < length ?ps" for k l
    using sorted_nth_mono [OF sorted_sort_key that(1), of snd "zip ?g vs"] that by simp
  have rows: "t' ! i = (t ! i)\<lparr>version_rank := version_rank (t' ! i)\<rparr>" if "i \<in> set ?g" for i
  proof -
    from that \<open>set ?is = set ?g\<close> obtain k where "k < length ?is" "?is ! k = i" by (metis in_set_conv_nth)
    with ranks show ?thesis by auto
  qed
  have others: "t' ! i = t ! i" if "i \<notin> set ?g" for i
    using ranks that \<open>set ?is = set ?g\<close> by blast
  have same: "same_package p (t' ! i) = same_package p (t ! i)" if "i < length t" for i
    using rows [of i] others [of i] same_package_rank by (cases "i \<in> set ?g") metis+
  have "group_packages p t' = group_packages p t"
    unfolding group_packages_def rows_where_def using ranks same by (auto intro!: filter_cong)
  then have grp: "set (group_packages p t') = set ?g" using assms(2) by simp
  have ver: "group_version vclass p (t' ! i) = group_version vclass p (t ! i)" if "i \<in> set ?g" for i
    using arg_cong [OF rows [OF that], of "group_version vclass p"] by (simp add: group_version_def)
  have "ranked vclass p t'"
    unfolding ranked_def grp
  proof (intro conjI ballI allI impI)
    fix i assume "i \<in> set ?g"
    with pos [OF this] ver [OF this] show "0 < version_rank (t' ! i)" "\<exists>v. group_version vclass p (t' ! i) = Inr v"
      by auto
  next
    fix i j assume i: "i \<in> set ?g" and j: "j \<in> set ?g"
    note pi = pos [OF i] and pj = pos [OF j]
    show "i = j" if "version_rank (t' ! i) = version_rank (t' ! j)" using pi pj that by auto
    show "version_rank (t' ! i) < version_rank (t' ! j)"
      if "group_version vclass p (t' ! i) = Inr v" "group_version vclass p (t' ! j) = Inr w" "v < w" for v w
    proof (rule ccontr)
      from pi obtain k where k: "k < length ?ps" "group_version vclass p (t ! i) = Inr (snd (?ps ! k))"
        "version_rank (t' ! i) = Suc k" by blast
      have v: "v = snd (?ps ! k)" using that(1) ver [OF i] k(2) by simp
      from pj obtain l where l: "l < length ?ps" "group_version vclass p (t ! j) = Inr (snd (?ps ! l))"
        "version_rank (t' ! j) = Suc l" by blast
      have w: "w = snd (?ps ! l)" using that(2) ver [OF j] l(2) by simp
      assume "\<not> version_rank (t' ! i) < version_rank (t' ! j)"
      then have "l \<le> k" using k(3) l(3) by simp
      with sorted [OF this k(1)] v w that(3) show False by simp
    qed
  qed
  then show ?thesis using ranks rows others by (auto simp: list_all_iff)
qed

text \<open>
  \<open>calculate_version_rank\<close> ranks all versions of a package as soon as one has no rank: the ranks are
  then positive, different, and in the order of the versions; nothing else changes in the table.
\<close>

theorem version_ranks_ordered:
  assumes "calculate_version_rank vclass p t = Inr (r, t')"
    and "list_ex (\<lambda>i. version_rank (t ! i) = 0) (group_packages p t)"
  shows "ranked vclass p t' \<and> length t' = length t \<and>
     list_all (\<lambda>i. if i \<in> set (group_packages p t) then t' ! i = (t ! i)\<lparr>version_rank := version_rank (t' ! i)\<rparr>
                   else t' ! i = t ! i) [0..<length t]"
proof -
  let ?g = "meta_order t (group_packages p t)"
  have g: "set ?g = set (group_packages p t)" by simp
  from assms obtain vs where
    vs: "map_result (\<lambda>i. group_version vclass p (t ! i)) ?g = Inr vs"
    and t': "t' = set_ranks 1 (map fst (sort_key snd (zip ?g vs))) t"
    by (auto simp: calculate_version_rank_def group_version_def Let_def list_ex_iff split: sum.splits)
  show ?thesis
    using set_ranks_ranked [OF _ g vs t'] unfolding g by (simp add: group_packages_props)
qed


lemma sorted_ends:
  "sorted (map f qs) \<Longrightarrow> qs \<noteq> [] \<Longrightarrow> j \<in> set qs \<Longrightarrow> f (hd qs) \<le> f j \<and> f j \<le> f (last qs)"
proof (induction qs arbitrary: j)
  case (Cons q qs)
  then show ?case by (cases "qs = []") auto
qed simp

text \<open>
  The versions a package may be upgraded to: those some current advisory names as fixed, that none
  names as affected, and that exist.
\<close>

definition safe_versions :: "(nat \<Rightarrow> bool) \<Rightarrow> (nat \<Rightarrow> bool) \<Rightarrow> package_row \<Rightarrow> package_row list \<Rightarrow> nat set" where
  "safe_versions affected fixing p t =
     {j \<in> set (fixed_by_versions p t). fixing j \<and> \<not> affected j \<and> \<not> is_ghost (t ! j)}"

text \<open>
  C21: with its ranks in order, a package is shown the next and the latest safe version: every safe
  version after its own lies between the two, and none is shown only when there is none after it.
\<close>

theorem non_vulnerable_versions_bracket:
  assumes "get_non_vulnerable_versions vclass affected fixing (t ! i) t = Inr ((next, latest), t')"
    and "i < length t" "ranked vclass (t ! i) t"
  shows "let safe = safe_versions affected fixing (t ! i) t;
             ver = (\<lambda>j. projr (group_version vclass (t ! i) (t ! j)))
    in t' = t \<and>
    (case (next, latest) of
       (Some n, Some l) \<Rightarrow> n \<in> safe \<and> l \<in> safe \<and> ver i \<le> ver n \<and>
         (\<forall>j\<in>safe. ver i < ver j \<longrightarrow> ver n \<le> ver j \<and> ver j \<le> ver l)
     | (None, None) \<Rightarrow> \<forall>j\<in>safe. ver j \<le> ver i
     | _ \<Rightarrow> False)"
proof -
  let ?p = "t ! i" and ?safe = "safe_versions affected fixing (t ! i) t"
  let ?ver = "\<lambda>j. projr (group_version vclass (t ! i) (t ! j))"
  have grp: "j \<in> set (group_packages ?p t)" if "j \<in> ?safe" for j
    using that by (auto simp: safe_versions_def fixed_by_versions_def group_packages_def rows_where_def same_package_def)
  have i: "i \<in> set (group_packages ?p t)"
    using assms(2) by (simp add: group_packages_def rows_where_def same_package_def)
  have order: "version_rank (t ! j) < version_rank (t ! k)"
    if "j \<in> set (group_packages ?p t)" "k \<in> set (group_packages ?p t)" "?ver j < ?ver k" for j k
    using assms(3) that unfolding ranked_def by (metis sum.sel(2))
  have le_rank: "?ver j \<le> ?ver k"
    if "j \<in> set (group_packages ?p t)" "k \<in> set (group_packages ?p t)" "version_rank (t ! j) \<le> version_rank (t ! k)" for j k
    using order [OF that(2,1)] that(3) by (meson leD leI)
  have pos: "0 < version_rank ?p" using assms(3) i by (auto simp: ranked_def)
  let ?c = "filter (\<lambda>j. fixing j \<and> \<not> affected j \<and> \<not> is_ghost (t ! j) \<and> version_rank (t ! j) > version_rank ?p)
              (fixed_by_versions ?p t)"
  let ?qs = "sort_key (\<lambda>j. version_rank (t ! j)) ?c"
  have c: "set ?c = {j \<in> ?safe. version_rank ?p < version_rank (t ! j)}" by (auto simp: safe_versions_def)
  have qs: "set ?qs = {j \<in> ?safe. version_rank ?p < version_rank (t ! j)}" by (simp only: set_sort c)
  have res: "t' = t" "(next, latest) = (if ?qs = [] then (None, None) else (Some (hd ?qs), Some (last ?qs)))"
    using assms(1) pos by (auto simp: get_non_vulnerable_versions_def Let_def split: if_splits)
  have cand: "j \<in> set ?qs" if "j \<in> ?safe" "?ver i < ?ver j" for j
    unfolding qs using that order [OF i grp [OF that(1)] that(2)] by simp
  have sorted: "sorted (map (\<lambda>j. version_rank (t ! j)) ?qs)" by simp
  show ?thesis
  proof (cases "?qs = []")
    case True
    have "?ver j \<le> ?ver i" if "j \<in> ?safe" for j
    proof (rule ccontr)
      assume "\<not> ?ver j \<le> ?ver i"
      with cand [OF that] have "j \<in> set ?qs" by simp
      with True show False by (simp only: list.set empty_iff)
    qed
    with res True show ?thesis by (simp add: Let_def)
  next
    case False
    let ?n = "hd ?qs" and ?l = "last ?qs"
    have n: "?n \<in> ?safe" "version_rank ?p \<le> version_rank (t ! ?n)" and l: "?l \<in> ?safe"
      using hd_in_set [OF False] last_in_set [OF False] unfolding qs by auto
    note bounds = sorted_ends [OF sorted False, THEN conjunct1] sorted_ends [OF sorted False, THEN conjunct2]
    have main: "\<forall>j\<in>?safe. ?ver i < ?ver j \<longrightarrow> ?ver ?n \<le> ?ver j \<and> ?ver j \<le> ?ver ?l"
    proof (intro ballI impI)
      fix j assume j: "j \<in> ?safe" "?ver i < ?ver j"
      show "?ver ?n \<le> ?ver j \<and> ?ver j \<le> ?ver ?l"
        using le_rank [OF grp [OF n(1)] grp [OF j(1)] bounds(1) [OF cand [OF j]]]
          le_rank [OF grp [OF j(1)] grp [OF l] bounds(2) [OF cand [OF j]]] by (rule conjI)
    qed
    have first: "?ver i \<le> ?ver ?n" by (rule le_rank [OF i grp [OF n(1)] n(2)])
    have eq: "(next, latest) = (Some ?n, Some ?l)" using res(2) by (simp only: False if_False)
    show ?thesis unfolding Let_def eq prod.case option.case
      by (intro conjI) (rule res(1), rule n(1), rule l, rule first, rule main)
  qed
qed


section \<open>Rows of packages and their URLs\<close>

text \<open>
  \<open>to_dict\<close> of a package URL has the six fields, in this order; then the fields of a row determine its
  URL.
\<close>

definition purl_fields_law :: "purl_lib \<Rightarrow> bool" where
  "purl_fields_law L \<longleftrightarrow> (\<forall>q. map fst (lib_fields L q) = unique_package_fields)"

definition url_of_fields :: "purl_lib \<Rightarrow> (string \<times> string) list \<Rightarrow> string option" where
  "url_of_fields L d =
     (case lib_of_fields L d of Inl _ \<Rightarrow> None
      | Inr q \<Rightarrow> (case normalize_purl L (PObj q) of Inl _ \<Rightarrow> None | Inr n \<Rightarrow> Some (lib_to_string L n)))"

definition row_ok :: "purl_lib \<Rightarrow> package_row \<Rightarrow> bool" where
  "row_ok L r \<longleftrightarrow> map fst (pkg_fields r) = unique_package_fields \<and> url_of_fields L (pkg_fields r) = Some (package_url r)"

definition packages_ok :: "purl_lib \<Rightarrow> package_row list \<Rightarrow> bool" where
  "packages_ok L t \<longleftrightarrow> list_all (row_ok L) t \<and> distinct (map package_url t)"

lemma package_of_purl_ok: "purl_fields_law L \<Longrightarrow> package_of_purl L p = Inr r \<Longrightarrow> row_ok L r"
  by (auto simp: package_of_purl_def purl_to_dict_def row_ok_def url_of_fields_def purl_fields_law_def
      split: sum.splits)

lemma same_fields: "map fst d = ks \<Longrightarrow> map fst d' = ks \<Longrightarrow> distinct ks \<Longrightarrow>
    (\<And>k. k \<in> set ks \<Longrightarrow> dict_get d k z = dict_get d' k z) \<Longrightarrow> d = d'"
proof (rule nth_equalityI)
  assume m: "map fst d = ks" "map fst d' = ks" "distinct ks" "\<And>k. k \<in> set ks \<Longrightarrow> dict_get d k z = dict_get d' k z"
  show len: "length d = length d'" using m(1,2) by (metis length_map)
  fix i assume i: "i < length d"
  have k: "fst (d ! i) = ks ! i" "fst (d' ! i) = ks ! i" using m(1,2) i len by (metis nth_map)+
  have "distinct (map fst d)" "distinct (map fst d')" "d ! i \<in> set d" "d' ! i \<in> set d'" using i len m(1-3) by simp_all
  then have "map_of d (fst (d ! i)) = Some (snd (d ! i))" "map_of d' (fst (d' ! i)) = Some (snd (d' ! i))"
    by (simp_all add: map_of_eq_Some_iff)
  then have get: "dict_get d (fst (d ! i)) z = snd (d ! i)" "dict_get d' (fst (d' ! i)) z = snd (d' ! i)"
    by (simp_all add: dict_get_def)
  have "ks ! i \<in> set ks" using i m(1) by (metis length_map nth_mem)
  then have "snd (d ! i) = snd (d' ! i)" using m(4) [of "ks ! i"] get k by simp
  with k show "d ! i = d' ! i" by (simp add: prod_eq_iff)
qed

lemma conflict_url: "row_ok L r \<Longrightarrow> row_ok L s \<Longrightarrow> package_conflict r s \<Longrightarrow> package_url r = package_url s"
proof -
  assume ok: "row_ok L r" "row_ok L s" and c: "package_conflict r s"
  show ?thesis
  proof (cases "package_url r = package_url s")
    case False
    with c have "pkg_fields r = pkg_fields s"
      using ok by (intro same_fields [of _ unique_package_fields])
        (auto simp: package_conflict_def list_all_iff row_ok_def unique_package_fields_def)
    with ok show ?thesis by (simp add: row_ok_def)
  qed
qed

text \<open>A creation leaves the wanted URLs in the table, each once, and adds no other.\<close>

lemma bulk_create_packages:
  "list_all (row_ok L) rs \<Longrightarrow> packages_ok L t \<Longrightarrow>
   packages_ok L (bulk_create package_conflict rs t) \<and>
   package_url ` set (bulk_create package_conflict rs t) = package_url ` set rs \<union> package_url ` set t"
proof (induction rs arbitrary: t)
  case (Cons r rs)
  show ?case
  proof (cases "list_ex (package_conflict r) t")
    case True
    then obtain s where "s \<in> set t" "package_conflict r s" by (auto simp: list_ex_iff)
    moreover from this Cons.prems have "package_url r = package_url s"
      by (intro conflict_url [of L]) (auto simp: packages_ok_def list_all_iff)
    ultimately have "package_url r \<in> package_url ` set t" by simp
    then show ?thesis using True Cons.IH [of t] Cons.prems by auto
  next
    case False
    then have "\<forall>s\<in>set t. package_url s \<noteq> package_url r"
      by (auto simp: list_ex_iff package_conflict_def)
    then have "packages_ok L (t @ [r])" using Cons.prems by (auto simp: packages_ok_def)
    then show ?thesis using False Cons.IH [of "t @ [r]"] Cons.prems by auto
  qed
qed simp

lemma map_result_row_ok:
  "purl_fields_law L \<Longrightarrow> map_result (package_of_purl L) ps = Inr rows \<Longrightarrow> list_all (row_ok L) rows"
  using package_of_purl_ok [of L] by (auto simp: map_result_Inr_iff list_all2_conv_all_nth list_all_length)

definition purl_urls :: "purl_lib \<Rightarrow> purl list \<Rightarrow> string set" where
  "purl_urls L ps = {package_url r | p r. p \<in> set ps \<and> package_of_purl L (PObj p) = Inr r}"

lemma map_result_urls:
  assumes "map_result (package_of_purl L) (map PObj ps) = Inr rows"
  shows "package_url ` set rows = purl_urls L ps"
proof -
  have "list_all2 (\<lambda>p r. package_of_purl L p = Inr r) (map PObj ps) rows" using assms by (simp add: map_result_Inr_iff)
  then have "list_all2 (\<lambda>p r. package_of_purl L (PObj p) = Inr r) ps rows" by (simp add: list.rel_map)
  then have "\<And>r. r \<in> set rows \<longleftrightarrow> (\<exists>p\<in>set ps. package_of_purl L (PObj p) = Inr r)"
    by (induction rule: list_all2_induct) auto
  then show ?thesis unfolding purl_urls_def by blast
qed

lemma bulk_get_packages:
  assumes "purl_fields_law L" "packages_ok L t" "bulk_get_or_create_from_purls L (map PObj ps) t = Inr (ids, t')"
  shows "packages_ok L t'" "\<exists>new. t' = t @ new" "package_url ` set t' = package_url ` set t \<union> purl_urls L ps"
    "ids = rows_where (\<lambda>r. package_url r \<in> purl_urls L ps) t'"
proof -
  obtain rows where rows: "map_result (package_of_purl L) (map PObj ps) = Inr rows"
    and t': "t' = bulk_create package_conflict rows t" and ids: "ids = rows_where (\<lambda>r. package_url r \<in> package_url ` set rows) t'"
    using assms(3) by (auto simp: bulk_get_or_create_from_purls_def Let_def split: sum.splits)
  note urls = map_result_urls [OF rows]
  note b = bulk_create_packages [OF map_result_row_ok [OF assms(1) rows] assms(2)]
  show "packages_ok L t'" using b by (simp add: t')
  show "\<exists>new. t' = t @ new" using bulk_create_prefix [of package_conflict rows t] by (auto simp: t')
  show "package_url ` set t' = package_url ` set t \<union> purl_urls L ps" using b urls by (auto simp: t')
  show "ids = rows_where (\<lambda>r. package_url r \<in> purl_urls L ps) t'" using ids urls by simp
qed

lemma set_ranks_urls:
  "list_all2 (\<lambda>r s. pkg_fields r = pkg_fields s \<and> package_url r = package_url s) t (set_ranks n is t)"
proof (induction "is" arbitrary: n t)
  case (Cons i "is")
  have "list_all2 (\<lambda>r s. pkg_fields r = pkg_fields s \<and> package_url r = package_url s) t (t[i := (t ! i)\<lparr>version_rank := n\<rparr>])"
    by (cases "i < length t") (auto simp: list_all2_conv_all_nth nth_list_update)
  with Cons.IH [of "t[i := (t ! i)\<lparr>version_rank := n\<rparr>]" "Suc n"] show ?case
    by (auto simp: list_all2_conv_all_nth)
qed (simp add: list_all2_refl)

lemma version_rank_urls:
  assumes "calculate_version_rank vclass p t = Inr (n, t')"
  shows "map package_url t' = map package_url t" "packages_ok L t \<Longrightarrow> packages_ok L t'"
proof -
  have l: "list_all2 (\<lambda>r s. pkg_fields r = pkg_fields s \<and> package_url r = package_url s) t t'"
    using assms set_ranks_urls by (auto simp: calculate_version_rank_def Let_def list_all2_refl split: if_splits sum.splits)
  then show u: "map package_url t' = map package_url t" by (auto simp: list_all2_conv_all_nth intro!: nth_equalityI)
  assume "packages_ok L t"
  then show "packages_ok L t'" using l u by (auto simp: packages_ok_def row_ok_def list_all_length list_all2_conv_all_nth)
qed

section \<open>Examples\<close>

text \<open>Witness: three versions of one package, versions read as numbers of ones.\<close>

definition demo_row :: "string \<Rightarrow> nat \<Rightarrow> package_row" where
  "demo_row v r = \<lparr>pkg_fields = [(''type'', ''npm''), (''name'', ''a''), (''version'', v)], package_url = v,
     plain_package_url = v, is_ghost = False, pkg_risk_score = None, version_rank = r\<rparr>"

definition demo_vclass :: "string \<Rightarrow> string \<Rightarrow> nat result" where
  "demo_vclass ty v = Inr (length v)"

definition demo_rows :: "package_row list" where
  "demo_rows = [demo_row ''111'' 0, demo_row ''1'' 1, demo_row ''11'' 0]"

lemma version_ranks_ordered_witness:
  "map version_rank (snd (projr (calculate_version_rank demo_vclass (demo_row ''111'' 0) demo_rows))) = [3, 1, 2] \<and>
   ranked demo_vclass (demo_row ''111'' 0) (snd (projr (calculate_version_rank demo_vclass (demo_row ''111'' 0) demo_rows)))"
proof -
  have c: "calculate_version_rank demo_vclass (demo_row ''111'' 0) demo_rows =
      Inr (0, [demo_row ''111'' 3, demo_row ''1'' 1, demo_row ''11'' 2])" by code_simp
  have "list_ex (\<lambda>i. version_rank (demo_rows ! i) = 0) (group_packages (demo_row ''111'' 0) demo_rows)" by code_simp
  from version_ranks_ordered [OF c this] c show ?thesis by (simp add: demo_row_def)
qed

lemma non_vulnerable_versions_bracket_witness:
  "get_non_vulnerable_versions demo_vclass (\<lambda>i. i = 1) (\<lambda>i. True) (demo_row ''1'' 1)
     [demo_row ''111'' 3, demo_row ''1'' 1, demo_row ''11'' 2] =
   Inr ((Some 2, Some 0), [demo_row ''111'' 3, demo_row ''1'' 1, demo_row ''11'' 2]) \<and>
   2 \<in> safe_versions (\<lambda>i. i = 1) (\<lambda>i. True) (demo_row ''1'' 1) [demo_row ''111'' 3, demo_row ''1'' 1, demo_row ''11'' 2]"
proof -
  let ?t = "[demo_row ''111'' 3, demo_row ''1'' 1, demo_row ''11'' 2]"
  have c: "get_non_vulnerable_versions demo_vclass (\<lambda>i. i = 1) (\<lambda>i. True) (?t ! 1) ?t = Inr ((Some 2, Some 0), ?t)"
    by code_simp
  have g: "group_packages (?t ! 1) ?t = [0, 1, 2]" by code_simp
  have r: "ranked demo_vclass (?t ! 1) ?t"
    unfolding ranked_def g by (simp add: group_version_def demo_vclass_def demo_row_def dict_get_def)
  from non_vulnerable_versions_bracket [OF c _ r] c show ?thesis by (simp add: Let_def)
qed

text \<open>
  The rank that \<open>calculate_version_rank\<close> computes is not seen by the object it is called on: a package
  without a rank takes any safe version for a later one, here version 1 for version 2.
\<close>

lemma stale_rank_downgrade:
  "get_non_vulnerable_versions demo_vclass (\<lambda>i. i = 1) (\<lambda>i. i = 0) (demo_row ''11'' 0) [demo_row ''1'' 1, demo_row ''11'' 0] =
   Inr ((Some 0, Some 0), [demo_row ''1'' 1, demo_row ''11'' 2])"
  by code_simp

end
