(* ===== verification/Risk.thy ===== *)
theory Risk
  imports Complex_Main Importer
begin

text \<open>
  Risk scores: \<open>vulnerabilities/risk.py\<close>, \<open>vulnerabilities/weight_config.py\<close> and
  \<open>vulnerabilities/pipes/risk_score.py\<close>. Scores are rationals where the code has floats; the rounding
  to one decimal (\<open>round(x, 1)\<close>) is a parameter \<open>round1\<close>, of which theorems use only that it is
  monotone and keeps 0 and 10, and \<open>float\<close> on a text is a parameter \<open>py_float\<close> whose \<open>None\<close> is the
  \<open>ValueError\<close>.
\<close>

section \<open>The weights of the sources\<close>

text \<open>
  The entries of \<open>WEIGHT_CONFIG\<close> whose weight is not 5. The other 2,700 entries all have the weight 5,
  which is \<open>DEFAULT_WEIGHT\<close> too, so looking a source up with that default gives the same weight without
  them.
\<close>

definition WEIGHT_CONFIG_high :: "(string \<times> rat) list" where
  "WEIGHT_CONFIG_high = [
    (''nvd.nist.gov'', 9),
    (''api.first.org'', 9),
    (''github.com'', 9),
    (''access.redhat.com'', 9),
    (''bugzilla.redhat.com'', 9),
    (''cve.mitre.org'', 9),
    (''people.canonical.com'', 9),
    (''lists.apache.org'', 9),
    (''ubuntu.com'', 9),
    (''openwall.com'', 9),
    (''lists.fedoraproject.org'', 9),
    (''npmjs.com'', 9),
    (''web.archive.org'', 9),
    (''security.archlinux.org'', 9),
    (''mozilla.org'', 9),
    (''huntr.dev'', 9),
    (''snyk.io'', 9),
    (''vuldb.com'', 9),
    (''jenkins.io'', 9),
    (''security.netapp.com'', 9),
    (''securityfocus.com'', 9),
    (''lists.debian.org'', 9),
    (''rustsec.org'', 8),
    (''usn.ubuntu.com'', 8),
    (''packetstormsecurity.com'', 8),
    (''pkg.go.dev'', 8),
    (''hackerone.com'', 8),
    (''git.kernel.org'', 8),
    (''groups.google.com'', 8),
    (''security.snyk.io'', 8),
    (''lists.opensuse.org'', 8),
    (''rhn.redhat.com'', 8),
    (''seclists.org'', 8),
    (''code.google.com'', 8),
    (''moodle.org'', 8),
    (''portal.msrc.microsoft.com'', 8),
    (''issues.apache.org'', 7),
    (''debian.org'', 7),
    (''jira.xwiki.org'', 7),
    (''exchange.xforce.ibmcloud.com'', 7),
    (''typo3.org'', 7),
    (''exploit-db.com'', 7),
    (''gist.github.com'', 7),
    (''plugins.trac.wordpress.org'', 7),
    (''bugs.wireshark.org'', 7),
    (''git.moodle.org'', 7),
    (''secunia.com'', 7),
    (''huntr.com'', 7),
    (''security.gentoo.org'', 7),
    (''bugs.launchpad.net'', 7),
    (''code.wireshark.org'', 7),
    (''svn.apache.org'', 7),
    (''httpd.apache.org'', 7),
    (''securitytracker.com'', 7),
    (''wordfence.com'', 7),
    (''wireshark.org'', 7),
    (''bugs.chromium.org'', 7),
    (''gitlab.com'', 7),
    (''silverstripe.org'', 7),
    (''crbug.com'', 7),
    (''phpmyadmin.net'', 7),
    (''securitylab.github.com'', 7),
    (''curl.se'', 7),
    (''sourceforge.net'', 7),
    (''drupal.org'', 7),
    (''discuss.hashicorp.com'', 7),
    (''pypi.org'', 7),
    (''djangoproject.com'', 7),
    (''bugzilla.mozilla.org'', 7),
    (''raw.githubusercontent.com'', 7),
    (''lists.gnu.org'', 7),
    (''bugs.debian.org'', 7),
    (''security-tracker.debian.org'', 7),
    (''marc.info'', 7),
    (''support.apple.com'', 7),
    (''blogs.gentoo.org'', 7),
    (''bitbucket.org'', 7),
    (''bugzilla.suse.com'', 7),
    (''go.dev'', 7),
    (''pivotal.io'', 7),
    (''whitesourcesoftware.com'', 7),
    (''cdn.kernel.org'', 7),
    (''gitee.com'', 7),
    (''lore.kernel.org'', 7),
    (''ruby-lang.org'', 7),
    (''msrc.microsoft.com'', 7),
    (''wordpress.org'', 7),
    (''plone.org'', 7),
    (''redhat.com'', 7),
    (''oracle.com'', 7),
    (''anonsvn.wireshark.org'', 7),
    (''mail-archives.apache.org'', 7)]"

definition WEIGHT_CONFIG_six :: "(string \<times> rat) list" where
  "WEIGHT_CONFIG_six = [
    (''xenbits.xen.org'', 6),
    (''postgresql.org'', 6),
    (''twitter.com'', 6),
    (''git.openssl.org'', 6),
    (''jvn.jp'', 6),
    (''rubygems.org'', 6),
    (''symfony.com'', 6),
    (''www-01.ibm.com'', 6),
    (''src.chromium.org'', 6),
    (''tenable.com'', 6),
    (''lists.apple.com'', 6),
    (''packagist.org'', 6),
    (''issues.redhat.com'', 6),
    (''helpx.adobe.com'', 6),
    (''phabricator.wikimedia.org'', 6),
    (''review.openstack.org'', 6),
    (''chromereleases.googleblog.com'', 6),
    (''contao.org'', 6),
    (''discuss.elastic.co'', 6),
    (''security.openstack.org'', 6),
    (''lkml.org'', 6),
    (''medium.com'', 6),
    (''nozominetworks.com'', 6),
    (''grafana.com'', 6),
    (''oval.cisecurity.org'', 6),
    (''review.opendev.org'', 6),
    (''advisory.checkmarx.net'', 6),
    (''vupen.com'', 6),
    (''launchpad.net'', 6),
    (''openssl.org'', 6),
    (''framework.zend.com'', 6),
    (''samba.org'', 6),
    (''talosintelligence.com'', 6),
    (''zerodayinitiative.com'', 6),
    (''bugs.eclipse.org'', 6),
    (''gitlab.gnome.org'', 6),
    (''nifi.apache.org'', 6),
    (''x-stream.github.io'', 6),
    (''tanzu.vmware.com'', 6),
    (''jvndb.jvn.jp'', 6),
    (''opendev.org'', 6),
    (''bugzilla.kernel.org'', 6),
    (''sourceware.org'', 6),
    (''codereview.chromium.org'', 6),
    (''research.jfrog.com'', 6),
    (''discuss.rubyonrails.org'', 6),
    (''spring.io'', 6),
    (''twcert.org.tw'', 6),
    (''googlechromereleases.blogspot.com'', 6),
    (''sec.cloudapps.cisco.com'', 6),
    (''issues.jboss.org'', 6),
    (''simplesamlphp.org'', 6),
    (''mail-archive.com'', 6),
    (''docs.saltstack.com'', 6),
    (''docs.shopware.com'', 6),
    (''kb.isc.org'', 6),
    (''support.f5.com'', 6),
    (''kernel.org'', 6),
    (''osvdb.org'', 6),
    (''cwiki.apache.org'', 6),
    (''hg.moinmo.in'', 6),
    (''fluidattacks.com'', 6),
    (''gitlab.eclipse.org'', 6),
    (''nuget.org'', 6),
    (''lists.openstack.org'', 6),
    (''developer.mozilla.org'', 6),
    (''youtube.com'', 6),
    (''drive.google.com'', 6),
    (''owasp.org'', 6),
    (''vaadin.com'', 6),
    (''mercurial-scm.org'', 6),
    (''mandriva.com'', 6),
    (''archives.neohapsis.com'', 6),
    (''hg.code.sf.net'', 6),
    (''curl.haxx.se'', 6),
    (''pillow.readthedocs.io'', 6),
    (''struts.apache.org'', 6),
    (''vulncheck.com'', 6),
    (''webkitgtk.org'', 6),
    (''documentation.concretecms.org'', 6),
    (''patchstack.com'', 6),
    (''patchwork.kernel.org'', 6),
    (''hg.graphicsmagick.org'', 6),
    (''source.android.com'', 6),
    (''liferay.dev'', 6),
    (''nodesecurity.io'', 6),
    (''web.nvd.nist.gov'', 6),
    (''jira.mongodb.org'', 6),
    (''cve.org'', 6),
    (''core.trac.wordpress.org'', 6),
    (''news.ycombinator.com'', 6),
    (''downloads.asterisk.org'', 6),
    (''tomcat.apache.org'', 6),
    (''kb.cert.org'', 6),
    (''cert-portal.siemens.com'', 6),
    (''devhub.checkmarx.com'', 6),
    (''lists.nongnu.org'', 6),
    (''squid-cache.org'', 6),
    (''ink-desk-28f.notion.site'', 6),
    (''h20566.www2.hpe.com'', 6),
    (''intel.com'', 6),
    (''docs.djangoproject.com'', 6),
    (''go.googlesource.com'', 6),
    (''herolab.usd.de'', 6),
    (''matrix.org'', 6),
    (''talosintel.com'', 6),
    (''vapid.dhs.org'', 6),
    (''ckeditor.com'', 6),
    (''cwe.mitre.org'', 6),
    (''pagure.io'', 6),
    (''cisa.gov'', 6),
    (''weblog.rubyonrails.org'', 6),
    (''markmail.org'', 6),
    (''issues.liferay.com'', 6),
    (''jspwiki-wiki.apache.org'', 6),
    (''gitbox.apache.org'', 6)]"

definition WEIGHT_CONFIG :: "(string \<times> rat) list" where
  "WEIGHT_CONFIG = WEIGHT_CONFIG_high @ WEIGHT_CONFIG_six"

definition DEFAULT_WEIGHT :: rat where
  "DEFAULT_WEIGHT = 5"

definition source_weight :: "string \<Rightarrow> rat" where
  "source_weight source = dict_get WEIGHT_CONFIG source DEFAULT_WEIGHT"

lemma weights_bounded: "5 \<le> source_weight s \<and> source_weight s \<le> 9"
proof -
  have "list_all (\<lambda>(k, w). 5 \<le> w \<and> w \<le> 9) WEIGHT_CONFIG"
    by (simp add: WEIGHT_CONFIG_def WEIGHT_CONFIG_high_def WEIGHT_CONFIG_six_def)
  then show ?thesis
    by (auto simp: source_weight_def dict_get_def DEFAULT_WEIGHT_def list_all_iff split: option.splits dest!: map_of_SomeD)
qed


section \<open>Stored severities\<close>

record sev_row =
  sr_url :: "string option"
  sr_system :: string
  sr_value :: "string option"
  sr_elements :: "string option"
  sr_published :: "string option"

text \<open>
  \<open>urlparse(url).netloc\<close>: leading control characters and spaces go, tabs and line ends go everywhere, a
  scheme is cut off, and what follows \<open>//\<close> up to \<open>/\<close>, \<open>?\<close> or \<open>#\<close> is the network location; brackets
  that do not pair raise \<open>ValueError\<close>.
\<close>

definition scheme_char :: "char \<Rightarrow> bool" where
  "scheme_char c \<longleftrightarrow> (let n = of_char c :: nat in
     65 \<le> n \<and> n \<le> 90 \<or> 97 \<le> n \<and> n \<le> 122 \<or> 48 \<le> n \<and> n \<le> 57 \<or> c \<in> {CHR ''+'', CHR ''-'', CHR ''.''})"

definition drop_scheme :: "string \<Rightarrow> string" where
  "drop_scheme url = (case partition_on '':'' url of (scheme, sep, rest) \<Rightarrow>
     if sep \<noteq> [] \<and> scheme \<noteq> [] \<and> (let n = of_char (hd scheme) :: nat in 65 \<le> n \<and> n \<le> 90 \<or> 97 \<le> n \<and> n \<le> 122) \<and>
        list_all scheme_char scheme
     then rest else url)"

definition url_netloc :: "string \<Rightarrow> string result" where
  "url_netloc url =
     (let url = filter (\<lambda>c. c \<notin> {CHR 0x09, CHR 0x0A, CHR 0x0D}) (dropWhile (\<lambda>c. (of_char c :: nat) \<le> 32) url);
          rest = drop_scheme url
      in if take 2 rest \<noteq> ''//'' then Inr []
         else (let loc = takeWhile (\<lambda>c. c \<notin> {CHR ''/'', CHR ''?'', CHR ''#''}) (drop 2 rest)
               in if (CHR ''['' \<in> set loc) \<noteq> (CHR '']'' \<in> set loc) then Inl ValueError else Inr loc))"

section \<open>The risk of a vulnerability\<close>

definition score_map :: "(string \<times> rat) list" where
  "score_map = [(''low'', 3), (''moderate'', 69/10), (''medium'', 69/10), (''high'', 89/10),
     (''important'', 89/10), (''critical'', 10), (''urgent'', 10)]"

text \<open>\<open>netloc.replace("www.", "", 1)\<close>.\<close>

definition severity_source :: "string \<Rightarrow> string result" where
  "severity_source url = map_sum id (\<lambda>loc. case partition_on ''www.'' loc of (a, _, b) \<Rightarrow> a @ b) (url_netloc url)"

text \<open>The number of a severity value, on the scale of 0 to 10.\<close>

definition severity_score :: "(string \<Rightarrow> rat option) \<Rightarrow> string \<Rightarrow> rat" where
  "severity_score py_float v = (case py_float v of Some x \<Rightarrow> x | None \<Rightarrow> dict_get score_map (lower v) 0)"

definition weighted_score :: "(string \<Rightarrow> rat option) \<Rightarrow> string \<Rightarrow> string \<Rightarrow> rat" where
  "weighted_score py_float source v = severity_score py_float v * (source_weight source / 10)"

definition absent :: "string option \<Rightarrow> bool" where
  "absent v \<longleftrightarrow> v \<in> {None, Some []}"

text \<open>The scores of the loop of \<open>get_weighted_severity\<close>: a severity without a URL or a value has none.\<close>

fun weighted_scores :: "(string \<Rightarrow> rat option) \<Rightarrow> sev_row list \<Rightarrow> rat list result" where
  "weighted_scores py_float [] = Inr []"
| "weighted_scores py_float (s # ss) =
     (if absent (sr_url s) then weighted_scores py_float ss
      else (case severity_source (the (sr_url s)) of
          Inl e \<Rightarrow> Inl e
        | Inr source \<Rightarrow>
            if absent (sr_value s) then weighted_scores py_float ss
            else map_sum id (Cons (weighted_score py_float source (the (sr_value s))))
                   (weighted_scores py_float ss)))"

definition get_weighted_severity ::
    "(rat \<Rightarrow> rat) \<Rightarrow> (string \<Rightarrow> rat option) \<Rightarrow> sev_row list \<Rightarrow> rat result" where
  "get_weighted_severity round1 py_float severities =
     (if severities = [] then Inr 0
      else map_sum id (\<lambda>scores. round1 (if scores = [] then 0 else Max (set scores)))
             (weighted_scores py_float severities))"

definition EPSS :: string where
  "EPSS = ''epss''"

text \<open>\<open>float(severity.value) > 0.8\<close> for the EPSS severities, up to the first that is higher.\<close>

fun high_epss :: "(string \<Rightarrow> rat option) \<Rightarrow> sev_row list \<Rightarrow> bool result" where
  "high_epss py_float [] = Inr False"
| "high_epss py_float (s # ss) =
     (if sr_system s = EPSS
      then (case sr_value s of
          None \<Rightarrow> Inl TypeError
        | Some v \<Rightarrow> (case py_float v of
            None \<Rightarrow> Inl ValueError
          | Some x \<Rightarrow> if x > 4/5 then Inr True else high_epss py_float ss))
      else high_epss py_float ss)"

definition get_exploitability_level ::
    "(string \<Rightarrow> rat option) \<Rightarrow> nat \<Rightarrow> reference list \<Rightarrow> sev_row list \<Rightarrow> rat result" where
  "get_exploitability_level py_float exploits references severities =
     (if exploits \<noteq> 0 then Inr 2
      else if severities \<noteq> [] then map_sum id (\<lambda>high. if high then 2 else 1/2) (high_epss py_float severities)
      else if list_ex (\<lambda>r. ref_type r = ''exploit'') references then Inr 1
      else Inr (1/2))"

definition compute_vulnerability_risk_factors ::
    "(rat \<Rightarrow> rat) \<Rightarrow> (string \<Rightarrow> rat option) \<Rightarrow> reference list \<Rightarrow> sev_row list \<Rightarrow> nat \<Rightarrow> (rat \<times> rat) result" where
  "compute_vulnerability_risk_factors round1 py_float references severities exploits =
     (case get_weighted_severity round1 py_float severities of
        Inl e \<Rightarrow> Inl e
      | Inr ws \<Rightarrow> map_sum id (Pair ws) (get_exploitability_level py_float exploits references severities))"

text \<open>\<open>quantize_1\<close>: half up, away from zero.\<close>

definition quantize_1 :: "rat option \<Rightarrow> rat option" where
  "quantize_1 v = map_option (\<lambda>x. if 0 \<le> x then of_int \<lfloor>x * 10 + 1/2\<rfloor> / 10 else - (of_int \<lfloor>- x * 10 + 1/2\<rfloor> / 10)) v"

text \<open>
  \<open>compute_advisory_risk_score\<close>: weighted severity, exploitability and risk, none of them when the
  computation raises. \<open>related\<close> are the severities of the related advisories.
\<close>

definition compute_advisory_risk_score ::
    "(rat \<Rightarrow> rat) \<Rightarrow> (string \<Rightarrow> rat option) \<Rightarrow> reference list \<Rightarrow> sev_row list \<Rightarrow> sev_row list list \<Rightarrow> nat \<Rightarrow>
       rat option \<times> rat option \<times> rat option" where
  "compute_advisory_risk_score round1 py_float references severities related exploits =
     (case compute_vulnerability_risk_factors round1 py_float references (severities @ concat related) exploits of
        Inl _ \<Rightarrow> (None, None, None)
      | Inr (ws, ex) \<Rightarrow>
          (quantize_1 (Some ws), quantize_1 (Some ex),
           quantize_1 (if ex \<noteq> 0 \<and> ws \<noteq> 0 then Some (round1 (min (ex * ws) 10)) else None)))"

text \<open>
  The risk of a package, of the risk scores of its latest affecting advisories (\<open>Max\<close> of the database
  leaves the null ones out) and of the advisory at hand; \<open>compute_package_risk\<close> is the earlier one, of
  the risk scores of its vulnerabilities.
\<close>

definition max_known :: "rat option list \<Rightarrow> rat option" where
  "max_known scores = (let known = concat (map (case_option [] (\<lambda>x. [x])) scores)
     in if known = [] then None else Some (Max (set known)))"

definition compute_package_risk_score :: "(rat \<Rightarrow> rat) \<Rightarrow> rat option list \<Rightarrow> rat option \<Rightarrow> rat option" where
  "compute_package_risk_score round1 scores current =
     (let db = max_known scores;
          best = (case current of None \<Rightarrow> db
                  | Some c \<Rightarrow> Some (max (case db of None \<Rightarrow> 0 | Some m \<Rightarrow> m) c))
      in map_option round1 best)"

definition compute_package_risk :: "(rat \<Rightarrow> rat) \<Rightarrow> rat option list \<Rightarrow> rat option" where
  "compute_package_risk round1 risks =
     (let result = concat (map (\<lambda>r. case r of None \<Rightarrow> [] | Some x \<Rightarrow> if x = 0 then [] else [x]) risks)
      in if result = [] then None else Some (round1 (Max (set result))))"

section \<open>Bounds and monotonicity\<close>

text \<open>What the rounding to one decimal keeps.\<close>

definition rounds :: "(rat \<Rightarrow> rat) \<Rightarrow> bool" where
  "rounds round1 \<longleftrightarrow> mono round1 \<and> round1 0 = 0 \<and> round1 9 = 9 \<and> round1 10 = 10"

text \<open>Severity values are on the scale of 0 to 10, as those of CVSS are.\<close>

definition on_scale :: "(string \<Rightarrow> rat option) \<Rightarrow> sev_row list \<Rightarrow> bool" where
  "on_scale py_float severities \<longleftrightarrow>
     list_all (\<lambda>s. case sr_value s of None \<Rightarrow> True
        | Some v \<Rightarrow> (case py_float v of None \<Rightarrow> True | Some x \<Rightarrow> 0 \<le> x \<and> x \<le> 10)) severities"

lemma score_map_bounds: "0 \<le> dict_get score_map k 0 \<and> dict_get score_map k 0 \<le> 10"
  by (simp add: dict_get_def score_map_def)

lemma weighted_score_bounds:
  assumes "\<And>x. py_float v = Some x \<Longrightarrow> 0 \<le> x \<and> x \<le> 10"
  shows "0 \<le> weighted_score py_float source v \<and> weighted_score py_float source v \<le> 9"
proof -
  have v: "0 \<le> severity_score py_float v" "severity_score py_float v \<le> 10"
    using assms score_map_bounds [of "lower v"] by (auto simp: severity_score_def split: option.splits)
  have "severity_score py_float v * source_weight source \<le> 10 * 9"
    using v weights_bounded [of source] by (intro mult_mono) auto
  moreover have "0 \<le> severity_score py_float v * source_weight source"
    using v weights_bounded [of source] by (intro mult_nonneg_nonneg) auto
  ultimately show ?thesis by (simp add: weighted_score_def)
qed

lemma weighted_scores_bounds:
  "weighted_scores py_float ss = Inr xs \<Longrightarrow> on_scale py_float ss \<Longrightarrow> x \<in> set xs \<Longrightarrow> 0 \<le> x \<and> x \<le> 9"
proof (induction ss arbitrary: xs)
  case (Cons s ss)
  have "0 \<le> weighted_score py_float src (the (sr_value s)) \<and> weighted_score py_float src (the (sr_value s)) \<le> 9"
    if "\<not> absent (sr_value s)" for src
    by (rule weighted_score_bounds) (use Cons.prems(2) that in \<open>auto simp: on_scale_def absent_def split: option.splits\<close>)
  moreover have "on_scale py_float ss" using Cons.prems(2) by (simp add: on_scale_def)
  ultimately show ?case using Cons.IH Cons.prems(1,3)
    by (cases "weighted_scores py_float ss") (auto split: if_splits sum.splits)
qed simp

lemma get_weighted_severity_bounds:
  assumes "rounds round1" "on_scale py_float ss" "get_weighted_severity round1 py_float ss = Inr ws"
  shows "0 \<le> ws \<and> ws \<le> 9"
proof (cases "ss = []")
  case True
  with assms(3) show ?thesis by (simp add: get_weighted_severity_def)
next
  case False
  with assms(3) obtain xs where xs: "weighted_scores py_float ss = Inr xs"
    "ws = round1 (if xs = [] then 0 else Max (set xs))"
    by (cases "weighted_scores py_float ss") (auto simp: get_weighted_severity_def)
  have "0 \<le> (if xs = [] then 0 else Max (set xs)) \<and> (if xs = [] then 0 else Max (set xs)) \<le> 9"
    using weighted_scores_bounds [OF xs(1) assms(2)] Max_in [of "set xs"] by auto
  with assms(1) xs(2) show ?thesis
    unfolding rounds_def by (metis monoD)
qed

lemma exploitability_values:
  "get_exploitability_level py_float e refs ss = Inr x \<Longrightarrow> x \<in> {1/2, 1, 2}"
  by (cases "high_epss py_float ss") (auto simp: get_exploitability_level_def split: if_splits)

lemma quantize_1_bounds:
  assumes "0 \<le> x" "x \<le> of_int n"
  shows "0 \<le> the (quantize_1 (Some x)) \<and> the (quantize_1 (Some x)) \<le> of_int n"
proof -
  have "\<lfloor>x * 10 + 1/2\<rfloor> \<le> 10 * n"
  proof -
    have "\<lfloor>x * 10 + 1/2\<rfloor> < 10 * n + 1" by (rule iffD2 [OF floor_less_iff]) (use assms(2) in simp)
    then show ?thesis by simp
  qed
  then have "(of_int \<lfloor>x * 10 + 1/2\<rfloor> :: rat) \<le> of_int (10 * n)" by (simp only: of_int_le_iff)
  then have "of_int \<lfloor>x * 10 + 1/2\<rfloor> / 10 \<le> (of_int n :: rat)" by simp
  moreover have "0 \<le> \<lfloor>x * 10 + 1/2\<rfloor>" using assms(1) by simp
  ultimately show ?thesis using assms(1) by (simp add: quantize_1_def)
qed

text \<open>
  C40: the scores of an advisory are in range when its severity values are: the weighted severity is
  between 0 and 9 (no source weighs more than 9), the exploitability is one of 0.5, 1 and 2, and the risk
  is between 0 and 10 and known exactly when the weighted severity is known and, before rounding, not 0.
\<close>

theorem advisory_risk_bounds:
  assumes "rounds round1" "on_scale py_float (sevs @ concat related)"
    and "compute_advisory_risk_score round1 py_float refs sevs related e = (Some ws, ex, risk)"
  shows "0 \<le> ws \<and> ws \<le> 9 \<and> ex \<in> {Some (1/2), Some 1, Some 2} \<and>
     (case risk of
        None \<Rightarrow> get_weighted_severity round1 py_float (sevs @ concat related) = Inr 0
      | Some r \<Rightarrow> 0 \<le> r \<and> r \<le> 10)"
proof -
  let ?ss = "sevs @ concat related"
  obtain ws0 ex0 where f: "get_weighted_severity round1 py_float ?ss = Inr ws0"
    "get_exploitability_level py_float e refs ?ss = Inr ex0"
    and ws: "ws = the (quantize_1 (Some ws0))" and ex: "ex = quantize_1 (Some ex0)"
    and risk: "risk = quantize_1 (if ex0 \<noteq> 0 \<and> ws0 \<noteq> 0 then Some (round1 (min (ex0 * ws0) 10)) else None)"
    using assms(3)
    by (cases "get_weighted_severity round1 py_float ?ss"; cases "get_exploitability_level py_float e refs ?ss")
       (auto simp: compute_advisory_risk_score_def compute_vulnerability_risk_factors_def)
  note w0 = get_weighted_severity_bounds [OF assms(1,2) f(1)]
  note e0 = exploitability_values [OF f(2)]
  have "0 \<le> ws \<and> ws \<le> 9" using quantize_1_bounds [of ws0 9] w0 ws by simp
  moreover have "ex \<in> {Some (1/2), Some 1, Some 2}"
  proof -
    have "quantize_1 (Some (1/2)) = Some (1/2)" "quantize_1 (Some 1) = Some 1" "quantize_1 (Some 2) = Some 2"
      by code_simp+
    moreover from e0 have "ex0 = 1/2 \<or> ex0 = 1 \<or> ex0 = 2" by blast
    ultimately show ?thesis unfolding ex by (elim disjE) (simp_all only: insert_iff simp_thms)
  qed
  moreover have "case risk of None \<Rightarrow> get_weighted_severity round1 py_float ?ss = Inr 0 | Some r \<Rightarrow> 0 \<le> r \<and> r \<le> 10"
  proof (cases "ws0 = 0")
    case False
    have "0 \<le> min (ex0 * ws0) 10 \<and> min (ex0 * ws0) 10 \<le> 10" using e0 w0 by auto
    then have "0 \<le> round1 (min (ex0 * ws0) 10)" "round1 (min (ex0 * ws0) 10) \<le> 10"
      using assms(1) unfolding rounds_def by (metis monoD)+
    with quantize_1_bounds [of _ 10] risk False e0 show ?thesis by (auto simp: quantize_1_def)
  qed (use f(1) risk in \<open>simp add: quantize_1_def\<close>)
  ultimately show ?thesis by blast
qed


definition demo_float :: "string \<Rightarrow> rat option" where
  "demo_float v = map_of [(''9.8'', 98/10), (''5.0'', 5), (''0.97'', 97/100)] v"

definition demo_round :: "rat \<Rightarrow> rat" where
  "demo_round x = of_int \<lfloor>x * 10 + 1/2\<rfloor> / 10"

definition demo_sev :: "string \<Rightarrow> string \<Rightarrow> string \<Rightarrow> sev_row" where
  "demo_sev url system v = \<lparr>sr_url = Some url, sr_system = system, sr_value = Some v,
     sr_elements = None, sr_published = None\<rparr>"

definition demo_sevs :: "sev_row list" where
  "demo_sevs = [demo_sev ''https://www.github.com/x'' ''cvssv3.1'' ''9.8'', demo_sev ''https://example.org/y'' ''generic_textual'' ''LOW'']"

lemma demo_round_rounds: "rounds demo_round"
proof -
  have "mono demo_round"
    by (rule monoI) (simp add: demo_round_def floor_mono)
  moreover have "demo_round 0 = 0" "demo_round 9 = 9" "demo_round 10 = 10" by code_simp+
  ultimately show ?thesis by (simp add: rounds_def)
qed

lemma advisory_risk_bounds_witness:
  "compute_advisory_risk_score demo_round demo_float [] demo_sevs [] 0 = (Some (88/10), Some (1/2), Some (44/10)) \<and>
   0 \<le> (88/10 :: rat) \<and> (88/10 :: rat) \<le> 9"
proof -
  have c: "compute_advisory_risk_score demo_round demo_float [] demo_sevs [] 0 = (Some (88/10), Some (1/2), Some (44/10))"
    by code_simp
  have s: "on_scale demo_float (demo_sevs @ concat [])"
    by (simp add: on_scale_def demo_sevs_def demo_sev_def demo_float_def)
  from advisory_risk_bounds [OF demo_round_rounds s c] c show ?thesis by simp
qed

lemma weighted_scores_append:
  "weighted_scores py_float (us @ ts) =
     (case weighted_scores py_float us of
        Inl e \<Rightarrow> Inl e | Inr xs \<Rightarrow> map_sum id ((@) xs) (weighted_scores py_float ts))"
proof (induction us)
  case Nil
  show ?case by (cases "weighted_scores py_float ts") simp_all
next
  case (Cons u us)
  then show ?case
    by (cases "weighted_scores py_float us"; cases "weighted_scores py_float ts") (auto split: sum.splits)
qed

text \<open>
  more severities never lower the weighted severity: it is the maximum, over the severities with a
  URL and a value, of the value times the weight of its source.
\<close>

theorem weighted_severity_mono:
  assumes "rounds round1" "on_scale py_float (ss @ ts)"
    and "get_weighted_severity round1 py_float ss = Inr x"
    and "get_weighted_severity round1 py_float (ss @ ts) = Inr y"
  shows "x \<le> y"
proof -
  show ?thesis
  proof (cases "ss = []")
    case True
    with assms(3) have "x = 0" by (simp add: get_weighted_severity_def)
    with get_weighted_severity_bounds [OF assms(1,2,4)] show ?thesis by simp
  next
    case False
    with assms(3,4) obtain xs ys where xs: "weighted_scores py_float ss = Inr xs" "weighted_scores py_float (ss @ ts) = Inr ys"
      and x: "x = round1 (if xs = [] then 0 else Max (set xs))" and y: "y = round1 (if ys = [] then 0 else Max (set ys))"
      by (cases "weighted_scores py_float ss"; cases "weighted_scores py_float (ss @ ts)")
         (auto simp: get_weighted_severity_def)
    have sub: "set xs \<subseteq> set ys"
      using xs by (cases "weighted_scores py_float ts") (auto simp: weighted_scores_append)
    have "(if xs = [] then 0 else Max (set xs)) \<le> (if ys = [] then 0 else Max (set ys))"
    proof (cases "xs = []")
      case True
      have "0 \<le> Max (set ys)" if "ys \<noteq> []"
        using weighted_scores_bounds [OF xs(2) assms(2), of "Max (set ys)"] that by simp
      with True show ?thesis by simp
    next
      case False
      with sub show ?thesis by (auto intro: Max_mono)
    qed
    moreover have "mono round1" using assms(1) by (simp add: rounds_def)
    ultimately show ?thesis unfolding x y by (rule monoD [rotated])
  qed
qed

lemma weighted_severity_mono_witness: "(3/10 * 5 :: rat) \<le> 88/10"
proof -
  have a: "on_scale demo_float ([demo_sev ''https://example.org/y'' ''generic_textual'' ''LOW''] @
      [demo_sev ''https://www.github.com/x'' ''cvssv3.1'' ''9.8''])"
    by (simp add: on_scale_def demo_sev_def demo_float_def)
  have b: "get_weighted_severity demo_round demo_float [demo_sev ''https://example.org/y'' ''generic_textual'' ''LOW''] = Inr (3/10 * 5)"
    by code_simp
  have c: "get_weighted_severity demo_round demo_float ([demo_sev ''https://example.org/y'' ''generic_textual'' ''LOW''] @
      [demo_sev ''https://www.github.com/x'' ''cvssv3.1'' ''9.8'']) = Inr (88/10)" by code_simp
  show ?thesis by (rule weighted_severity_mono [OF demo_round_rounds a b c])
qed

text \<open>
  The exploitability of an advisory is not monotone: a published exploit among the references counts only
  while the advisory has no severity at all.
\<close>

lemma exploit_reference_ignored:
  "let exploit = [\<lparr>ref_id = [], ref_type = ''exploit'', ref_url = ''https://exploit-db.com/1''\<rparr>]
   in get_exploitability_level demo_float 0 exploit [] = Inr 1 \<and>
      get_exploitability_level demo_float 0 exploit demo_sevs = Inr (1/2)"
  by code_simp

end
