(* ===== verification/Hashid.thy ===== *)
theory Hashid
  imports Purl "HOL-Library.Word"
begin

text \<open>
  \<open>aboutcode/hashid/__init__.py\<close>: vulnerability identifiers (VCID) in a custom base 32, and the
  content-defined paths of vulnerability and package data. Bytes are naturals below 256, strings
  are their UTF-8 bytes as characters. \<open>uuid4\<close> is the list of its 16 bytes, \<open>sha256\<close> the
  function \<open>sha\<close> to a list of bytes; the \<open>packageurl\<close> library is the record of theory \<open>Purl\<close>.
\<close>

unbundle bit_operations_syntax

section \<open>Base 32\<close>

definition base32_alphabet :: string where
  "base32_alphabet = ''abcdefghjkmnpqrstuvwxyz123456789''"

definition b32tab :: "string list" where
  "b32tab = map (\<lambda>c. [c]) base32_alphabet"

definition base32_table :: "string list" where
  "base32_table = map (\<lambda>(a, b). a @ b) (List.product b32tab b32tab)"

text \<open>\<open>_base32_table[i]\<close>\<close>

definition table_at :: "nat \<Rightarrow> string result" where
  "table_at i = (if i < length base32_table then Inr (base32_table ! i) else Inl IndexError)"

text \<open>\<open>int.from_bytes(bs, "big")\<close>\<close>

definition from_bytes :: "nat list \<Rightarrow> nat" where
  "from_bytes bs = foldl (\<lambda>c b. 256 * c + b) 0 bs"

fun chunks :: "nat \<Rightarrow> nat list \<Rightarrow> nat list list" where
  "chunks n bs = (if n = 0 \<or> bs = [] then [] else take n bs # chunks n (drop n bs))"

declare chunks.simps [simp del]

definition encode_chunk :: "nat list \<Rightarrow> string result" where
  "encode_chunk bs =
     (let c = from_bytes bs
      in map_sum id concat (map_result table_at
           [drop_bit 30 c, drop_bit 20 c AND 0x3FF, drop_bit 10 c AND 0x3FF, c AND 0x3FF]))"

definition base32_custom :: "nat list \<Rightarrow> string result" where
  "base32_custom bs = map_sum id concat (map_result encode_chunk (chunks 5 bs))"

text \<open>\<open>build_vcid\<close> with the bytes of the UUID; slices as in the format string.\<close>

definition slice :: "nat \<Rightarrow> nat \<Rightarrow> 'a list \<Rightarrow> 'a list" where
  "slice i j xs = take (j - i) (drop i xs)"

definition build_vcid :: "string \<Rightarrow> nat list \<Rightarrow> string result" where
  "build_vcid pre uid_bytes =
     (case base32_custom uid_bytes of
        Inl e \<Rightarrow> Inl e
      | Inr enc \<Rightarrow>
          (let uid = lower (take 12 enc)
           in Inr (pre @ ''-'' @ slice 0 4 uid @ ''-'' @ slice 4 8 uid @ ''-'' @ slice 8 12 uid)))"

definition VULNERABILITY_REPO_NAME :: string where
  "VULNERABILITY_REPO_NAME = ''aboutcode-vulnerabilities''"

definition PACKAGE_REPOS_NAME_PREFIX :: string where
  "PACKAGE_REPOS_NAME_PREFIX = ''aboutcode-packages''"

definition vulnerability_yml_path :: "string \<Rightarrow> string" where
  "vulnerability_yml_path vcid = slice 5 7 vcid @ ''/'' @ vcid @ ''.yml''"

definition get_vcid_yml_file_path :: "string \<Rightarrow> string" where
  "get_vcid_yml_file_path vcid = VULNERABILITY_REPO_NAME @ ''/'' @ vulnerability_yml_path vcid"

section \<open>Package URLs and paths\<close>

text \<open>The characters \<open>urllib.parse.quote\<close> leaves alone, with \<open>%\<close> added.\<close>

definition unquoted :: "char \<Rightarrow> bool" where
  "unquoted c \<longleftrightarrow> (let n = of_char c :: nat in 48 \<le> n \<and> n \<le> 57 \<or> 65 \<le> n \<and> n \<le> 90 \<or> 97 \<le> n \<and> n \<le> 122)
     \<or> c \<in> set ''_.-~%''"

definition hex_upper :: "nat \<Rightarrow> char" where
  "hex_upper n = ''0123456789ABCDEF'' ! n"

definition quote_char :: "char \<Rightarrow> string" where
  "quote_char c = (if unquoted c then [c]
     else [CHR ''%'', hex_upper (of_char c div 16), hex_upper (of_char c mod 16)])"

definition quote_more :: "string \<Rightarrow> string" where
  "quote_more qs = (if qs = [] then qs else concat (map quote_char qs))"

definition quote_more_opt :: "string option \<Rightarrow> string option" where
  "quote_more_opt v = map_option quote_more v"

definition get_core_purl :: "purl_lib \<Rightarrow> purl_or_str \<Rightarrow> purl result" where
  "get_core_purl L p = map_sum id (\<lambda>q. lib_purl L (ptype q) (pnamespace q) (pname q) None [] None) (as_purl L p)"

text \<open>The format \<open>x\<close>, left padded with zeros to a width.\<close>

definition hex_lower :: "nat \<Rightarrow> char" where
  "hex_lower n = ''0123456789abcdef'' ! n"

fun to_hex :: "nat \<Rightarrow> string" where
  "to_hex n = (if n < 16 then [hex_lower n] else to_hex (n div 16) @ [hex_lower (n mod 16)])"

declare to_hex.simps [simp del]

definition zero_pad :: "nat \<Rightarrow> string \<Rightarrow> string" where
  "zero_pad w s = replicate (w - length s) (CHR ''0'') @ s"

definition get_purl_hash :: "purl_lib \<Rightarrow> (string \<Rightarrow> nat list) \<Rightarrow> purl_or_str \<Rightarrow> nat \<Rightarrow> string result" where
  "get_purl_hash L sha p bit_count =
     (case get_core_purl L p of
        Inl e \<Rightarrow> Inl e
      | Inr core \<Rightarrow>
          (let hash_int = from_bytes (sha (lib_to_string L core));
               short_hash = hash_int mod 2 ^ bit_count;
               num_chars_in_hash = (bit_count + 3) div 4
           in Inr (lower (zero_pad num_chars_in_hash (to_hex short_hash)))))"

definition BIT_COUNT_BY_ECOSYSTEM :: "(string \<times> nat) list" where
  "BIT_COUNT_BY_ECOSYSTEM = [
     (''github'', 10), (''npm'', 10),
     (''golang'', 7), (''maven'', 7), (''nuget'', 7), (''perl'', 7), (''php'', 7), (''pypi'', 7), (''ruby'', 7),
     (''alpm'', 5), (''bitbucket'', 5), (''cocoapods'', 5), (''composer'', 5), (''deb'', 5), (''docker'', 5),
     (''gem'', 5), (''generic'', 5), (''huggingface'', 5), (''mlflow'', 5), (''pub'', 5), (''rpm'', 5),
     (''bitnami'', 0), (''cargo'', 0), (''conan'', 0), (''conda'', 0), (''cpan'', 0), (''cran'', 0),
     (''hackage'', 0), (''hex'', 0), (''luarocks'', 0), (''swift'', 0)]"

definition bit_count :: "string \<Rightarrow> nat" where
  "bit_count ty = dict_get BIT_COUNT_BY_ECOSYSTEM ty 0"

definition package_path_elements ::
    "purl_lib \<Rightarrow> (string \<Rightarrow> nat list) \<Rightarrow> purl_or_str \<Rightarrow>
     (string \<times> string \<times> string option \<times> string) result" where
  "package_path_elements L sha pq =
     (case as_purl L pq of Inl e \<Rightarrow> Inl e
      | Inr p \<Rightarrow> (case get_purl_hash L sha (PObj p) (bit_count (ptype p)) of Inl e \<Rightarrow> Inl e
          | Inr purl_hash \<Rightarrow>
              (let ns_name = (if truthy_opt (pnamespace p) then the (pnamespace p) @ ''/'' @ pname p
                              else pname p);
                   extra = (if pqualifiers p \<noteq> [] then quote_more (lib_normalize_qualifiers L (pqualifiers p))
                            else []);
                   extra_path = (if truthy_opt (psubpath p)
                                 then extra @ quote_more (''#'' @ lib_normalize_subpath L (the (psubpath p)))
                                 else extra);
                   core_path = ptype p @ ''/'' @ ns_name
               in Inr (purl_hash, core_path, quote_more_opt (pversion p), extra_path))))"

definition get_package_base_dir ::
    "purl_lib \<Rightarrow> (string \<Rightarrow> nat list) \<Rightarrow> purl_or_str \<Rightarrow> string result" where
  "get_package_base_dir L sha pq =
     (case as_purl L pq of Inl e \<Rightarrow> Inl e
      | Inr p \<Rightarrow> (case package_path_elements L sha (PObj p) of Inl e \<Rightarrow> Inl e
          | Inr (phash, core_path, _, _) \<Rightarrow>
              Inr (PACKAGE_REPOS_NAME_PREFIX @ ''-'' @ ptype p @ ''-'' @ phash @ ''/'' @ core_path)))"

definition get_package_purls_yml_file_path ::
    "purl_lib \<Rightarrow> (string \<Rightarrow> nat list) \<Rightarrow> purl_or_str \<Rightarrow> string result" where
  "get_package_purls_yml_file_path L sha pq =
     map_sum id (\<lambda>d. d @ ''/purls.yml'') (get_package_base_dir L sha pq)"

definition get_package_vulnerabilities_yml_file_path ::
    "purl_lib \<Rightarrow> (string \<Rightarrow> nat list) \<Rightarrow> purl_or_str \<Rightarrow> string result" where
  "get_package_vulnerabilities_yml_file_path L sha pq =
     map_sum id (\<lambda>d. d @ ''/vulnerabilities.yml'') (get_package_base_dir L sha pq)"

section \<open>Base 32: bounds and what it loses\<close>

lemma length_alphabet [simp]: "length base32_alphabet = 32"
  by (simp add: base32_alphabet_def)

lemma distinct_alphabet: "distinct base32_alphabet"
  by (simp add: base32_alphabet_def)

lemma length_table [simp]: "length base32_table = 1024"
  by (simp add: base32_table_def b32tab_def)

lemma table_nth:
  "i < 1024 \<Longrightarrow> base32_table ! i = [base32_alphabet ! (i div 32), base32_alphabet ! (i mod 32)]"
  by (simp add: base32_table_def product_nth b32tab_def)

lemma from_bytes_snoc: "from_bytes (bs @ [b]) = 256 * from_bytes bs + b"
  by (simp add: from_bytes_def)

lemma from_bytes_less: "\<forall>b\<in>set bs. b < 256 \<Longrightarrow> from_bytes bs < 256 ^ length bs"
proof (induction bs rule: rev_induct)
  case (snoc b bs)
  then have "from_bytes bs + 1 \<le> 256 ^ length bs" "b < 256" by auto
  then have "256 * from_bytes bs + b < 256 * 256 ^ length bs" by linarith
  then show ?case by (simp add: from_bytes_snoc)
qed (simp add: from_bytes_def)

lemma digits_eq:
  fixes a b m x z :: nat
  assumes "m * a + x = m * b + z" "x < m" "z < m"
  shows "a = b" "x = z"
proof -
  have "a = (m * a + x) div m" using assms(2) by simp
  also have "\<dots> = (m * b + z) div m" by (simp only: assms(1))
  also have "\<dots> = b" using assms(3) by simp
  finally show "a = b" .
  with assms(1) show "x = z" by simp
qed

lemma from_bytes_inj:
  "\<forall>b\<in>set xs. b < 256 \<Longrightarrow> \<forall>b\<in>set ys. b < 256 \<Longrightarrow> length xs = length ys \<Longrightarrow>
   from_bytes xs = from_bytes ys \<Longrightarrow> xs = ys"
proof (induction xs arbitrary: ys rule: rev_induct)
  case (snoc x xs)
  obtain zs z where y: "ys = zs @ [z]" using snoc.prems(3) by (cases ys rule: rev_cases) auto
  have e: "256 * from_bytes xs + x = 256 * from_bytes zs + z"
    using snoc.prems(4) by (simp add: y from_bytes_snoc)
  have l: "x < 256" "z < 256" using snoc.prems(1,2) y by auto
  have "xs = zs"
    by (rule snoc.IH [OF _ _ _ digits_eq(1) [OF e l]]) (use snoc.prems(1-3) y in auto)
  with digits_eq(2) [OF e l] y show ?case by simp
qed simp

text \<open>The ten-bit windows of a chunk, and the two characters of each.\<close>

definition window :: "nat \<Rightarrow> nat \<Rightarrow> nat" where
  "window k c = c div 1024 ^ k mod 1024"

lemma and_mask10: "n AND 0x3FF = n mod (1024 :: nat)"
proof -
  have "take_bit 10 n = n AND mask 10" by (rule take_bit_eq_mask)
  then show ?thesis by (simp add: take_bit_eq_mod mask_eq_exp_minus_1)
qed

lemma windows:
  assumes "c < 2 ^ 40"
  shows "drop_bit 30 c = window 3 c" "drop_bit 20 c AND 0x3FF = window 2 c"
    "drop_bit 10 c AND 0x3FF = window 1 c" "c AND 0x3FF = window 0 c"
proof -
  have "c div 1073741824 < 1024" using assms by (simp add: less_mult_imp_div_less)
  then show "drop_bit 30 c = window 3 c" by (simp add: drop_bit_eq_div window_def)
qed (simp_all add: drop_bit_eq_div window_def and_mask10)

lemma window_less: "window k c < 1024"
  by (simp add: window_def)

lemma windows_inj:
  assumes "c < 2 ^ 40" "d < 2 ^ 40"
    and "window 3 c = window 3 d" "window 2 c = window 2 d" "window 1 c = window 1 d" "window 0 c = window 0 d"
  shows "c = d"
proof -
  have split: "n = ((window 3 n * 1024 + window 2 n) * 1024 + window 1 n) * 1024 + window 0 n"
    if "n < 2 ^ 40" for n
  proof -
    have w: "window 0 n = n mod 1024" "window 1 n = n div 1024 mod 1024"
      "window 2 n = n div 1024 div 1024 mod 1024" "window 3 n = n div 1024 div 1024 div 1024 mod 1024"
      by (simp_all only: window_def power2_eq_square power3_eq_cube div_mult2_eq power_0 power_one_right div_by_1)
    have 0: "n = (n div 1024) * 1024 + window 0 n"
      unfolding w by (rule div_mult_mod_eq [symmetric])
    have 1: "n div 1024 = (n div 1024 div 1024) * 1024 + window 1 n"
      unfolding w by (rule div_mult_mod_eq [symmetric])
    have 2: "n div 1024 div 1024 = (n div 1024 div 1024 div 1024) * 1024 + window 2 n"
      unfolding w by (rule div_mult_mod_eq [symmetric])
    have "n div 1024 div 1024 div 1024 < 1024" using that by (simp add: div_mult2_eq [symmetric] less_mult_imp_div_less)
    then have 3: "n div 1024 div 1024 div 1024 = window 3 n" unfolding w by simp
    show ?thesis using 0 1 2 3 by metis
  qed
  show ?thesis using split [OF assms(1)] split [OF assms(2)] assms(3-6) by metis
qed

definition pair_of :: "nat \<Rightarrow> string" where
  "pair_of w = [base32_alphabet ! (w div 32), base32_alphabet ! (w mod 32)]"

lemma pair_of_inj: "v < 1024 \<Longrightarrow> w < 1024 \<Longrightarrow> pair_of v = pair_of w \<Longrightarrow> v = w"
proof -
  assume a: "v < 1024" "w < 1024" "pair_of v = pair_of w"
  have "v div 32 < 32" "w div 32 < 32" using a by auto
  then have "v div 32 = w div 32" "v mod 32 = w mod 32"
    using a(3) distinct_alphabet by (auto simp: pair_of_def nth_eq_iff_index_eq)
  then show "v = w" by (metis div_mult_mod_eq)
qed

lemma table_at_pair: "i < 1024 \<Longrightarrow> table_at i = Inr (pair_of i)"
  by (simp add: table_at_def table_nth pair_of_def)

definition chunk_text :: "nat \<Rightarrow> string" where
  "chunk_text c = pair_of (window 3 c) @ pair_of (window 2 c) @ pair_of (window 1 c) @ pair_of (window 0 c)"

definition bytes :: "nat list \<Rightarrow> bool" where
  "bytes bs \<longleftrightarrow> (\<forall>b\<in>set bs. b < 256)"

lemma chunk_less: "bytes bs \<Longrightarrow> length bs \<le> 5 \<Longrightarrow> from_bytes bs < 2 ^ 40"
proof -
  assume b: "bytes bs" "length bs \<le> 5"
  have "from_bytes bs < 256 ^ length bs" using b(1) by (intro from_bytes_less) (simp add: bytes_def)
  also have "\<dots> \<le> 256 ^ 5" using b(2) by (intro power_increasing) auto
  finally show ?thesis by simp
qed

lemma encode_chunk_text:
  "bytes bs \<Longrightarrow> length bs \<le> 5 \<Longrightarrow> encode_chunk bs = Inr (chunk_text (from_bytes bs))"
  using chunk_less [of bs]
  by (simp add: encode_chunk_def Let_def windows table_at_pair window_less chunk_text_def)

lemma length_pair_of [simp]: "length (pair_of w) = 2"
  by (simp add: pair_of_def)

lemma chunk_text_inj:
  assumes "c < 2 ^ 40" "d < 2 ^ 40" "chunk_text c = chunk_text d"
  shows "c = d"
proof -
  have "pair_of (window 3 c) = pair_of (window 3 d)" "pair_of (window 2 c) = pair_of (window 2 d)"
    "pair_of (window 1 c) = pair_of (window 1 d)" "pair_of (window 0 c) = pair_of (window 0 d)"
    using assms(3) by (simp_all add: chunk_text_def)
  note this [THEN pair_of_inj [OF window_less window_less]]
  then show ?thesis by (rule windows_inj [OF assms(1,2)])
qed

lemma length_chunk_text [simp]: "length (chunk_text c) = 8"
  by (simp add: chunk_text_def)

section \<open>Total and injective on equal lengths\<close>

lemma chunks_bounds: "n > 0 \<Longrightarrow> x \<in> set (chunks n bs) \<Longrightarrow> length x \<le> n \<and> set x \<subseteq> set bs"
proof (induction n bs rule: chunks.induct)
  case (1 n bs)
  show ?case
  proof (cases "bs = []")
    case True
    with 1 show ?thesis by (simp add: chunks.simps)
  next
    case False
    with 1 have "x = take n bs \<or> x \<in> set (chunks n (drop n bs))" by (simp add: chunks.simps [of n bs])
    with 1 False show ?thesis by (auto dest: in_set_takeD in_set_dropD)
  qed
qed

lemma length_chunks5: "length (chunks 5 bs) = (length bs + 4) div 5"
proof (induction "length bs" arbitrary: bs rule: less_induct)
  case less
  show ?case
  proof (cases "bs = []")
    case True
    then show ?thesis by (simp add: chunks.simps)
  next
    case False
    then have "length (chunks 5 (drop 5 bs)) = (length bs - 5 + 4) div 5" by (subst less) auto
    moreover have "length (chunks 5 bs) = Suc (length (chunks 5 (drop 5 bs)))"
      using False by (subst chunks.simps) simp
    moreover have "Suc ((length bs - 5 + 4) div 5) = (length bs + 4) div 5"
    proof -
      have "Suc ((n - 5 + 4) div 5) = (n + 4) div 5" if "0 < n" for n :: nat
      proof (cases "n < 5")
        case True
        with that have "n = 1 \<or> n = 2 \<or> n = 3 \<or> n = 4" by linarith
        then show ?thesis by auto
      next
        case False
        then obtain m where "n = m + 5" by (metis le_Suc_ex add.commute not_less)
        then show ?thesis by simp
      qed
      then show ?thesis using False by simp
    qed
    ultimately show ?thesis by simp
  qed
qed

lemma base32_text:
  assumes "bytes bs"
  shows "base32_custom bs = Inr (concat (map (\<lambda>x. chunk_text (from_bytes x)) (chunks 5 bs)))"
proof -
  have "encode_chunk x = Inr (chunk_text (from_bytes x))" if "x \<in> set (chunks 5 bs)" for x
    using chunks_bounds [OF _ that] assms by (intro encode_chunk_text) (auto simp: bytes_def)
  then have "map_result encode_chunk (chunks 5 bs) = Inr (map (\<lambda>x. chunk_text (from_bytes x)) (chunks 5 bs))"
    by (rule map_result_all_Inr)
  then show ?thesis by (simp add: base32_custom_def)
qed

lemma set_pair_of: "w < 1024 \<Longrightarrow> set (pair_of w) \<subseteq> set base32_alphabet"
  by (simp add: pair_of_def less_mult_imp_div_less)

lemma set_chunk_text: "set (chunk_text c) \<subseteq> set base32_alphabet"
  using set_pair_of [OF window_less] by (simp add: chunk_text_def)

lemma chunks_text_inj:
  assumes "bytes xs" "bytes ys" "length xs = length ys"
    "concat (map (\<lambda>x. chunk_text (from_bytes x)) (chunks 5 xs)) =
     concat (map (\<lambda>x. chunk_text (from_bytes x)) (chunks 5 ys))"
  shows "xs = ys"
  using assms
proof (induction "length xs" arbitrary: xs ys rule: less_induct)
  case less
  show ?case
  proof (cases "xs = []")
    case True
    with less.prems show ?thesis by simp
  next
    case False
    with less.prems have ny: "ys \<noteq> []" by auto
    have "chunks 5 xs = take 5 xs # chunks 5 (drop 5 xs)" "chunks 5 ys = take 5 ys # chunks 5 (drop 5 ys)"
      using False ny by (simp_all add: chunks.simps [of 5 xs] chunks.simps [of 5 ys])
    with less.prems(4) have t: "chunk_text (from_bytes (take 5 xs)) = chunk_text (from_bytes (take 5 ys))"
      and d: "concat (map (\<lambda>x. chunk_text (from_bytes x)) (chunks 5 (drop 5 xs))) =
        concat (map (\<lambda>x. chunk_text (from_bytes x)) (chunks 5 (drop 5 ys)))"
      by simp_all
    have b: "bytes (take 5 xs)" "bytes (take 5 ys)" "bytes (drop 5 xs)" "bytes (drop 5 ys)"
      using less.prems(1,2) by (auto simp: bytes_def dest: in_set_takeD in_set_dropD)
    have "from_bytes (take 5 xs) = from_bytes (take 5 ys)"
      by (rule chunk_text_inj [OF chunk_less chunk_less t]) (use b in auto)
    then have "take 5 xs = take 5 ys"
      by (rule from_bytes_inj [rotated 3]) (use b less.prems(3) in \<open>auto simp: bytes_def\<close>)
    moreover have "drop 5 xs = drop 5 ys"
      by (rule less.hyps [OF _ b(3,4) _ d]) (use False ny less.prems(3) in auto)
    ultimately show ?thesis by (metis append_take_drop_id)
  qed
qed

text \<open>
  \<open>base32_custom\<close> is total on bytes (no table index is out of range): eight characters per
  started block of five bytes, all from the alphabet.
\<close>

theorem base32_total:
  assumes "bytes bs"
  shows "\<exists>enc. base32_custom bs = Inr enc \<and> length enc = 8 * ((length bs + 4) div 5) \<and>
     set enc \<subseteq> set base32_alphabet"
proof -
  have "length (concat (map (\<lambda>x. chunk_text (from_bytes x)) xss)) = 8 * length xss" for xss
    by (induction xss) auto
  then show ?thesis using set_chunk_text by (fastforce simp: base32_text [OF assms] length_chunks5)
qed

lemma base32_total_witness:
  "\<exists>enc. base32_custom [97, 98, 99, 100] = Inr enc \<and> length enc = 8 * ((length [97, 98, 99, 100 :: nat] + 4) div 5) \<and>
     set enc \<subseteq> set base32_alphabet"
  by (rule base32_total) (simp add: bytes_def)

text \<open>
  on inputs of the same length \<open>base32_custom\<close> loses nothing: different bytes, different text.
\<close>

theorem base32_injective:
  assumes "bytes xs" "bytes ys" "length xs = length ys" "base32_custom xs = base32_custom ys"
  shows "xs = ys"
  using chunks_text_inj [OF assms(1-3)] assms(4) by (simp add: base32_text assms(1,2))

lemma base32_injective_witness:
  "base32_custom [97, 98, 99, 100, 101, 7] = base32_custom [97, 98, 99, 100, 101, 7] \<and>
   [97, 98, 99, 100, 101, 7] = [97, 98, 99, 100, 101, 7 :: nat]"
  by (rule conjI [OF refl base32_injective]) (simp_all add: bytes_def)

section \<open>VCIDs\<close>

lemma lower_alphabet: "c \<in> set base32_alphabet \<Longrightarrow> lower_char c = c"
  by (auto simp: base32_alphabet_def lower_char_def)

lemma vcid_text:
  assumes "bytes u" "length u = 16"
  shows "build_vcid pre u = Inr (let t = chunk_text (from_bytes (take 5 u));
           w = from_bytes (take 5 (drop 5 u))
         in pre @ ''-'' @ take 4 t @ ''-'' @ drop 4 t @ ''-'' @ pair_of (window 3 w) @ pair_of (window 2 w))"
proof -
  have "u \<noteq> []" "drop 5 u \<noteq> []" using assms(2) by auto
  then have c: "chunks 5 u = take 5 u # take 5 (drop 5 u) # chunks 5 (drop 5 (drop 5 u))"
    by (simp only: chunks.simps [of 5 u] chunks.simps [of 5 "drop 5 u"]) simp
  let ?t = "chunk_text (from_bytes (take 5 u))" and ?w = "from_bytes (take 5 (drop 5 u))"
  let ?uid = "?t @ pair_of (window 3 ?w) @ pair_of (window 2 ?w)"
  have "take 12 (concat (map (\<lambda>x. chunk_text (from_bytes x)) (chunks 5 u))) = ?uid"
    by (simp add: c chunk_text_def [of ?w])
  moreover have "lower ?uid = ?uid"
  proof -
    have "set ?uid \<subseteq> set base32_alphabet"
      using set_chunk_text set_pair_of [OF window_less] by simp
    then have "lower_char x = x" if "x \<in> set ?uid" for x
      using that lower_alphabet by blast
    then show ?thesis unfolding lower_def by (rule map_idI)
  qed
  ultimately show ?thesis
    by (simp add: build_vcid_def base32_text [OF assms(1)] slice_def Let_def)
qed

lemma alphabet_first: "k < 8 \<Longrightarrow> base32_alphabet ! k \<in> set ''abcdefgh''"
proof -
  assume k: "k < 8"
  have "k = 0 \<or> k = 1 \<or> k = 2 \<or> k = 3 \<or> k = 4 \<or> k = 5 \<or> k = 6 \<or> k = 7" using k by linarith
  then show ?thesis by (elim disjE) (simp_all add: base32_alphabet_def)
qed

text \<open>Bytes 5 to 9 of the UUID, and its two leading windows.\<close>

lemma split_six_bits:
  fixes a b d :: nat
  shows "(a * 256 + b) * 16 + d = (a * 4 + b div 64) * 1024 + (b mod 64 * 16 + d)"
proof -
  obtain q r where "b div 64 = q" "b mod 64 = r" "b = q * 64 + r" by (metis div_mult_mod_eq)
  then show ?thesis by simp
qed

lemma second_windows:
  assumes "bytes u" "length u = 16"
  shows "window 3 (from_bytes (take 5 (drop 5 u))) = u ! 5 * 4 + u ! 6 div 64"
    and "window 2 (from_bytes (take 5 (drop 5 u))) = u ! 6 mod 64 * 16 + u ! 7 div 16"
proof -
  have l: "take 5 (drop 5 u) = [u ! 5, u ! 6, u ! 7, u ! 8, u ! 9]"
    using assms(2) by (intro nth_equalityI) (auto simp: less_Suc_eq numeral_eq_Suc)
  have b: "u ! 5 < 256" "u ! 6 < 256" "u ! 7 < 256" "u ! 8 < 256" "u ! 9 < 256"
    using assms by (simp_all add: bytes_def)
  let ?v = "u ! 8 * 256 + u ! 9"
  have w: "from_bytes (take 5 (drop 5 u)) = ((u ! 5 * 256 + u ! 6) * 256 + u ! 7) * 65536 + ?v"
    by (simp add: l from_bytes_def)
  have v: "?v < 65536" using b by linarith
  let ?c = "(u ! 5 * 256 + u ! 6) * 256 + u ! 7"
  have "from_bytes (take 5 (drop 5 u)) div 65536 = ?c" unfolding w using v by simp
  moreover have "(x :: nat) div 1048576 = x div 65536 div 16" for x by (simp add: div_mult2_eq [symmetric])
  ultimately have c: "from_bytes (take 5 (drop 5 u)) div 1048576 = ?c div 16" by simp
  have "?c div 16 = (u ! 5 * 256 + u ! 6) * 16 + u ! 7 div 16" by simp
  also have "\<dots> = (u ! 5 * 4 + u ! 6 div 64) * 1024 + (u ! 6 mod 64 * 16 + u ! 7 div 16)"
    by (rule split_six_bits)
  finally have c2: "from_bytes (take 5 (drop 5 u)) div 1048576 =
      (u ! 5 * 4 + u ! 6 div 64) * 1024 + (u ! 6 mod 64 * 16 + u ! 7 div 16)"
    using c by simp
  have s: "u ! 6 mod 64 * 16 + u ! 7 div 16 < 1024"
    using b(3) by (simp add: div_less_iff_less_mult) 
  have t: "u ! 5 * 4 + u ! 6 div 64 < 1024" using b(1,2) by linarith
  let ?x = "from_bytes (take 5 (drop 5 u))"
  have "window 2 ?x = (?x div 1048576) mod 1024" by (simp add: window_def)
  also have "\<dots> = u ! 6 mod 64 * 16 + u ! 7 div 16"
    by (simp only: c2 mod_mult_self3 mod_less [OF s])
  finally show "window 2 ?x = u ! 6 mod 64 * 16 + u ! 7 div 16" .
  have "window 3 ?x = (?x div 1048576) div 1024 mod 1024" by (simp add: window_def div_mult2_eq [symmetric])
  also have "(?x div 1048576) div 1024 = u ! 5 * 4 + u ! 6 div 64"
    using s by (simp only: c2 div_mult_self3 zero_neq_numeral [symmetric] not_False_eq_True div_less add_0_right)
  finally show "window 3 ?x = u ! 5 * 4 + u ! 6 div 64" using t by simp
qed

lemma vcid_shape_raw:
  assumes "bytes u" "length u = 16"
  shows "\<exists>a b c. build_vcid pre u = Inr (pre @ ''-'' @ a @ ''-'' @ b @ ''-'' @ c) \<and>
     length a = 4 \<and> length b = 4 \<and> length c = 4 \<and>
     set a \<union> set b \<union> set c \<subseteq> set base32_alphabet \<and>
     c = pair_of (u ! 5 * 4 + u ! 6 div 64) @ pair_of (u ! 6 mod 64 * 16 + u ! 7 div 16)"
proof -
  let ?t = "chunk_text (from_bytes (take 5 u))"
  have "set (take 4 ?t) \<union> set (drop 4 ?t) \<subseteq> set base32_alphabet"
    using set_chunk_text [of "from_bytes (take 5 u)"] set_take_subset set_drop_subset by fastforce
  moreover have "set (pair_of (window k w)) \<subseteq> set base32_alphabet" for k w
    by (rule set_pair_of [OF window_less])
  moreover let ?w = "from_bytes (take 5 (drop 5 u))"
  have "build_vcid pre u = Inr (pre @ ''-'' @ take 4 ?t @ ''-'' @ drop 4 ?t @ ''-'' @
      (pair_of (window 3 ?w) @ pair_of (window 2 ?w)))"
    by (simp add: vcid_text [OF assms] Let_def)
  ultimately show ?thesis
    unfolding second_windows [OF assms, symmetric]
    by (intro exI [of _ "take 4 ?t"] exI [of _ "drop 4 ?t"]
        exI [of _ "pair_of (window 3 ?w) @ pair_of (window 2 ?w)"]) simp
qed

text \<open>
  a VCID is the prefix and three groups of four characters of the alphabet, and, for the UUIDs
  of version 4 that \<open>uuid4\<close> returns (high half of byte 6 is 4), the third character of the last
  group is one of the first eight letters: the four version bits take part, so only 56 of the 60
  bits vary.
\<close>

theorem vcid_shape:
  assumes "bytes u" "length u = 16" "u ! 6 div 16 = 4"
  shows "\<exists>a b c. build_vcid pre u = Inr (pre @ ''-'' @ a @ ''-'' @ b @ ''-'' @ c) \<and>
     length a = 4 \<and> length b = 4 \<and> length c = 4 \<and>
     set a \<union> set b \<union> set c \<subseteq> set base32_alphabet \<and> c ! 2 \<in> set ''abcdefgh''"
proof -
  have "u ! 6 = 4 * 16 + u ! 6 mod 16" using div_mult_mod_eq [of "u ! 6" 16] assms(3) by simp
  then obtain r where "u ! 6 = 64 + r" "r < 16" by fastforce
  then have "u ! 6 mod 64 < 16" by simp
  moreover have "u ! 7 < 256" using assms(1,2) by (simp add: bytes_def)
  then have "u ! 7 div 16 < 16" by (simp add: div_less_iff_less_mult)
  moreover have "(r * 16 + d) div 32 < 8" if "r < 16" "d < 16" for r d :: nat
    by (rule less_mult_imp_div_less) (use that in simp)
  ultimately have "base32_alphabet ! ((u ! 6 mod 64 * 16 + u ! 7 div 16) div 32) \<in> set ''abcdefgh''"
    by (intro alphabet_first)
  then have "(pair_of (u ! 5 * 4 + u ! 6 div 64) @ pair_of (u ! 6 mod 64 * 16 + u ! 7 div 16)) ! 2 \<in> set ''abcdefgh''"
    by (simp add: pair_of_def)
  with vcid_shape_raw [OF assms(1,2), of pre] show ?thesis by blast
qed

definition demo_uuid :: "nat list" where
  "demo_uuid = [1, 2, 3, 4, 5, 6, 77, 8, 9, 10, 11, 12, 13, 14, 15, 16]"

lemma vcid_shape_witness:
  "\<exists>a b c. build_vcid ''VCID'' demo_uuid = Inr (''VCID'' @ ''-'' @ a @ ''-'' @ b @ ''-'' @ c) \<and>
     length a = 4 \<and> length b = 4 \<and> length c = 4 \<and>
     set a \<union> set b \<union> set c \<subseteq> set base32_alphabet \<and> c ! 2 \<in> set ''abcdefgh''"
  by (rule vcid_shape) (simp_all add: demo_uuid_def bytes_def)

text \<open>
  two UUIDs give the same VCID exactly when they agree on their first 60 bits: bytes 0 to 6
  and the high half of byte 7.
\<close>

theorem vcid_collision:
  assumes "bytes u" "length u = 16" "bytes v" "length v = 16"
  shows "build_vcid pre u = build_vcid pre v \<longleftrightarrow> take 7 u = take 7 v \<and> u ! 7 div 16 = v ! 7 div 16"
proof -
  let ?f = "\<lambda>u. chunk_text (from_bytes (take 5 u))"
  have 7: "take 7 w = take 5 w @ [w ! 5, w ! 6]" if "length w = 16" for w :: "nat list"
    using that by (intro nth_equalityI) (auto simp: nth_append less_Suc_eq numeral_eq_Suc)
  have b: "u ! 6 < 256" "u ! 7 < 256" "v ! 6 < 256" "v ! 7 < 256" "u ! 5 < 256" "v ! 5 < 256"
    using assms by (simp_all add: bytes_def)
  have "build_vcid pre u = build_vcid pre v \<longleftrightarrow> ?f u = ?f v \<and>
      pair_of (u ! 5 * 4 + u ! 6 div 64) = pair_of (v ! 5 * 4 + v ! 6 div 64) \<and>
      pair_of (u ! 6 mod 64 * 16 + u ! 7 div 16) = pair_of (v ! 6 mod 64 * 16 + v ! 7 div 16)"
    unfolding vcid_text [OF assms(1,2)] vcid_text [OF assms(3,4)] Let_def second_windows [OF assms(1,2)]
      second_windows [OF assms(3,4)]
    by (auto simp: append_eq_append_conv) (metis append_take_drop_id)
  also have "?f u = ?f v \<longleftrightarrow> take 5 u = take 5 v"
  proof
    assume t: "?f u = ?f v"
    have bb: "bytes (take 5 u)" "bytes (take 5 v)" using assms by (auto simp: bytes_def dest: in_set_takeD)
    have "from_bytes (take 5 u) = from_bytes (take 5 v)"
      by (rule chunk_text_inj [OF chunk_less chunk_less t]) (use bb in auto)
    then show "take 5 u = take 5 v"
      by (rule from_bytes_inj [rotated 3]) (use bb assms in \<open>auto simp: bytes_def\<close>)
  qed simp
  also have "pair_of (u ! 5 * 4 + u ! 6 div 64) = pair_of (v ! 5 * 4 + v ! 6 div 64) \<longleftrightarrow>
      u ! 5 * 4 + u ! 6 div 64 = v ! 5 * 4 + v ! 6 div 64"
    using pair_of_inj [of "u ! 5 * 4 + u ! 6 div 64" "v ! 5 * 4 + v ! 6 div 64"] b by (auto dest: less_imp_le)
  also have "pair_of (u ! 6 mod 64 * 16 + u ! 7 div 16) = pair_of (v ! 6 mod 64 * 16 + v ! 7 div 16) \<longleftrightarrow>
      u ! 6 mod 64 * 16 + u ! 7 div 16 = v ! 6 mod 64 * 16 + v ! 7 div 16"
    using pair_of_inj [of "u ! 6 mod 64 * 16 + u ! 7 div 16" "v ! 6 mod 64 * 16 + v ! 7 div 16"] b by auto
  also have "take 5 u = take 5 v \<and> u ! 5 * 4 + u ! 6 div 64 = v ! 5 * 4 + v ! 6 div 64 \<and>
      u ! 6 mod 64 * 16 + u ! 7 div 16 = v ! 6 mod 64 * 16 + v ! 7 div 16 \<longleftrightarrow>
      take 7 u = take 7 v \<and> u ! 7 div 16 = v ! 7 div 16"
  proof -
    have "u ! 5 = v ! 5 \<and> u ! 6 = v ! 6 \<and> u ! 7 div 16 = v ! 7 div 16 \<longleftrightarrow>
      u ! 5 * 4 + u ! 6 div 64 = v ! 5 * 4 + v ! 6 div 64 \<and>
      u ! 6 mod 64 * 16 + u ! 7 div 16 = v ! 6 mod 64 * 16 + v ! 7 div 16"
      (is "?L \<longleftrightarrow> ?R")
    proof
      assume r: ?R
      have l: "u ! 6 div 64 < 4" "v ! 6 div 64 < 4" "u ! 7 div 16 < 16" "v ! 7 div 16 < 16"
        using b by (simp_all add: div_less_iff_less_mult)
      have "4 * (u ! 5) + u ! 6 div 64 = 4 * (v ! 5) + v ! 6 div 64"
        "16 * (u ! 6 mod 64) + u ! 7 div 16 = 16 * (v ! 6 mod 64) + v ! 7 div 16"
        using r by (simp_all add: mult.commute)
      note digits_eq [OF this(1) l(1,2)] digits_eq [OF this(2) l(3,4)]
      moreover from this have "u ! 6 = v ! 6" by (metis div_mult_mod_eq)
      ultimately show ?L by simp
    qed simp
    then show ?thesis using assms(2,4) by (auto simp: 7)
  qed
  finally show ?thesis .
qed

lemma vcid_collision_witness:
  "build_vcid ''VCID'' demo_uuid = build_vcid ''VCID'' (demo_uuid[7 := 15, 12 := 200]) \<longleftrightarrow>
   take 7 demo_uuid = take 7 (demo_uuid[7 := 15, 12 := 200]) \<and>
   demo_uuid ! 7 div 16 = (demo_uuid[7 := 15, 12 := 200]) ! 7 div 16"
  by (rule vcid_collision) (simp_all add: demo_uuid_def bytes_def)

section \<open>Purl hashes\<close>

definition hex_digit :: "char \<Rightarrow> nat" where
  "hex_digit c = (let n = of_char c :: nat in if n < 58 then n - 48 else n - 87)"

definition of_hex :: "string \<Rightarrow> nat" where
  "of_hex s = foldl (\<lambda>n c. 16 * n + hex_digit c) 0 s"

lemma hex_lower_cases:
  assumes "d < 16" shows "hex_digit (hex_lower d) = d \<and> hex_lower d \<in> set ''0123456789abcdef''"
proof -
  have "d \<in> set [0..<16]" using assms by simp
  moreover have "list_all (\<lambda>d. hex_digit (hex_lower d) = d \<and> hex_lower d \<in> set ''0123456789abcdef'') [0..<16]"
    by code_simp
  ultimately show ?thesis by (simp only: list_all_iff)
qed

lemma of_hex_snoc: "of_hex (s @ [c]) = 16 * of_hex s + hex_digit c"
  by (simp add: of_hex_def)

lemma of_hex_to_hex: "of_hex (to_hex n) = n"
proof (induction n rule: to_hex.induct)
  case (1 n)
  show ?case
  proof (cases "n < 16")
    case True
    then show ?thesis using hex_lower_cases by (simp add: to_hex.simps [of n] of_hex_def)
  next
    case False
    with 1 show ?thesis using hex_lower_cases [of "n mod 16"]
      by (simp add: to_hex.simps [of n] of_hex_snoc)
  qed
qed

lemma set_to_hex: "set (to_hex n) \<subseteq> set ''0123456789abcdef''"
proof (induction n rule: to_hex.induct)
  case (1 n)
  show ?case
  proof (cases "n < 16")
    case True
    then show ?thesis using hex_lower_cases by (simp add: to_hex.simps [of n])
  next
    case False
    then have "set (to_hex n) = insert (hex_lower (n mod 16)) (set (to_hex (n div 16)))"
      by (simp add: to_hex.simps [of n])
    with 1 [OF False] hex_lower_cases [of "n mod 16"] show ?thesis by simp
  qed
qed

lemma length_to_hex: "n < 16 ^ w \<Longrightarrow> 0 < w \<Longrightarrow> length (to_hex n) \<le> w"
proof (induction n arbitrary: w rule: to_hex.induct)
  case (1 n)
  show ?case
  proof (cases "n < 16")
    case True
    with 1 show ?thesis by (simp add: to_hex.simps [of n])
  next
    case False
    obtain v where v: "w = Suc v" using 1 by (cases w) auto
    with 1 False have "0 < v" by (cases v) auto
    moreover have "n div 16 < 16 ^ v" using 1 v by (simp add: less_mult_imp_div_less)
    ultimately have "length (to_hex (n div 16)) \<le> v" using 1 False by blast
    then show ?thesis using False v by (simp add: to_hex.simps [of n])
  qed
qed

lemma to_hex_nonempty: "to_hex n \<noteq> []"
  by (simp add: to_hex.simps [of n])

lemma of_hex_zeros: "of_hex (replicate k (CHR ''0'') @ s) = of_hex s"
  by (induction k) (simp_all add: of_hex_def hex_digit_def)

lemma lower_hex: "set s \<subseteq> set ''0123456789abcdef'' \<Longrightarrow> lower s = s"
proof -
  assume a: "set s \<subseteq> set ''0123456789abcdef''"
  have "list_all (\<lambda>c. lower_char c = c) ''0123456789abcdef''" by code_simp
  with a have "c \<in> set s \<Longrightarrow> lower_char c = c" for c by (auto simp only: list_all_iff subset_iff)
  then show "lower s = s" by (simp add: lower_def map_idI)
qed

text \<open>
  the purl hash has the fixed length the docstring promises (one character for 0 bits), is
  lower-case hexadecimal, and denotes the digest modulo \<open>2 ^ bit_count\<close>.
\<close>

theorem purl_hash_shape:
  assumes "get_core_purl L p = Inr core" and "get_purl_hash L sha p bits = Inr h"
  shows "length h = max 1 ((bits + 3) div 4) \<and> set h \<subseteq> set ''0123456789abcdef'' \<and>
     of_hex h = from_bytes (sha (lib_to_string L core)) mod 2 ^ bits"
proof -
  let ?n = "from_bytes (sha (lib_to_string L core)) mod 2 ^ bits" and ?w = "(bits + 3) div 4"
  let ?z = "zero_pad ?w (to_hex ?n)"
  have zs: "set ?z \<subseteq> set ''0123456789abcdef''"
    using set_to_hex [of ?n] unfolding zero_pad_def by auto
  then have h: "h = ?z" using assms lower_hex [OF zs] by (simp add: get_purl_hash_def Let_def)
  have "length (to_hex ?n) \<le> max 1 ?w"
  proof (rule length_to_hex)
    have "?n < 2 ^ bits" by simp
    also have "\<dots> \<le> 2 ^ (4 * max 1 ?w)" by (intro power_increasing) auto
    also have "\<dots> = 16 ^ max 1 ?w" by (simp add: power_mult)
    finally show "?n < 16 ^ max 1 ?w" .
  qed simp
  moreover have "0 < length (to_hex ?n)" using to_hex_nonempty by simp
  moreover have "w - l + l = max 1 w" if "l \<le> max 1 w" "0 < l" for w l :: nat
    using that by auto
  ultimately have "length ?z = max 1 ?w" by (simp add: zero_pad_def)
  moreover have "of_hex ?z = ?n" by (simp add: zero_pad_def of_hex_zeros of_hex_to_hex)
  ultimately show ?thesis using zs h by simp
qed

definition demo_lib :: purl_lib where
  "demo_lib = \<lparr>lib_purl = (\<lambda>t ns n v q s. \<lparr>ptype = t, pnamespace = ns, pname = n, pversion = v,
       pqualifiers = q, psubpath = s\<rparr>),
     lib_from_string = (\<lambda>s. Inl ValueError), lib_to_string = (\<lambda>p. ptype p @ ''/'' @ pname p),
     lib_normalize_qualifiers = (\<lambda>q. concat (map (\<lambda>(k, v). k @ ''='' @ v) q)),
     lib_normalize_subpath = (\<lambda>s. s), lib_fields = (\<lambda>p. [(''type'', ptype p), (''name'', pname p)]),
     lib_of_fields = (\<lambda>d. Inl ValueError)\<rparr>"

definition demo_purl :: "string \<Rightarrow> purl" where
  "demo_purl v = \<lparr>ptype = ''pypi'', pnamespace = None, pname = ''a'', pversion = Some v,
     pqualifiers = [(''k'', v)], psubpath = Some v\<rparr>"

definition demo_sha :: "string \<Rightarrow> nat list" where
  "demo_sha s = [3, length s, 97]"

lemma demo_to_hex: "to_hex 97 = ''61''"
  by (subst to_hex.simps, simp, subst to_hex.simps, simp add: hex_lower_def)

lemma demo_hash: "get_purl_hash demo_lib demo_sha (PObj (demo_purl ''1'')) 7 = Inr ''61''"
  by (simp add: get_purl_hash_def get_core_purl_def demo_lib_def demo_purl_def demo_sha_def from_bytes_def
      demo_to_hex zero_pad_def lower_def lower_char_def)

lemma purl_hash_shape_witness:
  "length ''61'' = max 1 ((7 + 3) div 4 :: nat) \<and> set ''61'' \<subseteq> set ''0123456789abcdef'' \<and>
   of_hex ''61'' = from_bytes (demo_sha (lib_to_string demo_lib
     \<lparr>ptype = ''pypi'', pnamespace = None, pname = ''a'', pversion = None, pqualifiers = [], psubpath = None\<rparr>)) mod 2 ^ 7"
  by (rule purl_hash_shape [where p = "PObj (demo_purl ''1'')"])
     (simp add: get_core_purl_def demo_lib_def demo_purl_def, rule demo_hash)

text \<open>
  at most 1,024 hash values: the number of bits of every ecosystem is at most 10 (the
  docstring of \<open>package_path_elements\<close> speaks of 8,192 values).
\<close>

theorem purl_hash_values:
  assumes "get_purl_hash L sha p (bit_count ty) = Inr h"
  shows "of_hex h < 1024"
proof -
  have "list_all (\<lambda>e. snd e \<le> 10) BIT_COUNT_BY_ECOSYSTEM"
    by (simp add: BIT_COUNT_BY_ECOSYSTEM_def)
  then have "bit_count ty \<le> 10"
    by (auto simp: bit_count_def dict_get_def list_all_iff split: option.splits dest!: map_of_SomeD)
  then have "(2 :: nat) ^ bit_count ty \<le> 2 ^ 10" by (intro power_increasing) auto
  moreover obtain core where c: "get_core_purl L p = Inr core"
    using assms by (cases "get_core_purl L p") (auto simp: get_purl_hash_def)
  let ?n = "from_bytes (sha (lib_to_string L core)) mod 2 ^ bit_count ty"
  have "set (zero_pad k (to_hex ?n)) \<subseteq> set ''0123456789abcdef''" for k
    using set_to_hex [of ?n] unfolding zero_pad_def by auto
  from lower_hex [OF this] have "h = zero_pad ((bit_count ty + 3) div 4) (to_hex ?n)"
    using assms c by (simp add: get_purl_hash_def Let_def)
  then have "of_hex h = ?n" by (simp add: zero_pad_def of_hex_zeros of_hex_to_hex)
  moreover have "?n < 2 ^ bit_count ty" by simp
  ultimately have "of_hex h < 2 ^ 10" by (metis order_less_le_trans)
  then show ?thesis by simp
qed

lemma purl_hash_values_witness: "of_hex ''61'' < 1024"
  by (rule purl_hash_values [where L = demo_lib and sha = demo_sha and p = "PObj (demo_purl ''1'')" and ty = "''pypi''"])
     (use demo_hash in \<open>simp add: bit_count_def BIT_COUNT_BY_ECOSYSTEM_def dict_get_def\<close>)

text \<open>
  all versions of a package share one directory: the base directory depends on the type, the
  namespace and the name only.
\<close>

theorem base_dir_core_only:
  "get_package_base_dir L sha (PObj p) =
   get_package_base_dir L sha (PObj (p\<lparr>pversion := v, pqualifiers := q, psubpath := s\<rparr>))"
  by (simp add: get_package_base_dir_def package_path_elements_def get_purl_hash_def get_core_purl_def Let_def
      split: sum.splits)

section \<open>Quoting\<close>

lemma unquoted_hex: "n < 16 \<Longrightarrow> unquoted (hex_upper n)"
proof -
  assume "n < 16"
  then have "n \<in> set [0..<16]" by simp
  moreover have "list_all (\<lambda>d. unquoted (hex_upper d)) [0..<16]" by code_simp
  ultimately show ?thesis by (simp only: list_all_iff)
qed

lemma quote_char_unquoted: "c \<in> set (quote_char d) \<Longrightarrow> unquoted c"
  using unquoted_hex [of "of_char d div 16"] unquoted_hex [of "of_char d mod 16"]
  by (auto simp: quote_char_def less_mult_imp_div_less split: if_splits) (simp add: unquoted_def)

lemma quote_more_fix: "(\<And>c. c \<in> set s \<Longrightarrow> unquoted c) \<Longrightarrow> quote_more s = s"
  by (induction s) (auto simp: quote_more_def quote_char_def split: if_splits)

text \<open>
  \<open>quote_more\<close> leaves only characters that are safe in a path (no separator, no \<open>#\<close> or
  \<open>?\<close>), and quoting a quoted string changes nothing.
\<close>

theorem quote_more_safe:
  "list_all unquoted (quote_more s) \<and> CHR ''/'' \<notin> set (quote_more s) \<and>
   quote_more (quote_more s) = quote_more s"
proof -
  have u: "c \<in> set (quote_more s) \<Longrightarrow> unquoted c" for c
    using quote_char_unquoted by (auto simp: quote_more_def split: if_splits)
  moreover have "\<not> unquoted (CHR ''/'')" by code_simp
  ultimately show ?thesis using quote_more_fix [of "quote_more s"]
    by (auto simp: list_all_iff)
qed

end
