(* ===== verification/AdvisoryImport.thy ===== *)
theory AdvisoryImport
  imports Importer Packages Risk Hashid
begin

text \<open>
  Storing collected advisories: \<open>vulnerabilities/pipes/advisory.py\<close> and
  \<open>vulnerabilities/pipes/univers_utils.py\<close>, on the tables of the advisories of the second generation.

  An operation that raises returns the exception alone: \<open>insert_advisory_v2\<close> runs in a transaction, so
  nothing it did stays. What the code calls of other packages (version ranges, package URLs, dates,
  digests) is the record \<open>import_env\<close>.
\<close>

section \<open>The tables\<close>

record 'd advisory_v2 =
  av_datasource :: string
  av_pipeline :: string
  av_advisory_id :: string
  av_avid :: string
  av_content_id :: string
  av_url :: string
  av_summary :: string
  av_date_published :: "'d option"
  av_original :: "string option"
  av_precedence :: int
  av_is_latest :: bool
  av_aliases :: "nat list"
  av_references :: "nat list"
  av_severities :: "nat list"
  av_weaknesses :: "nat list"
  av_patches :: "nat list"
  av_weighted_severity :: "rat option"
  av_exploitability :: "rat option"
  av_risk_score :: "rat option"
  av_unfurled_at :: "int option"
  av_unfurled_ok_at :: "int option"

record impact_v2 =
  im_advisory :: nat
  im_base_purl :: string
  im_affecting_vers :: "string option"
  im_fixed_vers :: "string option"
  im_affecting :: "nat list"
  im_fixed_by :: "nat list"
  im_introduced_commits :: "nat list"
  im_fixed_commits :: "nat list"
  im_unfurled_at :: "int option"
  im_unfurled_ok_at :: "int option"

record 'd import_db =
  t_aliases :: "string list"
  t_references :: "reference list"
  t_severities :: "sev_row list"
  t_weaknesses :: "int list"
  t_patches :: "patch_data list"
  t_commits :: "commit_patch list"
  t_packages :: "package_row list"
  t_advisories :: "'d advisory_v2 list"
  t_impacts :: "impact_v2 list"

record ('r, 'v, 'd) import_env =
  env_ext :: "('r, 'v, 'd) ext"
  env_hash :: "json \<Rightarrow> string"
  env_commits_str :: "commit_patch list \<Rightarrow> string"
  env_round1 :: "rat \<Rightarrow> rat"
  env_float :: "string \<Rightarrow> rat option"
  env_date_str :: "'d stamp \<Rightarrow> string"
  env_vclass :: "string \<Rightarrow> string \<Rightarrow> 'v result"
  env_constraints :: "'r \<Rightarrow> (string \<times> 'v) list"
  env_contains :: "'v \<Rightarrow> 'r \<Rightarrow> bool result"
  env_valid_url :: "string \<Rightarrow> bool"

section \<open>Related rows\<close>

definition get_or_create_advisory_aliases :: "string list \<Rightarrow> string list \<Rightarrow> nat list \<times> string list" where
  "get_or_create_advisory_aliases = get_or_create_rows (\<lambda>a. a) (=)"

definition get_or_create_advisory_references :: "reference list \<Rightarrow> reference list \<Rightarrow> nat list \<times> reference list" where
  "get_or_create_advisory_references =
     get_or_create_rows ref_url (\<lambda>a b. ref_url a = ref_url b \<and> ref_type a = ref_type b)"

definition get_or_create_advisory_weaknesses :: "int list \<Rightarrow> int list \<Rightarrow> nat list \<times> int list" where
  "get_or_create_advisory_weaknesses = get_or_create_rows (\<lambda>w. w) (=)"

text \<open>A null in a unique column conflicts with nothing.\<close>

definition patch_conflict :: "patch_data \<Rightarrow> patch_data \<Rightarrow> bool" where
  "patch_conflict a b \<longleftrightarrow> pd_checksum a \<noteq> None \<and> patch_url a \<noteq> None \<and>
     pd_checksum a = pd_checksum b \<and> patch_url a = patch_url b"

definition get_or_create_advisory_patches :: "patch_data list \<Rightarrow> patch_data list \<Rightarrow> nat list \<times> patch_data list" where
  "get_or_create_advisory_patches = get_or_create_rows (\<lambda>p. (pd_text p, patch_url p)) patch_conflict"

interpretation alias_table: keyed_table "\<lambda>a :: string. a" "(=)"
  rewrites "get_or_create_rows (\<lambda>a :: string. a) (=) \<equiv> get_or_create_advisory_aliases"
  by unfold_locales (simp_all add: get_or_create_advisory_aliases_def)

interpretation reference_table: keyed_table ref_url "\<lambda>a b. ref_url a = ref_url b \<and> ref_type a = ref_type (b :: reference)"
  rewrites "get_or_create_rows ref_url (\<lambda>a b. ref_url a = ref_url b \<and> ref_type a = ref_type (b :: reference))
     \<equiv> get_or_create_advisory_references"
  by unfold_locales (simp_all add: get_or_create_advisory_references_def)

interpretation weakness_table: keyed_table "\<lambda>w :: int. w" "(=)"
  rewrites "get_or_create_rows (\<lambda>w :: int. w) (=) \<equiv> get_or_create_advisory_weaknesses"
  by unfold_locales (simp_all add: get_or_create_advisory_weaknesses_def)

text \<open>
  Severities are looked up one by one, by everything but their date; a severity with neither elements nor
  a value is left out.
\<close>

definition sev_row_of :: "('d stamp \<Rightarrow> string) \<Rightarrow> 'd severity \<Rightarrow> sev_row" where
  "sev_row_of date_str s = \<lparr>sr_url = sev_url s, sr_system = sev_system s, sr_value = Some (sev_value s),
     sr_elements = Some (sev_elements s),
     sr_published = (case sev_published s of
        None \<Rightarrow> None | Some (StampText []) \<Rightarrow> None | Some d \<Rightarrow> Some (date_str d))\<rparr>"

definition sev_row_key :: "sev_row \<Rightarrow> string \<times> string option \<times> string option \<times> string option" where
  "sev_row_key s = (sr_system s, sr_value s, sr_elements s, sr_url s)"

fun add_severities :: "sev_row list \<Rightarrow> nat list \<Rightarrow> sev_row list \<Rightarrow> (nat list \<times> sev_row list) result" where
  "add_severities [] ids t = Inr (ids, t)"
| "add_severities (s # ss) ids t =
     (case rows_where (\<lambda>r. sev_row_key r = sev_row_key s) t of
        [] \<Rightarrow> add_severities ss (ids @ [length t]) (t @ [s])
      | [i] \<Rightarrow> add_severities ss (ids @ [i]) t
      | _ \<Rightarrow> Inl MultipleObjectsReturned)"

definition get_or_create_advisory_severities ::
    "('d stamp \<Rightarrow> string) \<Rightarrow> 'd severity list \<Rightarrow> sev_row list \<Rightarrow> (nat list \<times> sev_row list) result" where
  "get_or_create_advisory_severities date_str ss t =
     map_sum id (\<lambda>(ids, t'). (filter (\<lambda>i. i \<in> set ids) [0..<length t'], t'))
       (add_severities (map (sev_row_of date_str)
          (filter (\<lambda>s. sev_elements s \<noteq> [] \<or> sev_value s \<noteq> []) ss)) [] t)"

text \<open>
  Commits: a stored commit without a text takes that of the input (the last input for its key), and two
  different texts are an error. The new commits are created without ignoring conflicts.
\<close>

definition commit_key :: "commit_patch \<Rightarrow> string option \<times> string option" where
  "commit_key c = (commit_hash c, vcs_url c)"

definition commit_data :: "commit_patch list \<Rightarrow> commit_patch \<Rightarrow> commit_patch option" where
  "commit_data cs c = find (\<lambda>d. commit_key d = commit_key c) (rev cs)"

definition merge_commit :: "commit_patch list \<Rightarrow> commit_patch \<Rightarrow> commit_patch result" where
  "merge_commit cs c =
     (case commit_data cs c of
        None \<Rightarrow> Inr c
      | Some d \<Rightarrow>
          if \<not> truthy_opt (cp_text c) \<and> truthy_opt (cp_text d)
          then Inr (c\<lparr>cp_checksum := cp_checksum d, cp_text := cp_text d\<rparr>)
          else if truthy_opt (cp_text c) \<and> truthy_opt (cp_text d) \<and> cp_text c \<noteq> cp_text d
          then Inl ValidationError else Inr c)"

definition get_or_create_advisory_package_commit_patches ::
    "commit_patch list \<Rightarrow> commit_patch list \<Rightarrow> (nat list \<times> commit_patch list) result" where
  "get_or_create_advisory_package_commit_patches cs t =
     (if cs = [] then Inr ([], t)
      else (case map_result (merge_commit cs) t of
          Inl e \<Rightarrow> Inl e
        | Inr t1 \<Rightarrow>
            (let new = filter (\<lambda>c. commit_key c \<notin> commit_key ` set t) cs
             in if \<not> distinct (map commit_key new) then Inl IntegrityError
                else Inr (rows_where (\<lambda>c. commit_key c \<in> commit_key ` set cs) (t1 @ new), t1 @ new))))"

section \<open>Exact versions of a range\<close>

definition get_exact_purl_from_vers ::
    "('r, 'v, 'd) import_env \<Rightarrow> 'r option \<Rightarrow> purl \<Rightarrow> (purl list \<times> purl list) result" where
  "get_exact_purl_from_vers E rng base =
     (case rng of None \<Rightarrow> Inr ([], [])
      | Some r \<Rightarrow>
          (let cs = env_constraints E r;
               purl_at = (\<lambda>v. update_purl_version (purls (env_ext E)) (PObj base) (Some (version_str (env_ext E) v)))
           in case map_result (\<lambda>v. map_sum id (\<lambda>b. (v, b)) (env_contains E v r)) (map snd cs) of
                Inl e \<Rightarrow> Inl e
              | Inr tested \<Rightarrow>
                  (case map_result (\<lambda>(v, _). purl_at v) (filter snd tested) of
                     Inl e \<Rightarrow> Inl e
                   | Inr hits \<Rightarrow> map_sum id (Pair hits)
                       (map_result (\<lambda>(_, v). purl_at v) (filter (\<lambda>(c, _). c = ''!='') cs)))))"

text \<open>An exception is logged, and the package then has no exact version at all.\<close>

definition get_exact_purls_v2 :: "('r, 'v, 'd) import_env \<Rightarrow> 'r affected_v2 \<Rightarrow> purl list \<times> purl list" where
  "get_exact_purls_v2 E a =
     (case get_exact_purl_from_vers E (ap_affected a) (ap_package a) of
        Inl _ \<Rightarrow> ([], [])
      | Inr (affected, fixed) \<Rightarrow>
          (case get_exact_purl_from_vers E (ap_fixed a) (ap_package a) of
             Inl _ \<Rightarrow> ([], [])
           | Inr (fixed2, affected2) \<Rightarrow> (affected @ affected2, fixed @ fixed2)))"

section \<open>Inserting an advisory\<close>

text \<open>
  \<open>AdvisoryV2.objects.get_or_create\<close>: the row with these four columns, or a new one, which \<open>save\<close> first
  validates (\<open>full_clean\<close>): no blank and no too long column, a valid URL, and a content identifier that no row
  has.
\<close>

definition avid_of :: "string \<Rightarrow> string \<Rightarrow> string" where
  "avid_of datasource advisory_id = datasource @ ''/'' @ advisory_id"

definition advisory_rows :: "string \<Rightarrow> string \<Rightarrow> string \<Rightarrow> string \<Rightarrow> 'd advisory_v2 list \<Rightarrow> nat list" where
  "advisory_rows datasource pipeline advisory_id content_id =
     rows_where (\<lambda>r. av_advisory_id r = advisory_id \<and> av_datasource r = datasource \<and>
                     av_pipeline r = pipeline \<and> av_content_id r = content_id)"

definition fits :: "nat \<Rightarrow> string \<Rightarrow> bool" where
  "fits n s \<longleftrightarrow> s \<noteq> [] \<and> length s \<le> n"

definition advisory_clean ::
    "('r, 'v, 'd) import_env \<Rightarrow> string \<Rightarrow> string \<Rightarrow> string \<Rightarrow> ('r, 'd) adv_data \<Rightarrow> 'd advisory_v2 list \<Rightarrow> bool" where
  "advisory_clean E datasource pipeline content_id a t \<longleftrightarrow>
     fits 50 datasource \<and> fits 50 pipeline \<and> fits 200 (ad_id a) \<and> fits 250 (avid_of datasource (ad_id a)) \<and>
     fits 64 content_id \<and> (case ad_url a of None \<Rightarrow> False | Some u \<Rightarrow> fits 200 u \<and> env_valid_url E u) \<and>
     ad_summary a \<noteq> None \<and> \<not> list_ex (\<lambda>r. av_content_id r = content_id) t"

definition get_or_create_advisory ::
    "('r, 'v, 'd) import_env \<Rightarrow> string \<Rightarrow> string \<Rightarrow> int \<Rightarrow> string \<Rightarrow> ('r, 'd) adv_data \<Rightarrow> 'd advisory_v2 list \<Rightarrow>
       (nat \<times> bool \<times> 'd advisory_v2 list) result" where
  "get_or_create_advisory E datasource pipeline precedence content_id a t =
     (case advisory_rows datasource pipeline (ad_id a) content_id t of
        [i] \<Rightarrow> Inr (i, False, t)
      | [] \<Rightarrow>
          if \<not> advisory_clean E datasource pipeline content_id a t then Inl ValidationError
          else Inr (length t, True, t @ [\<lparr>
            av_datasource = datasource, av_pipeline = pipeline, av_advisory_id = ad_id a,
            av_avid = avid_of datasource (ad_id a), av_content_id = content_id, av_url = the (ad_url a),
            av_summary = the (ad_summary a), av_date_published = ad_published a, av_original = ad_original a,
            av_precedence = precedence, av_is_latest = False, av_aliases = [], av_references = [],
            av_severities = [], av_weaknesses = [], av_patches = [], av_weighted_severity = None,
            av_exploitability = None, av_risk_score = None, av_unfurled_at = None, av_unfurled_ok_at = None\<rparr>])
      | _ \<Rightarrow> Inl MultipleObjectsReturned)"

text \<open>The row of its \<open>avid\<close> that was the latest is not any more, and row \<open>i\<close> is.\<close>

definition clear_latest :: "string \<Rightarrow> 'd advisory_v2 \<Rightarrow> 'd advisory_v2" where
  "clear_latest avid r = (if av_avid r = avid \<and> av_is_latest r then r\<lparr>av_is_latest := False\<rparr> else r)"

definition mark_latest :: "nat \<Rightarrow> 'd advisory_v2 list \<Rightarrow> 'd advisory_v2 list" where
  "mark_latest i t =
     (let t = map (clear_latest (av_avid (t ! i))) t in t[i := (t ! i)\<lparr>av_is_latest := True\<rparr>])"

text \<open>The impact of one affected package; its packages are ranked when it names any.\<close>

definition insert_impact ::
    "('r, 'v::linorder, 'd) import_env \<Rightarrow> nat \<Rightarrow> 'r affected_v2 \<Rightarrow> 'd import_db \<Rightarrow> 'd import_db result" where
  "insert_impact E i a db =
     (let L = purls (env_ext E); (affected, fixed) = get_exact_purls_v2 E a in
      case bulk_get_or_create_from_purls L (map PObj affected) (t_packages db) of Inl e \<Rightarrow> Inl e
      | Inr (aff, pk1) \<Rightarrow> (case bulk_get_or_create_from_purls L (map PObj fixed) pk1 of Inl e \<Rightarrow> Inl e
      | Inr (fix, pk2) \<Rightarrow>
        (case (case aff @ fix of
                 [] \<Rightarrow> Inr pk2
               | k # _ \<Rightarrow> map_sum id snd (calculate_version_rank (env_vclass E) (pk2 ! k) pk2)) of Inl e \<Rightarrow> Inl e
      | Inr pk3 \<Rightarrow> (case get_or_create_advisory_package_commit_patches (ap_introduced_by a) (t_commits db) of Inl e \<Rightarrow> Inl e
      | Inr (intro, c1) \<Rightarrow> (case get_or_create_advisory_package_commit_patches (ap_fixed_by a) c1 of Inl e \<Rightarrow> Inl e
      | Inr (fixc, c2) \<Rightarrow>
          Inr (db\<lparr>t_packages := pk3, t_commits := c2,
            t_impacts := t_impacts db @ [\<lparr>im_advisory = i,
              im_base_purl = lib_to_string L (ap_package a),
              im_affecting_vers = map_option (range_str (env_ext E)) (ap_affected a),
              im_fixed_vers = map_option (range_str (env_ext E)) (ap_fixed a),
              im_affecting = aff, im_fixed_by = fix,
              im_introduced_commits = intro, im_fixed_commits = fixc,
              im_unfurled_at = None, im_unfurled_ok_at = None\<rparr>]\<rparr>))))))"

fun insert_impacts ::
    "('r, 'v::linorder, 'd) import_env \<Rightarrow> nat \<Rightarrow> 'r affected_v2 list \<Rightarrow> 'd import_db \<Rightarrow> 'd import_db result" where
  "insert_impacts E i [] db = Inr db"
| "insert_impacts E i (a # as) db =
     (case insert_impact E i a db of Inl e \<Rightarrow> Inl e | Inr db' \<Rightarrow> insert_impacts E i as db')"

text \<open>
  The related rows of the new advisory, its scores (it has no exploit and no related advisory yet), and
  the date of its unfurling when there is no range to unfurl.
\<close>

definition relate_advisory ::
    "('r, 'v, 'd) import_env \<Rightarrow> int \<Rightarrow> nat \<Rightarrow> ('r, 'd) adv_data \<Rightarrow> 'd import_db \<Rightarrow> 'd import_db result" where
  "relate_advisory E now i a db =
     (let (als, ta) = get_or_create_advisory_aliases (ad_aliases a) (t_aliases db);
          (refs, tr) = get_or_create_advisory_references (ad_references a) (t_references db)
      in case get_or_create_advisory_severities (env_date_str E) (ad_severities a) (t_severities db) of
           Inl e \<Rightarrow> Inl e
         | Inr (sevs, ts) \<Rightarrow>
             (let (pats, tp) = get_or_create_advisory_patches (ad_patches a) (t_patches db);
                  (weaks, tw) = get_or_create_advisory_weaknesses (ad_weaknesses a) (t_weaknesses db);
                  (ws, ex, risk) = compute_advisory_risk_score (env_round1 E) (env_float E)
                     (map ((!) tr) refs) (map ((!) ts) sevs) [] 0;
                  unfurled = (if ad_affected a = [] then Some now else None);
                  row = (t_advisories db ! i)\<lparr>av_aliases := als, av_references := refs, av_severities := sevs,
                    av_weaknesses := weaks, av_patches := pats,
                    av_weighted_severity := map_option (env_round1 E) ws,
                    av_exploitability := map_option (env_round1 E) ex, av_risk_score := map_option (env_round1 E) risk,
                    av_unfurled_at := unfurled, av_unfurled_ok_at := unfurled\<rparr>
              in Inr (db\<lparr>t_aliases := ta, t_references := tr, t_severities := ts, t_patches := tp,
                         t_weaknesses := tw, t_advisories := (t_advisories db)[i := row]\<rparr>)))"

definition insert_advisory_v2 ::
    "('r, 'v::linorder, 'd::linorder) import_env \<Rightarrow> int \<Rightarrow> string \<Rightarrow> string \<Rightarrow> int \<Rightarrow> ('r, 'd) adv_data \<Rightarrow>
       'd import_db \<Rightarrow> (nat \<times> 'd import_db) result" where
  "insert_advisory_v2 E now pipeline datasource precedence a db =
     (case compute_content_id_v2 (env_hash E) (env_ext E) (env_commits_str E) a of Inl e \<Rightarrow> Inl e
      | Inr content_id \<Rightarrow>
          (case get_or_create_advisory E datasource pipeline precedence content_id a (t_advisories db) of Inl e \<Rightarrow> Inl e
           | Inr (i, created, t) \<Rightarrow>
               if \<not> created then Inr (i, db)
               else (case relate_advisory E now i a (db\<lparr>t_advisories := mark_latest i t\<rparr>) of Inl e \<Rightarrow> Inl e
                     | Inr db \<Rightarrow> map_sum id (Pair i) (insert_impacts E i (ad_affected a) db))))"

section \<open>What an insertion leaves\<close>

lemma insert_impact_tables:
  "insert_impact E i a db = Inr db' \<Longrightarrow> t_advisories db' = t_advisories db \<and> t_aliases db' = t_aliases db \<and>
     t_references db' = t_references db \<and> t_severities db' = t_severities db \<and> t_weaknesses db' = t_weaknesses db \<and>
     t_patches db' = t_patches db"
  by (auto simp: insert_impact_def Let_def split: prod.splits sum.splits)

lemma insert_impacts_tables:
  "insert_impacts E i as db = Inr db' \<Longrightarrow> t_advisories db' = t_advisories db \<and> t_aliases db' = t_aliases db \<and>
     t_references db' = t_references db \<and> t_severities db' = t_severities db \<and> t_weaknesses db' = t_weaknesses db \<and>
     t_patches db' = t_patches db"
  by (induction "as" arbitrary: db) (auto split: sum.splits dest!: insert_impact_tables)

text \<open>A table that has only grown: the keys of its earlier rows are where they were.\<close>

definition grown :: "('a \<Rightarrow> 'k) \<Rightarrow> 'a list \<Rightarrow> 'a list \<Rightarrow> bool" where
  "grown key t t' \<longleftrightarrow> (\<exists>new. map key t' = map key t @ new)"

lemma grown_refl [simp, intro]: "grown key t t"
  by (simp add: grown_def)

lemma grown_trans: "grown key t t' \<Longrightarrow> grown key t' t'' \<Longrightarrow> grown key t t''"
  by (auto simp: grown_def)

lemma grown_append [intro]: "map key t' = map key (t @ new) \<Longrightarrow> grown key t t'"
  by (auto simp: grown_def)

lemma grown_nth:
  assumes "grown key t t'" "i < length t"
  shows "i < length t' \<and> key (t' ! i) = key (t ! i)"
proof -
  from assms(1) obtain new where new: "map key t' = map key t @ new" unfolding grown_def by blast
  then have len: "length t' = length t + length new" by (metis length_append length_map)
  have "map key t' ! i = key (t ! i)" using assms(2) by (simp add: new nth_append)
  with assms(2) len show ?thesis by simp
qed

text \<open>Identifiers of rows that carry exactly the wanted keys.\<close>

definition stored :: "('a \<Rightarrow> 'k) \<Rightarrow> 'k set \<Rightarrow> 'a list \<Rightarrow> nat list \<Rightarrow> bool" where
  "stored key ks t ids \<longleftrightarrow> set ids \<subseteq> {..<length t} \<and> (\<lambda>k. key (t ! k)) ` set ids = ks"

lemma stored_grown: "stored key ks t ids \<Longrightarrow> grown key t t' \<Longrightarrow> stored key ks t' ids"
proof -
  assume s: "stored key ks t ids" and g: "grown key t t'"
  have sub: "set ids \<subseteq> {..<length t}" and im: "(\<lambda>k. key (t ! k)) ` set ids = ks" using s by (simp_all add: stored_def)
  have k: "k < length t' \<and> key (t' ! k) = key (t ! k)" if "k \<in> set ids" for k
    using grown_nth [OF g] sub that by blast
  then have "(\<lambda>k. key (t' ! k)) ` set ids = (\<lambda>k. key (t ! k)) ` set ids" by (intro image_cong) simp_all
  with k im show ?thesis unfolding stored_def by auto
qed

lemma rows_where_stored: "ks \<subseteq> key ` set t \<Longrightarrow> stored key ks t (rows_where (\<lambda>x. key x \<in> ks) t)"
proof -
  assume sub: "ks \<subseteq> key ` set t"
  have "x \<in> (\<lambda>k. key (t ! k)) ` set (rows_where (\<lambda>x. key x \<in> ks) t)" if "x \<in> ks" for x
  proof -
    from that sub obtain y where "y \<in> set t" "x = key y" by blast
    then obtain k where "k < length t" "x = key (t ! k)" by (metis in_set_conv_nth)
    with that show ?thesis by (intro image_eqI [of _ _ k]) (simp_all add: rows_where_def)
  qed
  then show ?thesis unfolding stored_def by (auto simp: rows_where_def)
qed

context keyed_table
begin

lemma stored_rows:
  assumes "get_or_create_rows key conflict ws t = (ids, t')"
  shows "stored key (key ` set ws) t' ids \<and> grown (\<lambda>r. r) t t'"
proof -
  have r: "ids = rows_where (\<lambda>r. key r \<in> key ` set ws) t'" "key ` set ws \<subseteq> key ` set t'" "\<exists>new. t' = t @ new"
    using store.ensure_returns [of ws t] store.ensure_present [of ws t] store.ensure_extends [of ws t] by (auto simp: assms)
  show ?thesis unfolding r(1) using rows_where_stored [OF r(2)] r(3) by (auto simp: grown_def)
qed

end

lemma packages_stored:
  assumes "purl_fields_law L" "packages_ok L t" "bulk_get_or_create_from_purls L (map PObj ps) t = Inr (ids, t')"
  shows "packages_ok L t'" "grown package_url t t'" "stored package_url (purl_urls L ps) t' ids"
proof -
  note b = bulk_get_packages [OF assms]
  show "packages_ok L t'" by (rule b(1))
  from b(2) show "grown package_url t t'" by auto
  show "stored package_url (purl_urls L ps) t' ids" unfolding b(4) by (rule rows_where_stored) (simp add: b(3))
qed

lemma merge_commit_key: "merge_commit cs c = Inr c' \<Longrightarrow> commit_key c' = commit_key c"
  by (auto simp: merge_commit_def commit_key_def split: option.splits if_splits)

lemma commits_stored:
  assumes "get_or_create_advisory_package_commit_patches cs t = Inr (ids, t')"
  shows "grown commit_key t t'" "stored commit_key (commit_key ` set cs) t' ids"
proof -
  have "grown commit_key t t' \<and> stored commit_key (commit_key ` set cs) t' ids"
  proof (cases "cs = []")
    case True
    with assms show ?thesis by (simp add: get_or_create_advisory_package_commit_patches_def stored_def)
  next
    case False
    let ?new = "filter (\<lambda>c. commit_key c \<notin> commit_key ` set t) cs"
    from assms False obtain t1 where t1: "map_result (merge_commit cs) t = Inr t1" and t': "t' = t1 @ ?new"
      and ids: "ids = rows_where (\<lambda>c. commit_key c \<in> commit_key ` set cs) t'"
      by (auto simp: get_or_create_advisory_package_commit_patches_def Let_def split: sum.splits if_splits)
    have "list_all2 (\<lambda>c c'. commit_key c' = commit_key c) t t1"
      using t1 unfolding map_result_Inr_iff by (rule list_all2_mono) (rule merge_commit_key)
    then have keys: "map commit_key t1 = map commit_key t" by (induction rule: list_all2_induct) simp_all
    then have ks: "commit_key ` set t1 = commit_key ` set t" by (metis set_map)
    have "commit_key ` set cs \<subseteq> commit_key ` set t'" unfolding t' set_append image_Un ks by auto
    from rows_where_stored [OF this] have "stored commit_key (commit_key ` set cs) t' ids" unfolding ids .
    moreover have "grown commit_key t t'" unfolding grown_def t' by (simp add: keys)
    ultimately show ?thesis by simp
  qed
  then show "grown commit_key t t'" "stored commit_key (commit_key ` set cs) t' ids" by blast+
qed

text \<open>The impact that the data of an affected package stands for.\<close>

definition impact_stored ::
    "('r, 'v, 'd) import_env \<Rightarrow> nat \<Rightarrow> 'd import_db \<Rightarrow> 'r affected_v2 \<Rightarrow> impact_v2 \<Rightarrow> bool" where
  "impact_stored E i db a im \<longleftrightarrow> im_advisory im = i \<and>
     im_base_purl im = lib_to_string (purls (env_ext E)) (ap_package a) \<and>
     im_affecting_vers im = map_option (range_str (env_ext E)) (ap_affected a) \<and>
     im_fixed_vers im = map_option (range_str (env_ext E)) (ap_fixed a) \<and>
     stored package_url (purl_urls (purls (env_ext E)) (fst (get_exact_purls_v2 E a))) (t_packages db) (im_affecting im) \<and>
     stored package_url (purl_urls (purls (env_ext E)) (snd (get_exact_purls_v2 E a))) (t_packages db) (im_fixed_by im) \<and>
     stored commit_key (commit_key ` set (ap_introduced_by a)) (t_commits db) (im_introduced_commits im) \<and>
     stored commit_key (commit_key ` set (ap_fixed_by a)) (t_commits db) (im_fixed_commits im) \<and>
     im_unfurled_at im = None \<and> im_unfurled_ok_at im = None"

definition packages_grown :: "purl_lib \<Rightarrow> 'd import_db \<Rightarrow> 'd import_db \<Rightarrow> bool" where
  "packages_grown L db db' \<longleftrightarrow> packages_ok L (t_packages db') \<and> grown package_url (t_packages db) (t_packages db') \<and>
     grown commit_key (t_commits db) (t_commits db')"

lemma impact_stored_grown:
  "impact_stored E i db a im \<Longrightarrow> packages_grown L db db' \<Longrightarrow> impact_stored E i db' a im"
  unfolding impact_stored_def packages_grown_def by (meson stored_grown)

lemma insert_impact_stored:
  assumes "purl_fields_law (purls (env_ext E))" "packages_ok (purls (env_ext E)) (t_packages db)"
    "insert_impact E i a db = Inr db'"
  shows "packages_grown (purls (env_ext E)) db db' \<and> (\<exists>im. t_impacts db' = t_impacts db @ [im] \<and> impact_stored E i db' a im)"
proof -
  let ?L = "purls (env_ext E)"
  obtain ps qs where e: "get_exact_purls_v2 E a = (ps, qs)" by force
  from assms(3) obtain aff pk1 fx pk2 pk3 intro c1 fixc c2 where
    1: "bulk_get_or_create_from_purls ?L (map PObj ps) (t_packages db) = Inr (aff, pk1)" and
    2: "bulk_get_or_create_from_purls ?L (map PObj qs) pk1 = Inr (fx, pk2)" and
    3: "(case aff @ fx of [] \<Rightarrow> Inr pk2
         | k # _ \<Rightarrow> map_sum id snd (calculate_version_rank (env_vclass E) (pk2 ! k) pk2)) = Inr pk3" and
    4: "get_or_create_advisory_package_commit_patches (ap_introduced_by a) (t_commits db) = Inr (intro, c1)" and
    5: "get_or_create_advisory_package_commit_patches (ap_fixed_by a) c1 = Inr (fixc, c2)" and
    db': "db' = db\<lparr>t_packages := pk3, t_commits := c2, t_impacts := t_impacts db @ [\<lparr>im_advisory = i,
      im_base_purl = lib_to_string ?L (ap_package a), im_affecting_vers = map_option (range_str (env_ext E)) (ap_affected a),
      im_fixed_vers = map_option (range_str (env_ext E)) (ap_fixed a), im_affecting = aff, im_fixed_by = fx,
      im_introduced_commits = intro, im_fixed_commits = fixc, im_unfurled_at = None, im_unfurled_ok_at = None\<rparr>]\<rparr>"
    unfolding insert_impact_def Let_def e prod.case
    by (auto split: sum.splits prod.splits intro: that)
  note p1 = packages_stored [OF assms(1,2) 1] note p2 = packages_stored [OF assms(1) p1(1) 2]
  have p3: "packages_ok ?L pk3 \<and> grown package_url pk2 pk3"
  proof (cases "aff @ fx")
    case Nil
    with 3 p2(1) show ?thesis by simp
  next
    case (Cons k ks)
    with 3 obtain n where n: "calculate_version_rank (env_vclass E) (pk2 ! k) pk2 = Inr (n, pk3)"
      by (auto simp: map_sum_def split: sum.splits)
    have "map package_url pk3 = map package_url (pk2 @ [])" using version_rank_urls(1) [OF n] by simp
    with version_rank_urls(2) [OF n p2(1)] show ?thesis by blast
  qed
  note c1 = commits_stored [OF 4] note c2 = commits_stored [OF 5]
  have "packages_grown ?L db db'"
    unfolding packages_grown_def using p3 p1(2) p2(2) c1(1) c2(1) by (auto simp: db' intro: grown_trans)
  moreover have "stored package_url (purl_urls ?L ps) pk3 aff" "stored package_url (purl_urls ?L qs) pk3 fx"
      "stored commit_key (commit_key ` set (ap_introduced_by a)) c2 intro" "stored commit_key (commit_key ` set (ap_fixed_by a)) c2 fixc"
    using p1(3) p2(2,3) p3 c1(2) c2 by (blast intro: stored_grown)+
  ultimately show ?thesis by (simp add: db' impact_stored_def e)
qed

lemma insert_impacts_stored:
  assumes "purl_fields_law (purls (env_ext E))"
  shows "packages_ok (purls (env_ext E)) (t_packages db) \<Longrightarrow> insert_impacts E i as db = Inr db' \<Longrightarrow>
    packages_grown (purls (env_ext E)) db db' \<and>
    (\<exists>ims. t_impacts db' = t_impacts db @ ims \<and> list_all2 (impact_stored E i db') as ims)"
proof (induction "as" arbitrary: db)
  case Nil
  then show ?case by (simp add: packages_grown_def)
next
  case (Cons a as)
  from Cons.prems obtain db1 where 1: "insert_impact E i a db = Inr db1" "insert_impacts E i as db1 = Inr db'"
    by (auto split: sum.splits)
  note s = insert_impact_stored [OF assms Cons.prems(1) 1(1)]
  then have ok: "packages_ok (purls (env_ext E)) (t_packages db1)" by (simp add: packages_grown_def)
  note ih = Cons.IH [OF ok 1(2)]
  from s ih obtain im ims where im: "t_impacts db1 = t_impacts db @ [im]" "impact_stored E i db1 a im"
    and ims: "t_impacts db' = t_impacts db1 @ ims" "list_all2 (impact_stored E i db') as ims" by blast
  have "impact_stored E i db' a im" using impact_stored_grown [OF im(2)] ih by blast
  with ims im(1) have "t_impacts db' = t_impacts db @ (im # ims) \<and> list_all2 (impact_stored E i db') (a # as) (im # ims)" by simp
  moreover have "packages_grown (purls (env_ext E)) db db'"
    using s ih by (auto simp: packages_grown_def intro: grown_trans)
  ultimately show ?case by blast
qed

text \<open>The severities that are stored, and the patches.\<close>

lemma add_severities_stored:
  "add_severities ss ids t = Inr (ids', t') \<Longrightarrow> set ids \<subseteq> {..<length t} \<Longrightarrow>
   grown (\<lambda>s. s) t t' \<and> set ids' \<subseteq> {..<length t'} \<and>
   (\<lambda>k. sev_row_key (t' ! k)) ` set ids' = (\<lambda>k. sev_row_key (t ! k)) ` set ids \<union> sev_row_key ` set ss"
proof (induction ss arbitrary: ids t)
  case (Cons s ss)
  consider (new) "rows_where (\<lambda>x. sev_row_key x = sev_row_key s) t = []" "add_severities ss (ids @ [length t]) (t @ [s]) = Inr (ids', t')"
    | (old) k where "rows_where (\<lambda>x. sev_row_key x = sev_row_key s) t = [k]" "add_severities ss (ids @ [k]) t = Inr (ids', t')"
    using Cons.prems(1) by (auto split: list.splits)
  then show ?case
  proof cases
    case new
    have "set (ids @ [length t]) \<subseteq> {..<length (t @ [s])}" using Cons.prems(2) by auto
    from Cons.IH [OF new(2) this] have ih: "grown (\<lambda>s. s) (t @ [s]) t'" "set ids' \<subseteq> {..<length t'}"
      "(\<lambda>k. sev_row_key (t' ! k)) ` set ids' = (\<lambda>k. sev_row_key ((t @ [s]) ! k)) ` set (ids @ [length t]) \<union> sev_row_key ` set ss"
      by blast+
    have "(\<lambda>k. sev_row_key ((t @ [s]) ! k)) ` set ids = (\<lambda>k. sev_row_key (t ! k)) ` set ids"
      using Cons.prems(2) by (intro image_cong) (auto simp: nth_append)
    moreover have "grown (\<lambda>s. s) t (t @ [s])" by (simp add: grown_def)
    ultimately show ?thesis using ih by (auto intro: grown_trans)
  next
    case (old k)
    then have "k \<in> set (rows_where (\<lambda>x. sev_row_key x = sev_row_key s) t)" by simp
    then have k: "k < length t" "sev_row_key (t ! k) = sev_row_key s" by (simp_all add: rows_where_def)
    then have "set (ids @ [k]) \<subseteq> {..<length t}" using Cons.prems(2) by auto
    from Cons.IH [OF old(2) this] k(2) show ?thesis by auto
  qed
qed simp

lemma severities_stored:
  assumes "get_or_create_advisory_severities date_str ss t = Inr (ids, t')"
  shows "grown (\<lambda>s. s) t t' \<and> stored sev_row_key
    ((sev_row_key \<circ> sev_row_of date_str) ` {s \<in> set ss. sev_elements s \<noteq> [] \<or> sev_value s \<noteq> []}) t' ids"
proof -
  from assms obtain ids0 where 0: "add_severities (map (sev_row_of date_str)
      (filter (\<lambda>s. sev_elements s \<noteq> [] \<or> sev_value s \<noteq> []) ss)) [] t = Inr (ids0, t')"
    and ids: "ids = filter (\<lambda>i. i \<in> set ids0) [0..<length t']"
    by (auto simp: get_or_create_advisory_severities_def map_sum_def split: sum.splits)
  from add_severities_stored [OF 0] have s: "grown (\<lambda>s. s) t t'" "set ids0 \<subseteq> {..<length t'}"
      "(\<lambda>k. sev_row_key (t' ! k)) ` set ids0 = sev_row_key ` sev_row_of date_str ` {s \<in> set ss. sev_elements s \<noteq> [] \<or> sev_value s \<noteq> []}"
    by auto
  then have "set ids = set ids0" by (auto simp: ids)
  with s show ?thesis by (simp add: stored_def image_comp comp_def)
qed

text \<open>
  A patch whose checksum and URL are those of another row is not stored; otherwise there is a row with its
  text and URL.
\<close>

definition patch_pair :: "patch_data \<Rightarrow> string option \<times> string option" where
  "patch_pair p = (pd_text p, patch_url p)"

lemma patches_stored:
  assumes "get_or_create_advisory_patches ps t = (ids, t')"
  shows "grown (\<lambda>p. p) t t' \<and> stored patch_pair (patch_pair ` set ps \<inter> patch_pair ` set t') t' ids \<and>
    (\<forall>p\<in>set ps. patch_pair p \<in> patch_pair ` set t' \<or> (\<exists>q\<in>set t'. patch_conflict p q))"
proof -
  let ?new = "filter (\<lambda>p. patch_pair p \<notin> patch_pair ` set t) ps"
  have t': "t' = bulk_create patch_conflict ?new t" and ids: "ids = rows_where (\<lambda>p. patch_pair p \<in> patch_pair ` set ps) t'"
    using assms by (auto simp: get_or_create_advisory_patches_def get_or_create_rows_def patch_pair_def Let_def)
  have sub: "set t \<subseteq> set t'" and g: "grown (\<lambda>p. p) t t'"
    using bulk_create_prefix [of patch_conflict ?new t] by (auto simp: t' grown_def)
  have "ids = rows_where (\<lambda>p. patch_pair p \<in> patch_pair ` set ps \<inter> patch_pair ` set t') t'"
    by (auto simp: ids rows_where_def intro!: filter_cong)
  then have "stored patch_pair (patch_pair ` set ps \<inter> patch_pair ` set t') t' ids"
    using rows_where_stored [of "patch_pair ` set ps \<inter> patch_pair ` set t'" patch_pair t'] by simp
  moreover have "patch_pair p \<in> patch_pair ` set t' \<or> (\<exists>q\<in>set t'. patch_conflict p q)" if p: "p \<in> set ps" for p
  proof (cases "patch_pair p \<in> patch_pair ` set t")
    case True
    with sub show ?thesis by blast
  next
    case False
    with p have "p \<in> set ?new" by simp
    from bulk_create_has [OF this, of patch_conflict t] show ?thesis unfolding t' by blast
  qed
  ultimately show ?thesis using g by blast
qed

text \<open>The key columns of an advisory, which no later step changes.\<close>

definition av_key :: "'d advisory_v2 \<Rightarrow> string \<times> string \<times> string \<times> string" where
  "av_key r = (av_advisory_id r, av_datasource r, av_pipeline r, av_content_id r)"

text \<open>Its other columns that are written once.\<close>

definition av_columns :: "'d advisory_v2 \<Rightarrow> string \<times> string \<times> 'd option \<times> string option \<times> int" where
  "av_columns r = (av_url r, av_summary r, av_date_published r, av_original r, av_precedence r)"

lemma relate_advisory_tables:
  assumes "relate_advisory E now i a db = Inr db'" "i < length (t_advisories db)"
  shows "\<exists>row. t_advisories db' = (t_advisories db)[i := row] \<and> av_key row = av_key (t_advisories db ! i) \<and>
     av_avid row = av_avid (t_advisories db ! i) \<and> av_is_latest row = av_is_latest (t_advisories db ! i) \<and>
     (av_aliases row, t_aliases db') = get_or_create_advisory_aliases (ad_aliases a) (t_aliases db) \<and>
     (av_references row, t_references db') = get_or_create_advisory_references (ad_references a) (t_references db) \<and>
     (av_weaknesses row, t_weaknesses db') = get_or_create_advisory_weaknesses (ad_weaknesses a) (t_weaknesses db) \<and>
     (av_patches row, t_patches db') = get_or_create_advisory_patches (ad_patches a) (t_patches db) \<and>
     get_or_create_advisory_severities (env_date_str E) (ad_severities a) (t_severities db) = Inr (av_severities row, t_severities db') \<and>
     av_columns row = av_columns (t_advisories db ! i) \<and>
     av_unfurled_at row = (if ad_affected a = [] then Some now else None) \<and> av_unfurled_ok_at row = av_unfurled_at row \<and>
     t_packages db' = t_packages db \<and> t_commits db' = t_commits db \<and> t_impacts db' = t_impacts db"
  using assms by (auto simp: relate_advisory_def Let_def av_key_def av_columns_def split: prod.splits sum.splits)


lemma clear_latest_simps [simp]:
  "av_avid (clear_latest w r) = av_avid r" "av_content_id (clear_latest w r) = av_content_id r"
  "av_advisory_id (clear_latest w r) = av_advisory_id r" "av_datasource (clear_latest w r) = av_datasource r"
  "av_pipeline (clear_latest w r) = av_pipeline r"
  "av_is_latest (clear_latest w r) \<longleftrightarrow> av_is_latest r \<and> av_avid r \<noteq> w"
  by (auto simp: clear_latest_def)

lemma rows_where_iff: "i \<in> set (rows_where P t) \<longleftrightarrow> i < length t \<and> P (t ! i)"
  by (auto simp: rows_where_def)

lemma insert_advisory_cases:
  assumes "insert_advisory_v2 E now pipeline datasource precedence a db = Inr (i, db')"
  obtains (stored) content_id where
      "compute_content_id_v2 (env_hash E) (env_ext E) (env_commits_str E) a = Inr content_id"
      "advisory_rows datasource pipeline (ad_id a) content_id (t_advisories db) = [i]" "db' = db"
    | (created) content_id row where
      "compute_content_id_v2 (env_hash E) (env_ext E) (env_commits_str E) a = Inr content_id"
      "i = length (t_advisories db)" "\<forall>r\<in>set (t_advisories db). av_content_id r \<noteq> content_id"
      "t_advisories db' = map (clear_latest (avid_of datasource (ad_id a))) (t_advisories db) @ [row]"
      "av_key row = (ad_id a, datasource, pipeline, content_id)" "av_avid row = avid_of datasource (ad_id a)"
      "av_is_latest row"
      "(av_aliases row, t_aliases db') = get_or_create_advisory_aliases (ad_aliases a) (t_aliases db)"
      "(av_references row, t_references db') = get_or_create_advisory_references (ad_references a) (t_references db)"
      "(av_weaknesses row, t_weaknesses db') = get_or_create_advisory_weaknesses (ad_weaknesses a) (t_weaknesses db)"
      "(av_patches row, t_patches db') = get_or_create_advisory_patches (ad_patches a) (t_patches db)"
      "get_or_create_advisory_severities (env_date_str E) (ad_severities a) (t_severities db) =
         Inr (av_severities row, t_severities db')"
      "ad_url a = Some (av_url row)" "ad_summary a = Some (av_summary row)"
      "av_columns row = (av_url row, av_summary row, ad_published a, ad_original a, precedence)"
      "av_unfurled_at row = (if ad_affected a = [] then Some now else None)" "av_unfurled_ok_at row = av_unfurled_at row"
      "\<exists>db1. insert_impacts E i (ad_affected a) db1 = Inr db' \<and> t_packages db1 = t_packages db \<and>
         t_commits db1 = t_commits db \<and> t_impacts db1 = t_impacts db"
proof -
  from assms obtain content_id k c t where
    h: "compute_content_id_v2 (env_hash E) (env_ext E) (env_commits_str E) a = Inr content_id" and
    g: "get_or_create_advisory E datasource pipeline precedence content_id a (t_advisories db) = Inr (k, c, t)"
    by (auto simp: insert_advisory_v2_def split: sum.splits prod.splits)
  let ?old = "t_advisories db"
  show thesis
  proof (cases c)
    case False
    with assms h g have "i = k" "db' = db" by (simp_all add: insert_advisory_v2_def)
    moreover from g False have "advisory_rows datasource pipeline (ad_id a) content_id ?old = [k]"
      by (auto simp: get_or_create_advisory_def split: list.splits if_splits)
    ultimately show thesis using stored h by blast
  next
    case True
    from g True have k: "k = length ?old" and fresh: "\<forall>r\<in>set ?old. av_content_id r \<noteq> content_id"
      by (auto simp: get_or_create_advisory_def advisory_clean_def list_ex_iff split: list.splits if_splits)
    from g True obtain u s where us: "ad_url a = Some u" "ad_summary a = Some s"
      by (auto simp: get_or_create_advisory_def advisory_clean_def split: list.splits if_splits option.splits)
    with g True have "t = ?old @ [last t] \<and> av_key (last t) = (ad_id a, datasource, pipeline, content_id) \<and>
        av_avid (last t) = avid_of datasource (ad_id a) \<and> \<not> av_is_latest (last t) \<and>
        av_columns (last t) = (u, s, ad_published a, ad_original a, precedence)"
      by (auto simp: get_or_create_advisory_def av_key_def av_columns_def split: list.splits if_splits)
    then obtain new where new: "t = ?old @ [new]" "av_key new = (ad_id a, datasource, pipeline, content_id)"
      "av_avid new = avid_of datasource (ad_id a)" "\<not> av_is_latest new"
      "av_columns new = (u, s, ad_published a, ad_original a, precedence)" by blast
    let ?t = "mark_latest k t"
    have t: "?t = map (clear_latest (avid_of datasource (ad_id a))) ?old @ [new\<lparr>av_is_latest := True\<rparr>]"
      using new(3,4) by (simp add: mark_latest_def k new(1) Let_def nth_append list_update_append clear_latest_def)
    from assms h g True obtain db1 where r: "relate_advisory E now k a (db\<lparr>t_advisories := ?t\<rparr>) = Inr db1"
      and im: "insert_impacts E k (ad_affected a) db1 = Inr db'" and ik: "i = k"
      by (cases "relate_advisory E now k a (db\<lparr>t_advisories := ?t\<rparr>)")
         (auto simp: insert_advisory_v2_def map_sum_def split: sum.splits)
    have "length ?t = Suc k" unfolding t by (simp add: k)
    then have "k < length (t_advisories (db\<lparr>t_advisories := ?t\<rparr>))" by simp
    from relate_advisory_tables [OF r this] obtain row where
      row: "t_advisories db1 = ?t[k := row]" "av_key row = av_key (?t ! k)" "av_avid row = av_avid (?t ! k)"
        "av_is_latest row = av_is_latest (?t ! k)"
        "(av_aliases row, t_aliases db1) = get_or_create_advisory_aliases (ad_aliases a) (t_aliases db)"
        "(av_references row, t_references db1) = get_or_create_advisory_references (ad_references a) (t_references db)"
        "(av_weaknesses row, t_weaknesses db1) = get_or_create_advisory_weaknesses (ad_weaknesses a) (t_weaknesses db)"
        "(av_patches row, t_patches db1) = get_or_create_advisory_patches (ad_patches a) (t_patches db)"
        "get_or_create_advisory_severities (env_date_str E) (ad_severities a) (t_severities db) =
           Inr (av_severities row, t_severities db1)"
        "av_columns row = av_columns (?t ! k)"
        "av_unfurled_at row = (if ad_affected a = [] then Some now else None)" "av_unfurled_ok_at row = av_unfurled_at row"
        "t_packages db1 = t_packages db" "t_commits db1 = t_commits db" "t_impacts db1 = t_impacts db"
      by auto
    have tk: "?t ! k = new\<lparr>av_is_latest := True\<rparr>" unfolding t by (simp add: k nth_append)
    have col: "ad_url a = Some (av_url row)" "ad_summary a = Some (av_summary row)"
      "av_columns row = (av_url row, av_summary row, ad_published a, ad_original a, precedence)"
      using row(10) new(5) us unfolding tk by (simp_all add: av_columns_def)
    have "t_advisories db1 = map (clear_latest (avid_of datasource (ad_id a))) ?old @ [row]"
      unfolding row(1) unfolding t by (simp add: k list_update_append)
    moreover have "av_key row = (ad_id a, datasource, pipeline, content_id)" "av_avid row = avid_of datasource (ad_id a)"
      "av_is_latest row" using row(2,3,4) new tk by (simp_all add: av_key_def)
    moreover have "\<exists>db1. insert_impacts E k (ad_affected a) db1 = Inr db' \<and> t_packages db1 = t_packages db \<and>
         t_commits db1 = t_commits db \<and> t_impacts db1 = t_impacts db" using im row(13-15) by blast
    moreover note insert_impacts_tables [OF im] row(5-9,11) col
    ultimately show thesis
      by - (rule created [of content_id row, OF h _ _ _ _ _ _ _ _ _ _ _ _ _ _ _ row(12)], simp_all add: ik k fresh)
  qed
qed

text \<open>Every identifier of an advisory has exactly one latest row.\<close>

definition one_latest :: "'d advisory_v2 list \<Rightarrow> bool" where
  "one_latest t \<longleftrightarrow> (\<forall>r\<in>set t. length (filter (\<lambda>x. av_avid x = av_avid r \<and> av_is_latest x) t) = 1)"

lemma filter_unlatest:
  "filter (\<lambda>x. av_avid x = v \<and> av_is_latest x) (map (clear_latest w) t) =
   (if v = w then [] else map (clear_latest w) (filter (\<lambda>x. av_avid x = v \<and> av_is_latest x) t))"
  by (induction t) auto

lemma one_latest_insert:
  assumes "one_latest t" "av_avid row = w" "av_is_latest row"
  shows "one_latest (map (clear_latest w) t @ [row])"
proof -
  let ?u = "map (clear_latest w) t"
  have "length (filter (\<lambda>x. av_avid x = av_avid r \<and> av_is_latest x) (?u @ [row])) = 1" if "r \<in> set (?u @ [row])" for r
  proof (cases "av_avid r = w")
    case True
    then show ?thesis using assms(2,3) filter_unlatest [of w w t] by simp
  next
    case False
    with that assms(2) obtain r0 where "r0 \<in> set t" "av_avid r0 = av_avid r" by (auto split: if_splits)
    with assms(1) have "length (filter (\<lambda>x. av_avid x = av_avid r \<and> av_is_latest x) t) = 1"
      by (auto simp: one_latest_def)
    then show ?thesis using False assms(2) filter_unlatest [of "av_avid r" w t] by simp
  qed
  then show ?thesis by (simp add: one_latest_def)
qed

text \<open>Insertions in any order, whether they succeed or are rolled back.\<close>

inductive import_step :: "('r, 'v::linorder, 'd::linorder) import_env \<Rightarrow> 'd import_db \<Rightarrow> 'd import_db \<Rightarrow> bool" for E where
  step_inserted: "insert_advisory_v2 E now pipeline datasource precedence a db = Inr (i, db') \<Longrightarrow> import_step E db db'"
| step_failed: "insert_advisory_v2 E now pipeline datasource precedence a db = Inl e \<Longrightarrow> import_step E db db"

text \<open>
  C1: in every state that a series of imports can reach, each advisory identifier has exactly one latest
  row, and content identifiers stay different.
\<close>

theorem one_latest_reachable:
  assumes "(import_step E)\<^sup>*\<^sup>* db db'" "one_latest (t_advisories db)" "distinct (map av_content_id (t_advisories db))"
  shows "one_latest (t_advisories db') \<and> distinct (map av_content_id (t_advisories db'))"
  using assms
proof (induction rule: rtranclp_induct)
  case (step y z)
  then have y: "one_latest (t_advisories y)" "distinct (map av_content_id (t_advisories y))" by auto
  from step.hyps(2) show ?case
  proof cases
    case (step_inserted now pipeline datasource precedence a i)
    from step_inserted show ?thesis
    proof (cases rule: insert_advisory_cases)
      case (stored content_id)
      with y show ?thesis by simp
    next
      case (created content_id row)
      have "map av_content_id (map (clear_latest (avid_of datasource (ad_id a))) (t_advisories y)) = map av_content_id (t_advisories y)"
        by simp
      then have "distinct (map av_content_id (t_advisories z))"
        using y(2) created(3,5) unfolding created(4) map_append by (auto simp: av_key_def simp del: map_map)
      with one_latest_insert [OF y(1) created(6,7)] created(4) show ?thesis by simp
    qed
  next
    case (step_failed now pipeline datasource precedence a e)
    with y show ?thesis by simp
  qed
qed simp

text \<open>
  C35: importing the same advisory again is a no-op: the second insertion returns the row of the first and
  changes nothing, at whatever time it runs.
\<close>

theorem insert_advisory_idempotent:
  assumes "insert_advisory_v2 E now pipeline datasource precedence a db = Inr (i, db')"
  shows "insert_advisory_v2 E now' pipeline datasource precedence' a db' = Inr (i, db')"
  using assms
proof (cases rule: insert_advisory_cases)
  case (stored content_id)
  then show ?thesis by (simp add: insert_advisory_v2_def get_or_create_advisory_def)
next
  case (created content_id row)
  let ?P = "\<lambda>r. av_advisory_id r = ad_id a \<and> av_datasource r = datasource \<and> av_pipeline r = pipeline \<and>
      av_content_id r = content_id"
  have row: "?P row" using created(5) by (simp add: av_key_def)
  have old: "\<not> ?P (t_advisories db' ! k)" if "k < i" for k
    using that created(2,3) by (auto simp: created(4) nth_append)
  have len: "length (t_advisories db') = Suc i" "t_advisories db' ! i = row"
    by (simp_all add: created(2,4) nth_append)
  have "filter (\<lambda>k. ?P (t_advisories db' ! k)) [0..<i] = []" using old by (simp add: filter_empty_conv)
  then have "rows_where ?P (t_advisories db') = [i]" using row len by (simp add: rows_where_def)
  with created(1) show ?thesis
    by (simp add: insert_advisory_v2_def get_or_create_advisory_def advisory_rows_def)
qed

text \<open>
  C19: a new advisory is stored with exactly what its data names. Its row has the columns of the data and is the
  only latest one of its identifier among the rows, which keep their order. It is related to rows with
  exactly the given aliases, reference URLs and weaknesses, the severities that have elements or a value, and the
  patches (one is left out only when another row has its checksum and URL). There is one impact per affected
  package, in order, on this advisory, with its package URL, its affected and its fixed range, the packages
  of the exact affected and fixed versions, and the commits that introduce and fix it. Earlier rows keep
  their place in every table, and only an advisory without affected packages counts as unfurled. (It needs
  the law of \<open>to_dict\<close> of package URLs, and packages whose URL is that of their fields.)
\<close>

theorem insert_advisory_relations:
  assumes "insert_advisory_v2 E now pipeline datasource precedence a db = Inr (i, db')" "i = length (t_advisories db)"
    "purl_fields_law (purls (env_ext E))" "packages_ok (purls (env_ext E)) (t_packages db)"
  shows "\<exists>row ims. t_advisories db' = map (clear_latest (avid_of datasource (ad_id a))) (t_advisories db) @ [row] \<and>
     compute_content_id_v2 (env_hash E) (env_ext E) (env_commits_str E) a = Inr (av_content_id row) \<and>
     av_avid row = avid_of datasource (ad_id a) \<and> av_is_latest row \<and>
     av_key row = (ad_id a, datasource, pipeline, av_content_id row) \<and>
     ad_url a = Some (av_url row) \<and> ad_summary a = Some (av_summary row) \<and> av_date_published row = ad_published a \<and>
     av_original row = ad_original a \<and> av_precedence row = precedence \<and>
     av_unfurled_at row = (if ad_affected a = [] then Some now else None) \<and> av_unfurled_ok_at row = av_unfurled_at row \<and>
     stored (\<lambda>s. s) (set (ad_aliases a)) (t_aliases db') (av_aliases row) \<and>
     stored ref_url (ref_url ` set (ad_references a)) (t_references db') (av_references row) \<and>
     stored (\<lambda>w. w) (set (ad_weaknesses a)) (t_weaknesses db') (av_weaknesses row) \<and>
     stored sev_row_key ((sev_row_key \<circ> sev_row_of (env_date_str E)) ` {s \<in> set (ad_severities a). sev_elements s \<noteq> [] \<or> sev_value s \<noteq> []})
       (t_severities db') (av_severities row) \<and>
     stored patch_pair (patch_pair ` set (ad_patches a) \<inter> patch_pair ` set (t_patches db')) (t_patches db') (av_patches row) \<and>
     (\<forall>p\<in>set (ad_patches a). patch_pair p \<in> patch_pair ` set (t_patches db') \<or> (\<exists>q\<in>set (t_patches db'). patch_conflict p q)) \<and>
     t_impacts db' = t_impacts db @ ims \<and> list_all2 (impact_stored E i db') (ad_affected a) ims \<and>
     grown (\<lambda>s. s) (t_aliases db) (t_aliases db') \<and> grown (\<lambda>r. r) (t_references db) (t_references db') \<and>
     grown (\<lambda>w. w) (t_weaknesses db) (t_weaknesses db') \<and> grown (\<lambda>s. s) (t_severities db) (t_severities db') \<and>
     grown (\<lambda>p. p) (t_patches db) (t_patches db') \<and> packages_grown (purls (env_ext E)) db db'"
  using assms(1)
proof (cases rule: insert_advisory_cases)
  case (stored content_id)
  then have "i \<in> set (advisory_rows datasource pipeline (ad_id a) content_id (t_advisories db))" by simp
  with assms(2) show ?thesis by (simp add: advisory_rows_def rows_where_iff)
next
  case (created content_id row)
  have als: "stored (\<lambda>s. s) (set (ad_aliases a)) (t_aliases db') (av_aliases row) \<and> grown (\<lambda>s. s) (t_aliases db) (t_aliases db')"
    using alias_table.stored_rows [OF created(8) [symmetric]] by simp
  have refs: "stored ref_url (ref_url ` set (ad_references a)) (t_references db') (av_references row) \<and>
      grown (\<lambda>r. r) (t_references db) (t_references db')"
    using reference_table.stored_rows [OF created(9) [symmetric]] by simp
  have weaks: "stored (\<lambda>w. w) (set (ad_weaknesses a)) (t_weaknesses db') (av_weaknesses row) \<and>
      grown (\<lambda>w. w) (t_weaknesses db) (t_weaknesses db')"
    using weakness_table.stored_rows [OF created(10) [symmetric]] by simp
  note pats = patches_stored [OF created(11) [symmetric]] note sevs = severities_stored [OF created(12)]
  from created(18) obtain db1 where db1: "insert_impacts E i (ad_affected a) db1 = Inr db'" "t_packages db1 = t_packages db"
    "t_commits db1 = t_commits db" "t_impacts db1 = t_impacts db" by blast
  have "packages_ok (purls (env_ext E)) (t_packages db1)" using assms(4) db1(2) by simp
  from insert_impacts_stored [OF assms(3) this db1(1)] obtain ims where
    ims: "t_impacts db' = t_impacts db @ ims" "list_all2 (impact_stored E i db') (ad_affected a) ims"
      "packages_grown (purls (env_ext E)) db db'"
    unfolding packages_grown_def db1(2-4) by blast
  have key: "av_content_id row = content_id" using created(5) by (simp add: av_key_def)
  have cols: "av_date_published row = ad_published a" "av_original row = ad_original a" "av_precedence row = precedence"
    using created(15) by (simp_all add: av_columns_def)
  show ?thesis
    by (rule exI [of _ row], rule exI [of _ ims])
      (intro conjI; (rule ims sevs [THEN conjunct2] |
         simp add: key cols created(1,4,5,6,7,13,14,16,17) als refs weaks pats sevs ims))
qed

text \<open>
  Witness: package URLs printed as \<open>type/name@version\<close>, versions and ranges as numbers, a range holding
  its own number only.
\<close>

definition demo_url_lib :: purl_lib where
  "demo_url_lib = demo_purl_lib\<lparr>
     lib_to_string := (\<lambda>p. ptype p @ ''/'' @ pname p @ ''@'' @ (case pversion p of None \<Rightarrow> [] | Some v \<Rightarrow> v)),
     lib_from_string := (\<lambda>s. case partition_on ''/'' s of (t, _, r) \<Rightarrow> case partition_on ''@'' r of (n, _, v) \<Rightarrow>
        Inr \<lparr>ptype = t, pnamespace = None, pname = n, pversion = Some v, pqualifiers = [], psubpath = None\<rparr>),
     lib_fields := (\<lambda>p. [(''type'', ptype p), (''name'', pname p), (''version'', case pversion p of None \<Rightarrow> [] | Some v \<Rightarrow> v)])\<rparr>"

definition demo_env :: "(nat, nat, nat) import_env" where
  "demo_env = \<lparr>env_ext = demo_ext\<lparr>purls := demo_url_lib\<rparr>,
     env_hash = (\<lambda>j. case jget j ''summary'' of Some (JStr s) \<Rightarrow> s | _ \<Rightarrow> []),
     env_commits_str = (\<lambda>_. []), env_round1 = demo_round, env_float = demo_float, env_date_str = (\<lambda>_. ''d''),
     env_vclass = demo_vclass, env_constraints = (\<lambda>r. [(''='', r)]), env_contains = (\<lambda>v r. Inr (v = r)),
     env_valid_url = (\<lambda>u. u \<noteq> [])\<rparr>"

definition demo_six_lib :: purl_lib where
  "demo_six_lib = demo_url_lib\<lparr>
     lib_fields := (\<lambda>p. [(''type'', ptype p), (''namespace'', []), (''name'', pname p),
       (''version'', case pversion p of None \<Rightarrow> [] | Some v \<Rightarrow> v), (''qualifiers'', []), (''subpath'', [])]),
     lib_of_fields := (\<lambda>d. Inr \<lparr>ptype = dict_get d ''type'' [], pnamespace = None, pname = dict_get d ''name'' [],
       pversion = Some (dict_get d ''version'' []), pqualifiers = [], psubpath = None\<rparr>)\<rparr>"

definition demo_six_env :: "(nat, nat, nat) import_env" where
  "demo_six_env = demo_env\<lparr>env_ext := demo_ext\<lparr>purls := demo_six_lib\<rparr>\<rparr>"

definition empty_db :: "nat import_db" where
  "empty_db = \<lparr>t_aliases = [''X''], t_references = [], t_severities = [], t_weaknesses = [], t_patches = [],
     t_commits = [], t_packages = [], t_advisories = [], t_impacts = []\<rparr>"

definition demo_data :: "string \<Rightarrow> (nat, nat) adv_data" where
  "demo_data s = demo_advisory\<lparr>ad_url := Some ''u'', ad_summary := Some s, ad_severities := []\<rparr>"

definition demo_insert :: "string \<Rightarrow> nat import_db \<Rightarrow> nat import_db" where
  "demo_insert s db = snd (projr (insert_advisory_v2 demo_env 7 ''p'' ''d'' 0 (demo_data s) db))"

lemma demo_insert_ok: "insert_advisory_v2 demo_env 7 ''p'' ''d'' 0 (demo_data ''A'') empty_db = Inr (0, demo_insert ''A'' empty_db)"
  by code_simp

lemma one_latest_reachable_witness:
  "one_latest (t_advisories (demo_insert ''A'' empty_db)) \<and> map av_content_id (t_advisories (demo_insert ''A'' empty_db)) = [''a'']"
proof -
  have "import_step demo_env empty_db (demo_insert ''A'' empty_db)" by (rule step_inserted [OF demo_insert_ok])
  from one_latest_reachable [OF r_into_rtranclp [of "import_step demo_env", OF this]]
  have "one_latest (t_advisories (demo_insert ''A'' empty_db))"
    by (simp add: empty_db_def one_latest_def)
  moreover have "map av_content_id (t_advisories (demo_insert ''A'' empty_db)) = [''a'']" by code_simp
  ultimately show ?thesis by blast
qed

lemma insert_advisory_idempotent_witness:
  "insert_advisory_v2 demo_env 9 ''p'' ''d'' 5 (demo_data ''A'') (demo_insert ''A'' empty_db) = Inr (0, demo_insert ''A'' empty_db)"
  by (rule insert_advisory_idempotent [OF demo_insert_ok])

lemma insert_advisory_relations_witness:
  "let db = snd (projr (insert_advisory_v2 demo_six_env 7 ''p'' ''d'' 0 (demo_data ''A'') empty_db)) in
     stored (\<lambda>s. s) {''CVE-1''} (t_aliases db) (av_aliases (t_advisories db ! 0)) \<and>
     list_all2 (impact_stored demo_six_env 0 db) (ad_affected (demo_data ''A'')) (t_impacts db)"
proof -
  let ?r = "insert_advisory_v2 demo_six_env 7 ''p'' ''d'' 0 (demo_data ''A'') empty_db"
  have run: "?r = Inr (0, snd (projr ?r))" by code_simp
  have i: "(0 :: nat) = length (t_advisories empty_db)" by (simp add: empty_db_def)
  have l: "purl_fields_law (purls (env_ext demo_six_env))" "packages_ok (purls (env_ext demo_six_env)) (t_packages empty_db)"
    by (simp_all add: purl_fields_law_def demo_six_env_def demo_six_lib_def unique_package_fields_def packages_ok_def empty_db_def)
  have e: "t_impacts empty_db = []" "t_advisories empty_db = []" "ad_aliases (demo_data ''A'') = [''CVE-1'']"
    by (simp_all add: empty_db_def demo_data_def demo_advisory_def)
  show ?thesis
    using insert_advisory_relations [OF run i l] unfolding Let_def e by auto
qed

text \<open>
  An advisory that goes back to an earlier content finds the row of that content and returns it; the row
  of the content in between stays the latest one.
\<close>

lemma reverted_advisory_not_latest:
  "map (\<lambda>r. (av_content_id r, av_is_latest r))
     (t_advisories (demo_insert ''A'' (demo_insert ''B'' (demo_insert ''A'' empty_db)))) =
   [(''a'', False), (''b'', True)]"
  by code_simp

text \<open>The same content from another pipeline cannot be stored: content identifiers are unique over all rows.\<close>

lemma same_content_other_pipeline:
  "insert_advisory_v2 demo_env 7 ''q'' ''d'' 0 (demo_data ''A'') (demo_insert ''A'' empty_db) = Inl ValidationError"
  by code_simp

section \<open>Classifying patches\<close>

datatype patch_obj = CommitObj commit_patch | PatchObj patch_data | RefObj reference

definition VCS_URLS_SUPPORTED_TYPES :: "string list" where
  "VCS_URLS_SUPPORTED_TYPES = [''github'', ''bitbucket'', ''gitlab'']"

text \<open>The library that maps URLs to package URLs and back.\<close>

record url_lib =
  url2purl :: "string \<Rightarrow> purl option"
  purl2url :: "string \<Rightarrow> string option"

definition patch_of :: "('r, 'v, 'd) ext \<Rightarrow> string option \<Rightarrow> string option \<Rightarrow> patch_obj result" where
  "patch_of X url ptext = map_sum id PatchObj (patch_init X \<lparr>patch_url = url, pd_text = ptext, pd_checksum = None\<rparr>)"

definition commit_reference :: "string \<Rightarrow> string \<Rightarrow> patch_obj result" where
  "commit_reference commit url =
     map_sum id RefObj (reference_init \<lparr>ref_id = commit, ref_type = ''commit'', ref_url = url\<rparr>)"

definition classify_patch_source ::
    "('r, 'v, 'd) ext \<Rightarrow> url_lib \<Rightarrow> string option \<Rightarrow> string option \<Rightarrow> string option \<Rightarrow>
       (purl option \<times> patch_obj list) option result" where
  "classify_patch_source X U url commit ptext =
     (if \<not> truthy_opt url
      then if \<not> truthy_opt ptext then Inr None
           else map_sum id (\<lambda>p. Some (None, [p])) (patch_of X None ptext)
      else (let purl = url2purl U (the url) in
        if purl = None \<or> ptype (the purl) \<notin> set VCS_URLS_SUPPORTED_TYPES
        then if truthy_opt commit
             then if \<not> truthy_opt ptext
                  then map_sum id (\<lambda>r. Some (None, [r])) (commit_reference (the commit) (the url))
                  else (case commit_reference (the commit) (the url) of
                      Inl e \<Rightarrow> Inl e
                    | Inr r \<Rightarrow> map_sum id (\<lambda>p. Some (None, [r, p])) (patch_of X url ptext))
             else map_sum id (\<lambda>p. Some (None, [p])) (patch_of X url ptext)
        else if \<not> truthy_opt commit \<and> \<not> truthy_opt (pversion (the purl))
        then map_sum id (\<lambda>p. Some (None, [p])) (patch_of X url ptext)
        else (case get_core_purl (purls X) (PObj (the purl)) of
            Inl e \<Rightarrow> Inl e
          | Inr base \<Rightarrow>
              map_sum id (\<lambda>c. Some (Some base, [CommitObj c]))
                (commit_init X \<lparr>vcs_url = purl2url U (lib_to_string (purls X) base),
                   commit_hash = (if truthy_opt (pversion (the purl)) then pversion (the purl) else commit),
                   cp_text = ptext, cp_checksum = None\<rparr>))))"

text \<open>A base package without an object cannot happen: only commits have one.\<close>

fun append_patch_objs ::
    "purl option \<Rightarrow> patch_obj list \<Rightarrow> 'r affected_v2 list \<times> patch_data list \<times> reference list \<Rightarrow>
       ('r affected_v2 list \<times> patch_data list \<times> reference list) result" where
  "append_patch_objs base [] acc = Inr acc"
| "append_patch_objs base (CommitObj c # objs) (aff, pats, refs) =
     (case base of
        None \<Rightarrow> Inl TypeError
      | Some b \<Rightarrow> (case affected_init \<lparr>ap_package = b, ap_affected = None, ap_fixed = None,
                            ap_introduced_by = [], ap_fixed_by = [c]\<rparr> of
          Inl e \<Rightarrow> Inl e
        | Inr a \<Rightarrow> append_patch_objs base objs (aff @ [a], pats, refs)))"
| "append_patch_objs base (PatchObj p # objs) (aff, pats, refs) = append_patch_objs base objs (aff, pats @ [p], refs)"
| "append_patch_objs base (RefObj r # objs) (aff, pats, refs) = append_patch_objs base objs (aff, pats, refs @ [r])"

definition append_patch_classifications ::
    "('r, 'v, 'd) ext \<Rightarrow> url_lib \<Rightarrow> string option \<Rightarrow> string option \<Rightarrow> string option \<Rightarrow>
       'r affected_v2 list \<times> patch_data list \<times> reference list \<Rightarrow>
       ('r affected_v2 list \<times> patch_data list \<times> reference list) result" where
  "append_patch_classifications X U url commit ptext acc =
     (case classify_patch_source X U url commit ptext of
        Inl e \<Rightarrow> Inl e
      | Inr None \<Rightarrow> Inl TypeError
      | Inr (Some (base, objs)) \<Rightarrow> append_patch_objs base objs acc)"

text \<open>The source is a commit of a supported forge, with the hash it is recorded under.\<close>

definition forge_commit :: "url_lib \<Rightarrow> string option \<Rightarrow> string option \<Rightarrow> (purl \<times> string) option" where
  "forge_commit U url commit =
     (if \<not> truthy_opt url then None
      else (case url2purl U (the url) of
          None \<Rightarrow> None
        | Some p \<Rightarrow>
            if ptype p \<notin> set VCS_URLS_SUPPORTED_TYPES then None
            else if truthy_opt (pversion p) then Some (p, the (pversion p))
            else if truthy_opt commit then Some (p, the commit) else None))"

text \<open>
  appending a patch source fails exactly without a URL and a text (\<open>classify_patch_source\<close> then
  returns nothing to unpack), and for a commit of a supported forge whose hash is not a commit hash or
  whose repository has no URL; otherwise it adds one entry, to the affected packages for a commit of a
  forge, else to the patches or references, or one to each.
\<close>

theorem append_patch_outcome:
  assumes "\<And>p :: purl. pversion (lib_purl (purls X) (ptype p) (pnamespace p) (pname p) None [] None) = None"
  shows "case append_patch_classifications X U url commit ptext (aff, pats, refs) of
      Inl e \<Rightarrow>
        e = TypeError \<and> \<not> truthy_opt url \<and> \<not> truthy_opt ptext \<or>
        e = ValueError \<and> (\<exists>p h. forge_commit U url commit = Some (p, h) \<and>
          (\<not> is_commit h \<or>
           \<not> truthy_opt (purl2url U (lib_to_string (purls X) (lib_purl (purls X) (ptype p) (pnamespace p) (pname p) None [] None)))))
    | Inr (aff', pats', refs') \<Rightarrow>
        (if forge_commit U url commit \<noteq> None
         then length aff' = Suc (length aff) \<and> take (length aff) aff' = aff \<and> pats' = pats \<and> refs' = refs \<and>
              map commit_hash (ap_fixed_by (last aff')) = [Some (snd (the (forge_commit U url commit)))]
         else aff' = aff \<and> take (length pats) pats' = pats \<and> take (length refs) refs' = refs \<and>
              length pats' + length refs' \<in> {Suc (length pats + length refs), Suc (Suc (length pats + length refs))})"
proof (cases "forge_commit U url commit")
  case None
  show ?thesis
  proof (cases "truthy_opt url")
    case False
    then show ?thesis
      by (auto simp: None append_patch_classifications_def classify_patch_source_def patch_of_def patch_init_def)
  next
    case True
    then have u: "the url \<noteq> []" by (auto simp: truthy_opt_def)
    from None True have src: "url2purl U (the url) = None \<or> ptype (the (url2purl U (the url))) \<notin> set VCS_URLS_SUPPORTED_TYPES \<or>
        \<not> truthy_opt commit \<and> \<not> truthy_opt (pversion (the (url2purl U (the url))))"
      by (auto simp: forge_commit_def split: option.splits if_splits)
    show ?thesis
      using src True u
      by (auto simp: None append_patch_classifications_def classify_patch_source_def patch_of_def patch_init_def
          commit_reference_def reference_init_def Let_def)
  qed
next
  case (Some ph)
  obtain p h where ph: "ph = (p, h)" by fastforce
  from Some ph have c: "truthy_opt url" "url2purl U (the url) = Some p" "ptype p \<in> set VCS_URLS_SUPPORTED_TYPES"
    "truthy_opt commit \<or> truthy_opt (pversion p)" "h \<noteq> []"
    "Some h = (if truthy_opt (pversion p) then pversion p else commit)"
    by (auto simp: forge_commit_def truthy_opt_def split: option.splits if_splits)
  show ?thesis
    using c assms [of p]
    by (auto simp: Some ph append_patch_classifications_def classify_patch_source_def Let_def get_core_purl_def
        commit_init_def truthy_opt_def affected_init_def split: if_splits)
qed


definition demo_urls :: url_lib where
  "demo_urls = \<lparr>url2purl = (\<lambda>u. if starts_with ''https://github.com/'' u
       then Some \<lparr>ptype = ''github'', pnamespace = Some ''o'', pname = ''r'', pversion = None, pqualifiers = [], psubpath = None\<rparr>
       else None),
     purl2url = (\<lambda>p. Some ''https://github.com/o/r'')\<rparr>"

lemma append_patch_outcome_witness:
  "\<exists>aff. append_patch_classifications demo_ext demo_urls (Some ''https://github.com/o/r'') (Some ''abcdef1'') None ([], [], []) =
      Inr (aff, [], []) \<and> map commit_hash (ap_fixed_by (last aff)) = [Some ''abcdef1'']"
proof -
  have p: "pversion (lib_purl (purls demo_ext) (ptype q) (pnamespace q) (pname q) None [] None) = None" for q :: purl
    by (simp add: demo_ext_def demo_purl_lib_def)
  have f: "forge_commit demo_urls (Some ''https://github.com/o/r'') (Some ''abcdef1'') =
      Some (\<lparr>ptype = ''github'', pnamespace = Some ''o'', pname = ''r'', pversion = None, pqualifiers = [], psubpath = None\<rparr>, ''abcdef1'')"
    by code_simp
  have i: "is_commit ''abcdef1''" by code_simp
  have u: "purl2url demo_urls q = Some ''https://github.com/o/r''" for q by (simp add: demo_urls_def)
  show ?thesis
    using append_patch_outcome [OF p, where U = demo_urls and url = "Some ''https://github.com/o/r''"
      and commit = "Some ''abcdef1''" and ptext = None and aff = "[]" and pats = "[]" and refs = "[]"]
    by (auto simp: f i u truthy_opt_def split: sum.splits prod.splits)
qed

section \<open>Checksums of advisories\<close>

definition advisories_checksum :: "(string \<Rightarrow> string) \<Rightarrow> string list \<Rightarrow> string" where
  "advisories_checksum sha1 content_ids = sha1 (concat (sort content_ids))"

lemma concat_same_length:
  "list_all (\<lambda>x. length x = n) xs \<Longrightarrow> list_all (\<lambda>x. length x = n) ys \<Longrightarrow> 0 < n \<Longrightarrow> concat xs = concat ys \<Longrightarrow> xs = ys"
proof (induction xs arbitrary: ys)
  case Nil
  then show ?case by (cases ys) auto
next
  case (Cons x xs)
  show ?case
  proof (cases ys)
    case Nil
    with Cons.prems show ?thesis by auto
  next
    case (Cons y ys')
    with Cons.prems have "length x = length y" "x @ concat xs = y @ concat ys'" by simp_all
    then have "x = y" "concat xs = concat ys'" by simp_all
    with Cons.IH [of ys'] Cons.prems Cons show ?thesis by simp
  qed
qed

text \<open>
  the checksum of a set of advisories does not depend on their order and tells different sets of
  content identifiers apart: the identifiers are 64 characters long, so their concatenation can be cut
  again. (It needs a digest without collisions.)
\<close>

theorem advisories_checksum_exact:
  assumes "inj_on sha1 {concat (sort xs), concat (sort ys)}" "list_all (\<lambda>c. length c = 64) xs" "list_all (\<lambda>c. length c = 64) ys"
  shows "advisories_checksum sha1 xs = advisories_checksum sha1 ys \<longleftrightarrow> mset xs = mset ys"
proof
  assume "advisories_checksum sha1 xs = advisories_checksum sha1 ys"
  then have "concat (sort xs) = concat (sort ys)" using assms(1) by (auto simp: advisories_checksum_def dest: inj_onD)
  moreover have "list_all (\<lambda>c. length c = 64) (sort xs)" "list_all (\<lambda>c. length c = 64) (sort ys)"
    using assms(2,3) by (simp_all add: list_all_iff)
  ultimately have "sort xs = sort ys" using concat_same_length [of 64] by simp
  then show "mset xs = mset ys" by (metis mset_sort)
next
  assume "mset xs = mset ys"
  then have "sort xs = sort ys" by (intro properties_for_sort) simp_all
  then show "advisories_checksum sha1 xs = advisories_checksum sha1 ys" by (simp add: advisories_checksum_def)
qed

lemma advisories_checksum_exact_witness:
  "advisories_checksum (\<lambda>s. s) [replicate 64 (CHR ''a''), replicate 64 (CHR ''b'')] =
   advisories_checksum (\<lambda>s. s) [replicate 64 (CHR ''b''), replicate 64 (CHR ''a'')]"
  using advisories_checksum_exact [of "\<lambda>s. s" "[replicate 64 (CHR ''a''), replicate 64 (CHR ''b'')]"
      "[replicate 64 (CHR ''b''), replicate 64 (CHR ''a'')]"] by (simp add: add_mset_commute)

end
