(* ===== verification/Osv.thy ===== *)
theory Osv
  imports AdvisoryImport
begin

text \<open>
  Reading an advisory in the OSV format: \<open>vulnerabilities/pipes/osv_v2.py\<close>. What it calls of other
  packages (CVSS, dates, \<open>univers\<close>) is the record \<open>osv_env\<close>; the \<open>ValueError\<close> of a version parser
  stands for its \<open>InvalidVersion\<close>. An exception that no handler of the module catches is the result \<open>Inl\<close>;
  a member whose JSON type is not the one of the OSV schema is such an error here.
\<close>

section \<open>Parameters and tables\<close>

type_synonym 'v constraint = "string \<times> 'v"

text \<open>
  \<open>os_compute\<close> is \<open>compute\<close> of a CVSS system, \<open>None\<close> for a malformed vector; \<open>os_simplify\<close> simplifies,
  validates and builds a range, \<open>os_range\<close> only builds it; \<open>os_github\<close> is the version of the first
  constraint of \<open>build_range_from_github_advisory_constraint\<close>.
\<close>

record ('r, 'v, 'd) osv_env =
  os_ext :: "('r, 'v, 'd) ext"
  os_urls :: url_lib
  os_date :: "string \<Rightarrow> 'd option"
  os_compute :: "string \<Rightarrow> string \<Rightarrow> string option result"
  os_semver :: "string \<Rightarrow> 'v result"
  os_simplify :: "string \<Rightarrow> 'v constraint list \<Rightarrow> 'r result"
  os_range :: "string \<Rightarrow> 'v constraint list \<Rightarrow> 'r result"
  os_github :: "string \<Rightarrow> string \<Rightarrow> 'v result"
  os_dumps :: "json \<Rightarrow> string"

definition PURL_TYPE_BY_OSV_ECOSYSTEM :: "(string \<times> string) list" where
  "PURL_TYPE_BY_OSV_ECOSYSTEM = [(''npm'', ''npm''), (''pypi'', ''pypi''), (''maven'', ''maven''), (''nuget'', ''nuget''),
     (''packagist'', ''composer''), (''rubygems'', ''gem''), (''go'', ''golang''), (''hex'', ''hex''), (''cargo'', ''cargo'')]"

definition OSV_TO_VCIO_SEVERITY_MAP :: "(string \<times> string) list" where
  "OSV_TO_VCIO_SEVERITY_MAP = [(''cvss_v3'', ''cvssv3.1''), (''cvss_v4'', ''cvssv4''), (''ubuntu'', ''ubuntu-priority'')]"

section \<open>Severities, references, dates\<close>

text \<open>The scoring elements are null for a system without a vector.\<close>

record osv_severity =
  osev_system :: string
  osev_value :: string
  osev_elements :: "string option"
  osev_url :: "string option"

definition osv_severity_system :: "string \<Rightarrow> string \<Rightarrow> string" where
  "osv_severity_system ty v =
     (if starts_with ''cvss:3.0/'' (lower v) then ''cvssv3'' else dict_get OSV_TO_VCIO_SEVERITY_MAP ty ty)"

definition drop_slash :: "string \<Rightarrow> string" where
  "drop_slash v = (if v \<noteq> [] \<and> last v = CHR ''/'' then butlast v else v)"

fun osv_severities ::
    "('r, 'v, 'd) osv_env \<Rightarrow> string \<Rightarrow> json list \<Rightarrow> osv_severity list result" where
  "osv_severities E url [] = Inr []"
| "osv_severities E url (s # ss) =
     bind_result (dget s ''type'') (\<lambda>jt. bind_result (dget s ''score'') (\<lambda>jv.
       case jt of JStr t \<Rightarrow>
         (let ty = lower t
          in if ty \<notin> set SCORING_SYSTEMS \<and> ty \<notin> fst ` set OSV_TO_VCIO_SEVERITY_MAP then osv_severities E url ss
             else (case jv of JStr v \<Rightarrow>
               (let sys = osv_severity_system ty v
                in if sys \<in> {''cvssv3'', ''cvssv3.1'', ''cvssv4''}
                   then bind_result (os_compute E sys (drop_slash v)) (\<lambda>score. case score of None \<Rightarrow> Inr []
                     | Some x \<Rightarrow> map_sum id (\<lambda>xs. \<lparr>osev_system = sys, osev_value = x, osev_elements = Some v, osev_url = Some url\<rparr> # xs)
                         (osv_severities E url ss))
                   else map_sum id (\<lambda>xs. \<lparr>osev_system = sys, osev_value = v, osev_elements = None, osev_url = Some url\<rparr> # xs)
                         (osv_severities E url ss))
               | _ \<Rightarrow> Inl AttributeError))
       | _ \<Rightarrow> Inl AttributeError))"

definition textual_severity :: "json \<Rightarrow> string \<Rightarrow> osv_severity list result" where
  "textual_severity raw k = bind_result (dobj raw k) (\<lambda>d. map_sum id
     (\<lambda>v. if v = [] then [] else [\<lparr>osev_system = ''generic_textual'', osev_value = v, osev_elements = Some [], osev_url = None\<rparr>])
     (dstr d ''severity''))"

definition get_severities :: "('r, 'v, 'd) osv_env \<Rightarrow> json \<Rightarrow> string \<Rightarrow> osv_severity list result" where
  "get_severities E raw url =
     bind_result (bind_result (dlist raw ''severity'') (osv_severities E url)) (\<lambda>xs.
     bind_result (textual_severity raw ''ecosystem_specific'') (\<lambda>ys.
     map_sum id (\<lambda>zs. xs @ ys @ zs) (textual_severity raw ''database_specific'')))"

fun get_references_v2 :: "json list \<Rightarrow> reference list result" where
  "get_references_v2 [] = Inr []"
| "get_references_v2 (r # rs) =
     (if falsy r then get_references_v2 rs
      else bind_result (req r ''url'') (\<lambda>u.
        if falsy u then get_references_v2 rs
        else bind_result (as_str u) (\<lambda>u. map_sum id ((#) \<lparr>ref_id = [], ref_type = [], ref_url = u\<rparr>) (get_references_v2 rs))))"

definition get_published_date :: "('r, 'v, 'd) osv_env \<Rightarrow> json \<Rightarrow> 'd option result" where
  "get_published_date E raw = map_sum id (\<lambda>s. if s = [] then None else os_date E s) (dstr raw ''published'')"

section \<open>The affected package\<close>

definition get_affected_purl :: "('r, 'v, 'd) osv_env \<Rightarrow> json \<Rightarrow> purl option result" where
  "get_affected_purl E pkg =
     (let L = purls (os_ext E);
          reparse = (\<lambda>p. case lib_from_string L (lib_to_string L p) of Inl _ \<Rightarrow> Inr None | Inr q \<Rightarrow> Inr (Some q))
      in bind_result (dobj pkg ''package'') (\<lambda>package. bind_result (dstr package ''purl'') (\<lambda>purl.
       if purl \<noteq> [] then
         (case lib_from_string L purl of Inl _ \<Rightarrow> Inr None
          | Inr q \<Rightarrow> reparse (lib_purl L (ptype q) (pnamespace q) (pname q) None (pqualifiers q) (psubpath q)))
       else bind_result (dstr package ''ecosystem'') (\<lambda>ecosys. bind_result (dstr package ''name'') (\<lambda>name.
         if ecosys = [] \<or> name = [] then Inr None
         else (let eco = lower ecosys; ubuntu = starts_with ''ubuntu'' eco;
                   ty = (if ubuntu then ''deb'' else dict_get PURL_TYPE_BY_OSV_ECOSYSTEM eco []);
                   (ns, nm) = (if ty = ''maven'' then case partition_on '':'' name of (a, _, b) \<Rightarrow> (a, b)
                               else (if ubuntu then ''ubuntu'' else [], name))
               in if ty = [] then Inr None else reparse (lib_purl L ty (Some ns) nm None [] None)))))))"

section \<open>Ranges\<close>

definition extract_events :: "json \<Rightarrow> (string \<times> string) list result" where
  "extract_events r = bind_result (dlist r ''events'') (\<lambda>es. map_sum id concat
     (map_result (\<lambda>e. case e of JObj ms \<Rightarrow> map_result (\<lambda>(k, v). map_sum id (Pair k) (as_str v)) ms | _ \<Rightarrow> Inl AttributeError) es))"

type_synonym 'v osv_constraints = "'v constraint list \<times> 'v constraint list \<times> string list \<times> string list"

definition git_event :: "string \<times> string \<Rightarrow> 'v osv_constraints \<Rightarrow> 'v osv_constraints" where
  "git_event e acc = (case (e, acc) of ((ty, v), (aff, fix, intro, fixed)) \<Rightarrow>
     if v = ''0'' then acc
     else if ty = ''fixed'' then (aff, fix, intro, fixed @ [v])
     else if ty = ''introduced'' then (aff, fix, intro @ [v], fixed) else acc)"

definition version_event :: "'v option \<Rightarrow> string \<times> string \<Rightarrow> 'v \<Rightarrow> 'v osv_constraints \<Rightarrow> 'v osv_constraints" where
  "version_event last_known e v acc = (case (e, acc) of ((ty, s), (aff, fix, intro, fixed)) \<Rightarrow>
     if ty = ''introduced'' then if s = ''0'' then acc else (aff @ [(''>='', v)], fix, intro, fixed)
     else if ty = ''fixed'' then (aff @ [case last_known of None \<Rightarrow> (''<'', v) | Some k \<Rightarrow> (''<='', k)], fix @ [(''='', v)], intro, fixed)
     else if ty = ''last_affected'' then (aff @ [(''<='', v)], fix, intro, fixed) else acc)"

fun range_events ::
    "('r, 'v, 'd) osv_env \<Rightarrow> json \<Rightarrow> string \<Rightarrow> 'v option \<Rightarrow> (string \<times> string) list \<Rightarrow> 'v osv_constraints \<Rightarrow> 'v osv_constraints result" where
  "range_events E range_type eco last_known [] acc = Inr acc"
| "range_events E range_type eco last_known (e # es) acc =
     (if range_type = JStr ''GIT'' then range_events E range_type eco last_known es (git_event e acc)
      else if range_type = JStr ''ECOSYSTEM'' \<or> range_type = JStr ''SEMVER'' then
        (case (if range_type = JStr ''ECOSYSTEM'' then type_version (os_ext E) eco else Some (os_semver E)) of
           None \<Rightarrow> Inl TypeError
         | Some version_class \<Rightarrow> (case version_class (snd e) of
             Inl err \<Rightarrow> if err = ValueError then range_events E range_type eco last_known es acc else Inl err
           | Inr v \<Rightarrow> range_events E range_type eco last_known es (version_event last_known e v acc)))
      else range_events E range_type eco last_known es acc)"

text \<open>Without a type the function returns an empty list, which is \<open>None\<close> here.\<close>

definition get_version_ranges_constraints ::
    "('r, 'v, 'd) osv_env \<Rightarrow> json \<Rightarrow> string \<Rightarrow> 'v option \<Rightarrow> 'v osv_constraints option result" where
  "get_version_ranges_constraints E r eco last_known =
     (case jget r ''type'' of None \<Rightarrow> Inr None
      | Some range_type \<Rightarrow> bind_result (extract_events r) (\<lambda>es.
          map_sum id (\<lambda>(aff, fix, intro, fixed). Some (aff, fix, dedupe intro, dedupe fixed))
            (range_events E range_type eco last_known es ([], [], [], []))))"

definition get_explicit_affected_range :: "('r, 'v, 'd) osv_env \<Rightarrow> json \<Rightarrow> string \<Rightarrow> 'r option result" where
  "get_explicit_affected_range E pkg eco =
     bind_result (dlist pkg ''versions'') (\<lambda>vs. case type_version (os_ext E) eco of None \<Rightarrow> Inr None
       | Some version_class \<Rightarrow>
           (let cs = concat (map (\<lambda>j. case bind_result (as_str j) version_class of Inl _ \<Rightarrow> [] | Inr v \<Rightarrow> [(''='', v)]) vs)
            in if cs = [] then Inr None else map_sum id Some (os_range E eco cs)))"

definition get_last_known_affected_version :: "('r, 'v, 'd) osv_env \<Rightarrow> json \<Rightarrow> string \<Rightarrow> 'v option result" where
  "get_last_known_affected_version E pkg eco =
     bind_result (dobj pkg ''database_specific'') (\<lambda>d. bind_result (dget d ''last_known_affected_version_range'') (\<lambda>j.
       if falsy j then Inr None
       else (case bind_result (as_str j) (os_github E eco) of Inl _ \<Rightarrow> Inr None | Inr v \<Rightarrow> Inr (Some v))))"

section \<open>The advisory\<close>

text \<open>
  What the loop over the affected packages collects. The two lists of commits are one Python list each for
  all the packages, which every package made so far refers to.
\<close>

record 'r osv_state =
  oz_references :: "reference list"
  oz_patches :: "patch_data list"
  oz_fixed_by :: "commit_patch list"
  oz_introduced_by :: "commit_patch list"
  oz_affected :: "'r affected_v2 list"

fun add_patch_obj :: "bool \<Rightarrow> patch_obj \<Rightarrow> 'r osv_state \<Rightarrow> 'r osv_state" where
  "add_patch_obj fixed (CommitObj c) s = (if fixed then s\<lparr>oz_fixed_by := oz_fixed_by s @ [c]\<rparr>
     else s\<lparr>oz_introduced_by := oz_introduced_by s @ [c]\<rparr>)"
| "add_patch_obj fixed (PatchObj p) s = s\<lparr>oz_patches := oz_patches s @ [p]\<rparr>"
| "add_patch_obj fixed (RefObj r) s = s\<lparr>oz_references := oz_references s @ [r]\<rparr>"

definition add_commits :: "('r, 'v, 'd) osv_env \<Rightarrow> json \<Rightarrow> bool \<Rightarrow> string list \<Rightarrow> 'r osv_state \<Rightarrow> 'r osv_state" where
  "add_commits E repo fixed =
     fold (\<lambda>h s. case bind_result (as_str_opt repo) (\<lambda>u. classify_patch_source (os_ext E) (os_urls E) u (Some h) None) of
        Inr (Some (_, objs)) \<Rightarrow> fold (add_patch_obj fixed) objs s | _ \<Rightarrow> s)"

fun osv_ranges ::
    "('r, 'v, 'd) osv_env \<Rightarrow> json \<Rightarrow> string \<Rightarrow> json list \<Rightarrow> 'v constraint list \<Rightarrow> 'v constraint list \<Rightarrow> 'r osv_state \<Rightarrow>
       ('v constraint list \<times> 'v constraint list \<times> 'r osv_state) result" where
  "osv_ranges E pkg eco [] aff fix s = Inr (aff, fix, s)"
| "osv_ranges E pkg eco (r # rs) aff fix s =
     bind_result (get_last_known_affected_version E pkg eco) (\<lambda>last_known.
     bind_result (get_version_ranges_constraints E r eco last_known) (\<lambda>res. case res of None \<Rightarrow> Inl ValueError
       | Some (a, f, intro, fixed) \<Rightarrow> bind_result (dget r ''repo'') (\<lambda>repo.
           osv_ranges E pkg eco rs (aff @ a) (fix @ f) (add_commits E repo False intro (add_commits E repo True fixed s)))))"

definition built_range :: "('r, 'v, 'd) osv_env \<Rightarrow> string \<Rightarrow> 'v constraint list \<Rightarrow> 'r option" where
  "built_range E eco cs =
     (if cs = [] then None else case os_simplify E eco cs of Inl _ \<Rightarrow> None | Inr r \<Rightarrow> Some r)"

text \<open>An affected package that is empty or has a version raises in its constructor, and is logged.\<close>

definition osv_package ::
    "('r, 'v, 'd) osv_env \<Rightarrow> string list \<Rightarrow> json \<Rightarrow> 'r osv_state \<Rightarrow> 'r osv_state result" where
  "osv_package E supported pkg s =
     bind_result (get_affected_purl E pkg) (\<lambda>p. case p of None \<Rightarrow> Inr s
     | Some purl \<Rightarrow> if ptype purl \<notin> set supported then Inr s else
       bind_result (dlist pkg ''ranges'') (\<lambda>rs.
       bind_result (osv_ranges E pkg (ptype purl) rs [] [] s) (\<lambda>(aff, fix, s).
       map_sum id (\<lambda>explicit.
         (let affected = (case explicit of None \<Rightarrow> built_range E (ptype purl) aff | Some r \<Rightarrow> Some r)
          in case affected_init \<lparr>ap_package = purl, ap_affected = affected, ap_fixed = built_range E (ptype purl) fix,
                ap_introduced_by = oz_introduced_by s, ap_fixed_by = oz_fixed_by s\<rparr> of
               Inl _ \<Rightarrow> s | Inr a \<Rightarrow> s\<lparr>oz_affected := oz_affected s @ [a]\<rparr>))
         (get_explicit_affected_range E pkg (ptype purl)))))"

fun osv_packages ::
    "('r, 'v, 'd) osv_env \<Rightarrow> string list \<Rightarrow> json list \<Rightarrow> 'r osv_state \<Rightarrow> 'r osv_state result" where
  "osv_packages E supported [] s = Inr s"
| "osv_packages E supported (p # ps) s = bind_result (osv_package E supported p s) (osv_packages E supported ps)"

definition shared_commits :: "'r osv_state \<Rightarrow> 'r affected_v2 list" where
  "shared_commits s = map (\<lambda>a. a\<lparr>ap_introduced_by := oz_introduced_by s, ap_fixed_by := oz_fixed_by s\<rparr>) (oz_affected s)"

text \<open>
  The list of aliases is that of the parsed data when that is not empty: the text of the advisory that is
  printed from the data has the changed one.
\<close>

fun with_aliases :: "json \<Rightarrow> string list \<Rightarrow> json" where
  "with_aliases (JObj ms) als =
     JObj (map (\<lambda>(k, v). if k = ''aliases'' \<and> \<not> falsy v then (k, jstrs als) else (k, v)) ms)"
| "with_aliases j als = j"

text \<open>The data the advisory is made of, once everything has been read.\<close>

definition osv_advisory ::
    "('r, 'v, 'd) osv_env \<Rightarrow> json \<Rightarrow> string \<Rightarrow> string \<Rightarrow> string option \<Rightarrow> string \<Rightarrow> string list \<Rightarrow> string list \<Rightarrow> string \<Rightarrow>
       string \<Rightarrow> 'd option \<Rightarrow> int list \<Rightarrow> 'r osv_state \<Rightarrow> ('r, 'd) adv_data" where
  "osv_advisory E raw advisory_url advisory_text wanted_id adv_id als up su de date ws s =
     (let i = (if truthy_opt wanted_id then the wanted_id else adv_id);
          als = remove1 i ((if truthy_opt wanted_id then als @ [adv_id] else als) @ up)
      in \<lparr>ad_id = i, ad_aliases = als, ad_summary = Some (build_description (Some su) (Some de)),
          ad_affected = shared_commits s, ad_references = oz_references s, ad_patches = oz_patches s, ad_published = date,
          ad_weaknesses = ws, ad_severities = [], ad_url = Some advisory_url,
          ad_original = Some (if advisory_text \<noteq> [] then advisory_text else os_dumps E (with_aliases raw als))\<rparr>)"

definition parse_advisory_data_v3 ::
    "('r, 'v, 'd) osv_env \<Rightarrow> json \<Rightarrow> string list \<Rightarrow> string \<Rightarrow> string \<Rightarrow> string option \<Rightarrow>
       (('r, 'd) adv_data \<times> osv_severity list) option result" where
  "parse_advisory_data_v3 E raw supported advisory_url advisory_text wanted_id =
     bind_result (dstr raw ''id'') (\<lambda>adv_id. if adv_id = [] then Inr None else
     bind_result (bind_result (dlist raw ''aliases'') (map_result as_str)) (\<lambda>als.
     bind_result (dstr raw ''summary'') (\<lambda>su.
     bind_result (dstr raw ''details'') (\<lambda>de.
     bind_result (bind_result (as_list (get_or raw ''upstream'' (JArr []))) (map_result as_str)) (\<lambda>up.
     bind_result (get_published_date E raw) (\<lambda>date.
     bind_result (get_severities E raw advisory_url) (\<lambda>sevs.
     bind_result (bind_result (dlist raw ''references'') get_references_v2) (\<lambda>refs.
     bind_result (bind_result (dlist raw ''affected'') (\<lambda>ps. osv_packages E supported ps
       \<lparr>oz_references = refs, oz_patches = [], oz_fixed_by = [], oz_introduced_by = [], oz_affected = []\<rparr>)) (\<lambda>s.
     bind_result (bind_result (dobj raw ''database_specific'') (\<lambda>d. bind_result (dlist d ''cwe_ids'')
       (map_result (\<lambda>j. bind_result (as_str j) get_cwe_id)))) (\<lambda>ws.
       case advisory_init (os_ext E) (osv_advisory E raw advisory_url advisory_text wanted_id adv_id als up su de date ws s) of
         Inl _ \<Rightarrow> Inr None | Inr a \<Rightarrow> Inr (Some (a, sevs))))))))))))"

section \<open>Events in closed form\<close>

text \<open>What one event adds to the affected and to the fixed constraints.\<close>

definition affected_of :: "(string \<Rightarrow> 'v result) \<Rightarrow> 'v option \<Rightarrow> string \<times> string \<Rightarrow> 'v constraint list" where
  "affected_of version_class last_known e = (case version_class (snd e) of Inl _ \<Rightarrow> []
     | Inr v \<Rightarrow> if fst e = ''introduced'' then (if snd e = ''0'' then [] else [(''>='', v)])
               else if fst e = ''fixed'' then [case last_known of None \<Rightarrow> (''<'', v) | Some k \<Rightarrow> (''<='', k)]
               else if fst e = ''last_affected'' then [(''<='', v)] else [])"

definition fixed_of :: "(string \<Rightarrow> 'v result) \<Rightarrow> string \<times> string \<Rightarrow> 'v constraint list" where
  "fixed_of version_class e = (case version_class (snd e) of Inl _ \<Rightarrow> []
     | Inr v \<Rightarrow> if fst e = ''fixed'' then [(''='', v)] else [])"

definition commits_of :: "string \<Rightarrow> (string \<times> string) list \<Rightarrow> string list" where
  "commits_of k es = map snd (filter (\<lambda>e. fst e = k \<and> snd e \<noteq> ''0'') es)"

definition range_versions :: "('r, 'v, 'd) osv_env \<Rightarrow> string \<Rightarrow> string \<Rightarrow> (string \<Rightarrow> 'v result) option" where
  "range_versions E t eco =
     (if t = ''ECOSYSTEM'' then type_version (os_ext E) eco else if t = ''SEMVER'' then Some (os_semver E) else None)"

lemma range_events_git:
  "range_events E (JStr ''GIT'') eco last_known es (aff, fx, intro, fixed) =
   Inr (aff, fx, intro @ commits_of ''introduced'' es, fixed @ commits_of ''fixed'' es)"
proof (induction es arbitrary: intro fixed)
  case Nil
  then show ?case by (simp add: commits_of_def)
next
  case (Cons e es)
  show ?case by (cases e) (simp add: Cons.IH git_event_def commits_of_def)
qed

lemma range_events_versions:
  assumes "range_versions E t eco = Some version_class" "\<And>x e. version_class x = Inl e \<Longrightarrow> e = ValueError"
  shows "range_events E (JStr t) eco last_known es (aff, fx, intro, fixed) =
    Inr (aff @ concat (map (affected_of version_class last_known) es), fx @ concat (map (fixed_of version_class) es), intro, fixed)"
proof (induction es arbitrary: aff fx)
  case Nil
  then show ?case by simp
next
  case (Cons e es)
  have t: "t = ''ECOSYSTEM'' \<and> type_version (os_ext E) eco = Some version_class \<or> t = ''SEMVER'' \<and> os_semver E = version_class"
    using assms(1) by (auto simp: range_versions_def split: if_splits)
  show ?case
  proof (cases "version_class (snd e)")
    case (Inl err)
    with assms(2) have "err = ValueError" by blast
    with Inl t Cons.IH show ?thesis by (auto simp: affected_of_def fixed_of_def)
  next
    case (Inr v)
    have "version_event last_known e v (aff, fx, intro, fixed) =
        (aff @ affected_of version_class last_known e, fx @ fixed_of version_class e, intro, fixed)"
      using Inr by (cases e) (simp add: version_event_def affected_of_def fixed_of_def split: option.split)
    with Inr t Cons.IH show ?thesis by auto
  qed
qed

lemma range_events_other:
  "t \<notin> {''GIT'', ''ECOSYSTEM'', ''SEMVER''} \<Longrightarrow> range_events E (JStr t) eco last_known es acc = Inr acc"
  by (induction es arbitrary: acc) auto

text \<open>
  C26: the constraints and commits of a range, in closed form. A range of versions gives each event's
  constraints, an event whose version does not parse none; a \<open>GIT\<close> range gives the distinct commits in their
  order, the hash 0 dropped; a range of another type gives nothing, and a range of an ecosystem without a
  version class fails as soon as it has an event.
\<close>

theorem get_version_ranges_exact:
  assumes "jget r ''type'' = Some (JStr t)" "extract_events r = Inr es"
    and "\<And>x e version_class. range_versions E t eco = Some version_class \<Longrightarrow> version_class x = Inl e \<Longrightarrow> e = ValueError"
  shows "get_version_ranges_constraints E r eco last_known =
    (if t = ''GIT'' then Inr (Some ([], [], dedupe (commits_of ''introduced'' es), dedupe (commits_of ''fixed'' es)))
     else case range_versions E t eco of
         Some version_class \<Rightarrow> Inr (Some (concat (map (affected_of version_class last_known) es),
            concat (map (fixed_of version_class) es), [], []))
       | None \<Rightarrow> if t = ''ECOSYSTEM'' \<and> es \<noteq> [] then Inl TypeError else Inr (Some ([], [], [], [])))"
proof (cases "range_versions E t eco")
  case (Some version_class)
  from Some have "t \<noteq> ''GIT''" by (auto simp: range_versions_def)
  with assms Some show ?thesis
    by (simp add: get_version_ranges_constraints_def range_events_versions dedupe_def dict_keys_def)
next
  case None
  note n = this
  show ?thesis
  proof (cases "t = ''ECOSYSTEM'' \<and> es \<noteq> []")
    case True
    then obtain e es' where "es = e # es'" by (cases es) auto
    with True n assms(1,2) show ?thesis by (auto simp: get_version_ranges_constraints_def range_versions_def)
  next
    case False
    then have "t = ''GIT'' \<or> es = [] \<or> t \<notin> {''GIT'', ''ECOSYSTEM'', ''SEMVER''}"
      using n by (auto simp: range_versions_def split: if_splits)
    with n False assms(1,2) show ?thesis
      by (auto simp: get_version_ranges_constraints_def range_events_git range_events_other dedupe_def dict_keys_def)
  qed
qed

section \<open>A parsed advisory is valid\<close>

fun patch_obj_ok :: "('r, 'v, 'd) ext \<Rightarrow> patch_obj \<Rightarrow> bool" where
  "patch_obj_ok X (CommitObj c) = (commit_init X c = Inr c)"
| "patch_obj_ok X (PatchObj p) = (patch_init X p = Inr p)"
| "patch_obj_ok X (RefObj r) = (reference_init r = Inr r)"

lemma init_ok:
  "commit_init X c0 = Inr c \<Longrightarrow> commit_init X c = Inr c"
  "patch_init X p0 = Inr p \<Longrightarrow> patch_init X p = Inr p"
  "reference_init r0 = Inr r \<Longrightarrow> reference_init r = Inr r"
  by (auto simp: commit_init_def patch_init_def reference_init_def split: if_splits)

lemma patch_of_ok: "patch_of X url ptext = Inr obj \<Longrightarrow> patch_obj_ok X obj"
  by (auto simp: patch_of_def map_sum_Inr dest: init_ok)

lemma commit_reference_ok: "commit_reference c u = Inr obj \<Longrightarrow> patch_obj_ok X obj"
  by (auto simp: commit_reference_def map_sum_Inr dest: init_ok)

lemma classify_patch_source_ok:
  "classify_patch_source X U url commit ptext = Inr (Some (base, objs)) \<Longrightarrow> \<forall>obj\<in>set objs. patch_obj_ok X obj"
  by (auto simp: classify_patch_source_def Let_def map_sum_Inr
      dest: init_ok patch_of_ok commit_reference_ok [where X = X] split: if_splits sum.splits)

definition osv_ok :: "('r, 'v, 'd) ext \<Rightarrow> string list \<Rightarrow> 'r osv_state \<Rightarrow> bool" where
  "osv_ok X supported s \<longleftrightarrow>
     (\<forall>r\<in>set (oz_references s). reference_init r = Inr r) \<and> (\<forall>p\<in>set (oz_patches s). patch_init X p = Inr p) \<and>
     (\<forall>c\<in>set (oz_introduced_by s) \<union> set (oz_fixed_by s). commit_init X c = Inr c) \<and>
     (\<forall>a\<in>set (oz_affected s). ptype (ap_package a) \<in> set supported \<and> \<not> truthy_opt (pversion (ap_package a)) \<and>
        (ap_affected a \<noteq> None \<or> ap_fixed a \<noteq> None \<or> oz_introduced_by s \<noteq> [] \<or> oz_fixed_by s \<noteq> []) \<and>
        (\<exists>x. lib_from_string (purls X) x = Inr (ap_package a)))"

lemma or_none:
  "(case r of Inl _ \<Rightarrow> Inr None | Inr q \<Rightarrow> f q) = Inr (Some p) \<longleftrightarrow> (\<exists>q. r = Inr q \<and> f q = Inr (Some p))"
  by (cases r) auto

lemma get_affected_purl_parsed:
  "get_affected_purl E pkg = Inr (Some p) \<Longrightarrow> \<exists>x. lib_from_string (purls (os_ext E)) x = Inr p"
  by (auto simp: get_affected_purl_def Let_def bind_result_Inr or_none case_prod_beta split: if_splits)

lemma add_patch_obj_ok: "osv_ok X supported s \<Longrightarrow> patch_obj_ok X obj \<Longrightarrow> osv_ok X supported (add_patch_obj fixed obj s)"
  by (cases obj) (auto simp: osv_ok_def)

lemma fold_member_keeps: "P s \<Longrightarrow> (\<And>x s. x \<in> set xs \<Longrightarrow> P s \<Longrightarrow> P (f x s)) \<Longrightarrow> P (fold f xs s)"
  by (induction xs arbitrary: s) auto

lemma add_commits_ok: "osv_ok (os_ext E) supported s \<Longrightarrow> osv_ok (os_ext E) supported (add_commits E repo fixed hs s)"
  unfolding add_commits_def
  by (rule fold_member_keeps)
    (auto split: sum.splits option.splits prod.splits simp: bind_result_Inr
      intro!: fold_member_keeps [where P = "osv_ok (os_ext E) supported"] add_patch_obj_ok dest: classify_patch_source_ok)

lemma osv_ranges_ok:
  "osv_ranges E pkg eco rs aff fx s = Inr (aff', fx', s') \<Longrightarrow> osv_ok (os_ext E) supported s \<Longrightarrow>
   osv_ok (os_ext E) supported s'"
  by (induction rs arbitrary: aff fx s) (auto simp: bind_result_Inr add_commits_ok split: option.splits)

lemma osv_package_ok:
  assumes "osv_package E supported pkg s = Inr s'" "osv_ok (os_ext E) supported s"
  shows "osv_ok (os_ext E) supported s'"
proof -
  have add: "osv_ok (os_ext E) supported (case affected_init \<lparr>ap_package = purl, ap_affected = a, ap_fixed = f,
       ap_introduced_by = oz_introduced_by s1, ap_fixed_by = oz_fixed_by s1\<rparr> of
      Inl _ \<Rightarrow> s1 | Inr a \<Rightarrow> s1\<lparr>oz_affected := oz_affected s1 @ [a]\<rparr>)"
    if "osv_ok (os_ext E) supported s1" "ptype purl \<in> set supported" "lib_from_string (purls (os_ext E)) x = Inr purl"
    for purl a f s1 x
    using that by (auto simp: affected_init_def osv_ok_def)
  from assms(1) obtain q where q: "get_affected_purl E pkg = Inr q" by (auto simp: osv_package_def bind_result_Inr)
  show ?thesis
  proof (cases "\<exists>purl. q = Some purl \<and> ptype purl \<in> set supported")
    case True
    then obtain purl where purl: "q = Some purl" "ptype purl \<in> set supported" by blast
    with assms(1) q obtain rs aff fx s1 explicit where
      ranges: "osv_ranges E pkg (ptype purl) rs [] [] s = Inr (aff, fx, s1)" and
      s': "s' = (case affected_init \<lparr>ap_package = purl,
            ap_affected = (case explicit of None \<Rightarrow> built_range E (ptype purl) aff | Some r \<Rightarrow> Some r),
            ap_fixed = built_range E (ptype purl) fx, ap_introduced_by = oz_introduced_by s1, ap_fixed_by = oz_fixed_by s1\<rparr> of
          Inl _ \<Rightarrow> s1 | Inr a \<Rightarrow> s1\<lparr>oz_affected := oz_affected s1 @ [a]\<rparr>)"
      by (auto simp: osv_package_def bind_result_Inr map_sum_Inr Let_def)
    from get_affected_purl_parsed q purl(1) obtain x where x: "lib_from_string (purls (os_ext E)) x = Inr purl" by blast
    show ?thesis unfolding s' by (rule add [OF osv_ranges_ok [OF ranges assms(2)] purl(2) x])
  next
    case False
    with assms q show ?thesis by (auto simp: osv_package_def split: option.splits)
  qed
qed

lemma osv_packages_ok:
  "osv_packages E supported ps s = Inr s' \<Longrightarrow> osv_ok (os_ext E) supported s \<Longrightarrow> osv_ok (os_ext E) supported s'"
  by (induction ps arbitrary: s) (auto simp: bind_result_Inr dest: osv_package_ok)

lemma get_references_v2_ok: "get_references_v2 rs = Inr refs \<Longrightarrow> \<forall>r\<in>set refs. reference_init r = Inr r"
proof (induction rs arbitrary: refs)
  case (Cons r rs)
  have "u \<noteq> []" if "as_str j = Inr u" "\<not> falsy j" for j u using that by (cases j) auto
  with Cons show ?case by (auto simp: bind_result_Inr map_sum_Inr reference_init_def split: if_splits)
qed simp

lemma osv_severities_ok:
  "osv_severities E url ss = Inr xs \<Longrightarrow> \<forall>x\<in>set xs. osev_system x \<in> set SCORING_SYSTEMS"
proof (induction ss arbitrary: xs)
  case (Cons s ss)
  have sys: "osv_severity_system t v \<in> set SCORING_SYSTEMS"
    if "t \<in> set SCORING_SYSTEMS \<or> t \<in> fst ` set OSV_TO_VCIO_SEVERITY_MAP" for t v
    using that
    by (auto simp: osv_severity_system_def OSV_TO_VCIO_SEVERITY_MAP_def SCORING_SYSTEMS_def dict_get_def)
  from Cons.prems obtain jt jv where j: "dget s ''type'' = Inr jt" "dget s ''score'' = Inr jv"
    by (auto simp: bind_result_Inr)
  with Cons.prems obtain t where "jt = JStr t" by (cases jt) auto
  with j have t: "dget s ''type'' = Inr (JStr t)" "dget s ''score'' = Inr jv" by simp_all
  show ?case
  proof (cases "lower t \<in> set SCORING_SYSTEMS \<or> lower t \<in> fst ` set OSV_TO_VCIO_SEVERITY_MAP")
    case False
    with Cons t show ?thesis by (simp add: Let_def)
  next
    case True
    then have nt: "(lower t \<notin> set SCORING_SYSTEMS \<and> lower t \<notin> fst ` set OSV_TO_VCIO_SEVERITY_MAP) = False" by blast
    from Cons.prems t obtain v where v: "jv = JStr v" by (cases jv) (simp_all add: Let_def nt)
    let ?sys = "osv_severity_system (lower t) v"
    have ok: "?sys \<in> set SCORING_SYSTEMS" using True by (rule sys)
    have more: "\<forall>x\<in>set xs. osev_system x \<in> set SCORING_SYSTEMS"
      if "map_sum id ((#) y) (osv_severities E url ss) = Inr xs" "osev_system y = ?sys" for y
      using that ok by (auto simp: map_sum_Inr dest!: Cons.IH)
    show ?thesis
    proof (cases "?sys \<in> {''cvssv3'', ''cvssv3.1'', ''cvssv4''}")
      case vector: True
      from Cons.prems t obtain score where
        score: "(case score of None \<Rightarrow> Inr [] | Some x \<Rightarrow> map_sum id (\<lambda>xs. \<lparr>osev_system = ?sys, osev_value = x,
            osev_elements = Some v, osev_url = Some url\<rparr> # xs) (osv_severities E url ss)) = (Inr xs :: osv_severity list result)"
        by (simp only: osv_severities.simps bind_result.simps v json.case nt if_False Let_def vector if_True bind_result_Inr) blast
      then show ?thesis by (cases score) (auto dest!: more)
    next
      case False
      with Cons.prems t have "map_sum id (\<lambda>xs. \<lparr>osev_system = ?sys, osev_value = v, osev_elements = None,
            osev_url = Some url\<rparr> # xs) (osv_severities E url ss) = Inr xs"
        by (simp only: osv_severities.simps bind_result.simps v json.case nt if_False Let_def)
      then show ?thesis by (rule more) simp
    qed
  qed
qed simp

lemma textual_severity_ok:
  "textual_severity raw k = Inr xs \<Longrightarrow> \<forall>x\<in>set xs. osev_system x \<in> set SCORING_SYSTEMS"
  by (auto simp: textual_severity_def bind_result_Inr map_sum_Inr SCORING_SYSTEMS_def split: if_splits)

lemma get_severities_ok:
  "get_severities E raw url = Inr xs \<Longrightarrow> \<forall>x\<in>set xs. osev_system x \<in> set SCORING_SYSTEMS"
  by (auto simp: get_severities_def bind_result_Inr map_sum_Inr dest!: osv_severities_ok textual_severity_ok)

lemma parse_osv_parts:
  assumes "parse_advisory_data_v3 E raw supported advisory_url advisory_text wanted_id = Inr (Some (a, sevs))"
  obtains a0 refs js ps s url where "advisory_init (os_ext E) a0 = Inr a" "get_severities E raw url = Inr sevs"
    "get_references_v2 js = Inr refs" "osv_packages E supported ps
       \<lparr>oz_references = refs, oz_patches = [], oz_fixed_by = [], oz_introduced_by = [], oz_affected = []\<rparr> = Inr s"
    "ad_affected a0 = shared_commits s" "ad_references a0 = oz_references s" "ad_patches a0 = oz_patches s"
    "ad_severities a0 = []"
  using assms unfolding parse_advisory_data_v3_def
  by (clarsimp simp: bind_result_Inr or_none split: if_splits)
    (rule that, assumption+, simp_all add: osv_advisory_def Let_def)

text \<open>
  C10: an advisory that is read from OSV data is well typed: it passes the checks of all its data classes,
  its references, patches and commits pass theirs, every affected package has a supported type and says
  something, and every severity is of a known scoring system. The constructor of a package URL is assumed
  to give back a parsed package URL from its fields.
\<close>

theorem osv_advisory_valid:
  assumes "ext_laws (os_ext E)"
    and "\<And>x p. lib_from_string (purls (os_ext E)) x = Inr p \<Longrightarrow>
      lib_of_fields (purls (os_ext E)) (lib_fields (purls (os_ext E)) p) = Inr p"
    and "parse_advisory_data_v3 E raw supported advisory_url advisory_text wanted_id = Inr (Some (a, sevs))"
  shows "advisory_valid (os_ext E) a \<and> (\<forall>p\<in>set (ad_affected a). ptype (ap_package p) \<in> set supported) \<and>
    (\<forall>s\<in>set sevs. osev_system s \<in> set SCORING_SYSTEMS)"
proof -
  from assms(3) obtain a0 refs js ps s url where
    a0: "advisory_init (os_ext E) a0 = Inr a" "ad_affected a0 = shared_commits s" "ad_references a0 = oz_references s"
      "ad_patches a0 = oz_patches s" "ad_severities a0 = []"
    and sevs: "get_severities E raw url = Inr sevs" and refs: "get_references_v2 js = Inr refs"
    and s: "osv_packages E supported ps
       \<lparr>oz_references = refs, oz_patches = [], oz_fixed_by = [], oz_introduced_by = [], oz_affected = []\<rparr> = Inr s"
    by (rule parse_osv_parts)
  have ok: "osv_ok (os_ext E) supported s"
    by (rule osv_packages_ok [OF s]) (use get_references_v2_ok [OF refs] in \<open>simp add: osv_ok_def\<close>)
  from a0 have a: "ad_affected a = shared_commits s" "ad_references a = oz_references s" "ad_patches a = oz_patches s"
    "ad_severities a = []"
    by (auto simp: advisory_init_def split: if_splits)
  have "affected_valid (os_ext E) p" if "p \<in> set (shared_commits s)" for p
    using that ok assms(2) by (auto simp: shared_commits_def affected_valid_def affected_init_def osv_ok_def)
  with a ok advisory_init_valid [OF assms(1) a0(1)] get_severities_ok [OF sevs] show ?thesis
    by (auto simp: advisory_valid_def osv_ok_def shared_commits_def)
qed

section \<open>Concrete advisories\<close>

definition demo_osv_env :: "(nat, nat, nat) osv_env" where
  "demo_osv_env = \<lparr>os_ext = demo_ext\<lparr>
       purls := demo_purl_lib\<lparr>lib_from_string := (\<lambda>s. Inr \<lparr>ptype = takeWhile (\<lambda>c. c \<noteq> CHR ''/'') s, pnamespace = None,
         pname = drop 1 (dropWhile (\<lambda>c. c \<noteq> CHR ''/'') s), pversion = None, pqualifiers = [], psubpath = None\<rparr>)\<rparr>,
       type_version := (\<lambda>t. Some (\<lambda>s. if s = [] then Inl ValueError else Inr (length s)))\<rparr>,
     os_urls = demo_urls, os_date = (\<lambda>s. Some (length s)), os_compute = (\<lambda>sys v. Inr (Some ''9.8'')),
     os_semver = (\<lambda>s. if s = [] then Inl ValueError else Inr (length s)),
     os_simplify = (\<lambda>eco cs. Inr (length cs)), os_range = (\<lambda>eco cs. Inr (length cs)),
     os_github = (\<lambda>eco s. Inl ValueError), os_dumps = (\<lambda>j. ''text'')\<rparr>"

definition demo_event :: "string \<Rightarrow> string \<Rightarrow> json" where
  "demo_event k v = JObj [(k, JStr v)]"

definition demo_osv_package :: "string \<Rightarrow> (string \<times> json) list \<Rightarrow> json" where
  "demo_osv_package purl r = JObj [(''package'', JObj [(''purl'', JStr purl)]), (''ranges'', JArr [JObj r])]"

definition demo_osv :: "json list \<Rightarrow> json" where
  "demo_osv ps = JObj [(''id'', JStr ''GHSA-1''), (''aliases'', jstrs [''CVE-1'']), (''summary'', JStr ''s''),
     (''severity'', JArr [JObj [(''type'', JStr ''CVSS_V3''), (''score'', JStr ''CVSS:3.1/AV:N'')]]), (''affected'', JArr ps)]"

definition demo_git :: "(string \<times> json) list" where
  "demo_git = [(''type'', JStr ''GIT''), (''repo'', JStr ''https://github.com/o/r''),
     (''events'', JArr [demo_event ''introduced'' ''0'', demo_event ''fixed'' ''abcdef1''])]"

definition demo_semver :: "(string \<times> json) list" where
  "demo_semver = [(''type'', JStr ''SEMVER''),
     (''events'', JArr [demo_event ''introduced'' ''1.0'', demo_event ''fixed'' [], demo_event ''fixed'' ''2.0''])]"

lemma get_version_ranges_exact_witness:
  "get_version_ranges_constraints demo_osv_env (JObj demo_semver) ''npm'' None = Inr (Some ([(''>='', 3), (''<'', 3)], [(''='', 3)], [], []))"
proof -
  have t: "jget (JObj demo_semver) ''type'' = Some (JStr ''SEMVER'')" by code_simp
  have es: "extract_events (JObj demo_semver) = Inr [(''introduced'', ''1.0''), (''fixed'', []), (''fixed'', ''2.0'')]" by code_simp
  have only: "e = ValueError" if "range_versions demo_osv_env ''SEMVER'' ''npm'' = Some version_class" "version_class x = Inl e"
    for x e version_class
    using that by (auto simp: range_versions_def demo_osv_env_def split: if_splits)
  show ?thesis
    using get_version_ranges_exact [where E = demo_osv_env and eco = "''npm''" and last_known = None, OF t es only]
    by (simp add: range_versions_def demo_osv_env_def affected_of_def fixed_of_def)
qed

definition demo_parsed :: "((nat, nat) adv_data \<times> osv_severity list) option result" where
  "demo_parsed = parse_advisory_data_v3 demo_osv_env
     (demo_osv [demo_osv_package ''npm/a'' demo_git, demo_osv_package ''npm/b'' demo_semver]) [''npm''] ''url'' [] None"

lemma osv_advisory_valid_witness:
  "case demo_parsed of Inr (Some (a, sevs)) \<Rightarrow>
     advisory_valid (os_ext demo_osv_env) a \<and> length (ad_affected a) = 2 \<and>
     map osev_system sevs = [''cvssv3.1''] | _ \<Rightarrow> False"
proof -
  have x: "ext_laws (os_ext demo_osv_env)" using demo_ext_laws by (simp add: ext_laws_def demo_osv_env_def)
  have l: "lib_of_fields (purls (os_ext demo_osv_env)) (lib_fields (purls (os_ext demo_osv_env)) p) = Inr p"
    if "lib_from_string (purls (os_ext demo_osv_env)) y = Inr p" for y p
    using that by (auto simp: demo_osv_env_def demo_purl_lib_def dict_get_def)
  have "case demo_parsed of Inr (Some (a, sevs)) \<Rightarrow> length (ad_affected a) = 2 \<and> map osev_system sevs = [''cvssv3.1''] | _ \<Rightarrow> False"
    by code_simp
  then obtain a sevs where p: "demo_parsed = Inr (Some (a, sevs))" "length (ad_affected a) = 2" "map osev_system sevs = [''cvssv3.1'']"
    by (auto split: sum.splits option.splits)
  have "advisory_valid (os_ext demo_osv_env) a \<and> (\<forall>p\<in>set (ad_affected a). ptype (ap_package p) \<in> set [''npm'']) \<and>
      (\<forall>s\<in>set sevs. osev_system s \<in> set SCORING_SYSTEMS)"
    by (rule osv_advisory_valid [OF x _ p(1) [unfolded demo_parsed_def]]) (rule l)
  with p(2,3) show ?thesis unfolding p(1) by simp
qed

text \<open>The commit that fixes one package is recorded as the fix of the next package too.\<close>

lemma commit_of_another_package:
  "(case demo_parsed of Inr (Some (a, _)) \<Rightarrow>
      map (\<lambda>p. (pname (ap_package p), map commit_hash (ap_fixed_by p))) (ad_affected a) | _ \<Rightarrow> []) =
   [(''a'', [Some ''abcdef1'']), (''b'', [Some ''abcdef1''])]"
  by code_simp

text \<open>A range without a type fails the whole advisory.\<close>

lemma range_without_type:
  "parse_advisory_data_v3 demo_osv_env (demo_osv [demo_osv_package ''npm/a'' [(''events'', JArr [])]]) [''npm''] ''url'' [] None =
   Inl ValueError"
  by code_simp

end
