(* ===== verification/UnionFind.thy ===== *)
theory UnionFind
  imports Prelude
begin

text \<open>
  The union-find structure that \<open>get_merged_identifier_groups\<close> of
  \<open>vulnerabilities/pipes/group_advisories.py\<close> builds in two local lists, \<open>parent\<close> and
  \<open>rank\<close>, with its closures \<open>find\<close> (path halving) and \<open>union\<close> (by rank). A \<open>None\<close>
  result stands for an index error or a loop that does not return; the invariant \<open>dsu_wf\<close>
  excludes both. The interface \<open>union_find\<close> is what the grouping of advisories uses.
\<close>

section \<open>The interface\<close>

locale union_find =
  fixes find :: "'u \<Rightarrow> nat \<Rightarrow> ('u \<times> nat) option"
    and union :: "'u \<Rightarrow> nat \<Rightarrow> nat \<Rightarrow> 'u option"
    and inv :: "nat \<Rightarrow> 'u \<Rightarrow> bool"
    and same :: "'u \<Rightarrow> (nat \<times> nat) set"
    and root :: "'u \<Rightarrow> nat \<Rightarrow> nat"
  assumes find_ok: "inv n u \<Longrightarrow> x < n \<Longrightarrow>
      \<exists>u'. find u x = Some (u', root u x) \<and> inv n u' \<and> (\<forall>y<n. root u' y = root u y)"
    and root_bound: "inv n u \<Longrightarrow> x < n \<Longrightarrow> root u x < n"
    and same_root: "inv n u \<Longrightarrow> (x, y) \<in> same u \<longleftrightarrow> x < n \<and> y < n \<and> root u x = root u y"
    and union_ok: "inv n u \<Longrightarrow> x < n \<Longrightarrow> y < n \<Longrightarrow>
      \<exists>u'. union u x y = Some u' \<and> inv n u' \<and>
           same u' = {(a, b). a < n \<and> b < n \<and>
             ((a, b) \<in> same u \<or> (a, x) \<in> same u \<and> (y, b) \<in> same u
                              \<or> (a, y) \<in> same u \<and> (x, b) \<in> same u)}"
begin

lemma same_refl: "inv n u \<Longrightarrow> x < n \<Longrightarrow> (x, x) \<in> same u"
  by (simp add: same_root)

lemma same_sym: "inv n u \<Longrightarrow> (x, y) \<in> same u \<Longrightarrow> (y, x) \<in> same u"
  by (simp add: same_root)

lemma same_trans: "inv n u \<Longrightarrow> (x, y) \<in> same u \<Longrightarrow> (y, z) \<in> same u \<Longrightarrow> (x, z) \<in> same u"
  by (auto simp: same_root)

lemma same_bound: "inv n u \<Longrightarrow> (x, y) \<in> same u \<Longrightarrow> x < n \<and> y < n"
  by (simp add: same_root)

end

section \<open>The two lists and their operations\<close>

record dsu =
  parent :: "nat list"
  rank :: "nat list"

definition dsu_init :: "nat \<Rightarrow> dsu" where
  "dsu_init n = \<lparr>parent = [0..<n], rank = replicate n 0\<rparr>"

partial_function (option) find_loop :: "nat list \<Rightarrow> nat \<Rightarrow> (nat list \<times> nat) option" where
  "find_loop p x =
     (if x < length p
      then if p ! x = x then Some (p, x)
           else if p ! x < length p
                then find_loop (p[x := p ! (p ! x)]) (p ! (p ! x))
                else None
      else None)"

definition dsu_find :: "dsu \<Rightarrow> nat \<Rightarrow> (dsu \<times> nat) option" where
  "dsu_find u x = (case find_loop (parent u) x of
      None \<Rightarrow> None
    | Some (p, r) \<Rightarrow> Some (u\<lparr>parent := p\<rparr>, r))"

definition dsu_link :: "dsu \<Rightarrow> nat \<Rightarrow> nat \<Rightarrow> dsu" where
  "dsu_link u rx0 ry0 =
     (let (rx, ry) = (if rank u ! rx0 < rank u ! ry0 then (ry0, rx0) else (rx0, ry0));
          u1 = u\<lparr>parent := (parent u)[ry := rx]\<rparr>
      in if rank u1 ! rx = rank u1 ! ry
         then u1\<lparr>rank := (rank u1)[rx := rank u1 ! rx + 1]\<rparr> else u1)"

definition dsu_union :: "dsu \<Rightarrow> nat \<Rightarrow> nat \<Rightarrow> dsu option" where
  "dsu_union u x y = (case dsu_find u x of
      None \<Rightarrow> None
    | Some (u1, rx) \<Rightarrow> (case dsu_find u1 y of
          None \<Rightarrow> None
        | Some (u2, ry) \<Rightarrow> if rx = ry then Some u2 else Some (dsu_link u2 rx ry)))"

section \<open>Representatives\<close>

inductive rep :: "nat list \<Rightarrow> nat \<Rightarrow> nat \<Rightarrow> bool" for p where
  rep_root: "p ! x = x \<Longrightarrow> rep p x x"
| rep_step: "p ! x \<noteq> x \<Longrightarrow> rep p (p ! x) r \<Longrightarrow> rep p x r"

inductive_cases repE: "rep p x r"

lemma rep_is_root: "rep p x r \<Longrightarrow> p ! r = r"
  by (induction rule: rep.induct) auto

lemma rep_det: "rep p x r \<Longrightarrow> rep p x s \<Longrightarrow> r = s"
  by (induction rule: rep.induct) (auto elim: repE)

text \<open>
  The invariant: both lists have one entry per element, parents are elements, and the rank
  grows strictly along every parent edge, so the edges form a forest.
\<close>

definition parents_wf :: "nat list \<Rightarrow> nat list \<Rightarrow> bool" where
  "parents_wf p rk \<longleftrightarrow> length rk = length p \<and>
     (\<forall>i<length p. p ! i < length p \<and> (p ! i \<noteq> i \<longrightarrow> rk ! i < rk ! (p ! i)))"

definition dsu_wf :: "nat \<Rightarrow> dsu \<Rightarrow> bool" where
  "dsu_wf n u \<longleftrightarrow> length (parent u) = n \<and> parents_wf (parent u) (rank u)"

lemma dsu_wf_init: "dsu_wf n (dsu_init n)"
  by (simp add: dsu_wf_def dsu_init_def parents_wf_def)

text \<open>How far an element can be from the top of its tree: what decreases along the edges.\<close>

definition climb :: "nat list \<Rightarrow> nat \<Rightarrow> nat" where
  "climb rk i = Max (set rk) - rk ! i"

lemma climb_less:
  assumes "parents_wf p rk" "i < length p" "p ! i \<noteq> i"
  shows "climb rk (p ! i) < climb rk i"
proof -
  have "rk ! i < rk ! (p ! i)" "p ! i < length rk"
    using assms by (auto simp: parents_wf_def)
  moreover have "rk ! (p ! i) \<le> Max (set rk)" using calculation(2) by simp
  ultimately show ?thesis unfolding climb_def by linarith
qed

lemma parents_wf_bound: "parents_wf p rk \<Longrightarrow> i < length p \<Longrightarrow> p ! i < length p"
  by (simp add: parents_wf_def)

lemma rep_exists:
  assumes "parents_wf p rk" "i < length p"
  shows "\<exists>r<length p. rep p i r"
  using assms(2)
proof (induction "climb rk i" arbitrary: i rule: less_induct)
  case less
  show ?case
  proof (cases "p ! i = i")
    case True
    with less.prems show ?thesis by (auto intro: rep_root)
  next
    case False
    have "climb rk (p ! i) < climb rk i" by (rule climb_less [OF assms(1) less.prems False])
    moreover have "p ! i < length p" by (rule parents_wf_bound [OF assms(1) less.prems])
    ultimately show ?thesis using less.hyps False by (blast intro: rep_step)
  qed
qed

lemma rep_bound:
  assumes "parents_wf p rk" "i < length p" "rep p i r" shows "r < length p"
  using rep_exists [OF assms(1,2)] rep_det [OF assms(3)] by blast

section \<open>Path halving keeps the representatives\<close>

lemma halve_wf:
  assumes "parents_wf p rk" "x < length p" "p ! x \<noteq> x"
  shows "parents_wf (p[x := p ! (p ! x)]) rk"
proof -
  have b: "p ! x < length p" "p ! (p ! x) < length p" and r: "rk ! x < rk ! (p ! x)"
    using assms by (auto simp: parents_wf_def)
  have "rk ! (p ! x) \<le> rk ! (p ! (p ! x))"
    using assms(1) b(1) by (cases "p ! (p ! x) = p ! x") (auto simp: parents_wf_def)
  with assms b r show ?thesis by (auto simp: parents_wf_def nth_list_update)
qed

lemma grandparent_not_self:
  assumes "parents_wf p rk" "x < length p" "p ! x \<noteq> x"
  shows "p ! (p ! x) \<noteq> x"
proof (cases "p ! (p ! x) = p ! x")
  case True
  with assms(3) show ?thesis by simp
next
  case False
  have "rk ! x < rk ! (p ! x)" "rk ! (p ! x) < rk ! (p ! (p ! x))"
    using assms False by (auto simp: parents_wf_def)
  then show ?thesis by auto
qed

lemma halve_rep:
  assumes wf: "parents_wf p rk" and x: "x < length p" "p ! x \<noteq> x"
    and "rep p y r"
  shows "rep (p[x := p ! (p ! x)]) y r"
  using assms(4)
proof (induction rule: rep.induct)
  case (rep_root y)
  with x have "p[x := p ! (p ! x)] ! y = y" by (metis nth_list_update_neq)
  then show ?case by (rule rep.rep_root)
next
  case (rep_step y r)
  let ?q = "p[x := p ! (p ! x)]"
  show ?case
  proof (cases "y = x")
    case False
    then have "?q ! y = p ! y" by simp
    with rep_step show ?thesis by (metis rep.rep_step)
  next
    case True
    have qx: "?q ! x = p ! (p ! x)" using x by simp
    have ns: "p ! (p ! x) \<noteq> x" by (rule grandparent_not_self [OF wf x])
    have px: "?q ! (p ! x) = p ! (p ! x)" using x(2) by simp
    have "rep ?q (p ! (p ! x)) r"
    proof (cases "p ! (p ! x) = p ! x")
      case True
      with rep_step.IH \<open>y = x\<close> show ?thesis by simp
    next
      case False
      from rep_step.IH \<open>y = x\<close> have "rep ?q (p ! x) r" by simp
      with px False show ?thesis by (auto elim: repE)
    qed
    with qx ns \<open>y = x\<close> show ?thesis by (metis rep.rep_step)
  qed
qed

lemma halve_rep_iff:
  assumes wf: "parents_wf p rk" and x: "x < length p" "p ! x \<noteq> x" and y: "y < length p"
  shows "rep (p[x := p ! (p ! x)]) y r \<longleftrightarrow> rep p y r"
proof
  assume q: "rep (p[x := p ! (p ! x)]) y r"
  obtain s where "rep p y s" using rep_exists [OF wf y] by blast
  moreover from this have "rep (p[x := p ! (p ! x)]) y s" by (rule halve_rep [OF wf x])
  ultimately show "rep p y r" using rep_det q by blast
qed (rule halve_rep [OF wf x])

text \<open>
  Total correctness of \<open>find\<close>: it returns, the answer is the representative, and no
  element changes its representative.
\<close>

lemma find_loop_ok:
  assumes "parents_wf p rk" "x < length p"
  shows "\<exists>q r. find_loop p x = Some (q, r) \<and> length q = length p \<and> parents_wf q rk \<and>
               rep p x r \<and> (\<forall>y<length p. \<forall>s. rep q y s \<longleftrightarrow> rep p y s)"
  using assms
proof (induction "climb rk x" arbitrary: p x rule: less_induct)
  case less
  note wf = less.prems(1) and x = less.prems(2)
  show ?case
  proof (cases "p ! x = x")
    case True
    with wf x show ?thesis by (subst find_loop.simps) (auto intro: rep_root)
  next
    case False
    let ?q = "p[x := p ! (p ! x)]" and ?z = "p ! (p ! x)"
    have b: "p ! x < length p" "?z < length p"
      using wf x by (auto simp: parents_wf_def)
    have qwf: "parents_wf ?q rk" by (rule halve_wf [OF wf x False])
    have "climb rk (?q ! x) < climb rk x"
      using climb_less [OF qwf, of x] x grandparent_not_self [OF wf x False] by simp
    then have "climb rk ?z < climb rk x" using x by simp
    from less.hyps [OF this qwf] b obtain q r where IH:
      "find_loop ?q ?z = Some (q, r)" "length q = length p" "parents_wf q rk" "rep ?q ?z r"
      "\<forall>y<length p. \<forall>s. rep q y s \<longleftrightarrow> rep ?q y s"
      by auto
    have "rep ?q x r"
      using IH(4) x grandparent_not_self [OF wf x False] by (metis nth_list_update_eq rep_step)
    then have "rep p x r" using halve_rep_iff [OF wf x False x] by blast
    moreover have "find_loop p x = Some (q, r)"
      using IH(1) False x b by (subst find_loop.simps) simp
    ultimately show ?thesis
      using IH halve_rep_iff [OF wf x False] by blast
  qed
qed

section \<open>Linking two roots\<close>

lemma link_parents_wf:
  assumes wf: "parents_wf p rk" and ab: "a < length p" "b < length p" "p ! a = a" "a \<noteq> b"
    and k: "rk ! b < k" "rk ! a \<le> k"
  shows "parents_wf (p[b := a]) (rk[a := k])"
  unfolding parents_wf_def
proof (intro conjI allI impI)
  show "length (rk[a := k]) = length (p[b := a])" using wf by (simp add: parents_wf_def)
next
  fix i assume i: "i < length (p[b := a])"
  then show "p[b := a] ! i < length (p[b := a])"
    using wf ab by (cases "i = b") (auto simp: parents_wf_def)
next
  fix i assume i: "i < length (p[b := a])" and ne: "p[b := a] ! i \<noteq> i"
  have len: "length rk = length p" using wf by (simp add: parents_wf_def)
  show "rk[a := k] ! i < rk[a := k] ! (p[b := a] ! i)"
  proof (cases "i = b")
    case True
    then show ?thesis using ab k len by simp
  next
    case False
    then have "p ! i \<noteq> i" "i \<noteq> a" using ne ab by auto
    then have "rk ! i < rk ! (p ! i)" using wf i by (simp add: parents_wf_def)
    also have "\<dots> \<le> rk[a := k] ! (p ! i)" using ab k len by (cases "p ! i = a") auto
    finally show ?thesis using False \<open>i \<noteq> a\<close> by simp
  qed
qed

lemma link_rep:
  assumes "p ! a = a" "p ! b = b" "a \<noteq> b" "b < length p"
    and "rep p y r"
  shows "rep (p[b := a]) y (if r = b then a else r)"
  using assms(5)
proof (induction rule: rep.induct)
  case (rep_root y)
  have a: "rep (p[b := a]) a a" using assms by (intro rep.rep_root) simp
  show ?case
  proof (cases "y = b")
    case True
    then show ?thesis using a assms by (auto intro: rep.rep_step)
  next
    case False
    with rep_root show ?thesis by (auto intro: rep.rep_root)
  qed
next
  case (rep_step y r)
  then have "y \<noteq> b" using assms by auto
  with rep_step show ?case by (metis nth_list_update_neq rep.rep_step)
qed

text \<open>The representative as a function, and the partition it induces.\<close>

definition dsu_root :: "dsu \<Rightarrow> nat \<Rightarrow> nat" where
  "dsu_root u x = (case find_loop (parent u) x of None \<Rightarrow> x | Some (_, r) \<Rightarrow> r)"

definition dsu_same :: "dsu \<Rightarrow> (nat \<times> nat) set" where
  "dsu_same u = {(x, y). x < length (parent u) \<and> y < length (parent u) \<and> dsu_root u x = dsu_root u y}"

lemma dsu_root_rep:
  assumes "dsu_wf n u" "x < n" shows "rep (parent u) x (dsu_root u x)"
proof -
  obtain q r where "find_loop (parent u) x = Some (q, r)" "rep (parent u) x r"
    using find_loop_ok assms unfolding dsu_wf_def by blast
  then show ?thesis by (simp add: dsu_root_def)
qed

lemma dsu_root_eq:
  assumes "dsu_wf n u" "x < n" "rep (parent u) x r" shows "dsu_root u x = r"
  using rep_det [OF dsu_root_rep [OF assms(1,2)] assms(3)] .

lemma dsu_root_less:
  assumes "dsu_wf n u" "x < n" shows "dsu_root u x < n"
  using rep_bound [OF _ _ dsu_root_rep [OF assms]] assms by (auto simp: dsu_wf_def)

lemma dsu_find_ok:
  assumes wf: "dsu_wf n u" and x: "x < n"
  shows "\<exists>u'. dsu_find u x = Some (u', dsu_root u x) \<and> dsu_wf n u' \<and> rank u' = rank u \<and>
           (\<forall>y<n. dsu_root u' y = dsu_root u y)"
proof -
  have len: "length (parent u) = n" and pw: "parents_wf (parent u) (rank u)"
    using wf by (auto simp: dsu_wf_def)
  from x len have xl: "x < length (parent u)" by simp
  obtain q r where f: "find_loop (parent u) x = Some (q, r)" "length q = length (parent u)"
      "parents_wf q (rank u)" "rep (parent u) x r"
      "\<forall>y<length (parent u). \<forall>s. rep q y s \<longleftrightarrow> rep (parent u) y s"
    using find_loop_ok [OF pw xl] by blast
  let ?u = "u\<lparr>parent := q\<rparr>"
  have wf': "dsu_wf n ?u" using f len by (simp add: dsu_wf_def)
  have "dsu_root ?u y = dsu_root u y" if y: "y < n" for y
  proof (rule dsu_root_eq [OF wf' y])
    show "rep (parent ?u) y (dsu_root u y)"
      using f(5) y len dsu_root_rep [OF wf y] by simp
  qed
  moreover have "dsu_root u x = r" by (rule dsu_root_eq [OF wf x f(4)])
  ultimately show ?thesis using f(1) wf' by (simp add: dsu_find_def)
qed

lemma link_rank:
  assumes "dsu_wf n u" "a < n" "b < n" "a \<noteq> b" "parent u ! a = a" "parent u ! b = b"
    "rank u ! b \<le> rank u ! a"
    "u' = (if rank u ! a = rank u ! b
           then u\<lparr>parent := (parent u)[b := a], rank := (rank u)[a := rank u ! a + 1]\<rparr>
           else u\<lparr>parent := (parent u)[b := a]\<rparr>)"
  shows "dsu_wf n u'" and "y < n \<Longrightarrow> dsu_root u' y = (if dsu_root u y = b then a else dsu_root u y)"
proof -
  let ?k = "if rank u ! a = rank u ! b then Suc (rank u ! a) else rank u ! a"
  have len: "length (parent u) = n" and pw: "parents_wf (parent u) (rank u)"
    using assms(1) by (auto simp: dsu_wf_def)
  have "parents_wf ((parent u)[b := a]) ((rank u)[a := ?k])"
    using assms(2-7) len by (intro link_parents_wf [OF pw]) auto
  moreover have "parent u' = (parent u)[b := a]" "rank u' = (rank u)[a := ?k]"
    using assms(8) by auto
  ultimately show wf': "dsu_wf n u'" using len by (simp add: dsu_wf_def)
  assume y: "y < n"
  show "dsu_root u' y = (if dsu_root u y = b then a else dsu_root u y)"
  proof (rule dsu_root_eq [OF wf' y])
    show "rep (parent u') y (if dsu_root u y = b then a else dsu_root u y)"
      using link_rep [of "parent u" a b y "dsu_root u y"] assms(2-6) len
        dsu_root_rep [OF assms(1) y] \<open>parent u' = _\<close> by simp
  qed
qed

lemma dsu_link_cases:
  "dsu_link u a b =
     (if rank u ! a < rank u ! b
      then (if rank u ! b = rank u ! a
            then u\<lparr>parent := (parent u)[a := b], rank := (rank u)[b := rank u ! b + 1]\<rparr>
            else u\<lparr>parent := (parent u)[a := b]\<rparr>)
      else (if rank u ! a = rank u ! b
            then u\<lparr>parent := (parent u)[b := a], rank := (rank u)[a := rank u ! a + 1]\<rparr>
            else u\<lparr>parent := (parent u)[b := a]\<rparr>))"
  by (simp add: dsu_link_def Let_def)

lemma dsu_link_ok:
  assumes "dsu_wf n u" "a < n" "b < n" "a \<noteq> b" "parent u ! a = a" "parent u ! b = b"
  shows "dsu_wf n (dsu_link u a b)"
    and "\<exists>w\<in>{a, b}. \<forall>y<n. dsu_root (dsu_link u a b) y =
            (if dsu_root u y \<in> {a, b} then w else dsu_root u y)"
proof -
  have *: "dsu_wf n (dsu_link u a b) \<and> (\<exists>w\<in>{a, b}. \<forall>y<n. dsu_root (dsu_link u a b) y =
            (if dsu_root u y \<in> {a, b} then w else dsu_root u y))"
  proof (cases "rank u ! a < rank u ! b")
    case True
    then have eq: "dsu_link u a b = (if rank u ! b = rank u ! a
            then u\<lparr>parent := (parent u)[a := b], rank := (rank u)[b := rank u ! b + 1]\<rparr>
            else u\<lparr>parent := (parent u)[a := b]\<rparr>)" by (simp add: dsu_link_cases)
    note link = link_rank [OF assms(1,3,2) _ assms(6,5) _ eq]
    from True assms(4) have "dsu_wf n (dsu_link u a b)" by (intro link(1)) auto
    moreover from True assms(4) have "\<forall>y<n. dsu_root (dsu_link u a b) y =
        (if dsu_root u y \<in> {a, b} then b else dsu_root u y)" using link(2) by simp
    ultimately show ?thesis by blast
  next
    case False
    then have eq: "dsu_link u a b = (if rank u ! a = rank u ! b
            then u\<lparr>parent := (parent u)[b := a], rank := (rank u)[a := rank u ! a + 1]\<rparr>
            else u\<lparr>parent := (parent u)[b := a]\<rparr>)" by (simp add: dsu_link_cases)
    note link = link_rank [OF assms(1,2,3) _ assms(5,6) _ eq]
    from False assms(4) have "dsu_wf n (dsu_link u a b)" by (intro link(1)) auto
    moreover from False assms(4) have "\<forall>y<n. dsu_root (dsu_link u a b) y =
        (if dsu_root u y \<in> {a, b} then a else dsu_root u y)" using link(2) by simp
    ultimately show ?thesis by blast
  qed
  from * show "dsu_wf n (dsu_link u a b)" by blast
  from * show "\<exists>w\<in>{a, b}. \<forall>y<n. dsu_root (dsu_link u a b) y =
            (if dsu_root u y \<in> {a, b} then w else dsu_root u y)" by blast
qed

lemma dsu_root_fixed:
  assumes "dsu_wf n u" "x < n" shows "parent u ! dsu_root u x = dsu_root u x"
  by (rule rep_is_root [OF dsu_root_rep [OF assms]])

lemma dsu_same_iff:
  "dsu_wf n u \<Longrightarrow> (x, y) \<in> dsu_same u \<longleftrightarrow> x < n \<and> y < n \<and> dsu_root u x = dsu_root u y"
  by (simp add: dsu_same_def dsu_wf_def)

lemma dsu_root_idem:
  assumes "dsu_wf n u" "x < n" shows "dsu_root u (dsu_root u x) = dsu_root u x"
proof (rule dsu_root_eq [OF assms(1) dsu_root_less [OF assms]])
  show "rep (parent u) (dsu_root u x) (dsu_root u x)"
    by (rule rep_root) (rule dsu_root_fixed [OF assms])
qed

text \<open>\<open>union\<close> returns, keeps the invariant and merges exactly the two classes.\<close>

lemma dsu_union_ok:
  assumes wf: "dsu_wf n u" and x: "x < n" and y: "y < n"
  shows "\<exists>u'. dsu_union u x y = Some u' \<and> dsu_wf n u' \<and>
           dsu_same u' = {(a, b). a < n \<and> b < n \<and>
             ((a, b) \<in> dsu_same u \<or> (a, x) \<in> dsu_same u \<and> (y, b) \<in> dsu_same u
                                  \<or> (a, y) \<in> dsu_same u \<and> (x, b) \<in> dsu_same u)}"
proof -
  obtain u1 where u1: "dsu_find u x = Some (u1, dsu_root u x)" "dsu_wf n u1"
      "\<forall>z<n. dsu_root u1 z = dsu_root u z"
    using dsu_find_ok [OF wf x] by blast
  obtain u2 where u2: "dsu_find u1 y = Some (u2, dsu_root u1 y)" "dsu_wf n u2"
      "\<forall>z<n. dsu_root u2 z = dsu_root u1 z"
    using dsu_find_ok [OF u1(2) y] by blast
  let ?rx = "dsu_root u x" and ?ry = "dsu_root u y"
  have same2: "\<forall>z<n. dsu_root u2 z = dsu_root u z" using u1(3) u2(3) by simp
  show ?thesis
  proof (cases "?rx = ?ry")
    case True
    then have "dsu_union u x y = Some u2" using u1 u2 y by (simp add: dsu_union_def)
    moreover have "dsu_same u2 = {(a, b). a < n \<and> b < n \<and>
        ((a, b) \<in> dsu_same u \<or> (a, x) \<in> dsu_same u \<and> (y, b) \<in> dsu_same u
                             \<or> (a, y) \<in> dsu_same u \<and> (x, b) \<in> dsu_same u)}"
      using True x y same2 by (auto simp: dsu_same_iff [OF wf] dsu_same_iff [OF u2(2)])
    ultimately show ?thesis using u2(2) by blast
  next
    case False
    have roots: "parent u2 ! ?rx = ?rx" "parent u2 ! ?ry = ?ry"
      using dsu_root_fixed [OF u2(2) x] dsu_root_fixed [OF u2(2) y] same2 x y by simp_all
    note link = dsu_link_ok [OF u2(2) dsu_root_less [OF wf x] dsu_root_less [OF wf y] False roots]
    let ?u' = "dsu_link u2 ?rx ?ry"
    from link(2) obtain w where w2: "w \<in> {?rx, ?ry}"
        "\<forall>z<n. dsu_root ?u' z = (if dsu_root u2 z \<in> {?rx, ?ry} then w else dsu_root u2 z)" by blast
    then have w: "\<forall>z<n. dsu_root ?u' z = (if dsu_root u z \<in> {?rx, ?ry} then w else dsu_root u z)"
      using same2 by simp
    have "dsu_union u x y = Some ?u'" using False u1 u2 y by (simp add: dsu_union_def)
    moreover have "dsu_same ?u' = {(a, b). a < n \<and> b < n \<and>
        ((a, b) \<in> dsu_same u \<or> (a, x) \<in> dsu_same u \<and> (y, b) \<in> dsu_same u
                             \<or> (a, y) \<in> dsu_same u \<and> (x, b) \<in> dsu_same u)}" (is "_ = ?R")
    proof (rule set_eqI)
      fix p :: "nat \<times> nat"
      obtain a b where p: "p = (a, b)" by force
      show "p \<in> dsu_same ?u' \<longleftrightarrow> p \<in> ?R"
      proof (cases "a < n \<and> b < n")
        case True
        then have ra: "dsu_root ?u' a = (if dsu_root u a \<in> {?rx, ?ry} then w else dsu_root u a)"
          and rb: "dsu_root ?u' b = (if dsu_root u b \<in> {?rx, ?ry} then w else dsu_root u b)"
          using w by blast+
        have "w = ?rx \<or> w = ?ry" using w2(1) by simp
        with True x y False show ?thesis
          unfolding p
          by (elim disjE) (auto simp: dsu_same_iff [OF wf] dsu_same_iff [OF link(1)] ra rb)
      next
        case False
        then show ?thesis by (auto simp: p dsu_same_iff [OF link(1)])
      qed
    qed
    ultimately show ?thesis using link(1) by blast
  qed
qed

interpretation dsu: union_find dsu_find dsu_union dsu_wf dsu_same dsu_root
proof unfold_locales
  fix n u x assume "dsu_wf n u" "x < n"
  then show "\<exists>u'. dsu_find u x = Some (u', dsu_root u x) \<and> dsu_wf n u' \<and>
               (\<forall>y<n. dsu_root u' y = dsu_root u y)"
    using dsu_find_ok by blast
qed (erule (1) dsu_root_less, erule dsu_same_iff, erule (2) dsu_union_ok)

lemma dsu_same_init: "dsu_same (dsu_init n) = {(x, x) |x. x < n}"
proof -
  have "dsu_root (dsu_init n) x = x" if "x < n" for x
    using that by (intro dsu_root_eq [OF dsu_wf_init]) (auto simp: dsu_init_def intro: rep_root)
  then show ?thesis by (auto simp: dsu_same_iff [OF dsu_wf_init])
qed

section \<open>A run of unions\<close>

fun dsu_unions :: "(nat \<times> nat) list \<Rightarrow> dsu \<Rightarrow> dsu option" where
  "dsu_unions [] u = Some u"
| "dsu_unions ((x, y) # ps) u = (case dsu_union u x y of None \<Rightarrow> None | Some u' \<Rightarrow> dsu_unions ps u')"

lemma dsu_unions_ok:
  assumes "dsu_wf n u" "\<forall>p\<in>set ps. fst p < n \<and> snd p < n" "sym E" "E \<subseteq> {..<n} \<times> {..<n}"
    and "dsu_same u = {(a, b). a < n \<and> b < n \<and> (a, b) \<in> E\<^sup>*}"
  shows "\<exists>u'. dsu_unions ps u = Some u' \<and> dsu_wf n u' \<and>
     dsu_same u' = {(a, b). a < n \<and> b < n \<and> (a, b) \<in> (E \<union> set ps \<union> (set ps)\<inverse>)\<^sup>*}"
  using assms
proof (induction ps arbitrary: u E)
  case Nil
  then show ?case by auto
next
  case (Cons p ps)
  obtain x y where p: "p = (x, y)" by force
  with Cons.prems have xy: "x < n" "y < n" by auto
  let ?E = "E \<union> {(x, y), (y, x)}"
  obtain u1 where u1: "dsu_union u x y = Some u1" "dsu_wf n u1"
      "dsu_same u1 = {(a, b). a < n \<and> b < n \<and>
             ((a, b) \<in> dsu_same u \<or> (a, x) \<in> dsu_same u \<and> (y, b) \<in> dsu_same u
                                  \<or> (a, y) \<in> dsu_same u \<and> (x, b) \<in> dsu_same u)}"
    using dsu_union_ok [OF Cons.prems(1) xy] by blast
  have s1: "dsu_same u1 = {(a, b). a < n \<and> b < n \<and> (a, b) \<in> ?E\<^sup>*}"
    unfolding u1(3) rtrancl_insert_edge Cons.prems(5) using xy by auto
  have "sym ?E" "?E \<subseteq> {..<n} \<times> {..<n}"
    using Cons.prems(3,4) xy by (auto simp: sym_def)
  from Cons.IH [OF u1(2) _ this s1] Cons.prems(2) obtain u2 where
    u2: "dsu_unions ps u1 = Some u2" "dsu_wf n u2"
      "dsu_same u2 = {(a, b). a < n \<and> b < n \<and> (a, b) \<in> (?E \<union> set ps \<union> (set ps)\<inverse>)\<^sup>*}"
    by auto
  moreover have "?E \<union> set ps \<union> (set ps)\<inverse> = E \<union> set (p # ps) \<union> (set (p # ps))\<inverse>"
    by (auto simp: p)
  ultimately show ?case using u1(1) p by auto
qed

text \<open>
  C5: union-find answers connectivity: from \<open>parent = list(range(n))\<close>, \<open>rank = [0] * n\<close>, any
  run of \<open>union\<close> calls on elements returns (path halving always ends), and afterwards every
  \<open>find\<close> returns, with two elements having the same root exactly when the pairs united connect
  them.
\<close>

theorem union_find_connectivity:
  assumes "\<forall>p\<in>set ps. fst p < n \<and> snd p < n"
  shows "\<exists>u. dsu_unions ps (dsu_init n) = Some u \<and>
     (\<forall>x<n. \<forall>y<n. \<exists>u1 rx u2 ry. dsu_find u x = Some (u1, rx) \<and> dsu_find u1 y = Some (u2, ry) \<and>
        (rx = ry \<longleftrightarrow> (x, y) \<in> (set ps \<union> (set ps)\<inverse>)\<^sup>*))"
proof -
  have "dsu_same (dsu_init n) = {(a, b). a < n \<and> b < n \<and> (a, b) \<in> {}\<^sup>*}"
    by (auto simp: dsu_same_init)
  from dsu_unions_ok [OF dsu_wf_init assms _ _ this] obtain u where
    u: "dsu_unions ps (dsu_init n) = Some u" "dsu_wf n u"
      "dsu_same u = {(a, b). a < n \<and> b < n \<and> (a, b) \<in> (set ps \<union> (set ps)\<inverse>)\<^sup>*}"
    by (auto simp: sym_def)
  have "\<exists>u1 rx u2 ry. dsu_find u x = Some (u1, rx) \<and> dsu_find u1 y = Some (u2, ry) \<and>
        (rx = ry \<longleftrightarrow> (x, y) \<in> (set ps \<union> (set ps)\<inverse>)\<^sup>*)" if xy: "x < n" "y < n" for x y
  proof -
    obtain u1 where u1: "dsu_find u x = Some (u1, dsu_root u x)" "dsu_wf n u1"
        "\<forall>z<n. dsu_root u1 z = dsu_root u z"
      using dsu.find_ok [OF u(2) xy(1)] by blast
    obtain u2 where u2: "dsu_find u1 y = Some (u2, dsu_root u1 y)"
      using dsu.find_ok [OF u1(2) xy(2)] by blast
    have "dsu_root u x = dsu_root u y \<longleftrightarrow> (x, y) \<in> (set ps \<union> (set ps)\<inverse>)\<^sup>*"
      using dsu.same_root [OF u(2), of x y] u(3) xy by auto
    with u1 u2 xy(2) show ?thesis by auto
  qed
  with u(1) show ?thesis by auto
qed

lemma union_find_connectivity_witness:
  "\<exists>u. dsu_unions [(0, 1), (2, 1)] (dsu_init 4) = Some u \<and>
     (\<forall>x<4. \<forall>y<4. \<exists>u1 rx u2 ry. dsu_find u x = Some (u1, rx) \<and> dsu_find u1 y = Some (u2, ry) \<and>
        (rx = ry \<longleftrightarrow> (x, y) \<in> (set [(0, 1), (2, 1)] \<union> (set [(0, 1), (2, 1)])\<inverse>)\<^sup>*))"
  by (rule union_find_connectivity) simp

end
