(* ===== verification/Grouping.thy ===== *)
theory Grouping
  imports Complex_Main UnionFind Json
begin

text \<open>
  Grouping of advisories that share an identifier.
  \<^item> \<open>vulnerabilities/pipes/group_advisories.py\<close>: \<open>get_merged_identifier_groups\<close> (union-find),
    \<open>merge_advisories\<close>, \<open>compute_advisory_content_hash\<close>;
  \<^item> \<open>vulnerabilities/utils.py\<close>: the older \<open>get_merged_identifier_groups\<close> (repeated scan of a
    list of sets), here \<open>scan_identifier_groups\<close>.
  Both are shown to return the connected components of the relation "shares an identifier".
\<close>

section \<open>Data\<close>

text \<open>
  Rows of \<open>AdvisoryAlias\<close>, \<open>ImpactedPackage\<close> (its base purl and the package URLs it relates)
  and \<open>AdvisoryV2\<close>, with the fields the grouping reads; \<open>Group\<close> is the named tuple of
  \<open>vulnerabilities/models.py\<close>.
\<close>

record alias_row =
  alias_pk :: nat
  alias_name :: string

record impact_row =
  base_purl :: string
  affecting_packages :: "string list"
  fixed_by_packages :: "string list"

record adv_row =
  adv_pk :: nat
  advisory_id :: string
  precedence :: "int option"
  adv_aliases :: "alias_row list"
  impacted_packages :: "impact_row list"
  avid :: string
  is_latest :: bool
  all_impacts_unfurled :: bool
  weighted_severity :: "rat option"
  exploitability :: "rat option"

record group =
  grp_aliases :: "alias_row set"
  primary :: adv_row
  secondaries :: "adv_row list"

type_synonym alias_map = "(nat \<times> alias_row list) list"

text \<open>\<open>a.precedence if a.precedence is not None else -1\<close>\<close>

definition precedence_key :: "adv_row \<Rightarrow> int" where
  "precedence_key a = (case precedence a of None \<Rightarrow> -1 | Some p \<Rightarrow> p)"

definition identifiers_of :: "alias_map \<Rightarrow> adv_row \<Rightarrow> string list" where
  "identifiers_of amap adv = advisory_id adv # map alias_name (dict_get amap (adv_pk adv) [])"

section \<open>The union-find grouping\<close>

text \<open>One pass of the inner loop: union with the first owner of the identifier, or own it.\<close>

fun link_step :: "('u \<Rightarrow> nat \<Rightarrow> nat \<Rightarrow> 'u option) \<Rightarrow> nat \<times> string \<Rightarrow>
    (string \<times> nat) list \<times> 'u \<Rightarrow> ((string \<times> nat) list \<times> 'u) option" where
  "link_step un (i, ident) (d, u) =
     (case map_of d ident of
        Some j \<Rightarrow> map_option (\<lambda>u'. (d, u')) (un u i j)
      | None \<Rightarrow> Some (AList.update ident i d, u))"

fun link_all :: "('u \<Rightarrow> nat \<Rightarrow> nat \<Rightarrow> 'u option) \<Rightarrow> (nat \<times> string) list \<Rightarrow>
    (string \<times> nat) list \<times> 'u \<Rightarrow> ((string \<times> nat) list \<times> 'u) option" where
  "link_all un [] s = Some s"
| "link_all un (p # ps) s = (case link_step un p s of None \<Rightarrow> None | Some s' \<Rightarrow> link_all un ps s')"

text \<open>\<open>root_to_group[find(i)].append(adv)\<close> over \<open>enumerate(advisories)\<close>.\<close>

fun root_groups :: "('u \<Rightarrow> nat \<Rightarrow> ('u \<times> nat) option) \<Rightarrow> (nat \<times> 'a) list \<Rightarrow> 'u \<Rightarrow>
    (nat \<times> (nat \<times> 'a) list) list \<Rightarrow> (nat \<times> (nat \<times> 'a) list) list option" where
  "root_groups fd [] u g = Some g"
| "root_groups fd ((i, a) # xs) u g =
     (case fd u i of None \<Rightarrow> None | Some (u', r) \<Rightarrow> root_groups fd xs u' (dd_append r (i, a) g))"

text \<open>
  The index that \<open>enumerate\<close> gives stands for the object's identity: \<open>a is not primary\<close> compares
  positions.
\<close>

definition make_group :: "alias_map \<Rightarrow> (nat \<times> adv_row) list \<Rightarrow> group option" where
  "make_group amap members =
     (case py_max (\<lambda>m. precedence_key (snd m)) members of
        None \<Rightarrow> None
      | Some p \<Rightarrow> Some \<lparr>
          grp_aliases = (\<Union>m\<in>set members. set (dict_get amap (adv_pk (snd m)) [])),
          primary = snd p,
          secondaries = map snd (filter (\<lambda>m. fst m \<noteq> fst p) members)\<rparr>)"

fun map_option_list :: "('a \<Rightarrow> 'b option) \<Rightarrow> 'a list \<Rightarrow> 'b list option" where
  "map_option_list f [] = Some []"
| "map_option_list f (x # xs) =
     (case f x of None \<Rightarrow> None | Some y \<Rightarrow> map_option ((#) y) (map_option_list f xs))"

definition ident_pairs :: "alias_map \<Rightarrow> adv_row list \<Rightarrow> (nat \<times> string) list" where
  "ident_pairs amap advs =
     concat (map (\<lambda>(i, adv). map (\<lambda>t. (i, t)) (identifiers_of amap adv)) (enumerate 0 advs))"

definition get_merged_identifier_groups :: "adv_row list \<Rightarrow> alias_map \<Rightarrow> group list option" where
  "get_merged_identifier_groups advs amap =
     (if advs = [] then Some []
      else case link_all dsu_union (ident_pairs amap advs) ([], dsu_init (length advs)) of
             None \<Rightarrow> None
           | Some (_, u) \<Rightarrow>
               (case root_groups dsu_find (enumerate 0 advs) u [] of
                  None \<Rightarrow> None
                | Some g \<Rightarrow> map_option_list (make_group amap) (dict_values g)))"

section \<open>What the linking loop computes\<close>

definition share :: "('i \<times> 't) set \<Rightarrow> ('i \<times> 'i) set" where
  "share P = {(a, b). \<exists>t. (a, t) \<in> P \<and> (b, t) \<in> P}"

lemma share_insert_fresh: "t \<notin> snd ` P \<Longrightarrow> (share (insert (i, t) P))\<^sup>* = (share P)\<^sup>*"
proof (rule subset_antisym)
  assume "t \<notin> snd ` P"
  then have "share (insert (i, t) P) \<subseteq> (share P)\<^sup>="
    by (auto simp: share_def image_iff)
  then show "(share (insert (i, t) P))\<^sup>* \<subseteq> (share P)\<^sup>*"
    by (metis rtrancl_mono rtrancl_reflcl)
  show "(share P)\<^sup>* \<subseteq> (share (insert (i, t) P))\<^sup>*"
    by (rule rtrancl_mono) (auto simp: share_def)
qed

lemma share_insert_owned:
  assumes "(k, t) \<in> P"
  shows "(share (insert (i, t) P))\<^sup>* = (share P \<union> {(i, k), (k, i)})\<^sup>*"
proof (rule subset_antisym)
  let ?Q = "(share P \<union> {(i, k), (k, i)})\<^sup>*"
  have k: "(k, j) \<in> ?Q \<and> (j, k) \<in> ?Q" if "(j, t) \<in> P" for j
    using that assms by (auto simp: share_def intro!: r_into_rtrancl)
  have ik: "(i, k) \<in> ?Q" "(k, i) \<in> ?Q" by auto
  have "(a, b) \<in> ?Q" if "(a, b) \<in> share (insert (i, t) P)" for a b
  proof -
    from that obtain s where s: "(a, s) \<in> insert (i, t) P" "(b, s) \<in> insert (i, t) P"
      by (auto simp: share_def)
    show ?thesis
    proof (cases "s = t")
      case True
      with s k ik have "(a, k) \<in> ?Q" "(k, b) \<in> ?Q" by auto
      then show ?thesis by (rule rtrancl_trans)
    next
      case False
      with s have "(a, b) \<in> share P" by (auto simp: share_def)
      then show ?thesis by auto
    qed
  qed
  then have "share (insert (i, t) P) \<subseteq> ?Q" by auto
  then show "(share (insert (i, t) P))\<^sup>* \<subseteq> ?Q"
    by (rule rtrancl_subset_rtrancl)
  show "?Q \<subseteq> (share (insert (i, t) P))\<^sup>*"
    by (rule rtrancl_mono) (use assms in \<open>auto simp: share_def\<close>)
qed

lemma share_mono: "P \<subseteq> Q \<Longrightarrow> (share P)\<^sup>* \<subseteq> (share Q)\<^sup>*"
  by (rule rtrancl_mono) (auto simp: share_def)

lemma sym_share: "sym (share P)"
  by (auto simp: sym_def share_def)

lemma sym_share_rtrancl: "(a, b) \<in> (share P)\<^sup>* \<Longrightarrow> (b, a) \<in> (share P)\<^sup>*"
  using sym_rtrancl [OF sym_share] by (rule symD)

text \<open>
  The loop invariant: the dictionary maps every identifier seen to an index that has it, and the
  structure's classes are the components of the identifiers seen.
\<close>

definition linked :: "nat \<Rightarrow> ('u \<Rightarrow> (nat \<times> nat) set) \<Rightarrow> (nat \<times> string) set \<Rightarrow>
    (string \<times> nat) list \<times> 'u \<Rightarrow> bool" where
  "linked n same P s \<longleftrightarrow>
     (\<forall>t k. map_of (fst s) t = Some k \<longrightarrow> (k, t) \<in> P \<and> k < n) \<and>
     (\<forall>i t. (i, t) \<in> P \<longrightarrow> map_of (fst s) t \<noteq> None) \<and>
     same (snd s) = {(a, b). a < n \<and> b < n \<and> (a, b) \<in> (share P)\<^sup>*}"

lemma linked_init: "same u = {(x, x) |x. x < n} \<Longrightarrow> linked n same {} ([], u)"
  by (auto simp: linked_def share_def)

context union_find
begin

lemma link_step_ok:
  assumes inv: "inv n u" and i: "i < n" and lk: "linked n same P (d, u)"
  shows "\<exists>d' u'. link_step union (i, t) (d, u) = Some (d', u') \<and> inv n u' \<and>
           linked n same (insert (i, t) P) (d', u')"
proof (cases "map_of d t")
  case None
  have fresh: "t \<notin> snd ` P"
  proof
    assume "t \<in> snd ` P"
    then obtain j where "(j, t) \<in> P" by auto
    then have "map_of d t \<noteq> None" using lk unfolding linked_def fst_conv by blast
    with None show False by simp
  qed
  have "linked n same (insert (i, t) P) (AList.update t i d, u)"
    using lk i fresh share_insert_fresh [OF fresh, of i]
    by (auto simp: linked_def split: if_splits)
  then show ?thesis using None inv by auto
next
  case (Some k)
  with lk have k: "(k, t) \<in> P" "k < n" by (auto simp: linked_def)
  obtain u' where u': "union u i k = Some u'" "inv n u'"
    "same u' = {(a, b). a < n \<and> b < n \<and> ((a, b) \<in> same u \<or> (a, i) \<in> same u \<and> (k, b) \<in> same u
                                        \<or> (a, k) \<in> same u \<and> (i, b) \<in> same u)}"
    using union_ok [OF inv i k(2)] by blast
  have "same u' = {(a, b). a < n \<and> b < n \<and> (a, b) \<in> (share (insert (i, t) P))\<^sup>*}"
    unfolding u'(3) share_insert_owned [OF k(1)] rtrancl_insert_edge
    using lk i k(2) by (auto simp: linked_def)
  then have "linked n same (insert (i, t) P) (d, u')"
    using lk Some by (auto simp: linked_def)
  then show ?thesis using Some u' by auto
qed

lemma link_all_ok:
  assumes "inv n u" "linked n same P (d, u)" "\<forall>p\<in>set ps. fst p < n"
  shows "\<exists>d' u'. link_all union ps (d, u) = Some (d', u') \<and> inv n u' \<and>
           linked n same (P \<union> set ps) (d', u')"
  using assms
proof (induction ps arbitrary: P d u)
  case Nil
  then show ?case by auto
next
  case (Cons p ps)
  obtain i t where p: "p = (i, t)" by force
  obtain d1 u1 where s: "link_step union (i, t) (d, u) = Some (d1, u1)" "inv n u1"
      "linked n same (insert (i, t) P) (d1, u1)"
    using link_step_ok Cons.prems p by (metis fst_conv list.set_intros(1))
  then obtain d2 u2 where "link_all union ps (d1, u1) = Some (d2, u2)" "inv n u2"
      "linked n same (insert (i, t) P \<union> set ps) (d2, u2)"
    using Cons.IH [of u1 "insert (i, t) P" d1] Cons.prems by auto
  with s p show ?case by auto
qed

lemma root_groups_ok:
  assumes "inv n u" "\<forall>x\<in>set xs. fst x < n" "\<forall>y<n. root u y = root u0 y"
  shows "root_groups find xs u g = Some (fold (\<lambda>x. dd_append (root u0 (fst x)) x) xs g)"
  using assms
proof (induction xs arbitrary: u g)
  case Nil
  then show ?case by simp
next
  case (Cons x xs)
  obtain i a where x: "x = (i, a)" by force
  with Cons.prems have i: "i < n" by simp
  obtain u' where "find u i = Some (u', root u i)" "inv n u'" "\<forall>y<n. root u' y = root u y"
    using find_ok [OF Cons.prems(1) i] by blast
  with Cons x i show ?case by auto
qed

lemma root_groups_group_by:
  assumes "inv n u" "\<forall>x\<in>set xs. fst x < n"
  shows "root_groups find xs u [] = Some (group_by (\<lambda>x. root u (fst x)) xs)"
  unfolding group_by_def using root_groups_ok [OF assms, of u] by simp

end

section \<open>The groups it returns\<close>

text \<open>The advisories of a group, its primary first.\<close>

definition group_members :: "group \<Rightarrow> adv_row list" where
  "group_members g = primary g # secondaries g"

lemma mem_ident_pairs:
  "(i, t) \<in> set (ident_pairs amap advs) \<longleftrightarrow>
     i < length advs \<and> t \<in> set (identifiers_of amap (advs ! i))"
proof -
  have "(i, t) \<in> set (ident_pairs amap advs) \<longleftrightarrow>
      (\<exists>a. (i, a) \<in> set (enumerate 0 advs) \<and> t \<in> set (identifiers_of amap a))"
    unfolding ident_pairs_def by (auto split: prod.splits)
  then show ?thesis by (auto simp: in_set_enumerate_eq)
qed

lemma merged_groups_classes:
  "\<exists>key. get_merged_identifier_groups advs amap =
       map_option_list (make_group amap) (dict_values (group_by (\<lambda>x. key (fst x)) (enumerate 0 advs))) \<and>
     (\<forall>i<length advs. \<forall>j<length advs. (key i :: nat) = key j \<longleftrightarrow>
        (i, j) \<in> (share (set (ident_pairs amap advs)))\<^sup>*)"
proof (cases "advs = []")
  case True
  then show ?thesis by (simp add: get_merged_identifier_groups_def group_by_def dict_values_def)
next
  case False
  let ?n = "length advs" and ?ps = "ident_pairs amap advs"
  have b: "\<forall>p\<in>set ?ps. fst p < ?n" using mem_ident_pairs by auto
  have "linked ?n dsu_same {} ([], dsu_init ?n)"
    by (rule linked_init) (rule dsu_same_init)
  from dsu.link_all_ok [OF dsu_wf_init this b] obtain d u where
    u: "link_all dsu_union ?ps ([], dsu_init ?n) = Some (d, u)" "dsu_wf ?n u"
       "linked ?n dsu_same (set ?ps) (d, u)" by auto
  have e: "\<forall>x\<in>set (enumerate 0 advs). fst x < ?n" by (auto simp: enumerate_eq_zip set_zip)
  note g = dsu.root_groups_group_by [OF u(2) e]
  have "get_merged_identifier_groups advs amap =
     map_option_list (make_group amap)
       (dict_values (group_by (\<lambda>x. dsu_root u (fst x)) (enumerate 0 advs)))"
    using False u(1) g by (simp add: get_merged_identifier_groups_def)
  moreover have "dsu_root u i = dsu_root u j \<longleftrightarrow> (i, j) \<in> (share (set ?ps))\<^sup>*"
    if "i < ?n" "j < ?n" for i j
  proof -
    have "dsu_root u i = dsu_root u j \<longleftrightarrow> (i, j) \<in> dsu_same u"
      using that by (simp add: dsu_same_iff [OF u(2)])
    also have "\<dots> \<longleftrightarrow> (i, j) \<in> (share (set ?ps))\<^sup>*"
      using u(3) that by (simp add: linked_def)
    finally show ?thesis .
  qed
  ultimately show ?thesis by (intro exI [of _ "dsu_root u"]) simp
qed

text \<open>What a group says of the (indexed) advisories it was made of.\<close>

definition group_for :: "alias_map \<Rightarrow> (nat \<times> adv_row) list \<Rightarrow> group \<Rightarrow> bool" where
  "group_for amap ms g \<longleftrightarrow> mset (group_members g) = mset (map snd ms) \<and>
     (\<forall>m\<in>set ms. precedence_key (snd m) \<le> precedence_key (primary g)) \<and>
     grp_aliases g = (\<Union>m\<in>set ms. set (dict_get amap (adv_pk (snd m)) []))"

lemma make_group_ok:
  assumes "ms \<noteq> []" "distinct (map fst ms)"
  shows "\<exists>g. make_group amap ms = Some g \<and> group_for amap ms g"
proof -
  obtain p where p: "py_max (\<lambda>m. precedence_key (snd m)) ms = Some p"
    using assms(1) py_max_None by (metis not_None_eq)
  have pin: "p \<in> set ms" by (rule py_max_in [OF p])
  have "mset ms = add_mset p (mset (filter (\<lambda>m. fst m \<noteq> fst p) ms))"
    using pin assms(2)
  proof (induction ms)
    case (Cons m ms)
    show ?case
    proof (cases "m = p")
      case True
      with Cons.prems have "filter (\<lambda>m. fst m \<noteq> fst p) ms = ms"
        by (auto simp: filter_id_conv image_iff)
      with True show ?thesis by simp
    next
      case False
      with Cons.prems have "p \<in> set ms" "fst m \<noteq> fst p" by (auto simp: image_iff)
      with Cons show ?thesis by simp
    qed
  qed simp
  then have "mset (map snd ms) = add_mset (snd p) (mset (map snd (filter (\<lambda>m. fst m \<noteq> fst p) ms)))"
    by (metis image_mset_add_mset mset_map)
  then show ?thesis
    using p py_max_ge [OF p] by (simp add: make_group_def group_members_def group_for_def)
qed

lemma map_option_list_Some:
  "(\<And>x. x \<in> set xs \<Longrightarrow> \<exists>y. f x = Some y \<and> P x y) \<Longrightarrow>
   \<exists>ys. map_option_list f xs = Some ys \<and> list_all2 P xs ys"
proof (induction xs)
  case (Cons x xs)
  then obtain y ys where "f x = Some y" "P x y" "map_option_list f xs = Some ys" "list_all2 P xs ys"
    by (metis list.set_intros)
  then show ?case by auto
qed simp

lemma group_by_enum_distinct:
  assumes "ys \<in> set (dict_values (group_by key (enumerate 0 advs)))"
  shows "ys \<noteq> []" "distinct (map fst ys)"
proof -
  show "ys \<noteq> []" using assms by (rule group_by_values_nonempty)
  from assms obtain x where "ys = filter (\<lambda>y. key y = key x) (enumerate 0 advs)"
    by (auto simp: group_by_values)
  moreover have "distinct (map fst (enumerate 0 advs))" by simp
  ultimately show "distinct (map fst ys)" by (simp only: distinct_map_filter)
qed

text \<open>
  The groups, one for one with the classes of the indices: their members, their primaries.
\<close>

lemma merged_groups_ok:
  "\<exists>key gs. get_merged_identifier_groups advs amap = Some gs \<and>
     list_all2 (group_for amap)
       (dict_values (group_by (\<lambda>x. key (fst x)) (enumerate 0 advs))) gs \<and>
     (\<forall>i<length advs. \<forall>j<length advs. (key i :: nat) = key j \<longleftrightarrow>
        (i, j) \<in> (share (set (ident_pairs amap advs)))\<^sup>*)"
proof -
  obtain key where k: "get_merged_identifier_groups advs amap =
       map_option_list (make_group amap) (dict_values (group_by (\<lambda>x. key (fst x)) (enumerate 0 advs)))"
     "\<forall>i<length advs. \<forall>j<length advs. (key i :: nat) = key j \<longleftrightarrow>
        (i, j) \<in> (share (set (ident_pairs amap advs)))\<^sup>*"
    using merged_groups_classes by blast
  have "\<exists>gs. map_option_list (make_group amap)
          (dict_values (group_by (\<lambda>x. key (fst x)) (enumerate 0 advs))) = Some gs \<and>
        list_all2 (group_for amap)
       (dict_values (group_by (\<lambda>x. key (fst x)) (enumerate 0 advs))) gs"
    by (rule map_option_list_Some) (rule make_group_ok, (erule group_by_enum_distinct)+)
  with k show ?thesis by (intro exI [of _ key]) auto
qed

section \<open>Components of advisories\<close>

text \<open>Two advisories are linked when they have an identifier in common.\<close>

definition linked_advs :: "alias_map \<Rightarrow> adv_row list \<Rightarrow> (adv_row \<times> adv_row) set" where
  "linked_advs amap advs = {(a, b). a \<in> set advs \<and> b \<in> set advs \<and>
     set (identifiers_of amap a) \<inter> set (identifiers_of amap b) \<noteq> {}}"

lemma share_ident_pairs:
  "share (set (ident_pairs amap advs)) = {(i, j). i < length advs \<and> j < length advs \<and>
     set (identifiers_of amap (advs ! i)) \<inter> set (identifiers_of amap (advs ! j)) \<noteq> {}}"
  by (auto simp: share_def mem_ident_pairs)

lemma index_component:
  assumes d: "distinct advs" and ij: "i < length advs" "j < length advs"
  shows "(i, j) \<in> (share (set (ident_pairs amap advs)))\<^sup>* \<longleftrightarrow>
         (advs ! i, advs ! j) \<in> (linked_advs amap advs)\<^sup>*"
proof
  assume "(i, j) \<in> (share (set (ident_pairs amap advs)))\<^sup>*"
  then show "(advs ! i, advs ! j) \<in> (linked_advs amap advs)\<^sup>*"
    by (rule rtrancl_image) (auto simp: share_ident_pairs linked_advs_def)
next
  let ?g = "the_inv_into {..<length advs} ((!) advs)"
  have inj: "inj_on ((!) advs) {..<length advs}"
    using d by (simp add: inj_on_nth)
  have inv: "?g (advs ! k) = k" if "k < length advs" for k
    using that by (intro the_inv_into_f_f [OF inj]) simp
  assume "(advs ! i, advs ! j) \<in> (linked_advs amap advs)\<^sup>*"
  then have "(?g (advs ! i), ?g (advs ! j)) \<in> (share (set (ident_pairs amap advs)))\<^sup>*"
  proof (rule rtrancl_image)
    fix a b assume "(a, b) \<in> linked_advs amap advs"
    then show "(?g a, ?g b) \<in> share (set (ident_pairs amap advs))"
      by (auto simp: linked_advs_def share_ident_pairs in_set_conv_nth inv)
  qed
  then show "(i, j) \<in> (share (set (ident_pairs amap advs)))\<^sup>*"
    using ij by (simp add: inv)
qed

lemma group_by_enum_members:
  "ms \<in> set (dict_values (group_by (\<lambda>x. key (fst x)) (enumerate 0 advs))) \<longleftrightarrow>
     (\<exists>i<length advs. ms = filter (\<lambda>x. key (fst x) = key i) (enumerate 0 advs))"
  unfolding group_by_values
  by (rule bex_enumerate [where Q = "\<lambda>i. ms = filter (\<lambda>x. key (fst x) = key i) (enumerate 0 advs)"])

text \<open>The member sets of the result are exactly the components.\<close>

lemma merged_groups_components:
  assumes d: "distinct advs"
  shows "\<exists>gs. get_merged_identifier_groups advs amap = Some gs \<and>
     set (map (\<lambda>g. set (group_members g)) gs) =
       (\<lambda>a. (linked_advs amap advs)\<^sup>* `` {a}) ` set advs"
proof -
  obtain key gs where g: "get_merged_identifier_groups advs amap = Some gs"
     "list_all2 (group_for amap)
       (dict_values (group_by (\<lambda>x. key (fst x)) (enumerate 0 advs))) gs"
     and key: "\<forall>i<length advs. \<forall>j<length advs. (key i :: nat) = key j \<longleftrightarrow>
        (i, j) \<in> (share (set (ident_pairs amap advs)))\<^sup>*"
    using merged_groups_ok by blast
  let ?mss = "dict_values (group_by (\<lambda>x. key (fst x)) (enumerate 0 advs))"
  let ?R = "(linked_advs amap advs)\<^sup>*"
  have "map (\<lambda>g. set (group_members g)) gs = map (\<lambda>ms. set (map snd ms)) ?mss"
    using g(2)
  proof (induction rule: list_all2_induct)
    case (Cons ms mss g gs)
    then show ?case by (metis group_for_def list.simps(9) set_mset_mset)
  qed simp
  then have "set (map (\<lambda>g. set (group_members g)) gs) = (\<lambda>ms. snd ` set ms) ` set ?mss"
    by (simp add: image_comp comp_def flip: set_map)
  also have "\<dots> = (\<lambda>i. snd ` set (filter (\<lambda>x. key (fst x) = key i) (enumerate 0 advs))) ` {..<length advs}"
  proof -
    have "set ?mss = (\<lambda>i. filter (\<lambda>x. key (fst x) = key i) (enumerate 0 advs)) ` {..<length advs}"
      by (rule set_eqI) (simp only: group_by_enum_members image_iff lessThan_iff Bex_def)
    then show ?thesis by (simp only: image_image)
  qed
  also have "\<dots> = (\<lambda>i. ?R `` {advs ! i}) ` {..<length advs}"
  proof (rule image_cong [OF refl])
    fix i assume "i \<in> {..<length advs}"
    then have i: "i < length advs" by simp
    have "snd ` set (filter (\<lambda>x. key (fst x) = key i) (enumerate 0 advs)) =
        {advs ! j |j. j < length advs \<and> key j = key i}"
    proof -
      have "{x \<in> (\<lambda>i. (i, advs ! i)) ` {..<length advs}. key (fst x) = key i} =
          (\<lambda>i. (i, advs ! i)) ` {j. j < length advs \<and> key j = key i}" by auto
      then show ?thesis by (simp add: set_enumerate0 image_image) auto
    qed
    also have "\<dots> = {advs ! j |j. j < length advs \<and> (advs ! i, advs ! j) \<in> ?R}"
      using key i index_component [OF d i] by (metis (no_types, lifting))
    also have "\<dots> = ?R `` {advs ! i}"
    proof -
      have "b \<in> set advs" if "(advs ! i, b) \<in> ?R" for b
        using that i by (induction rule: rtrancl_induct) (auto simp: linked_advs_def)
      then show ?thesis by (auto simp: in_set_conv_nth)
    qed
    finally show "snd ` set (filter (\<lambda>x. key (fst x) = key i) (enumerate 0 advs)) = ?R `` {advs ! i}" .
  qed
  also have "\<dots> = (\<lambda>a. ?R `` {a}) ` set advs"
    by (simp add: set_conv_nth image_Collect lessThan_def) (simp add: setcompr_eq_image image_image)
  finally show ?thesis using g(1) by blast
qed

lemma merged_groups_partition:
  "\<exists>gs. get_merged_identifier_groups advs amap = Some gs \<and>
     mset (concat (map group_members gs)) = mset advs"
proof -
  from merged_groups_ok [of advs amap] obtain key :: "nat \<Rightarrow> nat" and gs where
    g: "get_merged_identifier_groups advs amap = Some gs"
     "list_all2 (group_for amap) (dict_values (group_by (\<lambda>x. key (fst x)) (enumerate 0 advs))) gs"
    by (elim exE conjE)
  have "mset (concat (map group_members gs)) =
      mset (map snd (concat (dict_values (group_by (\<lambda>x. key (fst x)) (enumerate 0 advs)))))"
    using g(2) by (induction rule: list_all2_induct) (auto simp: group_for_def)
  also have "\<dots> = image_mset snd (mset (enumerate 0 advs))"
    by (simp only: mset_map mset_group_by)
  also have "\<dots> = mset advs" by (metis mset_map map_snd_enumerate)
  finally show ?thesis using g(1) by blast
qed

lemma merged_groups_primary:
  assumes "get_merged_identifier_groups advs amap = Some gs" "g \<in> set gs" "a \<in> set (group_members g)"
  shows "precedence_key a \<le> precedence_key (primary g)"
    and "set (dict_get amap (adv_pk a) []) \<subseteq> grp_aliases g"
proof -
  obtain key :: "nat \<Rightarrow> nat" where
     "list_all2 (group_for amap) (dict_values (group_by (\<lambda>x. key (fst x)) (enumerate 0 advs))) gs"
    using merged_groups_ok [of advs amap] assms(1) by auto
  then obtain ms where "group_for amap ms g"
    using assms(2) by (fastforce simp: list_all2_conv_all_nth in_set_conv_nth)
  then have ms: "mset (group_members g) = mset (map snd ms)"
    "\<forall>m\<in>set ms. precedence_key (snd m) \<le> precedence_key (primary g)"
    "grp_aliases g = (\<Union>m\<in>set ms. set (dict_get amap (adv_pk (snd m)) []))"
    by (simp_all add: group_for_def)
  have "a \<in> set (map snd ms)" using ms(1) assms(3) by (metis set_mset_mset)
  with ms show "precedence_key a \<le> precedence_key (primary g)"
    "set (dict_get amap (adv_pk a) []) \<subseteq> grp_aliases g" by auto
qed

section \<open>The older grouping by repeated scans\<close>

text \<open>
  \<open>vulnerabilities/utils.py\<close>: a dictionary from identifiers to sets of advisories, then each set
  of two or more is merged into a list of sets. The \<open>while\<close> loop either absorbs and pops
  \<open>merged[i]\<close> or moves on; \<open>absorb\<close> returns the grown set and what is left of the list.
\<close>

definition add_member :: "'k \<Rightarrow> 'a \<Rightarrow> ('k \<times> 'a set) list \<Rightarrow> ('k \<times> 'a set) list" where
  "add_member k a d = AList.update k (insert a (dict_get d k {})) d"

definition identifier_groups :: "(adv_row \<times> string) list \<Rightarrow> (string \<times> adv_row set) list" where
  "identifier_groups ps = fold (\<lambda>(a, t). add_member t a) ps []"

fun absorb :: "'a set \<Rightarrow> 'a set list \<Rightarrow> 'a set \<times> 'a set list" where
  "absorb g [] = (g, [])"
| "absorb g (m # ms) =
     (if g \<inter> m \<noteq> {} then absorb (g \<union> m) ms
      else (let (g', ms') = absorb g ms in (g', m # ms')))"

definition merge_set :: "'a set \<Rightarrow> 'a set list \<Rightarrow> 'a set list" where
  "merge_set g merged = (let (g', ms) = absorb g merged in ms @ [g'])"

definition scan_merged :: "(adv_row \<times> string) list \<Rightarrow> adv_row list \<Rightarrow> adv_row set list" where
  "scan_merged ps advs =
     (let groups = filter (\<lambda>s. card s > 1) (dict_values (identifier_groups ps));
          merged = fold merge_set groups [];
          all_grouped = \<Union> (set merged)
      in merged @ map (\<lambda>a. {a}) (filter (\<lambda>a. a \<notin> all_grouped) advs))"

text \<open>
  \<open>primary = max(group, key=...)\<close> runs over a Python set: \<open>enum\<close> is the order in which the
  interpreter enumerates it.
\<close>

definition scan_group :: "(adv_row set \<Rightarrow> adv_row list) \<Rightarrow> adv_row set \<Rightarrow> group option" where
  "scan_group enum s =
     (case py_max precedence_key (enum s) of
        None \<Rightarrow> None
      | Some p \<Rightarrow> Some \<lparr>
          grp_aliases = (\<Union>a\<in>s. set (adv_aliases a)),
          primary = p,
          secondaries = filter (\<lambda>a. a \<noteq> p) (enum s)\<rparr>)"

definition own_identifiers :: "adv_row \<Rightarrow> string list" where
  "own_identifiers a = advisory_id a # map alias_name (adv_aliases a)"

definition scan_identifier_groups ::
    "(adv_row set \<Rightarrow> adv_row list) \<Rightarrow> adv_row list \<Rightarrow> group list option" where
  "scan_identifier_groups enum advs =
     map_option_list (scan_group enum)
       (scan_merged (concat (map (\<lambda>a. map (\<lambda>t. (a, t)) (own_identifiers a)) advs)) advs)"

subsection \<open>Absorbing keeps the sets apart\<close>

definition apart :: "'a set list \<Rightarrow> bool" where
  "apart ms \<longleftrightarrow> sorted_wrt (\<lambda>a b. a \<inter> b = {}) ms"

lemma apart_simps [simp]:
  "apart []" "apart (m # ms) \<longleftrightarrow> (\<forall>x\<in>set ms. m \<inter> x = {}) \<and> apart ms"
  by (auto simp: apart_def)

lemma absorb_apart:
  "apart ms \<Longrightarrow> absorb g ms =
     (g \<union> \<Union> {m \<in> set ms. g \<inter> m \<noteq> {}}, filter (\<lambda>m. g \<inter> m = {}) ms)"
proof (induction ms arbitrary: g)
  case Nil
  then show ?case by simp
next
  case (Cons m ms)
  show ?case
  proof (cases "g \<inter> m = {}")
    case True
    then have "{x \<in> set (m # ms). g \<inter> x \<noteq> {}} = {x \<in> set ms. g \<inter> x \<noteq> {}}" by auto
    with True Cons show ?thesis by simp
  next
    case False
    have same: "(g \<union> m) \<inter> x = g \<inter> x" if "x \<in> set ms" for x
      using Cons.prems that by auto
    then have 1: "{x \<in> set ms. (g \<union> m) \<inter> x \<noteq> {}} = {x \<in> set ms. g \<inter> x \<noteq> {}}"
      and 2: "filter (\<lambda>x. (g \<union> m) \<inter> x = {}) ms = filter (\<lambda>x. g \<inter> x = {}) ms"
      by (auto intro: filter_cong)
    have "{x \<in> set (m # ms). g \<inter> x \<noteq> {}} = insert m {x \<in> set ms. g \<inter> x \<noteq> {}}"
      using False by auto
    with False Cons 1 2 show ?thesis by (simp add: Un_assoc)
  qed
qed

text \<open>The components of a list of sets: two elements are joined when one set has both.\<close>

definition joined :: "'a set set \<Rightarrow> ('a \<times> 'a) set" where
  "joined S = {(a, b). \<exists>s\<in>S. a \<in> s \<and> b \<in> s}"

definition components :: "'a set set \<Rightarrow> 'a set set" where
  "components S = {(joined S)\<^sup>* `` {a} |a. a \<in> \<Union> S}"

lemma joinedI: "s \<in> S \<Longrightarrow> a \<in> s \<Longrightarrow> b \<in> s \<Longrightarrow> (a, b) \<in> joined S"
  by (auto simp: joined_def)

lemma joined_sym: "(a, b) \<in> (joined S)\<^sup>* \<Longrightarrow> (b, a) \<in> (joined S)\<^sup>*"
  using sym_rtrancl [of "joined S"] by (auto simp: sym_def joined_def)

lemma component_eq:
  "(a, b) \<in> (joined S)\<^sup>* \<Longrightarrow> (joined S)\<^sup>* `` {a} = (joined S)\<^sup>* `` {b}"
  by (auto intro: rtrancl_trans joined_sym)

lemma Union_components: "\<Union> (components S) = \<Union> S"
proof (rule subset_antisym)
  show "\<Union> S \<subseteq> \<Union> (components S)" by (auto simp: components_def)
  have "b \<in> \<Union> S" if "(a, b) \<in> (joined S)\<^sup>*" "a \<in> \<Union> S" for a b
    using that by (induction rule: rtrancl_induct) (auto simp: joined_def)
  then show "\<Union> (components S) \<subseteq> \<Union> S" by (auto simp: components_def)
qed

lemma rtrancl_joined_insert:
  "(joined (insert g S))\<^sup>* = (joined S)\<^sup>* \<union> ((joined S)\<^sup>* `` g) \<times> ((joined S)\<^sup>* `` g)"
  (is "_ = ?Q \<union> ?G \<times> ?G")
proof (rule subset_antisym)
  have g: "g \<subseteq> ?G" by auto
  show "(joined (insert g S))\<^sup>* \<subseteq> ?Q \<union> ?G \<times> ?G"
  proof (rule subrelI)
    fix a b assume "(a, b) \<in> (joined (insert g S))\<^sup>*"
    then show "(a, b) \<in> ?Q \<union> ?G \<times> ?G"
    proof (induction rule: rtrancl_induct)
      case base
      then show ?case by simp
    next
      case (step b c)
      have bc: "(b, c) \<in> joined S \<or> b \<in> g \<and> c \<in> g"
        using step.hyps(2) by (auto simp: joined_def)
      show ?case
      proof (cases "(a, b) \<in> ?Q")
        case True
        then have "(b, a) \<in> ?Q" by (rule joined_sym)
        with bc True g show ?thesis by (auto intro: rtrancl_into_rtrancl)
      next
        case False
        with step.IH have "a \<in> ?G" "b \<in> ?G" by auto
        with bc g show ?thesis by (auto intro: rtrancl_into_rtrancl)
      qed
    qed
  qed
  have "joined S \<subseteq> joined (insert g S)" by (auto simp: joined_def)
  then have q: "?Q \<subseteq> (joined (insert g S))\<^sup>*" by (rule rtrancl_mono)
  have "(a, b) \<in> (joined (insert g S))\<^sup>*" if "a \<in> ?G" "b \<in> ?G" for a b
  proof -
    from that obtain x y where xy: "x \<in> g" "y \<in> g" "(x, a) \<in> ?Q" "(y, b) \<in> ?Q" by auto
    have "(a, x) \<in> (joined (insert g S))\<^sup>*" using joined_sym [OF xy(3)] q by auto
    also have "(x, y) \<in> joined (insert g S)" using xy by (auto simp: joined_def)
    also have "(y, b) \<in> (joined (insert g S))\<^sup>*" using xy(4) q by auto
    finally show ?thesis .
  qed
  with q show "?Q \<union> ?G \<times> ?G \<subseteq> (joined (insert g S))\<^sup>*" by auto
qed

lemma component_touching: "(joined S)\<^sup>* `` g = g \<union> \<Union> {C \<in> components S. g \<inter> C \<noteq> {}}"
proof (rule subset_antisym)
  show "(joined S)\<^sup>* `` g \<subseteq> g \<union> \<Union> {C \<in> components S. g \<inter> C \<noteq> {}}"
  proof clarify
    fix a x assume ax: "a \<in> g" "(a, x) \<in> (joined S)\<^sup>*" and ng: "x \<notin> \<Union> {C \<in> components S. g \<inter> C \<noteq> {}}"
    show "x \<in> g"
    proof (cases "a \<in> \<Union> S")
      case True
      then have "(joined S)\<^sup>* `` {a} \<in> components S" by (auto simp: components_def)
      with ax ng show ?thesis by blast
    next
      case False
      then have "a \<notin> Domain (joined S)" by (auto simp: joined_def)
      with ax show ?thesis by (metis Not_Domain_rtrancl)
    qed
  qed
  show "g \<union> \<Union> {C \<in> components S. g \<inter> C \<noteq> {}} \<subseteq> (joined S)\<^sup>* `` g"
  proof -
    have "C \<subseteq> (joined S)\<^sup>* `` g" if C: "C \<in> components S" "g \<inter> C \<noteq> {}" for C
    proof -
      from C obtain a x where a: "C = (joined S)\<^sup>* `` {a}" and x: "x \<in> g" "(a, x) \<in> (joined S)\<^sup>*"
        by (auto simp: components_def)
      have "C = (joined S)\<^sup>* `` {x}" using a component_eq [OF x(2)] by simp
      with x(1) show ?thesis by auto
    qed
    then show ?thesis by auto
  qed
qed

lemma components_insert:
  assumes "g \<noteq> {}"
  shows "components (insert g S) =
     insert (g \<union> \<Union> {C \<in> components S. g \<inter> C \<noteq> {}}) {C \<in> components S. g \<inter> C = {}}"
proof -
  let ?Q = "(joined S)\<^sup>*"
  let ?G = "?Q `` g"
  have img: "(joined (insert g S))\<^sup>* `` {a} = (if a \<in> ?G then ?G else ?Q `` {a})" for a
    unfolding rtrancl_joined_insert by (auto intro: rtrancl_trans)
  have out: "a \<in> ?G \<longleftrightarrow> g \<inter> ?Q `` {a} \<noteq> {}" for a
    by (auto dest: joined_sym)
  have "components (insert g S) = {if a \<in> ?G then ?G else ?Q `` {a} |a. a \<in> g \<union> \<Union> S}"
    by (simp only: components_def img) auto
  also have "\<dots> = insert ?G {?Q `` {a} |a. a \<in> \<Union> S \<and> a \<notin> ?G}"
  proof -
    obtain x where "x \<in> g" using assms by blast
    then have "x \<in> ?G" by auto
    with \<open>x \<in> g\<close> show ?thesis by auto
  qed
  also have "{?Q `` {a} |a. a \<in> \<Union> S \<and> a \<notin> ?G} = {C \<in> components S. g \<inter> C = {}}"
    unfolding components_def using out by auto
  finally show ?thesis by (simp only: component_touching)
qed

lemma merge_set_ok:
  assumes "apart ms" "set ms = components S" "g \<noteq> {}"
  shows "apart (merge_set g ms) \<and> set (merge_set g ms) = components (insert g S)"
proof
  have eq: "merge_set g ms = filter (\<lambda>m. g \<inter> m = {}) ms @ [g \<union> \<Union> {m \<in> set ms. g \<inter> m \<noteq> {}}]"
    by (simp add: merge_set_def absorb_apart [OF assms(1)])
  have dis: "x \<inter> y = {}" if "x \<in> set ms" "y \<in> set ms" "x \<noteq> y" for x y
    using assms(1) that by (induction ms) auto
  show "apart (merge_set g ms)"
    unfolding eq apart_def sorted_wrt_append
    using assms(1) dis by (auto simp: apart_def sorted_wrt_filter)
  show "set (merge_set g ms) = components (insert g S)"
    unfolding eq components_insert [OF assms(3)] assms(2) [symmetric] by auto
qed

lemma merge_all_ok:
  assumes "apart ms" "set ms = components S" "{} \<notin> set gs"
  shows "apart (fold merge_set gs ms) \<and> set (fold merge_set gs ms) = components (S \<union> set gs)"
  using assms
proof (induction gs arbitrary: ms S)
  case Nil
  then show ?case by simp
next
  case (Cons g gs)
  then have m: "apart (merge_set g ms)" "set (merge_set g ms) = components (insert g S)"
    using merge_set_ok [of ms S g] by auto
  from Cons.IH [OF m] Cons.prems(3) show ?case by simp
qed

subsection \<open>From identifiers to components\<close>

lemma map_of_add_member: "map_of (add_member k a d) = (map_of d)(k \<mapsto> insert a (dict_get d k {}))"
  by (simp add: add_member_def)

lemma dict_get_add_member:
  "dict_get (add_member k a d) t {} = (if t = k then insert a (dict_get d t {}) else dict_get d t {})"
  by (simp add: dict_get_def map_of_add_member)

lemma identifier_groups_fold:
  "map_of (fold (\<lambda>(a, t). add_member t a) ps d) t =
     (if t \<in> snd ` set ps then Some (dict_get d t {} \<union> {a. (a, t) \<in> set ps}) else map_of d t)"
proof (induction ps arbitrary: d)
  case Nil
  then show ?case by simp
next
  case (Cons p ps)
  obtain a k where p: "p = (a, k)" by force
  show ?case
    by (auto simp: p Cons map_of_add_member dict_get_add_member image_iff)
qed

lemma identifier_groups_lookup:
  "map_of (identifier_groups ps) t =
     (if t \<in> snd ` set ps then Some {a. (a, t) \<in> set ps} else None)"
  by (simp add: identifier_groups_def identifier_groups_fold dict_get_def)

lemma dict_get_identifier_groups: "dict_get (identifier_groups ps) t {} = {a. (a, t) \<in> set ps}"
  by (auto simp: dict_get_def identifier_groups_lookup image_iff split: option.splits)

lemma distinct_identifier_groups: "distinct (map fst (identifier_groups ps))"
proof -
  have "distinct (map fst (fold (\<lambda>(a, t). add_member t a) ps d))" if "distinct (map fst d)" for d
    using that by (induction ps arbitrary: d) (auto simp: add_member_def distinct_update)
  from this [of "[]"] show ?thesis by (simp add: identifier_groups_def)
qed

lemma identifier_groups_values:
  "set (dict_values (identifier_groups ps)) = (\<lambda>t. {a. (a, t) \<in> set ps}) ` snd ` set ps"
proof (rule set_eqI)
  fix v
  have "v \<in> set (dict_values (identifier_groups ps)) \<longleftrightarrow> (\<exists>t. (t, v) \<in> set (identifier_groups ps))"
    by (force simp: dict_values_def)
  also have "\<dots> \<longleftrightarrow> (\<exists>t. map_of (identifier_groups ps) t = Some v)"
    by (simp add: map_of_eq_Some_iff [OF distinct_identifier_groups])
  also have "\<dots> \<longleftrightarrow> v \<in> (\<lambda>t. {a. (a, t) \<in> set ps}) ` snd ` set ps"
    by (auto simp: identifier_groups_lookup split: if_splits)
  finally show "v \<in> set (dict_values (identifier_groups ps)) \<longleftrightarrow>
      v \<in> (\<lambda>t. {a. (a, t) \<in> set ps}) ` snd ` set ps" .
qed

text \<open>Dropping the sets with fewer than two members loses no link.\<close>

lemma finite_fiber: "finite {a. (a, t) \<in> set ps}"
  by (rule finite_subset [of _ "fst ` set ps"]) force+

lemma joined_big_groups:
  "(joined (set (filter (\<lambda>s. card s > 1) (dict_values (identifier_groups ps)))))\<^sup>* = (share (set ps))\<^sup>*"
  (is "(joined ?S)\<^sup>* = _")
proof (rule subset_antisym)
  have "joined ?S \<subseteq> share (set ps)"
    by (auto simp: joined_def share_def identifier_groups_values)
  then show "(joined ?S)\<^sup>* \<subseteq> (share (set ps))\<^sup>*" by (rule rtrancl_mono)
  have "share (set ps) \<subseteq> (joined ?S)\<^sup>="
  proof (rule subrelI)
    fix a b assume "(a, b) \<in> share (set ps)"
    then obtain t where t: "(a, t) \<in> set ps" "(b, t) \<in> set ps" by (auto simp: share_def)
    show "(a, b) \<in> (joined ?S)\<^sup>="
    proof (cases "a = b")
      case False
      have "card {a, b} \<le> card {a. (a, t) \<in> set ps}"
        using t by (intro card_mono finite_fiber) auto
      with False have "1 < card {a. (a, t) \<in> set ps}" by simp
      moreover have "{a. (a, t) \<in> set ps} \<in> set (dict_values (identifier_groups ps))"
      proof -
        have "t \<in> snd ` set ps" using t(1) by force
        then show ?thesis unfolding identifier_groups_values by (rule imageI)
      qed
      ultimately have "{a. (a, t) \<in> set ps} \<in> ?S" by simp
      then have "(a, b) \<in> joined ?S" by (rule joinedI) (use t in simp_all)
      then show ?thesis by blast
    qed simp
  qed
  then show "(share (set ps))\<^sup>* \<subseteq> (joined ?S)\<^sup>*" by (metis rtrancl_mono rtrancl_reflcl)
qed

lemma scan_merged_components:
  assumes "fst ` set ps = set advs"
  shows "set (scan_merged ps advs) = (\<lambda>a. (share (set ps))\<^sup>* `` {a}) ` set advs"
proof -
  let ?gs = "filter (\<lambda>s. card s > 1) (dict_values (identifier_groups ps))"
  let ?R = "(share (set ps))\<^sup>*"
  have "{} \<notin> set ?gs" by auto
  then have m: "set (fold merge_set ?gs []) = components (set ?gs)"
    using merge_all_ok [of "[]" "{}" ?gs] by (simp add: components_def)
  have U: "\<Union> (set (fold merge_set ?gs [])) = \<Union> (set ?gs)"
    by (simp only: m Union_components)
  have sub: "\<Union> (set ?gs) \<subseteq> set advs"
    using assms by (force simp: identifier_groups_values)
  have lone: "?R `` {a} = {a}" if "a \<notin> \<Union> (set ?gs)" for a
  proof -
    have "a \<notin> Domain (joined (set ?gs))" using that unfolding joined_def by blast
    then show ?thesis
      unfolding joined_big_groups [symmetric] by (auto dest: Not_Domain_rtrancl)
  qed
  have "set (scan_merged ps advs) =
      components (set ?gs) \<union> {{a} |a. a \<in> set advs \<and> a \<notin> \<Union> (set ?gs)}"
    unfolding scan_merged_def Let_def set_append m [symmetric] U by auto
  also have "components (set ?gs) = {?R `` {a} |a. a \<in> \<Union> (set ?gs)}"
    by (simp only: components_def joined_big_groups)
  also have "{{a} |a. a \<in> set advs \<and> a \<notin> \<Union> (set ?gs)} =
      {?R `` {a} |a. a \<in> set advs \<and> a \<notin> \<Union> (set ?gs)}"
    using lone by (metis (no_types, lifting))
  finally show ?thesis using sub by blast
qed

lemma share_own_identifiers:
  assumes "\<forall>a\<in>set advs. dict_get amap (adv_pk a) [] = adv_aliases a"
  shows "share (set (concat (map (\<lambda>a. map (\<lambda>t. (a, t)) (own_identifiers a)) advs))) =
         linked_advs amap advs"
proof -
  have "identifiers_of amap a = own_identifiers a" if "a \<in> set advs" for a
    using assms that by (simp add: identifiers_of_def own_identifiers_def)
  then show ?thesis by (fastforce simp: share_def linked_advs_def)
qed

lemma scan_groups_components:
  assumes enum: "\<And>s. s \<subseteq> set advs \<Longrightarrow> set (enum s) = s \<and> distinct (enum s)"
    and amap: "\<forall>a\<in>set advs. dict_get amap (adv_pk a) [] = adv_aliases a"
  shows "\<exists>gs. scan_identifier_groups enum advs = Some gs \<and>
     set (map (\<lambda>g. set (group_members g)) gs) = (\<lambda>a. (linked_advs amap advs)\<^sup>* `` {a}) ` set advs"
proof -
  let ?ps = "concat (map (\<lambda>a. map (\<lambda>t. (a, t)) (own_identifiers a)) advs)"
  have f: "fst ` set ?ps = set advs"
    by (force simp: own_identifiers_def)
  note c = scan_merged_components [OF f, unfolded share_own_identifiers [OF amap]]
  have one: "\<exists>g. scan_group enum s = Some g \<and> set (group_members g) = s"
    if "s \<in> set (scan_merged ?ps advs)" for s
  proof -
    from that c obtain a where a: "a \<in> set advs" "s = (linked_advs amap advs)\<^sup>* `` {a}" by auto
    have "b \<in> set advs" if "(a, b) \<in> (linked_advs amap advs)\<^sup>*" for b
      using that a(1) by (induction rule: rtrancl_induct) (auto simp: linked_advs_def)
    then have e: "set (enum s) = s" using enum [of s] a(2) by auto
    have "a \<in> s" using a(2) by auto
    with e have "enum s \<noteq> []" by auto
    then obtain p where p: "py_max precedence_key (enum s) = Some p" by (cases "py_max precedence_key (enum s)") auto
    then have "p \<in> s" using py_max_in e by metis
    with p e show ?thesis by (auto simp: scan_group_def group_members_def)
  qed
  then obtain gs where gs: "map_option_list (scan_group enum) (scan_merged ?ps advs) = Some gs"
      "list_all2 (\<lambda>s g. set (group_members g) = s) (scan_merged ?ps advs) gs"
    using map_option_list_Some [of "scan_merged ?ps advs" "scan_group enum" "\<lambda>s g. set (group_members g) = s"]
    by blast
  have "map (\<lambda>g. set (group_members g)) gs = scan_merged ?ps advs"
    using gs(2) by (induction rule: list_all2_induct) auto
  with c have "set (map (\<lambda>g. set (group_members g)) gs) =
      (\<lambda>a. (linked_advs amap advs)\<^sup>* `` {a}) ` set advs" by (simp only:)
  with gs(1) show ?thesis unfolding scan_identifier_groups_def by blast
qed

section \<open>The properties\<close>

text \<open>
  C34: grouping loses and duplicates nothing: \<open>get_merged_identifier_groups\<close> returns for every
  list of advisories (its loops end, no index is out of range, \<open>max\<close> is never taken of an
  empty group), and primaries and secondaries of the groups are together the advisories given.
\<close>

theorem grouping_partitions:
  "\<exists>gs. get_merged_identifier_groups advs amap = Some gs \<and>
     mset (concat (map group_members gs)) = mset advs"
  by (rule merged_groups_partition)

text \<open>
  C6: the member sets of the groups are exactly the connected components of "has an advisory id
  or an alias in common".
\<close>

theorem grouping_components:
  assumes "distinct advs"
  shows "\<exists>gs. get_merged_identifier_groups advs amap = Some gs \<and>
     set (map (\<lambda>g. set (group_members g)) gs) =
       (\<lambda>a. (linked_advs amap advs)\<^sup>* `` {a}) ` set advs"
  by (rule merged_groups_components [OF assms])

text \<open>Three advisories: the first two share an alias, the third stands alone.\<close>

definition demo_adv :: "nat \<Rightarrow> string \<Rightarrow> int option \<Rightarrow> alias_row list \<Rightarrow> adv_row" where
  "demo_adv pk aid prec als = \<lparr>adv_pk = pk, advisory_id = aid, precedence = prec,
     adv_aliases = als, impacted_packages = [], avid = aid, is_latest = True,
     all_impacts_unfurled = True, weighted_severity = None, exploitability = None\<rparr>"

definition demo_advs :: "adv_row list" where
  "demo_advs = [demo_adv 1 ''GHSA-1'' None [\<lparr>alias_pk = 7, alias_name = ''CVE-1''\<rparr>],
                demo_adv 2 ''PYSEC-1'' (Some 5) [\<lparr>alias_pk = 7, alias_name = ''CVE-1''\<rparr>],
                demo_adv 3 ''GHSA-2'' (Some 9) []]"

definition demo_amap :: alias_map where
  "demo_amap = map (\<lambda>a. (adv_pk a, adv_aliases a)) demo_advs"

lemma demo_advs_distinct: "distinct demo_advs"
  by (simp add: demo_advs_def demo_adv_def)

lemma demo_amap_own: "\<forall>a\<in>set demo_advs. dict_get demo_amap (adv_pk a) [] = adv_aliases a"
  by (simp add: demo_amap_def demo_advs_def demo_adv_def dict_get_def)

lemma grouping_components_witness:
  "\<exists>gs. get_merged_identifier_groups demo_advs demo_amap = Some gs \<and>
     set (map (\<lambda>g. set (group_members g)) gs) =
       (\<lambda>a. (linked_advs demo_amap demo_advs)\<^sup>* `` {a}) ` set demo_advs"
  by (rule grouping_components [OF demo_advs_distinct])

text \<open>
  the primary of a group has the greatest precedence of its members (an absent precedence
  counts as -1), and the group carries the aliases of every member.
\<close>

theorem grouping_primary:
  assumes "get_merged_identifier_groups advs amap = Some gs" "g \<in> set gs" "a \<in> set (group_members g)"
  shows "precedence_key a \<le> precedence_key (primary g) \<and>
         set (dict_get amap (adv_pk a) []) \<subseteq> grp_aliases g"
  using merged_groups_primary [OF assms] by blast

definition demo_pair :: group where
  "demo_pair = \<lparr>grp_aliases = {\<lparr>alias_pk = 7, alias_name = ''CVE-1''\<rparr>},
     primary = demo_advs ! 1, secondaries = [demo_advs ! 0]\<rparr>"

definition demo_single :: group where
  "demo_single = \<lparr>grp_aliases = {}, primary = demo_advs ! 2, secondaries = []\<rparr>"

lemma demo_groups:
  "get_merged_identifier_groups demo_advs demo_amap = Some [demo_pair, demo_single]"
  by (simp add: get_merged_identifier_groups_def ident_pairs_def identifiers_of_def demo_amap_def
      demo_advs_def demo_adv_def demo_pair_def demo_single_def dict_get_def dsu_union_def
      dsu_find_def dsu_init_def dsu_link_def Let_def upt_conv_Cons find_loop.simps dd_append_def
      dict_values_def make_group_def py_max_def precedence_key_def numeral_eq_Suc)

lemma grouping_primary_witness:
  "precedence_key (demo_advs ! 0) \<le> precedence_key (primary demo_pair) \<and>
   set (dict_get demo_amap (adv_pk (demo_advs ! 0)) []) \<subseteq> grp_aliases demo_pair"
  by (rule grouping_primary [OF demo_groups]) (simp_all add: group_members_def demo_pair_def)

text \<open>
  C20: the union-find grouping and the older list scan group the same advisories together: with
  the advisories' own aliases as the alias map, and whatever the order in which a Python set is
  enumerated, both return the same set of member sets.
\<close>

theorem grouping_equals_scan:
  assumes "distinct advs"
    and "\<And>s. s \<subseteq> set advs \<Longrightarrow> set (enum s) = s \<and> distinct (enum s)"
    and "\<forall>a\<in>set advs. dict_get amap (adv_pk a) [] = adv_aliases a"
  shows "\<exists>gs hs. get_merged_identifier_groups advs amap = Some gs \<and>
     scan_identifier_groups enum advs = Some hs \<and>
     set (map (\<lambda>g. set (group_members g)) gs) = set (map (\<lambda>g. set (group_members g)) hs)"
  using merged_groups_components [OF assms(1)] scan_groups_components [OF assms(2, 3)] by metis

lemma grouping_equals_scan_witness:
  "\<exists>gs hs. get_merged_identifier_groups demo_advs demo_amap = Some gs \<and>
     scan_identifier_groups (\<lambda>s. filter (\<lambda>a. a \<in> s) demo_advs) demo_advs = Some hs \<and>
     set (map (\<lambda>g. set (group_members g)) gs) = set (map (\<lambda>g. set (group_members g)) hs)"
  by (rule grouping_equals_scan [OF demo_advs_distinct _ demo_amap_own])
     (use demo_advs_distinct in auto)

end
