(* ===== verification/AdvisorySets.thy ===== *)
theory AdvisorySets
  imports Grouping Normalize
begin

text \<open>
  From the latest advisories of a package to its stored advisory sets:
  \<^item> \<open>vulnerabilities/models.py\<close>, \<open>AdvisoryV2QuerySet\<close>: the queries over the advisory table;
  \<^item> \<open>vulnerabilities/pipes/group_advisories.py\<close>: \<open>compute_advisory_content_hash\<close>,
    \<open>merge_advisories\<close>, \<open>delete_and_save_advisory_set\<close>,
    \<open>group_single_package_with_provided_advisories\<close>, \<open>group_advisory_for_package\<close>;
  \<^item> the tables \<open>AdvisorySet\<close>, \<open>AdvisorySetMember\<close> and the alias relation, with their unique
    constraints and the cascading delete.
  The hash of a serialised text is the parameter \<open>H\<close>.
\<close>

section \<open>Queries on the advisory table\<close>

text \<open>The advisory table is a list of rows; \<open>visible\<close> is the condition all the queries share.\<close>

definition visible :: "adv_row \<Rightarrow> bool" where
  "visible a \<longleftrightarrow> is_latest a \<and> all_impacts_unfurled a"

definition latest_for_avid :: "adv_row list \<Rightarrow> string \<Rightarrow> adv_row option result" where
  "latest_for_avid tbl av =
     (case filter (\<lambda>a. avid a = av \<and> is_latest a) tbl of
        [] \<Rightarrow> Inr None | [a] \<Rightarrow> Inr (Some a) | _ \<Rightarrow> Inl MultipleObjectsReturned)"

definition latest_per_avid :: "adv_row list \<Rightarrow> adv_row list" where
  "latest_per_avid tbl = filter is_latest tbl"

definition latest_for_avids :: "adv_row list \<Rightarrow> string list \<Rightarrow> adv_row list" where
  "latest_for_avids tbl avs = latest_per_avid (filter (\<lambda>a. avid a \<in> set avs) tbl)"

definition latest_for_avid_completely_imported_advisories ::
    "adv_row list \<Rightarrow> string \<Rightarrow> adv_row result" where
  "latest_for_avid_completely_imported_advisories tbl av =
     (case filter (\<lambda>a. avid a = av \<and> is_latest a \<and> all_impacts_unfurled a) tbl of
        [] \<Rightarrow> Inl DoesNotExist | [a] \<Rightarrow> Inr a | _ \<Rightarrow> Inl MultipleObjectsReturned)"

definition latest_completely_imported_advisories_per_avid :: "adv_row list \<Rightarrow> adv_row list" where
  "latest_completely_imported_advisories_per_avid tbl = filter visible tbl"

text \<open>This one calls \<open>get\<close> with a list of avids, so it fails when two of them have a row.\<close>

definition latest_for_avids_completely_imported_advisories ::
    "adv_row list \<Rightarrow> string list \<Rightarrow> adv_row result" where
  "latest_for_avids_completely_imported_advisories tbl avs =
     (case filter (\<lambda>a. avid a \<in> set avs \<and> is_latest a \<and> all_impacts_unfurled a) tbl of
        [] \<Rightarrow> Inl DoesNotExist | [a] \<Rightarrow> Inr a | _ \<Rightarrow> Inl MultipleObjectsReturned)"

definition affects :: "adv_row \<Rightarrow> string \<Rightarrow> bool" where
  "affects a purl \<longleftrightarrow> (\<exists>i\<in>set (impacted_packages a). purl \<in> set (affecting_packages i))"

definition fixes_purl :: "adv_row \<Rightarrow> string \<Rightarrow> bool" where
  "fixes_purl a purl \<longleftrightarrow> (\<exists>i\<in>set (impacted_packages a). purl \<in> set (fixed_by_packages i))"

definition latest_affecting_advisories_for_purl :: "adv_row list \<Rightarrow> string \<Rightarrow> adv_row list" where
  "latest_affecting_advisories_for_purl tbl purl = filter (\<lambda>a. affects a purl \<and> visible a) tbl"

definition latest_affecting_advisories_for_purls ::
    "adv_row list \<Rightarrow> string list \<Rightarrow> adv_row list" where
  "latest_affecting_advisories_for_purls tbl purls =
     filter (\<lambda>a. (\<exists>p\<in>set purls. affects a p) \<and> visible a) tbl"

definition latest_affecting_advisory_purls_pairs ::
    "adv_row list \<Rightarrow> string list \<Rightarrow> (string \<times> nat) set" where
  "latest_affecting_advisory_purls_pairs tbl purls =
     (\<Union>a\<in>set tbl. (\<lambda>p. (p, adv_pk a)) ` {p \<in> set purls. affects a p \<and> visible a})"

definition latest_fixed_by_advisories_for_purl :: "adv_row list \<Rightarrow> string \<Rightarrow> adv_row list" where
  "latest_fixed_by_advisories_for_purl tbl purl = filter (\<lambda>a. fixes_purl a purl \<and> visible a) tbl"

definition latest_fixed_by_advisory_purls_pairs ::
    "adv_row list \<Rightarrow> string list \<Rightarrow> (string \<times> nat) set" where
  "latest_fixed_by_advisory_purls_pairs tbl purls =
     (\<Union>a\<in>set tbl. (\<lambda>p. (p, adv_pk a)) ` {p \<in> set purls. fixes_purl a p \<and> visible a})"

definition latest_advisories_for_purls :: "adv_row list \<Rightarrow> string list \<Rightarrow> adv_row list" where
  "latest_advisories_for_purls tbl purls =
     filter (\<lambda>a. (\<exists>p\<in>set purls. affects a p) \<and> visible a \<or>
                 (\<exists>p\<in>set purls. fixes_purl a p) \<and> visible a) tbl"

definition latest_advisories_for_purl :: "adv_row list \<Rightarrow> string \<Rightarrow> adv_row list" where
  "latest_advisories_for_purl tbl purl =
     filter (\<lambda>a. affects a purl \<and> visible a \<or> fixes_purl a purl \<and> visible a) tbl"

section \<open>Content hash and merging\<close>

text \<open>
  The package: its key, its type, its package URL, and the text of the package URL without the
  version (the \<open>packageurl\<close> library's \<open>str\<close>).
\<close>

record package_row =
  pkg_pk :: nat
  pkg_type :: string
  pkg_purl :: string
  versionless_purl :: string

definition compute_advisory_content_hash :: "(json \<Rightarrow> string) \<Rightarrow> adv_row \<Rightarrow> string \<Rightarrow> string" where
  "compute_advisory_content_hash H adv vpurl =
     (let impacts = filter (\<lambda>i. base_purl i = vpurl) (impacted_packages adv);
          affected = concat (map (\<lambda>i. filter (\<lambda>p. p \<noteq> []) (affecting_packages i)) impacts);
          fixed = concat (map (\<lambda>i. filter (\<lambda>p. p \<noteq> []) (fixed_by_packages i)) impacts)
      in sha256_digest H (JObj [(''affected_packages'', jstrs (normalize_list affected)),
                                (''fixed_packages'', jstrs (normalize_list fixed))]))"

definition build_alias_map :: "adv_row list \<Rightarrow> alias_map" where
  "build_alias_map advs = fold (\<lambda>a. AList.update (adv_pk a) (adv_aliases a)) advs []"

definition merge_advisories ::
    "(json \<Rightarrow> string) \<Rightarrow> adv_row list \<Rightarrow> package_row \<Rightarrow> group list option" where
  "merge_advisories H advs pkg =
     (if advs = [] then Some []
      else map_option concat
        (map_option_list (\<lambda>g. get_merged_identifier_groups g (build_alias_map advs))
          (dict_values (group_by (\<lambda>a. compute_advisory_content_hash H a (versionless_purl pkg)) advs))))"

section \<open>The stored sets\<close>

record set_row =
  set_pk :: nat
  set_package :: nat
  relation_type :: string
  primary_advisory :: nat

record member_row =
  member_set :: nat
  member_advisory :: nat
  is_primary :: bool

record set_db =
  set_rows :: "set_row list"
  member_rows :: "member_row list"
  alias_links :: "(nat \<times> nat) set"
  next_set_pk :: nat

text \<open>\<open>filter(package=..., relation_type=...).delete()\<close> cascades to members and alias links.\<close>

definition of_relation :: "nat \<Rightarrow> string \<Rightarrow> set_row \<Rightarrow> bool" where
  "of_relation p rel r \<longleftrightarrow> set_package r = p \<and> relation_type r = rel"

definition delete_sets :: "nat \<Rightarrow> string \<Rightarrow> set_db \<Rightarrow> set_db" where
  "delete_sets p rel db =
     (let gone = set_pk ` {r \<in> set (set_rows db). of_relation p rel r}
      in db\<lparr>set_rows := filter (\<lambda>r. \<not> of_relation p rel r) (set_rows db),
            member_rows := filter (\<lambda>m. member_set m \<notin> gone) (member_rows db),
            alias_links := {l \<in> alias_links db. fst l \<notin> gone}\<rparr>)"

text \<open>
  \<open>bulk_create\<close> numbers the new rows and fails as a whole when two rows agree on
  \<open>(package, relation_type, primary_advisory)\<close>.
\<close>

definition set_key :: "set_row \<Rightarrow> nat \<times> string \<times> nat" where
  "set_key r = (set_package r, relation_type r, primary_advisory r)"

definition new_set_rows :: "nat \<Rightarrow> nat \<Rightarrow> string \<Rightarrow> group list \<Rightarrow> set_row list" where
  "new_set_rows k p rel gs =
     map (\<lambda>(i, g). \<lparr>set_pk = i, set_package = p, relation_type = rel,
                     primary_advisory = adv_pk (primary g)\<rparr>) (enumerate k gs)"

definition bulk_create_sets :: "nat \<Rightarrow> string \<Rightarrow> group list \<Rightarrow> set_db \<Rightarrow> set_db result" where
  "bulk_create_sets p rel gs db =
     (let rows = set_rows db @ new_set_rows (next_set_pk db) p rel gs
      in if distinct (map set_key rows)
         then Inr (db\<lparr>set_rows := rows, next_set_pk := next_set_pk db + length gs\<rparr>)
         else Inl IntegrityError)"

definition member_key :: "member_row \<Rightarrow> nat \<times> nat" where
  "member_key m = (member_set m, member_advisory m)"

definition memberships :: "nat \<Rightarrow> group \<Rightarrow> member_row list" where
  "memberships sid g =
     \<lparr>member_set = sid, member_advisory = adv_pk (primary g), is_primary = True\<rparr> #
     map (\<lambda>a. \<lparr>member_set = sid, member_advisory = adv_pk a, is_primary = False\<rparr>) (secondaries g)"

definition links_of :: "nat \<Rightarrow> group \<Rightarrow> (nat \<times> nat) set" where
  "links_of sid g = (\<lambda>al. (sid, alias_pk al)) ` grp_aliases g"

text \<open>
  \<open>advisory_set_map[primary_id]\<close> after reading the created sets back; a missing key would raise
  \<open>KeyError\<close>. The function is one transaction: an error leaves the tables as they were.
\<close>

definition delete_and_save_advisory_set ::
    "group list \<Rightarrow> package_row \<Rightarrow> string \<Rightarrow> set_db \<Rightarrow> set_db result" where
  "delete_and_save_advisory_set gs pkg rel db =
     (case bulk_create_sets (pkg_pk pkg) rel gs (delete_sets (pkg_pk pkg) rel db) of
        Inl e \<Rightarrow> Inl e
      | Inr db1 \<Rightarrow>
          let primary_to_group = fold (\<lambda>g. AList.update (adv_pk (primary g)) g) gs [];
              advisory_set_map =
                fold (\<lambda>r. AList.update (primary_advisory r) (set_pk r))
                  (filter (of_relation (pkg_pk pkg) rel) (set_rows db1)) []
          in (case map_result (\<lambda>(pid, g). case map_of advisory_set_map pid of
                     None \<Rightarrow> Inl KeyError | Some sid \<Rightarrow> Inr (sid, g)) primary_to_group of
                Inl e \<Rightarrow> Inl e
              | Inr sgs \<Rightarrow>
                  let ms = member_rows db1 @ concat (map (\<lambda>(sid, g). memberships sid g) sgs)
                  in if distinct (map member_key ms)
                     then Inr (db1\<lparr>member_rows := ms,
                                   alias_links := alias_links db1 \<union> (\<Union>(sid, g)\<in>set sgs. links_of sid g)\<rparr>)
                     else Inl IntegrityError))"

text \<open>
  The two relations are saved by two transactions: when the second fails, the first stays. The
  result is the tables and the error, when there is one.
\<close>

definition group_single_package_with_provided_advisories ::
    "(json \<Rightarrow> string) \<Rightarrow> package_row \<Rightarrow> adv_row list \<Rightarrow> adv_row list \<Rightarrow> set_db \<Rightarrow>
     (set_db \<times> py_error option) option" where
  "group_single_package_with_provided_advisories H pkg affecting fixing db =
     (case merge_advisories H affecting pkg of None \<Rightarrow> None
      | Some ags \<Rightarrow> (case merge_advisories H fixing pkg of None \<Rightarrow> None
          | Some fgs \<Rightarrow>
              Some (case delete_and_save_advisory_set ags pkg ''affecting'' db of
                      Inl e \<Rightarrow> (db, Some e)
                    | Inr db1 \<Rightarrow> (case delete_and_save_advisory_set fgs pkg ''fixing'' db1 of
                                    Inl e \<Rightarrow> (db1, Some e)
                                  | Inr db2 \<Rightarrow> (db2, None)))))"

definition TYPES_WITH_MULTIPLE_IMPORTERS :: "string list" where
  "TYPES_WITH_MULTIPLE_IMPORTERS = [''pypi'', ''maven'', ''nuget'', ''golang'', ''npm'',
     ''composer'', ''hex'', ''cargo'', ''gem'', ''conan'']"

text \<open>An exception is logged and swallowed.\<close>

definition group_advisory_for_package ::
    "(json \<Rightarrow> string) \<Rightarrow> adv_row list \<Rightarrow> package_row \<Rightarrow> set_db \<Rightarrow> set_db option" where
  "group_advisory_for_package H tbl pkg db =
     (if pkg_type pkg \<notin> set TYPES_WITH_MULTIPLE_IMPORTERS then Some db
      else map_option fst
        (group_single_package_with_provided_advisories H pkg
          (latest_affecting_advisories_for_purl tbl (pkg_purl pkg))
          (latest_fixed_by_advisories_for_purl tbl (pkg_purl pkg)) db))"

section \<open>Merging by content and identifiers\<close>

lemma build_alias_map_own:
  assumes "distinct (map adv_pk advs)" "a \<in> set advs"
  shows "dict_get (build_alias_map advs) (adv_pk a) [] = adv_aliases a"
proof -
  have "build_alias_map advs = map (\<lambda>a. (adv_pk a, adv_aliases a)) advs"
    unfolding build_alias_map_def by (rule fold_update_distinct0 [OF assms(1)])
  moreover have "map_of (map (\<lambda>a. (adv_pk a, adv_aliases a)) advs) (adv_pk a) = Some (adv_aliases a)"
    by (rule map_of_is_SomeI) (use assms in \<open>auto simp: comp_def\<close>)
  ultimately show ?thesis by (simp add: dict_get_def)
qed

text \<open>
  Two advisories are alike for a package when they have the same content hash and an identifier
  in common.
\<close>

definition alike :: "(json \<Rightarrow> string) \<Rightarrow> string \<Rightarrow> adv_row list \<Rightarrow> (adv_row \<times> adv_row) set" where
  "alike H vpurl advs = {(a, b). a \<in> set advs \<and> b \<in> set advs \<and>
     compute_advisory_content_hash H a vpurl = compute_advisory_content_hash H b vpurl \<and>
     set (own_identifiers a) \<inter> set (own_identifiers b) \<noteq> {}}"

lemma map_option_list_all:
  "(\<And>x. x \<in> set xs \<Longrightarrow> f x \<noteq> None) \<Longrightarrow> map_option_list f xs = Some (map (\<lambda>x. the (f x)) xs)"
  by (induction xs) (auto split: option.splits)

lemma merge_advisories_eq:
  "merge_advisories H advs pkg = Some (concat (map
     (\<lambda>g. the (get_merged_identifier_groups g (build_alias_map advs)))
     (dict_values (group_by (\<lambda>a. compute_advisory_content_hash H a (versionless_purl pkg)) advs))))"
proof -
  have "get_merged_identifier_groups g m \<noteq> None" for g m
    using merged_groups_partition [of g m] by auto
  then show ?thesis
    by (simp add: merge_advisories_def map_option_list_all group_by_def dict_values_def)
qed

lemma merge_advisories_partition:
  "\<exists>gs. merge_advisories H advs pkg = Some gs \<and> mset (concat (map group_members gs)) = mset advs"
proof -
  let ?m = "\<lambda>g. the (get_merged_identifier_groups g (build_alias_map advs))"
  have one: "mset (concat (map group_members (?m g))) = mset g" for g
    using merged_groups_partition [of g "build_alias_map advs"] by auto
  have "mset (concat (map group_members (concat (map ?m gss)))) = mset (concat gss)" for gss
    by (induction gss) (simp_all add: one)
  then show ?thesis
    unfolding merge_advisories_eq using mset_group_by by auto
qed

lemma rtrancl_restrict:
  assumes "(a, b) \<in> r\<^sup>*" "\<And>x y. P x \<Longrightarrow> (x, y) \<in> r \<Longrightarrow> P y \<and> (x, y) \<in> s" "P a"
  shows "P b \<and> (a, b) \<in> s\<^sup>*"
  using assms by (induction rule: rtrancl_induct) (blast intro: rtrancl_into_rtrancl)+

lemma merge_advisories_components:
  assumes d: "distinct (map adv_pk advs)"
  shows "\<exists>gs. merge_advisories H advs pkg = Some gs \<and>
     set (map (\<lambda>g. set (group_members g)) gs) =
       (\<lambda>a. (alike H (versionless_purl pkg) advs)\<^sup>* `` {a}) ` set advs"
proof -
  let ?h = "\<lambda>a. compute_advisory_content_hash H a (versionless_purl pkg)"
  let ?am = "build_alias_map advs"
  let ?m = "\<lambda>g. the (get_merged_identifier_groups g ?am)"
  let ?A = "alike H (versionless_purl pkg) advs"
  let ?c = "\<lambda>g. (\<lambda>a. (linked_advs ?am g)\<^sup>* `` {a}) ` set g"
  let ?gss = "dict_values (group_by ?h advs)"
  have dadv: "distinct advs" using d by (simp add: distinct_map)
  have gss: "set ?gss = (\<lambda>a. filter (\<lambda>b. ?h b = ?h a) advs) ` set advs"
    by (auto simp: group_by_values)
  have one: "set (map (\<lambda>g. set (group_members g)) (?m g)) = ?c g" if "g \<in> set ?gss" for g
  proof -
    have "distinct g" using that dadv by (auto simp: gss)
    from merged_groups_components [OF this, of ?am] show ?thesis by (elim exE conjE) simp
  qed
  have link: "(linked_advs ?am (filter (\<lambda>b. ?h b = ?h a) advs))\<^sup>* `` {x} = ?A\<^sup>* `` {x}"
    if a: "a \<in> set advs" and x: "x \<in> set advs" "?h x = ?h a" for a x
  proof -
    have ids: "identifiers_of ?am b = own_identifiers b" if "b \<in> set advs" for b
      using build_alias_map_own [OF d that] by (simp add: identifiers_of_def own_identifiers_def)
    let ?L = "linked_advs ?am (filter (\<lambda>b. ?h b = ?h a) advs)"
    have L: "?L = {(y, z). ?h y = ?h a \<and> (y, z) \<in> ?A}"
      by (auto simp: linked_advs_def alike_def ids)
    have "?L\<^sup>* \<subseteq> ?A\<^sup>*" by (rule rtrancl_mono) (unfold L, blast)
    moreover have "(x, y) \<in> ?L\<^sup>*" if xy: "(x, y) \<in> ?A\<^sup>*" for y
    proof -
      have "?h z = ?h y" if "(y, z) \<in> ?A" for y z using that by (simp add: alike_def)
      then have "?h z = ?h a \<and> (y, z) \<in> ?L" if "?h y = ?h a" "(y, z) \<in> ?A" for y z
        using that unfolding L mem_Collect_eq case_prod_conv by metis
      from rtrancl_restrict [where P = "\<lambda>b. ?h b = ?h a", OF xy this x(2)] show ?thesis by blast
    qed
    ultimately show ?thesis by blast
  qed
  have "set (map (\<lambda>g. set (group_members g)) (concat (map ?m ?gss))) =
      (\<Union>g\<in>set ?gss. set (map (\<lambda>g. set (group_members g)) (?m g)))"
    by (simp only: set_map set_concat image_UN image_image)
  also have "\<dots> = (\<Union>g\<in>set ?gss. ?c g)"
    by (rule SUP_cong [OF refl one])
  also have "\<dots> = (\<Union>a\<in>set advs. (\<lambda>x. ?A\<^sup>* `` {x}) ` {x \<in> set advs. ?h x = ?h a})"
  proof -
    have "?c (filter (\<lambda>b. ?h b = ?h a) advs) = (\<lambda>x. ?A\<^sup>* `` {x}) ` {x \<in> set advs. ?h x = ?h a}"
      if a: "a \<in> set advs" for a
      by (rule image_cong) (simp, rule link [OF a], simp_all)
    then show ?thesis unfolding gss image_image by (rule SUP_cong [OF refl])
  qed
  also have "\<dots> = (\<lambda>a. ?A\<^sup>* `` {a}) ` set advs" by blast
  finally show ?thesis unfolding merge_advisories_eq by blast
qed

section \<open>What the tables store\<close>

text \<open>The abstract view: per package and relation, each set's primary, members and aliases.\<close>

definition stored :: "set_db \<Rightarrow> nat \<Rightarrow> string \<Rightarrow> (nat \<times> nat set \<times> nat set) set" where
  "stored db p rel =
     (\<lambda>r. (primary_advisory r,
           member_advisory ` {m \<in> set (member_rows db). member_set m = set_pk r},
           {al. (set_pk r, al) \<in> alias_links db})) ` {r \<in> set (set_rows db). of_relation p rel r}"

definition group_view :: "group \<Rightarrow> nat \<times> nat set \<times> nat set" where
  "group_view g = (adv_pk (primary g), adv_pk ` set (group_members g), alias_pk ` grp_aliases g)"

text \<open>
  The invariant of the tables: primary keys and the two unique constraints, no dangling member
  or link, and the flag \<open>is_primary\<close> set exactly on the primary of the member's set.
\<close>

definition set_db_wf :: "set_db \<Rightarrow> bool" where
  "set_db_wf db \<longleftrightarrow>
     distinct (map set_pk (set_rows db)) \<and> distinct (map set_key (set_rows db)) \<and>
     (\<forall>r\<in>set (set_rows db). set_pk r < next_set_pk db) \<and>
     distinct (map member_key (member_rows db)) \<and>
     (\<forall>m\<in>set (member_rows db). \<exists>r\<in>set (set_rows db). set_pk r = member_set m \<and>
        (is_primary m \<longleftrightarrow> primary_advisory r = member_advisory m)) \<and>
     (\<forall>l\<in>alias_links db. fst l \<in> set_pk ` set (set_rows db))"

lemma set_pk_inj:
  "set_db_wf db \<Longrightarrow> r \<in> set (set_rows db) \<Longrightarrow> s \<in> set (set_rows db) \<Longrightarrow> set_pk r = set_pk s \<Longrightarrow> r = s"
  by (auto simp: set_db_wf_def distinct_map dest: inj_onD)

lemma delete_sets_pk:
  assumes "set_db_wf db" "r \<in> set (set_rows db)"
  shows "set_pk r \<in> set_pk ` {r \<in> set (set_rows db). of_relation p rel r} \<longleftrightarrow> of_relation p rel r"
  using assms by (auto dest: set_pk_inj)

lemma delete_sets_wf:
  assumes wf: "set_db_wf db" shows "set_db_wf (delete_sets p rel db)"
proof -
  let ?gone = "set_pk ` {r \<in> set (set_rows db). of_relation p rel r}"
  have m: "\<exists>r\<in>{r \<in> set (set_rows db). \<not> of_relation p rel r}. set_pk r = member_set m \<and>
        (is_primary m \<longleftrightarrow> primary_advisory r = member_advisory m)"
    if "m \<in> set (member_rows db)" "member_set m \<notin> ?gone" for m
  proof -
    from wf that(1) obtain r where r: "r \<in> set (set_rows db)" "set_pk r = member_set m"
        "is_primary m \<longleftrightarrow> primary_advisory r = member_advisory m"
      by (auto simp: set_db_wf_def)
    moreover have "\<not> of_relation p rel r" using that(2) r(1,2) by force
    ultimately show ?thesis by blast
  qed
  have l: "fst l \<in> set_pk ` {r \<in> set (set_rows db). \<not> of_relation p rel r}"
    if "l \<in> alias_links db" "fst l \<notin> ?gone" for l
    using wf that by (fastforce simp: set_db_wf_def)
  show ?thesis
    using wf m l unfolding set_db_wf_def delete_sets_def Let_def
    by (simp add: distinct_map_filter)
qed

lemma delete_sets_stored:
  assumes wf: "set_db_wf db"
  shows "stored (delete_sets p rel db) q t = (if q = p \<and> t = rel then {} else stored db q t)"
proof (cases "q = p \<and> t = rel")
  case True
  then show ?thesis by (simp add: stored_def delete_sets_def Let_def)
next
  case False
  then have other: "of_relation q t r \<Longrightarrow> \<not> of_relation p rel r" for r
    by (auto simp: of_relation_def)
  have keep: "set_pk s \<noteq> set_pk r"
    if "r \<in> set (set_rows db)" "of_relation q t r" "s \<in> set (set_rows db)" "of_relation p rel s" for r s
    using set_pk_inj [OF wf that(3,1)] other [OF that(2)] that(4) by auto
  have "{r \<in> set (set_rows (delete_sets p rel db)). of_relation q t r} =
      {r \<in> set (set_rows db). of_relation q t r}"
    using other by (auto simp: delete_sets_def Let_def)
  moreover have "{m \<in> set (member_rows (delete_sets p rel db)). member_set m = set_pk r} =
      {m \<in> set (member_rows db). member_set m = set_pk r}"
    if "r \<in> set (set_rows db)" "of_relation q t r" for r
    using keep [OF that] by (auto simp: delete_sets_def Let_def)
  moreover have "{al. (set_pk r, al) \<in> alias_links (delete_sets p rel db)} =
      {al. (set_pk r, al) \<in> alias_links db}"
    if "r \<in> set (set_rows db)" "of_relation q t r" for r
    using keep [OF that] by (fastforce simp: delete_sets_def Let_def)
  ultimately show ?thesis using False unfolding stored_def by (auto intro!: image_cong)
qed

lemma new_set_rows_nth:
  "i < length gs \<Longrightarrow> new_set_rows k p rel gs ! i =
     \<lparr>set_pk = k + i, set_package = p, relation_type = rel, primary_advisory = adv_pk (primary (gs ! i))\<rparr>"
  by (simp add: new_set_rows_def nth_enumerate_eq)

lemma length_new_set_rows [simp]: "length (new_set_rows k p rel gs) = length gs"
  by (simp add: new_set_rows_def)

lemma new_set_rows_pk: "map set_pk (new_set_rows k p rel gs) = [k..<k + length gs]"
  by (rule nth_equalityI) (simp_all add: new_set_rows_nth)

lemma new_set_rows_primary:
  "map primary_advisory (new_set_rows k p rel gs) = map (\<lambda>g. adv_pk (primary g)) gs"
  by (rule nth_equalityI) (simp_all add: new_set_rows_nth)

lemma new_set_rows_relation: "r \<in> set (new_set_rows k p rel gs) \<Longrightarrow> of_relation p rel r"
  by (auto simp: new_set_rows_def of_relation_def)

lemma memberships_set: "m \<in> set (memberships sid g) \<Longrightarrow> member_set m = sid"
  by (auto simp: memberships_def)

lemma memberships_advisories: "member_advisory ` set (memberships sid g) = adv_pk ` set (group_members g)"
  by (auto simp: memberships_def group_members_def image_image)

lemma memberships_keys:
  "map member_key (memberships sid g) = map (\<lambda>a. (sid, adv_pk a)) (group_members g)"
  by (simp add: memberships_def member_key_def group_members_def)

definition new_members :: "nat \<Rightarrow> group list \<Rightarrow> member_row list" where
  "new_members k gs = concat (map (\<lambda>(sid, g). memberships sid g) (enumerate k gs))"

definition new_links :: "nat \<Rightarrow> group list \<Rightarrow> (nat \<times> nat) set" where
  "new_links k gs = (\<Union>(sid, g)\<in>set (enumerate k gs). links_of sid g)"

lemma set_enumerate: "set (enumerate k xs) = (\<lambda>i. (k + i, xs ! i)) ` {..<length xs}"
  by (induction xs arbitrary: k) (auto simp: lessThan_Suc_eq_insert_0 image_image)

lemma mem_new_members:
  "m \<in> set (new_members k gs) \<longleftrightarrow> (\<exists>i<length gs. m \<in> set (memberships (k + i) (gs ! i)))"
  by (simp add: new_members_def set_enumerate Bex_def)

lemma mem_new_links: "l \<in> new_links k gs \<longleftrightarrow> (\<exists>i<length gs. l \<in> links_of (k + i) (gs ! i))"
  by (auto simp: new_links_def set_enumerate)

lemma new_members_of:
  "i < length gs \<Longrightarrow>
   {m \<in> set (new_members k gs). member_set m = k + i} = set (memberships (k + i) (gs ! i))"
  by (auto simp: mem_new_members memberships_set)

lemma new_members_bounds:
  "m \<in> set (new_members k gs) \<Longrightarrow> k \<le> member_set m \<and> member_set m < k + length gs"
  by (auto simp: mem_new_members dest: memberships_set)

lemma new_links_of:
  "i < length gs \<Longrightarrow> {al. (k + i, al) \<in> new_links k gs} = alias_pk ` grp_aliases (gs ! i)"
  by (auto simp: mem_new_links links_of_def)

lemma new_links_bounds: "l \<in> new_links k gs \<Longrightarrow> k \<le> fst l \<and> fst l < k + length gs"
  by (auto simp: mem_new_links links_of_def)

lemma new_members_distinct:
  "\<forall>g\<in>set gs. distinct (map adv_pk (group_members g)) \<Longrightarrow>
   distinct (map member_key (new_members k gs))"
proof (induction gs arbitrary: k)
  case (Cons g gs)
  have nm: "new_members k (g # gs) = memberships k g @ new_members (Suc k) gs"
    by (simp add: new_members_def)
  have "distinct (map member_key (memberships k g))"
    using Cons.prems by (simp add: memberships_keys distinct_map inj_on_def)
  moreover have "member_key ` set (memberships k g) \<inter> member_key ` set (new_members (Suc k) gs) = {}"
    by (auto simp: member_key_def dest!: memberships_set new_members_bounds)
  ultimately show ?case using Cons by (simp add: nm)
qed (simp add: new_members_def)

lemma lookup_created:
  assumes "distinct (map (\<lambda>g. adv_pk (primary g)) gs)"
  shows "map_result (\<lambda>(pid, g). case map_of (map (\<lambda>r. (primary_advisory r, set_pk r))
             (new_set_rows k p rel gs)) pid of None \<Rightarrow> Inl KeyError | Some sid \<Rightarrow> Inr (sid, g))
           (map (\<lambda>g. (adv_pk (primary g), g)) gs) = Inr (enumerate k gs)"
proof -
  let ?new = "new_set_rows k p rel gs"
  have "map_of (map (\<lambda>r. (primary_advisory r, set_pk r)) ?new) (adv_pk (primary (gs ! i))) = Some (k + i)"
    if "i < length gs" for i
  proof (rule map_of_is_SomeI)
    show "distinct (map fst (map (\<lambda>r. (primary_advisory r, set_pk r)) ?new))"
      using assms by (simp add: comp_def new_set_rows_primary)
    show "(adv_pk (primary (gs ! i)), k + i) \<in> set (map (\<lambda>r. (primary_advisory r, set_pk r)) ?new)"
      using that nth_mem [of i "map (\<lambda>r. (primary_advisory r, set_pk r)) ?new"]
      by (simp add: new_set_rows_nth)
  qed
  then show ?thesis
    by (simp add: map_result_Inr_iff list_all2_conv_all_nth nth_enumerate_eq)
qed

lemma save_sets_eq:
  assumes "distinct (map (\<lambda>g. adv_pk (primary g)) gs)"
    and "\<forall>g\<in>set gs. distinct (map adv_pk (group_members g))"
    and wf: "set_db_wf db"
  shows "delete_and_save_advisory_set gs pkg rel db =
     (let db0 = delete_sets (pkg_pk pkg) rel db; k = next_set_pk db
      in Inr \<lparr>set_rows = set_rows db0 @ new_set_rows k (pkg_pk pkg) rel gs,
              member_rows = member_rows db0 @ new_members k gs,
              alias_links = alias_links db0 \<union> new_links k gs,
              next_set_pk = k + length gs\<rparr>)"
proof -
  let ?p = "pkg_pk pkg"
  let ?db0 = "delete_sets ?p rel db" and ?k = "next_set_pk db"
  let ?new = "new_set_rows ?k ?p rel gs"
  have wf0: "set_db_wf ?db0" using wf by (rule delete_sets_wf)
  have k0: "next_set_pk ?db0 = ?k" by (simp add: delete_sets_def Let_def)
  have old: "r \<in> set (set_rows ?db0) \<Longrightarrow> \<not> of_relation ?p rel r" for r
    by (simp add: delete_sets_def Let_def)
  have "distinct (map set_key ?new)"
    using assms(1) by (subst (asm) new_set_rows_primary [of ?k ?p rel, symmetric])
      (auto simp: distinct_map inj_on_def set_key_def)
  moreover have "set_key ` set (set_rows ?db0) \<inter> set_key ` set ?new = {}"
    using old new_set_rows_relation by (fastforce simp: set_key_def of_relation_def)
  ultimately have keys: "distinct (map set_key (set_rows ?db0 @ ?new))"
    using wf0 by (simp add: set_db_wf_def)
  have mine: "filter (of_relation ?p rel) (set_rows ?db0 @ ?new) = ?new"
    using old by (simp add: filter_empty_conv filter_id_conv new_set_rows_relation)
  have "m \<in> set (member_rows ?db0) \<Longrightarrow> member_set m < ?k" for m
    using wf0 k0 by (fastforce simp: set_db_wf_def)
  then have "member_key ` set (member_rows ?db0) \<inter> member_key ` set (new_members ?k gs) = {}"
    using new_members_bounds by (fastforce simp: member_key_def)
  then have mkeys: "distinct (map member_key (member_rows ?db0 @ new_members ?k gs))"
    using wf0 new_members_distinct [OF assms(2)] by (simp add: set_db_wf_def)
  have asm: "fold (\<lambda>r. AList.update (primary_advisory r) (set_pk r)) ?new [] =
      map (\<lambda>r. (primary_advisory r, set_pk r)) ?new"
    by (rule fold_update_distinct0) (simp add: new_set_rows_primary assms(1))
  note ptg = fold_update_distinct0 [OF assms(1), of "\<lambda>g. g"]
  show ?thesis
    unfolding delete_and_save_advisory_set_def bulk_create_sets_def k0 Let_def
    using keys mkeys
    by (simp add: mine [simplified] asm ptg lookup_created [OF assms(1)] new_members_def new_links_def)
qed

text \<open>The tables after the call keep the invariant, and store exactly the groups.\<close>

lemma new_rows_wf:
  assumes wf: "set_db_wf db0" and k: "next_set_pk db0 = k"
    and old: "\<And>r. r \<in> set (set_rows db0) \<Longrightarrow> \<not> of_relation p rel r"
    and prim: "distinct (map (\<lambda>g. adv_pk (primary g)) gs)"
    and mem: "\<forall>g\<in>set gs. distinct (map adv_pk (group_members g))"
  shows "set_db_wf \<lparr>set_rows = set_rows db0 @ new_set_rows k p rel gs,
     member_rows = member_rows db0 @ new_members k gs,
     alias_links = alias_links db0 \<union> new_links k gs, next_set_pk = k + length gs\<rparr>"
proof -
  let ?new = "new_set_rows k p rel gs"
  have lt: "\<forall>r\<in>set (set_rows db0). set_pk r < k" using wf k by (simp add: set_db_wf_def)
  have npk: "set_pk ` set ?new = {k..<k + length gs}"
    using new_set_rows_pk [of k p rel gs] by (metis set_map set_upt)
  have "distinct (map set_pk (set_rows db0 @ ?new))"
    using wf lt npk by (fastforce simp: set_db_wf_def new_set_rows_pk)
  moreover have "distinct (map set_key (set_rows db0 @ ?new))"
  proof -
    have "distinct (map set_key ?new)"
      using prim by (subst (asm) new_set_rows_primary [of k p rel, symmetric])
        (auto simp: distinct_map inj_on_def set_key_def)
    moreover have "set_key ` set (set_rows db0) \<inter> set_key ` set ?new = {}"
      using old new_set_rows_relation by (fastforce simp: set_key_def of_relation_def)
    ultimately show ?thesis using wf by (simp add: set_db_wf_def)
  qed
  moreover have "\<forall>r\<in>set (set_rows db0 @ ?new). set_pk r < k + length gs"
    using lt npk by fastforce
  moreover have "distinct (map member_key (member_rows db0 @ new_members k gs))"
  proof -
    have "m \<in> set (member_rows db0) \<Longrightarrow> member_set m < k" for m
      using wf lt by (fastforce simp: set_db_wf_def)
    then have "member_key ` set (member_rows db0) \<inter> member_key ` set (new_members k gs) = {}"
      using new_members_bounds by (fastforce simp: member_key_def)
    then show ?thesis using wf new_members_distinct [OF mem] by (simp add: set_db_wf_def)
  qed
  moreover have "\<exists>r\<in>set (set_rows db0 @ ?new). set_pk r = member_set m \<and>
        (is_primary m \<longleftrightarrow> primary_advisory r = member_advisory m)"
    if "m \<in> set (member_rows db0 @ new_members k gs)" for m
  proof (cases "m \<in> set (member_rows db0)")
    case True
    then show ?thesis using wf by (auto simp: set_db_wf_def)
  next
    case False
    with that obtain i where i: "i < length gs" "m \<in> set (memberships (k + i) (gs ! i))"
      by (auto simp: mem_new_members)
    have d: "distinct (map adv_pk (group_members (gs ! i)))" using mem i(1) by simp
    have "member_set m = k + i" "is_primary m \<longleftrightarrow> adv_pk (primary (gs ! i)) = member_advisory m"
      using i(2) d by (auto simp: memberships_def group_members_def image_iff)
    moreover have "?new ! i \<in> set ?new" using i(1) by simp
    ultimately show ?thesis using i(1) by (intro bexI [of _ "?new ! i"]) (simp_all add: new_set_rows_nth)
  qed
  moreover have "fst l \<in> set_pk ` set (set_rows db0 @ ?new)"
    if "l \<in> alias_links db0 \<union> new_links k gs" for l
  proof (cases "l \<in> alias_links db0")
    case True
    then show ?thesis using wf by (auto simp: set_db_wf_def)
  next
    case False
    with that have "l \<in> new_links k gs" by simp
    from new_links_bounds [OF this] have "fst l \<in> set_pk ` set ?new" unfolding npk by simp
    then show ?thesis by auto
  qed
  ultimately show ?thesis unfolding set_db_wf_def set_db.simps by blast
qed

lemma new_rows_stored:
  assumes wf: "set_db_wf db0" and k: "next_set_pk db0 = k"
    and old: "\<And>r. r \<in> set (set_rows db0) \<Longrightarrow> \<not> of_relation p rel r"
  shows "stored \<lparr>set_rows = set_rows db0 @ new_set_rows k p rel gs,
     member_rows = member_rows db0 @ new_members k gs,
     alias_links = alias_links db0 \<union> new_links k gs, next_set_pk = n\<rparr> q t =
     (if q = p \<and> t = rel then group_view ` set gs else stored db0 q t)"
proof -
  let ?new = "new_set_rows k p rel gs"
  have lt: "set_pk r < k" if "r \<in> set (set_rows db0)" for r
    using wf k that by (simp add: set_db_wf_def)
  have mlt: "member_set m < k" if "m \<in> set (member_rows db0)" for m
    using wf that lt by (fastforce simp: set_db_wf_def)
  have llt: "fst l < k" if "l \<in> alias_links db0" for l
    using wf that lt by (fastforce simp: set_db_wf_def)
  show ?thesis
  proof (cases "q = p \<and> t = rel")
    case True
    have "{r \<in> set (set_rows db0 @ ?new). of_relation p rel r} = set ?new"
      using old new_set_rows_relation by fastforce
    also have "\<dots> = (\<lambda>i. ?new ! i) ` {..<length gs}"
      by (simp add: set_conv_nth lessThan_def) (simp add: setcompr_eq_image)
    finally have rows: "{r \<in> set (set_rows db0 @ ?new). of_relation p rel r} = (\<lambda>i. ?new ! i) ` {..<length gs}" .
    have ms: "{m \<in> set (member_rows db0 @ new_members k gs). member_set m = k + i} =
        set (memberships (k + i) (gs ! i))" if "i < length gs" for i
      using new_members_of [OF that, of k] mlt by fastforce
    have ls: "{al. (k + i, al) \<in> alias_links db0 \<union> new_links k gs} = alias_pk ` grp_aliases (gs ! i)"
      if "i < length gs" for i
      using new_links_of [OF that, of k] llt by fastforce
    have "group_view ` set gs = (\<lambda>i. group_view (gs ! i)) ` {..<length gs}"
      by (simp add: set_conv_nth lessThan_def) (auto simp: setcompr_eq_image)
    moreover have "stored \<lparr>set_rows = set_rows db0 @ ?new,
        member_rows = member_rows db0 @ new_members k gs,
        alias_links = alias_links db0 \<union> new_links k gs, next_set_pk = n\<rparr> p rel =
      (\<lambda>i. group_view (gs ! i)) ` {..<length gs}"
      unfolding stored_def set_db.simps rows image_image
      by (rule image_cong [OF refl])
        (simp only: lessThan_iff new_set_rows_nth set_row.simps ms ls group_view_def
          memberships_advisories)
    ultimately show ?thesis using True by simp
  next
    case False
    have rows: "{r \<in> set (set_rows db0 @ ?new). of_relation q t r} = {r \<in> set (set_rows db0). of_relation q t r}"
      using False new_set_rows_relation by (fastforce simp: of_relation_def)
    have ms: "{m \<in> set (member_rows db0 @ new_members k gs). member_set m = set_pk r} =
        {m \<in> set (member_rows db0). member_set m = set_pk r}" if "r \<in> set (set_rows db0)" for r
      using lt [OF that] new_members_bounds by fastforce
    have ls: "{al. (set_pk r, al) \<in> alias_links db0 \<union> new_links k gs} = {al. (set_pk r, al) \<in> alias_links db0}"
      if "r \<in> set (set_rows db0)" for r
      using lt [OF that] new_links_bounds by fastforce
    have "stored \<lparr>set_rows = set_rows db0 @ ?new,
        member_rows = member_rows db0 @ new_members k gs,
        alias_links = alias_links db0 \<union> new_links k gs, next_set_pk = n\<rparr> q t = stored db0 q t"
      unfolding stored_def set_db.simps rows
      by (rule image_cong [OF refl]) (simp only: mem_Collect_eq ms ls)
    then show ?thesis using False by auto
  qed
qed

lemma save_sets_ok:
  assumes prim: "distinct (map (\<lambda>g. adv_pk (primary g)) gs)"
    and mem: "\<forall>g\<in>set gs. distinct (map adv_pk (group_members g))"
    and wf: "set_db_wf db"
  shows "\<exists>db'. delete_and_save_advisory_set gs pkg rel db = Inr db' \<and> set_db_wf db' \<and>
     (\<forall>q t. stored db' q t =
        (if q = pkg_pk pkg \<and> t = rel then group_view ` set gs else stored db q t))"
proof -
  let ?db0 = "delete_sets (pkg_pk pkg) rel db"
  have old: "r \<in> set (set_rows ?db0) \<Longrightarrow> \<not> of_relation (pkg_pk pkg) rel r" for r
    by (simp add: delete_sets_def Let_def)
  have k0: "next_set_pk ?db0 = next_set_pk db" by (simp add: delete_sets_def Let_def)
  note wf0 = delete_sets_wf [OF wf, of "pkg_pk pkg" rel]
  show ?thesis
    unfolding save_sets_eq [OF assms] Let_def
    using new_rows_wf [OF wf0 k0 old prim mem] new_rows_stored [OF wf0 k0 old]
    by (simp add: delete_sets_stored [OF wf])
qed

section \<open>The sets of a package\<close>

lemma groups_distinct:
  assumes "distinct (map adv_pk advs)" "mset (concat (map group_members gs)) = mset advs"
  shows "distinct (map (\<lambda>g. adv_pk (primary g)) gs)"
    and "\<forall>g\<in>set gs. distinct (map adv_pk (group_members g))"
proof -
  have "mset (map adv_pk (concat (map group_members gs))) = mset (map adv_pk advs)"
    using assms(2) by (metis mset_map)
  then have d: "distinct (map adv_pk (concat (map group_members gs)))"
    using assms(1) by (metis mset_eq_imp_distinct_iff)
  then show "distinct (map (\<lambda>g. adv_pk (primary g)) gs)"
    by (induction gs) (auto simp: group_members_def)
  show "\<forall>g\<in>set gs. distinct (map adv_pk (group_members g))"
    using d by (induction gs) auto
qed

lemma save_merged_ok:
  assumes "distinct (map adv_pk advs)" "set_db_wf db"
  shows "\<exists>gs db'. merge_advisories H advs pkg = Some gs \<and>
     delete_and_save_advisory_set gs pkg rel db = Inr db' \<and> set_db_wf db' \<and>
     (\<forall>q t. stored db' q t =
        (if q = pkg_pk pkg \<and> t = rel then group_view ` set gs else stored db q t))"
proof -
  obtain gs where gs: "merge_advisories H advs pkg = Some gs"
      "mset (concat (map group_members gs)) = mset advs"
    using merge_advisories_partition by blast
  from save_sets_ok [OF groups_distinct [OF assms(1) gs(2)] assms(2)] gs(1)
  show ?thesis by blast
qed

text \<open>What a successful run stores, in one place.\<close>

lemma group_single_ok:
  assumes "distinct (map adv_pk aff)" "distinct (map adv_pk fixing)" "set_db_wf db"
  shows "\<exists>ags fgs db'. merge_advisories H aff pkg = Some ags \<and> merge_advisories H fixing pkg = Some fgs \<and>
     group_single_package_with_provided_advisories H pkg aff fixing db = Some (db', None) \<and>
     set_db_wf db' \<and>
     (\<forall>q t. stored db' q t =
        (if q = pkg_pk pkg \<and> t = ''affecting'' then group_view ` set ags
         else if q = pkg_pk pkg \<and> t = ''fixing'' then group_view ` set fgs
         else stored db q t))"
proof -
  from save_merged_ok [OF assms(1,3), of H pkg "''affecting''"] obtain ags db1 where
    a: "merge_advisories H aff pkg = Some ags"
      "delete_and_save_advisory_set ags pkg ''affecting'' db = Inr db1" "set_db_wf db1"
      "\<forall>q t. stored db1 q t =
        (if q = pkg_pk pkg \<and> t = ''affecting'' then group_view ` set ags else stored db q t)"
    by blast
  from save_merged_ok [OF assms(2) a(3), of H pkg "''fixing''"] obtain fgs db2 where
    f: "merge_advisories H fixing pkg = Some fgs"
      "delete_and_save_advisory_set fgs pkg ''fixing'' db1 = Inr db2" "set_db_wf db2"
      "\<forall>q t. stored db2 q t =
        (if q = pkg_pk pkg \<and> t = ''fixing'' then group_view ` set fgs else stored db1 q t)"
    by blast
  have "group_single_package_with_provided_advisories H pkg aff fixing db = Some (db2, None)"
    by (simp add: group_single_package_with_provided_advisories_def a(1,2) f(1,2))
  with a f show ?thesis by auto
qed

lemma group_view_members:
  assumes "set (map (\<lambda>g. set (group_members g)) gs) = C"
  shows "(\<lambda>v. fst (snd v)) ` group_view ` set gs = (\<lambda>c. adv_pk ` c) ` C"
  unfolding assms [symmetric] by (simp add: image_image group_view_def)

definition empty_set_db :: set_db where
  "empty_set_db = \<lparr>set_rows = [], member_rows = [], alias_links = {}, next_set_pk = 1\<rparr>"

lemma empty_set_db_wf: "set_db_wf empty_set_db"
  by (simp add: set_db_wf_def empty_set_db_def)

definition demo_package :: package_row where
  "demo_package = \<lparr>pkg_pk = 40, pkg_type = ''pypi'', pkg_purl = ''pkg:pypi/a@1'', versionless_purl = ''pkg:pypi/a''\<rparr>"

lemma demo_pks: "distinct (map adv_pk demo_advs)"
  by (simp add: demo_advs_def demo_adv_def)

text \<open>
  \<open>merge_advisories\<close> groups two advisories together exactly when a chain of advisories with
  the same content hash, each sharing an identifier with the next, connects them.
\<close>

theorem merge_advisories_groups:
  assumes "distinct (map adv_pk advs)"
  shows "\<exists>gs. merge_advisories H advs pkg = Some gs \<and>
     set (map (\<lambda>g. set (group_members g)) gs) =
       (\<lambda>a. (alike H (versionless_purl pkg) advs)\<^sup>* `` {a}) ` set advs"
  by (rule merge_advisories_components [OF assms])

lemma merge_advisories_groups_witness:
  "\<exists>gs. merge_advisories (\<lambda>_. ''h'') demo_advs demo_package = Some gs \<and>
     set (map (\<lambda>g. set (group_members g)) gs) =
       (\<lambda>a. (alike (\<lambda>_. ''h'') (versionless_purl demo_package) demo_advs)\<^sup>* `` {a}) ` set demo_advs"
  by (rule merge_advisories_groups [OF demo_pks])

text \<open>
  C4: refinement of \<open>delete_and_save_advisory_set\<close>: for groups with distinct primaries and no
  repeated member, the call succeeds, keeps the table invariant (unique constraints, no dangling
  member or link, \<open>is_primary\<close> exactly on the primary), replaces the stored sets of that package
  and relation by exactly the given groups, and leaves every other package and relation alone.
\<close>

theorem save_sets_refines:
  assumes "distinct (map (\<lambda>g. adv_pk (primary g)) gs)"
    and "\<forall>g\<in>set gs. distinct (map adv_pk (group_members g))" and "set_db_wf db"
  shows "\<exists>db'. delete_and_save_advisory_set gs pkg rel db = Inr db' \<and> set_db_wf db' \<and>
     (\<forall>q t. stored db' q t =
        (if q = pkg_pk pkg \<and> t = rel then group_view ` set gs else stored db q t))"
  by (rule save_sets_ok [OF assms])

lemma save_sets_refines_witness:
  "\<exists>db'. delete_and_save_advisory_set [demo_pair, demo_single] demo_package ''fixing'' empty_set_db = Inr db' \<and>
     set_db_wf db' \<and> (\<forall>q t. stored db' q t =
        (if q = pkg_pk demo_package \<and> t = ''fixing'' then group_view ` set [demo_pair, demo_single]
         else stored empty_set_db q t))"
  by (rule save_sets_refines [OF _ _ empty_set_db_wf])
     (simp_all add: demo_pair_def demo_single_def demo_advs_def demo_adv_def group_members_def)

text \<open>
  C2: \<open>group_advisory_for_package\<close> for a package type with several importers: starting from
  consistent tables it succeeds and keeps them consistent; the members of the stored affecting
  (fixing) sets are exactly the components, by content and identifiers, of the latest completely
  imported advisories affecting (fixed by) the package; nothing of another package is touched.
\<close>

theorem package_sets_correct:
  assumes "distinct (map adv_pk tbl)" "set_db_wf db" "pkg_type pkg \<in> set TYPES_WITH_MULTIPLE_IMPORTERS"
  shows "\<exists>db'. group_advisory_for_package H tbl pkg db = Some db' \<and> set_db_wf db' \<and>
     (\<lambda>v. fst (snd v)) ` stored db' (pkg_pk pkg) ''affecting'' =
       (let advs = filter (\<lambda>a. affects a (pkg_purl pkg) \<and> visible a) tbl
        in (\<lambda>c. adv_pk ` c) ` (\<lambda>a. (alike H (versionless_purl pkg) advs)\<^sup>* `` {a}) ` set advs) \<and>
     (\<lambda>v. fst (snd v)) ` stored db' (pkg_pk pkg) ''fixing'' =
       (let advs = filter (\<lambda>a. fixes_purl a (pkg_purl pkg) \<and> visible a) tbl
        in (\<lambda>c. adv_pk ` c) ` (\<lambda>a. (alike H (versionless_purl pkg) advs)\<^sup>* `` {a}) ` set advs) \<and>
     (\<forall>q t. q \<noteq> pkg_pk pkg \<longrightarrow> stored db' q t = stored db q t)"
proof -
  let ?aff = "latest_affecting_advisories_for_purl tbl (pkg_purl pkg)"
  let ?fix = "latest_fixed_by_advisories_for_purl tbl (pkg_purl pkg)"
  have d: "distinct (map adv_pk ?aff)" "distinct (map adv_pk ?fix)"
    using assms(1) by (simp_all add: latest_affecting_advisories_for_purl_def
        latest_fixed_by_advisories_for_purl_def distinct_map_filter)
  from group_single_ok [OF d assms(2), of H pkg] obtain ags fgs db' where
    r: "merge_advisories H ?aff pkg = Some ags" "merge_advisories H ?fix pkg = Some fgs"
      "group_single_package_with_provided_advisories H pkg ?aff ?fix db = Some (db', None)"
      "set_db_wf db'"
      "\<forall>q t. stored db' q t =
        (if q = pkg_pk pkg \<and> t = ''affecting'' then group_view ` set ags
         else if q = pkg_pk pkg \<and> t = ''fixing'' then group_view ` set fgs
         else stored db q t)"
    by blast
  have 1: "set (map (\<lambda>g. set (group_members g)) ags) =
       (\<lambda>a. (alike H (versionless_purl pkg) ?aff)\<^sup>* `` {a}) ` set ?aff"
    using merge_advisories_components [OF d(1), of H pkg] r(1) by (elim exE conjE) simp
  have 2: "set (map (\<lambda>g. set (group_members g)) fgs) =
       (\<lambda>a. (alike H (versionless_purl pkg) ?fix)\<^sup>* `` {a}) ` set ?fix"
    using merge_advisories_components [OF d(2), of H pkg] r(2) by (elim exE conjE) simp
  have "group_advisory_for_package H tbl pkg db = Some db'"
    using assms(3) r(3) by (simp add: group_advisory_for_package_def)
  moreover have "stored db' (pkg_pk pkg) ''affecting'' = group_view ` set ags"
    "stored db' (pkg_pk pkg) ''fixing'' = group_view ` set fgs"
    "\<forall>q t. q \<noteq> pkg_pk pkg \<longrightarrow> stored db' q t = stored db q t"
    using r(5) by simp_all
  ultimately show ?thesis
    using r(4) group_view_members [OF 1] group_view_members [OF 2]
    unfolding Let_def latest_affecting_advisories_for_purl_def latest_fixed_by_advisories_for_purl_def
    by (intro exI [of _ db'] conjI) simp_all
qed

definition demo_table :: "adv_row list" where
  "demo_table = map (\<lambda>a. a\<lparr>impacted_packages := [\<lparr>base_purl = ''pkg:pypi/a'',
     affecting_packages = [''pkg:pypi/a@1''], fixed_by_packages = [''pkg:pypi/a@2'']\<rparr>]\<rparr>) demo_advs"

lemma package_sets_correct_witness:
  "\<exists>db'. group_advisory_for_package (\<lambda>_. ''h'') demo_table demo_package empty_set_db = Some db' \<and>
     set_db_wf db' \<and>
     (\<lambda>v. fst (snd v)) ` stored db' (pkg_pk demo_package) ''affecting'' =
       (let advs = filter (\<lambda>a. affects a (pkg_purl demo_package) \<and> visible a) demo_table
        in (\<lambda>c. adv_pk ` c) ` (\<lambda>a. (alike (\<lambda>_. ''h'') (versionless_purl demo_package) advs)\<^sup>* `` {a}) ` set advs) \<and>
     (\<lambda>v. fst (snd v)) ` stored db' (pkg_pk demo_package) ''fixing'' =
       (let advs = filter (\<lambda>a. fixes_purl a (pkg_purl demo_package) \<and> visible a) demo_table
        in (\<lambda>c. adv_pk ` c) ` (\<lambda>a. (alike (\<lambda>_. ''h'') (versionless_purl demo_package) advs)\<^sup>* `` {a}) ` set advs) \<and>
     (\<forall>q t. q \<noteq> pkg_pk demo_package \<longrightarrow> stored db' q t = stored empty_set_db q t)"
  by (rule package_sets_correct [OF _ empty_set_db_wf])
     (simp_all add: demo_table_def demo_advs_def demo_adv_def demo_package_def TYPES_WITH_MULTIPLE_IMPORTERS_def)

text \<open>
  grouping is idempotent: running \<open>group_advisory_for_package\<close> again on its own result
  stores the same sets, for every package and relation.
\<close>

theorem package_sets_idempotent:
  assumes "distinct (map adv_pk tbl)" "set_db_wf db"
  shows "\<exists>db1 db2. group_advisory_for_package H tbl pkg db = Some db1 \<and>
     group_advisory_for_package H tbl pkg db1 = Some db2 \<and>
     (\<forall>q t. stored db2 q t = stored db1 q t)"
proof (cases "pkg_type pkg \<in> set TYPES_WITH_MULTIPLE_IMPORTERS")
  case False
  then show ?thesis by (simp add: group_advisory_for_package_def)
next
  case True
  let ?aff = "latest_affecting_advisories_for_purl tbl (pkg_purl pkg)"
  let ?fix = "latest_fixed_by_advisories_for_purl tbl (pkg_purl pkg)"
  have d: "distinct (map adv_pk ?aff)" "distinct (map adv_pk ?fix)"
    using assms(1) by (simp_all add: latest_affecting_advisories_for_purl_def
        latest_fixed_by_advisories_for_purl_def distinct_map_filter)
  from group_single_ok [OF d assms(2), of H pkg] obtain ags fgs db1 where
    r: "merge_advisories H ?aff pkg = Some ags" "merge_advisories H ?fix pkg = Some fgs"
      "group_single_package_with_provided_advisories H pkg ?aff ?fix db = Some (db1, None)"
      "set_db_wf db1"
      "\<forall>q t. stored db1 q t =
        (if q = pkg_pk pkg \<and> t = ''affecting'' then group_view ` set ags
         else if q = pkg_pk pkg \<and> t = ''fixing'' then group_view ` set fgs
         else stored db q t)"
    by blast
  from group_single_ok [OF d r(4), of H pkg] r(1,2) obtain db2 where
    s: "group_single_package_with_provided_advisories H pkg ?aff ?fix db1 = Some (db2, None)"
      "\<forall>q t. stored db2 q t =
        (if q = pkg_pk pkg \<and> t = ''affecting'' then group_view ` set ags
         else if q = pkg_pk pkg \<and> t = ''fixing'' then group_view ` set fgs
         else stored db1 q t)"
    by (elim exE conjE) simp
  have "\<forall>q t. stored db2 q t = stored db1 q t"
    using r(5) s(2) by simp
  with r(3) s(1) True show ?thesis by (simp add: group_advisory_for_package_def)
qed

lemma package_sets_idempotent_witness:
  "\<exists>db1 db2. group_advisory_for_package (\<lambda>_. ''h'') demo_table demo_package empty_set_db = Some db1 \<and>
     group_advisory_for_package (\<lambda>_. ''h'') demo_table demo_package db1 = Some db2 \<and>
     (\<forall>q t. stored db2 q t = stored db1 q t)"
  by (rule package_sets_idempotent [OF _ empty_set_db_wf])
     (simp add: demo_table_def demo_advs_def demo_adv_def)

end
