(* ===== verification/GroupViews.thy ===== *)
theory GroupViews
  imports AdvisorySets
begin

text \<open>
  What \<open>vulnerabilities/utils.py\<close> computes for the API from groups and aliases:
  \<open>get_advisories_from_groups\<close> (scores and identifier of a group),
  \<open>relate_aliases_with_advisories\<close> and \<open>build_alias_to_advisory_map\<close>. Scores are rationals; the
  rounding of a float or decimal to one place is the parameter \<open>round1\<close>.
\<close>

section \<open>Grouped advisories\<close>

record grouped_advisory =
  ga_aliases :: "alias_row set"
  ga_advisory :: adv_row
  ga_identifier :: string
  ga_weighted_severity :: rat
  ga_exploitability :: rat
  ga_risk_score :: "rat option"

definition or_zero :: "rat option \<Rightarrow> rat" where
  "or_zero v = (case v of None \<Rightarrow> 0 | Some x \<Rightarrow> x)"

definition max_of :: "rat \<Rightarrow> rat list \<Rightarrow> rat" where
  "max_of x xs = fold max xs x"

definition grouped_advisory_of :: "(rat \<Rightarrow> rat) \<Rightarrow> group \<Rightarrow> grouped_advisory" where
  "grouped_advisory_of round1 g =
     (let weighted = round1 (max_of (or_zero (weighted_severity (primary g)))
                        (map (\<lambda>a. or_zero (weighted_severity a)) (secondaries g)));
          expl = max_of (or_zero (exploitability (primary g)))
                        (map (\<lambda>a. or_zero (exploitability a)) (secondaries g));
          risk = (if expl \<noteq> 0 \<and> weighted \<noteq> 0 then Some (round1 (min (expl * weighted) 10)) else None);
          ident = last (split_on (CHR ''/'') (advisory_id (primary g)))
      in \<lparr>ga_aliases = {al \<in> grp_aliases g. alias_name al \<noteq> ident},
          ga_advisory = primary g, ga_identifier = ident, ga_weighted_severity = weighted,
          ga_exploitability = expl, ga_risk_score = risk\<rparr>)"

text \<open>Without the SSVC trees (\<open>include_ssvc_trees=False\<close>).\<close>

definition get_advisories_from_groups :: "(rat \<Rightarrow> rat) \<Rightarrow> group list \<Rightarrow> grouped_advisory list" where
  "get_advisories_from_groups round1 gs = map (grouped_advisory_of round1) gs"

lemma fold_max_ge: "(z :: rat) \<le> fold max xs z"
proof (induction xs arbitrary: z)
  case (Cons y ys)
  have "z \<le> max y z" by simp
  also have "\<dots> \<le> fold max ys (max y z)" by (rule Cons)
  finally show ?case by simp
qed simp

lemma max_of_ge: "x \<le> max_of x xs" "y \<in> set xs \<Longrightarrow> y \<le> max_of x xs"
proof -
  show "x \<le> max_of x xs" by (simp add: max_of_def fold_max_ge)
  show "y \<in> set xs \<Longrightarrow> y \<le> max_of x xs"
    unfolding max_of_def
  proof (induction xs arbitrary: x)
    case (Cons z xs)
    have "max z x \<le> fold max xs (max z x)" by (rule fold_max_ge)
    with Cons show ?case by auto
  qed simp
qed

lemma max_of_in: "max_of x xs \<in> insert x (set xs)"
  unfolding max_of_def by (induction xs arbitrary: x) (auto simp: max_def split: if_splits)

text \<open>
  scores of a group: its exploitability is that of some member (0 for an absent value) and no
  member exceeds it; with non-negative scores and a monotone rounding that fixes 0 and 10, the risk
  score lies between 0 and 10 and is absent exactly when one of the two factors is 0.
\<close>

theorem grouped_scores:
  assumes "mono round1" "round1 0 = 0" "round1 10 = 10"
    and "\<And>a. a \<in> set (group_members g) \<Longrightarrow> 0 \<le> or_zero (exploitability a) \<and> 0 \<le> or_zero (weighted_severity a)"
  shows "let r = grouped_advisory_of round1 g in
     ga_exploitability r \<in> or_zero ` exploitability ` set (group_members g) \<and>
     (\<forall>a\<in>set (group_members g). or_zero (exploitability a) \<le> ga_exploitability r) \<and>
     (case ga_risk_score r of
        None \<Rightarrow> ga_exploitability r = 0 \<or> ga_weighted_severity r = 0
      | Some s \<Rightarrow> 0 \<le> s \<and> s \<le> 10)"
proof -
  let ?e = "max_of (or_zero (exploitability (primary g))) (map (\<lambda>a. or_zero (exploitability a)) (secondaries g))"
  let ?w = "max_of (or_zero (weighted_severity (primary g))) (map (\<lambda>a. or_zero (weighted_severity a)) (secondaries g))"
  have e: "?e \<in> or_zero ` exploitability ` set (group_members g)"
    using max_of_in [of "or_zero (exploitability (primary g))" "map (\<lambda>a. or_zero (exploitability a)) (secondaries g)"]
    by (auto simp: group_members_def image_image)
  have ge: "\<forall>a\<in>set (group_members g). or_zero (exploitability a) \<le> ?e"
    by (auto simp: group_members_def max_of_ge)
  have "0 \<le> ?e" using e assms(4) by auto
  moreover have "?w \<in> or_zero ` weighted_severity ` set (group_members g)"
    using max_of_in [of "or_zero (weighted_severity (primary g))" "map (\<lambda>a. or_zero (weighted_severity a)) (secondaries g)"]
    by (auto simp: group_members_def image_image)
  then have "0 \<le> ?w" using assms(4) by auto
  then have "0 \<le> round1 ?w" using monoD [OF assms(1), of 0 ?w] assms(2) by simp
  ultimately have "0 \<le> min (?e * round1 ?w) 10" by simp
  then have "0 \<le> round1 (min (?e * round1 ?w) 10)" "round1 (min (?e * round1 ?w) 10) \<le> 10"
    using monoD [OF assms(1), of 0] monoD [OF assms(1), of _ 10] assms(2,3) by (metis, metis min.cobounded2)
  with e ge show ?thesis by (simp add: grouped_advisory_of_def Let_def)
qed

lemma grouped_scores_witness:
  "ga_exploitability (grouped_advisory_of (\<lambda>x. x) demo_pair) \<in>
     or_zero ` exploitability ` set (group_members demo_pair)"
  by (rule grouped_scores [unfolded Let_def, THEN conjunct1])
     (auto simp: mono_def demo_pair_def demo_advs_def demo_adv_def group_members_def or_zero_def)

section \<open>From aliases to advisories\<close>

definition has_alias :: "string \<Rightarrow> adv_row \<Rightarrow> bool" where
  "has_alias s a \<longleftrightarrow> s \<in> alias_name ` set (adv_aliases a)"

definition relate_aliases_with_advisories ::
    "alias_row list \<Rightarrow> adv_row list \<Rightarrow> string list \<Rightarrow> adv_row set" where
  "relate_aliases_with_advisories alias_tbl tbl aliases =
     (let found = set aliases \<inter> alias_name ` set alias_tbl;
          alias_advisories = filter (\<lambda>a. (\<exists>s\<in>found. has_alias s a) \<and> is_latest a \<and> all_impacts_unfurled a) tbl;
          missing = set aliases - found;
          advisory_id_advisories = latest_per_avid (filter (\<lambda>a. advisory_id a \<in> missing \<and> all_impacts_unfurled a) tbl)
      in set alias_advisories \<union> set advisory_id_advisories)"

definition build_alias_to_advisory_map ::
    "alias_row list \<Rightarrow> adv_row list \<Rightarrow> string list \<Rightarrow> (string \<times> adv_row set) list" where
  "build_alias_to_advisory_map alias_tbl tbl aliases =
     (let by_alias = concat (map (\<lambda>r. map (\<lambda>a. (a, alias_name r))
             (filter (\<lambda>a. r \<in> set (adv_aliases a) \<and> visible a) tbl))
             (filter (\<lambda>r. alias_name r \<in> set aliases) alias_tbl));
          by_id = map (\<lambda>a. (a, advisory_id a)) (filter (\<lambda>a. advisory_id a \<in> set aliases \<and> visible a) tbl)
      in fold (\<lambda>(a, t). add_member t a) (by_alias @ by_id) [])"

lemma alias_map_lookup:
  assumes "\<And>a. a \<in> set tbl \<Longrightarrow> set (adv_aliases a) \<subseteq> set alias_tbl"
  shows "dict_get (build_alias_to_advisory_map alias_tbl tbl aliases) s {} =
     (if s \<in> set aliases then {a \<in> set tbl. visible a \<and> (advisory_id a = s \<or> has_alias s a)} else {})"
proof -
  let ?ps = "concat (map (\<lambda>r. map (\<lambda>a. (a, alias_name r))
             (filter (\<lambda>a. r \<in> set (adv_aliases a) \<and> visible a) tbl))
             (filter (\<lambda>r. alias_name r \<in> set aliases) alias_tbl)) @
      map (\<lambda>a. (a, advisory_id a)) (filter (\<lambda>a. advisory_id a \<in> set aliases \<and> visible a) tbl)"
  have "dict_get (build_alias_to_advisory_map alias_tbl tbl aliases) s {} = {a. (a, s) \<in> set ?ps}"
    unfolding build_alias_to_advisory_map_def Let_def identifier_groups_def [symmetric]
    by (rule dict_get_identifier_groups)
  also have "\<dots> = (if s \<in> set aliases then {a \<in> set tbl. visible a \<and> (advisory_id a = s \<or> has_alias s a)} else {})"
    using assms by (auto simp: has_alias_def)
  finally show ?thesis .
qed

text \<open>
  \<open>build_alias_to_advisory_map\<close> maps each requested string to the latest completely imported
  advisories that have it as an alias or as advisory id; \<open>relate_aliases_with_advisories\<close> returns
  a subset of them, and all of them when no requested alias in the alias table is also the advisory
  id of some advisory.
\<close>

theorem alias_lookups_agree:
  assumes "\<And>a. a \<in> set tbl \<Longrightarrow> set (adv_aliases a) \<subseteq> set alias_tbl"
  shows "(\<forall>s\<in>set aliases. dict_get (build_alias_to_advisory_map alias_tbl tbl aliases) s {} =
       {a \<in> set tbl. visible a \<and> (advisory_id a = s \<or> has_alias s a)}) \<and>
     relate_aliases_with_advisories alias_tbl tbl aliases \<subseteq>
       (\<Union>s\<in>set aliases. dict_get (build_alias_to_advisory_map alias_tbl tbl aliases) s {}) \<and>
     (advisory_id ` set tbl \<inter> alias_name ` set alias_tbl \<inter> set aliases = {} \<longrightarrow>
      relate_aliases_with_advisories alias_tbl tbl aliases =
       (\<Union>s\<in>set aliases. dict_get (build_alias_to_advisory_map alias_tbl tbl aliases) s {}))"
proof (intro conjI impI)
  note look = alias_map_lookup [OF assms]
  have rel: "relate_aliases_with_advisories alias_tbl tbl aliases =
      {a \<in> set tbl. visible a \<and> (\<exists>s\<in>set aliases. s \<in> alias_name ` set alias_tbl \<and> has_alias s a \<or>
                                        s \<notin> alias_name ` set alias_tbl \<and> advisory_id a = s)}"
    by (auto simp: relate_aliases_with_advisories_def Let_def latest_per_avid_def visible_def)
  show "\<forall>s\<in>set aliases. dict_get (build_alias_to_advisory_map alias_tbl tbl aliases) s {} =
       {a \<in> set tbl. visible a \<and> (advisory_id a = s \<or> has_alias s a)}"
    by (simp add: look)
  show "relate_aliases_with_advisories alias_tbl tbl aliases \<subseteq>
       (\<Union>s\<in>set aliases. dict_get (build_alias_to_advisory_map alias_tbl tbl aliases) s {})"
    by (auto simp: rel look)
  assume D: "advisory_id ` set tbl \<inter> alias_name ` set alias_tbl \<inter> set aliases = {}"
  have iff: "(s \<in> alias_name ` set alias_tbl \<and> has_alias s a \<or> s \<notin> alias_name ` set alias_tbl \<and> advisory_id a = s)
      = (advisory_id a = s \<or> has_alias s a)" if a: "a \<in> set tbl" and s: "s \<in> set aliases" for a s
  proof (cases "s \<in> alias_name ` set alias_tbl")
    case True
    have "advisory_id a \<in> advisory_id ` set tbl" using a by simp
    with True s D have "advisory_id a \<noteq> s" by (metis IntI empty_iff)
    with True show ?thesis by simp
  next
    case False
    with assms [OF a] have "\<not> has_alias s a" by (auto simp: has_alias_def)
    with False show ?thesis by simp
  qed
  have "relate_aliases_with_advisories alias_tbl tbl aliases =
      {a \<in> set tbl. visible a \<and> (\<exists>s\<in>set aliases. advisory_id a = s \<or> has_alias s a)}"
    unfolding rel
  proof (intro Collect_cong conj_cong refl bex_cong)
    fix a s assume "a \<in> set tbl" "s \<in> set aliases"
    then show "(s \<in> alias_name ` set alias_tbl \<and> has_alias s a \<or> s \<notin> alias_name ` set alias_tbl \<and> advisory_id a = s)
      = (advisory_id a = s \<or> has_alias s a)" by (rule iff)
  qed
  also have "\<dots> = (\<Union>s\<in>set aliases. dict_get (build_alias_to_advisory_map alias_tbl tbl aliases) s {})"
    by (simp add: look) blast
  finally show "relate_aliases_with_advisories alias_tbl tbl aliases =
       (\<Union>s\<in>set aliases. dict_get (build_alias_to_advisory_map alias_tbl tbl aliases) s {})" .
qed

lemma alias_lookups_agree_witness:
  "dict_get (build_alias_to_advisory_map [\<lparr>alias_pk = 7, alias_name = ''CVE-1''\<rparr>] demo_advs [''CVE-1'']) ''CVE-1'' {} =
       {a \<in> set demo_advs. visible a \<and> (advisory_id a = ''CVE-1'' \<or> has_alias ''CVE-1'' a)}"
  by (rule alias_lookups_agree [THEN conjunct1, THEN bspec]) (auto simp: demo_advs_def demo_adv_def)

end
