(* ===== verification/Ssvc.thy ===== *)
theory Ssvc
  imports Prelude
begin

text \<open>
  \<open>ssvc_calculator\<close> of \<open>vulnerabilities/utils.py\<close>: the vector and the decision of the CISA
  stakeholder-specific vulnerability categorisation. The options are a list of dictionaries from
  decision points to values; the parsing and printing of the timestamp is a parameter.
\<close>

type_synonym options = "(string \<times> string) list list"

definition mission_well_being_table :: "((string \<times> string) \<times> string) list" where
  "mission_well_being_table = [
     ((''minimal'', ''minimal''), ''low''), ((''minimal'', ''material''), ''medium''),
     ((''minimal'', ''irreversible''), ''high''), ((''support'', ''minimal''), ''medium''),
     ((''support'', ''material''), ''medium''), ((''support'', ''irreversible''), ''high''),
     ((''essential'', ''minimal''), ''high''), ((''essential'', ''material''), ''high''),
     ((''essential'', ''irreversible''), ''high'')]"

definition decision_points :: "(string \<times> (string \<times> (string \<times> string) list)) list" where
  "decision_points = [
     (''Exploitation'', (''E'', [(''none'', ''N''), (''poc'', ''P''), (''active'', ''A'')])),
     (''Automatable'', (''A'', [(''no'', ''N''), (''yes'', ''Y'')])),
     (''Technical Impact'', (''T'', [(''partial'', ''P''), (''total'', ''T'')])),
     (''Public Well-being Impact'', (''B'', [(''minimal'', ''M''), (''material'', ''A''), (''irreversible'', ''I'')])),
     (''Mission Prevalence'', (''P'', [(''minimal'', ''M''), (''support'', ''S''), (''essential'', ''E'')])),
     (''Mission & Well-being'', (''M'', [(''low'', ''L''), (''medium'', ''M''), (''high'', ''H'')]))]"

definition decision_values :: "(string \<times> string) list" where
  "decision_values = [(''Track'', ''T''), (''Track*'', ''R''), (''Attend'', ''A''), (''Act'', ''C'')]"

definition decision_lookup :: "((string \<times> string \<times> string \<times> string) \<times> string) list" where
  "decision_lookup = [
     ((''none'', ''no'', ''partial'', ''low''), ''Track''),
     ((''none'', ''no'', ''partial'', ''medium''), ''Track''),
     ((''none'', ''no'', ''partial'', ''high''), ''Track''),
     ((''none'', ''no'', ''total'', ''low''), ''Track''),
     ((''none'', ''no'', ''total'', ''medium''), ''Track''),
     ((''none'', ''no'', ''total'', ''high''), ''Track*''),
     ((''none'', ''yes'', ''partial'', ''low''), ''Track''),
     ((''none'', ''yes'', ''partial'', ''medium''), ''Track''),
     ((''none'', ''yes'', ''partial'', ''high''), ''Attend''),
     ((''none'', ''yes'', ''total'', ''low''), ''Track''),
     ((''none'', ''yes'', ''total'', ''medium''), ''Track''),
     ((''none'', ''yes'', ''total'', ''high''), ''Attend''),
     ((''poc'', ''no'', ''partial'', ''low''), ''Track''),
     ((''poc'', ''no'', ''partial'', ''medium''), ''Track''),
     ((''poc'', ''no'', ''partial'', ''high''), ''Track*''),
     ((''poc'', ''no'', ''total'', ''low''), ''Track''),
     ((''poc'', ''no'', ''total'', ''medium''), ''Track*''),
     ((''poc'', ''no'', ''total'', ''high''), ''Attend''),
     ((''poc'', ''yes'', ''partial'', ''low''), ''Track''),
     ((''poc'', ''yes'', ''partial'', ''medium''), ''Track''),
     ((''poc'', ''yes'', ''partial'', ''high''), ''Attend''),
     ((''poc'', ''yes'', ''total'', ''low''), ''Track''),
     ((''poc'', ''yes'', ''total'', ''medium''), ''Track*''),
     ((''poc'', ''yes'', ''total'', ''high''), ''Attend''),
     ((''active'', ''no'', ''partial'', ''low''), ''Track''),
     ((''active'', ''no'', ''partial'', ''medium''), ''Track''),
     ((''active'', ''no'', ''partial'', ''high''), ''Attend''),
     ((''active'', ''no'', ''total'', ''low''), ''Track''),
     ((''active'', ''no'', ''total'', ''medium''), ''Attend''),
     ((''active'', ''no'', ''total'', ''high''), ''Act''),
     ((''active'', ''yes'', ''partial'', ''low''), ''Attend''),
     ((''active'', ''yes'', ''partial'', ''medium''), ''Attend''),
     ((''active'', ''yes'', ''partial'', ''high''), ''Act''),
     ((''active'', ''yes'', ''total'', ''low''), ''Attend''),
     ((''active'', ''yes'', ''total'', ''medium''), ''Act''),
     ((''active'', ''yes'', ''total'', ''high''), ''Act'')]"

definition options_dict :: "options \<Rightarrow> (string \<times> string) list" where
  "options_dict options = fold (\<lambda>(k, v). AList.update k (lower v)) (concat options) []"

text \<open>\<open>if key not in d: d[key] = dflt\<close>\<close>

definition set_default :: "string \<Rightarrow> string \<Rightarrow> (string \<times> string) list \<Rightarrow> (string \<times> string) list" where
  "set_default k dflt d = (if k \<in> set (dict_keys d) then d else AList.update k dflt d)"

definition decision_key ::
    "(string \<times> string) list \<Rightarrow> (string \<times> string \<times> string \<times> string) option" where
  "decision_key d =
     (case (map_of d ''Exploitation'', map_of d ''Automatable'', map_of d ''Technical Impact'',
            map_of d ''Mission & Well-being'') of
        (Some e, Some a, Some t, Some m) \<Rightarrow> Some (e, a, t, m)
      | _ \<Rightarrow> None)"

text \<open>An absent member prints as \<open>None\<close>; an unknown decision point has no \<open>items\<close>.\<close>

fun vector_parts :: "(string \<times> string) list \<Rightarrow> string result" where
  "vector_parts [] = Inr []"
| "vector_parts ((key, v) # d) =
     (case map_of decision_points key of
        None \<Rightarrow> Inl AttributeError
      | Some (lhs, rhs_map) \<Rightarrow>
          map_sum id (\<lambda>rest. lhs @ '':'' @ dict_get rhs_map v ''None'' @ ''/'' @ rest) (vector_parts d))"

definition ssvc_calculator ::
    "(string \<Rightarrow> string result) \<Rightarrow> options \<Rightarrow> string option \<Rightarrow> (string \<times> string) result" where
  "ssvc_calculator format_time options timestamp =
     (let d1 = set_default ''Mission Prevalence'' ''minimal'' (options_dict options);
          d2 = set_default ''Public Well-being Impact'' ''material'' d1
      in case map_of mission_well_being_table
                (dict_get d2 ''Mission Prevalence'' [], dict_get d2 ''Public Well-being Impact'' []) of
           None \<Rightarrow> Inl KeyError
         | Some m \<Rightarrow>
             (let d = AList.update ''Mission & Well-being'' m d2
              in case vector_parts d of
                   Inl e \<Rightarrow> Inl e
                 | Inr parts \<Rightarrow>
                     (let decision = (case decision_key d of None \<Rightarrow> []
                                      | Some key \<Rightarrow> dict_get decision_lookup key []);
                          vec = ''SSVCv2/'' @ parts @
                            (if decision \<noteq> [] then ''D:'' @ dict_get decision_values decision ''None'' @ ''/'' else [])
                      in if timestamp = None \<or> timestamp = Some [] then Inr (vec, decision)
                         else (case format_time (the timestamp) of
                                 Inl e \<Rightarrow> Inl e
                               | Inr s \<Rightarrow> Inr (vec @ s @ ''/'', decision)))))"

section \<open>The decision table\<close>

definition rank_of :: "string \<Rightarrow> nat" where
  "rank_of d = (if d = ''Track'' then 1 else if d = ''Track*'' then 2 else if d = ''Attend'' then 3
                else if d = ''Act'' then 4 else 0)"

definition ssvc_levels :: "(string list \<times> string list) \<times> (string list \<times> string list)" where
  "ssvc_levels = (([''none'', ''poc'', ''active''], [''no'', ''yes'']),
                  ([''partial'', ''total''], [''low'', ''medium'', ''high'']))"

text \<open>The rank of the decision, by the positions of the four values on their scales.\<close>

definition rank_at :: "nat \<Rightarrow> nat \<Rightarrow> nat \<Rightarrow> nat \<Rightarrow> nat" where
  "rank_at e a t m = rank_of (dict_get decision_lookup
     (fst (fst ssvc_levels) ! e, snd (fst ssvc_levels) ! a, fst (snd ssvc_levels) ! t, snd (snd ssvc_levels) ! m) [])"

definition rank_table :: "nat list" where
  "rank_table = [1,1,1, 1,1,2, 1,1,3, 1,1,3, 1,1,2, 1,2,3, 1,1,3, 1,2,3, 1,1,3, 1,3,4, 3,3,4, 3,4,4]"

lemma rank_at_table:
  assumes "e < 3" "a < 2" "t < 2" "m < 3"
  shows "rank_at e a t m = rank_table ! (((e * 2 + a) * 2 + t) * 3 + m)"
proof -
  have "list_all (\<lambda>e. list_all (\<lambda>a. list_all (\<lambda>t. list_all (\<lambda>m.
      rank_at e a t m = rank_table ! (((e * 2 + a) * 2 + t) * 3 + m)) [0, 1, 2]) [0, 1]) [0, 1]) [0, 1, 2]"
    by code_simp
  moreover have "e \<in> set [0, 1, 2]" "a \<in> set [0, 1]" "t \<in> set [0, 1]" "m \<in> set [0, 1, 2]"
    using assms by auto
  ultimately show ?thesis unfolding list_all_iff by blast
qed

lemma rank_at_mono:
  assumes "e \<le> e'" "a \<le> a'" "t \<le> t'" "m \<le> m'" "e' < 3" "a' < 2" "t' < 2" "m' < 3"
  shows "rank_at e a t m \<le> rank_at e' a' t' m'"
proof -
  have "list_all (\<lambda>e'. list_all (\<lambda>e. list_all (\<lambda>a'. list_all (\<lambda>a. list_all (\<lambda>t'. list_all (\<lambda>t.
      list_all (\<lambda>m'. list_all (\<lambda>m.
        rank_table ! (((e * 2 + a) * 2 + t) * 3 + m) \<le> rank_table ! (((e' * 2 + a') * 2 + t') * 3 + m'))
        [0..<Suc m']) [0..<3]) [0..<Suc t']) [0..<2]) [0..<Suc a']) [0..<2]) [0..<Suc e']) [0..<3]"
    by code_simp
  moreover have "e' \<in> set [0..<3]" "e \<in> set [0..<Suc e']" "a' \<in> set [0..<2]" "a \<in> set [0..<Suc a']"
    "t' \<in> set [0..<2]" "t \<in> set [0..<Suc t']" "m' \<in> set [0..<3]" "m \<in> set [0..<Suc m']"
    using assms by auto
  ultimately have "rank_table ! (((e * 2 + a) * 2 + t) * 3 + m) \<le> rank_table ! (((e' * 2 + a') * 2 + t') * 3 + m')"
    unfolding list_all_iff by blast
  moreover have "e < 3" "a < 2" "t < 2" "m < 3" using assms by auto
  ultimately show ?thesis using assms(5-8) by (simp add: rank_at_table)
qed

text \<open>Mission prevalence and well-being impact, by their positions, give the position of their combination.\<close>

definition mission_at :: "nat \<Rightarrow> nat \<Rightarrow> nat" where
  "mission_at p b = [0, 1, 2, 1, 1, 2, 2, 2, 2] ! (p * 3 + b)"

definition prevalences :: "string list" where
  "prevalences = [''minimal'', ''support'', ''essential'']"

definition impacts :: "string list" where
  "impacts = [''minimal'', ''material'', ''irreversible'']"

lemma mission_at_table:
  assumes "p < 3" "b < 3"
  shows "map_of mission_well_being_table (prevalences ! p, impacts ! b) = Some (snd (snd ssvc_levels) ! mission_at p b)
    \<and> mission_at p b < 3"
proof -
  have "list_all (\<lambda>p. list_all (\<lambda>b. map_of mission_well_being_table (prevalences ! p, impacts ! b) =
      Some (snd (snd ssvc_levels) ! mission_at p b) \<and> mission_at p b < 3) [0..<3]) [0..<3]"
    by code_simp
  moreover have "p \<in> set [0..<3]" "b \<in> set [0..<3]" using assms by auto
  ultimately show ?thesis unfolding list_all_iff by blast
qed

lemma mission_at_mono:
  assumes "p \<le> p'" "b \<le> b'" "p' < 3" "b' < 3"
  shows "mission_at p b \<le> mission_at p' b'"
proof -
  have "list_all (\<lambda>p'. list_all (\<lambda>p. list_all (\<lambda>b'. list_all (\<lambda>b. mission_at p b \<le> mission_at p' b')
      [0..<Suc b']) [0..<3]) [0..<Suc p']) [0..<3]"
    by code_simp
  moreover have "p' \<in> set [0..<3]" "p \<in> set [0..<Suc p']" "b' \<in> set [0..<3]" "b \<in> set [0..<Suc b']"
    using assms by auto
  ultimately show ?thesis unfolding list_all_iff by blast
qed

section \<open>The calculator\<close>

definition full_options :: "string \<Rightarrow> string \<Rightarrow> string \<Rightarrow> string \<Rightarrow> string \<Rightarrow> options" where
  "full_options e a t p b = [[(''Exploitation'', e)], [(''Automatable'', a)], [(''Technical Impact'', t)],
     [(''Mission Prevalence'', p)], [(''Public Well-being Impact'', b)]]"

lemma ssvc_full:
  assumes "lower e = e" "lower a = a" "lower t = t" "lower p = p" "lower b = b"
    and "map_of mission_well_being_table (p, b) = Some m"
  shows "\<exists>vec. ssvc_calculator f (full_options e a t p b) None =
     Inr (vec, dict_get decision_lookup (e, a, t, m) [])"
  using assms
  by (simp add: ssvc_calculator_def options_dict_def full_options_def set_default_def dict_keys_def
      dict_get_def decision_key_def decision_points_def Let_def)

definition options_at :: "nat \<Rightarrow> nat \<Rightarrow> nat \<Rightarrow> nat \<Rightarrow> nat \<Rightarrow> options" where
  "options_at e a t p b = full_options (fst (fst ssvc_levels) ! e) (snd (fst ssvc_levels) ! a)
     (fst (snd ssvc_levels) ! t) (prevalences ! p) (impacts ! b)"

lemma lower_levels:
  "e < 3 \<Longrightarrow> lower (fst (fst ssvc_levels) ! e) = fst (fst ssvc_levels) ! e"
  "a < 2 \<Longrightarrow> lower (snd (fst ssvc_levels) ! a) = snd (fst ssvc_levels) ! a"
  "t < 2 \<Longrightarrow> lower (fst (snd ssvc_levels) ! t) = fst (snd ssvc_levels) ! t"
  "p < 3 \<Longrightarrow> lower (prevalences ! p) = prevalences ! p"
  "b < 3 \<Longrightarrow> lower (impacts ! b) = impacts ! b"
proof -
  have l: "\<forall>x\<in>set xs. lower x = x \<Longrightarrow> i < length xs \<Longrightarrow> lower (xs ! i) = xs ! i" for xs :: "string list" and i
    by simp
  have s: "\<forall>x\<in>set (fst (fst ssvc_levels)). lower x = x" "\<forall>x\<in>set (snd (fst ssvc_levels)). lower x = x"
    "\<forall>x\<in>set (fst (snd ssvc_levels)). lower x = x" "\<forall>x\<in>set prevalences. lower x = x" "\<forall>x\<in>set impacts. lower x = x"
    by (simp_all add: ssvc_levels_def prevalences_def impacts_def lower_def lower_char_def)
  show "e < 3 \<Longrightarrow> lower (fst (fst ssvc_levels) ! e) = fst (fst ssvc_levels) ! e"
    by (rule l [OF s(1)]) (simp add: ssvc_levels_def)
  show "a < 2 \<Longrightarrow> lower (snd (fst ssvc_levels) ! a) = snd (fst ssvc_levels) ! a"
    by (rule l [OF s(2)]) (simp add: ssvc_levels_def)
  show "t < 2 \<Longrightarrow> lower (fst (snd ssvc_levels) ! t) = fst (snd ssvc_levels) ! t"
    by (rule l [OF s(3)]) (simp add: ssvc_levels_def)
  show "p < 3 \<Longrightarrow> lower (prevalences ! p) = prevalences ! p"
    by (rule l [OF s(4)]) (simp add: prevalences_def)
  show "b < 3 \<Longrightarrow> lower (impacts ! b) = impacts ! b"
    by (rule l [OF s(5)]) (simp add: impacts_def)
qed

lemma ssvc_at:
  assumes "e < 3" "a < 2" "t < 2" "p < 3" "b < 3"
  shows "\<exists>vec d. ssvc_calculator f (options_at e a t p b) None = Inr (vec, d) \<and>
     rank_of d = rank_at e a t (mission_at p b)"
  using ssvc_full [OF lower_levels(1) [OF assms(1)] lower_levels(2) [OF assms(2)] lower_levels(3) [OF assms(3)]
      lower_levels(4) [OF assms(4)] lower_levels(5) [OF assms(5)]
      conjunct1 [OF mission_at_table [OF assms(4,5)]], of f]
  by (auto simp: options_at_def rank_at_def)

text \<open>
  the SSVC decision is total and monotone: with recognised values of all five options the
  calculator returns one of Track, Track*, Attend, Act (rank 1 to 4), and moving any option up its
  scale never lowers the decision.
\<close>

theorem ssvc_monotone:
  assumes "e \<le> e'" "a \<le> a'" "t \<le> t'" "p \<le> p'" "b \<le> b'" "e' < 3" "a' < 2" "t' < 2" "p' < 3" "b' < 3"
  shows "\<exists>v d v' d'. ssvc_calculator f (options_at e a t p b) None = Inr (v, d) \<and>
     ssvc_calculator f (options_at e' a' t' p' b') None = Inr (v', d') \<and>
     1 \<le> rank_of d \<and> rank_of d \<le> rank_of d'"
proof -
  have lt: "e < 3" "a < 2" "t < 2" "p < 3" "b < 3" using assms by auto
  have "rank_at 0 0 0 0 \<le> rank_at e a t (mission_at p b)"
    using mission_at_table [OF lt(4,5)] lt by (intro rank_at_mono) auto
  moreover have "rank_at 0 0 0 0 = 1" using rank_at_table [of 0 0 0 0] by (simp add: rank_table_def)
  moreover have "rank_at e a t (mission_at p b) \<le> rank_at e' a' t' (mission_at p' b')"
    using assms mission_at_table [OF assms(9,10)] by (intro rank_at_mono mission_at_mono) auto
  ultimately show ?thesis
    using ssvc_at [OF lt, of f] ssvc_at [OF assms(6-10), of f] by fastforce
qed

lemma ssvc_monotone_witness:
  "\<exists>v d v' d'. ssvc_calculator Inr (options_at 0 1 0 1 1) None = Inr (v, d) \<and>
     ssvc_calculator Inr (options_at 2 1 0 1 2) None = Inr (v', d') \<and>
     1 \<le> rank_of d \<and> rank_of d \<le> rank_of d'"
  by (rule ssvc_monotone) simp_all

lemma vector_parts_Inr:
  "(\<exists>s. vector_parts d = Inr s) \<longleftrightarrow> set (dict_keys d) \<subseteq> set (dict_keys decision_points)"
proof (induction d)
  case (Cons kv d)
  obtain k v where kv: "kv = (k, v)" by force
  show ?case
  proof (cases "map_of decision_points k")
    case None
    then have "k \<notin> set (dict_keys decision_points)" by (simp add: dict_keys_map_of)
    with None kv show ?thesis by (simp add: dict_keys_def)
  next
    case (Some x)
    then have "k \<in> set (dict_keys decision_points)" by (simp add: dict_keys_map_of)
    with Some kv Cons show ?thesis
      by (cases x; cases "vector_parts d") (auto simp: dict_keys_def)
  qed
qed (simp add: dict_keys_def)

lemma set_keys_set_default:
  "set (dict_keys (set_default k v d)) = insert k (set (dict_keys d))"
  by (auto simp: set_default_def set_dict_keys_update)

lemma set_keys_options: "set (dict_keys (options_dict options)) = fst ` set (concat options)"
proof -
  have "set (dict_keys (fold (\<lambda>(k, v). AList.update k (lower v)) kvs d)) = set (dict_keys d) \<union> fst ` set kvs"
    for kvs d
    by (induction kvs arbitrary: d) (auto simp: dict_keys_update split: if_splits)
  note keys = this [of "concat options" "[]"]
  show ?thesis unfolding options_dict_def keys by (simp add: dict_keys_def)
qed

lemma ssvc_fails:
  "(\<exists>e. ssvc_calculator f options None = Inl e) \<longleftrightarrow>
     map_of mission_well_being_table
       (dict_get (options_dict options) ''Mission Prevalence'' ''minimal'',
        dict_get (options_dict options) ''Public Well-being Impact'' ''material'') = None \<or>
     \<not> fst ` set (concat options) \<subseteq> set (dict_keys decision_points)"
proof -
  let ?d1 = "set_default ''Mission Prevalence'' ''minimal'' (options_dict options)"
  let ?d2 = "set_default ''Public Well-being Impact'' ''material'' ?d1"
  have gets: "dict_get ?d2 ''Mission Prevalence'' [] = dict_get (options_dict options) ''Mission Prevalence'' ''minimal''"
    "dict_get ?d2 ''Public Well-being Impact'' [] = dict_get (options_dict options) ''Public Well-being Impact'' ''material''"
    by (auto simp: set_default_def dict_get_def dict_keys_map_of split: option.splits)
  have known: "''Mission Prevalence'' \<in> set (dict_keys decision_points)"
    "''Public Well-being Impact'' \<in> set (dict_keys decision_points)"
    "''Mission & Well-being'' \<in> set (dict_keys decision_points)"
    by (simp_all add: decision_points_def dict_keys_def)
  have parts: "(\<exists>s. vector_parts (AList.update ''Mission & Well-being'' m ?d2) = Inr s) \<longleftrightarrow>
      fst ` set (concat options) \<subseteq> set (dict_keys decision_points)" for m
    by (simp only: vector_parts_Inr set_dict_keys_update set_keys_set_default set_keys_options
        insert_subset known simp_thms)
  show ?thesis
  proof (cases "map_of mission_well_being_table
      (dict_get (options_dict options) ''Mission Prevalence'' ''minimal'',
       dict_get (options_dict options) ''Public Well-being Impact'' ''material'')")
    case None
    then show ?thesis by (simp add: ssvc_calculator_def Let_def gets)
  next
    case (Some m)
    then show ?thesis
      using parts [of m]
      by (cases "vector_parts (AList.update ''Mission & Well-being'' m ?d2)")
        (simp_all add: ssvc_calculator_def Let_def gets)
  qed
qed

text \<open>
  without a timestamp the calculator fails exactly on a mission prevalence or well-being impact
  that is not in its table, and on an option that is not a decision point; an unrecognised value of
  another option is not an error (the decision is then empty).
\<close>

theorem ssvc_fails_iff:
  "(\<exists>e. ssvc_calculator f options None = Inl e) \<longleftrightarrow>
     map_of mission_well_being_table
       (dict_get (options_dict options) ''Mission Prevalence'' ''minimal'',
        dict_get (options_dict options) ''Public Well-being Impact'' ''material'') = None \<or>
     (\<exists>opt. opt \<in> fst ` set (concat options) - set (dict_keys decision_points))"
proof -
  have "(\<exists>x. x \<in> A - B) \<longleftrightarrow> \<not> A \<subseteq> B" for A B :: "string set" by blast
  then show ?thesis by (simp only: ssvc_fails)
qed

end
