(* ===== verification/Runs.thy ===== *)
theory Runs
  imports Prelude
begin

text \<open>
  Pipeline runs and schedules: \<open>PipelineRun\<close> and \<open>PipelineSchedule\<close> of \<open>vulnerabilities/models.py\<close>,
  the queue operations of \<open>vulnerabilities/tasks.py\<close> and \<open>vulnerabilities/schedules.py\<close>.

  A table is the list of its rows. The job queue (\<open>rq\<close>) and the periodic scheduler
  (\<open>rq_scheduler\<close>) are not part of the repository: they are the records of functions \<open>rq\<close> and
  \<open>cron\<close> over a state the model does not look into, and a theorem that relies on what they do says so
  in a hypothesis. Instants are integers (seconds), and every operation is given the instant at which it
  runs. An operation that may raise returns the exception, if any, with the state it leaves, since what
  it saved before stays saved.
\<close>

section \<open>Runs\<close>

datatype run_state = UNKNOWN | DISABLED | RUNNING | SUCCESS | FAILURE | STOPPED | QUEUED | STALE

record run_row =
  run_id :: nat
  run_pipeline :: nat
  run_start_date :: "int option"
  run_end_date :: "int option"
  run_exitcode :: "int option"
  run_output :: string
  created_date :: int
  vulnerablecode_version :: "string option"
  vulnerablecode_commit :: "string option"
  run_log :: string

text \<open>A job of the queue, as far as the code reads it.\<close>

record rq_job =
  job_state :: "string option"
  ended_at :: "int option"
  exc_info :: string

record queue_call =
  call_queue :: string
  call_pipeline :: string
  call_run :: nat
  call_timeout :: int

record 'q rq =
  fetch_job :: "'q \<Rightarrow> nat \<Rightarrow> rq_job option"
  in_jobs :: "'q \<Rightarrow> string \<Rightarrow> nat \<Rightarrow> bool"
  remove_job :: "'q \<Rightarrow> string \<Rightarrow> nat \<Rightarrow> 'q"
  enqueue_job :: "'q \<Rightarrow> queue_call \<Rightarrow> 'q"
  send_stop_job_command :: "'q \<Rightarrow> nat \<Rightarrow> 'q result"
  delete_job :: "'q \<Rightarrow> nat \<Rightarrow> 'q"
  requeue_job :: "'q \<Rightarrow> nat \<Rightarrow> 'q"

definition RQ_QUEUES :: "string list" where
  "RQ_QUEUES = [''default'', ''high'']"

definition run_succeeded :: "run_row \<Rightarrow> bool" where
  "run_succeeded r \<longleftrightarrow> run_exitcode r = Some 0"

definition run_stopped :: "run_row \<Rightarrow> bool" where
  "run_stopped r \<longleftrightarrow> run_exitcode r = Some 99"

definition run_staled :: "run_row \<Rightarrow> bool" where
  "run_staled r \<longleftrightarrow> run_exitcode r = Some 88"

text \<open>\<open>end_date or timezone.now()\<close>: the caller's date, the instant otherwise.\<close>

definition set_run_ended :: "int \<Rightarrow> int \<Rightarrow> string \<Rightarrow> int option \<Rightarrow> run_row \<Rightarrow> run_row" where
  "set_run_ended now exitcode out end_date r =
     r\<lparr>run_exitcode := Some exitcode, run_output := out,
       run_end_date := Some (case end_date of Some d \<Rightarrow> d | None \<Rightarrow> now)\<rparr>"

definition set_run_staled :: "int \<Rightarrow> run_row \<Rightarrow> run_row" where
  "set_run_staled now r = set_run_ended now 88 [] None r"

definition set_run_stopped :: "int \<Rightarrow> run_row \<Rightarrow> run_row" where
  "set_run_stopped now r = set_run_ended now 99 [] None r"

definition reset_run :: "run_row \<Rightarrow> run_row" where
  "reset_run r = r\<lparr>run_start_date := None, run_end_date := None, run_exitcode := None,
     vulnerablecode_version := None, vulnerablecode_commit := None, run_output := [], run_log := []\<rparr>"

definition set_run_started :: "int \<Rightarrow> run_row \<Rightarrow> run_row" where
  "set_run_started now r = (reset_run r)\<lparr>run_start_date := Some now\<rparr>"

text \<open>An empty version string counts as not set.\<close>

definition set_vulnerablecode_version_and_commit ::
    "string option \<Rightarrow> string option \<Rightarrow> run_row \<Rightarrow> run_row result" where
  "set_vulnerablecode_version_and_commit tag commit r =
     (if vulnerablecode_version r \<notin> {None, Some []} then Inl ValueError
      else Inr (r\<lparr>vulnerablecode_version := tag, vulnerablecode_commit := commit\<rparr>))"

definition append_to_log :: "string \<Rightarrow> bool \<Rightarrow> run_row \<Rightarrow> run_row" where
  "append_to_log message is_multiline r =
     (let m = strip message;
          m = (if is_multiline then m else remove_char (CHR 0x0D) (remove_char (CHR 0x0A) m))
      in r\<lparr>run_log := run_log r @ m @ [CHR 0x0A]\<rparr>)"

definition killed_output :: "rq_job \<Rightarrow> string" where
  "killed_output j = ''Killed from outside, exc_info='' @ exc_info j"

text \<open>
  \<open>run_failed\<close>, a property with a side effect: a job that failed outside the pipeline ends the run.
  A failed job without an end date raises \<open>AttributeError\<close>, which the property suppresses.
\<close>

definition job_failed :: "rq_job \<Rightarrow> bool" where
  "job_failed j \<longleftrightarrow> job_state j = Some ''failed''"

definition run_failed :: "rq_job option \<Rightarrow> int \<Rightarrow> run_row \<Rightarrow> bool \<times> run_row" where
  "run_failed job now r =
     (if (case run_exitcode r of None \<Rightarrow> False | Some c \<Rightarrow> 0 < c) then (True, r)
      else (case job of
          None \<Rightarrow> (False, r)
        | Some j \<Rightarrow>
            if job_failed j \<and> ended_at j \<noteq> None
            then (True, set_run_ended now 1 (killed_output j) (ended_at j) r)
            else (False, r)))"

text \<open>
  \<open>PipelineRun.status\<close>. The creation date of a stored row is never null, so the last two branches of
  the code are the one \<open>QUEUED\<close>.
\<close>

definition run_status :: "rq_job option \<Rightarrow> int \<Rightarrow> run_row \<Rightarrow> run_state \<times> run_row" where
  "run_status job now r =
     (if run_succeeded r then (SUCCESS, r)
      else if run_staled r then (STALE, r)
      else if run_stopped r then (STOPPED, r)
      else (case run_failed job now r of (failed, r') \<Rightarrow>
        if failed then (FAILURE, r')
        else if run_start_date r' \<noteq> None then (RUNNING, r')
        else (QUEUED, r')))"

definition runtime :: "rq_job option \<Rightarrow> int \<Rightarrow> run_row \<Rightarrow> int option \<times> run_row" where
  "runtime job now r =
     (case run_start_date r of None \<Rightarrow> (None, r)
      | Some s \<Rightarrow>
          (case run_end_date r of
             Some e \<Rightarrow> (Some (e - s), r)
           | None \<Rightarrow> (case run_status job now r of (st, r') \<Rightarrow>
               if st \<noteq> RUNNING then (None, r') else (Some (now - s), r'))))"

section \<open>Stopping, deleting and requeueing a run\<close>

definition dequeue_job :: "'q rq \<Rightarrow> nat \<Rightarrow> 'q \<Rightarrow> 'q" where
  "dequeue_job Q i q = fold (\<lambda>name q. if in_jobs Q q name i then remove_job Q q name i else q) RQ_QUEUES q"

definition is_job_in_queue :: "'q rq \<Rightarrow> nat \<Rightarrow> 'q \<Rightarrow> bool" where
  "is_job_in_queue Q i q = list_ex (\<lambda>name. in_jobs Q q name i) RQ_QUEUES"

definition delete_run_job :: "'q rq \<Rightarrow> run_row \<Rightarrow> 'q \<Rightarrow> 'q" where
  "delete_run_job Q r q = (if fetch_job Q q (run_id r) \<noteq> None then delete_job Q q (run_id r) else q)"

definition stop_run :: "'q rq \<Rightarrow> int \<Rightarrow> run_row \<times> 'q \<Rightarrow> py_error option \<times> run_row \<times> 'q" where
  "stop_run Q now rq = (case rq of (r, q) \<Rightarrow>
     if run_succeeded r then (None, r, q)
     else (case run_status (fetch_job Q q (run_id r)) now (append_to_log ''Stop run requested'' False r) of
       (st, r) \<Rightarrow>
         if st = QUEUED then (None, set_run_stopped now r, dequeue_job Q (run_id r) q)
         else (case fetch_job Q q (run_id r) of
             None \<Rightarrow> (None, set_run_staled now r, q)
           | Some j \<Rightarrow>
               if job_state j \<in> {None, Some []} then (None, set_run_staled now r, q)
               else if job_failed j then
                 (case ended_at j of
                    None \<Rightarrow> (Some AttributeError, r, q)
                  | Some d \<Rightarrow> (None, set_run_ended now 1 (killed_output j) (Some d) r, q))
               else
                 (case send_stop_job_command Q q (run_id r) of
                    Inl e \<Rightarrow> (Some e, r, q)
                  | Inr q' \<Rightarrow> (let r' = set_run_stopped now r in (None, r', delete_run_job Q r' q'))))))"

definition requeue :: "'q rq \<Rightarrow> run_row \<times> 'q \<Rightarrow> run_row \<times> 'q" where
  "requeue Q rq = (case rq of (r, q) \<Rightarrow>
     if fetch_job Q q (run_id r) \<noteq> None then (reset_run r, requeue_job Q q (run_id r)) else (r, q))"

text \<open>
  \<open>delete\<close> suppresses a lost connection and an \<open>AttributeError\<close> of \<open>stop_run\<close>; another exception leaves
  the row, as \<open>stop_run\<close> saved it.
\<close>

definition delete_run :: "'q rq \<Rightarrow> int \<Rightarrow> nat \<Rightarrow> run_row list \<times> 'q \<Rightarrow> py_error option \<times> run_row list \<times> 'q" where
  "delete_run Q now i st = (case st of (runs, q) \<Rightarrow>
     (case filter (\<lambda>r. run_id r = i) runs of
        [] \<Rightarrow> (Some DoesNotExist, runs, q)
      | r # _ \<Rightarrow>
          (case stop_run Q now (r, q) of (e, r', q') \<Rightarrow>
             if e \<notin> {None, Some ConnectionError, Some AttributeError}
             then (e, map (\<lambda>x. if run_id x = i then r' else x) runs, q')
             else (None, filter (\<lambda>x. run_id x \<noteq> i) runs, delete_run_job Q r q'))))"

section \<open>Schedules\<close>

datatype priority = HIGH | DEFAULT

definition get_run_priority_display :: "priority \<Rightarrow> string" where
  "get_run_priority_display p = (case p of HIGH \<Rightarrow> ''high'' | DEFAULT \<Rightarrow> ''default'')"

record schedule_row =
  sched_pk :: nat
  pipeline_id :: string
  is_active :: "bool option"
  is_run_once :: bool
  live_logging :: bool
  run_interval :: int
  run_priority :: priority
  schedule_work_id :: "string option"
  execution_timeout :: int
  sched_created :: int

record cron_call =
  scheduled_time :: int
  cron_pipeline :: string
  cron_interval :: int
  cron_queue :: string

record 'c cron =
  redis_running :: "'c \<Rightarrow> bool"
  cron_schedule :: "'c \<Rightarrow> cron_call \<Rightarrow> string \<times> 'c"
  cron_cancel :: "'c \<Rightarrow> string \<Rightarrow> 'c"
  cron_jobs :: "'c \<Rightarrow> string list"

record ('q, 'c) world =
  w_runs :: "run_row list"
  w_schedules :: "schedule_row list"
  w_next :: nat
  w_queue :: 'q
  w_cron :: 'c

abbreviation active :: "schedule_row \<Rightarrow> bool" where
  "active s \<equiv> is_active s = Some True"

definition all_runs :: "schedule_row \<Rightarrow> run_row list \<Rightarrow> run_row list" where
  "all_runs s runs = sorted_desc created_date (filter (\<lambda>r. run_pipeline r = sched_pk s) runs)"

definition latest_run :: "schedule_row \<Rightarrow> run_row list \<Rightarrow> run_row option" where
  "latest_run s runs = (case all_runs s runs of [] \<Rightarrow> None | r # _ \<Rightarrow> Some r)"

definition latest_successful_run :: "schedule_row \<Rightarrow> run_row list \<Rightarrow> run_row option" where
  "latest_successful_run s runs =
     find (\<lambda>r. run_end_date r \<noteq> None \<and> run_exitcode r = Some 0) (all_runs s runs)"

definition latest_run_date :: "schedule_row \<Rightarrow> run_row list \<Rightarrow> int option" where
  "latest_run_date s runs = (case latest_run s runs of None \<Rightarrow> None | Some r \<Rightarrow> run_start_date r)"

definition latest_run_end_date :: "schedule_row \<Rightarrow> run_row list \<Rightarrow> int option" where
  "latest_run_end_date s runs = (case latest_run s runs of None \<Rightarrow> None | Some r \<Rightarrow> run_end_date r)"

definition next_run_date :: "int \<Rightarrow> schedule_row \<Rightarrow> run_row list \<Rightarrow> int option" where
  "next_run_date now s runs =
     (if \<not> active s then None
      else (case latest_run_date s runs of
          None \<Rightarrow> Some now
        | Some d \<Rightarrow> if d + run_interval s * 60 > now then Some (d + run_interval s * 60) else Some now))"

text \<open>
  The status of a schedule is that of its latest run; reading it may end that run
  (\<open>run_failed\<close>), so the table is returned with it.
\<close>

definition save_run :: "run_row \<Rightarrow> run_row list \<Rightarrow> run_row list" where
  "save_run r runs = map (\<lambda>x. if run_id x = run_id r then r else x) runs"

definition schedule_status ::
    "'q rq \<Rightarrow> 'q \<Rightarrow> int \<Rightarrow> schedule_row \<Rightarrow> run_row list \<Rightarrow> run_state option \<times> run_row list" where
  "schedule_status Q q now s runs =
     (if \<not> active s then (Some DISABLED, runs)
      else (case latest_run s runs of
          None \<Rightarrow> (None, runs)
        | Some r \<Rightarrow> (case run_status (fetch_job Q q (run_id r)) now r of
            (st, r') \<Rightarrow> (Some st, save_run r' runs))))"

text \<open>A job may only be given to the scheduler with a date; \<open>next_run_date\<close> of an active schedule is one.\<close>

definition schedule_execution ::
    "'c cron \<Rightarrow> int \<Rightarrow> bool \<Rightarrow> schedule_row \<Rightarrow> run_row list \<Rightarrow> 'c \<Rightarrow> string \<times> 'c" where
  "schedule_execution C now execute_now s runs c =
     cron_schedule C c
       \<lparr>scheduled_time = (if execute_now then now else the (next_run_date now s runs)),
        cron_pipeline = pipeline_id s, cron_interval = run_interval s * 60,
        cron_queue = get_run_priority_display (run_priority s)\<rparr>"

definition create_new_job ::
    "'c cron \<Rightarrow> int \<Rightarrow> bool \<Rightarrow> schedule_row \<Rightarrow> run_row list \<Rightarrow> 'c \<Rightarrow> string option \<times> 'c" where
  "create_new_job C now execute_now s runs c =
     (if \<not> redis_running C c then (None, c)
      else (let c = (case schedule_work_id s of
                       None \<Rightarrow> c | Some w \<Rightarrow> if w = [] then c else cron_cancel C c w)
            in if active s
               then (case schedule_execution C now execute_now s runs c of (w, c') \<Rightarrow> (Some w, c'))
               else (None, c)))"

text \<open>
  \<open>full_clean\<close>: the field validators, the length of the text fields and the unique columns, against the
  other rows.
\<close>

definition schedule_clean :: "schedule_row list \<Rightarrow> schedule_row \<Rightarrow> bool" where
  "schedule_clean others s \<longleftrightarrow>
     pipeline_id s \<noteq> [] \<and> length (pipeline_id s) \<le> 600 \<and>
     5 \<le> run_interval s \<and> run_interval s \<le> 43200 \<and>
     1 \<le> execution_timeout s \<and> execution_timeout s \<le> 72 \<and>
     (case schedule_work_id s of None \<Rightarrow> True | Some w \<Rightarrow> length w \<le> 255) \<and>
     \<not> list_ex (\<lambda>o'. pipeline_id o' = pipeline_id s \<or>
        schedule_work_id s \<noteq> None \<and> schedule_work_id o' = schedule_work_id s) others"

text \<open>
  \<open>PipelineSchedule.save\<close>, of a new row (its key is the next of the sequence) and of a stored one. The
  scheduler is told before \<open>full_clean\<close> validates the row.
\<close>

definition save_new_schedule ::
    "'c cron \<Rightarrow> int \<Rightarrow> schedule_row \<Rightarrow> ('q, 'c) world \<Rightarrow> py_error option \<times> ('q, 'c) world" where
  "save_new_schedule C now s w =
     (case create_new_job C now True s [] (w_cron w) of (work, c) \<Rightarrow>
        (let s = s\<lparr>sched_pk := w_next w, schedule_work_id := work, sched_created := now\<rparr>;
             w = w\<lparr>w_cron := c\<rparr>
         in if \<not> schedule_clean (w_schedules w) s then (Some ValidationError, w)
            else (None, w\<lparr>w_schedules := w_schedules w @ [s], w_next := Suc (w_next w)\<rparr>)))"

definition save_schedule ::
    "'c cron \<Rightarrow> int \<Rightarrow> schedule_row \<Rightarrow> ('q, 'c) world \<Rightarrow> py_error option \<times> ('q, 'c) world" where
  "save_schedule C now s w =
     (case filter (\<lambda>x. sched_pk x = sched_pk s) (w_schedules w) of
        [] \<Rightarrow> (Some DoesNotExist, w)
      | old # _ \<Rightarrow>
          (case (if is_active old \<noteq> is_active s \<or> run_interval old \<noteq> run_interval s \<or>
                    run_priority old \<noteq> run_priority s
                 then create_new_job C now False s (w_runs w) (w_cron w)
                 else (schedule_work_id s, w_cron w)) of (work, c) \<Rightarrow>
             (let s = s\<lparr>schedule_work_id := work\<rparr>; w = w\<lparr>w_cron := c\<rparr>
              in if \<not> schedule_clean (filter (\<lambda>x. sched_pk x \<noteq> sched_pk s) (w_schedules w)) s
                 then (Some ValidationError, w)
                 else (None, w\<lparr>w_schedules :=
                         map (\<lambda>x. if sched_pk x = sched_pk s then s else x) (w_schedules w)\<rparr>))))"

definition clear_zombie_pipeline_schedules :: "'c cron \<Rightarrow> ('q, 'c) world \<Rightarrow> ('q, 'c) world" where
  "clear_zombie_pipeline_schedules C w =
     w\<lparr>w_cron := fold (\<lambda>j c. if Some j \<notin> schedule_work_id ` set (w_schedules w) then cron_cancel C c j else c)
        (cron_jobs C (w_cron w)) (w_cron w)\<rparr>"

section \<open>The registry and the schedules\<close>

record registry_entry =
  reg_run_once :: bool
  reg_run_interval :: int
  reg_run_priority :: priority

text \<open>A schedule that is deleted takes its runs with it (\<open>on_delete=CASCADE\<close>).\<close>

definition delete_schedules :: "string list \<Rightarrow> ('q, 'c) world \<Rightarrow> ('q, 'c) world" where
  "delete_schedules ids w =
     (let kept = filter (\<lambda>s. pipeline_id s \<in> set ids) (w_schedules w)
      in w\<lparr>w_schedules := kept,
           w_runs := filter (\<lambda>r. run_pipeline r \<in> sched_pk ` set kept) (w_runs w)\<rparr>)"

text \<open>
  The defaults of a created row: active, without live logging, and the time-out of the settings
  (\<open>timeout\<close>).
\<close>

definition sync_pipeline ::
    "'c cron \<Rightarrow> int \<Rightarrow> int \<Rightarrow> string \<times> registry_entry \<Rightarrow> ('q, 'c) world \<Rightarrow> py_error option \<times> ('q, 'c) world" where
  "sync_pipeline C timeout now ke w = (case ke of (i, e) \<Rightarrow>
     (case filter (\<lambda>s. pipeline_id s = i) (w_schedules w) of
        [] \<Rightarrow> save_new_schedule C now
                \<lparr>sched_pk = 0, pipeline_id = i, is_active = Some True, is_run_once = reg_run_once e,
                 live_logging = False, run_interval = reg_run_interval e, run_priority = reg_run_priority e,
                 schedule_work_id = None, execution_timeout = timeout, sched_created = now\<rparr> w
      | s # _ \<Rightarrow>
          if run_priority s \<noteq> reg_run_priority e \<or> run_interval s \<noteq> reg_run_interval e
          then save_schedule C now
                 (s\<lparr>run_priority := reg_run_priority e, run_interval := reg_run_interval e\<rparr>) w
          else (None, w)))"

fun sync_pipelines ::
    "'c cron \<Rightarrow> int \<Rightarrow> int \<Rightarrow> (string \<times> registry_entry) list \<Rightarrow> ('q, 'c) world \<Rightarrow>
       py_error option \<times> ('q, 'c) world" where
  "sync_pipelines C timeout now [] w = (None, w)"
| "sync_pipelines C timeout now (ke # kes) w =
     (case sync_pipeline C timeout now ke w of
        (Some e, w') \<Rightarrow> (Some e, w')
      | (None, w') \<Rightarrow> sync_pipelines C timeout now kes w')"

definition update_pipeline_schedule ::
    "'c cron \<Rightarrow> int \<Rightarrow> int \<Rightarrow> (string \<times> registry_entry) list \<Rightarrow> ('q, 'c) world \<Rightarrow>
       py_error option \<times> ('q, 'c) world" where
  "update_pipeline_schedule C timeout now registry w =
     sync_pipelines C timeout now registry (delete_schedules (dict_keys registry) w)"

section \<open>Queueing runs\<close>

definition enqueue_run :: "'q rq \<Rightarrow> schedule_row \<Rightarrow> run_row \<Rightarrow> 'q \<Rightarrow> 'q" where
  "enqueue_run Q s r q =
     enqueue_job Q q \<lparr>call_queue = get_run_priority_display (run_priority s), call_pipeline = pipeline_id s,
       call_run = run_id r, call_timeout = execution_timeout s\<rparr>"

definition new_run :: "nat \<Rightarrow> nat \<Rightarrow> int \<Rightarrow> run_row" where
  "new_run i s now = \<lparr>run_id = i, run_pipeline = s, run_start_date = None, run_end_date = None,
     run_exitcode = None, run_output = [], created_date = now, vulnerablecode_version = None,
     vulnerablecode_commit = None, run_log = []\<rparr>"

text \<open>\<open>uid\<close> is the fresh identifier (\<open>uuid4\<close>) of the run.\<close>

definition enqueue_pipeline ::
    "'q rq \<Rightarrow> int \<Rightarrow> nat \<Rightarrow> string \<Rightarrow> ('q, 'c) world \<Rightarrow> py_error option \<times> ('q, 'c) world" where
  "enqueue_pipeline Q now uid pid w =
     (case filter (\<lambda>s. pipeline_id s = pid) (w_schedules w) of
        [] \<Rightarrow> (Some DoesNotExist, w)
      | s # _ \<Rightarrow>
          (case schedule_status Q (w_queue w) now s (w_runs w) of (st, runs) \<Rightarrow>
             if st \<in> {Some RUNNING, Some QUEUED} then (None, w\<lparr>w_runs := runs\<rparr>)
             else (let r = new_run uid (sched_pk s) now
                   in (None, w\<lparr>w_runs := runs @ [r], w_queue := enqueue_run Q s r (w_queue w)\<rparr>))))"

text \<open>The queue's callback when a job fails; \<open>message\<close> is the text of the failure.\<close>

definition set_run_failure :: "int \<Rightarrow> nat \<Rightarrow> string \<Rightarrow> run_row list \<Rightarrow> run_row list" where
  "set_run_failure now job_id message runs =
     map (\<lambda>r. if run_id r = job_id then set_run_ended now 1 message None r else r) runs"

section \<open>Refreshing runs\<close>

definition unfinished_run :: "run_row \<Rightarrow> bool" where
  "unfinished_run r \<longleftrightarrow> run_start_date r \<noteq> None \<and> (run_end_date r = None \<or> run_exitcode r = None)"

fun stop_runs ::
    "'q rq \<Rightarrow> int \<Rightarrow> run_row list \<Rightarrow> run_row list \<times> 'q \<Rightarrow> py_error option \<times> run_row list \<times> 'q" where
  "stop_runs Q now [] rq = (None, rq)"
| "stop_runs Q now (r # rs) (runs, q) =
     (case stop_run Q now (r, q) of
        (Some e, r', q') \<Rightarrow> (Some e, save_run r' runs, q')
      | (None, r', q') \<Rightarrow> stop_runs Q now rs (save_run r' runs, q'))"

definition mark_stale_runs ::
    "'q rq \<Rightarrow> int \<Rightarrow> ('q, 'c) world \<Rightarrow> py_error option \<times> ('q, 'c) world" where
  "mark_stale_runs Q now w =
     (case stop_runs Q now (filter unfinished_run (w_runs w)) (w_runs w, w_queue w) of
        (e, runs, q) \<Rightarrow> (e, w\<lparr>w_runs := runs, w_queue := q\<rparr>))"

text \<open>One not-started run of \<open>requeue_missing_jobs\<close>; a run always has its schedule.\<close>

definition requeue_missing ::
    "'q rq \<Rightarrow> int \<Rightarrow> run_row \<Rightarrow> ('q, 'c) world \<Rightarrow> py_error option \<times> ('q, 'c) world" where
  "requeue_missing Q now r w =
     (if is_job_in_queue Q (run_id r) (w_queue w) then (None, w)
      else (case filter (\<lambda>s. sched_pk s = run_pipeline r) (w_schedules w) of
          [] \<Rightarrow> (Some DoesNotExist, w)
        | s # _ \<Rightarrow>
            if map_option run_id (latest_run s (w_runs w)) = Some (run_id r)
            then (None, w\<lparr>w_queue := enqueue_run Q s r (w_queue w)\<rparr>)
            else (case stop_run Q now (r, w_queue w) of (e, r', q) \<Rightarrow>
                    (e, w\<lparr>w_runs := save_run r' (w_runs w), w_queue := q\<rparr>))))"

fun requeue_runs ::
    "'q rq \<Rightarrow> int \<Rightarrow> run_row list \<Rightarrow> ('q, 'c) world \<Rightarrow> py_error option \<times> ('q, 'c) world" where
  "requeue_runs Q now [] w = (None, w)"
| "requeue_runs Q now (r # rs) w =
     (case requeue_missing Q now r w of
        (Some e, w') \<Rightarrow> (Some e, w')
      | (None, w') \<Rightarrow> requeue_runs Q now rs w')"

definition requeue_missing_jobs ::
    "'q rq \<Rightarrow> int \<Rightarrow> ('q, 'c) world \<Rightarrow> py_error option \<times> ('q, 'c) world" where
  "requeue_missing_jobs Q now w = requeue_runs Q now (filter (\<lambda>r. run_start_date r = None) (w_runs w)) w"

definition refresh_runs ::
    "'q rq \<Rightarrow> int \<Rightarrow> ('q, 'c) world \<Rightarrow> py_error option \<times> ('q, 'c) world" where
  "refresh_runs Q now w =
     (case mark_stale_runs Q now w of
        (Some e, w') \<Rightarrow> (Some e, w')
      | (None, w') \<Rightarrow> requeue_missing_jobs Q now w')"

section \<open>Stopping always ends a run\<close>

text \<open>
  When stopping a run raises: the queue refuses the stop command (\<open>rq\<close> raises for a job that is missing or
  not executing), or a failed job has no end date.
\<close>

definition stop_refused :: "'q rq \<Rightarrow> 'q \<Rightarrow> run_row \<Rightarrow> py_error \<Rightarrow> bool" where
  "stop_refused Q q r e = (case fetch_job Q q (run_id r) of None \<Rightarrow> False
     | Some j \<Rightarrow> if job_failed j then ended_at j = None \<and> e = AttributeError
               else send_stop_job_command Q q (run_id r) = Inl e)"

definition finished :: "run_row \<Rightarrow> bool" where
  "finished r \<longleftrightarrow> run_exitcode r \<noteq> None \<and> run_end_date r \<noteq> None"

definition same_run :: "run_row \<Rightarrow> run_row \<Rightarrow> bool" where
  "same_run r r' \<longleftrightarrow> run_id r' = run_id r \<and> run_pipeline r' = run_pipeline r \<and>
     created_date r' = created_date r \<and> run_start_date r' = run_start_date r"

lemma same_run_refl [simp]: "same_run r r"
  by (simp add: same_run_def)

lemma same_run_ended [simp]:
  "same_run r (set_run_ended now c out d r') \<longleftrightarrow> same_run r r'"
  "same_run r (set_run_stopped now r') \<longleftrightarrow> same_run r r'"
  "same_run r (set_run_staled now r') \<longleftrightarrow> same_run r r'"
  "same_run r (append_to_log m b r') \<longleftrightarrow> same_run r r'"
  by (auto simp: same_run_def set_run_ended_def set_run_stopped_def set_run_staled_def append_to_log_def Let_def)

lemma finished_ended [simp]:
  "finished (set_run_ended now c out d r)" "finished (set_run_stopped now r)" "finished (set_run_staled now r)"
  "finished (append_to_log m b r) \<longleftrightarrow> finished r"
  by (simp_all add: finished_def set_run_ended_def set_run_stopped_def set_run_staled_def append_to_log_def Let_def
      split: option.splits)

lemma run_status_same: "run_status job now r = (st, r') \<Longrightarrow> same_run r r'"
  by (auto simp: run_status_def run_failed_def split: if_splits option.splits)

lemma run_status_keeps: "run_status job now r = (st, r') \<Longrightarrow> r' = r \<or> finished r'"
  by (auto simp: run_status_def run_failed_def split: if_splits option.splits)

text \<open>A finished run keeps its outcome; a running or queued one ends, whatever the queue says.\<close>

lemma stop_run_ends:
  assumes "stop_run Q now (r, q) = (e, r', q')"
  shows "same_run r r'" and "e = None \<Longrightarrow> \<not> run_succeeded r \<or> finished r \<Longrightarrow> finished r'"
    and "finished r \<Longrightarrow> finished r'"
    and "e = Some x \<Longrightarrow> stop_refused Q q r x"
proof -
  obtain st r2 where st: "run_status (fetch_job Q q (run_id r)) now (append_to_log ''Stop run requested'' False r) = (st, r2)"
    by fastforce
  from run_status_same [OF st] have s2: "same_run r r2"
    by (simp add: same_run_def append_to_log_def Let_def)
  from run_status_keeps [OF st] have f2: "finished r \<Longrightarrow> finished r2" by auto
  show "same_run r r'"
    using assms s2 st by (auto simp: stop_run_def Let_def split: if_splits option.splits sum.splits)
  show "e = None \<Longrightarrow> \<not> run_succeeded r \<or> finished r \<Longrightarrow> finished r'"
    using assms st by (auto simp: stop_run_def Let_def split: if_splits option.splits sum.splits)
  show "finished r \<Longrightarrow> finished r'"
    using assms st f2 by (auto simp: stop_run_def Let_def split: if_splits option.splits sum.splits)
  have "run_id r2 = run_id r" using s2 by (simp add: same_run_def)
  then show "e = Some x \<Longrightarrow> stop_refused Q q r x"
    using assms st by (auto simp: stop_run_def stop_refused_def Let_def split: if_splits option.splits sum.splits)
qed

text \<open>What every operation but \<open>requeue\<close> does to a row: it keeps its identity and an outcome stays.\<close>

definition advances :: "run_row \<Rightarrow> run_row \<Rightarrow> bool" where
  "advances r r' \<longleftrightarrow> run_id r' = run_id r \<and> run_pipeline r' = run_pipeline r \<and> created_date r' = created_date r \<and>
     (run_exitcode r \<noteq> None \<longrightarrow> run_exitcode r' \<noteq> None) \<and>
     ((run_exitcode r = None \<longleftrightarrow> run_end_date r = None) \<longrightarrow> (run_exitcode r' = None \<longleftrightarrow> run_end_date r' = None))"

lemma advances_refl [simp]: "advances r r"
  by (simp add: advances_def)

lemma advances_trans: "advances a b \<Longrightarrow> advances b c \<Longrightarrow> advances a c"
  by (auto simp: advances_def)

lemma advances_all_refl [simp]: "list_all2 advances runs runs"
  by (simp add: list_all2_same)

lemma advances_all_trans: "list_all2 advances a b \<Longrightarrow> list_all2 advances b c \<Longrightarrow> list_all2 advances a c"
  by (rule list_all2_trans [of advances advances advances]) (auto intro: advances_trans)

lemma advances_ended [simp]:
  "advances r (append_to_log m b r)"
  "advances r (set_run_ended now c out d r') \<longleftrightarrow>
     run_id r' = run_id r \<and> run_pipeline r' = run_pipeline r \<and> created_date r' = created_date r"
  by (auto simp: advances_def append_to_log_def Let_def set_run_ended_def split: option.splits)

lemma run_status_advances: "run_status job now r = (st, r') \<Longrightarrow> advances r r'"
  by (auto simp: run_status_def run_failed_def split: if_splits option.splits)

lemma advances_stopped [simp]:
  "advances r (set_run_stopped now r') \<longleftrightarrow>
     run_id r' = run_id r \<and> run_pipeline r' = run_pipeline r \<and> created_date r' = created_date r"
  "advances r (set_run_staled now r') \<longleftrightarrow>
     run_id r' = run_id r \<and> run_pipeline r' = run_pipeline r \<and> created_date r' = created_date r"
  by (simp_all add: set_run_stopped_def set_run_staled_def)

lemma stop_run_advances:
  assumes "stop_run Q now (r, q) = (e, r', q')"
  shows "advances r r'"
proof -
  obtain st r2 where st: "run_status (fetch_job Q q (run_id r)) now (append_to_log ''Stop run requested'' False r) = (st, r2)"
    by fastforce
  have a: "advances r r2" by (rule advances_trans [OF advances_ended(1) run_status_advances [OF st]])
  then have "run_id r2 = run_id r \<and> run_pipeline r2 = run_pipeline r \<and> created_date r2 = created_date r"
    by (simp add: advances_def)
  with assms a st show ?thesis
    by (auto simp: stop_run_def Let_def split: if_splits option.splits sum.splits)
qed

lemma list_all2_save_run:
  assumes "distinct (map run_id runs)" "r \<in> set runs" "advances r r'"
  shows "list_all2 advances runs (save_run r' runs)"
proof -
  have "advances x (if run_id x = run_id r' then r' else x)" if "x \<in> set runs" for x
    using that assms by (auto simp: advances_def distinct_map inj_on_def)
  then show ?thesis by (simp add: save_run_def list_all2_map2 list.rel_refl_strong)
qed

lemma save_run_ids [simp]: "map run_id (save_run r runs) = map run_id runs"
  by (induction runs) (auto simp: save_run_def)

lemma set_save_run:
  "r' \<in> set (save_run r runs) \<longleftrightarrow> r' = r \<and> run_id r \<in> run_id ` set runs \<or> r' \<in> set runs \<and> run_id r' \<noteq> run_id r"
proof -
  have "run_id r \<in> run_id ` set runs \<longleftrightarrow> (\<exists>x\<in>set runs. run_id x = run_id r)" by (simp add: image_iff eq_commute)
  then show ?thesis by (auto simp: save_run_def)
qed

text \<open>The row of a run, after it was ended: the same run, with an exit code and an end date.\<close>

definition ended_in :: "run_row list \<Rightarrow> run_row \<Rightarrow> bool" where
  "ended_in runs r \<longleftrightarrow> list_ex (\<lambda>r'. same_run r r' \<and> finished r') runs"

lemma ended_in_save:
  "ended_in runs r \<Longrightarrow> run_id r1 \<noteq> run_id r \<Longrightarrow> ended_in (save_run r1 runs) r"
  by (auto simp: ended_in_def list_ex_iff set_save_run same_run_def)

text \<open>
  The loop over the runs to stop: it ends all of them, or it ends those before the first whose stop is
  refused and leaves those after it; it never touches another run.
\<close>

lemma stop_runs_outcome:
  "stop_runs Q now rs (runs, q) = (e, runs', q') \<Longrightarrow> distinct (map run_id runs) \<Longrightarrow> distinct (map run_id rs) \<Longrightarrow>
   (\<forall>r\<in>set rs. \<not> run_succeeded r \<and> r \<in> set runs) \<Longrightarrow>
   map run_id runs' = map run_id runs \<and> (\<forall>r\<in>set runs. run_id r \<notin> run_id ` set rs \<longrightarrow> r \<in> set runs') \<and>
   (\<forall>r. ended_in runs r \<and> run_id r \<notin> run_id ` set rs \<longrightarrow> ended_in runs' r) \<and>
   (case e of None \<Rightarrow> \<forall>r\<in>set rs. ended_in runs' r
    | Some x \<Rightarrow> \<exists>pre r post q. rs = pre @ r # post \<and> stop_refused Q q r x \<and> (\<forall>p\<in>set pre. ended_in runs' p) \<and> set post \<subseteq> set runs')"
proof (induction rs arbitrary: runs q)
  case (Cons r rs)
  obtain e1 r1 q1 where s: "stop_run Q now (r, q) = (e1, r1, q1)" by (metis prod_cases3)
  have sm: "same_run r r1" by (rule stop_run_ends(1) [OF s])
  then have id1: "run_id r1 = run_id r" by (simp add: same_run_def)
  from Cons.prems(4) have r: "r \<in> set runs" "\<not> run_succeeded r" by auto
  let ?runs = "save_run r1 runs"
  have other: "run_id x \<noteq> run_id r" if "x \<in> set rs" for x using Cons.prems(3) that by (auto simp: image_iff)
  have rs: "\<forall>x\<in>set rs. \<not> run_succeeded x \<and> x \<in> set ?runs" using Cons.prems(4) other by (auto simp: set_save_run id1)
  show ?case
  proof (cases e1)
    case None
    with Cons.prems(1) s have rest: "stop_runs Q now rs (?runs, q1) = (e, runs', q')" by simp
    note ih = Cons.IH [OF rest _ _ rs]
    have "finished r1" using stop_run_ends(2) [OF s None] r(2) by simp
    then have "ended_in ?runs r" using sm r(1) by (auto simp: ended_in_def list_ex_iff set_save_run id1)
    moreover have "run_id r \<notin> run_id ` set rs" using Cons.prems(3) by simp
    ultimately have first: "ended_in runs' r" using ih Cons.prems(2,3) by simp
    have "\<exists>pre r' post q. r # rs = pre @ r' # post \<and> stop_refused Q q r' x \<and> (\<forall>p\<in>set pre. ended_in runs' p) \<and> set post \<subseteq> set runs'"
      if "e = Some x" for x
    proof -
      from ih Cons.prems(2,3) that obtain pre r' post q where
        "rs = pre @ r' # post" "stop_refused Q q r' x" "\<forall>p\<in>set pre. ended_in runs' p" "set post \<subseteq> set runs'" by auto
      with first show ?thesis by (intro exI [of _ "r # pre"] exI [of _ r'] exI [of _ post] exI [of _ q]) simp
    qed
    moreover have "ended_in runs' x" if "ended_in runs x" "run_id x \<notin> run_id ` set (r # rs)" for x
      using ih Cons.prems(2,3) ended_in_save [OF that(1), of r1] that(2) by (simp add: id1)
    moreover have "x \<in> set runs'" if "x \<in> set runs" "run_id x \<notin> run_id ` set (r # rs)" for x
      using ih Cons.prems(2,3) that by (simp add: set_save_run id1)
    ultimately show ?thesis using ih Cons.prems(2,3) first by (cases e) auto
  next
    case (Some x)
    with Cons.prems(1) s have eq: "e = Some x" "runs' = ?runs" by auto
    have "\<exists>pre r' post q. r # rs = pre @ r' # post \<and> stop_refused Q q r' x \<and> (\<forall>p\<in>set pre. ended_in runs' p) \<and> set post \<subseteq> set runs'"
      using stop_run_ends(4) [OF s Some] rs eq(2) by (intro exI [of _ "[]"] exI [of _ r] exI [of _ rs] exI [of _ q]) auto
    moreover have "ended_in runs' x" if "ended_in runs x" "run_id x \<notin> run_id ` set (r # rs)" for x
      using ended_in_save [OF that(1), of r1] that(2) by (simp add: eq id1)
    ultimately show ?thesis by (auto simp: eq set_save_run id1)
  qed
qed simp

text \<open>
  C23: \<open>mark_stale_runs\<close> stops the started runs that have no end date or exit code, in their order. Without an
  exception it ends all of them. An exception comes only from a run whose job the queue refuses to stop, or
  whose failed job has no end date; then the runs before that one are ended and those after it are left
  unfinished. In both cases every row stays and every other run is as it was.
\<close>

theorem mark_stale_runs_finishes:
  assumes "distinct (map run_id (w_runs w))"
    and "\<And>r. r \<in> set (w_runs w) \<Longrightarrow> run_exitcode r = None \<longleftrightarrow> run_end_date r = None"
    and "mark_stale_runs Q now w = (e, w')"
  shows "map run_id (w_runs w') = map run_id (w_runs w) \<and>
     set (filter (\<lambda>r. \<not> unfinished_run r) (w_runs w)) \<subseteq> set (w_runs w') \<and>
     (case e of
        None \<Rightarrow> \<not> list_ex unfinished_run (w_runs w') \<and> (\<forall>r\<in>set (filter unfinished_run (w_runs w)). ended_in (w_runs w') r)
      | Some x \<Rightarrow> \<exists>pre r post q. filter unfinished_run (w_runs w) = pre @ r # post \<and> stop_refused Q q r x \<and>
          (\<forall>p\<in>set pre. ended_in (w_runs w') p) \<and> set post \<subseteq> set (w_runs w'))"
proof -
  let ?rs = "filter unfinished_run (w_runs w)"
  have u: "unfinished_run r \<longleftrightarrow> run_start_date r \<noteq> None \<and> run_exitcode r = None" if "r \<in> set (w_runs w)" for r
    using assms(2) [OF that] by (auto simp: unfinished_run_def)
  obtain runs' q' where s: "stop_runs Q now ?rs (w_runs w, w_queue w) = (e, runs', q')" "w_runs w' = runs'"
    using assms(3) by (auto simp: mark_stale_runs_def split: prod.splits)
  have rs: "\<forall>r\<in>set ?rs. \<not> run_succeeded r \<and> r \<in> set (w_runs w)" using u by (auto simp: run_succeeded_def)
  have d: "distinct (map run_id ?rs)" using assms(1) by (simp add: distinct_map_filter)
  note out = stop_runs_outcome [OF s(1) assms(1) d rs]
  have same: "run_id r \<notin> run_id ` set ?rs" if "r \<in> set (w_runs w)" "\<not> unfinished_run r" for r
    using that assms(1) by (auto simp: distinct_map inj_on_def)
  then have kept: "set (filter (\<lambda>r. \<not> unfinished_run r) (w_runs w)) \<subseteq> set runs'" using out by auto
  have "\<not> unfinished_run r'" if e: "e = None" and r': "r' \<in> set runs'" for r'
  proof -
    from out have ids: "map run_id runs' = map run_id (w_runs w)" by blast
    from r' have "run_id r' \<in> set (map run_id runs')" by simp
    then obtain r where r: "r \<in> set (w_runs w)" "run_id r = run_id r'" unfolding ids by auto
    have d': "distinct (map run_id runs')" using out assms(1) by simp
    show ?thesis
    proof (cases "unfinished_run r")
      case True
      with r(1) out e have "ended_in runs' r" by simp
      then obtain y where "y \<in> set runs'" "run_id y = run_id r" "finished y" by (auto simp: ended_in_def list_ex_iff same_run_def)
      with d' r' r(2) have "finished r'" by (auto simp: distinct_map dest: inj_onD)
      then show ?thesis by (auto simp: unfinished_run_def finished_def)
    next
      case False
      with kept r(1) have "r \<in> set runs'" by auto
      with d' r' r(2) have "r' = r" by (auto simp: distinct_map dest: inj_onD)
      with False show ?thesis by simp
    qed
  qed
  then show ?thesis using out kept unfolding s(2) by (cases e) (auto simp: list_ex_iff)
qed

section \<open>Unfinished runs of a schedule\<close>

text \<open>
  A witness instance of the queue: a list of jobs by identifier, in which a queued job can be removed and
  a stop command is always accepted.
\<close>

definition demo_rq :: "(nat \<times> rq_job) list rq" where
  "demo_rq = \<lparr>fetch_job = (\<lambda>q i. map_option (\<lambda>j. j\<lparr>ended_at := Some 0\<rparr>) (map_of q i)),
     in_jobs = (\<lambda>q _ i. map_option job_state (map_of q i) = Some (Some ''queued'')),
     remove_job = (\<lambda>q _ i. AList.delete i q),
     enqueue_job = (\<lambda>q c. AList.update (call_run c) \<lparr>job_state = Some ''queued'', ended_at = Some 0, exc_info = []\<rparr> q),
     send_stop_job_command = (\<lambda>q i. Inr q),
     delete_job = (\<lambda>q i. AList.delete i q),
     requeue_job = (\<lambda>q i. q)\<rparr>"

text \<open>
  What the service does to its runs: the scheduler enqueues, a worker starts the run of a job and ends it,
  the queue reports a failure, a run is stopped, requeued or deleted, a restart refreshes, schedules are
  saved and follow the registry; between any of these the queue itself moves on. A worker starts whatever
  job it gets, also one of a run that has ended. New runs have fresh identifiers (\<open>uuid4\<close>) and later dates.

  The label of a step says whether it takes back the end of a run, and of which schedule (\<open>Some\<close>): a run
  that has an exit code is started or requeued. A run that is enqueued for a schedule that is not active,
  whose status is \<open>DISABLED\<close> whatever its runs do, has this label too.
\<close>

definition revives :: "run_row \<Rightarrow> run_row \<Rightarrow> nat option" where
  "revives r r' = (if run_exitcode r \<noteq> None \<and> run_exitcode r' = None then Some (run_pipeline r) else None)"

definition disabled_target :: "string \<Rightarrow> ('q, 'c) world \<Rightarrow> nat option" where
  "disabled_target pid w = (case filter (\<lambda>s. pipeline_id s = pid) (w_schedules w) of
     [] \<Rightarrow> None | s # _ \<Rightarrow> if active s then None else Some (sched_pk s))"

inductive run_step :: "'q rq \<Rightarrow> 'c cron \<Rightarrow> nat option \<Rightarrow> ('q, 'c) world \<Rightarrow> ('q, 'c) world \<Rightarrow> bool" for Q C where
  step_enqueue:
    "uid \<notin> run_id ` set (w_runs w) \<Longrightarrow> list_all (\<lambda>r. created_date r < now) (w_runs w) \<Longrightarrow>
     enqueue_pipeline Q now uid pid w = (e, w') \<Longrightarrow> run_step Q C (disabled_target pid w) w w'"
| step_start:
    "r \<in> set (w_runs w) \<Longrightarrow> set_vulnerablecode_version_and_commit tag commit (set_run_started now r) = Inr r' \<Longrightarrow>
     run_step Q C (revives r r') w (w\<lparr>w_runs := save_run r' (w_runs w)\<rparr>)"
| step_log:
    "r \<in> set (w_runs w) \<Longrightarrow> run_step Q C None w (w\<lparr>w_runs := save_run (append_to_log m b r) (w_runs w)\<rparr>)"
| step_end:
    "r \<in> set (w_runs w) \<Longrightarrow>
     run_step Q C None w (w\<lparr>w_runs := save_run (set_run_ended now c out None r) (w_runs w)\<rparr>)"
| step_failure: "run_step Q C None w (w\<lparr>w_runs := set_run_failure now i m (w_runs w)\<rparr>)"
| step_stop:
    "r \<in> set (w_runs w) \<Longrightarrow> stop_run Q now (r, w_queue w) = (e, r', q) \<Longrightarrow>
     run_step Q C None w (w\<lparr>w_runs := save_run r' (w_runs w), w_queue := q\<rparr>)"
| step_requeue:
    "r \<in> set (w_runs w) \<Longrightarrow> requeue Q (r, w_queue w) = (r', q) \<Longrightarrow>
     run_step Q C (revives r r') w (w\<lparr>w_runs := save_run r' (w_runs w), w_queue := q\<rparr>)"
| step_delete:
    "delete_run Q now i (w_runs w, w_queue w) = (e, runs, q) \<Longrightarrow>
     run_step Q C None w (w\<lparr>w_runs := runs, w_queue := q\<rparr>)"
| step_refresh: "refresh_runs Q now w = (e, w') \<Longrightarrow> run_step Q C None w w'"
| step_save: "save_schedule C now s w = (e, w') \<Longrightarrow> run_step Q C None w w'"
| step_registry: "update_pipeline_schedule C timeout now reg w = (e, w') \<Longrightarrow> run_step Q C None w w'"
| step_queue: "run_step Q C None w (w\<lparr>w_queue := q\<rparr>)"

text \<open>A trace of the service, the latest step first.\<close>

inductive run_trace :: "'q rq \<Rightarrow> 'c cron \<Rightarrow> ('q, 'c) world \<Rightarrow> nat option list \<Rightarrow> ('q, 'c) world \<Rightarrow> bool" for Q C w0 where
  trace_start: "run_trace Q C w0 [] w0"
| trace_step: "run_trace Q C w0 ls w \<Longrightarrow> run_step Q C l w w' \<Longrightarrow> run_trace Q C w0 (l # ls) w'"

text \<open>The unfinished runs of a schedule that a newer run of it has overtaken, by their identifiers.\<close>

definition unfinished_ids :: "nat \<Rightarrow> run_row list \<Rightarrow> nat set" where
  "unfinished_ids pk runs = run_id ` {r \<in> set runs. run_pipeline r = pk \<and> run_exitcode r = None}"

definition overtaken :: "nat \<Rightarrow> run_row list \<Rightarrow> nat set" where
  "overtaken pk runs = run_id ` {r \<in> set runs. run_pipeline r = pk \<and> run_exitcode r = None \<and>
     (\<exists>r'\<in>set runs. run_pipeline r' = pk \<and> created_date r < created_date r')}"

definition run_keys_ok :: "run_row list \<Rightarrow> bool" where
  "run_keys_ok runs \<longleftrightarrow> distinct (map run_id runs) \<and> distinct (map created_date runs)"

lemma finite_overtaken [simp]: "finite (overtaken pk runs)" "finite (unfinished_ids pk runs)"
  by (simp_all add: overtaken_def unfinished_ids_def)

lemma advances_maps:
  "list_all2 advances runs runs' \<Longrightarrow> map run_id runs' = map run_id runs \<and> map created_date runs' = map created_date runs"
  by (induction rule: list_all2_induct) (auto simp: advances_def)

lemma advances_back: "list_all2 advances runs runs' \<Longrightarrow> r' \<in> set runs' \<Longrightarrow> \<exists>r\<in>set runs. advances r r'"
  by (induction rule: list_all2_induct) auto

lemma run_keys_advances: "list_all2 advances runs runs' \<Longrightarrow> run_keys_ok runs \<Longrightarrow> run_keys_ok runs'"
  using advances_maps by (simp add: run_keys_ok_def)

lemma overtaken_advances: "list_all2 advances runs runs' \<Longrightarrow> overtaken pk runs' \<subseteq> overtaken pk runs"
proof
  fix i assume l: "list_all2 advances runs runs'" and "i \<in> overtaken pk runs'"
  then obtain r r' where r: "r \<in> set runs'" "run_id r = i" "run_pipeline r = pk" "run_exitcode r = None"
    and r': "r' \<in> set runs'" "run_pipeline r' = pk" "created_date r < created_date r'"
    by (auto simp: overtaken_def)
  from advances_back [OF l r(1)] obtain s where s: "s \<in> set runs" "advances s r" by blast
  from advances_back [OF l r'(1)] obtain s' where s': "s' \<in> set runs" "advances s' r'" by blast
  from s s' r r' have "run_id s = i" "run_pipeline s = pk" "run_exitcode s = None" "run_pipeline s' = pk"
    "created_date s < created_date s'" by (auto simp: advances_def)
  with s(1) s'(1) show "i \<in> overtaken pk runs" unfolding overtaken_def by blast
qed

lemma overtaken_filter: "overtaken pk (filter P runs) \<subseteq> overtaken pk runs" "run_keys_ok runs \<Longrightarrow> run_keys_ok (filter P runs)"
  by (auto simp: overtaken_def run_keys_ok_def distinct_map_filter)

text \<open>A row that takes the place of another one of the same run: at most this run is overtaken anew.\<close>

lemma overtaken_save:
  assumes "run_keys_ok runs" "r \<in> set runs" "run_id r' = run_id r" "run_pipeline r' = run_pipeline r" "created_date r' = created_date r"
  shows "overtaken pk (save_run r' runs) \<subseteq> overtaken pk runs \<union> (if revives r r' = Some pk then {run_id r} else {})"
    and "run_keys_ok (save_run r' runs)"
proof -
  have eq: "x = r" if "x \<in> set runs" "run_id x = run_id r" for x
    using that assms(1,2) by (auto simp: run_keys_ok_def distinct_map dest: inj_onD)
  have dates: "map created_date (save_run r' runs) = map created_date runs"
    using eq assms(3,5) by (auto simp: save_run_def)
  with assms(1) show "run_keys_ok (save_run r' runs)" by (simp add: run_keys_ok_def)
  show "overtaken pk (save_run r' runs) \<subseteq> overtaken pk runs \<union> (if revives r r' = Some pk then {run_id r} else {})"
  proof
    fix i assume "i \<in> overtaken pk (save_run r' runs)"
    then obtain x y where x: "x \<in> set (save_run r' runs)" "run_id x = i" "run_pipeline x = pk" "run_exitcode x = None"
      and y: "y \<in> set (save_run r' runs)" "run_pipeline y = pk" "created_date x < created_date y"
      by (auto simp: overtaken_def)
    have "\<exists>y'\<in>set runs. run_pipeline y' = pk \<and> created_date y' = created_date y"
      using y(1,2) assms(2-5) by (auto simp: set_save_run)
    then obtain y' where y': "y' \<in> set runs" "run_pipeline y' = pk" "created_date y' = created_date y" by blast
    have old: "run_id z \<in> overtaken pk runs"
      if "z \<in> set runs" "run_pipeline z = pk" "run_exitcode z = None" "created_date z = created_date x" for z
      using that y' y(3) unfolding overtaken_def by (intro imageI) auto
    from x(1) assms(3) consider "x = r'" | "x \<in> set runs" by (auto simp: set_save_run)
    then show "i \<in> overtaken pk runs \<union> (if revives r r' = Some pk then {run_id r} else {})"
    proof cases
      case 1
      with old [of r] x assms(2-5) show ?thesis by (cases "run_exitcode r") (auto simp: revives_def)
    next
      case 2
      with old [of x] x show ?thesis by simp
    qed
  qed
qed

lemma latest_run_Some:
  assumes "latest_run s runs = Some r"
  shows "r \<in> set runs" "run_pipeline r = sched_pk s"
    and "r' \<in> set runs \<Longrightarrow> run_pipeline r' = sched_pk s \<Longrightarrow> created_date r' \<le> created_date r"
proof -
  let ?rs = "filter (\<lambda>r. run_pipeline r = sched_pk s) runs"
  from assms obtain rest where a: "sorted_desc created_date ?rs = r # rest"
    by (auto simp: latest_run_def all_runs_def split: list.splits)
  then have "r \<in> set ?rs" using set_sorted_desc [of created_date ?rs] by (metis list.set_intros(1))
  then show "r \<in> set runs" "run_pipeline r = sched_pk s" by auto
  show "created_date r' \<le> created_date r" if "r' \<in> set runs" "run_pipeline r' = sched_pk s"
    using hd_sorted_desc_max [of r' ?rs created_date] that a by simp
qed

lemma latest_run_None: "latest_run s runs = None \<Longrightarrow> r \<in> set runs \<Longrightarrow> run_pipeline r \<noteq> sched_pk s"
proof
  assume a: "latest_run s runs = None" "r \<in> set runs" "run_pipeline r = sched_pk s"
  then have "set (all_runs s runs) = {}" by (auto simp: latest_run_def split: list.splits)
  then have "set (filter (\<lambda>r. run_pipeline r = sched_pk s) runs) = {}" by (simp only: all_runs_def set_sorted_desc)
  with a show False by auto
qed

lemma run_status_active:
  "run_status job now r = (st, r') \<Longrightarrow> st \<noteq> RUNNING \<Longrightarrow> st \<noteq> QUEUED \<Longrightarrow> run_exitcode r' \<noteq> None"
  by (auto simp: run_status_def run_failed_def run_succeeded_def run_staled_def run_stopped_def set_run_ended_def
      split: if_splits option.splits)

text \<open>Only the latest unfinished run of a schedule is not overtaken.\<close>

lemma unfinished_overtaken:
  assumes "l \<in> set runs" "run_pipeline l = pk" "\<And>r. r \<in> set runs \<Longrightarrow> run_pipeline r = pk \<Longrightarrow> created_date r \<le> created_date l"
    and "run_keys_ok runs"
  shows "unfinished_ids pk runs \<subseteq> overtaken pk runs \<union> (if run_exitcode l = None then {run_id l} else {})"
proof
  fix i assume "i \<in> unfinished_ids pk runs"
  then obtain r where r: "r \<in> set runs" "run_id r = i" "run_pipeline r = pk" "run_exitcode r = None"
    by (auto simp: unfinished_ids_def)
  show "i \<in> overtaken pk runs \<union> (if run_exitcode l = None then {run_id l} else {})"
  proof (cases "created_date r < created_date l")
    case True
    with r assms(1,2) show ?thesis by (auto simp: overtaken_def intro!: image_eqI)
  next
    case False
    with assms(3) [OF r(1,3)] have "created_date r = created_date l" by simp
    with r(1) assms(1,4) have "r = l" by (auto simp: run_keys_ok_def distinct_map dest: inj_onD)
    with r show ?thesis by simp
  qed
qed

lemma schedule_status_outcome:
  assumes "schedule_status Q q now s runs = (st, runs')" "run_keys_ok runs"
  shows "list_all2 advances runs runs'"
    and "\<exists>i. unfinished_ids (sched_pk s) runs' \<subseteq> overtaken (sched_pk s) runs' \<union> (if active s \<and> st \<notin> {Some RUNNING, Some QUEUED} then {} else {i})"
proof -
  have none: "unfinished_ids (sched_pk s) runs = {}" if "latest_run s runs = None"
    using latest_run_None [OF that] by (auto simp: unfinished_ids_def)
  have "list_all2 advances runs runs' \<and> (\<exists>i. unfinished_ids (sched_pk s) runs' \<subseteq>
      overtaken (sched_pk s) runs' \<union> (if active s \<and> st \<notin> {Some RUNNING, Some QUEUED} then {} else {i}))"
  proof (cases "latest_run s runs")
    case None
    then have "runs' = runs" using assms(1) by (auto simp: schedule_status_def split: if_splits)
    with none [OF None] show ?thesis by simp
  next
    case (Some l)
    note l = latest_run_Some [OF Some]
    show ?thesis
    proof (cases "active s")
      case False
      then have "runs' = runs" using assms(1) by (simp add: schedule_status_def)
      moreover have "unfinished_ids (sched_pk s) runs \<subseteq> overtaken (sched_pk s) runs \<union> {run_id l}"
        using unfinished_overtaken [OF l(1,2,3) assms(2)] by (auto split: if_splits)
      ultimately show ?thesis using False by auto
    next
      case True
      obtain x l' where x: "run_status (fetch_job Q q (run_id l)) now l = (x, l')" by fastforce
      with assms(1) True Some have eq: "st = Some x" "runs' = save_run l' runs" by (simp_all add: schedule_status_def)
      note al = run_status_advances [OF x]
      have adv: "list_all2 advances runs runs'"
        using list_all2_save_run [OF _ l(1) al] assms(2) by (simp add: eq run_keys_ok_def)
      have l': "l' \<in> set runs'" "run_pipeline l' = sched_pk s" "created_date l' = created_date l"
        using al l(1,2) by (auto simp: eq set_save_run advances_def)
      have "created_date r \<le> created_date l'" if r: "r \<in> set runs'" "run_pipeline r = sched_pk s" for r
      proof -
        from advances_back [OF adv r(1)] obtain r0 where "r0 \<in> set runs" "advances r0 r" by blast
        with l(3) [of r0] r(2) l'(3) show ?thesis by (simp add: advances_def)
      qed
      from unfinished_overtaken [OF l'(1,2) this run_keys_advances [OF adv assms(2)]]
      have "unfinished_ids (sched_pk s) runs' \<subseteq> overtaken (sched_pk s) runs' \<union> (if run_exitcode l' = None then {run_id l'} else {})"
        by blast
      moreover have "st \<notin> {Some RUNNING, Some QUEUED} \<Longrightarrow> run_exitcode l' \<noteq> None"
        using run_status_active [OF x] eq(1) by simp
      ultimately show ?thesis using adv by (auto intro!: exI [of _ "run_id l'"] split: if_splits)
    qed
  qed
  then show "list_all2 advances runs runs'"
    "\<exists>i. unfinished_ids (sched_pk s) runs' \<subseteq> overtaken (sched_pk s) runs' \<union> (if active s \<and> st \<notin> {Some RUNNING, Some QUEUED} then {} else {i})"
    by blast+
qed

lemma overtaken_new_run:
  assumes "\<And>r. r \<in> set runs \<Longrightarrow> created_date r < now"
  shows "overtaken pk (runs @ [new_run uid k now]) \<subseteq> (if k = pk then unfinished_ids pk runs else overtaken pk runs)"
  using assms by (fastforce simp: overtaken_def unfinished_ids_def new_run_def)

lemma enqueue_pipeline_overtakes:
  assumes "enqueue_pipeline Q now uid pid w = (e, w')" "run_keys_ok (w_runs w)"
    and "uid \<notin> run_id ` set (w_runs w)" "\<And>r. r \<in> set (w_runs w) \<Longrightarrow> created_date r < now"
  shows "run_keys_ok (w_runs w') \<and>
    (\<exists>i. overtaken pk (w_runs w') \<subseteq> overtaken pk (w_runs w) \<union> (if disabled_target pid w = Some pk then {i} else {}))"
proof (cases "filter (\<lambda>s. pipeline_id s = pid) (w_schedules w)")
  case Nil
  with assms(1,2) show ?thesis by (auto simp: enqueue_pipeline_def)
next
  case (Cons s rest)
  obtain st runs where sc: "schedule_status Q (w_queue w) now s (w_runs w) = (st, runs)" by fastforce
  note adv = schedule_status_outcome(1) [OF sc assms(2)]
  note keys = run_keys_advances [OF adv assms(2)]
  note less = overtaken_advances [OF adv]
  show ?thesis
  proof (cases "st \<in> {Some RUNNING, Some QUEUED}")
    case True
    with assms(1) Cons sc have "w_runs w' = runs" by (auto simp: enqueue_pipeline_def)
    with keys less show ?thesis by auto
  next
    case False
    with assms(1) Cons sc have w': "w_runs w' = runs @ [new_run uid (sched_pk s) now]"
      by (auto simp: enqueue_pipeline_def Let_def)
    have "run_id ` set runs = run_id ` set (w_runs w)" "created_date ` set runs = created_date ` set (w_runs w)"
      using advances_maps [OF adv] by (metis list.set_map)+
    then have new: "uid \<notin> run_id ` set runs" "\<And>r. r \<in> set runs \<Longrightarrow> created_date r < now"
      using assms(3,4) by (auto simp: image_iff) (metis image_iff)
    have ok: "run_keys_ok (w_runs w')" using keys new by (fastforce simp: run_keys_ok_def w' new_run_def)
    obtain i where i: "unfinished_ids (sched_pk s) runs \<subseteq> overtaken (sched_pk s) runs \<union> (if active s then {} else {i})"
      using schedule_status_outcome(2) [OF sc assms(2)] False by auto
    have "overtaken pk (w_runs w') \<subseteq> overtaken pk runs \<union> (if disabled_target pid w = Some pk then {i} else {})"
      using overtaken_new_run [where runs = runs and now = now and pk = pk and uid = uid and k = "sched_pk s", OF new(2)] i Cons unfolding w'
      by (auto simp: disabled_target_def split: if_splits)
    with ok less show ?thesis by blast
  qed
qed

lemma set_run_failure_advances [simp]: "list_all2 advances runs (set_run_failure now i m runs)"
  by (simp add: set_run_failure_def list_all2_map2 list.rel_refl_strong)

lemma stop_runs_advances:
  "stop_runs Q now rs (runs, q) = (e, runs', q') \<Longrightarrow> distinct (map run_id runs) \<Longrightarrow> distinct (map run_id rs) \<Longrightarrow>
   set rs \<subseteq> set runs \<Longrightarrow> list_all2 advances runs runs'"
proof (induction rs arbitrary: runs q)
  case (Cons r rs)
  obtain e1 r1 q1 where s: "stop_run Q now (r, q) = (e1, r1, q1)" by (metis prod_cases3)
  note adv = stop_run_advances [OF s]
  have 1: "list_all2 advances runs (save_run r1 runs)"
    using list_all2_save_run [OF Cons.prems(2) _ adv] Cons.prems(4) by simp
  show ?case
  proof (cases e1)
    case None
    have "set rs \<subseteq> set (save_run r1 runs)"
    proof
      fix x assume x: "x \<in> set rs"
      then have "run_id x \<in> run_id ` set rs" by (rule imageI)
      with Cons.prems(3) adv have "run_id x \<noteq> run_id r1" by (auto simp: advances_def)
      with x Cons.prems(4) show "x \<in> set (save_run r1 runs)" by (auto simp: set_save_run)
    qed
    then have "list_all2 advances (save_run r1 runs) runs'"
      using Cons.IH [of "save_run r1 runs" q1] Cons.prems(1-3) s None by simp
    with 1 show ?thesis by (rule advances_all_trans)
  next
    case (Some a)
    with Cons.prems(1) s 1 show ?thesis by simp
  qed
qed simp

lemma requeue_runs_advances:
  "requeue_runs Q now rs w = (e, w') \<Longrightarrow> distinct (map run_id (w_runs w)) \<Longrightarrow> distinct (map run_id rs) \<Longrightarrow>
   set rs \<subseteq> set (w_runs w) \<Longrightarrow> list_all2 advances (w_runs w) (w_runs w')"
proof (induction rs arbitrary: w)
  case (Cons r rs)
  obtain e1 w1 where s: "requeue_missing Q now r w = (e1, w1)" by fastforce
  have "w_runs w1 = w_runs w \<or> (\<exists>r1. advances r r1 \<and> w_runs w1 = save_run r1 (w_runs w))"
    using s by (auto simp: requeue_missing_def split: if_splits list.splits prod.splits dest: stop_run_advances)
  then have "list_all2 advances (w_runs w) (w_runs w1) \<and> set rs \<subseteq> set (w_runs w1)"
  proof
    assume "\<exists>r1. advances r r1 \<and> w_runs w1 = save_run r1 (w_runs w)"
    then obtain r1 where r1: "advances r r1" "w_runs w1 = save_run r1 (w_runs w)" by blast
    have "x \<in> set (save_run r1 (w_runs w))" if "x \<in> set rs" for x
    proof -
      from that have "run_id x \<in> run_id ` set rs" by (rule imageI)
      with Cons.prems(3) r1(1) have "run_id x \<noteq> run_id r1" by (auto simp: advances_def)
      with that Cons.prems(4) show ?thesis by (auto simp: set_save_run)
    qed
    with r1 list_all2_save_run [OF Cons.prems(2) _ r1(1)] Cons.prems(4) show ?thesis by auto
  qed (use Cons.prems(4) in simp)
  then have 1: "list_all2 advances (w_runs w) (w_runs w1)" and 2: "set rs \<subseteq> set (w_runs w1)" by blast+
  show ?case
  proof (cases e1)
    case None
    from advances_maps [OF 1] Cons.prems(2) have "distinct (map run_id (w_runs w1))" by simp
    with Cons.IH [of w1] Cons.prems(1,3) s None 2 have "list_all2 advances (w_runs w1) (w_runs w')" by simp
    with 1 show ?thesis by (rule advances_all_trans)
  next
    case (Some a)
    with Cons.prems(1) s 1 show ?thesis by simp
  qed
qed simp

lemma mark_stale_runs_advances:
  assumes "mark_stale_runs Q now w = (e, w')" "distinct (map run_id (w_runs w))"
  shows "list_all2 advances (w_runs w) (w_runs w')"
proof -
  obtain e1 runs q where s: "stop_runs Q now (filter unfinished_run (w_runs w)) (w_runs w, w_queue w) = (e1, runs, q)"
    by (metis prod_cases3)
  with assms(1) have "w_runs w' = runs" by (auto simp: mark_stale_runs_def)
  with stop_runs_advances [OF s assms(2)] assms(2) show ?thesis by (auto simp: distinct_map_filter)
qed

lemma refresh_runs_advances:
  assumes "refresh_runs Q now w = (e, w')" "distinct (map run_id (w_runs w))"
  shows "list_all2 advances (w_runs w) (w_runs w')"
proof -
  obtain e1 w1 where s: "mark_stale_runs Q now w = (e1, w1)" by fastforce
  note 1 = mark_stale_runs_advances [OF s assms(2)]
  from advances_maps [OF 1] assms(2) have d: "distinct (map run_id (w_runs w1))" by simp
  show ?thesis
  proof (cases e1)
    case None
    with s assms(1) have "requeue_missing_jobs Q now w1 = (e, w')" by (simp add: refresh_runs_def)
    then have "list_all2 advances (w_runs w1) (w_runs w')"
      unfolding requeue_missing_jobs_def
      by (rule requeue_runs_advances) (use d in \<open>auto simp: distinct_map_filter\<close>)
    with 1 show ?thesis by (rule advances_all_trans)
  next
    case (Some a)
    with s assms(1) 1 show ?thesis by (simp add: refresh_runs_def)
  qed
qed

lemma delete_run_outcome:
  assumes "delete_run Q now i (runs, q) = (e, runs', q')" "run_keys_ok runs"
  shows "list_all2 advances runs runs' \<or> (\<exists>P. runs' = filter P runs)"
proof (cases "filter (\<lambda>r. run_id r = i) runs")
  case Nil
  with assms show ?thesis by (simp add: delete_run_def)
next
  case (Cons r rest)
  then have "r \<in> set (filter (\<lambda>r. run_id r = i) runs)" by simp
  then have r: "r \<in> set runs" "run_id r = i" by auto
  obtain e1 r1 q1 where s: "stop_run Q now (r, q) = (e1, r1, q1)" by (metis prod_cases3)
  note adv = stop_run_advances [OF s]
  with r have "map (\<lambda>x. if run_id x = i then r1 else x) runs = save_run r1 runs"
    by (simp add: save_run_def advances_def)
  with assms Cons s list_all2_save_run [OF _ r(1) adv] show ?thesis
    by (auto simp: delete_run_def run_keys_ok_def split: if_splits)
qed

lemma save_schedule_runs: "save_schedule C now s w = (e, w') \<Longrightarrow> w_runs w' = w_runs w"
  by (auto simp: save_schedule_def Let_def split: list.splits prod.splits if_splits)

lemma sync_pipelines_runs: "sync_pipelines C timeout now reg w = (e, w') \<Longrightarrow> w_runs w' = w_runs w"
proof (induction reg arbitrary: w)
  case (Cons ke reg)
  have "sync_pipeline C timeout now ke w = (e1, w1) \<Longrightarrow> w_runs w1 = w_runs w" for e1 w1
    by (auto simp: sync_pipeline_def save_new_schedule_def Let_def dest: save_schedule_runs
        split: prod.splits list.splits if_splits)
  with Cons show ?case by (force split: prod.splits option.splits)
qed simp

text \<open>A step adds at most one overtaken run, and that only when it takes back the end of a run of the schedule.\<close>

lemma run_step_overtakes:
  "run_step Q C l w w' \<Longrightarrow> run_keys_ok (w_runs w) \<Longrightarrow> run_keys_ok (w_runs w') \<and>
     (\<exists>i. overtaken pk (w_runs w') \<subseteq> overtaken pk (w_runs w) \<union> (if l = Some pk then {i} else {}))"
proof (induction rule: run_step.induct)
  case (step_enqueue uid w now pid e w')
  then show ?case using enqueue_pipeline_overtakes [OF step_enqueue(3,4)] by (simp add: list_all_iff)
next
  case (step_start r w tag commit now r')
  then have "run_id r' = run_id r \<and> run_pipeline r' = run_pipeline r \<and> created_date r' = created_date r"
    by (auto simp: set_vulnerablecode_version_and_commit_def set_run_started_def reset_run_def split: if_splits)
  with overtaken_save(1) [of "w_runs w" r r' pk] overtaken_save(2) [of "w_runs w" r r'] step_start show ?case by (intro conjI exI [of _ "run_id r"]) auto
next
  case (step_log r w m b)
  then show ?case using list_all2_save_run [of "w_runs w" r "append_to_log m b r"]
    by (auto simp: run_keys_ok_def [THEN iffD1, THEN conjunct1] dest: run_keys_advances overtaken_advances)
next
  case (step_end r w now c out)
  then show ?case using list_all2_save_run [of "w_runs w" r "set_run_ended now c out None r"]
    by (auto simp: run_keys_ok_def [THEN iffD1, THEN conjunct1] dest: run_keys_advances overtaken_advances)
next
  case (step_failure w now i m)
  then show ?case using run_keys_advances [OF set_run_failure_advances] overtaken_advances [OF set_run_failure_advances] by auto
next
  case (step_stop r w now e r' q)
  then show ?case using list_all2_save_run [of "w_runs w" r r'] stop_run_advances [OF step_stop(2)]
    by (auto simp: run_keys_ok_def [THEN iffD1, THEN conjunct1] dest: run_keys_advances overtaken_advances)
next
  case (step_requeue r w r' q)
  then have "run_id r' = run_id r \<and> run_pipeline r' = run_pipeline r \<and> created_date r' = created_date r"
    by (auto simp: requeue_def reset_run_def split: if_splits)
  with overtaken_save(1) [of "w_runs w" r r' pk] overtaken_save(2) [of "w_runs w" r r'] step_requeue show ?case by (intro conjI exI [of _ "run_id r"]) auto
next
  case (step_delete now i w e runs q)
  from delete_run_outcome [OF step_delete(1,2)] show ?case
  proof
    assume "list_all2 advances (w_runs w) runs"
    with step_delete(2) show ?thesis by (auto dest: run_keys_advances overtaken_advances)
  next
    assume "\<exists>P. runs = filter P (w_runs w)"
    then obtain P where "runs = filter P (w_runs w)" by blast
    with step_delete(2) overtaken_filter(1) [of pk P "w_runs w"] overtaken_filter(2) [of "w_runs w" P] show ?thesis by auto
  qed
next
  case (step_refresh now w e w')
  then have "list_all2 advances (w_runs w) (w_runs w')"
    by (auto simp: run_keys_ok_def intro: refresh_runs_advances)
  with step_refresh(2) show ?case by (auto dest: run_keys_advances overtaken_advances)
next
  case (step_save now s w e w')
  then show ?case by (simp add: save_schedule_runs)
next
  case (step_registry timeout now reg w e w')
  have "w_runs w' = w_runs (delete_schedules (dict_keys reg) w)"
    by (rule sync_pipelines_runs [OF step_registry(1) [unfolded update_pipeline_schedule_def]])
  also have "\<dots> = filter (\<lambda>r. run_pipeline r \<in> sched_pk ` set (filter (\<lambda>s. pipeline_id s \<in> set (dict_keys reg)) (w_schedules w))) (w_runs w)"
    by (simp add: delete_schedules_def Let_def)
  finally obtain P where "w_runs w' = filter P (w_runs w)" by blast
  with step_registry(2) overtaken_filter(1) [of pk P "w_runs w"] overtaken_filter(2) [of "w_runs w" P] show ?case by auto
qed simp

lemma run_trace_overtakes:
  assumes "run_trace Q C w0 ls w" "run_keys_ok (w_runs w0)" "overtaken pk (w_runs w0) = {}"
  shows "run_keys_ok (w_runs w) \<and> card (overtaken pk (w_runs w)) \<le> count_list ls (Some pk)"
  using assms(1)
proof (induction rule: run_trace.induct)
  case trace_start
  from assms(2,3) show ?case by simp
next
  case (trace_step ls w l w')
  then obtain i where "run_keys_ok (w_runs w')"
    "overtaken pk (w_runs w') \<subseteq> overtaken pk (w_runs w) \<union> (if l = Some pk then {i} else {})"
    using run_step_overtakes [OF trace_step(2)] by blast
  moreover have "card (overtaken pk (w_runs w) \<union> (if l = Some pk then {i} else {})) \<le>
      card (overtaken pk (w_runs w)) + (if l = Some pk then 1 else 0)"
    by (auto intro: card_insert_le_m1 simp: card_insert_if)
  ultimately show ?case using trace_step.IH
    by (auto dest!: card_mono [rotated] split: if_splits)
qed


definition demo_schedule :: schedule_row where
  "demo_schedule = \<lparr>sched_pk = 1, pipeline_id = ''p'', is_active = Some True, is_run_once = False,
     live_logging = False, run_interval = 60, run_priority = DEFAULT, schedule_work_id = None,
     execution_timeout = 24, sched_created = 0\<rparr>"

definition demo_world :: "((nat \<times> rq_job) list, unit) world" where
  "demo_world = \<lparr>w_runs = [], w_schedules = [demo_schedule], w_next = 2, w_queue = [], w_cron = ()\<rparr>"

text \<open>
  A run whose job fails before it starts has an exit code and no start date: the refresh puts it back in the
  queue, the schedule, which shows \<open>FAILURE\<close>, enqueues a new run, and a worker starts the old one: two runs
  of one schedule are unfinished.
\<close>

definition demo_enqueued :: "((nat \<times> rq_job) list, unit) world" where
  "demo_enqueued = snd (enqueue_pipeline demo_rq 5 0 ''p'' demo_world)"

definition demo_failed :: "((nat \<times> rq_job) list, unit) world" where
  "demo_failed = demo_enqueued\<lparr>w_runs := set_run_failure 6 0 ''E'' (w_runs demo_enqueued), w_queue := []\<rparr>"

definition demo_twice :: "((nat \<times> rq_job) list, unit) world" where
  "demo_twice = snd (enqueue_pipeline demo_rq 8 1 ''p'' (snd (refresh_runs demo_rq 7 demo_failed)))"

definition demo_revived :: "((nat \<times> rq_job) list, unit) world" where
  "demo_revived = demo_twice\<lparr>w_runs := save_run (set_run_started 9 (hd (w_runs demo_twice))) (w_runs demo_twice)\<rparr>"

definition no_cron :: "unit cron" where
  "no_cron = \<lparr>redis_running = (\<lambda>_. False), cron_schedule = (\<lambda>c _. ([], c)), cron_cancel = (\<lambda>c _. c), cron_jobs = (\<lambda>_. [])\<rparr>"

lemma failed_run_started_again:
  "is_job_in_queue demo_rq 0 (w_queue demo_twice) \<and> is_job_in_queue demo_rq 1 (w_queue demo_twice) \<and>
   map (\<lambda>r. (run_id r, run_exitcode r)) (w_runs demo_revived) = [(0, None), (1, None)]"
  by code_simp

lemma demo_trace: "run_trace demo_rq no_cron demo_world [Some 1, None, None, None, None, None] demo_revived"
proof -
  have runs: "w_runs demo_world = []" "map run_id (w_runs demo_enqueued) = [0]"
    "list_all (\<lambda>r. run_id r = 0 \<and> created_date r = 5) (w_runs (snd (refresh_runs demo_rq 7 demo_failed)))" by code_simp+
  have tgt: "disabled_target ''p'' demo_world = None"
    "disabled_target ''p'' (snd (refresh_runs demo_rq 7 demo_failed)) = None" by code_simp+
  have "run_step demo_rq no_cron None demo_world demo_enqueued"
    using step_enqueue [of 0 demo_world 5 demo_rq "''p''" "fst (enqueue_pipeline demo_rq 5 0 ''p'' demo_world)" demo_enqueued no_cron]
    by (simp add: demo_enqueued_def runs tgt)
  moreover have "run_step demo_rq no_cron None demo_enqueued (demo_enqueued\<lparr>w_runs := set_run_failure 6 0 ''E'' (w_runs demo_enqueued)\<rparr>)"
    by (rule step_failure)
  moreover have "run_step demo_rq no_cron None (demo_enqueued\<lparr>w_runs := set_run_failure 6 0 ''E'' (w_runs demo_enqueued)\<rparr>) demo_failed"
    unfolding demo_failed_def by (rule step_queue)
  moreover have "run_step demo_rq no_cron None demo_failed (snd (refresh_runs demo_rq 7 demo_failed))"
    by (rule step_refresh [of _ 7 _ "fst (refresh_runs demo_rq 7 demo_failed)"]) simp
  moreover have "run_step demo_rq no_cron None (snd (refresh_runs demo_rq 7 demo_failed)) demo_twice"
  proof -
    have "1 \<notin> run_id ` set (w_runs (snd (refresh_runs demo_rq 7 demo_failed)))"
      "list_all (\<lambda>r. created_date r < 8) (w_runs (snd (refresh_runs demo_rq 7 demo_failed)))"
      using runs(3) by (auto simp: list_all_iff)
    from step_enqueue [OF this, of demo_rq "''p''" "fst (enqueue_pipeline demo_rq 8 1 ''p'' (snd (refresh_runs demo_rq 7 demo_failed)))" demo_twice no_cron]
    show ?thesis by (simp add: demo_twice_def tgt)
  qed
  moreover have "run_step demo_rq no_cron (Some 1) demo_twice demo_revived"
  proof -
    let ?r = "hd (w_runs demo_twice)"
    have "w_runs demo_twice \<noteq> []" "run_pipeline ?r = 1" "run_exitcode ?r = Some 1" by code_simp+
    moreover have "set_vulnerablecode_version_and_commit None None (set_run_started 9 ?r) = Inr (set_run_started 9 ?r)"
      by (simp add: set_vulnerablecode_version_and_commit_def set_run_started_def reset_run_def)
    ultimately show ?thesis
      using step_start [of ?r demo_twice None None 9 "set_run_started 9 ?r" demo_rq no_cron]
      by (simp add: demo_revived_def revives_def set_run_started_def reset_run_def)
  qed
  ultimately show ?thesis by (blast intro: run_trace.intros)
qed


text \<open>A queue that knows a running job and refuses to stop it.\<close>

definition refusing_rq :: "(nat \<times> rq_job) list rq" where
  "refusing_rq = demo_rq\<lparr>send_stop_job_command := (\<lambda>q i. Inl PlainException)\<rparr>"

definition demo_started :: "((nat \<times> rq_job) list, unit) world" where
  "demo_started = demo_world\<lparr>w_runs := [set_run_started 7 (new_run 0 1 5), set_run_started 7 (new_run 1 2 6)],
     w_queue := [(0, \<lparr>job_state = Some ''started'', ended_at = None, exc_info = []\<rparr>)]\<rparr>"

lemma mark_stale_runs_finishes_witness:
  "\<not> list_ex unfinished_run (w_runs (snd (mark_stale_runs demo_rq 9 demo_started))) \<and>
   ended_in (w_runs (snd (mark_stale_runs demo_rq 9 demo_started))) (set_run_started 7 (new_run 1 2 6))"
proof -
  have run: "mark_stale_runs demo_rq 9 demo_started = (None, snd (mark_stale_runs demo_rq 9 demo_started))"
    by (rule prod_eqI) (code_simp, simp)
  have rows: "w_runs demo_started = [set_run_started 7 (new_run 0 1 5), set_run_started 7 (new_run 1 2 6)]"
    by (simp add: demo_started_def)
  have d: "distinct (map run_id (w_runs demo_started))"
    and f: "set_run_started 7 (new_run 1 2 6) \<in> set (filter unfinished_run (w_runs demo_started))"
    by (simp_all add: rows set_run_started_def new_run_def reset_run_def unfinished_run_def)
  have x: "run_exitcode r = None \<longleftrightarrow> run_end_date r = None" if "r \<in> set (w_runs demo_started)" for r
    using that by (auto simp: rows set_run_started_def new_run_def reset_run_def)
  from mark_stale_runs_finishes [OF d x run] f show ?thesis by simp
qed

text \<open>One refused stop command: no run is ended, and the refresh never comes to the missing jobs.\<close>

lemma refused_stop_leaves_runs:
  "let (e, w) = refresh_runs refusing_rq 9 demo_started
   in e = Some PlainException \<and> list_all unfinished_run (w_runs w)"
  by code_simp

text \<open>
  A queued run that is stopped keeps its empty start date, so the next refresh takes it for a run that
  was never started and, when it is the latest of its schedule, puts it back in the queue.
\<close>

lemma stopped_run_is_requeued:
  "let w = demo_world\<lparr>w_runs := [new_run 0 1 5], w_queue := [(0, \<lparr>job_state = Some ''queued'', ended_at = None, exc_info = []\<rparr>)]\<rparr>;
       (e, r, q) = stop_run demo_rq 6 (new_run 0 1 5, w_queue w);
       (e', w') = refresh_runs demo_rq 7 (w\<lparr>w_runs := [r], w_queue := q\<rparr>)
   in run_exitcode r = Some 99 \<and> \<not> is_job_in_queue demo_rq 0 q \<and> is_job_in_queue demo_rq 0 (w_queue w')"
  by code_simp

text \<open>
  A schedule that is not active shows \<open>DISABLED\<close> whatever its runs do, so a direct call of
  \<open>enqueue_pipeline\<close> adds a second unfinished run to it.
\<close>

lemma disabled_schedule_enqueues:
  "let w = demo_world\<lparr>w_schedules := [demo_schedule\<lparr>is_active := Some False\<rparr>],
             w_runs := [set_run_started 7 (new_run 0 1 5)]\<rparr>
   in length (filter (\<lambda>r. run_exitcode r = None) (w_runs (snd (enqueue_pipeline demo_rq 8 1 ''p'' w)))) = 2"
  by code_simp

section \<open>Schedules follow the registry\<close>

text \<open>
  What the code relies on in the scheduler, for some set \<open>issued c\<close> of the identifiers handed out so
  far and a number \<open>room c\<close> of identifiers left: a new job has a new identifier that fits the column,
  and a cancelled job is gone.
\<close>

definition cron_laws :: "'c cron \<Rightarrow> ('c \<Rightarrow> string set) \<Rightarrow> ('c \<Rightarrow> nat) \<Rightarrow> bool" where
  "cron_laws C issued room \<longleftrightarrow>
     (\<forall>c call j c'. cron_schedule C c call = (j, c') \<longrightarrow> 0 < room c \<longrightarrow>
        j \<notin> issued c \<and> length j \<le> 255 \<and> issued c' = insert j (issued c) \<and> room c \<le> Suc (room c') \<and>
        set (cron_jobs C c') = insert j (set (cron_jobs C c))) \<and>
     (\<forall>c j. issued (cron_cancel C c j) = issued c \<and> room (cron_cancel C c j) = room c \<and>
        set (cron_jobs C (cron_cancel C c j)) = set (cron_jobs C c) - {j})"

definition row_ok :: "string set \<Rightarrow> nat \<Rightarrow> schedule_row \<Rightarrow> bool" where
  "row_ok ids n s \<longleftrightarrow> sched_pk s < n \<and> pipeline_id s \<noteq> [] \<and> length (pipeline_id s) \<le> 600 \<and>
     1 \<le> execution_timeout s \<and> execution_timeout s \<le> 72 \<and>
     (case schedule_work_id s of None \<Rightarrow> True | Some j \<Rightarrow> j \<in> ids \<and> length j \<le> 255)"

definition schedules_inv :: "('c \<Rightarrow> string set) \<Rightarrow> ('q, 'c) world \<Rightarrow> bool" where
  "schedules_inv issued w \<longleftrightarrow>
     distinct (map sched_pk (w_schedules w)) \<and> distinct (map pipeline_id (w_schedules w)) \<and>
     list_all (row_ok (issued (w_cron w)) (w_next w)) (w_schedules w)"

lemma row_ok_mono: "row_ok I n s \<Longrightarrow> I \<subseteq> J \<Longrightarrow> n \<le> m \<Longrightarrow> row_ok J m s"
  by (auto simp: row_ok_def split: option.splits)

lemma row_ok_update:
  "row_ok I n s \<Longrightarrow> (\<And>j. work = Some j \<Longrightarrow> j \<in> I \<and> length j \<le> 255) \<Longrightarrow>
   row_ok I n (s\<lparr>run_priority := p, run_interval := v, schedule_work_id := work\<rparr>)"
  by (auto simp: row_ok_def split: option.splits)

lemma row_ok_work: "row_ok I n s \<Longrightarrow> j \<notin> I \<Longrightarrow> schedule_work_id s \<noteq> Some j"
  by (auto simp: row_ok_def)

definition registry_ok :: "(string \<times> registry_entry) list \<Rightarrow> bool" where
  "registry_ok reg \<longleftrightarrow> distinct (map fst reg) \<and>
     (\<forall>(i, e)\<in>set reg. i \<noteq> [] \<and> length i \<le> 600 \<and> 5 \<le> reg_run_interval e \<and> reg_run_interval e \<le> 43200)"

definition synced :: "registry_entry \<Rightarrow> schedule_row \<Rightarrow> bool" where
  "synced e s \<longleftrightarrow> run_priority s = reg_run_priority e \<and> run_interval s = reg_run_interval e"

lemma create_new_job_laws:
  assumes "cron_laws C issued room" "0 < room c" "create_new_job C now b s runs c = (work, c')"
  shows "issued c \<subseteq> issued c'" "room c \<le> Suc (room c')"
    and "work = Some j \<Longrightarrow> j \<notin> issued c \<and> j \<in> issued c' \<and> length j \<le> 255"
proof -
  have A: "cron_schedule C c1 call = (j, c2) \<Longrightarrow> 0 < room c1 \<Longrightarrow>
      j \<notin> issued c1 \<and> length j \<le> 255 \<and> issued c2 = insert j (issued c1) \<and> room c1 \<le> Suc (room c2)" for c1 call j c2
    using assms(1) unfolding cron_laws_def by blast
  have B: "issued (cron_cancel C c1 j) = issued c1 \<and> room (cron_cancel C c1 j) = room c1" for c1 j
    using assms(1) unfolding cron_laws_def by blast
  let ?c = "case schedule_work_id s of None \<Rightarrow> c | Some w \<Rightarrow> if w = [] then c else cron_cancel C c w"
  have I: "issued ?c = issued c" "room ?c = room c" by (simp_all add: B split: option.splits)
  show "issued c \<subseteq> issued c'" "room c \<le> Suc (room c')"
    "work = Some j \<Longrightarrow> j \<notin> issued c \<and> j \<in> issued c' \<and> length j \<le> 255"
    using assms(2,3) I A [of ?c]
    by (auto simp: create_new_job_def schedule_execution_def Let_def split: if_splits prod.splits)
qed

lemma schedules_inv_cron:
  "schedules_inv issued w \<Longrightarrow> issued (w_cron w) \<subseteq> issued c \<Longrightarrow> schedules_inv issued (w\<lparr>w_cron := c\<rparr>)"
  by (auto simp: schedules_inv_def list_all_iff intro: row_ok_mono)

lemma filter_eq_Cons_mem: "filter P xs = x # ys \<Longrightarrow> x \<in> set xs \<and> P x"
  by (auto dest!: arg_cong [of _ _ set])

lemma sync_pipeline_ok:
  assumes laws: "cron_laws C issued room" and room: "0 < room (w_cron w)" and inv: "schedules_inv issued w" and t: "1 \<le> timeout" "timeout \<le> 72"
    and i: "i \<noteq> []" "length i \<le> 600" and e: "5 \<le> reg_run_interval e" "reg_run_interval e \<le> 43200"
  shows "\<exists>w'. sync_pipeline C timeout now (i, e) w = (None, w') \<and> schedules_inv issued w' \<and> room (w_cron w) \<le> Suc (room (w_cron w')) \<and>
     w_runs w' = w_runs w \<and> sched_pk ` set (w_schedules w) \<subseteq> sched_pk ` set (w_schedules w') \<and>
     pipeline_id ` set (w_schedules w') = insert i (pipeline_id ` set (w_schedules w)) \<and>
     (\<forall>s\<in>set (w_schedules w'). pipeline_id s = i \<and> synced e s \<or> pipeline_id s \<noteq> i \<and> s \<in> set (w_schedules w))"
proof (cases "filter (\<lambda>s. pipeline_id s = i) (w_schedules w)")
  case Nil
  let ?s = "\<lparr>sched_pk = 0, pipeline_id = i, is_active = Some True, is_run_once = reg_run_once e,
                 live_logging = False, run_interval = reg_run_interval e, run_priority = reg_run_priority e,
                 schedule_work_id = None, execution_timeout = timeout, sched_created = now\<rparr>"
  obtain work c where j: "create_new_job C now True ?s [] (w_cron w) = (work, c)" by fastforce
  note L = create_new_job_laws [OF laws room j]
  let ?s' = "?s\<lparr>sched_pk := w_next w, schedule_work_id := work, sched_created := now\<rparr>"
  have no: "s \<in> set (w_schedules w) \<Longrightarrow> pipeline_id s \<noteq> i" for s using Nil by (auto simp: filter_empty_conv)
  have others: "s \<in> set (w_schedules w) \<Longrightarrow> work \<noteq> None \<Longrightarrow> schedule_work_id s \<noteq> work" for s
    using inv L(3) row_ok_work by (fastforce simp: schedules_inv_def list_all_iff)
  have clean: "schedule_clean (w_schedules w) ?s'"
    using i e t L(3) no others by (auto simp: schedule_clean_def list_ex_iff split: option.splits)
  let ?w = "w\<lparr>w_cron := c, w_schedules := w_schedules w @ [?s'], w_next := Suc (w_next w)\<rparr>"
  have "sync_pipeline C timeout now (i, e) w = (None, ?w)"
    using Nil j clean by (simp add: sync_pipeline_def save_new_schedule_def)
  moreover have "schedules_inv issued ?w"
  proof -
    have "w_next w \<notin> sched_pk ` set (w_schedules w)" "i \<notin> pipeline_id ` set (w_schedules w)"
      using inv no by (auto simp: schedules_inv_def list_all_iff row_ok_def)
    moreover have "row_ok (issued c) (Suc (w_next w)) x" if "x \<in> set (w_schedules w)" for x
      using schedules_inv_cron [OF inv L(1)] that
      by (auto simp: schedules_inv_def list_all_iff intro: row_ok_mono [of _ "w_next w"])
    moreover have "row_ok (issued c) (Suc (w_next w)) ?s'"
      using i t L(3) by (auto simp: row_ok_def split: option.splits)
    ultimately show ?thesis using inv by (simp add: schedules_inv_def list_all_iff)
  qed
  moreover have "\<forall>s\<in>set (w_schedules ?w). pipeline_id s = i \<and> synced e s \<or> pipeline_id s \<noteq> i \<and> s \<in> set (w_schedules w)"
    using no by (auto simp: synced_def)
  moreover have "room (w_cron w) \<le> Suc (room (w_cron ?w))" using L(2) by simp
  ultimately show ?thesis by (intro exI [of _ ?w]) auto
next
  case (Cons s rest)
  from filter_eq_Cons_mem [OF Cons] have s: "s \<in> set (w_schedules w)" "pipeline_id s = i" by auto
  have uniq: "x = s" if "x \<in> set (w_schedules w)" "sched_pk x = sched_pk s \<or> pipeline_id x = i" for x
    using that inv s by (auto simp: schedules_inv_def distinct_map inj_on_def)
  show ?thesis
  proof (cases "synced e s")
    case True
    then have "sync_pipeline C timeout now (i, e) w = (None, w)"
      using Cons by (simp add: sync_pipeline_def synced_def)
    with True inv s uniq show ?thesis by auto
  next
    case False
    let ?s = "s\<lparr>run_priority := reg_run_priority e, run_interval := reg_run_interval e\<rparr>"
    obtain ys where f: "filter (\<lambda>x. sched_pk x = sched_pk s) (w_schedules w) = s # ys"
    proof (cases "filter (\<lambda>x. sched_pk x = sched_pk s) (w_schedules w)")
      case (Cons x zs)
      with filter_eq_Cons_mem [OF Cons] uniq that show ?thesis by blast
    qed (use s in \<open>auto simp: filter_empty_conv\<close>)
    have changed: "is_active s \<noteq> is_active ?s \<or> run_interval s \<noteq> run_interval ?s \<or> run_priority s \<noteq> run_priority ?s"
      using False by (auto simp: synced_def)
    obtain work c where j: "create_new_job C now False ?s (w_runs w) (w_cron w) = (work, c)" by fastforce
    note L = create_new_job_laws [OF laws room j]
    let ?s' = "?s\<lparr>schedule_work_id := work\<rparr>"
    let ?w = "w\<lparr>w_cron := c, w_schedules := map (\<lambda>x. if sched_pk x = sched_pk s then ?s' else x) (w_schedules w)\<rparr>"
    have others: "x \<in> set (w_schedules w) \<Longrightarrow> work \<noteq> None \<Longrightarrow> schedule_work_id x \<noteq> work" for x
      using inv L(3) row_ok_work by (fastforce simp: schedules_inv_def list_all_iff)
    have "schedule_clean (filter (\<lambda>x. sched_pk x \<noteq> sched_pk s) (w_schedules w)) ?s'"
    proof -
      have "1 \<le> execution_timeout s" "execution_timeout s \<le> 72"
        using inv s(1) by (auto simp: schedules_inv_def list_all_iff row_ok_def)
      moreover have "pipeline_id x \<noteq> i" if "x \<in> set (w_schedules w)" "sched_pk x \<noteq> sched_pk s" for x
        using uniq [OF that(1)] that(2) by auto
      moreover have "(case work of None \<Rightarrow> True | Some w \<Rightarrow> length w \<le> 255)" using L(3) by (simp split: option.splits)
      ultimately show ?thesis using i e s(2) others
        unfolding schedule_clean_def list_ex_iff by (cases work) auto
    qed
    then have "sync_pipeline C timeout now (i, e) w = (None, ?w)"
      using Cons j False changed
      by (simp add: sync_pipeline_def save_schedule_def synced_def f) 
    moreover have m: "map sched_pk (w_schedules ?w) = map sched_pk (w_schedules w)"
        "map pipeline_id (w_schedules ?w) = map pipeline_id (w_schedules w)"
      using uniq s(2) by auto
    moreover have "schedules_inv issued ?w"
    proof -
      have rows: "row_ok (issued c) (w_next w) x" if "x \<in> set (w_schedules w)" for x
        using schedules_inv_cron [OF inv L(1)] that by (simp add: schedules_inv_def list_all_iff)
      have "row_ok (issued c) (w_next w) ?s'"
        by (rule row_ok_update [OF rows [OF s(1)]]) (use L(3) in blast)
      with rows have "list_all (row_ok (issued c) (w_next w)) (w_schedules ?w)"
        by (auto simp: list_all_iff)
      with m inv show ?thesis by (simp add: schedules_inv_def del: map_map)
    qed
    moreover have "\<forall>x\<in>set (w_schedules ?w). pipeline_id x = i \<and> synced e x \<or> pipeline_id x \<noteq> i \<and> x \<in> set (w_schedules w)"
      using uniq s(2) by (auto simp: synced_def)
    moreover have "pipeline_id ` set (w_schedules ?w) = pipeline_id ` set (w_schedules w)"
      "sched_pk ` set (w_schedules ?w) = sched_pk ` set (w_schedules w)"
      using arg_cong [OF m(2), of set] arg_cong [OF m(1), of set] by (simp_all only: list.set_map)
    moreover have "insert i (pipeline_id ` set (w_schedules w)) = pipeline_id ` set (w_schedules w)"
      using s by auto
    moreover have "w_runs ?w = w_runs w" "room (w_cron w) \<le> Suc (room (w_cron ?w))" using L(2) by simp_all
    ultimately show ?thesis by (intro exI [of _ ?w]) (simp only: order_refl simp_thms)
  qed
qed


lemma sync_pipelines_ok:
  assumes laws: "cron_laws C issued room" and t: "1 \<le> timeout" "timeout \<le> 72"
  shows "schedules_inv issued w \<Longrightarrow> registry_ok reg \<Longrightarrow> length reg \<le> room (w_cron w) \<Longrightarrow>
    \<exists>w'. sync_pipelines C timeout now reg w = (None, w') \<and> schedules_inv issued w' \<and>
     w_runs w' = w_runs w \<and> sched_pk ` set (w_schedules w) \<subseteq> sched_pk ` set (w_schedules w') \<and>
     pipeline_id ` set (w_schedules w') = fst ` set reg \<union> pipeline_id ` set (w_schedules w) \<and>
     (\<forall>s\<in>set (w_schedules w'). case map_of reg (pipeline_id s) of
        Some e \<Rightarrow> synced e s | None \<Rightarrow> s \<in> set (w_schedules w))"
proof (induction reg arbitrary: w)
  case Nil
  then show ?case by simp
next
  case (Cons ie reg)
  obtain i e where ie: "ie = (i, e)" by fastforce
  from Cons.prems(2) ie have i: "i \<noteq> []" "length i \<le> 600" and e: "5 \<le> reg_run_interval e" "reg_run_interval e \<le> 43200"
    and reg: "registry_ok reg" and new: "i \<notin> fst ` set reg" by (auto simp: registry_ok_def)
  from sync_pipeline_ok [OF laws _ Cons.prems(1) t i e, of now] Cons.prems(3) 
  obtain w1 where w1:
    "sync_pipeline C timeout now (i, e) w = (None, w1)" "schedules_inv issued w1"
    "room (w_cron w) \<le> Suc (room (w_cron w1))" "w_runs w1 = w_runs w"
    "sched_pk ` set (w_schedules w) \<subseteq> sched_pk ` set (w_schedules w1)"
    "pipeline_id ` set (w_schedules w1) = insert i (pipeline_id ` set (w_schedules w))"
    "\<forall>s\<in>set (w_schedules w1). pipeline_id s = i \<and> synced e s \<or> pipeline_id s \<noteq> i \<and> s \<in> set (w_schedules w)"
    by auto
  have "length reg \<le> room (w_cron w1)" using w1(3) Cons.prems(3) by simp
  from Cons.IH [OF w1(2) reg this] obtain w' where w':
    "sync_pipelines C timeout now reg w1 = (None, w')" "schedules_inv issued w'" "w_runs w' = w_runs w1"
    "sched_pk ` set (w_schedules w1) \<subseteq> sched_pk ` set (w_schedules w')"
    "pipeline_id ` set (w_schedules w') = fst ` set reg \<union> pipeline_id ` set (w_schedules w1)"
    "\<forall>s\<in>set (w_schedules w'). (case map_of reg (pipeline_id s) of
        Some e \<Rightarrow> synced e s | None \<Rightarrow> s \<in> set (w_schedules w1))"
    by - (elim exE conjE, rule that; assumption)
  have "case map_of (ie # reg) (pipeline_id s) of Some e \<Rightarrow> synced e s | None \<Rightarrow> s \<in> set (w_schedules w)"
    if "s \<in> set (w_schedules w')" for s
  proof (cases "pipeline_id s = i")
    case True
    with new have "map_of reg (pipeline_id s) = None" by (simp add: map_of_eq_None_iff)
    with bspec [OF w'(6) that] have "s \<in> set (w_schedules w1)" by simp
    with w1(7) True ie show ?thesis by auto
  next
    case False
    with bspec [OF w'(6) that] w1(7) ie show ?thesis by (auto split: option.splits)
  qed
  then have "\<forall>s\<in>set (w_schedules w'). case map_of (ie # reg) (pipeline_id s) of
       Some e \<Rightarrow> synced e s | None \<Rightarrow> s \<in> set (w_schedules w)" by blast
  moreover have "sync_pipelines C timeout now (ie # reg) w = (None, w')" using w1(1) w'(1) ie by simp
  moreover have "sched_pk ` set (w_schedules w) \<subseteq> sched_pk ` set (w_schedules w')"
    using w1(5) w'(4) by (rule order_trans)
  moreover have "pipeline_id ` set (w_schedules w') = fst ` set (ie # reg) \<union> pipeline_id ` set (w_schedules w)"
    using w1(6) w'(5) ie by simp
  moreover have "w_runs w' = w_runs w" using w1(4) w'(3) by simp
  ultimately show ?case using w'(2) by blast
qed

lemma sync_pipelines_fixed:
  "(\<And>i e. (i, e) \<in> set reg \<Longrightarrow> \<exists>s ys. filter (\<lambda>s. pipeline_id s = i) (w_schedules w) = s # ys \<and> synced e s) \<Longrightarrow>
   sync_pipelines C timeout now reg w = (None, w)"
proof (induction reg)
  case (Cons ie reg)
  obtain i e where ie: "ie = (i, e)" by fastforce
  with Cons.prems [of i e] obtain s ys where
    "filter (\<lambda>s. pipeline_id s = i) (w_schedules w) = s # ys" "synced e s" by auto
  with ie Cons show ?case by (simp add: sync_pipeline_def synced_def)
qed simp

lemma delete_schedules_runs:
  "w_runs (delete_schedules keys w) =
     filter (\<lambda>r. \<exists>s\<in>set (w_schedules w). sched_pk s = run_pipeline r \<and> pipeline_id s \<in> set keys) (w_runs w)"
proof -
  have mem: "run_pipeline r \<in> sched_pk ` set (filter (\<lambda>s. pipeline_id s \<in> set keys) (w_schedules w)) \<longleftrightarrow>
      (\<exists>s\<in>set (w_schedules w). sched_pk s = run_pipeline r \<and> pipeline_id s \<in> set keys)" for r
    unfolding image_iff set_filter by (auto simp: eq_commute)
  have runs: "w_runs (delete_schedules keys w) = filter (\<lambda>r. run_pipeline r \<in>
      sched_pk ` set (filter (\<lambda>s. pipeline_id s \<in> set keys) (w_schedules w))) (w_runs w)"
    by (simp add: delete_schedules_def Let_def)
  show ?thesis unfolding runs by (rule filter_cong [OF refl]) (rule mem)
qed

lemma delete_schedules_fixed:
  assumes "pipeline_id ` set (w_schedules w) \<subseteq> set keys" "run_pipeline ` set (w_runs w) \<subseteq> sched_pk ` set (w_schedules w)"
  shows "delete_schedules keys w = w"
proof -
  have "filter (\<lambda>s. pipeline_id s \<in> set keys) (w_schedules w) = w_schedules w"
    using assms(1) by (auto simp: filter_id_conv)
  moreover have "run_pipeline r \<in> sched_pk ` set (w_schedules w)" if "r \<in> set (w_runs w)" for r
    using that assms(2) by blast
  ultimately show ?thesis by (simp add: delete_schedules_def Let_def filter_id_conv)
qed

text \<open>Nothing is left to do once the schedules are those of the registry.\<close>

lemma sync_pipelines_again:
  assumes "registry_ok reg" "fst ` set reg \<subseteq> pipeline_id ` set (w_schedules w)"
    and all: "\<And>s. s \<in> set (w_schedules w) \<Longrightarrow> \<exists>e. map_of reg (pipeline_id s) = Some e \<and> synced e s"
  shows "sync_pipelines C timeout now reg w = (None, w)"
proof (rule sync_pipelines_fixed)
  fix i e assume ie: "(i, e) \<in> set reg"
  then have "i \<in> pipeline_id ` set (w_schedules w)" using assms(2) by force
  then have "filter (\<lambda>s. pipeline_id s = i) (w_schedules w) \<noteq> []" by (auto simp: filter_empty_conv)
  then obtain s ys where f: "filter (\<lambda>s. pipeline_id s = i) (w_schedules w) = s # ys"
    by (cases "filter (\<lambda>s. pipeline_id s = i) (w_schedules w)") auto
  from filter_eq_Cons_mem [OF f] all [of s] have "\<exists>e'. map_of reg i = Some e' \<and> synced e' s" by auto
  moreover have "map_of reg i = Some e" using ie assms(1) by (simp add: registry_ok_def)
  ultimately show "\<exists>s ys. filter (\<lambda>s. pipeline_id s = i) (w_schedules w) = s # ys \<and> synced e s" using f by auto
qed

text \<open>
  C24: after \<open>update_pipeline_schedule\<close> the schedules are those of the registered pipelines, one each, with
  the priority and the interval of the registry; running it again changes nothing. It needs valid
  intervals in the registry and a scheduler that hands out new identifiers.
\<close>

theorem update_pipeline_schedule_syncs:
  assumes "cron_laws C issued room" "schedules_inv issued w" "registry_ok reg" "1 \<le> timeout" "timeout \<le> 72"
    and "length reg \<le> room (w_cron w)"
  shows "\<exists>w'. update_pipeline_schedule C timeout now reg w = (None, w') \<and>
     distinct (map pipeline_id (w_schedules w')) \<and>
     pipeline_id ` set (w_schedules w') = fst ` set reg \<and>
     (\<forall>s\<in>set (w_schedules w'). \<exists>e. map_of reg (pipeline_id s) = Some e \<and> synced e s) \<and>
     w_runs w' = filter (\<lambda>r. \<exists>s\<in>set (w_schedules w). sched_pk s = run_pipeline r \<and> pipeline_id s \<in> fst ` set reg) (w_runs w) \<and>
     update_pipeline_schedule C timeout now' reg w' = (None, w')"
proof -
  let ?keys = "dict_keys reg"
  let ?w0 = "delete_schedules ?keys w"
  have keys: "set ?keys = fst ` set reg" by (simp add: dict_keys_def)
  have "schedules_inv issued ?w0"
    using assms(2) by (auto simp: schedules_inv_def delete_schedules_def Let_def distinct_map_filter list_all_iff)
  moreover have "length reg \<le> room (w_cron ?w0)" using assms(6) by (simp add: delete_schedules_def Let_def)
  ultimately have "\<exists>w'. sync_pipelines C timeout now reg ?w0 = (None, w') \<and> schedules_inv issued w' \<and>
     w_runs w' = w_runs ?w0 \<and> sched_pk ` set (w_schedules ?w0) \<subseteq> sched_pk ` set (w_schedules w') \<and>
     pipeline_id ` set (w_schedules w') = fst ` set reg \<union> pipeline_id ` set (w_schedules ?w0) \<and>
     (\<forall>s\<in>set (w_schedules w'). case map_of reg (pipeline_id s) of
        Some e \<Rightarrow> synced e s | None \<Rightarrow> s \<in> set (w_schedules ?w0))"
    by (rule sync_pipelines_ok [OF assms(1,4,5) _ assms(3)])
  then obtain w' where w':
    "sync_pipelines C timeout now reg ?w0 = (None, w')" "schedules_inv issued w'" "w_runs w' = w_runs ?w0"
    "sched_pk ` set (w_schedules ?w0) \<subseteq> sched_pk ` set (w_schedules w')"
    "pipeline_id ` set (w_schedules w') = fst ` set reg \<union> pipeline_id ` set (w_schedules ?w0)"
    "\<forall>s\<in>set (w_schedules w'). (case map_of reg (pipeline_id s) of
        Some e \<Rightarrow> synced e s | None \<Rightarrow> s \<in> set (w_schedules ?w0))"
    by - (elim exE conjE, rule that; assumption)
  have ids: "pipeline_id ` set (w_schedules w') = fst ` set reg"
    using w'(5) by (auto simp: delete_schedules_def Let_def keys)
  have all: "\<exists>e. map_of reg (pipeline_id s) = Some e \<and> synced e s" if "s \<in> set (w_schedules w')" for s
  proof -
    have "pipeline_id s \<in> fst ` set reg" using that ids by blast
    then have "map_of reg (pipeline_id s) \<noteq> None" by (simp add: map_of_eq_None_iff)
    with bspec [OF w'(6) that] show ?thesis by (auto split: option.splits)
  qed
  have runs: "w_runs w' = filter (\<lambda>r. \<exists>s\<in>set (w_schedules w). sched_pk s = run_pipeline r \<and> pipeline_id s \<in> fst ` set reg) (w_runs w)"
    unfolding w'(3) delete_schedules_runs keys ..
  have "run_pipeline ` set (w_runs w') \<subseteq> sched_pk ` set (w_schedules ?w0)"
    by (auto simp: w'(3) delete_schedules_def Let_def)
  with w'(4) have same: "delete_schedules ?keys w' = w'"
    by (intro delete_schedules_fixed) (simp_all add: ids keys)
  have again: "update_pipeline_schedule C timeout now' reg w' = (None, w')"
    using sync_pipelines_again [OF assms(3) equalityD2 [OF ids] all] by (simp add: update_pipeline_schedule_def same)
  have "distinct (map pipeline_id (w_schedules w'))" using w'(2) by (simp add: schedules_inv_def)
  with w'(1) ids all runs again show ?thesis by (auto simp: update_pipeline_schedule_def)
qed

text \<open>
  A witness instance of the scheduler: its jobs, and the number of identifiers handed out, each a
  longer string.
\<close>

definition demo_cron :: "(string list \<times> nat) cron" where
  "demo_cron = \<lparr>redis_running = (\<lambda>_. True),
     cron_schedule = (\<lambda>(js, n) call. (let j = replicate (Suc n) (CHR ''j'') in (j, (j # js, Suc n)))),
     cron_cancel = (\<lambda>(js, n) j. (removeAll j js, n)),
     cron_jobs = fst\<rparr>"

lemma demo_cron_laws: "cron_laws demo_cron (\<lambda>(js, n). (\<lambda>k. replicate (Suc k) (CHR ''j'')) ` {..<n}) (\<lambda>(js, n). 255 - n)"
proof -
  have "replicate (Suc n) (CHR ''j'') \<notin> (\<lambda>k. replicate (Suc k) (CHR ''j'')) ` {..<n}" for n
  proof
    assume "replicate (Suc n) (CHR ''j'') \<in> (\<lambda>k. replicate (Suc k) (CHR ''j'')) ` {..<n}"
    then obtain k where "k < n" "replicate (Suc n) (CHR ''j'') = replicate (Suc k) (CHR ''j'')" by blast
    then show False using arg_cong [of _ _ length] by fastforce
  qed
  then show ?thesis
    unfolding cron_laws_def demo_cron_def
    by (simp add: Let_def lessThan_Suc split: prod.splits del: replicate_Suc) auto
qed

definition demo_registry :: "(string \<times> registry_entry) list" where
  "demo_registry = [(''p'', \<lparr>reg_run_once = False, reg_run_interval = 60, reg_run_priority = HIGH\<rparr>),
                    (''q'', \<lparr>reg_run_once = True, reg_run_interval = 1440, reg_run_priority = DEFAULT\<rparr>)]"

definition demo_schedules :: "(unit, string list \<times> nat) world" where
  "demo_schedules = \<lparr>w_runs = [new_run 0 1 5, new_run 1 2 5],
     w_schedules = [demo_schedule, demo_schedule\<lparr>sched_pk := 2, pipeline_id := ''old''\<rparr>],
     w_next = 3, w_queue = (), w_cron = ([], 0)\<rparr>"

lemma update_pipeline_schedule_syncs_witness:
  "\<exists>w'. update_pipeline_schedule demo_cron 24 0 demo_registry demo_schedules = (None, w') \<and>
     pipeline_id ` set (w_schedules w') = {''p'', ''q''}"
  using update_pipeline_schedule_syncs [OF demo_cron_laws, of demo_schedules demo_registry 24 0]
  by (fastforce simp: schedules_inv_def row_ok_def registry_ok_def demo_schedules_def demo_schedule_def demo_registry_def)

text \<open>
  The scheduler is told of a schedule before \<open>full_clean\<close> rejects it: a pipeline with an interval out of
  range leaves a job in the scheduler that no schedule knows, and the other pipelines unsynchronised.
\<close>

lemma rejected_schedule_leaves_job:
  "let w0 = \<lparr>w_runs = [], w_schedules = [], w_next = 1, w_queue = (), w_cron = ([], 0)\<rparr>;
       (e, w) = update_pipeline_schedule demo_cron 24 0
         ((''r'', \<lparr>reg_run_once = False, reg_run_interval = 2, reg_run_priority = DEFAULT\<rparr>) # demo_registry) w0
   in e = Some ValidationError \<and> w_schedules w = [] \<and> cron_jobs demo_cron (w_cron w) = [''j'']"
  by code_simp

text \<open>
  \<open>clear_zombie_pipeline_schedules\<close> removes exactly the periodic jobs that no schedule refers to.
\<close>

theorem clear_zombie_exact:
  assumes "cron_laws C issued room"
  shows "set (cron_jobs C (w_cron (clear_zombie_pipeline_schedules C w))) =
     {j \<in> set (cron_jobs C (w_cron w)). \<exists>s\<in>set (w_schedules w). schedule_work_id s = Some j} \<and>
     w_schedules (clear_zombie_pipeline_schedules C w) = w_schedules w"
proof -
  let ?step = "\<lambda>j c. if Some j \<notin> schedule_work_id ` set (w_schedules w) then cron_cancel C c j else c"
  have cancel: "set (cron_jobs C (cron_cancel C c j)) = set (cron_jobs C c) - {j}" for c j
    using assms unfolding cron_laws_def by blast
  have "set (cron_jobs C (fold ?step js c)) =
      set (cron_jobs C c) - {j \<in> set js. Some j \<notin> schedule_work_id ` set (w_schedules w)}" for js c
    by (induction js arbitrary: c) (auto simp: cancel)
  then show ?thesis
    by (auto simp: clear_zombie_pipeline_schedules_def image_iff)
qed

lemma clear_zombie_exact_witness:
  "set (cron_jobs demo_cron (w_cron (clear_zombie_pipeline_schedules demo_cron
      (demo_schedules\<lparr>w_cron := ([''a'', ''b''], 0)\<rparr>)))) = {}"
  using clear_zombie_exact [OF demo_cron_laws, of "demo_schedules\<lparr>w_cron := ([''a'', ''b''], 0)\<rparr>"]
  by (simp add: demo_schedules_def demo_schedule_def)

end
