(* ===== verification/PipelineExec.thy ===== *)
theory PipelineExec
  imports Complex_Main Runs
begin

text \<open>
  Executing a pipeline: \<open>BasePipelineRun.execute\<close> of \<open>vulnerabilities/pipelines/__init__.py\<close>, and
  \<open>execute_pipeline\<close>, \<open>legacy_runner\<close> and \<open>compute_queue_load_factor\<close> of \<open>vulnerabilities/tasks.py\<close>.

  What the steps of a pipeline do is not fixed here: a step is a function on a state \<open>'w\<close> that logs
  some messages and may raise. The clock is a parameter too: \<open>stamp n\<close> is the time stamp of the
  \<open>n\<close>-th message of a run and \<open>took n\<close> the duration that message reports.
\<close>

section \<open>The execution of the steps\<close>

record py_exception =
  exc_text :: string
  exc_cause :: "string option"
  exc_trace :: string
  exc_repr :: string
  exc_format :: string

record clock =
  stamp :: "nat \<Rightarrow> string"
  took :: "nat \<Rightarrow> string"

type_synonym 'w action = "'w \<Rightarrow> string list \<times> py_exception option \<times> 'w"

record 'w pipeline =
  pipeline_name :: string
  steps :: "(string \<times> 'w action) list"
  on_failure :: "'w action"

record 'w exec =
  ex_world :: 'w
  ex_run :: "run_row option"
  ex_live :: bool
  execution_log :: "string list"
  current_step :: string

datatype outcome = Completed | Returned int string | Raised py_exception

abbreviation nl :: string where "nl \<equiv> [CHR 0x0A]"

definition output_from_exception :: "py_exception \<Rightarrow> string" where
  "output_from_exception e =
     exc_text e @ nl @ nl @
     (case exc_cause e of
        None \<Rightarrow> [] | Some c \<Rightarrow> if c \<noteq> exc_text e then ''Cause: '' @ c @ nl @ nl else []) @
     ''Traceback:'' @ nl @ exc_trace e"

definition log_message :: "clock \<Rightarrow> string \<Rightarrow> 'w exec \<Rightarrow> 'w exec" where
  "log_message K message x =
     (let m = stamp K (length (execution_log x)) @ '' '' @ message
      in x\<lparr>ex_run := (case ex_run x of None \<Rightarrow> None
                     | Some r \<Rightarrow> Some (if ex_live x then append_to_log m False r else r)),
           execution_log := execution_log x @ [m]\<rparr>)"

definition update_final_run_log :: "'w exec \<Rightarrow> 'w exec" where
  "update_final_run_log x =
     x\<lparr>ex_run := (case ex_run x of None \<Rightarrow> None
                 | Some r \<Rightarrow> Some (if ex_live x then r
                                   else append_to_log (join_with nl (execution_log x)) True r))\<rparr>"

definition set_current_step :: "string \<Rightarrow> 'w exec \<Rightarrow> 'w exec" where
  "set_current_step s x = x\<lparr>current_step := s\<rparr>"

definition log_took :: "clock \<Rightarrow> string \<Rightarrow> 'w exec \<Rightarrow> 'w exec" where
  "log_took K m x = log_message K (m @ took K (length (execution_log x))) x"

text \<open>An action of the pipeline: its messages go to the log, in order.\<close>

definition perform :: "clock \<Rightarrow> 'w action \<Rightarrow> 'w exec \<Rightarrow> py_exception option \<times> 'w exec" where
  "perform K act x = (case act (ex_world x) of (msgs, e, w) \<Rightarrow>
     (e, fold (log_message K) msgs (x\<lparr>ex_world := w\<rparr>)))"

text \<open>
  The loop of \<open>execute\<close>; \<open>n_steps\<close> is the number of steps, \<open>i\<close> the index of the next one and \<open>dec\<close> writes
  a number in decimal.
\<close>

fun execute_steps ::
    "clock \<Rightarrow> (nat \<Rightarrow> string) \<Rightarrow> string list \<Rightarrow> 'w action \<Rightarrow> nat \<Rightarrow> nat \<Rightarrow> (string \<times> 'w action) list \<Rightarrow> 'w exec \<Rightarrow>
       outcome \<times> 'w exec" where
  "execute_steps K dec selected cleanup n_steps i [] x = (Completed, x)"
| "execute_steps K dec selected cleanup n_steps i ((name, act) # rest) x =
     (if selected \<noteq> [] \<and> name \<notin> set selected
      then execute_steps K dec selected cleanup n_steps (Suc i) rest (log_message K (''Step ['' @ name @ ''] skipped'') x)
      else (case perform K act (log_message K (''Step ['' @ name @ ''] starting'')
                   (set_current_step (dec i @ ''/'' @ dec n_steps @ '' '' @ name) x)) of
          (None, x) \<Rightarrow>
            execute_steps K dec selected cleanup n_steps (Suc i) rest
              (log_took K (''Step ['' @ name @ ''] completed in '') x)
        | (Some e, x) \<Rightarrow>
            (case perform K cleanup (log_message K ''Running [on_failure] tasks'' (log_message K ''Pipeline failed'' x)) of
               (Some e', x) \<Rightarrow> (Raised e', x)
             | (None, x) \<Rightarrow>
                 (Returned 1 (output_from_exception e),
                  update_final_run_log (log_took K ''Completed [on_failure] tasks in '' x)))))"

text \<open>\<open>execute\<close> returns the exit code and the output of the run, or lets an exception out.\<close>

definition execute ::
    "clock \<Rightarrow> (nat \<Rightarrow> string) \<Rightarrow> string list \<Rightarrow> 'w pipeline \<Rightarrow> 'w exec \<Rightarrow>
       (py_exception + int \<times> string) \<times> 'w exec" where
  "execute K dec selected P x =
     (case execute_steps K dec selected (on_failure P) (length (steps P)) 1 (steps P)
             (log_message K (''Pipeline ['' @ pipeline_name P @ ''] starting'') x) of
        (Completed, x) \<Rightarrow>
          (Inr (0, []), update_final_run_log (log_took K ''Pipeline completed in '' (set_current_step [] x)))
      | (Returned c out, x) \<Rightarrow> (Inr (c, out), x)
      | (Raised e, x) \<Rightarrow> (Inl e, x))"

section \<open>Execution against its specification\<close>

text \<open>What a pipeline promises: its selected steps in order, up to the first that raises.\<close>

fun run_plain :: "'w action list \<Rightarrow> 'w \<Rightarrow> py_exception option \<times> 'w" where
  "run_plain [] w = (None, w)"
| "run_plain (act # acts) w =
     (case act w of (_, None, w') \<Rightarrow> run_plain acts w' | (_, Some e, w') \<Rightarrow> (Some e, w'))"

definition selected_steps :: "string list \<Rightarrow> (string \<times> 'w action) list \<Rightarrow> 'w action list" where
  "selected_steps selected ss = map snd (filter (\<lambda>s. selected = [] \<or> fst s \<in> set selected) ss)"

lemma log_message_world [simp]:
  "ex_world (log_message K m x) = ex_world x" "ex_live (log_message K m x) = ex_live x"
  "current_step (log_message K m x) = current_step x"
  by (simp_all add: log_message_def Let_def)

lemma log_took_world [simp]:
  "ex_world (log_took K m x) = ex_world x" "ex_live (log_took K m x) = ex_live x"
  "current_step (log_took K m x) = current_step x"
  by (simp_all add: log_took_def)

lemma final_log_world [simp]:
  "ex_world (update_final_run_log x) = ex_world x" "current_step (update_final_run_log x) = current_step x"
  by (simp_all add: update_final_run_log_def)

lemma set_current_step_world [simp]:
  "ex_world (set_current_step s x) = ex_world x" "ex_live (set_current_step s x) = ex_live x"
  "execution_log (set_current_step s x) = execution_log x" "ex_run (set_current_step s x) = ex_run x"
  by (simp_all add: set_current_step_def)

lemma fold_log_world [simp]:
  "ex_world (fold (log_message K) msgs x) = ex_world x" "ex_live (fold (log_message K) msgs x) = ex_live x"
  by (induction msgs arbitrary: x) simp_all

lemma perform_world:
  "perform K act x = (e, x') \<Longrightarrow> \<exists>msgs. act (ex_world x) = (msgs, e, ex_world x')"
  by (auto simp: perform_def split: prod.splits)

lemma execute_steps_world:
  "execute_steps K dec selected cleanup n_steps i ss x = (res, x') \<Longrightarrow>
   (case run_plain (selected_steps selected ss) (ex_world x) of
      (None, w) \<Rightarrow> res = Completed \<and> ex_world x' = w
    | (Some e, w) \<Rightarrow> (case cleanup w of
        (_, None, w') \<Rightarrow> res = Returned 1 (output_from_exception e) \<and> ex_world x' = w'
      | (_, Some e', w') \<Rightarrow> res = Raised e' \<and> ex_world x' = w'))"
proof (induction K dec selected cleanup n_steps i ss x arbitrary: res x' rule: execute_steps.induct)
  case (2 K dec selected cleanup n_steps i name act rest x)
  show ?case
  proof (cases "selected \<noteq> [] \<and> name \<notin> set selected")
    case True
    with "2.IH"(1) [OF True] "2.prems" show ?thesis by (simp add: selected_steps_def)
  next
    case False
    let ?x = "log_message K (''Step ['' @ name @ ''] starting'') (set_current_step (dec i @ ''/'' @ dec n_steps @ '' '' @ name) x)"
    obtain e x1 where p: "perform K act ?x = (e, x1)" by fastforce
    from perform_world [OF p] obtain ms where a: "act (ex_world x) = (ms, e, ex_world x1)" by auto
    show ?thesis
    proof (cases e)
      case None
      with "2.IH"(2) [OF False p [symmetric, unfolded None]] "2.prems" False p a show ?thesis
        by (simp add: selected_steps_def)
    next
      case (Some e1)
      let ?y = "log_message K ''Running [on_failure] tasks'' (log_message K ''Pipeline failed'' x1)"
      obtain f x2 where q: "perform K cleanup ?y = (f, x2)" by fastforce
      from perform_world [OF q] obtain ns where c: "cleanup (ex_world x1) = (ns, f, ex_world x2)" by auto
      have "run_plain (selected_steps selected ((name, act) # rest)) (ex_world x) = (Some e1, ex_world x1)"
        using False a Some by (simp add: selected_steps_def)
      with "2.prems" False p q c Some show ?thesis by (auto split: option.splits)
    qed
  qed
qed (simp add: selected_steps_def)

text \<open>
  C22: \<open>execute\<close> implements its specification: it runs the selected steps in the order of the class, up to
  the first that raises; then it runs \<open>on_failure\<close> and returns 1 with the text of the exception. It
  returns 0 when none raises. An exception of \<open>on_failure\<close> itself is the only one that gets out.
\<close>

theorem execute_runs_steps:
  "case run_plain (selected_steps selected (steps P)) (ex_world x) of
     (None, w) \<Rightarrow> \<exists>x'. execute K dec selected P x = (Inr (0, []), x') \<and> ex_world x' = w \<and> current_step x' = []
   | (Some e, w) \<Rightarrow> (case on_failure P w of
        (_, None, w') \<Rightarrow> \<exists>x'. execute K dec selected P x = (Inr (1, output_from_exception e), x') \<and> ex_world x' = w'
      | (_, Some e', w') \<Rightarrow> \<exists>x'. execute K dec selected P x = (Inl e', x') \<and> ex_world x' = w')"
proof -
  let ?x = "log_message K (''Pipeline ['' @ pipeline_name P @ ''] starting'') x"
  obtain res x' where e: "execute_steps K dec selected (on_failure P) (length (steps P)) 1 (steps P) ?x = (res, x')"
    by fastforce
  have "current_step (set_current_step [] x') = []" by (simp add: set_current_step_def)
  moreover have "execute K dec selected P x = (case (res, x') of
        (Completed, x) \<Rightarrow>
          (Inr (0, []), update_final_run_log (log_took K ''Pipeline completed in '' (set_current_step [] x)))
      | (Returned c out, x) \<Rightarrow> (Inr (c, out), x)
      | (Raised e, x) \<Rightarrow> (Inl e, x))"
    by (simp only: execute_def e)
  ultimately show ?thesis
    using execute_steps_world [OF e] by (auto split: option.splits prod.splits)
qed


section \<open>Live and final logs agree\<close>

definition clean_line :: "string \<Rightarrow> bool" where
  "clean_line m \<longleftrightarrow> m \<noteq> [] \<and> \<not> is_space (hd m) \<and> \<not> is_space (last m) \<and> CHR 0x0A \<notin> set m \<and> CHR 0x0D \<notin> set m"

definition log_text :: "string list \<Rightarrow> string" where
  "log_text ms = concat (map (\<lambda>m. m @ nl) ms)"

lemma strip_clean: "m \<noteq> [] \<Longrightarrow> \<not> is_space (hd m) \<Longrightarrow> \<not> is_space (last m) \<Longrightarrow> strip m = m"
proof -
  assume m: "m \<noteq> []" "\<not> is_space (hd m)" "\<not> is_space (last m)"
  have d: "xs \<noteq> [] \<Longrightarrow> \<not> is_space (hd xs) \<Longrightarrow> dropWhile is_space xs = xs" for xs by (cases xs) auto
  from m d [of m] d [of "rev m"] show ?thesis by (simp add: strip_def hd_rev)
qed

lemma append_clean_line:
  "clean_line m \<Longrightarrow> append_to_log m False r = r\<lparr>run_log := run_log r @ m @ nl\<rparr>"
proof -
  assume m: "clean_line m"
  then have "filter (\<lambda>x. x \<noteq> CHR 0x0D) (filter (\<lambda>x. x \<noteq> CHR 0x0A) m) = m"
    by (simp add: clean_line_def) (rule filter_True, auto)
  with m show ?thesis by (simp add: append_to_log_def strip_clean clean_line_def remove_char_def Let_def del: filter_filter)
qed

lemma join_nl: "ms \<noteq> [] \<Longrightarrow> join_with nl ms @ nl = log_text ms"
  by (induction ms rule: induct_list012) (simp_all add: log_text_def)

lemma append_final_log:
  assumes "ms \<noteq> []" "list_all clean_line ms"
  shows "append_to_log (join_with nl ms) True r = r\<lparr>run_log := run_log r @ log_text ms\<rparr>"
proof -
  have hd: "join_with nl ms \<noteq> [] \<and> hd (join_with nl ms) = hd (hd ms)" if "ms \<noteq> []" "list_all clean_line ms" for ms
    using that by (induction ms rule: induct_list012) (auto simp: clean_line_def)
  have last: "last (join_with nl ms) = last (last ms)" if "ms \<noteq> []" "list_all clean_line ms" for ms
    using that
  proof (induction ms rule: induct_list012)
    case (3 a b ms)
    with hd [of "b # ms"] show ?case by simp
  qed auto
  have "clean_line (hd ms)" "clean_line (last ms)" using assms by (simp_all add: list_all_iff)
  then have "strip (join_with nl ms) = join_with nl ms"
    using hd [OF assms] last [OF assms] by (intro strip_clean) (auto simp: clean_line_def)
  then show ?thesis using join_nl [OF assms(1)] by (simp add: append_to_log_def)
qed

text \<open>What the messages of a pipeline have to look like: one line, without space around it.\<close>

definition clean_text :: "string \<Rightarrow> bool" where
  "clean_text m \<longleftrightarrow> CHR 0x0A \<notin> set m \<and> CHR 0x0D \<notin> set m"

definition clean_message :: "string \<Rightarrow> bool" where
  "clean_message m \<longleftrightarrow> m \<noteq> [] \<and> \<not> is_space (last m) \<and> clean_text m"

definition clean_action :: "'w action \<Rightarrow> bool" where
  "clean_action act \<longleftrightarrow> (\<forall>w. list_all clean_message (fst (act w)))"

definition clean_pipeline :: "clock \<Rightarrow> (nat \<Rightarrow> string) \<Rightarrow> 'w pipeline \<Rightarrow> bool" where
  "clean_pipeline K dec P \<longleftrightarrow> (\<forall>n. clean_line (stamp K n) \<and> clean_message (took K n)) \<and>
     clean_text (pipeline_name P) \<and> (\<forall>s\<in>set (steps P). clean_text (fst s) \<and> clean_action (snd s)) \<and>
     clean_action (on_failure P)"

text \<open>The row of the run during the execution: the messages so far when they are streamed, unchanged otherwise.\<close>

definition log_state :: "run_row \<Rightarrow> 'w exec \<Rightarrow> bool" where
  "log_state r x \<longleftrightarrow> list_all clean_line (execution_log x) \<and>
     ex_run x = Some (if ex_live x then r\<lparr>run_log := run_log r @ log_text (execution_log x)\<rparr> else r)"

lemma log_state_log:
  assumes "clean_line (stamp K (length (execution_log x)))" "clean_message m" "log_state r x"
  shows "log_state r (log_message K m x) \<and> execution_log (log_message K m x) \<noteq> []"
proof -
  let ?m = "stamp K (length (execution_log x)) @ '' '' @ m"
  have "clean_line ?m"
    using assms(1,2) by (auto simp: clean_line_def clean_message_def clean_text_def)
  with assms(3) show ?thesis
    by (auto simp: log_state_def log_message_def Let_def append_clean_line log_text_def)
qed

lemma log_state_fold:
  assumes "\<And>n. clean_line (stamp K n)"
  shows "list_all clean_message ms \<Longrightarrow> log_state r x \<Longrightarrow> log_state r (fold (log_message K) ms x)"
  by (induction ms arbitrary: x) (auto simp: log_state_log [OF assms])

lemma log_state_step [simp]: "log_state r (set_current_step s x) = log_state r x"
  by (simp add: log_state_def)

lemma log_state_perform:
  assumes "\<And>n. clean_line (stamp K n)" "clean_action act" "log_state r x" "perform K act x = (e, x')"
  shows "log_state r x'"
proof -
  obtain ms f w where a: "act (ex_world x) = (ms, f, w)" by (metis prod_cases3)
  have "list_all clean_message ms" using assms(2) a by (metis clean_action_def fst_conv)
  moreover have "log_state r (x\<lparr>ex_world := w\<rparr>)" using assms(3) by (simp add: log_state_def)
  ultimately show ?thesis using assms(4) a log_state_fold [OF assms(1)] by (auto simp: perform_def)
qed

lemma clean_step_messages:
  "clean_text n \<Longrightarrow> clean_message (''Step ['' @ n @ ''] skipped'')"
  "clean_text n \<Longrightarrow> clean_message (''Step ['' @ n @ ''] starting'')"
  "clean_text n \<Longrightarrow> clean_message t \<Longrightarrow> clean_message ((''Step ['' @ n @ ''] completed in '') @ t)"
  "clean_text n \<Longrightarrow> clean_message (''Pipeline ['' @ n @ ''] starting'')"
  "clean_message t \<Longrightarrow> clean_message (''Pipeline completed in '' @ t)"
  "clean_message t \<Longrightarrow> clean_message (''Completed [on_failure] tasks in '' @ t)"
  "clean_message ''Pipeline failed''" "clean_message ''Running [on_failure] tasks''"
  by (simp_all add: clean_message_def clean_text_def is_space_def of_char_def)

definition final_state :: "run_row \<Rightarrow> 'w exec \<Rightarrow> bool" where
  "final_state r x \<longleftrightarrow> ex_run x = Some (r\<lparr>run_log := run_log r @ log_text (execution_log x)\<rparr>)"

lemma final_log_state:
  assumes "log_state r x" "execution_log x \<noteq> []"
  shows "final_state r (update_final_run_log x)"
  using assms by (simp add: log_state_def final_state_def update_final_run_log_def append_final_log)

lemma execute_steps_log:
  assumes K: "\<And>n. clean_line (stamp K n)" "\<And>n. clean_message (took K n)" and c: "clean_action cleanup"
  shows "execute_steps K dec selected cleanup n_steps i ss x = (res, x') \<Longrightarrow> log_state r x \<Longrightarrow>
    (\<And>s. s \<in> set ss \<Longrightarrow> clean_text (fst s) \<and> clean_action (snd s)) \<Longrightarrow>
    (case res of Completed \<Rightarrow> log_state r x' | Returned _ _ \<Rightarrow> final_state r x' | Raised _ \<Rightarrow> log_state r x')"
proof (induction ss arbitrary: i x)
  case (Cons s ss)
  obtain name act where s: "s = (name, act)" by fastforce
  from Cons.prems(3) [of s] s have n: "clean_text name" "clean_action act" by auto
  note log = log_state_log [OF K(1)]
  show ?case
  proof (cases "selected \<noteq> [] \<and> name \<notin> set selected")
    case True
    let ?y = "log_message K (''Step ['' @ name @ ''] skipped'') x"
    have 1: "execute_steps K dec selected cleanup n_steps (Suc i) ss ?y = (res, x')"
      using True Cons.prems(1) by (simp add: s)
    have 2: "log_state r ?y" using log [OF clean_step_messages(1) [OF n(1)] Cons.prems(2)] by blast
    show ?thesis by (rule Cons.IH [OF 1 2]) (use Cons.prems(3) in auto)
  next
    case False
    let ?x = "log_message K (''Step ['' @ name @ ''] starting'') (set_current_step (dec i @ ''/'' @ dec n_steps @ '' '' @ name) x)"
    obtain e x1 where p: "perform K act ?x = (e, x1)" by fastforce
    have "log_state r (set_current_step (dec i @ ''/'' @ dec n_steps @ '' '' @ name) x)" using Cons.prems(2) by simp
    then have "log_state r ?x" using log [OF clean_step_messages(2) [OF n(1)]] by blast
    from log_state_perform [OF K(1) n(2) this p] have l1: "log_state r x1" .
    show ?thesis
    proof (cases e)
      case None
      let ?y = "log_took K (''Step ['' @ name @ ''] completed in '') x1"
      have 1: "execute_steps K dec selected cleanup n_steps (Suc i) ss ?y = (res, x')"
        using None False Cons.prems(1) p by (simp only: s execute_steps.simps if_False prod.case option.case)
      have 2: "log_state r ?y"
        unfolding log_took_def using log [OF clean_step_messages(3) [OF n(1) K(2)] l1] by blast
      show ?thesis by (rule Cons.IH [OF 1 2]) (use Cons.prems(3) in auto)
    next
      case (Some e1)
      let ?y = "log_message K ''Running [on_failure] tasks'' (log_message K ''Pipeline failed'' x1)"
      obtain f x2 where q: "perform K cleanup ?y = (f, x2)" by fastforce
      have "log_state r ?y" using log [OF clean_step_messages(8)] log [OF clean_step_messages(7) l1] by blast
      from log_state_perform [OF K(1) c this q] have l2: "log_state r x2" .
      have "final_state r (update_final_run_log (log_took K ''Completed [on_failure] tasks in '' x2))"
        unfolding log_took_def using log [OF clean_step_messages(6) [OF K(2)] l2] by (intro final_log_state) blast+
      with Cons.prems(1) s False p q Some l2 show ?thesis by (auto split: option.splits)
    qed
  qed
qed auto

text \<open>
  streaming the log of a run while it executes and writing it at the end give the same log: after
  an execution that returns, the row has every message, in order and one per line, whichever way it was
  written, and nothing else of it has changed.
\<close>

theorem live_and_final_log_agree:
  assumes "clean_pipeline K dec P" "ex_run x = Some r" "execution_log x = []"
    and "execute K dec selected P x = (Inr (c, out), x')"
  shows "ex_run x' = Some (r\<lparr>run_log := run_log r @ log_text (execution_log x')\<rparr>)"
proof -
  have K: "\<And>n. clean_line (stamp K n)" "\<And>n. clean_message (took K n)" and a: "clean_action (on_failure P)"
    and n: "clean_text (pipeline_name P)" and ss: "\<And>s. s \<in> set (steps P) \<Longrightarrow> clean_text (fst s) \<and> clean_action (snd s)"
    using assms(1) by (auto simp: clean_pipeline_def)
  let ?x = "log_message K (''Pipeline ['' @ pipeline_name P @ ''] starting'') x"
  obtain res y where e: "execute_steps K dec selected (on_failure P) (length (steps P)) 1 (steps P) ?x = (res, y)"
    by fastforce
  have "log_state r x" using assms(2,3) by (simp add: log_state_def log_text_def)
  then have "log_state r ?x" using log_state_log [OF K(1)] clean_step_messages(4) [OF n] by blast
  from execute_steps_log [OF K a e this ss]
  have y: "case res of Completed \<Rightarrow> log_state r y | Returned _ _ \<Rightarrow> final_state r y | Raised _ \<Rightarrow> log_state r y" .
  have ex: "execute K dec selected P x = (case (res, y) of
        (Completed, x) \<Rightarrow>
          (Inr (0, []), update_final_run_log (log_took K ''Pipeline completed in '' (set_current_step [] x)))
      | (Returned c out, x) \<Rightarrow> (Inr (c, out), x)
      | (Raised e, x) \<Rightarrow> (Inl e, x))"
    by (simp only: execute_def e)
  have "final_state r x'"
  proof (cases res)
    case Completed
    with y have "log_state r (set_current_step [] y)" by simp
    then have "final_state r (update_final_run_log (log_took K ''Pipeline completed in '' (set_current_step [] y)))"
      unfolding log_took_def using log_state_log [OF K(1)] clean_step_messages(5) K(2) by (intro final_log_state) blast+
    with ex Completed assms(4) show ?thesis by simp
  qed (use ex y assms(4) in auto)
  then show ?thesis by (simp add: final_state_def)
qed


section \<open>Executing a queued run\<close>

datatype 'w run_class =
    Pipeline "'w pipeline"
  | LegacyImporter "'w \<Rightarrow> py_exception option \<times> string \<times> 'w"
  | LegacyImprover "'w \<Rightarrow> py_exception option \<times> string \<times> 'w"
  | NotRunnable

record 'w site =
  site_clock :: clock
  site_dec :: "nat \<Rightarrow> string"
  site_repr :: "string \<Rightarrow> string"
  site_registry :: "string \<Rightarrow> 'w run_class option"
  git_tag :: "string option"
  short_commit :: "string option"

text \<open>
  \<open>legacy_runner\<close>: \<open>run\<close> is the importer or improver and \<open>done\<close> the message of a success. The output of
  a failure is a tuple of one string; the text column stores its Python form.
\<close>

definition legacy_runner ::
    "'w site \<Rightarrow> string \<Rightarrow> string \<Rightarrow> ('w \<Rightarrow> py_exception option \<times> string \<times> 'w) \<Rightarrow> run_row \<Rightarrow> 'w \<Rightarrow>
       (int \<times> string) \<times> run_row \<times> 'w" where
  "legacy_runner S pid success run r w =
     (case run w of (e, stream, w') \<Rightarrow>
        (let (res, r) = (case e of
               None \<Rightarrow> ((0, []), append_to_log (success @ pid) False r)
             | Some x \<Rightarrow> ((1, ''('' @ site_repr S (''Failed to run '' @ pid @ '': '' @ exc_repr x @ '' '' @ nl @ '' '' @
                              exc_format x) @ '',)''), r))
         in (res, append_to_log stream True r, w')))"

definition run_class_execute ::
    "'w site \<Rightarrow> string \<Rightarrow> bool \<Rightarrow> 'w run_class \<Rightarrow> run_row \<Rightarrow> 'w \<Rightarrow> (py_exception + int \<times> string) \<times> run_row \<times> 'w" where
  "run_class_execute S pid live cls r w =
     (case cls of
        Pipeline P \<Rightarrow>
          (case execute (site_clock S) (site_dec S) [] P
                  \<lparr>ex_world = w, ex_run = Some r, ex_live = live, execution_log = [], current_step = []\<rparr> of
             (res, x) \<Rightarrow> (res, the (ex_run x), ex_world x))
      | LegacyImporter run \<Rightarrow> map_prod Inr id (legacy_runner S pid ''Successfully imported data using '' run r w)
      | LegacyImprover run \<Rightarrow> map_prod Inr id (legacy_runner S pid ''Successfully improved data using '' run r w)
      | NotRunnable \<Rightarrow> (Inr (1, pid @ '' is not a valid importer/improver.''), r, w))"

text \<open>
  \<open>execute_pipeline\<close>, started at \<open>t0\<close> and ended at \<open>t1\<close>. A pipeline that runs once is deactivated after.
\<close>

definition execute_pipeline ::
    "'w site \<Rightarrow> 'c cron \<Rightarrow> int \<Rightarrow> int \<Rightarrow> nat \<Rightarrow> ('q, 'c) world \<Rightarrow> 'w \<Rightarrow> py_error option \<times> ('q, 'c) world \<times> 'w" where
  "execute_pipeline S C t0 t1 uid w a =
     (case filter (\<lambda>r. run_id r = uid) (w_runs w) of
        [] \<Rightarrow> (Some DoesNotExist, w, a)
      | r # _ \<Rightarrow>
          (case set_vulnerablecode_version_and_commit (git_tag S) (short_commit S) (set_run_started t0 r) of
             Inl e \<Rightarrow> (Some e, w\<lparr>w_runs := save_run (set_run_started t0 r) (w_runs w)\<rparr>, a)
           | Inr r \<Rightarrow>
               (case filter (\<lambda>s. sched_pk s = run_pipeline r) (w_schedules w) of
                  [] \<Rightarrow> (Some DoesNotExist, w\<lparr>w_runs := save_run r (w_runs w)\<rparr>, a)
                | s # _ \<Rightarrow>
                    (case site_registry S (pipeline_id s) of
                       None \<Rightarrow> (Some KeyError, w\<lparr>w_runs := save_run r (w_runs w)\<rparr>, a)
                     | Some cls \<Rightarrow>
                         (case run_class_execute S (pipeline_id s) (live_logging s) cls r a of
                            (Inl _, r, a) \<Rightarrow> (Some PlainException, w\<lparr>w_runs := save_run r (w_runs w)\<rparr>, a)
                          | (Inr (c, out), r, a) \<Rightarrow>
                              (let w = w\<lparr>w_runs := save_run (set_run_ended t1 c out None r) (w_runs w)\<rparr>
                               in if is_run_once s
                                  then (case save_schedule C t1 (s\<lparr>is_active := Some False\<rparr>) w of
                                          (e, w) \<Rightarrow> (e, w, a))
                                  else (None, w, a)))))))"

text \<open>
  The job that \<open>enqueue_run\<close> gives to the queue: \<open>execute_pipeline\<close>, with \<open>set_run_failure\<close> as the callback
  that \<open>rq\<close> calls, at \<open>t2\<close>, when the job raises; \<open>message\<close> is the text of the failure.
\<close>

definition run_job ::
    "'w site \<Rightarrow> 'c cron \<Rightarrow> int \<Rightarrow> int \<Rightarrow> int \<Rightarrow> (py_error \<Rightarrow> string) \<Rightarrow> nat \<Rightarrow> ('q, 'c) world \<Rightarrow> 'w \<Rightarrow>
       py_error option \<times> ('q, 'c) world \<times> 'w" where
  "run_job S C t0 t1 t2 message uid w a =
     (case execute_pipeline S C t0 t1 uid w a of
        (None, w, a) \<Rightarrow> (None, w, a)
      | (Some e, w, a) \<Rightarrow> (Some e, w\<lparr>w_runs := set_run_failure t2 uid (message e) (w_runs w)\<rparr>, a))"

definition row_but_log :: "run_row \<Rightarrow> 'w exec \<Rightarrow> bool" where
  "row_but_log r x \<longleftrightarrow> (\<exists>l. ex_run x = Some (r\<lparr>run_log := l\<rparr>))"

lemma row_but_log_simps [simp]:
  "row_but_log r x \<Longrightarrow> row_but_log r (log_message K m x)"
  "row_but_log r x \<Longrightarrow> row_but_log r (log_took K m x)"
  "row_but_log r x \<Longrightarrow> row_but_log r (set_current_step s x)"
  "row_but_log r x \<Longrightarrow> row_but_log r (update_final_run_log x)"
  "row_but_log r x \<Longrightarrow> row_but_log r (x\<lparr>ex_world := w\<rparr>)"
  by (auto simp: row_but_log_def log_took_def update_final_run_log_def log_message_def append_to_log_def Let_def)

lemma row_but_log_fold: "row_but_log r x \<Longrightarrow> row_but_log r (fold (log_message K) ms x)"
  by (induction ms arbitrary: x) auto

lemma row_but_log_perform: "perform K act x = (e, x') \<Longrightarrow> row_but_log r x \<Longrightarrow> row_but_log r x'"
  by (auto simp: perform_def row_but_log_fold split: prod.splits)

lemma execute_steps_row:
  "execute_steps K dec selected cleanup n_steps i ss x = (res, x') \<Longrightarrow> row_but_log r x \<Longrightarrow> row_but_log r x'"
proof (induction K dec selected cleanup n_steps i ss x arbitrary: res x' rule: execute_steps.induct)
  case (2 K dec selected cleanup n_steps i name act rest x)
  show ?case
  proof (cases "selected \<noteq> [] \<and> name \<notin> set selected")
    case True
    with "2.IH"(1) [OF True] "2.prems" show ?thesis by simp
  next
    case False
    let ?x = "log_message K (''Step ['' @ name @ ''] starting'') (set_current_step (dec i @ ''/'' @ dec n_steps @ '' '' @ name) x)"
    obtain e x1 where p: "perform K act ?x = (e, x1)" by fastforce
    from row_but_log_perform [OF p] "2.prems"(2) have x1: "row_but_log r x1" by simp
    show ?thesis
    proof (cases e)
      case None
      with "2.IH"(2) [OF False p [symmetric, unfolded None]] "2.prems" False p x1 show ?thesis by simp
    next
      case (Some e1)
      let ?y = "log_message K ''Running [on_failure] tasks'' (log_message K ''Pipeline failed'' x1)"
      obtain f x2 where q: "perform K cleanup ?y = (f, x2)" by fastforce
      from row_but_log_perform [OF q] x1 have x2: "row_but_log r x2" by simp
      with "2.prems"(1) False p q Some show ?thesis by (auto split: option.splits)
    qed
  qed
qed simp

lemma execute_row:
  assumes "execute K dec selected P x = (res, x')" "row_but_log r x"
  shows "row_but_log r x'"
proof -
  let ?x = "log_message K (''Pipeline ['' @ pipeline_name P @ ''] starting'') x"
  obtain o' y where e: "execute_steps K dec selected (on_failure P) (length (steps P)) 1 (steps P) ?x = (o', y)"
    by fastforce
  have "row_but_log r ?x" using assms(2) by (rule row_but_log_simps(1))
  with execute_steps_row [OF e] have y: "row_but_log r y" .
  then have "row_but_log r (update_final_run_log (log_took K ''Pipeline completed in '' (set_current_step [] y)))"
    by (intro row_but_log_simps)
  with y assms(1) show ?thesis by (cases o') (simp_all only: execute_def e prod.case outcome.case, auto)
qed

text \<open>Whether the selected work of a class succeeds.\<close>

definition class_succeeds :: "'w run_class \<Rightarrow> 'w \<Rightarrow> bool" where
  "class_succeeds cls a = (case cls of
     Pipeline P \<Rightarrow> fst (run_plain (map snd (steps P)) a) = None
   | LegacyImporter run \<Rightarrow> fst (run a) = None
   | LegacyImprover run \<Rightarrow> fst (run a) = None
   | NotRunnable \<Rightarrow> False)"

text \<open>Whether a class lets an exception out: a step of its pipeline fails, and then its \<open>on_failure\<close> does.\<close>

definition class_raises :: "'w run_class \<Rightarrow> 'w \<Rightarrow> bool" where
  "class_raises cls a = (case cls of
     Pipeline P \<Rightarrow> (case run_plain (map snd (steps P)) a of
         (None, _) \<Rightarrow> False | (Some _, w) \<Rightarrow> fst (snd (on_failure P w)) \<noteq> None)
   | _ \<Rightarrow> False)"

lemma legacy_runner_result:
  "legacy_runner S pid msg run r a = ((c, out), r', a') \<Longrightarrow>
   (c = 0 \<longleftrightarrow> fst (run a) = None) \<and> (c = 0 \<or> c = 1) \<and> (\<exists>l. r' = r\<lparr>run_log := l\<rparr>)"
  by (auto simp: legacy_runner_def append_to_log_def Let_def split: prod.splits option.splits)

lemma run_class_execute_result:
  "\<exists>res l a'. run_class_execute S pid live cls r a = (res, r\<lparr>run_log := l\<rparr>, a') \<and>
     (if class_raises cls a then \<exists>e. res = Inl e else \<exists>out. res = Inr (if class_succeeds cls a then 0 else 1, out))"
proof (cases cls)
  case (Pipeline P)
  let ?x = "\<lparr>ex_world = a, ex_run = Some r, ex_live = live, execution_log = [], current_step = []\<rparr> :: 'a exec"
  obtain res x where e: "execute (site_clock S) (site_dec S) [] P ?x = (res, x)" by fastforce
  have "r = r\<lparr>run_log := run_log r\<rparr>" by simp
  then have "row_but_log r ?x" unfolding row_but_log_def by (metis exec.select_convs(2))
  from execute_row [OF e this] obtain l where l: "ex_run x = Some (r\<lparr>run_log := l\<rparr>)"
    by (auto simp: row_but_log_def)
  have "selected_steps [] (steps P) = map snd (steps P)" by (simp add: selected_steps_def)
  note spec = execute_runs_steps [where selected = "[]" and P = P and x = ?x and K = "site_clock S" and dec = "site_dec S", unfolded this]
  obtain f w where rp: "run_plain (map snd (steps P)) a = (f, w)" by fastforce
  obtain ms g w' where fl: "on_failure P w = (ms, g, w')" by (metis prod_cases3)
  have "if class_raises cls a then \<exists>e. res = Inl e else \<exists>out. res = Inr (if class_succeeds cls a then 0 else 1, out)"
    using spec e by (cases f; cases g) (auto simp: rp fl class_succeeds_def class_raises_def Pipeline)
  with e l Pipeline show ?thesis by (auto simp: run_class_execute_def)
next
  case (LegacyImporter run)
  then show ?thesis
    using legacy_runner_result [of S pid "''Successfully imported data using ''" run r a]
    by (cases "legacy_runner S pid ''Successfully imported data using '' run r a")
       (fastforce simp: run_class_execute_def class_succeeds_def class_raises_def)
next
  case (LegacyImprover run)
  then show ?thesis
    using legacy_runner_result [of S pid "''Successfully improved data using ''" run r a]
    by (cases "legacy_runner S pid ''Successfully improved data using '' run r a")
       (fastforce simp: run_class_execute_def class_succeeds_def class_raises_def)
next
  case NotRunnable
  moreover have "\<exists>l. r = r\<lparr>run_log := l\<rparr>" by (rule exI [of _ "run_log r"]) simp
  ultimately show ?thesis by (simp add: run_class_execute_def class_succeeds_def class_raises_def)
qed

lemma filter_key_Cons:
  "distinct (map k xs) \<Longrightarrow> x \<in> set xs \<Longrightarrow> \<exists>ys. filter (\<lambda>y. k y = k x) xs = x # ys"
proof (induction xs)
  case (Cons a xs)
  show ?case
  proof (cases "x = a")
    case False
    with Cons.prems have "x \<in> set xs" "k a \<noteq> k x" by (auto simp: image_iff)
    with Cons show ?thesis by simp
  qed simp
qed simp

lemma save_deactivated:
  assumes "distinct (map sched_pk (w_schedules w))" "s \<in> set (w_schedules w)"
    and "schedule_clean (filter (\<lambda>x. sched_pk x \<noteq> sched_pk s) (w_schedules w)) s"
  shows "\<exists>w'. save_schedule C t (s\<lparr>is_active := Some False\<rparr>) w = (None, w') \<and> w_runs w' = w_runs w \<and>
     \<not> list_ex (\<lambda>x. sched_pk x = sched_pk s \<and> active x) (w_schedules w')"
proof -
  let ?s = "s\<lparr>is_active := Some False\<rparr>"
  obtain ts where f: "filter (\<lambda>x. sched_pk x = sched_pk s) (w_schedules w) = s # ts"
    using filter_key_Cons [OF assms(1,2)] by blast
  let ?job = "if is_active s \<noteq> Some False then create_new_job C t False ?s (w_runs w) (w_cron w)
      else (schedule_work_id s, w_cron w)"
  obtain work c where j: "?job = (work, c)" by fastforce
  then have "work = None \<or> work = schedule_work_id s"
    by (auto simp: create_new_job_def Let_def split: if_splits)
  then have clean: "schedule_clean (filter (\<lambda>x. sched_pk x \<noteq> sched_pk s) (w_schedules w)) (?s\<lparr>schedule_work_id := work\<rparr>)"
    using assms(3) by (auto simp: schedule_clean_def list_ex_iff)
  have "save_schedule C t ?s w = (case ?job of (work, c) \<Rightarrow>
      (let s = ?s\<lparr>schedule_work_id := work\<rparr>; w = w\<lparr>w_cron := c\<rparr>
       in if \<not> schedule_clean (filter (\<lambda>x. sched_pk x \<noteq> sched_pk s) (w_schedules w)) s
          then (Some ValidationError, w)
          else (None, w\<lparr>w_schedules := map (\<lambda>x. if sched_pk x = sched_pk s then s else x) (w_schedules w)\<rparr>)))"
    by (simp add: save_schedule_def f)
  also have "\<dots> = (None, w\<lparr>w_cron := c, w_schedules :=
      map (\<lambda>x. if sched_pk x = sched_pk s then ?s\<lparr>schedule_work_id := work\<rparr> else x) (w_schedules w)\<rparr>)"
    unfolding j using clean by simp
  finally show ?thesis by (auto simp: list_ex_iff)
qed

lemma save_schedule_inactive:
  assumes "save_schedule C t (s\<lparr>is_active := Some False\<rparr>) w = (None, w')"
  shows "\<not> list_ex (\<lambda>x. sched_pk x = sched_pk s \<and> active x) (w_schedules w')"
  using assms by (auto simp: save_schedule_def Let_def list_ex_iff split: list.splits prod.splits if_splits)

text \<open>What \<open>execute_pipeline\<close> leaves, whatever it raises: the started row, with its end unless it raised before.\<close>

lemma execute_pipeline_outcome:
  assumes "distinct (map run_id (w_runs w))" "r \<in> set (w_runs w)"
    and "distinct (map sched_pk (w_schedules w))" "s \<in> set (w_schedules w)" "sched_pk s = run_pipeline r"
    and r1_def: "r1 = (set_run_started ts r)\<lparr>vulnerablecode_version := git_tag S, vulnerablecode_commit := short_commit S\<rparr>"
  shows "\<exists>e w' a' r' l. execute_pipeline S C ts te (run_id r) w a = (e, w', a') \<and> w_runs w' = save_run r' (w_runs w) \<and>
     (case site_registry S (pipeline_id s) of
        None \<Rightarrow> e = Some KeyError \<and> r' = r1
      | Some cls \<Rightarrow>
          if class_raises cls a then e = Some PlainException \<and> r' = r1\<lparr>run_log := l\<rparr>
          else (\<exists>out. r' = set_run_ended te (if class_succeeds cls a then 0 else 1) out None (r1\<lparr>run_log := l\<rparr>)) \<and>
            (\<not> is_run_once s \<or> schedule_clean (filter (\<lambda>x. sched_pk x \<noteq> sched_pk s) (w_schedules w)) s \<longrightarrow> e = None) \<and>
            (e = None \<and> is_run_once s \<longrightarrow> \<not> list_ex (\<lambda>x. sched_pk x = sched_pk s \<and> active x) (w_schedules w')))"
proof -
  obtain rs where f1: "filter (\<lambda>x. run_id x = run_id r) (w_runs w) = r # rs"
    using filter_key_Cons [OF assms(1,2)] by blast
  obtain ss where f2: "filter (\<lambda>x. sched_pk x = run_pipeline r) (w_schedules w) = s # ss"
    using filter_key_Cons [OF assms(3,4)] assms(5) by auto
  have v: "set_vulnerablecode_version_and_commit (git_tag S) (short_commit S) (set_run_started ts r) = Inr r1"
    by (simp add: r1_def set_vulnerablecode_version_and_commit_def set_run_started_def reset_run_def)
  have rp: "run_pipeline r1 = run_pipeline r" by (simp add: r1_def set_run_started_def reset_run_def)
  show ?thesis
  proof (cases "site_registry S (pipeline_id s)")
    case None
    then show ?thesis by (simp add: execute_pipeline_def f1 v rp f2)
  next
    case (Some cls)
    obtain res l a' where res: "run_class_execute S (pipeline_id s) (live_logging s) cls r1 a = (res, r1\<lparr>run_log := l\<rparr>, a')"
      and out: "if class_raises cls a then \<exists>e. res = Inl e else \<exists>out. res = Inr (if class_succeeds cls a then 0 else 1, out)"
      using run_class_execute_result [of S "pipeline_id s" "live_logging s" cls r1 a] by blast
    show ?thesis
    proof (cases "class_raises cls a")
      case True
      with out obtain e where "res = Inl e" by auto
      then show ?thesis using Some True
        by (simp add: execute_pipeline_def f1 v rp f2 res) (intro exI [of _ "r1\<lparr>run_log := l\<rparr>"] conjI exI [of _ l] refl)
    next
      case False
      with out obtain msg where "res = Inr (if class_succeeds cls a then 0 else 1, msg)" by auto
      moreover obtain r' where r': "r' = set_run_ended te (if class_succeeds cls a then 0 else 1) msg None (r1\<lparr>run_log := l\<rparr>)"
        by blast
      ultimately have base: "execute_pipeline S C ts te (run_id r) w a =
          (if is_run_once s then (case save_schedule C te (s\<lparr>is_active := Some False\<rparr>) (w\<lparr>w_runs := save_run r' (w_runs w)\<rparr>)
              of (e, w) \<Rightarrow> (e, w, a')) else (None, w\<lparr>w_runs := save_run r' (w_runs w)\<rparr>, a'))"
        by (simp only: execute_pipeline_def f1 list.case v sum.case rp f2 Some option.case res prod.case Let_def)
      let ?w = "w\<lparr>w_runs := save_run r' (w_runs w)\<rparr>"
      obtain e w' where sv: "save_schedule C te (s\<lparr>is_active := Some False\<rparr>) ?w = (e, w')" by fastforce
      have runs: "w_runs w' = save_run r' (w_runs w)" using save_schedule_runs [OF sv] by simp
      have off: "\<not> list_ex (\<lambda>x. sched_pk x = sched_pk s \<and> active x) (w_schedules w')" if "e = None"
        using save_schedule_inactive [OF sv [unfolded that]] by simp
      have clean: "e = None" if "schedule_clean (filter (\<lambda>x. sched_pk x \<noteq> sched_pk s) (w_schedules w)) s"
        using save_deactivated [of ?w s C te] assms(3,4) that sv by auto
      show ?thesis
        using base sv runs off clean Some False
        by (intro exI [of _ "if is_run_once s then e else None"] exI [of _ "if is_run_once s then w' else ?w"] exI [of _ a']
            exI [of _ r'] exI [of _ l]) (auto simp: r')
    qed
  qed
qed

lemma set_run_failure_saved:
  "run_id r = i \<Longrightarrow> set_run_failure t i m (save_run r runs) = save_run (set_run_ended t 1 m None r) runs"
  by (auto simp: set_run_failure_def save_run_def set_run_ended_def)

text \<open>
  C18: the job of a queued run always ends the run. Its row gets its start date, the version, an end date and an
  exit code, and from then on shows \<open>SUCCESS\<close> or \<open>FAILURE\<close>, whatever the queue says of the job. It shows
  \<open>SUCCESS\<close> exactly when the class succeeds and the job raises nothing. The job raises when the pipeline is not
  registered or an exception of \<open>on_failure\<close> escapes (then the callback ends the run), and otherwise only when
  the schedule of a one-time pipeline cannot be saved; without an exception a one-time schedule is inactive.
\<close>

theorem execute_pipeline_ends_run:
  assumes "distinct (map run_id (w_runs w))" "r \<in> set (w_runs w)"
    and "distinct (map sched_pk (w_schedules w))" "s \<in> set (w_schedules w)" "sched_pk s = run_pipeline r"
  shows "\<exists>e w' a' r'. run_job S C ts te tf message (run_id r) w a = (e, w', a') \<and>
     w_runs w' = save_run r' (w_runs w) \<and> run_id r' = run_id r \<and>
     run_start_date r' = Some ts \<and> run_end_date r' = Some (if e = None then te else tf) \<and>
     vulnerablecode_version r' = git_tag S \<and> vulnerablecode_commit r' = short_commit S \<and>
     (case site_registry S (pipeline_id s) of
        None \<Rightarrow> e = Some KeyError \<and> run_status job now r' = (FAILURE, r')
      | Some cls \<Rightarrow>
          run_status job now r' = (if e = None \<and> class_succeeds cls a then SUCCESS else FAILURE, r') \<and>
          (class_raises cls a \<longrightarrow> e = Some PlainException) \<and>
          (\<not> class_raises cls a \<and>
             (\<not> is_run_once s \<or> schedule_clean (filter (\<lambda>x. sched_pk x \<noteq> sched_pk s) (w_schedules w)) s) \<longrightarrow> e = None)) \<and>
     (e = None \<and> is_run_once s \<longrightarrow> \<not> list_ex (\<lambda>x. sched_pk x = sched_pk s \<and> active x) (w_schedules w'))"
proof -
  let ?r1 = "(set_run_started ts r)\<lparr>vulnerablecode_version := git_tag S, vulnerablecode_commit := short_commit S\<rparr>"
  obtain e w' a' r' l where run: "execute_pipeline S C ts te (run_id r) w a = (e, w', a')" "w_runs w' = save_run r' (w_runs w)"
    and res: "case site_registry S (pipeline_id s) of
        None \<Rightarrow> e = Some KeyError \<and> r' = ?r1
      | Some cls \<Rightarrow>
          if class_raises cls a then e = Some PlainException \<and> r' = ?r1\<lparr>run_log := l\<rparr>
          else (\<exists>out. r' = set_run_ended te (if class_succeeds cls a then 0 else 1) out None (?r1\<lparr>run_log := l\<rparr>)) \<and>
            (\<not> is_run_once s \<or> schedule_clean (filter (\<lambda>x. sched_pk x \<noteq> sched_pk s) (w_schedules w)) s \<longrightarrow> e = None) \<and>
            (e = None \<and> is_run_once s \<longrightarrow> \<not> list_ex (\<lambda>x. sched_pk x = sched_pk s \<and> active x) (w_schedules w'))"
    using execute_pipeline_outcome [where C = C and S = S and ts = ts and te = te and a = a, OF assms refl] by blast
  have row: "run_id r' = run_id r" "run_start_date r' = Some ts" "vulnerablecode_version r' = git_tag S"
    "vulnerablecode_commit r' = short_commit S"
    using res by (auto simp: set_run_ended_def set_run_started_def reset_run_def split: option.splits if_splits)
  have status: "run_status job now (set_run_ended t c out None x) = (if c = 0 then SUCCESS else FAILURE, set_run_ended t c out None x)"
    if "c = 0 \<or> c = 1" for t c out x
    using that by (auto simp: set_run_ended_def run_status_def run_succeeded_def run_staled_def run_stopped_def run_failed_def)
  show ?thesis
  proof (cases e)
    case None
    then have "run_job S C ts te tf message (run_id r) w a = (None, w', a')" using run(1) by (simp add: run_job_def)
    then show ?thesis using run(2) row res None
      by (intro exI [of _ None] exI [of _ w'] exI [of _ a'] exI [of _ r'])
         (auto simp: status split: option.splits if_splits, auto simp: set_run_ended_def)
  next
    case (Some x)
    let ?r = "set_run_ended tf 1 (message x) None r'" and ?w = "w'\<lparr>w_runs := save_run (set_run_ended tf 1 (message x) None r') (w_runs w)\<rparr>"
    have "run_job S C ts te tf message (run_id r) w a = (Some x, ?w, a')"
      using run Some by (simp add: run_job_def set_run_failure_saved row(1))
    moreover have "run_id ?r = run_id r" "run_start_date ?r = Some ts" "run_end_date ?r = Some tf"
      "vulnerablecode_version ?r = git_tag S" "vulnerablecode_commit ?r = short_commit S"
      using row by (simp_all add: set_run_ended_def)
    ultimately show ?thesis using res Some status [of 1 tf "message x" r']
      by (intro exI [of _ "Some x"] exI [of _ ?w] exI [of _ a'] exI [of _ ?r]) (auto split: option.splits if_splits)
  qed
qed


definition demo_clock :: clock where
  "demo_clock = \<lparr>stamp = (\<lambda>_. ''2024''), took = (\<lambda>_. ''1s'')\<rparr>"

definition demo_pipeline :: "nat pipeline" where
  "demo_pipeline = \<lparr>pipeline_name = ''P'',
     steps = [(''collect'', \<lambda>n. ([''got 1''], None, Suc n)),
              (''store'', \<lambda>n. ([], if n < 5 then None else Some \<lparr>exc_text = ''full'', exc_cause = None,
                 exc_trace = [], exc_repr = ''E()'', exc_format = []\<rparr>, n + n))],
     on_failure = (\<lambda>n. ([''clean''], None, 0))\<rparr>"

definition demo_exec :: "nat \<Rightarrow> bool \<Rightarrow> nat exec" where
  "demo_exec n live = \<lparr>ex_world = n, ex_run = Some (new_run 0 1 5), ex_live = live, execution_log = [],
     current_step = []\<rparr>"

lemma demo_pipeline_clean: "clean_pipeline demo_clock (\<lambda>_. ''1'') demo_pipeline"
  by (simp add: clean_pipeline_def demo_clock_def demo_pipeline_def clean_action_def clean_message_def
      clean_text_def clean_line_def is_space_def of_char_def)

lemma live_and_final_log_agree_witness:
  "let (res, x) = execute demo_clock (\<lambda>_. ''1'') [] demo_pipeline (demo_exec 7 True)
   in res = Inr (1, ''full'' @ nl @ nl @ ''Traceback:'' @ nl) \<and>
      ex_run x = Some ((new_run 0 1 5)\<lparr>run_log := log_text (execution_log x)\<rparr>)"
proof -
  let ?e = "execute demo_clock (\<lambda>_. ''1'') [] demo_pipeline (demo_exec 7 True)"
  have res: "fst ?e = Inr (1, ''full'' @ nl @ nl @ ''Traceback:'' @ nl)" by code_simp
  then have "?e = (Inr (1, ''full'' @ nl @ nl @ ''Traceback:'' @ nl), snd ?e)" by (simp add: prod_eq_iff)
  from live_and_final_log_agree [OF demo_pipeline_clean _ _ this, of "new_run 0 1 5"] res show ?thesis
    by (simp add: demo_exec_def new_run_def case_prod_beta)
qed

definition demo_site :: "nat site" where
  "demo_site = \<lparr>site_clock = demo_clock, site_dec = (\<lambda>_. ''1''), site_repr = (\<lambda>s. s),
     site_registry = (\<lambda>i. if i = ''p'' then Some (Pipeline demo_pipeline) else None),
     git_tag = Some ''v1'', short_commit = None\<rparr>"

definition demo_queued :: "((nat \<times> rq_job) list, string list \<times> nat) world" where
  "demo_queued = \<lparr>w_runs = [new_run 0 1 5, new_run 3 1 4], w_schedules = [demo_schedule\<lparr>is_run_once := True\<rparr>],
     w_next = 2, w_queue = [], w_cron = ([], 0)\<rparr>"

text \<open>A pipeline whose clean-up fails, as one that reads what a failed download never set.\<close>

definition demo_unclean :: "nat pipeline" where
  "demo_unclean = demo_pipeline\<lparr>on_failure := (\<lambda>n. ([], Some \<lparr>exc_text = ''unset'', exc_cause = None,
     exc_trace = [], exc_repr = ''E()'', exc_format = []\<rparr>, n))\<rparr>"

lemma execute_pipeline_ends_run_witness:
  "\<exists>w' a' r'. run_job (demo_site\<lparr>site_registry := (\<lambda>i. Some (Pipeline demo_unclean))\<rparr>) demo_cron 10 20 21 (\<lambda>_. ''E'') 0 demo_queued 7 =
       (Some PlainException, w', a') \<and>
     w_runs w' = save_run r' (w_runs demo_queued) \<and> run_end_date r' = Some 21 \<and> run_status None 30 r' = (FAILURE, r')"
proof -
  let ?S = "demo_site\<lparr>site_registry := (\<lambda>i. Some (Pipeline demo_unclean))\<rparr>" and ?s = "demo_schedule\<lparr>is_run_once := True\<rparr>"
  have raises: "class_raises (Pipeline demo_unclean) 7" by code_simp
  have id: "run_id (new_run 0 1 5) = 0" by (simp add: new_run_def)
  have "distinct (map run_id (w_runs demo_queued))" "new_run 0 1 5 \<in> set (w_runs demo_queued)"
    "distinct (map sched_pk (w_schedules demo_queued))" "?s \<in> set (w_schedules demo_queued)" "sched_pk ?s = run_pipeline (new_run 0 1 5)"
    by (simp_all add: demo_queued_def new_run_def demo_schedule_def)
  note run = execute_pipeline_ends_run [where S = ?S and C = demo_cron and ts = 10 and te = 20 and tf = 21
      and message = "\<lambda>_. ''E''" and a = 7 and job = None and now = 30, OF this, unfolded id]
  have "site_registry ?S (pipeline_id ?s) = Some (Pipeline demo_unclean)" by simp
  then obtain w' a' r' where "run_job ?S demo_cron 10 20 21 (\<lambda>_. ''E'') 0 demo_queued 7 = (Some PlainException, w', a')"
    "w_runs w' = save_run r' (w_runs demo_queued)" "run_end_date r' = Some 21" "run_status None 30 r' = (FAILURE, r')"
    using run raises by (auto split: if_splits)
  then show ?thesis by blast
qed

section \<open>The load of the queues\<close>

text \<open>
  Python's \<open>round\<close> rounds a half to the even neighbour. The model computes with exact rationals where the
  code has floats.
\<close>

definition round_half_even :: "rat \<Rightarrow> int" where
  "round_half_even q =
     (let f = \<lfloor>q\<rfloor>; d = q - of_int f
      in if d < 1/2 then f else if d > 1/2 then f + 1 else if even f then f else f + 1)"

definition runs_compute_per_day :: "int \<Rightarrow> schedule_row \<Rightarrow> run_row list \<Rightarrow> rat" where
  "runs_compute_per_day now s runs =
     (case latest_successful_run s runs of
        None \<Rightarrow> 0
      | Some r \<Rightarrow> (case fst (runtime None now r) of
          None \<Rightarrow> 0 | Some t \<Rightarrow> of_int t * ((24 * 60) / of_int (run_interval s))))"

definition active_in_queue :: "string \<Rightarrow> schedule_row list \<Rightarrow> schedule_row list" where
  "active_in_queue name ss = filter (\<lambda>s. active s \<and> get_run_priority_display (run_priority s) = name) ss"

definition total_compute :: "int \<Rightarrow> string \<Rightarrow> ('q, 'c) world \<Rightarrow> rat" where
  "total_compute now name w =
     sum_list (map (\<lambda>s. runs_compute_per_day now s (w_runs w)) (active_in_queue name (w_schedules w)))"

record queue_load =
  load_factor :: "rat option"
  additional_worker :: int

text \<open>
  \<open>workers\<close> lists, for every worker, the queues it listens to; the first counts. The result holds the
  queues with work to do, in descending order of their names. A successful run without a start date has
  no run time to multiply (\<open>TypeError\<close>), and a worker of an unknown queue has no priority (\<open>KeyError\<close>).
\<close>

definition worker_per_queue :: "string list list \<Rightarrow> (string \<times> int) list" where
  "worker_per_queue workers =
     (let names = map hd (filter (\<lambda>qs. qs \<noteq> []) workers);
          counted = fold (\<lambda>n d. AList.update n (dict_get d n 0 + 1) d) names []
      in fold (\<lambda>n d. if n \<in> set (dict_keys d) then d else AList.update n 0 d) RQ_QUEUES counted)"

definition queue_load_of :: "int \<Rightarrow> ('q, 'c) world \<Rightarrow> string \<Rightarrow> int \<Rightarrow> queue_load" where
  "queue_load_of now w name workers =
     (let unit_load = total_compute now name w / 86400;
          pipelines = int (length (active_in_queue name (w_schedules w)))
      in \<lparr>load_factor = (if workers > 0 then Some (unit_load / of_int workers) else None),
          additional_worker = min (max (round_half_even unit_load - workers) 0) pipelines\<rparr>)"

definition compute_queue_load_factor ::
    "int \<Rightarrow> string list list \<Rightarrow> ('q, 'c) world \<Rightarrow> (string \<times> queue_load) list result" where
  "compute_queue_load_factor now workers w =
     (let per_queue = worker_per_queue workers
      in if list_ex (\<lambda>s. active s \<and>
              (case latest_successful_run s (w_runs w) of None \<Rightarrow> False | Some r \<Rightarrow> run_start_date r = None))
            (w_schedules w) then Inl TypeError
         else if list_ex (\<lambda>(n, _). n \<notin> set RQ_QUEUES) per_queue then Inl KeyError
         else Inr (sorted_desc fst (map (\<lambda>(n, k). (n, queue_load_of now w n k))
                (filter (\<lambda>(n, _). total_compute now n w \<noteq> 0) per_queue))))"

lemma round_half_even_near: "\<bar>of_int (round_half_even q) - q\<bar> \<le> 1/2"
proof -
  have "of_int \<lfloor>q\<rfloor> \<le> q" "q < of_int \<lfloor>q\<rfloor> + 1" by linarith+
  then show ?thesis by (auto simp: round_half_even_def Let_def abs_le_iff)
qed

text \<open>
  the workers that the load report asks for are never more than the pipelines of the queue, and with
  them, unless it stopped at that number, the load is at most half a worker over capacity.
\<close>

theorem additional_workers_bound:
  assumes "0 \<le> workers"
  shows "let l = queue_load_of now w name workers;
      pipelines = int (length (active_in_queue name (w_schedules w)))
    in 0 \<le> additional_worker l \<and> additional_worker l \<le> pipelines \<and>
       (additional_worker l = pipelines \<or>
        total_compute now name w \<le> 86400 * (of_int (workers + additional_worker l) + 1/2))"
proof -
  let ?u = "total_compute now name w / 86400"
  have near: "x \<le> of_int (round_half_even x) + 1/2" for x :: rat
    using round_half_even_near [of x] by linarith
  have "?u \<le> of_int (round_half_even ?u) + 1/2" by (rule near)
  also have "of_int (round_half_even ?u) \<le> (of_int (workers + max (round_half_even ?u - workers) 0) :: rat)"
    by (simp only: of_int_le_iff)
  finally have "?u \<le> of_int (workers + max (round_half_even ?u - workers) 0) + 1/2" by simp
  then show ?thesis by (auto simp: queue_load_of_def Let_def min_def)
qed

lemma additional_workers_bound_witness:
  "let l = queue_load_of 0 (demo_world :: ((nat \<times> rq_job) list, unit) world) ''default'' 1
   in 0 \<le> additional_worker l \<and> additional_worker l \<le> 1"
  using additional_workers_bound [of 1 0 "demo_world :: ((nat \<times> rq_job) list, unit) world" "''default''"]
  by (simp add: Let_def demo_world_def demo_schedule_def active_in_queue_def get_run_priority_display_def)

text \<open>
  A queue can be overloaded and still be told that no worker is missing: the need is rounded to the
  nearest number of workers, not up.
\<close>

lemma overloaded_without_additional_worker:
  "let r = (new_run 0 1 5)\<lparr>run_start_date := Some 0, run_end_date := Some 5040, run_exitcode := Some 0\<rparr>;
       w = demo_world\<lparr>w_runs := [r]\<rparr>;
       l = queue_load_of 0 w ''default'' 1
   in load_factor l = Some (7/5) \<and> additional_worker l = 0"
  by code_simp

end
