(* ===== verification/ToDo.thy ===== *)
theory ToDo
  imports AdvisoryImport
begin

text \<open>
  What needs curation: the checks of \<open>vulnerabilities/pipelines/v2_improvers/compute_advisory_todo.py\<close>.
  This theory has the data they read (an advisory with its impacts, severities and weaknesses as the
  prefetched rows give them), the to-dos they make, and one function per check; \<open>ToDoRun\<close> has the
  steps of the pipeline and the table of the to-dos.

  A Python \<open>set\<close> is the list of its elements, each once, in the order of their first insertion. The
  database of weaknesses, the CVSS library, the versions of \<open>univers\<close> and the digests are fields of
  \<open>todo_env\<close>.
\<close>

section \<open>Values and their canonical form\<close>

text \<open>
  \<open>issue_detail\<close> and what is hashed: None, numbers, strings, lists (or tuples, or sets) and
  dictionaries.
\<close>

datatype pyval = VNone | VInt int | VStr string | VList "pyval list" | VDict "(pyval \<times> pyval) list"

definition obj :: "(string \<times> pyval) list \<Rightarrow> pyval" where
  "obj ms = VDict (map (\<lambda>(k, v). (VStr k, v)) ms)"

definition strs :: "string list \<Rightarrow> pyval" where
  "strs xs = VList (map VStr xs)"

definition ints :: "int list \<Rightarrow> pyval" where
  "ints xs = VList (map VInt xs)"

fun py_of_json :: "json \<Rightarrow> pyval" where
  "py_of_json JNull = VNone"
| "py_of_json (JBool b) = VInt (if b then 1 else 0)"
| "py_of_json (JInt n) = VInt n"
| "py_of_json (JStr s) = VStr s"
| "py_of_json (JArr xs) = VList (map py_of_json xs)"
| "py_of_json (JObj ms) = VDict (map (\<lambda>(k, v). (VStr k, py_of_json v)) ms)"

text \<open>\<open>x < y\<close>; \<open>None\<close> is the \<open>TypeError\<close> of values that cannot be compared.\<close>

fun py_lt :: "pyval \<Rightarrow> pyval \<Rightarrow> bool option"
and py_lt_list :: "pyval list \<Rightarrow> pyval list \<Rightarrow> bool option" where
  "py_lt (VInt a) (VInt b) = Some (a < b)"
| "py_lt (VStr a) (VStr b) = Some (a < b)"
| "py_lt (VList xs) (VList ys) = py_lt_list xs ys"
| "py_lt _ _ = None"
| "py_lt_list [] ys = Some (ys \<noteq> [])"
| "py_lt_list (x # xs) [] = Some False"
| "py_lt_list (x # xs) (y # ys) = (if x = y then py_lt_list xs ys else py_lt x y)"

text \<open>
  \<open>sorted(xs)\<close>. Two different values that cannot be compared are compared by any sort, as nothing can
  stand between them.
\<close>

fun py_insort :: "pyval \<Rightarrow> pyval list \<Rightarrow> pyval list" where
  "py_insort x [] = [x]"
| "py_insort x (y # ys) = (if py_lt y x = Some True then y # py_insort x ys else x # y # ys)"

definition py_sorted :: "pyval list \<Rightarrow> pyval list result" where
  "py_sorted xs =
     (if list_all (\<lambda>x. list_all (\<lambda>y. x = y \<or> py_lt x y \<noteq> None) xs) xs
      then Inr (foldr py_insort xs []) else Inl TypeError)"

lemma map_result_cong [fundef_cong]:
  "xs = ys \<Longrightarrow> (\<And>x. x \<in> set ys \<Longrightarrow> f x = g x) \<Longrightarrow> map_result f xs = map_result g ys"
  by (induction xs arbitrary: ys) (auto split: sum.splits)

fun canonical_value :: "pyval \<Rightarrow> pyval result" where
  "canonical_value (VDict ms) =
     map_sum id VList (bind_result
       (map_result (\<lambda>(k, v). map_sum id (\<lambda>c. VList [k, c]) (canonical_value v)) ms) py_sorted)"
| "canonical_value (VList xs) =
     map_sum id VList (bind_result (map_result canonical_value xs) py_sorted)"
| "canonical_value v = Inr v"

text \<open>Of strings or numbers the canonical form is their sorted list.\<close>

lemma py_insort_VStr: "py_insort (VStr x) (map VStr ys) = map VStr (insort x ys)"
  by (induction ys) (auto simp: not_less)

lemma py_insort_VInt: "py_insort (VInt x) (map VInt ys) = map VInt (insort x ys)"
  by (induction ys) (auto simp: not_less)

lemma foldr_py_insort_VStr: "foldr py_insort (map VStr xs) [] = map VStr (sort xs)"
  by (induction xs) (simp_all add: py_insort_VStr)

lemma foldr_py_insort_VInt: "foldr py_insort (map VInt xs) [] = map VInt (sort xs)"
  by (induction xs) (simp_all add: py_insort_VInt)

lemma map_result_map: "map_result f (map g xs) = map_result (\<lambda>x. f (g x)) xs"
  by (induction xs) (auto split: sum.splits)

lemma canonical_strs [simp]: "canonical_value (strs xs) = Inr (strs (sort xs))"
  by (simp add: strs_def map_result_map py_sorted_def foldr_py_insort_VStr list_all_iff comp_def)

lemma canonical_ints [simp]: "canonical_value (ints xs) = Inr (ints (sort xs))"
  by (simp add: ints_def map_result_map py_sorted_def foldr_py_insort_VInt list_all_iff comp_def)

lemma strs_inj [simp]: "strs xs = strs ys \<longleftrightarrow> xs = ys"
  by (simp add: strs_def inj_map_eq_map inj_def)

lemma ints_inj [simp]: "ints xs = ints ys \<longleftrightarrow> xs = ys"
  by (simp add: ints_def inj_map_eq_map inj_def)

section \<open>Advisories as the checks see them\<close>

record todo_impact =
  ti_base_purl :: string
  ti_affecting_vers :: "string option"
  ti_fixed_vers :: "string option"
  ti_affecting :: "string list"
  ti_fixed_by :: "string list"
  ti_unfurled :: bool

record todo_severity =
  ts_system :: string
  ts_value :: "string option"
  ts_elements :: "string option"

text \<open>
  \<open>ti_affecting\<close> and \<open>ti_fixed_by\<close> are the versions of the related packages, \<open>ti_unfurled\<close> tells
  that \<open>last_successful_range_unfurl_at\<close> is set; \<open>ta_data\<close> is what \<open>to_advisory_data()\<close> returns.
\<close>

record ('r, 'd) todo_adv =
  ta_pk :: nat
  ta_avid :: string
  ta_advisory_id :: string
  ta_datasource :: string
  ta_pipeline :: string
  ta_content_id :: string
  ta_latest :: bool
  ta_unfurled_all :: bool
  ta_summary :: string
  ta_published :: "'d option"
  ta_collected :: 'd
  ta_precedence :: "int option"
  ta_aliases :: "string list"
  ta_weaknesses :: "int list"
  ta_severities :: "todo_severity list"
  ta_impacts :: "todo_impact list"
  ta_data :: "('r, 'd) adv_data"

record ('r, 'v, 'd) todo_env =
  te_ext :: "('r, 'v, 'd) ext"
  te_sha256 :: "pyval \<Rightarrow> string"
  te_hash :: "pyval \<Rightarrow> int"
  te_sha1 :: "string \<Rightarrow> string"
  te_cwe :: "int \<Rightarrow> (string \<times> string \<times> string) option"
  te_cvss_score :: "string \<Rightarrow> string \<Rightarrow> string result"
  te_cvss_metrics :: "string \<Rightarrow> string \<Rightarrow> (string \<times> string) list result"
  te_excluded :: "string list"

text \<open>
  A to-do, and what the checks add to: the to-dos to create, the advisories each of them is related to
  (by the identifier of the to-do) and the identifiers that are taken.
\<close>

record 'd todo =
  td_related :: string
  td_issue :: string
  td_detail :: pyval
  td_alias :: string
  td_count :: nat
  td_oldest :: "'d option"

record 'd todo_acc =
  acc_todos :: "'d todo list"
  acc_rel :: "(string \<times> nat list) list"
  acc_existing :: "string list"

definition todo_checksum :: "('r, 'v, 'd) todo_env \<Rightarrow> ('r, 'd) todo_adv list \<Rightarrow> string" where
  "todo_checksum E advs = advisories_checksum (te_sha1 E) (map ta_content_id advs)"

definition add_todo :: "'d todo \<Rightarrow> nat list \<Rightarrow> 'd todo_acc \<Rightarrow> 'd todo_acc" where
  "add_todo t pks acc = acc\<lparr>acc_todos := acc_todos acc @ [t], acc_rel := AList.update (td_related t) pks (acc_rel acc)\<rparr>"

text \<open>\<open>s | set(xs)\<close>, \<open>set().union(*ss)\<close>, \<open>set.intersection(*ss)\<close> and \<open>s - t\<close>.\<close>

definition set_update :: "'a list \<Rightarrow> 'a list \<Rightarrow> 'a list" where
  "set_update s xs = dedupe (s @ xs)"

definition union_all :: "'a list list \<Rightarrow> 'a list" where
  "union_all ss = dedupe (concat ss)"

fun inter_all :: "'a list list \<Rightarrow> 'a list result" where
  "inter_all [] = Inl TypeError"
| "inter_all (s # ss) = Inr (filter (\<lambda>x. list_all (\<lambda>t. x \<in> set t) ss) s)"

definition set_minus :: "'a list \<Rightarrow> 'a list \<Rightarrow> 'a list" where
  "set_minus s t = filter (\<lambda>x. x \<notin> set t) s"

text \<open>\<open>min(xs, default=None)\<close>, and the oldest date of a group of advisories.\<close>

definition min_default :: "'d::linorder list \<Rightarrow> 'd option" where
  "min_default xs = (case xs of [] \<Rightarrow> None | x # ys \<Rightarrow> Some (fold min ys x))"

definition oldest_date :: "('r, 'd::linorder) todo_adv list \<Rightarrow> 'd option" where
  "oldest_date advs =
     (case min_default (concat (map (\<lambda>a. case ta_published a of None \<Rightarrow> [] | Some d \<Rightarrow> [d]) advs)) of
        Some d \<Rightarrow> Some d | None \<Rightarrow> min_default (map ta_collected advs))"

text \<open>
  \<open>sorted(xs, key=precedence, reverse=True)\<close>: a precedence may be null, and null cannot be compared.
\<close>

definition by_precedence :: "('a \<Rightarrow> int option) \<Rightarrow> 'a list \<Rightarrow> 'a list result" where
  "by_precedence prec xs =
     (if 2 \<le> length xs \<and> list_ex (\<lambda>x. prec x = None) xs then Inl TypeError
      else Inr (sorted_desc (\<lambda>x. case prec x of None \<Rightarrow> 0 | Some p \<Rightarrow> p) xs))"

definition dict_lookup :: "('k \<times> 'v) list \<Rightarrow> 'k \<Rightarrow> 'v result" where
  "dict_lookup d k = (case map_of d k of None \<Rightarrow> Inl KeyError | Some v \<Rightarrow> Inr v)"

section \<open>Missing summaries and packages\<close>

definition last_part :: "string \<Rightarrow> string" where
  "last_part s = snd (snd (rpartition_char (CHR ''/'') s))"

definition single_todo :: "string \<Rightarrow> string \<Rightarrow> ('r, 'd) todo_adv \<Rightarrow> 'd todo" where
  "single_todo todo_id issue a = \<lparr>td_related = todo_id, td_issue = issue, td_detail = VDict [],
     td_alias = last_part (ta_advisory_id a), td_count = 1,
     td_oldest = (case ta_published a of Some d \<Rightarrow> Some d | None \<Rightarrow> Some (ta_collected a))\<rparr>"

definition check_missing_summary ::
    "('r, 'd) todo_adv \<Rightarrow> string \<Rightarrow> 'd todo_acc \<Rightarrow> 'd todo_acc" where
  "check_missing_summary a todo_id acc =
     (if ta_summary a = [] then add_todo (single_todo todo_id ''MISSING_SUMMARY'' a) [ta_pk a] acc else acc)"

fun has_ranges :: "bool \<Rightarrow> bool \<Rightarrow> todo_impact list \<Rightarrow> bool \<times> bool" where
  "has_ranges aff fixd [] = (aff, fixd)"
| "has_ranges aff fixd (im # ims) =
     (if aff \<and> fixd then (aff, fixd)
      else has_ranges (aff \<or> truthy_opt (ti_affecting_vers im)) (fixd \<or> truthy_opt (ti_fixed_vers im)) ims)"

definition check_missing_affected_and_fixed_by_packages ::
    "('r, 'd) todo_adv \<Rightarrow> string \<Rightarrow> 'd todo_acc \<Rightarrow> 'd todo_acc" where
  "check_missing_affected_and_fixed_by_packages a todo_id acc =
     (let (aff, fixd) = has_ranges False False (ta_impacts a)
      in if aff \<and> fixd then acc
         else add_todo (single_todo todo_id
                (if \<not> aff \<and> \<not> fixd then ''MISSING_AFFECTED_AND_FIXED_BY_PACKAGES''
                 else if \<not> aff then ''MISSING_AFFECTED_PACKAGE'' else ''MISSING_FIXED_BY_PACKAGE'') a)
              [ta_pk a] acc)"

section \<open>Conflicting weaknesses\<close>

text \<open>
  The CWEs of one advisory that have an abstraction, with their details; \<open>w.weakness\<close> is None for a CWE
  the database does not know, and has no \<open>weakness_abstraction\<close>.
\<close>

definition weakness_dict :: "int \<Rightarrow> string \<Rightarrow> string \<Rightarrow> pyval" where
  "weakness_dict w name descr = obj [(''cwe_id'', VInt w), (''name'', VStr name), (''description'', VStr descr)]"

fun collect_cwes ::
    "('r, 'v, 'd) todo_env \<Rightarrow> int list \<Rightarrow> (int \<times> pyval) list \<times> int list \<Rightarrow> ((int \<times> pyval) list \<times> int list) result" where
  "collect_cwes E [] acc = Inr acc"
| "collect_cwes E (w # ws) (details, cwes) =
     (case te_cwe E w of
        None \<Rightarrow> Inl AttributeError
      | Some (name, descr, abstraction) \<Rightarrow>
          if abstraction = [] then collect_cwes E ws (details, cwes)
          else collect_cwes E ws (AList.update w (weakness_dict w name descr) details, set_update cwes [w]))"

record cwe_group =
  cg_cwes :: "int list"
  cg_avids :: "(string \<times> int option) list"

text \<open>
  The groups of the advisories by their set of CWEs (under its digest), the details, and the advisories
  by \<open>avid\<close>.
\<close>

fun group_cwes ::
    "('r, 'v, 'd) todo_env \<Rightarrow> ('r, 'd) todo_adv list \<Rightarrow>
       (int \<times> pyval) list \<times> (string \<times> cwe_group) list \<times> (string \<times> ('r, 'd) todo_adv) list \<Rightarrow>
       ((int \<times> pyval) list \<times> (string \<times> cwe_group) list \<times> (string \<times> ('r, 'd) todo_adv) list) result" where
  "group_cwes E [] acc = Inr acc"
| "group_cwes E (a # as) (details, groups, avids) =
     (case collect_cwes E (ta_weaknesses a) (details, []) of
        Inl e \<Rightarrow> Inl e
      | Inr (details, cwes) \<Rightarrow>
          (let canonical = sort cwes;
               checksum = te_sha256 E (ints canonical);
               g = dict_get groups checksum \<lparr>cg_cwes = [], cg_avids = []\<rparr>
           in group_cwes E as (details,
                AList.update checksum \<lparr>cg_cwes = canonical, cg_avids = cg_avids g @ [(ta_avid a, ta_precedence a)]\<rparr> groups,
                AList.update (ta_avid a) a avids)))"

text \<open>The group as the to-do has it: its CWEs, its advisory of highest precedence and the others.\<close>

definition advisory_uid :: "string \<Rightarrow> pyval" where
  "advisory_uid avid = obj [(''advisory_uid'', VStr avid)]"

definition rank_group :: "cwe_group \<Rightarrow> (int list \<times> pyval) result" where
  "rank_group g =
     (case by_precedence snd (cg_avids g) of Inl e \<Rightarrow> Inl e
      | Inr rk \<Rightarrow>
          (case map fst rk of [] \<Rightarrow> Inl IndexError
           | p # rest \<Rightarrow> Inr (cg_cwes g, obj [(''cwes'', ints (cg_cwes g)), (''primary'', advisory_uid p),
               (''secondaries'', VList (map advisory_uid rest))])))"

text \<open>The union, the intersection and the disagreement.\<close>

definition compute_cwe_disagreement :: "int list list \<Rightarrow> (int list \<times> int list \<times> int list) result" where
  "compute_cwe_disagreement groups =
     (case inter_all groups of Inl e \<Rightarrow> Inl e
      | Inr common \<Rightarrow> Inr (sort (union_all groups), common, set_minus (union_all groups) common))"

text \<open>
  The outcome of a check for one alias: the counts it returns and what it adds. The new to-do is not
  made when its identifier is taken.
\<close>

definition raise_todo ::
    "('r, 'v, 'd::linorder) todo_env \<Rightarrow> string \<Rightarrow> string \<Rightarrow> pyval \<Rightarrow> ('r, 'd) todo_adv list \<Rightarrow> nat \<Rightarrow>
       'd todo_acc \<Rightarrow> (nat \<times> nat) \<times> 'd todo_acc" where
  "raise_todo E alias issue detail advs n acc =
     (let todo_id = todo_checksum E advs
      in if todo_id \<in> set (acc_existing acc) then ((0, 0), acc)
         else ((n, length advs),
               add_todo \<lparr>td_related = todo_id, td_issue = issue, td_detail = detail, td_alias = alias,
                   td_count = length advs, td_oldest = oldest_date advs\<rparr> (map ta_pk advs)
                 (acc\<lparr>acc_existing := set_update (acc_existing acc) [todo_id]\<rparr>)))"

definition check_conflicting_weaknesses_for_alias ::
    "('r, 'v, 'd::linorder) todo_env \<Rightarrow> string \<Rightarrow> (string \<times> ('r, 'd) todo_adv) list \<Rightarrow> (int list \<times> pyval) list \<Rightarrow>
       (int \<times> pyval) list \<Rightarrow> 'd todo_acc \<Rightarrow> ((nat \<times> nat) \<times> 'd todo_acc) result" where
  "check_conflicting_weaknesses_for_alias E alias avids groups details acc =
     (case compute_cwe_disagreement (map fst groups) of Inl e \<Rightarrow> Inl e
      | Inr (reported, common, disagreement) \<Rightarrow>
          if length disagreement < 1 then Inr ((0, 0), acc)
          else (let item = obj [
                  (''all_cwes'', ints reported),
                  (''cwe_details'', VDict (map (\<lambda>(w, d). (VInt w, d)) details)),
                  (''partial_curation'', obj [(''cwes'', ints common)]),
                  (''conflict_reason'', VStr (''Advisories report different '' @
                      (if length disagreement > 1 then ''weaknesses'' else ''weakness'') @ '' for '' @ alias)),
                  (''advisories'', VList (map snd groups))]
                in case canonical_value (VList [item]) of Inl e \<Rightarrow> Inl e
                   | Inr c \<Rightarrow> Inr (raise_todo E alias ''CONFLICTING_WEAKNESSES''
                       (obj [(''alias'', VStr alias), (''conflict_checksum'', VStr (te_sha256 E c)),
                             (''curation_items'', VList [item])])
                       (dict_values avids) (length disagreement) acc)))"

text \<open>
  One alias of \<open>detect_conflicting_weakness\<close>. \<open>None\<close> is a \<open>continue\<close>, which skips the writing of the
  to-dos at the end of the loop's body.
\<close>

definition weakness_alias ::
    "('r, 'v, 'd::linorder) todo_env \<Rightarrow> string \<Rightarrow> ('r, 'd) todo_adv list \<Rightarrow> 'd todo_acc \<Rightarrow> 'd todo_acc option result" where
  "weakness_alias E alias advs acc =
     (if length advs < 2 then Inr None
      else (case group_cwes E advs ([], [], []) of Inl e \<Rightarrow> Inl e
        | Inr (details, groups, avids) \<Rightarrow>
            if length groups < 2 then Inr None
            else (case map_result rank_group (dict_values groups) of Inl e \<Rightarrow> Inl e
              | Inr rk \<Rightarrow>
                  map_sum id (\<lambda>r. Some (snd r))
                    (check_conflicting_weaknesses_for_alias E alias avids rk details acc))))"

section \<open>Conflicting CVSS scores\<close>

definition cvss_types :: "string list" where
  "cvss_types = [''cvssv4'', ''cvssv3'', ''cvssv3.1'']"

definition cvss_versions :: "(string \<times> string) list" where
  "cvss_versions = [(''cvssv4'', ''4.0''), (''cvssv3'', ''3.0''), (''cvssv3.1'', ''3.1'')]"

record cvss_item =
  ci_uid :: string
  ci_vector :: "(string \<times> string) list"
  ci_score :: "string option"
  ci_string :: string

text \<open>What an advisory says: the package URLs it has packages of, and its scores by CVSS version.\<close>

record cvss_entry =
  ce_purls :: "string list"
  ce_scores :: "(string \<times> string option list) list"

definition empty_cvss :: cvss_entry where
  "empty_cvss = \<lparr>ce_purls = [], ce_scores = map (\<lambda>t. (t, [])) cvss_types\<rparr>"

text \<open>
  The score and the vector of one severity: computed from its vector string when it has one, and its
  value when that fails.
\<close>

definition cvss_of :: "('r, 'v, 'd) todo_env \<Rightarrow> todo_severity \<Rightarrow> string option \<times> (string \<times> string) list" where
  "cvss_of E sv =
     (if truthy_opt (ts_elements sv)
      then (case te_cvss_score E (ts_system sv) (the (ts_elements sv)) of
              Inl _ \<Rightarrow> (ts_value sv, [])
            | Inr score \<Rightarrow>
                (case te_cvss_metrics E (ts_system sv) (strip (the (ts_elements sv))) of
                   Inl _ \<Rightarrow> (Some score, []) | Inr metrics \<Rightarrow> (Some score, metrics)))
      else (ts_value sv, []))"

definition scored :: "todo_severity \<Rightarrow> bool" where
  "scored sv \<longleftrightarrow> ts_system sv \<in> set cvss_types \<and> (truthy_opt (ts_value sv) \<or> truthy_opt (ts_elements sv))"

definition add_severity ::
    "('r, 'v, 'd) todo_env \<Rightarrow> string \<Rightarrow> todo_severity \<Rightarrow> cvss_entry \<times> (string \<times> cvss_item) list \<Rightarrow>
       cvss_entry \<times> (string \<times> cvss_item) list" where
  "add_severity E avid sv x =
     (case x of (entry, curation) \<Rightarrow>
        (case cvss_of E sv of (score, vector) \<Rightarrow>
           (entry\<lparr>ce_scores := AList.update (ts_system sv)
                (set_update (dict_get (ce_scores entry) (ts_system sv) []) [score]) (ce_scores entry)\<rparr>,
            AList.update (ts_system sv) \<lparr>ci_uid = avid, ci_vector = vector, ci_score = score,
                ci_string = str_or_empty (ts_elements sv)\<rparr> curation)))"

definition cvss_advisory ::
    "('r, 'v, 'd) todo_env \<Rightarrow> ('r, 'd) todo_adv \<Rightarrow> cvss_entry \<times> (string \<times> cvss_item) list \<Rightarrow>
       cvss_entry \<times> (string \<times> cvss_item) list" where
  "cvss_advisory E a x =
     (let svs = filter scored (ta_severities a);
          (entry, curation) = fold (add_severity E (ta_avid a)) svs x
      in if svs = [] then (entry, curation)
         else (entry\<lparr>ce_purls := set_update (ce_purls entry)
                 (map ti_base_purl (filter (\<lambda>im. ti_fixed_by im \<noteq> [] \<or> ti_affecting im \<noteq> []) (ta_impacts a)))\<rparr>,
               curation))"

type_synonym cvss_maps = "(string \<times> cvss_entry) list \<times> (string \<times> (string \<times> cvss_item) list) list"

definition add_cvss_advisory ::
    "('r, 'v, 'd) todo_env \<Rightarrow> ('r, 'd) todo_adv \<Rightarrow> cvss_maps \<Rightarrow> cvss_maps" where
  "add_cvss_advisory E a maps =
     (case maps of (entries, curations) \<Rightarrow>
        (case cvss_advisory E a (dict_get entries (ta_avid a) empty_cvss, dict_get curations (ta_avid a) []) of
           (entry, curation) \<Rightarrow> (AList.update (ta_avid a) entry entries, AList.update (ta_avid a) curation curations)))"

text \<open>The unions and disagreements of the package URLs and of the scores.\<close>

definition compute_cvss_disagreement ::
    "string \<Rightarrow> (string \<times> cvss_entry) list \<Rightarrow> (string list \<times> string list \<times> string option list) option result" where
  "compute_cvss_disagreement cvss_type m =
     (let purl_sets = map ce_purls (dict_values m);
          score_sets = map (\<lambda>v. dict_get (ce_scores v) cvss_type []) (dict_values m)
      in if purl_sets = [] then Inr None
         else (case inter_all purl_sets of Inl e \<Rightarrow> Inl e
           | Inr common_purls \<Rightarrow> (case inter_all score_sets of Inl e \<Rightarrow> Inl e
             | Inr common_scores \<Rightarrow> Inr (Some (union_all purl_sets, set_minus (union_all purl_sets) common_purls,
                 set_minus (union_all score_sets) common_scores)))))"

definition cvss_v3_keys :: "string list" where
  "cvss_v3_keys = [''AV'', ''AC'', ''PR'', ''UI'', ''S'', ''C'', ''I'', ''A'', ''E'', ''RL'', ''RC'', ''MAV'', ''MAC'',
     ''MPR'', ''MUI'', ''MS'', ''MC'', ''MI'', ''MA'', ''CR'', ''IR'', ''AR'']"

definition cvss_v4_keys :: "string list" where
  "cvss_v4_keys = [''AV'', ''AC'', ''AR'', ''PR'', ''UI'', ''VC'', ''VI'', ''VA'', ''SC'', ''SI'', ''SA'', ''E'', ''S'',
     ''AU'', ''R'', ''V'', ''RE'', ''U'', ''MAV'', ''MAC'', ''MAT'', ''MPR'', ''MUI'', ''MVC'', ''MVI'',
     ''MVA'', ''MSC'', ''MSI'', ''MSA'', ''CR'', ''IR'', ''AR'']"

definition consensus_cvss_metrics :: "(string \<times> string) list list \<Rightarrow> string \<Rightarrow> (string \<times> string) list" where
  "consensus_cvss_metrics metrics version =
     (let keys = (if version = ''4.0'' then cvss_v4_keys else cvss_v3_keys)
      in if metrics = [] then []
         else fold (\<lambda>key d.
                (case dedupe (concat (map (\<lambda>m. case map_of m key of None \<Rightarrow> [] | Some v \<Rightarrow> if v = [] then [] else [v]) metrics)) of
                   [v] \<Rightarrow> AList.update key v d | _ \<Rightarrow> d)) keys [])"

definition cvss_item_dict :: "cvss_item \<Rightarrow> pyval" where
  "cvss_item_dict i = obj [(''advisory_uid'', VStr (ci_uid i)),
     (''vector'', obj (map (\<lambda>(k, v). (k, VStr v)) (ci_vector i))),
     (''score'', case ci_score i of None \<Rightarrow> VNone | Some t \<Rightarrow> VStr t), (''vector_string'', VStr (ci_string i))]"

text \<open>
  The advisories grouped by their vector string; one without a vector is alone, under its position (the
  decimal text of it, \<open>dec\<close>).
\<close>

definition item_of ::
    "(string \<times> (string \<times> cvss_item) list) list \<Rightarrow> string \<Rightarrow> string \<Rightarrow> cvss_item result" where
  "item_of curations cvss_type avid = dict_lookup (dict_get curations avid []) cvss_type"

definition get_grouped_cvss_advisory_curation ::
    "(nat \<Rightarrow> string) \<Rightarrow> (string \<times> (string \<times> cvss_item) list) list \<Rightarrow> string \<Rightarrow>
       (string \<times> ('r, 'd) todo_adv) list \<Rightarrow> string list \<Rightarrow> pyval list result" where
  "get_grouped_cvss_advisory_curation dec curations cvss_type advs avids =
     (case map_result (\<lambda>(n, avid).
             bind_result (item_of curations cvss_type avid) (\<lambda>i.
             bind_result (dict_lookup advs avid) (\<lambda>a.
             Inr (if ci_string i = [] then dec n else ci_string i, (avid, ta_precedence a), i))))
           (enumerate 0 avids) of Inl e \<Rightarrow> Inl e
      | Inr keyed \<Rightarrow>
          map_result (\<lambda>grp.
            bind_result (by_precedence (\<lambda>(_, (_, p), _). p) grp) (\<lambda>rk.
            (case map (\<lambda>(_, _, i). cvss_item_dict i) rk of [] \<Rightarrow> Inl IndexError
             | p # rest \<Rightarrow> Inr (obj [(''primary'', p), (''secondaries'', VList rest)]))))
            (dict_values (group_by fst keyed)))"

text \<open>\<open>adv_by_cvss\<close>: the advisories that have a score, by CVSS version, in the order they appear.\<close>

definition adv_by_cvss :: "(string \<times> cvss_entry) list \<Rightarrow> (string \<times> (string \<times> cvss_entry) list) list" where
  "adv_by_cvss comparable =
     fold (\<lambda>(avid, entry). fold (\<lambda>t d. if dict_get (ce_scores entry) t [] = [] then d
             else AList.update t (AList.update avid entry (dict_get d t [])) d) cvss_types) comparable []"

text \<open>The conflict of one CVSS version: its advisories and its curation item, when there is one.\<close>

definition cvss_conflict ::
    "(nat \<Rightarrow> string) \<Rightarrow> (string \<times> ('r, 'd) todo_adv) list \<Rightarrow> (string \<times> (string \<times> cvss_item) list) list \<Rightarrow>
       string \<times> (string \<times> cvss_entry) list \<Rightarrow> (('r, 'd) todo_adv list \<times> pyval) option result" where
  "cvss_conflict dec advs curations x =
     (case x of (cvss_type, item) \<Rightarrow>
        if length item < 2 then Inr None
        else (case compute_cvss_disagreement cvss_type item of Inl e \<Rightarrow> Inl e
          | Inr None \<Rightarrow> Inr None
          | Inr (Some (packages, purl_disagreement, score_disagreement)) \<Rightarrow>
              if purl_disagreement \<noteq> [] \<or> score_disagreement = [] then Inr None
              else bind_result (dict_lookup cvss_versions cvss_type) (\<lambda>version.
                bind_result (map_result (item_of curations cvss_type) (dict_keys item)) (\<lambda>items.
                bind_result (map_result (dict_lookup advs) (dict_keys item)) (\<lambda>conflicting.
                bind_result (get_grouped_cvss_advisory_curation dec curations cvss_type advs (dict_keys item)) (\<lambda>grouped.
                  (let vectors = filter (\<lambda>v. v \<noteq> []) (map ci_vector items);
                       consensus = (if length vectors = length item
                                    then consensus_cvss_metrics vectors version else [])
                   in Inr (Some (conflicting, obj [
                        (''cvss'', VStr version),
                        (''conflict_reason'', VStr (''Conflicting severity scores for '' @
                            (if length packages = 1 then ''package'' else ''packages'') @ '': '' @ join_with '', '' packages)),
                        (''partial_cvss_curation'', obj (map (\<lambda>(k, v). (k, VStr v)) consensus)),
                        (''advisories'', VList grouped)])))))))))"

definition check_conflicting_cvss_for_alias ::
    "('r, 'v, 'd::linorder) todo_env \<Rightarrow> (nat \<Rightarrow> string) \<Rightarrow> string \<Rightarrow> (string \<times> cvss_entry) list \<Rightarrow>
       (string \<times> ('r, 'd) todo_adv) list \<Rightarrow> (string \<times> (string \<times> cvss_item) list) list \<Rightarrow> 'd todo_acc \<Rightarrow>
       ((nat \<times> nat) \<times> 'd todo_acc) result" where
  "check_conflicting_cvss_for_alias E dec alias comparable advs curations acc =
     (case map_result (cvss_conflict dec advs curations) (adv_by_cvss comparable) of Inl e \<Rightarrow> Inl e
      | Inr cs \<Rightarrow>
          (let found = concat (map (\<lambda>c. case c of None \<Rightarrow> [] | Some x \<Rightarrow> [x]) cs)
           in if found = [] then Inr ((0, 0), acc)
              else Inr (raise_todo E alias ''CONFLICTING_SEVERITY_SCORES''
                     (obj [(''alias'', VStr alias), (''curation_items'', VList (map snd found))])
                     (concat (map fst found)) (length found) acc)))"

text \<open>One alias of \<open>detect_conflicting_cvss_scores\<close>.\<close>

definition cvss_alias ::
    "('r, 'v, 'd::linorder) todo_env \<Rightarrow> (nat \<Rightarrow> string) \<Rightarrow> string \<Rightarrow> ('r, 'd) todo_adv list \<Rightarrow> 'd todo_acc \<Rightarrow>
       'd todo_acc option result" where
  "cvss_alias E dec alias advs acc =
     (if length advs < 2 then Inr None
      else (let avids = fold (\<lambda>a. AList.update (ta_avid a) a) advs [];
                (entries, curations) = fold (add_cvss_advisory E) advs ([], []);
                comparable = filter (\<lambda>(_, e). ce_purls e \<noteq> []) entries
            in map_sum id (\<lambda>r. Some (snd r))
                 (check_conflicting_cvss_for_alias E dec alias comparable avids curations acc)))"

section \<open>Conflicting packages\<close>

record versions_entry =
  ve_affected :: "string list"
  ve_fixed :: "string list"
  ve_count :: nat

definition empty_versions :: versions_entry where
  "empty_versions = \<lparr>ve_affected = [], ve_fixed = [], ve_count = 0\<rparr>"

text \<open>
  What the advisories of an alias say: the package URLs of each, the versions by package URL and
  advisory, and what is not unfurled.
\<close>

record purl_maps =
  pm_adv_purls :: "(string \<times> string list) list"
  pm_purl_advs :: "(string \<times> (string \<times> versions_entry) list) list"
  pm_not_unfurled :: "string list"
  pm_not_unfurled_advs :: "string list"

definition add_impact :: "string \<Rightarrow> todo_impact \<Rightarrow> purl_maps \<Rightarrow> purl_maps" where
  "add_impact avid im m =
     (let base = ti_base_purl im;
          advs = dict_get (pm_purl_advs m) base [];
          e = dict_get advs avid empty_versions;
          m = m\<lparr>pm_adv_purls := AList.update avid (set_update (dict_get (pm_adv_purls m) avid []) [base]) (pm_adv_purls m),
               pm_purl_advs := AList.update base (AList.update avid
                 \<lparr>ve_affected = set_update (ve_affected e) (ti_affecting im),
                  ve_fixed = set_update (ve_fixed e) (ti_fixed_by im), ve_count = ve_count e + 1\<rparr> advs) (pm_purl_advs m)\<rparr>
      in if \<not> ti_unfurled im \<and> truthy_opt (ti_affecting_vers im)
         then m\<lparr>pm_not_unfurled := set_update (pm_not_unfurled m) [base],
                pm_not_unfurled_advs := set_update (pm_not_unfurled_advs m) [avid]\<rparr>
         else m)"

definition purl_maps_of :: "('r, 'd) todo_adv list \<Rightarrow> purl_maps" where
  "purl_maps_of advs =
     fold (\<lambda>a. fold (add_impact (ta_avid a)) (ta_impacts a)) advs
       \<lparr>pm_adv_purls = [], pm_purl_advs = [], pm_not_unfurled = [], pm_not_unfurled_advs = []\<rparr>"

text \<open>The union, the intersection and the disagreement, of the affected and of the fixed versions.\<close>

record version_conflict =
  vc_affected_union :: "string list"
  vc_affected_common :: "string list"
  vc_affected_disagreement :: "string list"
  vc_fixed_union :: "string list"
  vc_fixed_common :: "string list"
  vc_fixed_disagreement :: "string list"

definition compute_version_range_disagreement :: "(string \<times> versions_entry) list \<Rightarrow> version_conflict result" where
  "compute_version_range_disagreement m =
     (let affected = map ve_affected (dict_values m); fixd = map ve_fixed (dict_values m)
      in case inter_all affected of Inl e \<Rightarrow> Inl e
         | Inr ca \<Rightarrow> (case inter_all fixd of Inl e \<Rightarrow> Inl e
           | Inr cf \<Rightarrow> Inr \<lparr>vc_affected_union = union_all affected, vc_affected_common = ca,
               vc_affected_disagreement = set_minus (union_all affected) ca,
               vc_fixed_union = union_all fixd, vc_fixed_common = cf,
               vc_fixed_disagreement = set_minus (union_all fixd) cf\<rparr>))"

definition conflict_dict :: "string list \<Rightarrow> version_conflict \<Rightarrow> pyval" where
  "conflict_dict avids c = obj [(''avids'', strs avids),
     (''affected_union'', strs (vc_affected_union c)), (''affected_intersection'', strs (vc_affected_common c)),
     (''affected_disagreement'', strs (vc_affected_disagreement c)),
     (''fixed_union'', strs (vc_fixed_union c)), (''fixed_intersection'', strs (vc_fixed_common c)),
     (''fixed_disagreement'', strs (vc_fixed_disagreement c))]"

definition get_disagreement_message :: "string list \<Rightarrow> string list \<Rightarrow> string" where
  "get_disagreement_message fixed_disagreement affected_disagreement =
     join_with [newline]
       ((if affected_disagreement \<noteq> []
         then [''Advisories disagree on whether the following version(s) are affected: '' @
               join_with '', '' affected_disagreement @ ''.''] else []) @
        (if fixed_disagreement \<noteq> []
         then [''Advisories disagree on whether the following version(s) contain the fix: '' @
               join_with '', '' fixed_disagreement @ ''.''] else []))"

text \<open>
  The curation item of a package URL: the advisories with the same versions are together, under the
  digest of the versions. \<open>sorted\<close> fails on a version that the scheme of the package type rejects.
\<close>

definition vers_ranges_dict :: "string \<Rightarrow> ('r, 'd) todo_adv \<Rightarrow> pyval" where
  "vers_ranges_dict p a =
     VList (map (\<lambda>im. obj [(''affected_vers'', case ti_affecting_vers im of None \<Rightarrow> VNone | Some t \<Rightarrow> VStr t),
                          (''fixing_vers'', case ti_fixed_vers im of None \<Rightarrow> VNone | Some t \<Rightarrow> VStr t)])
                (filter (\<lambda>im. ti_base_purl im = p) (ta_impacts a)))"

definition advisory_item :: "string \<Rightarrow> string \<Rightarrow> ('r, 'd) todo_adv \<Rightarrow> pyval" where
  "advisory_item p avid a = obj [(''advisory_uid'', VStr avid), (''vers_ranges'', vers_ranges_dict p a),
     (''precedence'', case ta_precedence a of None \<Rightarrow> VNone | Some n \<Rightarrow> VInt n),
     (''advisory_id'', VStr (ta_advisory_id a)), (''datasource_id'', VStr (ta_datasource a))]"

record conflict_member =
  cm_checksum :: string
  cm_versions :: versions_entry
  cm_precedence :: "int option"
  cm_item :: pyval

definition conflict_member_of ::
    "('r, 'v, 'd) todo_env \<Rightarrow> string \<Rightarrow> (string \<times> ('r, 'd) todo_adv) list \<Rightarrow> string \<times> versions_entry \<Rightarrow> conflict_member result" where
  "conflict_member_of E p advs x =
     (case x of (avid, e) \<Rightarrow>
        bind_result (canonical_value (obj [(''affected'', strs (ve_affected e)), (''fixed'', strs (ve_fixed e))])) (\<lambda>c.
        bind_result (dict_lookup advs avid) (\<lambda>a.
        Inr \<lparr>cm_checksum = te_sha256 E c, cm_versions = e, cm_precedence = ta_precedence a,
              cm_item = advisory_item p avid a\<rparr>)))"

definition conflict_range_dict :: "conflict_member list \<Rightarrow> pyval result" where
  "conflict_range_dict ms =
     (case ms of [] \<Rightarrow> Inl KeyError
      | m # _ \<Rightarrow> bind_result (by_precedence cm_precedence ms) (\<lambda>rk.
          case map cm_item rk of [] \<Rightarrow> Inl ValueError
          | p # rest \<Rightarrow> Inr (obj [(''affected'', strs (ve_affected (cm_versions m))),
              (''fixing'', strs (ve_fixed (cm_versions m))), (''primary'', p), (''secondaries'', VList rest)])))"

definition get_grouped_curation_advisories_for_dashboard_ui ::
    "('r, 'v::linorder, 'd) todo_env \<Rightarrow> string \<Rightarrow> (string \<times> versions_entry) list \<Rightarrow> version_conflict \<Rightarrow>
       (string \<times> ('r, 'd) todo_adv) list \<Rightarrow> pyval result" where
  "get_grouped_curation_advisories_for_dashboard_ui E p m c advs =
     (case lib_from_string (purls (te_ext E)) p of Inl e \<Rightarrow> Inl e
      | Inr q \<Rightarrow> (case type_version (te_ext E) (ptype q) of None \<Rightarrow> Inl KeyError
        | Some version_class \<Rightarrow>
            bind_result (map_result version_class (vc_affected_union c @ vc_fixed_union c)) (\<lambda>vs.
            bind_result (map_result (conflict_member_of E p advs) m) (\<lambda>members.
            bind_result (map_result conflict_range_dict (dict_values (group_by cm_checksum members))) (\<lambda>ranges.
            Inr (obj [(''purl'', VStr p),
              (''partial_curation'', obj [(''affected'', strs (vc_affected_common c)), (''fixing'', strs (vc_fixed_common c))]),
              (''advisories'', VList ranges),
              (''all_versions'', strs (map (version_str (te_ext E)) (sort vs))),
              (''conflict_reason'', VStr (get_disagreement_message (vc_fixed_disagreement c) (vc_affected_disagreement c)))]))))))"

definition get_advisory_with_best_impact_for_purls ::
    "(string \<times> (string \<times> versions_entry) list) list \<Rightarrow> string list \<Rightarrow> (string \<times> string \<times> nat) list" where
  "get_advisory_with_best_impact_for_purls pam avids =
     fold (\<lambda>(p, m) d.
        (case py_max snd (map (\<lambda>(avid, e). (avid, ve_count e)) (filter (\<lambda>(avid, e). avid \<in> set avids) m)) of
           None \<Rightarrow> d | Some best \<Rightarrow> AList.update p best d)) pam []"

section \<open>The partial merge of conflicting advisories\<close>

type_synonym item_list = "int list \<times> json list"

definition update_advisory_item :: "(pyval \<Rightarrow> int) \<Rightarrow> json \<Rightarrow> item_list \<Rightarrow> item_list result" where
  "update_advisory_item hash item x =
     (case x of (seen, items) \<Rightarrow>
        (case canonical_value (py_of_json item) of Inl e \<Rightarrow> Inl e
         | Inr c \<Rightarrow> Inr (if hash c \<in> set seen then (seen, items) else (seen @ [hash c], items @ [item]))))"

fun update_items :: "(pyval \<Rightarrow> int) \<Rightarrow> json list \<Rightarrow> item_list \<Rightarrow> item_list result" where
  "update_items hash [] x = Inr x"
| "update_items hash (i # is) x = bind_result (update_advisory_item hash i x) (update_items hash is)"

definition jset :: "string \<Rightarrow> json \<Rightarrow> json \<Rightarrow> json" where
  "jset k v d = (case d of JObj ms \<Rightarrow> JObj (AList.update k v ms) | _ \<Rightarrow> d)"

text \<open>
  What is left of an affected package: nothing when another advisory is the best one for its package
  URL; without the ranges the advisories disagree on; nothing when no range is left.
\<close>

definition merge_affected_package ::
    "('r, 'v, 'd) ext \<Rightarrow> (string \<times> string \<times> nat) list \<Rightarrow> (string \<times> version_conflict) list \<Rightarrow> string \<Rightarrow> json \<Rightarrow>
       json option result" where
  "merge_affected_package X best conflicts avid affected =
     bind_result (bind_result (req affected ''package'') as_fields) (\<lambda>fs.
     bind_result (lib_of_fields (purls X) fs) (\<lambda>q.
       (let base = lib_to_string (purls X) q
        in if (case map_of best base of None \<Rightarrow> False | Some (b, _) \<Rightarrow> b \<noteq> avid) then Inr None
           else (let affected = (case map_of conflicts base of None \<Rightarrow> affected
                   | Some c \<Rightarrow>
                       (let d = (if vc_affected_disagreement c \<noteq> [] then jset ''affected_version_range'' JNull affected else affected)
                        in if vc_fixed_disagreement c \<noteq> [] then jset ''fixed_version_range'' JNull d else d))
                 in bind_result (req affected ''affected_version_range'') (\<lambda>ar.
                    bind_result (req affected ''fixed_version_range'') (\<lambda>fr.
                      Inr (if falsy ar \<and> falsy fr then None else Some affected)))))))"

fun merge_affected_packages ::
    "('r, 'v, 'd) ext \<Rightarrow> (pyval \<Rightarrow> int) \<Rightarrow> (string \<times> string \<times> nat) list \<Rightarrow> (string \<times> version_conflict) list \<Rightarrow>
       string \<Rightarrow> json list \<Rightarrow> item_list \<Rightarrow> item_list result" where
  "merge_affected_packages X hash best conflicts avid [] x = Inr x"
| "merge_affected_packages X hash best conflicts avid (d # ds) x =
     (case merge_affected_package X best conflicts avid d of Inl e \<Rightarrow> Inl e
      | Inr None \<Rightarrow> merge_affected_packages X hash best conflicts avid ds x
      | Inr (Some item) \<Rightarrow> bind_result (update_advisory_item hash item x)
          (merge_affected_packages X hash best conflicts avid ds))"

record merge_state =
  me_aliases :: "string list"
  me_weaknesses :: "int list"
  me_summaries :: "(string \<times> string \<times> string list) list"
  me_references :: item_list
  me_patches :: item_list
  me_severities :: item_list
  me_affected :: item_list

definition add_summary :: "string \<Rightarrow> string \<Rightarrow> (string \<times> string \<times> string list) list \<Rightarrow> (string \<times> string \<times> string list) list" where
  "add_summary avid summary d =
     (if summary = [] then d
      else (let key = normalize_text (Some summary); (first, avids) = dict_get d key (summary, [])
            in AList.update key (first, avids @ [avid]) d))"

definition merge_one ::
    "('r, 'v, 'd) ext \<Rightarrow> (pyval \<Rightarrow> int) \<Rightarrow> (string \<times> string \<times> nat) list \<Rightarrow> (string \<times> version_conflict) list \<Rightarrow>
       ('r, 'd) todo_adv \<Rightarrow> merge_state \<Rightarrow> merge_state result" where
  "merge_one X hash best conflicts a m =
     (let d = ta_data a
      in case ad_summary d of None \<Rightarrow> Inl AttributeError
         | Some summary \<Rightarrow>
             bind_result (update_items hash (map reference_to_dict (ad_references d)) (me_references m)) (\<lambda>refs.
             bind_result (update_items hash (map patch_to_dict (ad_patches d)) (me_patches m)) (\<lambda>pats.
             bind_result (update_items hash (map (severity_to_dict X) (ad_severities d)) (me_severities m)) (\<lambda>sevs.
             bind_result (merge_affected_packages X hash best conflicts (ta_avid a)
                 (map (affected_to_dict X) (ad_affected d)) (me_affected m)) (\<lambda>affs.
             Inr \<lparr>me_aliases = set_update (me_aliases m) (ad_aliases d),
                  me_weaknesses = set_update (me_weaknesses m) (ad_weaknesses d),
                  me_summaries = add_summary (ta_avid a) (strip summary) (me_summaries m),
                  me_references = refs, me_patches = pats, me_severities = sevs, me_affected = affs\<rparr>)))))"

fun merge_all ::
    "('r, 'v, 'd) ext \<Rightarrow> (pyval \<Rightarrow> int) \<Rightarrow> (string \<times> string \<times> nat) list \<Rightarrow> (string \<times> version_conflict) list \<Rightarrow>
       ('r, 'd) todo_adv list \<Rightarrow> merge_state \<Rightarrow> merge_state result" where
  "merge_all X hash best conflicts [] m = Inr m"
| "merge_all X hash best conflicts (a # as) m =
     bind_result (merge_one X hash best conflicts a m) (merge_all X hash best conflicts as)"

definition empty_merge :: merge_state where
  "empty_merge = \<lparr>me_aliases = [], me_weaknesses = [], me_summaries = [], me_references = ([], []),
     me_patches = ([], []), me_severities = ([], []), me_affected = ([], [])\<rparr>"

definition merged_summary :: "(string \<times> string \<times> string list) list \<Rightarrow> string" where
  "merged_summary d = join_with [newline, newline]
     (map (\<lambda>(summary, avids). ''['' @ join_with '', '' (sort avids) @ '']: '' @ summary) (dict_values d))"

definition merged_dict :: "merge_state \<Rightarrow> json" where
  "merged_dict m = JObj [(''aliases'', jstrs (me_aliases m)), (''summary'', JStr (merged_summary (me_summaries m))),
     (''affected_packages'', JArr (snd (me_affected m))), (''references'', JArr (snd (me_references m))),
     (''patches'', JArr (snd (me_patches m))), (''severities'', JArr (snd (me_severities m))),
     (''weaknesses'', JArr (map JInt (me_weaknesses m))),
     (''advisory_id'', JStr ''PLACEHOLDER_PARTIAL_CURATION_AVID''), (''date_published'', JStr [])]"

definition merged_advisory ::
    "('r, 'v, 'd) ext \<Rightarrow> (pyval \<Rightarrow> int) \<Rightarrow> ('r, 'd) todo_adv list \<Rightarrow> (string \<times> string \<times> nat) list \<Rightarrow>
       (string \<times> version_conflict) list \<Rightarrow> json result" where
  "merged_advisory X hash advs best conflicts =
     bind_result (merge_all X hash best conflicts advs empty_merge) (\<lambda>m.
     bind_result (advisory_from_dict X (merged_dict m)) (\<lambda>(a, aps).
       if None \<in> set aps then Inl AttributeError else Inr (advisory_to_dict X a)))"

section \<open>The check of the packages of one alias\<close>

text \<open>The package URLs whose versions the advisories disagree on.\<close>

fun conflicting_purls ::
    "('r, 'v::linorder, 'd) todo_env \<Rightarrow> (string \<times> ('r, 'd) todo_adv) list \<Rightarrow> (string \<times> (string \<times> versions_entry) list) list \<Rightarrow>
       (string \<times> (string \<times> versions_entry) list \<times> version_conflict \<times> pyval) list result" where
  "conflicting_purls E advs [] = Inr []"
| "conflicting_purls E advs ((p, m) # rest) =
     (case compute_version_range_disagreement m of Inl e \<Rightarrow> Inl e
      | Inr c \<Rightarrow>
          if vc_fixed_disagreement c = [] \<and> vc_affected_disagreement c = [] then conflicting_purls E advs rest
          else bind_result (get_grouped_curation_advisories_for_dashboard_ui E p m c advs) (\<lambda>item.
            map_sum id (Cons (p, m, c, item)) (conflicting_purls E advs rest)))"

definition packages_issue :: "(string \<times> (string \<times> versions_entry) list \<times> version_conflict \<times> pyval) list \<Rightarrow> string" where
  "packages_issue cs =
     (if \<not> list_ex (\<lambda>(_, _, c, _). vc_fixed_disagreement c \<noteq> []) cs then ''CONFLICTING_AFFECTED_PACKAGES''
      else if \<not> list_ex (\<lambda>(_, _, c, _). vc_affected_disagreement c \<noteq> []) cs then ''CONFLICTING_FIXED_BY_PACKAGES''
      else ''CONFLICTING_AFFECTED_AND_FIXED_BY_PACKAGES'')"

definition check_conflicting_affected_and_fixed_by_packages_for_alias ::
    "('r, 'v::linorder, 'd::linorder) todo_env \<Rightarrow> string \<Rightarrow> (string \<times> (string \<times> versions_entry) list) list \<Rightarrow>
       (string \<times> ('r, 'd) todo_adv) list \<Rightarrow> 'd todo_acc \<Rightarrow> ((nat \<times> nat) \<times> 'd todo_acc) result" where
  "check_conflicting_affected_and_fixed_by_packages_for_alias E alias pam advs acc =
     (case conflicting_purls E advs pam of Inl e \<Rightarrow> Inl e
      | Inr cs \<Rightarrow>
          if cs = [] then Inr ((0, 0), acc)
          else bind_result (map_result (dict_lookup advs) (dedupe (concat (map (\<lambda>(_, m, _). dict_keys m) cs)))) (\<lambda>conflicting.
            (let best = get_advisory_with_best_impact_for_purls pam (map ta_avid conflicting);
                 details = VDict (map (\<lambda>(p, m, c, _). (VStr p, conflict_dict (dict_keys m) c)) cs)
             in bind_result (merged_advisory (te_ext E) (te_hash E) conflicting best (map (\<lambda>(p, _, c, _). (p, c)) cs)) (\<lambda>merged.
                bind_result (canonical_value details) (\<lambda>canonical.
                  Inr (raise_todo E alias (packages_issue cs)
                    (obj [(''alias'', VStr alias), (''conflict_checksum'', VStr (te_sha256 E canonical)),
                          (''conflict_details'', details), (''partial_curation_advisory'', py_of_json merged),
                          (''curation_items'', VList (map (\<lambda>(_, _, _, i). i) cs))])
                    conflicting (length cs) acc))))))"

text \<open>
  One alias of \<open>detect_conflicting_package_versions\<close>: only package URLs that two advisories name are
  compared, and nothing is while one of them is not unfurled.
\<close>

definition packages_alias ::
    "('r, 'v::linorder, 'd::linorder) todo_env \<Rightarrow> string \<Rightarrow> ('r, 'd) todo_adv list \<Rightarrow> 'd todo_acc \<Rightarrow>
       'd todo_acc option result" where
  "packages_alias E alias advs acc =
     (if length advs < 2 then Inr None
      else (let m = purl_maps_of advs;
                comparable = filter (\<lambda>(p, v). 2 \<le> length v) (pm_purl_advs m);
                uncomparable = map fst (filter (\<lambda>(p, v). length v < 2) (pm_purl_advs m));
                avids = map fst (filter (\<lambda>(avid, ps). set_minus ps uncomparable \<noteq> []) (pm_adv_purls m));
                group = fold (\<lambda>a. AList.update (ta_avid a) a) (filter (\<lambda>a. ta_avid a \<in> set avids) advs) []
            in if list_ex (\<lambda>p. p \<in> set (map fst comparable)) (pm_not_unfurled m)
               then map_sum id (\<lambda>_. None) (map_result (lib_from_string (purls (te_ext E))) (pm_not_unfurled m))
               else if \<not> length group > 1 then Inr None
               else map_sum id (\<lambda>r. Some (snd r))
                 (check_conflicting_affected_and_fixed_by_packages_for_alias E alias comparable group acc)))"

end
