(* ===== verification/ToDoWeakness.thy ===== *)
theory ToDoWeakness
  imports ToDo
begin

text \<open>
  Facts about the checks of \<open>ToDo\<close>: when values have a canonical form, the lists that stand for Python
  sets, and the check of weaknesses (a to-do exactly for different sets of CWEs).
\<close>

section \<open>When a canonical form exists\<close>

definition can_compare :: "pyval \<Rightarrow> pyval \<Rightarrow> bool" where
  "can_compare x y \<longleftrightarrow> x = y \<or> py_lt x y \<noteq> None"

lemma py_sorted_ok:
  "(\<And>x y. x \<in> set xs \<Longrightarrow> y \<in> set xs \<Longrightarrow> can_compare x y) \<Longrightarrow> py_sorted xs = Inr (foldr py_insort xs [])"
  by (auto simp: py_sorted_def can_compare_def list_all_iff)

text \<open>Members of a dictionary are compared by their keys.\<close>

lemma canonical_dict_ok:
  assumes "distinct (map fst ms)" "\<And>k v. (k, v) \<in> set ms \<Longrightarrow> \<exists>c. canonical_value v = Inr c"
      "\<And>j k. j \<in> fst ` set ms \<Longrightarrow> k \<in> fst ` set ms \<Longrightarrow> can_compare j k"
  shows "\<exists>c. canonical_value (VDict ms) = Inr c"
proof -
  let ?f = "\<lambda>(k, v). VList [k, projr (canonical_value v)]"
  have "map_result (\<lambda>(k, v). map_sum id (\<lambda>c. VList [k, c]) (canonical_value v)) ms = Inr (map ?f ms)"
    using assms(2) by (intro map_result_all_Inr) force
  moreover have "can_compare x y" if "x \<in> set (map ?f ms)" "y \<in> set (map ?f ms)" for x y
  proof -
    from that obtain j v k w where e: "(j, v) \<in> set ms" "(k, w) \<in> set ms"
        "x = VList [j, projr (canonical_value v)]" "y = VList [k, projr (canonical_value w)]" by auto
    show ?thesis
    proof (cases "j = k")
      case True
      with e assms(1) have "v = w" by (meson eq_key_imp_eq_value)
      with True e show ?thesis by (simp add: can_compare_def)
    next
      case False
      have "can_compare j k" using assms(3) e(1,2) by force
      with False e(3,4) show ?thesis by (simp add: can_compare_def)
    qed
  qed
  then have "py_sorted (map ?f ms) = Inr (foldr py_insort (map ?f ms) [])" by (rule py_sorted_ok)
  ultimately show ?thesis by simp
qed

lemma can_compare_VStr [simp]: "can_compare (VStr a) (VStr b)"
  by (simp add: can_compare_def)

lemma can_compare_VInt [simp]: "can_compare (VInt a) (VInt b)"
  by (simp add: can_compare_def)

lemma canonical_obj_ok:
  assumes "distinct (map fst ms)" "\<And>k v. (k, v) \<in> set ms \<Longrightarrow> \<exists>c. canonical_value v = Inr c"
  shows "\<exists>c. canonical_value (obj ms) = Inr c"
  unfolding obj_def
proof (rule canonical_dict_ok)
  show "distinct (map fst (map (\<lambda>(k, v). (VStr k, v)) ms))"
    using assms(1) by (simp add: comp_def case_prod_unfold distinct_map inj_on_def)
qed (use assms(2) in auto)

text \<open>A list of values whose first difference is in strings or numbers.\<close>

lemma canonical_list_ok:
  assumes "\<And>v. v \<in> set vs \<Longrightarrow> canonical_value v = Inr (c v)"
      "\<And>v w. v \<in> set vs \<Longrightarrow> w \<in> set vs \<Longrightarrow> can_compare (c v) (c w)"
  shows "\<exists>r. canonical_value (VList vs) = Inr r"
proof -
  have "map_result canonical_value vs = Inr (map c vs)" using assms(1) by (intro map_result_all_Inr) auto
  moreover have "py_sorted (map c vs) = Inr (foldr py_insort (map c vs) [])"
    using assms(2) by (intro py_sorted_ok) auto
  ultimately show ?thesis by simp
qed

lemma py_sorted_single [simp]: "py_sorted [c] = Inr [c]"
  by (simp add: py_sorted_def)

lemma canonical_single [simp]: "canonical_value (VList [v]) = map_sum id (\<lambda>c. VList [c]) (canonical_value v)"
  by (cases "canonical_value v") (simp_all add: py_sorted_def)

lemma py_lt_ints: "py_lt_list (map VInt xs) (map VInt ys) \<noteq> None"
proof (induction xs arbitrary: ys)
  case (Cons x xs)
  then show ?case by (cases ys) auto
qed simp

lemma py_lt_strs: "py_lt_list (map VStr xs) (map VStr ys) \<noteq> None"
proof (induction xs arbitrary: ys)
  case (Cons x xs)
  then show ?case by (cases ys) auto
qed simp

lemma comparable_ints [simp]: "can_compare (ints xs) (ints ys)"
  using py_lt_ints by (auto simp: can_compare_def ints_def)

lemma comparable_strs [simp]: "can_compare (strs xs) (strs ys)"
  using py_lt_strs by (auto simp: can_compare_def strs_def)

lemma comparable_pair: "j = k \<Longrightarrow> can_compare v w \<Longrightarrow> can_compare (VList [j, v]) (VList [k, w])"
  by (auto simp: can_compare_def)

lemma comparable_first:
  "x \<noteq> y \<Longrightarrow> can_compare x y \<Longrightarrow> can_compare (VList (x # xs)) (VList (y # ys))"
  by (auto simp: can_compare_def)

section \<open>Sets as lists\<close>

lemma distinct_set_update [simp]: "distinct (set_update s xs)"
  by (simp add: set_update_def)

lemma set_union_all [simp]: "set (union_all ss) = \<Union> (set ` set ss)"
  by (simp add: union_all_def)

lemma inter_all_set: "inter_all ss = Inr c \<Longrightarrow> set c = \<Inter> (set ` set ss) \<and> ss \<noteq> []"
  by (cases ss) (auto simp: list_all_iff)

lemma inter_all_ok: "ss \<noteq> [] \<Longrightarrow> \<exists>c. inter_all ss = Inr c \<and> set c = \<Inter> (set ` set ss)"
  by (cases ss) (auto simp: list_all_iff)

lemma set_set_minus [simp]: "set (set_minus s t) = set s - set t"
  by (auto simp: set_minus_def)

text \<open>The disagreement is empty when all the sets are the same, and only then.\<close>

lemma no_disagreement_iff:
  assumes "inter_all ss = Inr c"
  shows "set_minus (union_all ss) c = [] \<longleftrightarrow> (\<forall>s\<in>set ss. \<forall>t\<in>set ss. set s = set t)"
proof -
  have c: "set c = \<Inter> (set ` set ss)" "ss \<noteq> []" using inter_all_set [OF assms] by auto
  have "set_minus (union_all ss) c = [] \<longleftrightarrow> \<Union> (set ` set ss) \<subseteq> \<Inter> (set ` set ss)"
    using c(1) by (auto simp flip: set_empty)
  also have "\<dots> \<longleftrightarrow> (\<forall>s\<in>set ss. \<forall>t\<in>set ss. set s = set t)" by blast
  finally show ?thesis .
qed

section \<open>Weaknesses: a to-do exactly for different sets of CWEs\<close>

definition known_cwes :: "('r, 'v, 'd) todo_env \<Rightarrow> ('r, 'd) todo_adv \<Rightarrow> bool" where
  "known_cwes E a \<longleftrightarrow> list_all (\<lambda>w. te_cwe E w \<noteq> None) (ta_weaknesses a)"

definition abstracted :: "('r, 'v, 'd) todo_env \<Rightarrow> int \<Rightarrow> bool" where
  "abstracted E w \<longleftrightarrow> (case te_cwe E w of Some (_, _, t) \<Rightarrow> t \<noteq> [] | None \<Rightarrow> False)"

definition reported_cwes :: "('r, 'v, 'd) todo_env \<Rightarrow> ('r, 'd) todo_adv \<Rightarrow> int list" where
  "reported_cwes E a = sorted_list_of_set (set (filter (abstracted E) (ta_weaknesses a)))"

lemma set_reported [simp]: "set (reported_cwes E a) = {w \<in> set (ta_weaknesses a). abstracted E w}"
  by (simp add: reported_cwes_def)

lemma collect_cwes_ok:
  "list_all (\<lambda>w. te_cwe E w \<noteq> None) ws \<Longrightarrow> distinct cs \<Longrightarrow>
   \<exists>d' cs'. collect_cwes E ws (d, cs) = Inr (d', cs') \<and> distinct cs' \<and> set cs' = set cs \<union> {w \<in> set ws. abstracted E w}"
proof (induction ws arbitrary: d cs)
  case (Cons w ws)
  then obtain n t s where w: "te_cwe E w = Some (n, t, s)" by auto
  show ?case
  proof (cases "s = []")
    case True
    with w have "\<not> abstracted E w" by (simp add: abstracted_def)
    then have "{x \<in> set (w # ws). abstracted E x} = {x \<in> set ws. abstracted E x}" by auto
    with True Cons.prems Cons.IH [of cs d] w show ?thesis by simp
  next
    case False
    have "\<exists>d' cs'. collect_cwes E ws (AList.update w (weakness_dict w n t) d, set_update cs [w]) = Inr (d', cs') \<and>
        distinct cs' \<and> set cs' = set (set_update cs [w]) \<union> {w \<in> set ws. abstracted E w}"
      using Cons by (intro Cons.IH) auto
    then obtain d' cs' where "collect_cwes E ws (AList.update w (weakness_dict w n t) d, set_update cs [w]) = Inr (d', cs')"
        "distinct cs'" "set cs' = set (set_update cs [w]) \<union> {w \<in> set ws. abstracted E w}" by blast
    moreover have "{x \<in> set (w # ws). abstracted E x} = insert w {x \<in> set ws. abstracted E x}"
      using w False by (auto simp: abstracted_def)
    ultimately show ?thesis using w False
      by (intro exI [of _ d'] exI [of _ cs']) (simp add: set_update_def)
  qed
qed simp

lemma collect_cwes_unknown: "\<not> list_all (\<lambda>w. te_cwe E w \<noteq> None) ws \<Longrightarrow> collect_cwes E ws x = Inl AttributeError"
proof (induction ws arbitrary: x)
  case (Cons w ws)
  then show ?case by (cases x; cases "te_cwe E w") auto
qed simp

lemma sorted_list_of_distinct: "distinct xs \<Longrightarrow> sort xs = sorted_list_of_set (set xs)"
  by (metis distinct_remdups_id sorted_list_of_set_sort_remdups)

text \<open>The groups of \<open>group_cwes\<close> are those of \<open>group_by\<close> under the digest of the CWEs.\<close>

definition cwe_key :: "('r, 'v, 'd) todo_env \<Rightarrow> ('r, 'd) todo_adv \<Rightarrow> string" where
  "cwe_key E a = te_sha256 E (ints (reported_cwes E a))"

definition cwe_group_of :: "('r, 'v, 'd) todo_env \<Rightarrow> ('r, 'd) todo_adv list \<Rightarrow> cwe_group" where
  "cwe_group_of E as = \<lparr>cg_cwes = (if as = [] then [] else reported_cwes E (last as)),
     cg_avids = map (\<lambda>a. (ta_avid a, ta_precedence a)) as\<rparr>"

lemma map_snd_update: "map (\<lambda>(k, x). (k, f x)) (AList.update k v d) = AList.update k (f v) (map (\<lambda>(k, x). (k, f x)) d)"
  by (induction d) auto

lemma dict_get_map_snd: "dict_get (map (\<lambda>(k, x). (k, f x)) d) k (f z) = f (dict_get d k z)"
  by (induction d) (auto simp: dict_get_def)

lemma group_cwes_ok:
  "list_all (known_cwes E) as \<Longrightarrow>
   \<exists>d'. group_cwes E as (d, map (\<lambda>(k, x). (k, cwe_group_of E x)) g, av) =
     Inr (d', map (\<lambda>(k, x). (k, cwe_group_of E x)) (fold (\<lambda>a. dd_append (cwe_key E a) a) as g),
          fold (\<lambda>a. AList.update (ta_avid a) a) as av)"
proof (induction "as" arbitrary: d g av)
  case (Cons a "as")
  from Cons.prems obtain d1 cs where c: "collect_cwes E (ta_weaknesses a) (d, []) = Inr (d1, cs)" "distinct cs"
      "set cs = {w \<in> set (ta_weaknesses a). abstracted E w}"
    using collect_cwes_ok [of E "ta_weaknesses a" "[]" d] by (auto simp: known_cwes_def)
  then have s: "sort cs = reported_cwes E a"
    by (simp add: sorted_list_of_distinct reported_cwes_def)
  have e: "\<lparr>cg_cwes = [], cg_avids = []\<rparr> = cwe_group_of E []" by (simp add: cwe_group_of_def)
  have upd: "AList.update (cwe_key E a) \<lparr>cg_cwes = reported_cwes E a,
        cg_avids = cg_avids (dict_get (map (\<lambda>(k, x). (k, cwe_group_of E x)) g) (cwe_key E a) \<lparr>cg_cwes = [], cg_avids = []\<rparr>) @
          [(ta_avid a, ta_precedence a)]\<rparr> (map (\<lambda>(k, x). (k, cwe_group_of E x)) g) =
      map (\<lambda>(k, x). (k, cwe_group_of E x)) (dd_append (cwe_key E a) a g)"
    unfolding dd_append_def map_snd_update e dict_get_map_snd by (simp add: cwe_group_of_def)
  have run: "group_cwes E (a # as) (d, map (\<lambda>(k, x). (k, cwe_group_of E x)) g, av) =
      group_cwes E as (d1, map (\<lambda>(k, x). (k, cwe_group_of E x)) (dd_append (cwe_key E a) a g), AList.update (ta_avid a) a av)"
    unfolding upd [symmetric] by (simp add: c(1) s Let_def cwe_key_def)
  have "\<exists>d'. group_cwes E as (d1, map (\<lambda>(k, x). (k, cwe_group_of E x)) (dd_append (cwe_key E a) a g), AList.update (ta_avid a) a av) =
     Inr (d', map (\<lambda>(k, x). (k, cwe_group_of E x)) (fold (\<lambda>a. dd_append (cwe_key E a) a) as (dd_append (cwe_key E a) a g)),
          fold (\<lambda>a. AList.update (ta_avid a) a) as (AList.update (ta_avid a) a av))"
    using Cons.prems by (intro Cons.IH) simp
  then show ?case unfolding run by simp
qed simp

lemma group_cwes_unknown:
  "\<not> list_all (known_cwes E) as \<Longrightarrow> group_cwes E as x = Inl AttributeError"
proof (induction "as" arbitrary: x)
  case (Cons a "as")
  obtain d g av where x: "x = (d, g, av)" by (cases x) auto
  show ?case
  proof (cases "known_cwes E a")
    case True
    from True obtain d1 cs where "collect_cwes E (ta_weaknesses a) (d, []) = Inr (d1, cs)"
      using collect_cwes_ok [of E "ta_weaknesses a" "[]" d] by (auto simp: known_cwes_def)
    with True Cons show ?thesis by (simp add: x Let_def)
  next
    case False
    then show ?thesis by (simp add: x collect_cwes_unknown known_cwes_def)
  qed
qed simp

lemma canonical_group:
  assumes "canonical_value v = Inr cv" "canonical_value w = Inr cw"
  shows "canonical_value (obj [(''cwes'', ints xs), (''primary'', v), (''secondaries'', w)]) =
    Inr (VList [VList [VStr ''cwes'', ints (sort xs)], VList [VStr ''primary'', cv], VList [VStr ''secondaries'', cw]])"
proof -
  have lt: "''cwes'' < ''primary''" "''cwes'' < ''secondaries''" "''primary'' < ''secondaries''" by code_simp+
  then have "\<not> ''primary'' < ''cwes''" "\<not> ''secondaries'' < ''cwes''" "\<not> ''secondaries'' < ''primary''" by (simp_all add: not_less)
  with lt assms show ?thesis by (auto simp: obj_def py_sorted_def)
qed

lemma canonical_uid: "canonical_value (advisory_uid a) = Inr (VList [VList [VStr ''advisory_uid'', VStr a]])"
  by (simp add: advisory_uid_def obj_def py_sorted_def)

lemma canonical_uids: "\<exists>c. canonical_value (VList (map advisory_uid as)) = Inr c"
  by (rule canonical_list_ok [where c = "\<lambda>v. projr (canonical_value v)"])
    (auto simp: canonical_uid can_compare_def)

definition ranked_dict :: "int list \<Rightarrow> string list \<Rightarrow> pyval" where
  "ranked_dict cwes avids = obj [(''cwes'', ints cwes), (''primary'', advisory_uid (hd avids)),
     (''secondaries'', VList (map advisory_uid (tl avids)))]"

definition by_rank :: "('r, 'd) todo_adv list \<Rightarrow> string list" where
  "by_rank as = map fst (sorted_desc (\<lambda>(_, p). case p of None \<Rightarrow> 0 | Some n \<Rightarrow> n) (map (\<lambda>a. (ta_avid a, ta_precedence a)) as))"

lemma rank_group_ok:
  assumes "as \<noteq> []" "\<forall>a\<in>set as. ta_precedence a \<noteq> None"
  shows "rank_group (cwe_group_of E as) = Inr (reported_cwes E (last as), ranked_dict (reported_cwes E (last as)) (by_rank as))"
proof -
  have bp: "by_precedence snd (cg_avids (cwe_group_of E as)) =
      Inr (sorted_desc (\<lambda>(_, p). case p of None \<Rightarrow> 0 | Some n \<Rightarrow> n) (map (\<lambda>a. (ta_avid a, ta_precedence a)) as))"
    using assms(2) by (auto simp: by_precedence_def cwe_group_of_def list_ex_iff case_prod_unfold)
  have "length (by_rank as) = length as" by (simp add: by_rank_def)
  with assms(1) have "by_rank as \<noteq> []" by (metis length_0_conv)
  then obtain p rest where pr: "by_rank as = p # rest" by (cases "by_rank as") auto
  show ?thesis
    using pr assms(1) unfolding rank_group_def bp by (simp add: by_rank_def ranked_dict_def cwe_group_of_def)
qed

lemma canonical_ranked:
  "\<exists>c d. canonical_value (ranked_dict cwes avids) = Inr (VList (VList [VStr ''cwes'', ints (sort cwes)] # c # [d]))"
proof -
  obtain c where c: "canonical_value (VList (map advisory_uid (tl avids))) = Inr c" using canonical_uids by blast
  show ?thesis unfolding ranked_dict_def using canonical_group [OF canonical_uid c] by blast
qed

text \<open>The item of the to-do, and that it has a canonical form.\<close>

lemma canonical_ranked_list:
  assumes "\<And>x y. x \<in> set vs \<Longrightarrow> y \<in> set vs \<Longrightarrow> sort (f x) = sort (f y) \<Longrightarrow> x = y"
  shows "\<exists>c. canonical_value (VList (map (\<lambda>x. ranked_dict (f x) (g x)) vs)) = Inr c"
proof (rule canonical_list_ok [where c = "\<lambda>v. projr (canonical_value v)"])
  fix v assume "v \<in> set (map (\<lambda>x. ranked_dict (f x) (g x)) vs)"
  then obtain x where v: "v = ranked_dict (f x) (g x)" by auto
  obtain c d where "canonical_value v = Inr (VList (VList [VStr ''cwes'', ints (sort (f x))] # c # [d]))"
    unfolding v using canonical_ranked by blast
  then show "canonical_value v = Inr (projr (canonical_value v))" by simp
next
  fix v w assume vw: "v \<in> set (map (\<lambda>x. ranked_dict (f x) (g x)) vs)" "w \<in> set (map (\<lambda>x. ranked_dict (f x) (g x)) vs)"
  then obtain x y where xy: "x \<in> set vs" "v = ranked_dict (f x) (g x)" "y \<in> set vs" "w = ranked_dict (f y) (g y)" by auto
  obtain c d where v: "canonical_value v = Inr (VList (VList [VStr ''cwes'', ints (sort (f x))] # c # [d]))"
    unfolding xy using canonical_ranked by blast
  obtain c' d' where w: "canonical_value w = Inr (VList (VList [VStr ''cwes'', ints (sort (f y))] # c' # [d']))"
    unfolding xy using canonical_ranked by blast
  show "can_compare (projr (canonical_value v)) (projr (canonical_value w))"
  proof (cases "sort (f x) = sort (f y)")
    case True
    then have "v = w" using assms xy by blast
    then show ?thesis by (simp add: can_compare_def)
  next
    case False
    then show ?thesis unfolding v w sum.sel
      by (intro comparable_first comparable_pair) simp_all
  qed
qed

definition cwe_conflict :: "('r, 'v, 'd) todo_env \<Rightarrow> ('r, 'd) todo_adv list \<Rightarrow> bool" where
  "cwe_conflict E advs \<longleftrightarrow> list_ex (\<lambda>a. list_ex (\<lambda>b. set (reported_cwes E a) \<noteq> set (reported_cwes E b)) advs) advs"

fun pget :: "pyval \<Rightarrow> string \<Rightarrow> pyval option" where
  "pget (VDict ms) k = map_of ms (VStr k)"
| "pget _ k = None"

lemma pget_obj [simp]: "pget (obj ms) k = map_of ms k"
  by (induction ms) (auto simp: obj_def)

lemma reported_eq_iff: "reported_cwes E a = reported_cwes E b \<longleftrightarrow> set (reported_cwes E a) = set (reported_cwes E b)"
  unfolding reported_cwes_def by (metis List.finite_set set_sorted_list_of_set)

text \<open>Different sets of CWEs of these advisories have different digests.\<close>

definition no_collision :: "('r, 'v, 'd) todo_env \<Rightarrow> ('r, 'd) todo_adv list \<Rightarrow> bool" where
  "no_collision E advs \<longleftrightarrow>
     list_all (\<lambda>a. list_all (\<lambda>b. cwe_key E a \<noteq> cwe_key E b \<or> reported_cwes E a = reported_cwes E b) advs) advs"

lemma cwe_key_eq_iff:
  "no_collision E advs \<Longrightarrow> a \<in> set advs \<Longrightarrow> b \<in> set advs \<Longrightarrow>
   cwe_key E a = cwe_key E b \<longleftrightarrow> reported_cwes E a = reported_cwes E b"
  by (auto simp: cwe_key_def no_collision_def list_all_iff)

lemma length_group_by: "length (group_by key xs) = card (key ` set xs)"
proof -
  have "k \<in> set (map fst (group_by key xs)) \<longleftrightarrow> k \<in> key ` set xs" for k
    using dict_keys_map_of [of k "group_by key xs"] by (simp add: dict_keys_def group_by_lookup)
  then have "set (map fst (group_by key xs)) = key ` set xs" by blast
  then show ?thesis using distinct_card [OF distinct_keys_group_by, of key xs] by simp
qed

lemma card_image_less_2: "finite A \<Longrightarrow> card (f ` A) < 2 \<longleftrightarrow> (\<forall>a\<in>A. \<forall>b\<in>A. f a = f b)"
proof
  assume f: "finite A" and c: "card (f ` A) < 2"
  show "\<forall>a\<in>A. \<forall>b\<in>A. f a = f b"
  proof (intro ballI, rule ccontr)
    fix a b assume "a \<in> A" "b \<in> A" "f a \<noteq> f b"
    then have "card {f a, f b} \<le> card (f ` A)" using f by (intro card_mono) auto
    with \<open>f a \<noteq> f b\<close> c show False by simp
  qed
next
  assume f: "finite A" and "\<forall>a\<in>A. \<forall>b\<in>A. f a = f b"
  then have "\<exists>y. f ` A \<subseteq> {y}" by blast
  then obtain y where "f ` A \<subseteq> {y}" ..
  then have "card (f ` A) \<le> card {y}" by (intro card_mono) auto
  then show "card (f ` A) < 2" by simp
qed

lemma group_values_reported:
  assumes "no_collision E advs"
  shows "(\<lambda>as. reported_cwes E (last as)) ` set (dict_values (group_by (cwe_key E) advs)) = reported_cwes E ` set advs"
proof -
  have last: "reported_cwes E (last (filter (\<lambda>y. cwe_key E y = cwe_key E x) advs)) = reported_cwes E x" if "x \<in> set advs" for x
  proof -
    have "filter (\<lambda>y. cwe_key E y = cwe_key E x) advs \<noteq> []" using that by (auto simp: filter_empty_conv)
    then have "last (filter (\<lambda>y. cwe_key E y = cwe_key E x) advs) \<in> set (filter (\<lambda>y. cwe_key E y = cwe_key E x) advs)"
      by (rule last_in_set)
    then have m: "last (filter (\<lambda>y. cwe_key E y = cwe_key E x) advs) \<in> set advs"
        "cwe_key E (last (filter (\<lambda>y. cwe_key E y = cwe_key E x) advs)) = cwe_key E x" by simp_all
    show ?thesis using m(2) unfolding cwe_key_eq_iff [OF assms m(1) that] .
  qed
  show ?thesis
  proof (intro set_eqI iffI)
    fix l assume "l \<in> (\<lambda>as. reported_cwes E (last as)) ` set (dict_values (group_by (cwe_key E) advs))"
    then obtain x where "x \<in> set advs" "l = reported_cwes E (last (filter (\<lambda>y. cwe_key E y = cwe_key E x) advs))"
      by (auto simp: group_by_values)
    with last show "l \<in> reported_cwes E ` set advs" by simp
  next
    fix l assume "l \<in> reported_cwes E ` set advs"
    then obtain x where x: "x \<in> set advs" "l = reported_cwes E x" by auto
    then have "filter (\<lambda>y. cwe_key E y = cwe_key E x) advs \<in> set (dict_values (group_by (cwe_key E) advs))"
      by (auto simp: group_by_values)
    moreover have "l = reported_cwes E (last (filter (\<lambda>y. cwe_key E y = cwe_key E x) advs))" using last x by simp
    ultimately show "l \<in> (\<lambda>as. reported_cwes E (last as)) ` set (dict_values (group_by (cwe_key E) advs))" by blast
  qed
qed

lemma few_groups_iff:
  assumes "no_collision E advs"
  shows "length (group_by (cwe_key E) advs) < 2 \<longleftrightarrow> \<not> cwe_conflict E advs"
proof -
  have "length (group_by (cwe_key E) advs) < 2 \<longleftrightarrow> (\<forall>a\<in>set advs. \<forall>b\<in>set advs. cwe_key E a = cwe_key E b)"
    unfolding length_group_by by (rule card_image_less_2) simp
  also have "\<dots> \<longleftrightarrow> (\<forall>a\<in>set advs. \<forall>b\<in>set advs. set (reported_cwes E a) = set (reported_cwes E b))"
    using cwe_key_eq_iff [OF assms] by (simp only: reported_eq_iff cong: ball_cong)
  also have "\<dots> \<longleftrightarrow> \<not> cwe_conflict E advs"
    by (auto simp: cwe_conflict_def list_ex_iff simp del: set_reported)
  finally show ?thesis .
qed

lemma group_values_inj:
  assumes "as \<in> set (dict_values (group_by (cwe_key E) advs))"
      "bs \<in> set (dict_values (group_by (cwe_key E) advs))" "reported_cwes E (last as) = reported_cwes E (last bs)"
  shows "as = bs"
proof -
  obtain x y where xy: "as = filter (\<lambda>z. cwe_key E z = cwe_key E x) advs" "bs = filter (\<lambda>z. cwe_key E z = cwe_key E y) advs"
    using assms(1,2) by (auto simp: group_by_values)
  have "last as \<in> set as" "last bs \<in> set bs"
    using group_by_values_nonempty [OF assms(1)] group_by_values_nonempty [OF assms(2)] by simp_all
  then have "cwe_key E (last as) = cwe_key E x" "cwe_key E (last bs) = cwe_key E y" by (simp_all add: xy)
  moreover have "cwe_key E (last as) = cwe_key E (last bs)" using assms(3) by (simp add: cwe_key_def)
  ultimately show ?thesis by (simp add: xy)
qed

lemma disagreement_reported:
  assumes "no_collision E advs" "advs \<noteq> []"
  shows "\<exists>common. compute_cwe_disagreement (map (\<lambda>as. reported_cwes E (last as)) (dict_values (group_by (cwe_key E) advs))) =
      Inr (sorted_list_of_set (\<Union>a\<in>set advs. set (reported_cwes E a)), common,
           set_minus (union_all (map (\<lambda>as. reported_cwes E (last as)) (dict_values (group_by (cwe_key E) advs)))) common) \<and>
    set common = (\<Inter>a\<in>set advs. set (reported_cwes E a)) \<and>
    (set_minus (union_all (map (\<lambda>as. reported_cwes E (last as)) (dict_values (group_by (cwe_key E) advs)))) common = []
      \<longleftrightarrow> \<not> cwe_conflict E advs)"
proof -
  obtain ss where ss: "map (\<lambda>as. reported_cwes E (last as)) (dict_values (group_by (cwe_key E) advs)) = ss" by blast
  have set_ss: "set ss = reported_cwes E ` set advs" using group_values_reported [OF assms(1)] by (simp flip: ss)
  have sets: "set ` set ss = (\<lambda>a. set (reported_cwes E a)) ` set advs" unfolding set_ss image_image ..
  have "ss \<noteq> []" using set_ss assms(2) by auto
  then obtain c where c: "inter_all ss = Inr c" "set c = \<Inter> (set ` set ss)" using inter_all_ok by blast
  have "sort (union_all ss) = sorted_list_of_set (set (union_all ss))"
    by (rule sorted_list_of_distinct) (simp add: union_all_def)
  also have "set (union_all ss) = (\<Union>a\<in>set advs. set (reported_cwes E a))"
    unfolding set_union_all sets ..
  finally have u: "sort (union_all ss) = sorted_list_of_set (\<Union>a\<in>set advs. set (reported_cwes E a))" .
  have d: "set_minus (union_all ss) c = [] \<longleftrightarrow> \<not> cwe_conflict E advs"
    unfolding no_disagreement_iff [OF c(1)] set_ss by (auto simp: cwe_conflict_def list_ex_iff simp del: set_reported)
  show ?thesis
    unfolding ss compute_cwe_disagreement_def c(1) sum.case u
    by (intro exI [of _ c] conjI refl d) (simp only: c(2) sets)
qed

text \<open>The details of the CWEs have a canonical form.\<close>

definition details_ok :: "(int \<times> pyval) list \<Rightarrow> bool" where
  "details_ok d \<longleftrightarrow> distinct (map fst d) \<and> (\<forall>x\<in>set d. \<exists>c. canonical_value (snd x) = Inr c)"

lemma canonical_weakness_dict: "\<exists>c. canonical_value (weakness_dict w n t) = Inr c"
  unfolding weakness_dict_def by (rule canonical_obj_ok) auto

lemma details_ok_update:
  assumes "details_ok d" "\<exists>c. canonical_value v = Inr c" shows "details_ok (AList.update k v d)"
  unfolding details_ok_def
proof (intro conjI ballI)
  show "distinct (map fst (AList.update k v d))" using assms(1) by (simp add: details_ok_def distinct_update)
next
  fix x assume "x \<in> set (AList.update k v d)"
  then have "x = (k, v) \<or> x \<in> set d" by (induction d) (auto split: if_splits)
  with assms show "\<exists>c. canonical_value (snd x) = Inr c" by (auto simp: details_ok_def)
qed

lemma collect_cwes_details: "collect_cwes E ws (d, cs) = Inr (d', cs') \<Longrightarrow> details_ok d \<Longrightarrow> details_ok d'"
proof (induction ws arbitrary: d cs)
  case (Cons w ws)
  show ?case
  proof (cases "te_cwe E w")
    case (Some x)
    obtain n t s where x: "x = (n, t, s)" by (cases x) auto
    show ?thesis
    proof (cases "s = []")
      case True
      with Cons Some x show ?thesis by simp
    next
      case False
      with Cons.prems(1) Some x have "collect_cwes E ws (AList.update w (weakness_dict w n t) d, set_update cs [w]) = Inr (d', cs')"
        by simp
      then show ?thesis by (rule Cons.IH) (rule details_ok_update [OF Cons.prems(2) canonical_weakness_dict])
    qed
  qed (use Cons in simp)
qed simp

lemma group_cwes_details: "group_cwes E as (d, g, av) = Inr (d', g', av') \<Longrightarrow> details_ok d \<Longrightarrow> details_ok d'"
proof (induction "as" arbitrary: d g av)
  case (Cons a "as")
  show ?case
  proof (cases "collect_cwes E (ta_weaknesses a) (d, [])")
    case (Inr x)
    obtain d1 cs where x: "x = (d1, cs)" by force
    with Inr Cons.prems(2) have "details_ok d1" using collect_cwes_details by blast
    with Cons.prems(1) Cons.IH Inr x show ?thesis by (simp add: Let_def)
  qed (use Cons in simp)
qed simp

lemma canonical_details: "details_ok d \<Longrightarrow> \<exists>c. canonical_value (VDict (map (\<lambda>(w, x). (VInt w, x)) d)) = Inr c"
  by (rule canonical_dict_ok)
    (auto simp: details_ok_def comp_def case_prod_unfold distinct_map inj_on_def)

lemma weakness_alias_same:
  assumes "no_collision E advs" "list_all (known_cwes E) advs" "\<not> cwe_conflict E advs"
  shows "weakness_alias E alias advs acc = Inr None"
proof (cases "length advs < 2")
  case False
  obtain d' where g: "group_cwes E advs ([], [], []) =
      Inr (d', map (\<lambda>(k, x). (k, cwe_group_of E x)) (group_by (cwe_key E) advs), fold (\<lambda>a. AList.update (ta_avid a) a) advs [])"
    using group_cwes_ok [OF assms(2), of "[]" "[]" "[]"] by (auto simp: group_by_def)
  have "length (group_by (cwe_key E) advs) < 2" using few_groups_iff [OF assms(1)] assms(3) by simp
  then show ?thesis using False by (simp add: weakness_alias_def g)
qed (simp add: weakness_alias_def)

lemma weakness_alias_conflict:
  assumes "no_collision E advs" "list_all (known_cwes E) advs" "\<forall>a\<in>set advs. ta_precedence a \<noteq> None"
      "distinct (map ta_avid advs)" "cwe_conflict E advs"
  shows "\<exists>item checksum common n. weakness_alias E alias advs acc =
      Inr (Some (snd (raise_todo E alias ''CONFLICTING_WEAKNESSES''
        (obj [(''alias'', VStr alias), (''conflict_checksum'', VStr checksum), (''curation_items'', VList [item])]) advs n acc))) \<and>
    pget item ''all_cwes'' = Some (ints (sorted_list_of_set (\<Union>a\<in>set advs. set (reported_cwes E a)))) \<and>
    pget item ''partial_curation'' = Some (obj [(''cwes'', ints common)]) \<and>
    set common = (\<Inter>a\<in>set advs. set (reported_cwes E a))"
proof -
  let ?G = "group_by (cwe_key E) advs"
  obtain d' where g: "group_cwes E advs ([], [], []) =
      Inr (d', map (\<lambda>(k, x). (k, cwe_group_of E x)) ?G, fold (\<lambda>a. AList.update (ta_avid a) a) advs [])"
    using group_cwes_ok [OF assms(2), of "[]" "[]" "[]"] by (auto simp: group_by_def)
  have av: "dict_values (fold (\<lambda>a. AList.update (ta_avid a) a) advs []) = advs"
    using fold_update_distinct0 [OF assms(4), of "\<lambda>a. a"] by (simp add: dict_values_def comp_def)
  have d': "details_ok d'" using group_cwes_details [OF g] by (simp add: details_ok_def)
  have two: "\<not> length ?G < 2" using few_groups_iff [OF assms(1)] assms(5) by simp
  have ne: "advs \<noteq> []" using assms(5) by (auto simp: cwe_conflict_def)
  have two': "\<not> length advs < 2"
    using two card_image_le [of "set advs" "cwe_key E"] card_length [of advs] by (simp add: length_group_by)
  let ?vals = "dict_values ?G"
  let ?rk = "map (\<lambda>as. (reported_cwes E (last as), ranked_dict (reported_cwes E (last as)) (by_rank as))) ?vals"
  have vals: "dict_values (map (\<lambda>(k, x). (k, cwe_group_of E x)) ?G) = map (cwe_group_of E) ?vals"
    by (simp add: dict_values_def comp_def case_prod_unfold)
  have sub: "as \<noteq> [] \<and> (\<forall>a\<in>set as. ta_precedence a \<noteq> None)" if "as \<in> set ?vals" for as
    using that group_by_values_nonempty [OF that] assms(3) by (auto simp: group_by_values)
  have rk: "map_result rank_group (map (cwe_group_of E) ?vals) = Inr ?rk"
    unfolding map_result_map using sub by (intro map_result_all_Inr rank_group_ok) auto
  have fsts: "map fst ?rk = map (\<lambda>as. reported_cwes E (last as)) ?vals" by simp
  obtain common dis where dis: "compute_cwe_disagreement (map fst ?rk) =
      Inr (sorted_list_of_set (\<Union>a\<in>set advs. set (reported_cwes E a)), common, dis)"
      "set common = (\<Inter>a\<in>set advs. set (reported_cwes E a))" "dis \<noteq> []"
    using disagreement_reported [OF assms(1) ne] assms(5) unfolding fsts by blast
  obtain item where item: "item = obj [
        (''all_cwes'', ints (sorted_list_of_set (\<Union>a\<in>set advs. set (reported_cwes E a)))),
        (''cwe_details'', VDict (map (\<lambda>(w, d). (VInt w, d)) d')),
        (''partial_curation'', obj [(''cwes'', ints common)]),
        (''conflict_reason'', VStr (''Advisories report different '' @
            (if length dis > 1 then ''weaknesses'' else ''weakness'') @ '' for '' @ alias)),
        (''advisories'', VList (map snd ?rk))]" by blast
  have snds: "map snd ?rk = map (\<lambda>as. ranked_dict (reported_cwes E (last as)) (by_rank as)) ?vals" by simp
  have srt: "sort (reported_cwes E a) = reported_cwes E a" for a
    by (simp add: reported_cwes_def sorted_sort_id)
  have "\<exists>c. canonical_value (VList (map snd ?rk)) = Inr c"
    unfolding snds by (rule canonical_ranked_list) (auto simp: srt intro: group_values_inj)
  then have "\<exists>c. canonical_value item = Inr c"
    unfolding item using canonical_details [OF d'] by (intro canonical_obj_ok) (auto intro: canonical_obj_ok)
  then obtain c where c: "canonical_value (VList [item]) = Inr c" by auto
  have chk: "check_conflicting_weaknesses_for_alias E alias advs' ?rk d' acc =
      Inr (raise_todo E alias ''CONFLICTING_WEAKNESSES''
        (obj [(''alias'', VStr alias), (''conflict_checksum'', VStr (te_sha256 E c)), (''curation_items'', VList [item])])
        (dict_values advs') (length dis) acc)" for advs'
    unfolding check_conflicting_weaknesses_for_alias_def dis(1) sum.case prod.case item [symmetric] Let_def c
    using dis(3) by (cases dis) simp_all
  have run: "weakness_alias E alias advs acc =
      Inr (Some (snd (raise_todo E alias ''CONFLICTING_WEAKNESSES''
        (obj [(''alias'', VStr alias), (''conflict_checksum'', VStr (te_sha256 E c)), (''curation_items'', VList [item])])
        advs (length dis) acc)))"
    unfolding weakness_alias_def g sum.case prod.case vals rk chk av using two two' by simp
  show ?thesis
    by (rule exI [of _ item], rule exI [of _ "te_sha256 E c"], rule exI [of _ common], rule exI [of _ "length dis"], intro conjI run)
      (simp_all add: item dis(2))
qed

end
