(* ===== verification/ToDoPackages.thy ===== *)
theory ToDoPackages
  imports ToDoWeakness
begin

text \<open>
  The check of the packages of an alias raises a to-do exactly when two of its advisories report
  different versions for a package that both name.
\<close>

section \<open>Packages: a to-do exactly for different versions\<close>

text \<open>What an advisory says of a package URL, over all its impacts.\<close>

definition names_purl :: "('r, 'd) todo_adv \<Rightarrow> string \<Rightarrow> bool" where
  "names_purl a p \<longleftrightarrow> list_ex (\<lambda>im. ti_base_purl im = p) (ta_impacts a)"

definition said :: "(todo_impact \<Rightarrow> string list) \<Rightarrow> ('r, 'd) todo_adv \<Rightarrow> string \<Rightarrow> string set" where
  "said f a p = set (concat (map f (filter (\<lambda>im. ti_base_purl im = p) (ta_impacts a))))"

definition disagree_on :: "(todo_impact \<Rightarrow> string list) \<Rightarrow> ('r, 'd) todo_adv list \<Rightarrow> string \<Rightarrow> bool" where
  "disagree_on f advs p \<longleftrightarrow> list_ex (\<lambda>a. list_ex (\<lambda>b. names_purl a p \<and> names_purl b p \<and> said f a p \<noteq> said f b p) advs) advs"

definition versions_conflict :: "('r, 'd) todo_adv list \<Rightarrow> string \<Rightarrow> bool" where
  "versions_conflict advs p \<longleftrightarrow> disagree_on ti_affecting advs p \<or> disagree_on ti_fixed_by advs p"

text \<open>The maps of \<open>purl_maps_of\<close>, against the impacts \<open>L\<close> (each with its advisory) read so far.\<close>

definition at_purl :: "(string \<times> todo_impact) list \<Rightarrow> string \<Rightarrow> string \<Rightarrow> todo_impact list" where
  "at_purl L p x = map snd (filter (\<lambda>(y, im). y = x \<and> ti_base_purl im = p) L)"

definition entry_ok :: "(string \<times> todo_impact) list \<Rightarrow> string \<Rightarrow> string \<Rightarrow> versions_entry option \<Rightarrow> bool" where
  "entry_ok L p x e \<longleftrightarrow> (case e of None \<Rightarrow> at_purl L p x = []
     | Some e \<Rightarrow> at_purl L p x \<noteq> [] \<and> set (ve_affected e) = set (concat (map ti_affecting (at_purl L p x))) \<and>
         set (ve_fixed e) = set (concat (map ti_fixed_by (at_purl L p x))))"

definition maps_ok :: "(string \<times> todo_impact) list \<Rightarrow> purl_maps \<Rightarrow> bool" where
  "maps_ok L m \<longleftrightarrow> distinct (map fst (pm_purl_advs m)) \<and>
     (\<forall>p. distinct (map fst (dict_get (pm_purl_advs m) p []))) \<and>
     (\<forall>p x. entry_ok L p x (map_of (dict_get (pm_purl_advs m) p []) x)) \<and>
     (\<forall>p d. map_of (pm_purl_advs m) p = Some d \<longrightarrow> d \<noteq> []) \<and>
     distinct (map fst (pm_adv_purls m)) \<and>
     (\<forall>x q. q \<in> set (dict_get (pm_adv_purls m) x []) \<longleftrightarrow> (\<exists>im. (x, im) \<in> set L \<and> ti_base_purl im = q)) \<and>
     (\<forall>x ps. map_of (pm_adv_purls m) x = Some ps \<longrightarrow> ps \<noteq> [])"

lemma set_set_update [simp]: "set (set_update s xs) = set s \<union> set xs"
  by (auto simp: set_update_def)

lemma at_purl_snoc: "at_purl (L @ [(x, im)]) p y = at_purl L p y @ (if y = x \<and> ti_base_purl im = p then [im] else [])"
  by (auto simp: at_purl_def)

lemma dict_get_update: "dict_get (AList.update k v d) j z = (if j = k then v else dict_get d j z)"
  by (simp add: dict_get_def)

lemma AList_update_not_Nil [simp]: "AList.update k v d \<noteq> []"
  by (cases d) auto

lemma set_update_not_Nil: "set_update s [b] \<noteq> []"
proof -
  have "b \<in> set (set_update s [b])" by simp
  then show ?thesis by (metis empty_iff set_empty)
qed

lemma add_impact_maps:
  "pm_purl_advs (add_impact x im m) = AList.update (ti_base_purl im) (AList.update x
      \<lparr>ve_affected = set_update (ve_affected (dict_get (dict_get (pm_purl_advs m) (ti_base_purl im) []) x empty_versions)) (ti_affecting im),
       ve_fixed = set_update (ve_fixed (dict_get (dict_get (pm_purl_advs m) (ti_base_purl im) []) x empty_versions)) (ti_fixed_by im),
       ve_count = ve_count (dict_get (dict_get (pm_purl_advs m) (ti_base_purl im) []) x empty_versions) + 1\<rparr>
      (dict_get (pm_purl_advs m) (ti_base_purl im) [])) (pm_purl_advs m)"
  "pm_adv_purls (add_impact x im m) = AList.update x (set_update (dict_get (pm_adv_purls m) x []) [ti_base_purl im]) (pm_adv_purls m)"
  by (simp_all add: add_impact_def Let_def)

lemma entry_ok_add:
  assumes "entry_ok L p x e"
  shows "entry_ok (L @ [(x, im)]) p x (if ti_base_purl im = p
     then Some \<lparr>ve_affected = set_update (ve_affected (case e of None \<Rightarrow> empty_versions | Some e \<Rightarrow> e)) (ti_affecting im),
                ve_fixed = set_update (ve_fixed (case e of None \<Rightarrow> empty_versions | Some e \<Rightarrow> e)) (ti_fixed_by im),
                ve_count = n\<rparr> else e)"
  using assms by (cases e) (auto simp: entry_ok_def at_purl_snoc empty_versions_def)

lemma entry_ok_other: "x \<noteq> y \<or> ti_base_purl im \<noteq> p \<Longrightarrow> entry_ok (L @ [(x, im)]) p y e = entry_ok L p y e"
proof -
  assume "x \<noteq> y \<or> ti_base_purl im \<noteq> p"
  then have "at_purl (L @ [(x, im)]) p y = at_purl L p y" by (auto simp: at_purl_snoc)
  then show ?thesis by (auto simp: entry_ok_def split: option.splits)
qed

lemma maps_ok_add:
  assumes "maps_ok L m" shows "maps_ok (L @ [(x, im)]) (add_impact x im m)"
  unfolding maps_ok_def add_impact_maps
proof (intro conjI allI impI)
  fix p y
  let ?b = "ti_base_purl im" let ?d = "dict_get (pm_purl_advs m) (ti_base_purl im) []"
  have e: "entry_ok L p y (map_of (dict_get (pm_purl_advs m) p []) y)" for p y using assms by (simp add: maps_ok_def)
  show "entry_ok (L @ [(x, im)]) p y (map_of (dict_get (AList.update ?b (AList.update x
      \<lparr>ve_affected = set_update (ve_affected (dict_get ?d x empty_versions)) (ti_affecting im),
       ve_fixed = set_update (ve_fixed (dict_get ?d x empty_versions)) (ti_fixed_by im),
       ve_count = ve_count (dict_get ?d x empty_versions) + 1\<rparr> ?d) (pm_purl_advs m)) p []) y)"
  proof (cases "p = ?b \<and> y = x")
    case True
    from entry_ok_add [OF e [of ?b x], of im] True show ?thesis
      by (simp add: dict_get_update) (simp add: dict_get_def [of _ x] option.case_eq_if)
  next
    case False
    then have "entry_ok (L @ [(x, im)]) p y e = entry_ok L p y e" for e by (intro entry_ok_other) auto
    with False e [of p y] show ?thesis by (auto simp: dict_get_update)
  qed
qed (use assms in \<open>auto simp: maps_ok_def dict_get_update distinct_update set_update_not_Nil split: if_splits\<close>)

lemma fold_add_impact:
  "maps_ok L m \<Longrightarrow> maps_ok (L @ map (Pair x) ims) (fold (add_impact x) ims m)"
proof (induction ims arbitrary: L m)
  case (Cons im ims)
  from Cons.IH [OF maps_ok_add [OF Cons.prems, of x im]] show ?case by simp
qed simp

definition impacts_of :: "('r, 'd) todo_adv list \<Rightarrow> (string \<times> todo_impact) list" where
  "impacts_of advs = concat (map (\<lambda>a. map (Pair (ta_avid a)) (ta_impacts a)) advs)"

lemma fold_purl_maps:
  "maps_ok L m \<Longrightarrow> maps_ok (L @ impacts_of advs) (fold (\<lambda>a. fold (add_impact (ta_avid a)) (ta_impacts a)) advs m)"
proof (induction advs arbitrary: L m)
  case (Cons a advs)
  from Cons.IH [OF fold_add_impact [OF Cons.prems, of "ta_avid a" "ta_impacts a"]] show ?case
    by (simp add: impacts_of_def)
qed (simp add: impacts_of_def)

lemma purl_maps_ok: "maps_ok (impacts_of advs) (purl_maps_of advs)"
proof -
  have "maps_ok [] \<lparr>pm_adv_purls = [], pm_purl_advs = [], pm_not_unfurled = [], pm_not_unfurled_advs = []\<rparr>"
    by (simp add: maps_ok_def entry_ok_def at_purl_def dict_get_def)
  from fold_purl_maps [OF this, of advs] show ?thesis by (simp add: purl_maps_of_def)
qed

text \<open>Read off for the advisories themselves, when each has its own identifier.\<close>

lemma at_purl_impacts:
  assumes "distinct (map ta_avid advs)" "a \<in> set advs"
  shows "at_purl (impacts_of advs) p (ta_avid a) = filter (\<lambda>im. ti_base_purl im = p) (ta_impacts a)"
  using assms
proof (induction advs)
  case (Cons b advs)
  have none: "at_purl (impacts_of advs) p (ta_avid b) = []" if "ta_avid b \<notin> ta_avid ` set advs"
    using that by (auto simp: at_purl_def impacts_of_def filter_empty_conv) (metis image_eqI)
  have split: "at_purl (impacts_of (b # advs)) p x =
      (if ta_avid b = x then filter (\<lambda>im. ti_base_purl im = p) (ta_impacts b) else []) @ at_purl (impacts_of advs) p x" for x
    by (auto simp: at_purl_def impacts_of_def filter_map comp_def)
  show ?case
  proof (cases "a = b")
    case True
    with Cons.prems none show ?thesis by (simp add: split)
  next
    case False
    with Cons.prems have "a \<in> set advs" "ta_avid b \<noteq> ta_avid a" by auto
    with Cons show ?thesis by (simp add: split)
  qed
qed simp

lemma at_purl_other: "x \<notin> ta_avid ` set advs \<Longrightarrow> at_purl (impacts_of advs) p x = []"
  by (auto simp: at_purl_def impacts_of_def filter_empty_conv)

lemma purl_entry:
  assumes "distinct (map ta_avid advs)"
  shows "map_of (dict_get (pm_purl_advs (purl_maps_of advs)) p []) x \<noteq> None \<longleftrightarrow>
      (\<exists>a\<in>set advs. ta_avid a = x \<and> names_purl a p)"
    and "a \<in> set advs \<Longrightarrow> map_of (dict_get (pm_purl_advs (purl_maps_of advs)) p []) (ta_avid a) = Some e \<Longrightarrow>
      set (ve_affected e) = said ti_affecting a p \<and> set (ve_fixed e) = said ti_fixed_by a p"
proof -
  have e: "entry_ok (impacts_of advs) p y (map_of (dict_get (pm_purl_advs (purl_maps_of advs)) p []) y)" for y
    using purl_maps_ok [of advs] by (simp add: maps_ok_def)
  show "map_of (dict_get (pm_purl_advs (purl_maps_of advs)) p []) x \<noteq> None \<longleftrightarrow>
      (\<exists>a\<in>set advs. ta_avid a = x \<and> names_purl a p)"
  proof -
    have "map_of (dict_get (pm_purl_advs (purl_maps_of advs)) p []) x \<noteq> None \<longleftrightarrow> at_purl (impacts_of advs) p x \<noteq> []"
      using e [of x] by (auto simp: entry_ok_def split: option.splits)
    also have "\<dots> \<longleftrightarrow> (\<exists>a\<in>set advs. ta_avid a = x \<and> names_purl a p)"
    proof (cases "x \<in> ta_avid ` set advs")
      case True
      then obtain a where a: "a \<in> set advs" "x = ta_avid a" by auto
      have "b = a" if "b \<in> set advs" "ta_avid b = ta_avid a" for b
        using that a assms by (simp add: distinct_map inj_on_def)
      then show ?thesis
        using a at_purl_impacts [OF assms a(1), of p] by (auto simp: names_purl_def list_ex_iff filter_empty_conv)
    next
      case False
      then show ?thesis using at_purl_other [OF False, of p] by auto
    qed
    finally show ?thesis .
  qed
  show "set (ve_affected e) = said ti_affecting a p \<and> set (ve_fixed e) = said ti_fixed_by a p"
    if "a \<in> set advs" "map_of (dict_get (pm_purl_advs (purl_maps_of advs)) p []) (ta_avid a) = Some e"
    using e [of "ta_avid a"] at_purl_impacts [OF assms that(1), of p] that(2) by (simp add: entry_ok_def said_def)
qed

lemma all_unfurled:
  assumes "list_all (\<lambda>a. list_all (\<lambda>im. ti_unfurled im \<or> \<not> truthy_opt (ti_affecting_vers im)) (ta_impacts a)) advs"
  shows "pm_not_unfurled (purl_maps_of advs) = []"
proof -
  have one: "pm_not_unfurled (fold (add_impact x) ims m) = pm_not_unfurled m"
    if "list_all (\<lambda>im. ti_unfurled im \<or> \<not> truthy_opt (ti_affecting_vers im)) ims" for x ims m
    using that by (induction ims arbitrary: m) (auto simp: add_impact_def Let_def)
  have "pm_not_unfurled (fold (\<lambda>a. fold (add_impact (ta_avid a)) (ta_impacts a)) advs m) = pm_not_unfurled m" for m
    using assms by (induction advs arbitrary: m) (simp_all add: one)
  then show ?thesis by (simp add: purl_maps_of_def)
qed

text \<open>A package URL that the maps have, its entries, and when they differ.\<close>

lemma pam_entry:
  assumes "(p, d) \<in> set (pm_purl_advs (purl_maps_of advs))"
  shows "d = dict_get (pm_purl_advs (purl_maps_of advs)) p []" "distinct (map fst d)"
proof -
  have ok: "maps_ok (impacts_of advs) (purl_maps_of advs)" by (rule purl_maps_ok)
  then have "map_of (pm_purl_advs (purl_maps_of advs)) p = Some d"
    using assms by (intro map_of_is_SomeI) (simp_all add: maps_ok_def)
  then show d: "d = dict_get (pm_purl_advs (purl_maps_of advs)) p []" by (simp add: dict_get_def)
  from ok show "distinct (map fst d)" unfolding d by (simp add: maps_ok_def)
qed

lemma pam_keys:
  assumes "distinct (map ta_avid advs)" "(p, d) \<in> set (pm_purl_advs (purl_maps_of advs))"
  shows "set (dict_keys d) = ta_avid ` {a \<in> set advs. names_purl a p}"
proof -
  have "x \<in> set (dict_keys d) \<longleftrightarrow> (\<exists>a\<in>set advs. ta_avid a = x \<and> names_purl a p)" for x
    using purl_entry(1) [OF assms(1), of p x] pam_entry(1) [OF assms(2)] by (simp add: dict_keys_map_of)
  then show ?thesis by (simp only: set_eq_iff image_iff mem_Collect_eq Bex_def) blast
qed

lemma pam_values:
  assumes "distinct (map ta_avid advs)" "(p, d) \<in> set (pm_purl_advs (purl_maps_of advs))"
  shows "(set \<circ> ve_affected) ` set (dict_values d) = (\<lambda>a. said ti_affecting a p) ` {a \<in> set advs. names_purl a p}"
    and "(set \<circ> ve_fixed) ` set (dict_values d) = (\<lambda>a. said ti_fixed_by a p) ` {a \<in> set advs. names_purl a p}"
proof -
  have d: "d = dict_get (pm_purl_advs (purl_maps_of advs)) p []" "distinct (map fst d)" using pam_entry [OF assms(2)] by auto
  have fwd: "\<exists>a\<in>set advs. names_purl a p \<and> set (ve_affected e) = said ti_affecting a p \<and> set (ve_fixed e) = said ti_fixed_by a p"
    if e: "e \<in> set (dict_values d)" for e
  proof -
    from e obtain x where "(x, e) \<in> set d" by (auto simp: dict_values_def)
    then have m: "map_of d x = Some e" using d(2) by simp
    then obtain a where "a \<in> set advs" "ta_avid a = x" "names_purl a p"
      using purl_entry(1) [OF assms(1), of p x] d(1) by auto
    with m purl_entry(2) [OF assms(1), of a p e] d(1) show ?thesis by blast
  qed
  have bwd: "\<exists>e\<in>set (dict_values d). set (ve_affected e) = said ti_affecting a p \<and> set (ve_fixed e) = said ti_fixed_by a p"
    if a: "a \<in> set advs" "names_purl a p" for a
  proof -
    have "map_of d (ta_avid a) \<noteq> None" using purl_entry(1) [OF assms(1), of p "ta_avid a"] d(1) a by auto
    then obtain e where e: "map_of d (ta_avid a) = Some e" by auto
    then have "e \<in> set (dict_values d)" by (auto simp: dict_values_def dest: map_of_SomeD intro: rev_image_eqI)
    with e purl_entry(2) [OF assms(1) a(1), of p e] d(1) show ?thesis by blast
  qed
  show "(set \<circ> ve_affected) ` set (dict_values d) = (\<lambda>a. said ti_affecting a p) ` {a \<in> set advs. names_purl a p}"
    using fwd bwd by (auto simp: image_iff) metis+
  show "(set \<circ> ve_fixed) ` set (dict_values d) = (\<lambda>a. said ti_fixed_by a p) ` {a \<in> set advs. names_purl a p}"
    using fwd bwd by (auto simp: image_iff) metis+
qed

lemma disagreement_pam:
  assumes "distinct (map ta_avid advs)" "(p, d) \<in> set (pm_purl_advs (purl_maps_of advs))"
      "compute_version_range_disagreement d = Inr c"
  shows "vc_affected_disagreement c = [] \<longleftrightarrow> \<not> disagree_on ti_affecting advs p"
    and "vc_fixed_disagreement c = [] \<longleftrightarrow> \<not> disagree_on ti_fixed_by advs p"
proof -
  obtain ca cf where c: "inter_all (map ve_affected (dict_values d)) = Inr ca" "inter_all (map ve_fixed (dict_values d)) = Inr cf"
      "vc_affected_disagreement c = set_minus (union_all (map ve_affected (dict_values d))) ca"
      "vc_fixed_disagreement c = set_minus (union_all (map ve_fixed (dict_values d))) cf"
    using assms(3) by (auto simp: compute_version_range_disagreement_def Let_def split: sum.splits)
  have all_same: "(\<forall>s\<in>set (map f xs). \<forall>t\<in>set (map f xs). set s = set t) \<longleftrightarrow>
      (\<forall>S\<in>(set \<circ> f) ` set xs. \<forall>T\<in>(set \<circ> f) ` set xs. S = T)" for f :: "versions_entry \<Rightarrow> string list" and xs
    by simp
  show "vc_affected_disagreement c = [] \<longleftrightarrow> \<not> disagree_on ti_affecting advs p"
    unfolding c(3) no_disagreement_iff [OF c(1)] all_same pam_values(1) [OF assms(1,2)]
    by (auto simp: disagree_on_def list_ex_iff)
  show "vc_fixed_disagreement c = [] \<longleftrightarrow> \<not> disagree_on ti_fixed_by advs p"
    unfolding c(4) no_disagreement_iff [OF c(2)] all_same pam_values(2) [OF assms(1,2)]
    by (auto simp: disagree_on_def list_ex_iff)
qed

lemma conflicting_purls_ok:
  assumes "distinct (map ta_avid advs)" "set pam \<subseteq> set (pm_purl_advs (purl_maps_of advs))" "conflicting_purls E grp pam = Inr cs"
  shows "map (\<lambda>(p, d, _). (p, d)) cs = filter (\<lambda>(p, d). versions_conflict advs p) pam \<and>
    (\<forall>(p, d, c, i)\<in>set cs. (vc_affected_disagreement c = [] \<longleftrightarrow> \<not> disagree_on ti_affecting advs p) \<and>
       (vc_fixed_disagreement c = [] \<longleftrightarrow> \<not> disagree_on ti_fixed_by advs p))"
  using assms(2,3)
proof (induction pam arbitrary: cs)
  case (Cons x pam)
  obtain p d where x: "x = (p, d)" by force
  have in_pam: "(p, d) \<in> set (pm_purl_advs (purl_maps_of advs))" using Cons.prems(1) x by simp
  obtain c where c: "compute_version_range_disagreement d = Inr c"
    using Cons.prems(2) x by (auto split: sum.splits)
  note dis = disagreement_pam [OF assms(1) in_pam c]
  show ?case
  proof (cases "vc_fixed_disagreement c = [] \<and> vc_affected_disagreement c = []")
    case True
    then have "\<not> versions_conflict advs p" using dis by (simp add: versions_conflict_def)
    moreover have "conflicting_purls E grp pam = Inr cs" using Cons.prems(2) True c x by simp
    ultimately show ?thesis using Cons.IH Cons.prems(1) x by simp
  next
    case False
    then have vc: "versions_conflict advs p" using dis by (auto simp: versions_conflict_def)
    from False Cons.prems(2) c x obtain i where i: "get_grouped_curation_advisories_for_dashboard_ui E p d c grp = Inr i"
      by (cases "get_grouped_curation_advisories_for_dashboard_ui E p d c grp") auto
    with False Cons.prems(2) c x obtain rest where "conflicting_purls E grp pam = Inr rest" "cs = (p, d, c, i) # rest"
      by (cases "conflicting_purls E grp pam") auto
    with Cons.IH Cons.prems(1) vc x dis show ?thesis by simp
  qed
qed simp

lemma dict_lookup_group:
  assumes "dict_lookup (fold (\<lambda>a. AList.update (ta_avid a) a) as []) x = Inr a"
  shows "a \<in> set as \<and> ta_avid a = x"
proof -
  have "map_of (fold (\<lambda>a. AList.update (ta_avid a) a) bs d) x = Some a \<Longrightarrow>
      (a \<in> set bs \<and> ta_avid a = x) \<or> map_of d x = Some a" for bs d
  proof (induction bs arbitrary: d)
    case (Cons b bs)
    then have "map_of (fold (\<lambda>a. AList.update (ta_avid a) a) bs (AList.update (ta_avid b) b d)) x = Some a" by simp
    from Cons.IH [OF this] show ?case by (auto split: if_splits)
  qed simp
  from this [of "as" "[]"] assms show ?thesis by (auto simp: dict_lookup_def split: option.splits)
qed

text \<open>The outcome of the check of one alias.\<close>

definition packages_issue_of :: "('r, 'd) todo_adv list \<Rightarrow> string" where
  "packages_issue_of advs =
     (let ps = map ti_base_purl (concat (map ta_impacts advs))
      in if \<not> list_ex (disagree_on ti_fixed_by advs) ps then ''CONFLICTING_AFFECTED_PACKAGES''
         else if \<not> list_ex (disagree_on ti_affecting advs) ps then ''CONFLICTING_FIXED_BY_PACKAGES''
         else ''CONFLICTING_AFFECTED_AND_FIXED_BY_PACKAGES'')"

lemma disagree_on_named: "disagree_on f advs p \<Longrightarrow> p \<in> set (map ti_base_purl (concat (map ta_impacts advs)))"
  by (auto simp: disagree_on_def list_ex_iff names_purl_def)

lemma conflict_pair:
  assumes "versions_conflict advs p"
  shows "\<exists>a b. a \<in> set advs \<and> b \<in> set advs \<and> a \<noteq> b \<and> names_purl a p \<and> names_purl b p"
  using assms unfolding versions_conflict_def disagree_on_def list_ex_iff by metis

lemma conflict_two_keys:
  assumes "distinct (map ta_avid advs)" "versions_conflict advs p"
  shows "\<exists>d. (p, d) \<in> set (pm_purl_advs (purl_maps_of advs)) \<and> 2 \<le> length d"
proof -
  obtain a b where ab: "a \<in> set advs" "b \<in> set advs" "names_purl a p" "names_purl b p" "a \<noteq> b"
    using conflict_pair [OF assms(2)] by blast
  then have ne: "ta_avid a \<noteq> ta_avid b" using assms(1) by (auto simp: distinct_map inj_on_def)
  let ?d = "dict_get (pm_purl_advs (purl_maps_of advs)) p []"
  have k: "ta_avid a \<in> set (dict_keys ?d)" "ta_avid b \<in> set (dict_keys ?d)"
    using purl_entry(1) [OF assms(1), of p] ab unfolding dict_keys_map_of by blast+
  then have "?d \<noteq> []" by (auto simp: dict_keys_def)
  then have m: "map_of (pm_purl_advs (purl_maps_of advs)) p = Some ?d" by (auto simp: dict_get_def split: option.splits)
  have "card {ta_avid a, ta_avid b} \<le> card (set (dict_keys ?d))" using k by (intro card_mono) auto
  also have "\<dots> \<le> length ?d" using card_length [of "dict_keys ?d"] by (simp add: dict_keys_def)
  finally show ?thesis using ne map_of_SomeD [OF m] by (intro exI [of _ ?d]) simp
qed

lemma dict_lookup_map:
  "map_result (dict_lookup d) xs = Inr as \<Longrightarrow> list_all2 (\<lambda>x a. dict_lookup d x = Inr a) xs as"
  by (simp add: map_result_Inr_iff)

lemma packages_issue_ok:
  assumes "\<forall>(p, d, c, i)\<in>set cs. (vc_affected_disagreement c = [] \<longleftrightarrow> \<not> disagree_on ti_affecting advs p) \<and>
       (vc_fixed_disagreement c = [] \<longleftrightarrow> \<not> disagree_on ti_fixed_by advs p)"
      "\<forall>p. versions_conflict advs p \<longrightarrow> p \<in> fst ` set cs"
  shows "packages_issue cs = packages_issue_of advs"
proof -
  let ?ps = "map ti_base_purl (concat (map ta_impacts advs))"
  have f: "list_ex (\<lambda>(_, _, c, _). vc_fixed_disagreement c \<noteq> []) cs \<longleftrightarrow> list_ex (disagree_on ti_fixed_by advs) ?ps"
  proof
    assume "list_ex (\<lambda>(_, _, c, _). vc_fixed_disagreement c \<noteq> []) cs"
    then obtain p d c i where "(p, d, c, i) \<in> set cs" "vc_fixed_disagreement c \<noteq> []" by (auto simp: list_ex_iff)
    with assms(1) have "disagree_on ti_fixed_by advs p" by auto
    with disagree_on_named show "list_ex (disagree_on ti_fixed_by advs) ?ps" by (force simp: list_ex_iff)
  next
    assume "list_ex (disagree_on ti_fixed_by advs) ?ps"
    then obtain p where p: "disagree_on ti_fixed_by advs p" by (auto simp: list_ex_iff)
    then have "p \<in> fst ` set cs" using assms(2) by (simp add: versions_conflict_def)
    then obtain d c i where "(p, d, c, i) \<in> set cs" by auto
    with assms(1) p show "list_ex (\<lambda>(_, _, c, _). vc_fixed_disagreement c \<noteq> []) cs" by (force simp: list_ex_iff)
  qed
  have a: "list_ex (\<lambda>(_, _, c, _). vc_affected_disagreement c \<noteq> []) cs \<longleftrightarrow> list_ex (disagree_on ti_affecting advs) ?ps"
  proof
    assume "list_ex (\<lambda>(_, _, c, _). vc_affected_disagreement c \<noteq> []) cs"
    then obtain p d c i where "(p, d, c, i) \<in> set cs" "vc_affected_disagreement c \<noteq> []" by (auto simp: list_ex_iff)
    with assms(1) have "disagree_on ti_affecting advs p" by auto
    with disagree_on_named show "list_ex (disagree_on ti_affecting advs) ?ps" by (force simp: list_ex_iff)
  next
    assume "list_ex (disagree_on ti_affecting advs) ?ps"
    then obtain p where p: "disagree_on ti_affecting advs p" by (auto simp: list_ex_iff)
    then have "p \<in> fst ` set cs" using assms(2) by (simp add: versions_conflict_def)
    then obtain d c i where "(p, d, c, i) \<in> set cs" by auto
    with assms(1) p show "list_ex (\<lambda>(_, _, c, _). vc_affected_disagreement c \<noteq> []) cs" by (force simp: list_ex_iff)
  qed
  show ?thesis unfolding packages_issue_def packages_issue_of_def Let_def f a ..
qed

text \<open>The two filters that keep the package URLs of several advisories, and the advisories that name one.\<close>

abbreviation shared_purls :: "('r, 'd) todo_adv list \<Rightarrow> (string \<times> (string \<times> versions_entry) list) list" where
  "shared_purls advs \<equiv> filter (\<lambda>(p, v). 2 \<le> length v) (pm_purl_advs (purl_maps_of advs))"

abbreviation shared_avids :: "('r, 'd) todo_adv list \<Rightarrow> string list" where
  "shared_avids advs \<equiv> map fst (filter (\<lambda>(avid, ps).
     set_minus ps (map fst (filter (\<lambda>(p, v). length v < 2) (pm_purl_advs (purl_maps_of advs)))) \<noteq> []) (pm_adv_purls (purl_maps_of advs)))"

lemma shared_avids_conflict:
  assumes "distinct (map ta_avid advs)" "versions_conflict advs p" "x \<in> set advs" "names_purl x p"
  shows "ta_avid x \<in> set (shared_avids advs)"
proof -
  let ?m = "purl_maps_of advs"
  obtain d where d: "(p, d) \<in> set (pm_purl_advs ?m)" "2 \<le> length d" using conflict_two_keys [OF assms(1,2)] by blast
  have ok: "maps_ok (impacts_of advs) ?m" by (rule purl_maps_ok)
  obtain im where im: "im \<in> set (ta_impacts x)" "ti_base_purl im = p" using assms(4) by (auto simp: names_purl_def list_ex_iff)
  then have "(ta_avid x, im) \<in> set (impacts_of advs)" using assms(3) by (auto simp: impacts_of_def)
  with ok im(2) have "p \<in> set (dict_get (pm_adv_purls ?m) (ta_avid x) [])" by (auto simp: maps_ok_def)
  then obtain ps where ps: "map_of (pm_adv_purls ?m) (ta_avid x) = Some ps" "p \<in> set ps"
    by (cases "map_of (pm_adv_purls ?m) (ta_avid x)") (auto simp: dict_get_def)
  have "p \<notin> fst ` set (filter (\<lambda>(p, v). length v < 2) (pm_purl_advs ?m))"
  proof
    assume "p \<in> fst ` set (filter (\<lambda>(p, v). length v < 2) (pm_purl_advs ?m))"
    then obtain v where "(p, v) \<in> set (pm_purl_advs ?m)" "length v < 2" by auto
    with d ok show False by (auto simp: maps_ok_def dest: eq_key_imp_eq_value)
  qed
  with ps(2) have "p \<in> set (set_minus ps (map fst (filter (\<lambda>(p, v). length v < 2) (pm_purl_advs ?m))))" by simp
  then have "set_minus ps (map fst (filter (\<lambda>(p, v). length v < 2) (pm_purl_advs ?m))) \<noteq> []" by (metis empty_iff list.set(1))
  with map_of_SomeD [OF ps(1)] show ?thesis by force
qed

text \<open>The advisories that the check looks up, by the keys of the conflicting package URLs.\<close>

lemma conflict_keys:
  assumes "distinct (map ta_avid advs)" "conflicting_purls E grp (shared_purls advs) = Inr cs"
  shows "x \<in> set (concat (map (\<lambda>(_, m, _). dict_keys m) cs)) \<longleftrightarrow>
    (\<exists>p. versions_conflict advs p \<and> (\<exists>a\<in>set advs. ta_avid a = x \<and> names_purl a p))"
    and "versions_conflict advs p \<longrightarrow> p \<in> fst ` set cs"
proof -
  have sub: "set (shared_purls advs) \<subseteq> set (pm_purl_advs (purl_maps_of advs))" by auto
  have found: "\<exists>d. (p, d) \<in> set (shared_purls advs)" if "versions_conflict advs p" for p
    using conflict_two_keys [OF assms(1) that] by auto
  have keys: "(p, d) \<in> set (map (\<lambda>(p, d, _). (p, d)) cs) \<longleftrightarrow> (p, d) \<in> set (shared_purls advs) \<and> versions_conflict advs p" for p d
    using conflicting_purls_ok [OF assms(1) sub assms(2)] by auto
  show "versions_conflict advs p \<longrightarrow> p \<in> fst ` set cs" using keys found by force
  have "x \<in> set (concat (map (\<lambda>(_, m, _). dict_keys m) cs)) \<longleftrightarrow>
      (\<exists>p d. (p, d) \<in> set (map (\<lambda>(p, d, _). (p, d)) cs) \<and> x \<in> set (dict_keys d))" by force
  also have "\<dots> \<longleftrightarrow> (\<exists>p d. (p, d) \<in> set (shared_purls advs) \<and> versions_conflict advs p \<and> x \<in> ta_avid ` {a \<in> set advs. names_purl a p})"
    using keys pam_keys [OF assms(1)] sub by blast
  also have "\<dots> \<longleftrightarrow> (\<exists>p. versions_conflict advs p \<and> (\<exists>a\<in>set advs. ta_avid a = x \<and> names_purl a p))"
    using found by (auto simp: image_iff) metis
  finally show "x \<in> set (concat (map (\<lambda>(_, m, _). dict_keys m) cs)) \<longleftrightarrow>
    (\<exists>p. versions_conflict advs p \<and> (\<exists>a\<in>set advs. ta_avid a = x \<and> names_purl a p))" .
qed

lemma looked_up_advisories:
  assumes "distinct (map ta_avid advs)" "grp = fold (\<lambda>a. AList.update (ta_avid a) a) (filter P advs) []"
      "map_result (dict_lookup grp) (dedupe xs) = Inr conf"
  shows "distinct (map ta_avid conf) \<and> set conf = {a \<in> set advs. ta_avid a \<in> set xs}"
proof -
  have look: "a \<in> set advs \<and> ta_avid a = x" if "dict_lookup grp x = Inr a" for x a
    using dict_lookup_group [OF that [unfolded assms(2)]] by auto
  have all2: "list_all2 (\<lambda>x a. dict_lookup grp x = Inr a) (dedupe xs) conf" by (rule dict_lookup_map [OF assms(3)])
  then have avids: "map ta_avid conf = dedupe xs" by (rule list_all2_induct) (auto dest: look)
  have sub: "set conf \<subseteq> set advs" using all2 by (rule list_all2_induct) (auto dest: look)
  have img: "ta_avid ` set conf = set xs" using avids by (metis set_dedupe set_map)
  have "a \<in> set conf" if a: "a \<in> set advs" "ta_avid a \<in> set xs" for a
  proof -
    from a(2) img obtain b where b: "b \<in> set conf" "ta_avid a = ta_avid b" by (metis imageE)
    with sub a(1) assms(1) have "a = b" by (auto simp: distinct_map dest: inj_onD)
    with b(1) show ?thesis by simp
  qed
  with sub img have "set conf = {a \<in> set advs. ta_avid a \<in> set xs}" by blast
  then show ?thesis by (simp add: avids)
qed

lemma conflict_check_raises:
  assumes "distinct (map ta_avid advs)" "versions_conflict advs p"
      "grp = fold (\<lambda>a. AList.update (ta_avid a) a) (filter P advs) []"
      "map_sum id (\<lambda>r. Some (snd r))
        (check_conflicting_affected_and_fixed_by_packages_for_alias E alias (shared_purls advs) grp acc) = Inr r"
  shows "\<exists>detail conflicting n. r = Some (snd (raise_todo E alias (packages_issue_of advs) detail conflicting n acc)) \<and>
     set conflicting = {a \<in> set advs. \<exists>p. versions_conflict advs p \<and> names_purl a p} \<and> distinct (map ta_avid conflicting)"
proof -
  from assms(4) obtain cs where cs: "conflicting_purls E grp (shared_purls advs) = Inr cs"
    by (cases "conflicting_purls E grp (shared_purls advs)") (auto simp: check_conflicting_affected_and_fixed_by_packages_for_alias_def)
  let ?xs = "concat (map (\<lambda>(_, m, _). dict_keys m) cs)"
  have sub: "set (shared_purls advs) \<subseteq> set (pm_purl_advs (purl_maps_of advs))" by auto
  note keys = conflict_keys [OF assms(1) cs]
  from keys(2) [of p] assms(2) have "cs \<noteq> []" by auto
  with assms(4) cs obtain conf detail where conf: "map_result (dict_lookup grp) (dedupe ?xs) = Inr conf"
      "r = Some (snd (raise_todo E alias (packages_issue cs) detail conf (length cs) acc))"
    by (auto simp: check_conflicting_affected_and_fixed_by_packages_for_alias_def Let_def bind_result_Inr map_sum_Inr) (metis snd_conv)
  have issue: "packages_issue cs = packages_issue_of advs"
    using conflicting_purls_ok [OF assms(1) sub cs] keys(2) by (intro packages_issue_ok) auto
  have "b = c" if "b \<in> set advs" "c \<in> set advs" "ta_avid b = ta_avid c" for b c
    using that assms(1) by (simp add: distinct_map inj_on_def)
  then have "{a \<in> set advs. ta_avid a \<in> set ?xs} = {a \<in> set advs. \<exists>p. versions_conflict advs p \<and> names_purl a p}"
    unfolding keys(1) by blast
  with looked_up_advisories [OF assms(1,3) conf(1)] conf(2) show ?thesis unfolding issue by blast
qed

text \<open>
  C13: The check of the packages of an alias, when it succeeds and every range is unfurled, raises a to-do
  exactly when two of the advisories that name the same package URL disagree on the affected or on the
  fixed versions they say of it (over all their impacts); the to-do is about exactly the advisories that
  name such a package URL, and its issue type tells on which of the two they disagree. (Identifiers are
  assumed different, as those of the latest advisories are.)
\<close>

theorem package_conflicts_exact:
  assumes "distinct (map ta_avid advs)"
      "list_all (\<lambda>a. list_all (\<lambda>im. ti_unfurled im \<or> \<not> truthy_opt (ti_affecting_vers im)) (ta_impacts a)) advs"
      "packages_alias E alias advs acc = Inr r"
  shows "if \<exists>p. versions_conflict advs p
    then \<exists>detail conflicting n. r = Some (snd (raise_todo E alias (packages_issue_of advs) detail conflicting n acc)) \<and>
       set conflicting = {a \<in> set advs. \<exists>p. versions_conflict advs p \<and> names_purl a p} \<and> distinct (map ta_avid conflicting)
    else r = None \<or> r = Some acc"
proof -
  let ?grp = "fold (\<lambda>a. AList.update (ta_avid a) a) (filter (\<lambda>a. ta_avid a \<in> set (shared_avids advs)) advs) []"
  have le: "list_ex P [] = False" for P :: "string \<Rightarrow> bool" by simp
  have run: "(if length advs < 2 then Inr None else if \<not> length ?grp > 1 then Inr None else map_sum id (\<lambda>r. Some (snd r))
      (check_conflicting_affected_and_fixed_by_packages_for_alias E alias (shared_purls advs) ?grp acc)) = Inr r"
    using assms(3) unfolding packages_alias_def Let_def all_unfurled [OF assms(2)] le if_False .
  show ?thesis
  proof (cases "\<exists>p. versions_conflict advs p")
    case False
    have "conflicting_purls E ?grp (shared_purls advs) = Inr cs \<Longrightarrow> cs = []" for cs
      using conflicting_purls_ok [OF assms(1), of "shared_purls advs" E ?grp cs] False by auto
    with run False show ?thesis
      by (auto simp: check_conflicting_affected_and_fixed_by_packages_for_alias_def split: if_splits sum.splits)
  next
    case True
    then obtain p where p: "versions_conflict advs p" by blast
    then obtain a b where ab: "a \<in> set advs" "b \<in> set advs" "a \<noteq> b" "names_purl a p" "names_purl b p"
      using conflict_pair by blast
    have grp: "?grp = map (\<lambda>a. (ta_avid a, a)) (filter (\<lambda>a. ta_avid a \<in> set (shared_avids advs)) advs)"
      using assms(1) by (intro fold_update_distinct0) (simp add: distinct_map_filter)
    have "card {a, b} \<le> card (set (filter (\<lambda>a. ta_avid a \<in> set (shared_avids advs)) advs))"
      using ab shared_avids_conflict [OF assms(1) p] by (intro card_mono) auto
    also have "\<dots> \<le> length ?grp" unfolding grp length_map by (rule card_length)
    finally have "1 < length ?grp" using ab(3) by simp
    moreover have "card {a, b} \<le> card (set advs)" using ab by (intro card_mono) auto
    moreover have "card (set advs) \<le> length advs" by (rule card_length)
    ultimately have "map_sum id (\<lambda>r. Some (snd r))
        (check_conflicting_affected_and_fixed_by_packages_for_alias E alias (shared_purls advs) ?grp acc) = Inr r"
      using run ab(3) by simp
    from conflict_check_raises [OF assms(1) p refl this] True show ?thesis by (simp only: if_True)
  qed
qed

end
