(* ===== verification/ToDoRun.thy ===== *)
theory ToDoRun
  imports ToDoPackages
begin

text \<open>
  The steps of \<open>compute_advisory_todo_v2\<close>: which advisories they read, how they collect the to-dos of
  the checks of \<open>ToDo\<close> and write them in batches (\<open>bulk_create_with_m2m\<close>). The four loops differ in
  the check, the size of a batch and whether the to-dos are also written after each alias, so
  \<open>todo_loop\<close> is all of them. The counters that only the log shows are left out. \<open>clk n\<close> is the time
  of the \<open>n\<close>-th writing; aliases come in the order of their characters (the database has its own
  collation, which no theorem depends on).
\<close>

section \<open>The tables\<close>

record ('r, 'd) todo_db =
  db_advisories :: "('r, 'd) todo_adv list"
  db_aliases :: "string list"
  db_todos :: "('d todo \<times> int) list"
  db_related :: "(nat \<times> nat) list"

text \<open>\<open>unique_together\<close> of \<open>AdvisoryToDoV2\<close>; a row is a to-do and the time of its creation.\<close>

definition todo_conflict :: "'d todo \<Rightarrow> 'd todo \<Rightarrow> bool" where
  "todo_conflict a b \<longleftrightarrow> td_related a = td_related b \<and> td_issue a = td_issue b"

text \<open>
  \<open>bulk_create_with_m2m\<close>. An alias that is too long for its column fails the creation, and a relation
  that exists already that of the relations: both are logged. The relations are those of the to-dos
  created since the start; \<open>advisories[...]\<close> can be a \<open>KeyError\<close>.
\<close>

definition bulk_create_with_m2m ::
    "int \<Rightarrow> 'd todo list \<Rightarrow> (string \<times> nat list) list \<Rightarrow> ('r, 'd) todo_db \<Rightarrow> nat result \<times> ('r, 'd) todo_db" where
  "bulk_create_with_m2m now todos rel db =
     (if todos = [] then (Inr 0, db)
      else (let rows = (if list_ex (\<lambda>t. 50 < length (td_alias t)) todos then db_todos db
                        else bulk_create (\<lambda>a b. todo_conflict (fst a) (fst b)) (map (\<lambda>t. (t, now)) todos) (db_todos db));
                new = rows_where (\<lambda>r. now \<le> snd r) rows
            in case map_result (\<lambda>i. map_sum id (map (Pair i)) (dict_lookup rel (td_related (fst (rows ! i))))) new of
                 Inl e \<Rightarrow> (Inl e, db\<lparr>db_todos := rows\<rparr>)
               | Inr relations \<Rightarrow>
                   (Inr (length new),
                    db\<lparr>db_todos := rows,
                       db_related := (if distinct (concat relations) \<and> set (concat relations) \<inter> set (db_related db) = {}
                         then db_related db @ concat relations else db_related db)\<rparr>)))"

section \<open>The loops\<close>

definition flush ::
    "(nat \<Rightarrow> int) \<Rightarrow> 'd todo_acc \<Rightarrow> nat \<times> ('r, 'd) todo_db \<Rightarrow> py_error option \<times> nat \<times> ('r, 'd) todo_db" where
  "flush clk acc x =
     (case x of (n, db) \<Rightarrow>
        (case bulk_create_with_m2m (clk n) (acc_todos acc) (acc_rel acc) db of
           (Inl e, db) \<Rightarrow> (Some e, Suc n, db) | (Inr _, db) \<Rightarrow> (None, Suc n, db)))"

definition clear_acc :: "'d todo_acc \<Rightarrow> 'd todo_acc" where
  "clear_acc acc = acc\<lparr>acc_todos := [], acc_rel := []\<rparr>"

text \<open>A check gives \<open>None\<close> for a \<open>continue\<close>.\<close>

fun todo_loop ::
    "(nat \<Rightarrow> int) \<Rightarrow> nat \<Rightarrow> bool \<Rightarrow> ('a \<Rightarrow> 'd todo_acc \<Rightarrow> 'd todo_acc option result) \<Rightarrow> 'a list \<Rightarrow>
       'd todo_acc \<Rightarrow> nat \<times> ('r, 'd) todo_db \<Rightarrow> py_error option \<times> 'd todo_acc \<times> nat \<times> ('r, 'd) todo_db" where
  "todo_loop clk batch each check [] acc x = (None, acc, x)"
| "todo_loop clk batch each check (i # is) acc x =
     (case check i acc of
        Inl e \<Rightarrow> (Some e, acc, x)
      | Inr None \<Rightarrow> todo_loop clk batch each check is acc x
      | Inr (Some acc) \<Rightarrow>
          (case (if batch < length (acc_todos acc) then flush clk acc x else (None, x)) of
             (Some e, x) \<Rightarrow> (Some e, acc, x)
           | (None, x) \<Rightarrow>
               (let acc = (if batch < length (acc_todos acc) then clear_acc acc else acc)
                in case (if each then flush clk acc x else (None, x)) of
                     (Some e, x) \<Rightarrow> (Some e, acc, x)
                   | (None, x) \<Rightarrow> todo_loop clk batch each check is acc x)))"

definition run_check ::
    "(nat \<Rightarrow> int) \<Rightarrow> nat \<Rightarrow> bool \<Rightarrow> ('a \<Rightarrow> 'd todo_acc \<Rightarrow> 'd todo_acc option result) \<Rightarrow> 'a list \<Rightarrow>
       'd todo_acc \<Rightarrow> ('r, 'd) todo_db \<Rightarrow> py_error option \<times> ('r, 'd) todo_db" where
  "run_check clk batch each check is acc db =
     (case todo_loop clk batch each check is acc (0, db) of
        (Some e, _, _, db) \<Rightarrow> (Some e, db)
      | (None, acc, x) \<Rightarrow> if each then (None, snd x) else (case flush clk acc x of (e, _, db) \<Rightarrow> (e, db)))"

section \<open>The steps\<close>

definition has_issue :: "('r, 'd) todo_db \<Rightarrow> string list \<Rightarrow> ('r, 'd) todo_adv \<Rightarrow> bool" where
  "has_issue db issues a \<longleftrightarrow>
     list_ex (\<lambda>(i, pk). pk = ta_pk a \<and> td_issue (fst (db_todos db ! i)) \<in> set issues) (db_related db)"

definition todo_eligible :: "('r, 'v, 'd) todo_env \<Rightarrow> ('r, 'd) todo_adv \<Rightarrow> bool" where
  "todo_eligible E a \<longleftrightarrow> ta_pipeline a \<notin> set (te_excluded E) \<and> ta_latest a"

definition individual_advisories :: "('r, 'v, 'd) todo_env \<Rightarrow> ('r, 'd) todo_db \<Rightarrow> ('r, 'd) todo_adv list" where
  "individual_advisories E db =
     filter (\<lambda>a. todo_eligible E a \<and> ta_unfurled_all a \<and>
       \<not> has_issue db [''MISSING_SUMMARY'', ''MISSING_AFFECTED_PACKAGE'', ''MISSING_FIXED_BY_PACKAGE'',
                        ''MISSING_AFFECTED_AND_FIXED_BY_PACKAGES''] a) (db_advisories db)"

definition comparable_advisories :: "('r, 'v, 'd) todo_env \<Rightarrow> ('r, 'd) todo_db \<Rightarrow> ('r, 'd) todo_adv list" where
  "comparable_advisories E db =
     filter (\<lambda>a. todo_eligible E a \<and> \<not> has_issue db [''MISSING_AFFECTED_AND_FIXED_BY_PACKAGES''] a) (db_advisories db)"

text \<open>The advisories that have an alias, and then those whose own identifier it is.\<close>

definition alias_advisories :: "('r, 'd) todo_adv list \<Rightarrow> string \<Rightarrow> ('r, 'd) todo_adv list" where
  "alias_advisories advs alias =
     (let common = filter (\<lambda>a. alias \<in> set (ta_aliases a)) advs
      in common @ filter (\<lambda>a. ta_advisory_id a = alias \<and> ta_pk a \<notin> ta_pk ` set common) advs)"

definition ordered_aliases :: "('r, 'd) todo_db \<Rightarrow> string list" where
  "ordered_aliases db =
     (let is_cve = (\<lambda>a. lower (take 3 a) = ''cve'')
      in filter is_cve (sort (db_aliases db)) @ filter (\<lambda>a. \<not> is_cve a) (sort (db_aliases db)))"

definition empty_acc :: "'d todo_acc" where
  "empty_acc = \<lparr>acc_todos = [], acc_rel = [], acc_existing = []\<rparr>"

definition existing_acc :: "('r, 'd) todo_db \<Rightarrow> 'd todo_acc" where
  "existing_acc db = empty_acc\<lparr>acc_existing := dedupe (map (\<lambda>(t, _). td_related t) (db_todos db))\<rparr>"

definition missing_check ::
    "('r, 'v, 'd) todo_env \<Rightarrow> ('r, 'd) todo_adv \<Rightarrow> 'd todo_acc \<Rightarrow> 'd todo_acc option result" where
  "missing_check E a acc =
     (let todo_id = todo_checksum E [a]
      in Inr (Some (check_missing_affected_and_fixed_by_packages a todo_id (check_missing_summary a todo_id acc))))"

definition compute_individual_advisory_todo ::
    "('r, 'v, 'd) todo_env \<Rightarrow> (nat \<Rightarrow> int) \<Rightarrow> ('r, 'd) todo_db \<Rightarrow> py_error option \<times> ('r, 'd) todo_db" where
  "compute_individual_advisory_todo E clk db =
     run_check clk 5000 False (missing_check E) (individual_advisories E db) empty_acc db"

definition detect_conflicting_package_versions ::
    "('r, 'v::linorder, 'd::linorder) todo_env \<Rightarrow> (nat \<Rightarrow> int) \<Rightarrow> ('r, 'd) todo_db \<Rightarrow> py_error option \<times> ('r, 'd) todo_db" where
  "detect_conflicting_package_versions E clk db =
     run_check clk 1000 False (\<lambda>al. packages_alias E al (alias_advisories (comparable_advisories E db) al))
       (ordered_aliases db) (existing_acc db) db"

definition detect_conflicting_cvss_scores ::
    "('r, 'v, 'd::linorder) todo_env \<Rightarrow> (nat \<Rightarrow> string) \<Rightarrow> (nat \<Rightarrow> int) \<Rightarrow> ('r, 'd) todo_db \<Rightarrow> py_error option \<times> ('r, 'd) todo_db" where
  "detect_conflicting_cvss_scores E dec clk db =
     run_check clk 1 True (\<lambda>al. cvss_alias E dec al (alias_advisories (comparable_advisories E db) al))
       (ordered_aliases db) (existing_acc db) db"

definition detect_conflicting_weakness ::
    "('r, 'v, 'd::linorder) todo_env \<Rightarrow> (nat \<Rightarrow> int) \<Rightarrow> ('r, 'd) todo_db \<Rightarrow> py_error option \<times> ('r, 'd) todo_db" where
  "detect_conflicting_weakness E clk db =
     run_check clk 1 True
       (\<lambda>al. weakness_alias E al
          (alias_advisories (filter (\<lambda>a. ta_weaknesses a \<noteq> []) (comparable_advisories E db)) al))
       (ordered_aliases db) (existing_acc db) db"

section \<open>Batches\<close>

text \<open>
  A check only adds the to-dos it finds: \<open>found\<close> tells which, with the advisories of each, from the item
  and the taken identifiers.
\<close>

definition add_todos :: "('d todo \<times> nat list) list \<Rightarrow> 'd todo_acc \<Rightarrow> 'd todo_acc" where
  "add_todos new acc = fold (\<lambda>(t, pks). add_todo t pks) new acc"

fun all_found ::
    "('a \<Rightarrow> string list \<Rightarrow> (('d todo \<times> nat list) list \<times> string list) option result) \<Rightarrow> 'a list \<Rightarrow> string list \<Rightarrow>
       ('d todo \<times> nat list) list result" where
  "all_found found [] ex = Inr []"
| "all_found found (i # is) ex =
     (case found i ex of Inl e \<Rightarrow> Inl e
      | Inr None \<Rightarrow> all_found found is ex
      | Inr (Some (new, ex)) \<Rightarrow> map_sum id ((@) new) (all_found found is ex))"

lemma bulk_create_append: "bulk_create c (xs @ ys) t = bulk_create c ys (bulk_create c xs t)"
  by (induction xs arbitrary: t) auto

lemma bulk_create_present: "(\<forall>x\<in>set xs. list_ex (c x) t) \<Longrightarrow> bulk_create c xs t = t"
  by (induction xs) auto

lemma bulk_create_map_fst:
  "map fst (bulk_create (\<lambda>a b. c (fst a) (fst b)) (map (\<lambda>t. (t, n)) xs) rows) = bulk_create c xs (map fst rows)"
proof (induction xs arbitrary: rows)
  case (Cons x xs)
  have "list_ex (\<lambda>b. c x (fst b)) rows = list_ex (c x) (map fst rows)" by (auto simp: list_ex_iff)
  with Cons.IH [of "if list_ex (c x) (map fst rows) then rows else rows @ [(x, n)]"] show ?case by simp
qed simp

lemma bulk_create_all_present:
  assumes "\<And>x. c x x" "x \<in> set xs \<or> list_ex (c x) t" shows "list_ex (c x) (bulk_create c xs t)"
  using assms(2)
proof (induction xs arbitrary: t)
  case (Cons y ys)
  from Cons.prems assms(1) have "x \<in> set ys \<or> list_ex (c x) (if list_ex (c y) t then t else t @ [y])"
    by (auto simp: list_ex_iff)
  then show ?case by (simp add: Cons.IH)
qed simp

lemma todo_conflict_refl [simp]: "todo_conflict t t"
  by (simp add: todo_conflict_def)

lemma bulk_create_twice:
  "bulk_create todo_conflict xs (bulk_create todo_conflict xs t) = bulk_create todo_conflict xs t"
  by (intro bulk_create_present ballI bulk_create_all_present) auto

text \<open>The relations of the rows \<open>a\<close> to \<open>b\<close>, when \<open>R\<close> tells the advisories of each identifier.\<close>

definition rel_rows :: "(string \<Rightarrow> nat list) \<Rightarrow> 'd todo list \<Rightarrow> nat \<Rightarrow> nat \<Rightarrow> (nat \<times> nat) list" where
  "rel_rows R ts a b = concat (map (\<lambda>i. map (Pair i) (R (td_related (ts ! i)))) [a..<b])"

lemma rel_rows_split:
  assumes "a \<le> b" "b \<le> c" shows "rel_rows R ts a c = rel_rows R ts a b @ rel_rows R ts b c"
proof -
  have "[a..<c] = [a..<b] @ [b..<c]" using upt_add_eq_append [OF assms(1), of "c - b"] assms(2) by simp
  then show ?thesis by (simp add: rel_rows_def)
qed

lemma rel_rows_prefix: "b \<le> length ts \<Longrightarrow> rel_rows R (ts @ us) a b = rel_rows R ts a b"
  unfolding rel_rows_def by (intro arg_cong [where f = concat] map_cong) (auto simp: nth_append)

lemma distinct_rel_rows:
  "\<forall>i\<in>{a..<b}. distinct (R (td_related (ts ! i))) \<Longrightarrow> distinct (rel_rows R ts a b)"
proof (induction b)
  case (Suc b)
  show ?case
  proof (cases "a \<le> b")
    case True
    then have s: "rel_rows R ts a (Suc b) = rel_rows R ts a b @ map (Pair b) (R (td_related (ts ! b)))"
      by (simp add: rel_rows_def)
    have d1: "distinct (rel_rows R ts a b)" using Suc by auto
    have d2: "distinct (map (Pair b) (R (td_related (ts ! b))))"
      using Suc.prems True by (auto simp: distinct_map inj_on_def)
    have "set (rel_rows R ts a b) \<inter> set (map (Pair b) (R (td_related (ts ! b)))) = {}"
      by (auto simp: rel_rows_def)
    with d1 d2 show ?thesis by (simp add: s)
  qed (simp add: rel_rows_def)
qed (simp add: rel_rows_def)

lemma rel_rows_ids: "(i, pk) \<in> set (rel_rows R ts a b) \<Longrightarrow> a \<le> i \<and> i < b"
  by (auto simp: rel_rows_def)

lemma map_result_enum:
  "(\<And>i. i \<in> set is \<Longrightarrow> f i = Inr (g i)) \<Longrightarrow> map_result f is = Inr (map g is)"
  by simp

lemma rows_where_appended:
  assumes "\<forall>r\<in>set t. \<not> P r" "\<forall>r\<in>set new. P r"
  shows "rows_where P (t @ new) = [length t..<length t + length new]"
proof -
  have "rows_where P (t @ new) =
      filter (\<lambda>i. P ((t @ new) ! i)) ([0..<length t] @ [length t..<length t + length new])"
    using upt_add_eq_append [of 0 "length t" "length new"] by (simp add: rows_where_def)
  also have "\<dots> = [length t..<length t + length new]"
    using assms by (auto simp: filter_empty_conv nth_append intro!: filter_True)
  finally show ?thesis .
qed

text \<open>One writing: the pending to-dos that are new become rows, each related to its advisories.\<close>

definition todo_db_ok :: "('r, 'd) todo_db \<Rightarrow> int \<Rightarrow> bool" where
  "todo_db_ok db now \<longleftrightarrow> (\<forall>r\<in>set (db_todos db). snd r < now) \<and> (\<forall>x\<in>set (db_related db). fst x < length (db_todos db))"

definition acc_ok :: "(string \<Rightarrow> nat list) \<Rightarrow> 'd todo_acc \<Rightarrow> bool" where
  "acc_ok R acc \<longleftrightarrow> (\<forall>t\<in>set (acc_todos acc). length (td_alias t) \<le> 50 \<and> distinct (R (td_related t)) \<and>
     map_of (acc_rel acc) (td_related t) = Some (R (td_related t)))"

lemma bulk_create_with_m2m_ok:
  assumes "todo_db_ok db now" "acc_ok R acc"
  shows "\<exists>n db'. bulk_create_with_m2m now (acc_todos acc) (acc_rel acc) db = (Inr n, db') \<and>
     db_advisories db' = db_advisories db \<and> db_aliases db' = db_aliases db \<and>
     map fst (db_todos db') = bulk_create todo_conflict (acc_todos acc) (map fst (db_todos db)) \<and>
     (\<forall>r\<in>set (db_todos db'). snd r \<le> now) \<and>
     db_related db' = db_related db @ rel_rows R (map fst (db_todos db')) (length (db_todos db)) (length (db_todos db'))"
proof (cases "acc_todos acc = []")
  case True
  have "\<forall>r\<in>set (db_todos db). snd r \<le> now"
    using assms(1) by (auto simp: todo_db_ok_def intro: less_imp_le)
  then show ?thesis by (intro exI [of _ 0] exI [of _ db]) (simp add: bulk_create_with_m2m_def rel_rows_def True)
next
  case False
  let ?rows = "bulk_create (\<lambda>a b. todo_conflict (fst a) (fst b)) (map (\<lambda>t. (t, now)) (acc_todos acc)) (db_todos db)"
  obtain new where new: "?rows = db_todos db @ new" "set new \<subseteq> set (map (\<lambda>t. (t, now)) (acc_todos acc))"
    using bulk_create_prefix [of "\<lambda>a b. todo_conflict (fst a) (fst b)" "map (\<lambda>t. (t, now)) (acc_todos acc)" "db_todos db"]
    by - (elim exE conjE, rule that; assumption)
  let ?N = "[length (db_todos db)..<length (db_todos db) + length new]"
  have long: "\<not> list_ex (\<lambda>t. 50 < length (td_alias t)) (acc_todos acc)"
    using assms(2) by (auto simp: list_ex_iff acc_ok_def)
  have now: "\<forall>r\<in>set new. snd r = now" using new(2) by auto
  have N: "rows_where (\<lambda>r. now \<le> snd r) ?rows = ?N"
    unfolding new(1) using assms(1) now by (intro rows_where_appended) (auto simp: todo_db_ok_def)
  have at: "fst (?rows ! i) \<in> set (acc_todos acc)" if "i \<in> set ?N" for i
  proof -
    have "?rows ! i \<in> set new" using that by (auto simp: new(1) nth_append)
    with new(2) show ?thesis by auto
  qed
  have rel: "map_result (\<lambda>i. map_sum id (map (Pair i)) (dict_lookup (acc_rel acc) (td_related (fst (?rows ! i))))) ?N =
      Inr (map (\<lambda>i. map (Pair i) (R (td_related (fst (?rows ! i))))) ?N)"
    using at assms(2) by (intro map_result_all_Inr) (auto simp: dict_lookup_def acc_ok_def)
  have idx: "fst (?rows ! i) = map fst ?rows ! i" if "i \<in> set ?N" for i
    using that by (subst nth_map) (auto simp: new(1))
  have conc: "concat (map (\<lambda>i. map (Pair i) (R (td_related (fst (?rows ! i))))) ?N) =
      rel_rows R (map fst ?rows) (length (db_todos db)) (length ?rows)"
    unfolding rel_rows_def using idx by (intro arg_cong [where f = concat] map_cong) (auto simp: new(1))
  have dist: "distinct (rel_rows R (map fst ?rows) (length (db_todos db)) (length ?rows))"
  proof (rule distinct_rel_rows, rule ballI)
    fix i assume "i \<in> {length (db_todos db)..<length ?rows}"
    then have i: "i \<in> set ?N" by (simp add: new(1))
    have "distinct (R (td_related (fst (?rows ! i))))" using at [OF i] assms(2) unfolding acc_ok_def by blast
    then show "distinct (R (td_related (map fst ?rows ! i)))" unfolding idx [OF i] .
  qed
  have dis: "set (rel_rows R (map fst ?rows) (length (db_todos db)) (length ?rows)) \<inter> set (db_related db) = {}"
  proof (rule equals0I)
    fix x assume x: "x \<in> set (rel_rows R (map fst ?rows) (length (db_todos db)) (length ?rows)) \<inter> set (db_related db)"
    then have "(fst x, snd x) \<in> set (rel_rows R (map fst ?rows) (length (db_todos db)) (length ?rows))" by simp
    from rel_rows_ids [OF this] have "length (db_todos db) \<le> fst x" by simp
    moreover have "fst x < length (db_todos db)" using x assms(1) by (simp add: todo_db_ok_def)
    ultimately show False by simp
  qed
  let ?db = "db\<lparr>db_todos := ?rows,
     db_related := db_related db @ rel_rows R (map fst ?rows) (length (db_todos db)) (length ?rows)\<rparr>"
  have run: "bulk_create_with_m2m now (acc_todos acc) (acc_rel acc) db = (Inr (length ?N), ?db)"
    using False long unfolding bulk_create_with_m2m_def Let_def
    by (simp only: if_False N rel sum.case conc dist dis simp_thms if_True)
  have le: "\<forall>r\<in>set ?rows. snd r \<le> now"
    using assms(1) now by (auto simp: new(1) todo_db_ok_def intro: less_imp_le)
  show ?thesis
    by (intro exI [of _ "length ?N"] exI [of _ ?db] conjI)
      (use run le in \<open>simp_all add: bulk_create_map_fst\<close>)
qed

text \<open>What the loop maintains: writing what is pending completes the writing of all that was found.\<close>

definition loop_inv ::
    "(string \<Rightarrow> nat list) \<Rightarrow> (nat \<Rightarrow> int) \<Rightarrow> ('r, 'd) todo_db \<Rightarrow> ('d todo \<times> nat list) list \<Rightarrow> 'd todo_acc \<Rightarrow>
       nat \<times> ('r, 'd) todo_db \<Rightarrow> bool" where
  "loop_inv R clk base ns acc x \<longleftrightarrow> (case x of (n, db) \<Rightarrow>
     acc_ok R acc \<and> todo_db_ok db (clk n) \<and> db_advisories db = db_advisories base \<and> db_aliases db = db_aliases base \<and>
     bulk_create todo_conflict (acc_todos acc) (map fst (db_todos db)) =
       bulk_create todo_conflict (map fst ns) (map fst (db_todos base)) \<and>
     length (db_todos base) \<le> length (db_todos db) \<and>
     db_related db = db_related base @ rel_rows R (map fst (db_todos db)) (length (db_todos base)) (length (db_todos db)))"

definition all_written :: "'d todo_acc \<Rightarrow> nat \<times> ('r, 'd) todo_db \<Rightarrow> bool" where
  "all_written acc x \<longleftrightarrow> bulk_create todo_conflict (acc_todos acc) (map fst (db_todos (snd x))) = map fst (db_todos (snd x))"

lemma flush_inv:
  assumes inv: "loop_inv R clk base ns acc (n, db)" and clk: "clk n < clk (Suc n)"
  shows "\<exists>db'. flush clk acc (n, db) = (None, Suc n, db') \<and> loop_inv R clk base ns acc (Suc n, db') \<and>
     loop_inv R clk base ns (clear_acc acc) (Suc n, db') \<and> all_written acc (Suc n, db') \<and>
     all_written (clear_acc acc) (Suc n, db')"
proof -
  from inv have i: "acc_ok R acc" "todo_db_ok db (clk n)" "db_advisories db = db_advisories base" "db_aliases db = db_aliases base"
      "bulk_create todo_conflict (acc_todos acc) (map fst (db_todos db)) =
         bulk_create todo_conflict (map fst ns) (map fst (db_todos base))"
      "length (db_todos base) \<le> length (db_todos db)"
      "db_related db = db_related base @ rel_rows R (map fst (db_todos db)) (length (db_todos base)) (length (db_todos db))"
    by (simp_all add: loop_inv_def)
  from bulk_create_with_m2m_ok [OF i(2,1)] obtain k db' where w:
      "bulk_create_with_m2m (clk n) (acc_todos acc) (acc_rel acc) db = (Inr k, db')"
      "db_advisories db' = db_advisories db" "db_aliases db' = db_aliases db"
      "map fst (db_todos db') = bulk_create todo_conflict (acc_todos acc) (map fst (db_todos db))"
      "\<forall>r\<in>set (db_todos db'). snd r \<le> clk n"
      "db_related db' = db_related db @ rel_rows R (map fst (db_todos db')) (length (db_todos db)) (length (db_todos db'))"
    by - (elim exE conjE, rule that; assumption)
  obtain us where us: "map fst (db_todos db') = map fst (db_todos db) @ us"
    using bulk_create_prefix [of todo_conflict "acc_todos acc" "map fst (db_todos db)"] w(4) by auto
  then have len: "length (db_todos db) \<le> length (db_todos db')" by (metis length_append length_map le_add1)
  have rel: "db_related db' = db_related base @ rel_rows R (map fst (db_todos db')) (length (db_todos base)) (length (db_todos db'))"
  proof -
    have "rel_rows R (map fst (db_todos db)) (length (db_todos base)) (length (db_todos db)) =
        rel_rows R (map fst (db_todos db')) (length (db_todos base)) (length (db_todos db))"
      unfolding us by (rule rel_rows_prefix [symmetric]) simp
    then show ?thesis
      unfolding rel_rows_split [OF i(6) len, of R "map fst (db_todos db')"] w(6) i(7) by simp
  qed
  have ok: "todo_db_ok db' (clk (Suc n))"
    unfolding todo_db_ok_def
  proof (intro conjI ballI)
    fix r assume "r \<in> set (db_todos db')"
    with w(5) clk show "snd r < clk (Suc n)" by (meson le_less_trans)
  next
    fix x assume "x \<in> set (db_related db')"
    then consider "x \<in> set (db_related db)" |
        "(fst x, snd x) \<in> set (rel_rows R (map fst (db_todos db')) (length (db_todos db)) (length (db_todos db')))"
      using w(6) by auto
    then show "fst x < length (db_todos db')"
    proof cases
      case 1
      with i(2) len show ?thesis by (auto simp: todo_db_ok_def intro: less_le_trans)
    next
      case 2
      from rel_rows_ids [OF this] show ?thesis by simp
    qed
  qed
  have f: "flush clk acc (n, db) = (None, Suc n, db')" by (simp add: flush_def w(1))
  have tw: "bulk_create todo_conflict (acc_todos acc) (map fst (db_todos db')) = map fst (db_todos db')"
    unfolding w(4) by (rule bulk_create_twice)
  have 1: "loop_inv R clk base ns acc (Suc n, db')"
    unfolding loop_inv_def prod.case tw using i(1,3-6) w(2-4) ok rel len by simp
  have 2: "loop_inv R clk base ns (clear_acc acc) (Suc n, db')"
    unfolding loop_inv_def prod.case using i(1,3-6) w(2-4) ok rel len by (simp add: clear_acc_def acc_ok_def)
  from f 1 2 tw show ?thesis by (auto simp: all_written_def clear_acc_def)
qed

lemma add_todos_simps [simp]:
  "acc_todos (add_todos new acc) = acc_todos acc @ map fst new" "acc_existing (add_todos new acc) = acc_existing acc"
  by (induction new arbitrary: acc) (auto simp: add_todos_def add_todo_def split: prod.splits)

lemma acc_ok_add_todos:
  "acc_ok R acc \<Longrightarrow> \<forall>(t, pks)\<in>set new. pks = R (td_related t) \<and> distinct pks \<and> length (td_alias t) \<le> 50 \<Longrightarrow>
   acc_ok R (add_todos new acc)"
proof (induction new arbitrary: acc)
  case (Cons x new)
  obtain t pks where x: "x = (t, pks)" by force
  have "acc_ok R (add_todo t pks acc)"
    using Cons.prems by (auto simp: acc_ok_def add_todo_def x)
  then have "acc_ok R (add_todos new (add_todo t pks acc))" using Cons.prems(2) by (intro Cons.IH) auto
  then show ?case by (simp add: add_todos_def x)
qed (simp add: add_todos_def)

lemma loop_inv_add:
  assumes "loop_inv R clk base ns acc x"
      "\<forall>(t, pks)\<in>set new. pks = R (td_related t) \<and> distinct pks \<and> length (td_alias t) \<le> 50"
  shows "loop_inv R clk base (ns @ new) (add_todos new acc\<lparr>acc_existing := ex\<rparr>) x"
proof -
  have "acc_ok R (add_todos new acc)" using assms by (intro acc_ok_add_todos) (auto simp: loop_inv_def)
  then have ok: "acc_ok R (add_todos new acc\<lparr>acc_existing := ex\<rparr>)" by (simp add: acc_ok_def)
  show ?thesis
    using assms(1) ok by (auto simp: loop_inv_def bulk_create_append)
qed

text \<open>
  The contract of a check, and what a loop over it does whatever the size of its batches: it writes what
  the check finds, once, as one creation of everything at the end would.
\<close>

locale todo_check =
  fixes check :: "'a \<Rightarrow> 'd todo_acc \<Rightarrow> 'd todo_acc option result"
    and found :: "'a \<Rightarrow> string list \<Rightarrow> (('d todo \<times> nat list) list \<times> string list) option result"
  assumes check_found: "check i acc =
    map_sum id (map_option (\<lambda>(new, ex). add_todos new acc\<lparr>acc_existing := ex\<rparr>)) (found i (acc_existing acc))"
begin

lemma todo_loop_ok:
  assumes "all_found found is (acc_existing acc) = Inr news" "loop_inv R clk base ns acc (n, db)"
      "\<forall>(t, pks)\<in>set news. pks = R (td_related t) \<and> distinct pks \<and> length (td_alias t) \<le> 50"
      "\<And>n. clk n < clk (Suc n)" "each \<longrightarrow> all_written acc (n, db)"
  shows "\<exists>acc' n' db'. todo_loop clk batch each check is acc (n, db) = (None, acc', n', db') \<and>
    loop_inv R clk base (ns @ news) acc' (n', db') \<and> (each \<longrightarrow> all_written acc' (n', db'))"
  using assms(1-3,5)
proof (induction "is" arbitrary: acc n db ns news)
  case Nil
  then show ?case by simp
next
  case (Cons i "is")
  show ?case
  proof (cases "found i (acc_existing acc)")
    case (Inl e)
    with Cons.prems(1) show ?thesis by simp
  next
    case (Inr r)
    show ?thesis
    proof (cases r)
      case None
      with Inr Cons show ?thesis by (simp add: check_found)
    next
      case (Some p)
      obtain new ex where p: "p = (new, ex)" by force
      let ?acc = "add_todos new acc\<lparr>acc_existing := ex\<rparr>"
      have c: "check i acc = Inr (Some ?acc)" by (simp add: check_found Inr Some p)
      obtain rest where rest: "all_found found is ex = Inr rest" "news = new @ rest"
        using Cons.prems(1) Inr Some p by (cases "all_found found is ex") auto
      have inv: "loop_inv R clk base (ns @ new) ?acc (n, db)"
        using Cons.prems(2,3) rest(2) by (intro loop_inv_add) auto
      have "\<exists>n1 db1. (if batch < length (acc_todos ?acc) then flush clk ?acc (n, db) else (None, (n, db))) = (None, (n1, db1)) \<and>
          loop_inv R clk base (ns @ new) (if batch < length (acc_todos ?acc) then clear_acc ?acc else ?acc) (n1, db1)"
        using flush_inv [OF inv assms(4)] inv by auto
      then obtain n1 db1 where 1:
          "(if batch < length (acc_todos ?acc) then flush clk ?acc (n, db) else (None, (n, db))) = (None, (n1, db1))"
          "loop_inv R clk base (ns @ new) (if batch < length (acc_todos ?acc) then clear_acc ?acc else ?acc) (n1, db1)"
        by - (elim exE conjE, rule that; assumption)
      obtain acc1 where acc1: "(if batch < length (acc_todos ?acc) then clear_acc ?acc else ?acc) = acc1" "acc_existing acc1 = ex"
        by (simp add: clear_acc_def)
      have inv1: "loop_inv R clk base (ns @ new) acc1 (n1, db1)" using 1(2) unfolding acc1(1) .
      have step2: "\<exists>n2 db2. (if each then flush clk acc1 (n1, db1) else (None, (n1, db1))) = (None, (n2, db2)) \<and>
          loop_inv R clk base (ns @ new) acc1 (n2, db2) \<and> (each \<longrightarrow> all_written acc1 (n2, db2))"
        using flush_inv [OF inv1 assms(4)] inv1 by auto
      then obtain n2 db2 where 2: "(if each then flush clk acc1 (n1, db1) else (None, (n1, db1))) = (None, (n2, db2))"
          "loop_inv R clk base (ns @ new) acc1 (n2, db2)" "each \<longrightarrow> all_written acc1 (n2, db2)"
        by - (elim exE conjE, rule that; assumption)
      have run: "todo_loop clk batch each check (i # is) acc (n, db) = todo_loop clk batch each check is acc1 (n2, db2)"
        by (simp only: todo_loop.simps c sum.case option.case 1(1) prod.case Let_def acc1(1) 2(1))
      have "\<exists>acc' n' db'. todo_loop clk batch each check is acc1 (n2, db2) = (None, acc', n', db') \<and>
          loop_inv R clk base ((ns @ new) @ rest) acc' (n', db') \<and> (each \<longrightarrow> all_written acc' (n', db'))"
        using rest Cons.prems(3) 2(2,3) by (intro Cons.IH) (auto simp: acc1(2))
      with run rest(2) show ?thesis by simp
    qed
  qed
qed

theorem run_check_ok:
  assumes "all_found found is (acc_existing acc) = Inr news" "acc_todos acc = []"
      "\<forall>(t, pks)\<in>set news. pks = R (td_related t) \<and> distinct pks \<and> length (td_alias t) \<le> 50"
      "\<And>n. clk n < clk (Suc n)" "todo_db_ok db (clk 0)"
  shows "\<exists>db'. run_check clk batch each check is acc db = (None, db') \<and>
    db_advisories db' = db_advisories db \<and> db_aliases db' = db_aliases db \<and>
    map fst (db_todos db') = bulk_create todo_conflict (map fst news) (map fst (db_todos db)) \<and>
    db_related db' = db_related db @ rel_rows R (map fst (db_todos db')) (length (db_todos db)) (length (db_todos db'))"
proof -
  have "loop_inv R clk db [] acc (0, db)"
    using assms(2,5) by (simp add: loop_inv_def acc_ok_def rel_rows_def)
  from todo_loop_ok [OF assms(1) this assms(3,4), of each batch] assms(2) obtain acc' n' db' where 1:
      "todo_loop clk batch each check is acc (0, db) = (None, acc', n', db')"
      "loop_inv R clk db news acc' (n', db')" "each \<longrightarrow> all_written acc' (n', db')"
    by (auto simp: all_written_def)
  obtain db2 where 2: "run_check clk batch each check is acc db = (None, db2)"
      "loop_inv R clk db news acc' (if each then n' else Suc n', db2)" "all_written acc' (if each then n' else Suc n', db2)"
  proof (cases each)
    case True
    with 1 show ?thesis by (intro that [of db']) (simp_all add: run_check_def)
  next
    case False
    from flush_inv [OF 1(2) assms(4)] obtain db2 where "flush clk acc' (n', db') = (None, Suc n', db2)"
        "loop_inv R clk db news acc' (Suc n', db2)" "all_written acc' (Suc n', db2)"
      by - (elim exE conjE, rule that; assumption)
    with False 1(1) show ?thesis by (intro that [of db2]) (simp_all add: run_check_def)
  qed
  then show ?thesis by (intro exI [of _ db2]) (simp add: loop_inv_def all_written_def)
qed

end

section \<open>The checks meet the contract\<close>

text \<open>What a check finds is what it adds to an accumulator with nothing pending.\<close>

definition found_of ::
    "('d todo_acc \<Rightarrow> 'd todo_acc option result) \<Rightarrow> string list \<Rightarrow> (('d todo \<times> nat list) list \<times> string list) option result" where
  "found_of f ex =
     map_sum id (map_option (\<lambda>a. (map (\<lambda>t. (t, dict_get (acc_rel a) (td_related t) [])) (acc_todos a), acc_existing a)))
       (f (empty_acc\<lparr>acc_existing := ex\<rparr>))"

definition fresh_todos :: "string list \<Rightarrow> ('d todo \<times> nat list) list \<Rightarrow> string list \<Rightarrow> bool" where
  "fresh_todos ex new ex' \<longleftrightarrow> distinct (map (td_related \<circ> fst) new) \<and> (td_related \<circ> fst) ` set new \<inter> set ex = {} \<and>
     set ex' = set ex \<union> (td_related \<circ> fst) ` set new"

definition only_adds :: "('d todo_acc \<Rightarrow> 'd todo_acc option result) \<Rightarrow> bool" where
  "only_adds f \<longleftrightarrow>
     (\<forall>acc. f acc = map_sum id (map_option (\<lambda>(new, ex). add_todos new acc\<lparr>acc_existing := ex\<rparr>)) (found_of f (acc_existing acc))) \<and>
     (\<forall>ex new ex'. found_of f ex = Inr (Some (new, ex')) \<longrightarrow> fresh_todos ex new ex')"

named_theorems only_adds_intros "checks that only add to-dos"

lemma add_todos_Nil [simp]: "add_todos [] acc = acc"
  by (simp add: add_todos_def)

lemma add_todos_Cons [simp]: "add_todos ((t, pks) # new) acc = add_todos new (add_todo t pks acc)"
  by (simp add: add_todos_def)

lemma only_adds_const [only_adds_intros]:
  "only_adds (\<lambda>acc. Inl e)" "only_adds (\<lambda>acc. Inr None)" "only_adds (\<lambda>acc. Inr (Some acc))"
  by (simp_all add: only_adds_def found_of_def empty_acc_def fresh_todos_def)

lemma only_adds_raise [only_adds_intros]: "only_adds (\<lambda>acc. Inr (Some (snd (raise_todo E alias issue detail advs n acc))))"
  by (auto simp: only_adds_def found_of_def raise_todo_def Let_def add_todo_def empty_acc_def dict_get_def fresh_todos_def)

lemma only_adds_todo_check: "(\<And>i. only_adds (check i)) \<Longrightarrow> todo_check check (\<lambda>i. found_of (check i))"
  by unfold_locales (simp add: only_adds_def)

lemma only_adds_split [only_adds_intros]:
  "(\<And>e. only_adds (\<lambda>acc. F e acc)) \<Longrightarrow> (\<And>y. only_adds (\<lambda>acc. G y acc)) \<Longrightarrow>
     only_adds (\<lambda>acc. case x of Inl e \<Rightarrow> F e acc | Inr y \<Rightarrow> G y acc)"
  "only_adds (\<lambda>acc. F0 acc) \<Longrightarrow> only_adds (\<lambda>acc. G0 acc) \<Longrightarrow> only_adds (\<lambda>acc. if b then F0 acc else G0 acc)"
  "(\<And>a c. only_adds (\<lambda>acc. H a c acc)) \<Longrightarrow> only_adds (\<lambda>acc. case p of (a, c) \<Rightarrow> H a c acc)"
  by (cases x; cases b; cases p; simp)+

text \<open>The same for a check that returns its counts with the accumulator.\<close>

definition counted_adds :: "('d todo_acc \<Rightarrow> ((nat \<times> nat) \<times> 'd todo_acc) result) \<Rightarrow> bool" where
  "counted_adds F \<longleftrightarrow> only_adds (\<lambda>acc. map_sum id (\<lambda>r. Some (snd r)) (F acc))"

lemma counted_adds_intros [only_adds_intros]:
  "counted_adds (\<lambda>acc. Inl e)" "counted_adds (\<lambda>acc. Inr (c, acc))"
  "counted_adds (\<lambda>acc. Inr (raise_todo E alias issue detail advs n acc))"
  "(\<And>e. counted_adds (\<lambda>acc. F e acc)) \<Longrightarrow> (\<And>y. counted_adds (\<lambda>acc. G y acc)) \<Longrightarrow>
     counted_adds (\<lambda>acc. case x of Inl e \<Rightarrow> F e acc | Inr y \<Rightarrow> G y acc)"
  "(\<And>y. counted_adds (\<lambda>acc. G y acc)) \<Longrightarrow> counted_adds (\<lambda>acc. bind_result x (\<lambda>y. G y acc))"
  "counted_adds (\<lambda>acc. F0 acc) \<Longrightarrow> counted_adds (\<lambda>acc. G0 acc) \<Longrightarrow> counted_adds (\<lambda>acc. if b then F0 acc else G0 acc)"
  "(\<And>a c. counted_adds (\<lambda>acc. H a c acc)) \<Longrightarrow> counted_adds (\<lambda>acc. case p of (a, c) \<Rightarrow> H a c acc)"
  by (cases x; cases b; cases p; simp add: counted_adds_def only_adds_const only_adds_raise)+

lemma counted_adds_weaknesses: "counted_adds (check_conflicting_weaknesses_for_alias E alias avids groups details)"
  unfolding check_conflicting_weaknesses_for_alias_def Let_def by (intro only_adds_intros)

lemma counted_adds_cvss: "counted_adds (check_conflicting_cvss_for_alias E dec alias comparable avids curations)"
  unfolding check_conflicting_cvss_for_alias_def Let_def by (intro only_adds_intros)

lemma counted_adds_packages: "counted_adds (check_conflicting_affected_and_fixed_by_packages_for_alias E alias pam advs)"
  unfolding check_conflicting_affected_and_fixed_by_packages_for_alias_def Let_def by (intro only_adds_intros)

lemma only_adds_counted: "counted_adds F \<Longrightarrow> only_adds (\<lambda>acc. map_sum id (\<lambda>r. Some (snd r)) (F acc))"
  by (simp add: counted_adds_def)

lemma only_adds_weakness: "only_adds (weakness_alias E alias advs)"
  unfolding weakness_alias_def by (intro only_adds_intros only_adds_counted counted_adds_weaknesses)

lemma only_adds_cvss: "only_adds (cvss_alias E dec alias advs)"
  unfolding cvss_alias_def Let_def by (intro only_adds_intros only_adds_counted counted_adds_cvss)

lemma only_adds_map_None [only_adds_intros]: "only_adds (\<lambda>acc. map_sum id (\<lambda>_. None) r)"
  by (cases r) (simp_all add: only_adds_const)

lemma only_adds_packages: "only_adds (packages_alias E alias advs)"
  unfolding packages_alias_def Let_def by (intro only_adds_intros only_adds_counted counted_adds_packages)

text \<open>The individual check: at most one to-do of each kind, for the advisory itself.\<close>

definition missing_issues :: "('r, 'd) todo_adv \<Rightarrow> string list" where
  "missing_issues a =
     (let aff = list_ex (\<lambda>im. truthy_opt (ti_affecting_vers im)) (ta_impacts a);
          fixd = list_ex (\<lambda>im. truthy_opt (ti_fixed_vers im)) (ta_impacts a)
      in (if ta_summary a = [] then [''MISSING_SUMMARY''] else []) @
         (if aff \<and> fixd then []
          else if aff then [''MISSING_FIXED_BY_PACKAGE'']
          else if fixd then [''MISSING_AFFECTED_PACKAGE'']
          else [''MISSING_AFFECTED_AND_FIXED_BY_PACKAGES'']))"

lemma has_ranges_eq:
  "has_ranges aff fixd ims =
     (aff \<or> list_ex (\<lambda>im. truthy_opt (ti_affecting_vers im)) ims, fixd \<or> list_ex (\<lambda>im. truthy_opt (ti_fixed_vers im)) ims)"
  by (induction ims arbitrary: aff fixd) auto

definition missing_todos :: "('r, 'v, 'd) todo_env \<Rightarrow> ('r, 'd) todo_adv \<Rightarrow> ('d todo \<times> nat list) list" where
  "missing_todos E a = map (\<lambda>issue. (single_todo (todo_checksum E [a]) issue a, [ta_pk a])) (missing_issues a)"

lemma missing_check_eq: "missing_check E a acc = Inr (Some (add_todos (missing_todos E a) acc))"
  by (simp add: missing_check_def missing_todos_def missing_issues_def check_missing_summary_def
      check_missing_affected_and_fixed_by_packages_def has_ranges_eq Let_def)

interpretation missing: todo_check "missing_check E" "\<lambda>a ex. Inr (Some (missing_todos E a, ex))"
  for E :: "('r, 'v, 'd) todo_env"
  by unfold_locales (simp add: missing_check_eq)

interpretation packages_pass: todo_check "\<lambda>al. packages_alias E al (advs al)" "\<lambda>al. found_of (packages_alias E al (advs al))"
  for E :: "('r, 'v::linorder, 'd::linorder) todo_env" and advs
  by (rule only_adds_todo_check [OF only_adds_packages])

interpretation cvss_pass: todo_check "\<lambda>al. cvss_alias E dec al (advs al)" "\<lambda>al. found_of (cvss_alias E dec al (advs al))"
  for E :: "('r, 'v, 'd::linorder) todo_env" and dec advs
  by (rule only_adds_todo_check [OF only_adds_cvss])

interpretation weakness_pass: todo_check "\<lambda>al. weakness_alias E al (advs al)" "\<lambda>al. found_of (weakness_alias E al (advs al))"
  for E :: "('r, 'v, 'd::linorder) todo_env" and advs
  by (rule only_adds_todo_check [OF only_adds_weakness])

text \<open>The identifiers a whole pass finds are new and different, so all its to-dos become rows.\<close>

lemma all_found_fresh:
  assumes "\<And>i. only_adds (check i)"
  shows "all_found (\<lambda>i. found_of (check i)) is ex = Inr news \<Longrightarrow>
    distinct (map (td_related \<circ> fst) news) \<and> (td_related \<circ> fst) ` set news \<inter> set ex = {}"
proof (induction "is" arbitrary: ex news)
  case (Cons i "is")
  then show ?case
  proof (cases "found_of (check i) ex")
    case (Inr r)
    show ?thesis
    proof (cases r)
      case None
      with Inr Cons show ?thesis by simp
    next
      case (Some p)
      obtain new ex' where p: "p = (new, ex')" by force
      with Cons.prems Inr Some obtain rest where rest: "all_found (\<lambda>i. found_of (check i)) is ex' = Inr rest" "news = new @ rest"
        by (cases "all_found (\<lambda>i. found_of (check i)) is ex'") auto
      have f: "fresh_todos ex new ex'" using assms [of i] Inr Some p by (simp add: only_adds_def)
      from Cons.IH [OF rest(1)] f show ?thesis
        unfolding fresh_todos_def rest(2) by (auto simp: comp_def)
    qed
  qed simp
qed simp

lemma bulk_create_fresh:
  "distinct (map td_related xs) \<Longrightarrow> td_related ` set xs \<inter> td_related ` set t = {} \<Longrightarrow>
   bulk_create todo_conflict xs t = t @ xs"
proof (induction xs arbitrary: t)
  case (Cons x xs)
  then have "\<not> list_ex (todo_conflict x) t" by (auto simp: list_ex_iff todo_conflict_def)
  moreover have "bulk_create todo_conflict xs (t @ [x]) = (t @ [x]) @ xs" using Cons by (intro Cons.IH) auto
  ultimately show ?case by simp
qed simp

text \<open>The rows and the relations that a pass adds: the \<open>k\<close>-th found to-do, with its advisories.\<close>

definition new_relations :: "nat \<Rightarrow> ('d todo \<times> nat list) list \<Rightarrow> (nat \<times> nat) list" where
  "new_relations k news = concat (map (\<lambda>(i, _, pks). map (Pair i) pks) (enumerate k news))"

definition written :: "('r, 'd) todo_db \<Rightarrow> ('d todo \<times> nat list) list \<Rightarrow> ('r, 'd) todo_db \<Rightarrow> bool" where
  "written db news db' \<longleftrightarrow> db_advisories db' = db_advisories db \<and> db_aliases db' = db_aliases db \<and>
     map fst (db_todos db') = map fst (db_todos db) @ map fst news \<and>
     db_related db' = db_related db @ new_relations (length (db_todos db)) news"

lemma rel_rows_news:
  assumes "\<forall>(t, pks)\<in>set news. pks = R (td_related t)"
  shows "rel_rows R (ts @ map fst news) (length ts) (length ts + length news) = new_relations (length ts) news"
proof -
  have "map (\<lambda>i. map (Pair i) (R (td_related ((ts @ map fst news) ! i)))) [length ts..<length ts + length news] =
      map (\<lambda>(i, _, pks). map (Pair i) pks) (enumerate (length ts) news)"
  proof (rule nth_equalityI)
    fix j assume "j < length (map (\<lambda>i. map (Pair i) (R (td_related ((ts @ map fst news) ! i)))) [length ts..<length ts + length news])"
    then have j: "j < length news" by simp
    obtain t pks where n: "news ! j = (t, pks)" by force
    then have "(t, pks) \<in> set news" using j by (metis nth_mem)
    with assms have "pks = R (td_related t)" by auto
    with j n show "map (\<lambda>i. map (Pair i) (R (td_related ((ts @ map fst news) ! i)))) [length ts..<length ts + length news] ! j =
        map (\<lambda>(i, _, pks). map (Pair i) pks) (enumerate (length ts) news) ! j"
      by (simp add: nth_enumerate_eq nth_append)
  qed simp
  then show ?thesis by (simp add: rel_rows_def new_relations_def)
qed

lemma conflict_pass_ok:
  assumes "\<And>i. only_adds (check i)" "\<And>n. clk n < clk (Suc n)" "todo_db_ok db (clk 0)"
      "all_found (\<lambda>i. found_of (check i)) is (acc_existing (existing_acc db)) = Inr news"
      "\<forall>(t, pks)\<in>set news. distinct pks \<and> length (td_alias t) \<le> 50"
  shows "\<exists>db'. run_check clk batch each check is (existing_acc db) db = (None, db') \<and> written db news db'"
proof -
  let ?R = "\<lambda>i. dict_get (map (\<lambda>(t, pks). (td_related t, pks)) news) i []"
  have ex: "set (acc_existing (existing_acc db)) = td_related ` set (map fst (db_todos db))"
    by (auto simp: existing_acc_def dedupe_first_occurrences image_image case_prod_unfold)
  have fresh: "distinct (map (td_related \<circ> fst) news)" "(td_related \<circ> fst) ` set news \<inter> td_related ` set (map fst (db_todos db)) = {}"
    using all_found_fresh [OF assms(1,4)] unfolding ex by blast+
  have R: "\<forall>(t, pks)\<in>set news. pks = ?R (td_related t)"
  proof (intro ballI, clarify)
    fix t pks assume m: "(t, pks) \<in> set news"
    have "distinct (map fst (map (\<lambda>(t, pks). (td_related t, pks)) news))"
      using fresh(1) by (simp add: comp_def case_prod_unfold)
    then have "map_of (map (\<lambda>(t, pks). (td_related t, pks)) news) (td_related t) = Some pks"
      using m by (auto intro!: map_of_is_SomeI image_eqI [of _ _ "(t, pks)"])
    then show "pks = ?R (td_related t)" by (simp add: dict_get_def)
  qed
  have R2: "\<forall>(t, pks)\<in>set news. pks = ?R (td_related t) \<and> distinct pks \<and> length (td_alias t) \<le> 50"
    using R assms(5) by blast
  have run: "\<exists>db'. run_check clk batch each check is (existing_acc db) db = (None, db') \<and>
    db_advisories db' = db_advisories db \<and> db_aliases db' = db_aliases db \<and>
    map fst (db_todos db') = bulk_create todo_conflict (map fst news) (map fst (db_todos db)) \<and>
    db_related db' = db_related db @ rel_rows ?R (map fst (db_todos db')) (length (db_todos db)) (length (db_todos db'))"
    by (rule todo_check.run_check_ok [OF only_adds_todo_check [OF assms(1)] assms(4) _ R2 assms(2,3)])
      (simp add: existing_acc_def empty_acc_def)
  have bc: "bulk_create todo_conflict (map fst news) (map fst (db_todos db)) = map fst (db_todos db) @ map fst news"
    using fresh by (intro bulk_create_fresh) (simp_all add: comp_def image_image)
  from run obtain db' where 1: "run_check clk batch each check is (existing_acc db) db = (None, db')"
      "db_advisories db' = db_advisories db" "db_aliases db' = db_aliases db"
      "map fst (db_todos db') = map fst (db_todos db) @ map fst news"
      "db_related db' = db_related db @ rel_rows ?R (map fst (db_todos db')) (length (db_todos db)) (length (db_todos db'))"
    unfolding bc by - (elim exE conjE, rule that; assumption)
  have len: "length (db_todos db') = length (db_todos db) + length news"
    using arg_cong [OF 1(4), of length] by simp
  have "db_related db' = db_related db @ new_relations (length (db_todos db)) news"
    using rel_rows_news [OF R, of "map fst (db_todos db)"] by (simp add: 1(5) 1(4) len)
  with 1 show ?thesis unfolding written_def by (intro exI [of _ db'] conjI)
qed

section \<open>The pass over the weaknesses\<close>

lemma distinct_alias_advisories:
  assumes "distinct (map f advs)" "inj_on ta_pk (set advs)"
  shows "distinct (map f (alias_advisories advs al))"
proof -
  have inj: "inj_on f (set advs)" and d: "distinct advs" using assms(1) by (simp_all add: distinct_map)
  have sub: "set (alias_advisories advs al) \<subseteq> set advs" by (auto simp: alias_advisories_def)
  have "distinct (alias_advisories advs al)" using d by (auto simp: alias_advisories_def)
  with inj sub show ?thesis by (auto simp: distinct_map intro: inj_on_subset)
qed

lemma raise_todo_found:
  "found_of (\<lambda>acc. Inr (Some (snd (raise_todo E alias issue detail advs n acc)))) ex =
     (if todo_checksum E advs \<in> set ex then Inr (Some ([], ex))
      else Inr (Some ([(\<lparr>td_related = todo_checksum E advs, td_issue = issue, td_detail = detail, td_alias = alias,
                td_count = length advs, td_oldest = oldest_date advs\<rparr>, map ta_pk advs)], set_update ex [todo_checksum E advs])))"
  by (simp add: found_of_def raise_todo_def empty_acc_def Let_def add_todo_def dict_get_def)

definition weakness_group :: "('r, 'v, 'd) todo_env \<Rightarrow> ('r, 'd) todo_db \<Rightarrow> string \<Rightarrow> ('r, 'd) todo_adv list" where
  "weakness_group E db al = alias_advisories (filter (\<lambda>a. ta_weaknesses a \<noteq> []) (comparable_advisories E db)) al"

text \<open>What is assumed of the advisories that are compared.\<close>

definition weakness_inputs_ok :: "('r, 'v, 'd) todo_env \<Rightarrow> ('r, 'd) todo_adv list \<Rightarrow> bool" where
  "weakness_inputs_ok E advs \<longleftrightarrow> no_collision E advs \<and> list_all (known_cwes E) advs \<and> list_all (\<lambda>a. ta_precedence a \<noteq> None) advs \<and>
     distinct (map ta_avid advs) \<and> distinct (map ta_pk advs)"

lemma weakness_inputs_ok_sub:
  assumes "weakness_inputs_ok E as" "set bs \<subseteq> set as" "distinct (map ta_avid bs)" "distinct (map ta_pk bs)"
  shows "weakness_inputs_ok E bs"
  using assms(1,3,4) subsetD [OF assms(2)] by (simp add: weakness_inputs_ok_def no_collision_def list_all_iff)

text \<open>The to-do of a conflict, and the to-dos of a list of aliases.\<close>

definition weakness_todo_of :: "('r, 'v, 'd) todo_env \<Rightarrow> string \<Rightarrow> ('r, 'd) todo_adv list \<Rightarrow> 'd todo \<times> nat list \<Rightarrow> bool" where
  "weakness_todo_of E al advs x \<longleftrightarrow> cwe_conflict E advs \<and> td_related (fst x) = todo_checksum E advs \<and>
     td_issue (fst x) = ''CONFLICTING_WEAKNESSES'' \<and> td_alias (fst x) = al \<and> snd x = map ta_pk advs \<and>
     td_count (fst x) = length advs"

lemma weakness_found:
  assumes "weakness_inputs_ok E advs"
  shows "if cwe_conflict E advs
    then \<exists>new ex'. found_of (weakness_alias E al advs) ex = Inr (Some (new, ex')) \<and> set ex' = insert (todo_checksum E advs) (set ex) \<and>
       (\<forall>x\<in>set new. weakness_todo_of E al advs x) \<and> (todo_checksum E advs \<in> set ex \<or> new \<noteq> [])
    else found_of (weakness_alias E al advs) ex = Inr None"
proof (cases "cwe_conflict E advs")
  case False
  have "found_of (weakness_alias E al advs) ex = Inr None"
    using weakness_alias_same [OF _ _ False] assms by (simp add: found_of_def weakness_inputs_ok_def)
  with False show ?thesis by simp
next
  case True
  have "\<forall>a\<in>set advs. ta_precedence a \<noteq> None" using assms by (auto simp: weakness_inputs_ok_def list_all_iff)
  note wac = weakness_alias_conflict [of E advs al "empty_acc\<lparr>acc_existing := ex\<rparr>", OF _ _ this _ True]
  obtain detail n where d: "weakness_alias E al advs (empty_acc\<lparr>acc_existing := ex\<rparr>) =
      Inr (Some (snd (raise_todo E al ''CONFLICTING_WEAKNESSES'' detail advs n (empty_acc\<lparr>acc_existing := ex\<rparr>))))"
    using wac assms by (auto simp: weakness_inputs_ok_def)
  have "found_of (weakness_alias E al advs) ex =
      found_of (\<lambda>acc. Inr (Some (snd (raise_todo E al ''CONFLICTING_WEAKNESSES'' detail advs n acc)))) ex"
    by (simp add: found_of_def d)
  then show ?thesis using True by (auto simp: raise_todo_found weakness_todo_of_def)
qed

lemma weakness_all_found:
  assumes "\<And>al. weakness_inputs_ok E (advs al)"
  shows "\<exists>news. all_found (\<lambda>al. found_of (weakness_alias E al (advs al))) als ex = Inr news \<and>
    (\<forall>x\<in>set news. \<exists>al\<in>set als. weakness_todo_of E al (advs al) x) \<and>
    (\<forall>al\<in>set als. cwe_conflict E (advs al) \<longrightarrow>
       todo_checksum E (advs al) \<in> set ex \<union> (td_related \<circ> fst) ` set news)"
proof (induction als arbitrary: ex)
  case (Cons al als)
  show ?case
  proof (cases "cwe_conflict E (advs al)")
    case False
    with Cons.IH [of ex] weakness_found [OF assms, of al al ex] show ?thesis by auto
  next
    case True
    then obtain new ex' where f: "found_of (weakness_alias E al (advs al)) ex = Inr (Some (new, ex'))"
        "set ex' = insert (todo_checksum E (advs al)) (set ex)"
        "\<forall>x\<in>set new. weakness_todo_of E al (advs al) x" "todo_checksum E (advs al) \<in> set ex \<or> new \<noteq> []"
      using weakness_found [OF assms, of al al ex] by auto
    obtain news where n: "all_found (\<lambda>al. found_of (weakness_alias E al (advs al))) als ex' = Inr news"
        "\<forall>x\<in>set news. \<exists>al\<in>set als. weakness_todo_of E al (advs al) x"
        "\<forall>al\<in>set als. cwe_conflict E (advs al) \<longrightarrow> todo_checksum E (advs al) \<in> set ex' \<union> (td_related \<circ> fst) ` set news"
      using Cons.IH [of ex'] by blast
    have al: "todo_checksum E (advs al) \<in> set ex \<union> (td_related \<circ> fst) ` set (new @ news)"
    proof (cases "new = []")
      case False
      then obtain x where "x \<in> set new" by (cases new) auto
      with f(3) show ?thesis by (force simp: weakness_todo_of_def)
    qed (use f(4) in simp)
    have "\<forall>l\<in>set (al # als). cwe_conflict E (advs l) \<longrightarrow>
        todo_checksum E (advs l) \<in> set ex \<union> (td_related \<circ> fst) ` set (new @ news)"
  proof (intro ballI impI)
    fix l assume l: "l \<in> set (al # als)" "cwe_conflict E (advs l)"
    show "todo_checksum E (advs l) \<in> set ex \<union> (td_related \<circ> fst) ` set (new @ news)"
    proof (cases "l = al")
      case True
      with al show ?thesis by simp
    next
      case False
      with l n(3) have "todo_checksum E (advs l) \<in> set ex' \<union> (td_related \<circ> fst) ` set news" by simp
      with f(2) al show ?thesis unfolding set_append image_Un by (metis Un_iff insert_iff)
    qed
  qed
    moreover have "all_found (\<lambda>al. found_of (weakness_alias E al (advs al))) (al # als) ex = Inr (new @ news)"
      by (simp add: f(1) n(1))
    ultimately show ?thesis using f(3) n(2) by (intro exI [of _ "new @ news"]) auto
  qed
qed simp

text \<open>
  C14: The step on weaknesses ends without an error and finds exactly the conflicts: each row it creates
  belongs to an alias whose compared advisories report different sets of CWEs and is related to exactly
  these advisories; no group gets two rows, and none that had a to-do (of whatever kind) before; and each
  such alias has a to-do for its advisories afterwards. So a group that is new gets exactly one row, and
  the older rows and relations stay. (It needs that the database of weaknesses knows every CWE, a precedence
  for every advisory, one latest advisory per identifier, identifiers that fit their column, and no
  collision of digests.)
\<close>

theorem weakness_todos_exact:
  assumes "weakness_inputs_ok E (filter (\<lambda>a. ta_weaknesses a \<noteq> []) (comparable_advisories E db))"
      "\<And>n. clk n < clk (Suc n)" "todo_db_ok db (clk 0)" "list_all (\<lambda>al. length al \<le> 50) (db_aliases db)"
  shows "\<exists>db' news. detect_conflicting_weakness E clk db = (None, db') \<and> written db news db' \<and>
    distinct (map (td_related \<circ> fst) news) \<and>
    (\<forall>x\<in>set news. td_related (fst x) \<notin> td_related ` set (map fst (db_todos db))) \<and>
    (\<forall>x\<in>set news. \<exists>al\<in>set (db_aliases db). weakness_todo_of E al (weakness_group E db al) x) \<and>
    (\<forall>al\<in>set (db_aliases db). cwe_conflict E (weakness_group E db al) \<longrightarrow>
       (\<exists>t\<in>set (map fst (db_todos db')). td_related t = todo_checksum E (weakness_group E db al)))"
proof -
  have als: "set (ordered_aliases db) = set (db_aliases db)" by (auto simp: ordered_aliases_def Let_def)
  have ok: "weakness_inputs_ok E (weakness_group E db al)" for al
  proof -
    have pk: "inj_on ta_pk (set (filter (\<lambda>a. ta_weaknesses a \<noteq> []) (comparable_advisories E db)))"
      using assms(1) by (simp add: weakness_inputs_ok_def distinct_map)
    have "set (weakness_group E db al) \<subseteq> set (filter (\<lambda>a. ta_weaknesses a \<noteq> []) (comparable_advisories E db))"
      by (auto simp: weakness_group_def alias_advisories_def)
    then show ?thesis
      unfolding weakness_group_def
      by (rule weakness_inputs_ok_sub [OF assms(1)])
        (use assms(1) in \<open>auto simp: weakness_inputs_ok_def intro!: distinct_alias_advisories [OF _ pk]\<close>)
  qed
  obtain news where n: "all_found (\<lambda>al. found_of (weakness_alias E al (weakness_group E db al))) (ordered_aliases db)
        (acc_existing (existing_acc db)) = Inr news"
      "\<forall>x\<in>set news. \<exists>al\<in>set (db_aliases db). weakness_todo_of E al (weakness_group E db al) x"
      "\<forall>al\<in>set (db_aliases db). cwe_conflict E (weakness_group E db al) \<longrightarrow>
         todo_checksum E (weakness_group E db al) \<in> set (acc_existing (existing_acc db)) \<union> (td_related \<circ> fst) ` set news"
    using weakness_all_found [of E "weakness_group E db" "ordered_aliases db" "acc_existing (existing_acc db)", OF ok]
    unfolding als by blast
  have ex: "set (acc_existing (existing_acc db)) = td_related ` set (map fst (db_todos db))"
    by (auto simp: existing_acc_def image_image case_prod_unfold)
  have fresh: "distinct (map (td_related \<circ> fst) news)"
      "\<forall>x\<in>set news. td_related (fst x) \<notin> td_related ` set (map fst (db_todos db))"
    using all_found_fresh [OF only_adds_weakness n(1)] unfolding ex by auto
  have good: "\<forall>(t, pks)\<in>set news. distinct pks \<and> length (td_alias t) \<le> 50"
  proof (intro ballI, clarify)
    fix t pks assume "(t, pks) \<in> set news"
    with n(2) obtain al where "al \<in> set (db_aliases db)" "weakness_todo_of E al (weakness_group E db al) (t, pks)" by blast
    with ok [of al] assms(4) show "distinct pks \<and> length (td_alias t) \<le> 50"
      by (auto simp: weakness_todo_of_def weakness_inputs_ok_def list_all_iff)
  qed
  from conflict_pass_ok [OF only_adds_weakness assms(2,3) n(1) good, of 1 True] obtain db' where
    run: "detect_conflicting_weakness E clk db = (None, db')" and w: "written db news db'"
    unfolding detect_conflicting_weakness_def weakness_group_def by blast
  have "\<exists>t\<in>set (map fst (db_todos db')). td_related t = todo_checksum E (weakness_group E db al)"
    if "al \<in> set (db_aliases db)" "cwe_conflict E (weakness_group E db al)" for al
  proof -
    have "todo_checksum E (weakness_group E db al) \<in> set (acc_existing (existing_acc db)) \<union> (td_related \<circ> fst) ` set news"
      using n(3) that by blast
    moreover note ex
    moreover have "map fst (db_todos db') = map fst (db_todos db) @ map fst news" using w by (simp add: written_def)
    ultimately have "todo_checksum E (weakness_group E db al) \<in> td_related ` set (map fst (db_todos db'))"
      by (simp add: image_Un image_image comp_def flip: set_map)
    then show ?thesis by (elim imageE) (rule bexI, rule sym)
  qed
  with run w n(2) fresh show ?thesis by blast
qed

definition demo_todo_env :: "(nat, nat, nat) todo_env" where
  "demo_todo_env = \<lparr>te_ext = demo_ext,
     te_sha256 = (\<lambda>v. case v of VList xs \<Rightarrow> replicate (length xs) (CHR ''x'') | _ \<Rightarrow> []),
     te_hash = (\<lambda>v. case v of VList xs \<Rightarrow> int (length xs) | _ \<Rightarrow> 0), te_sha1 = (\<lambda>s. s),
     te_cwe = (\<lambda>w. if 0 < w then Some (''n'', ''d'', ''Base'') else None),
     te_cvss_score = (\<lambda>sys v. Inr v), te_cvss_metrics = (\<lambda>sys v. Inr [(''AV'', v)]), te_excluded = [''p'']\<rparr>"

definition demo_todo_adv :: "nat \<Rightarrow> string \<Rightarrow> int list \<Rightarrow> (nat, nat) todo_adv" where
  "demo_todo_adv pk i cwes = \<lparr>ta_pk = pk, ta_avid = ''d/'' @ i, ta_advisory_id = i, ta_datasource = ''d'', ta_pipeline = ''q'',
     ta_content_id = i, ta_latest = True, ta_unfurled_all = True, ta_summary = [], ta_published = None, ta_collected = pk,
     ta_precedence = Some 1, ta_aliases = [''CVE-1''], ta_weaknesses = cwes, ta_severities = [], ta_impacts = [],
     ta_data = demo_advisory\<rparr>"

definition demo_todo_db :: "(nat, nat) todo_db" where
  "demo_todo_db = \<lparr>db_advisories = [demo_todo_adv 5 ''A'' [79], demo_todo_adv 6 ''B'' [79, 89]],
     db_aliases = [''CVE-1''], db_todos = [], db_related = []\<rparr>"

lemma weakness_todos_exact_witness:
  "\<exists>db'. detect_conflicting_weakness demo_todo_env int demo_todo_db = (None, db') \<and>
     (\<exists>t\<in>set (map fst (db_todos db')). td_related t = ''AB'')"
proof -
  have g: "weakness_group demo_todo_env demo_todo_db ''CVE-1'' = db_advisories demo_todo_db" by code_simp
  have c: "todo_checksum demo_todo_env (db_advisories demo_todo_db) = ''AB''"
      "cwe_conflict demo_todo_env (db_advisories demo_todo_db)"
      "weakness_inputs_ok demo_todo_env
         (filter (\<lambda>a. ta_weaknesses a \<noteq> []) (comparable_advisories demo_todo_env demo_todo_db))" by code_simp+
  have clk: "int n < int (Suc n)" for n by simp
  have d: "todo_db_ok demo_todo_db (int 0)" "list_all (\<lambda>al. length al \<le> 50) (db_aliases demo_todo_db)"
      "''CVE-1'' \<in> set (db_aliases demo_todo_db)"
    by (simp_all add: todo_db_ok_def demo_todo_db_def)
  obtain db' where "detect_conflicting_weakness demo_todo_env int demo_todo_db = (None, db')"
      "\<forall>al\<in>set (db_aliases demo_todo_db). cwe_conflict demo_todo_env (weakness_group demo_todo_env demo_todo_db al) \<longrightarrow>
       (\<exists>t\<in>set (map fst (db_todos db')). td_related t = todo_checksum demo_todo_env (weakness_group demo_todo_env demo_todo_db al))"
    using weakness_todos_exact [of demo_todo_env demo_todo_db int, OF c(3) clk d(1,2)]
    by (elim exE conjE) (rule that; assumption)
  with d(3) c(1,2) g show ?thesis by (intro exI [of _ db']) (metis (no_types))
qed

section \<open>The pass over the missing parts\<close>

lemma all_found_missing:
  "all_found (\<lambda>a ex. Inr (Some (missing_todos E a, ex))) as ex = Inr (concat (map (missing_todos E) as))"
  by (induction "as") simp_all

definition todo_key :: "'d todo \<Rightarrow> string \<times> string" where
  "todo_key t = (td_related t, td_issue t)"

lemma bulk_create_todo_keys:
  "todo_key ` set (bulk_create todo_conflict ts rows) = todo_key ` set ts \<union> todo_key ` set rows"
  by (rule bulk_create_keys) (simp add: todo_conflict_def todo_key_def)

definition missing_rel :: "('r, 'v, 'd) todo_env \<Rightarrow> ('r, 'd) todo_adv list \<Rightarrow> string \<Rightarrow> nat list" where
  "missing_rel E advs i = (case find (\<lambda>a. todo_checksum E [a] = i) advs of None \<Rightarrow> [] | Some a \<Rightarrow> [ta_pk a])"

lemma missing_rel_eq:
  assumes "distinct (map (\<lambda>a. todo_checksum E [a]) advs)" "a \<in> set advs"
  shows "missing_rel E advs (todo_checksum E [a]) = [ta_pk a]"
proof -
  have "find (\<lambda>b. todo_checksum E [b] = todo_checksum E [a]) advs \<noteq> None"
    using assms(2) by (auto simp: find_None_iff)
  then obtain b where b: "find (\<lambda>b. todo_checksum E [b] = todo_checksum E [a]) advs = Some b" by auto
  then have "b \<in> set advs" "todo_checksum E [b] = todo_checksum E [a]" by (auto simp: find_Some_iff)
  then have "b = a" using assms by (simp add: distinct_map inj_on_def)
  with b show ?thesis by (simp add: missing_rel_def)
qed

text \<open>
  C15: The step on missing parts ends without an error, and afterwards the to-dos are the earlier ones and,
  for every eligible, unfurled, latest advisory without such a to-do, one for each part it lacks: its
  summary, and whichever of affected and fixed version ranges no impact has. A new row is related to its
  advisory alone. (It needs distinct content identifiers, whose SHA-1 digests are different too, and last
  parts of the advisory identifiers that fit the column.)
\<close>

theorem missing_todos_exact:
  assumes "inj_on (te_sha1 E) (ta_content_id ` set (db_advisories db))" "distinct (map ta_content_id (db_advisories db))" "\<And>n. clk n < clk (Suc n)" "todo_db_ok db (clk 0)"
      "list_all (\<lambda>a. length (last_part (ta_advisory_id a)) \<le> 50) (db_advisories db)"
  shows "\<exists>db'. compute_individual_advisory_todo E clk db = (None, db') \<and>
    (\<forall>i issue. (i, issue) \<in> (todo_key \<circ> fst) ` set (db_todos db') \<longleftrightarrow>
       (i, issue) \<in> (todo_key \<circ> fst) ` set (db_todos db) \<or>
       (\<exists>a\<in>set (individual_advisories E db). i = todo_checksum E [a] \<and> issue \<in> set (missing_issues a))) \<and>
    (\<exists>new. map fst (db_todos db') = map fst (db_todos db) @ new) \<and>
    (\<forall>k. length (db_todos db) \<le> k \<and> k < length (db_todos db') \<longrightarrow>
       (\<exists>a\<in>set (individual_advisories E db). td_related (fst (db_todos db' ! k)) = todo_checksum E [a] \<and>
          (\<forall>pk. (k, pk) \<in> set (db_related db') \<longleftrightarrow> pk = ta_pk a)))"
proof -
  let ?as = "individual_advisories E db"
  let ?news = "concat (map (missing_todos E) ?as)"
  have sub: "set ?as \<subseteq> set (db_advisories db)" by (auto simp: individual_advisories_def)
  have "distinct (map (\<lambda>a. todo_checksum E [a]) (db_advisories db))"
    using assms(1,2) comp_inj_on [of ta_content_id "set (db_advisories db)" "te_sha1 E"]
    by (simp add: distinct_map todo_checksum_def advisories_checksum_def comp_def)
  then have dis: "distinct (map (\<lambda>a. todo_checksum E [a]) ?as)"
    by (simp add: individual_advisories_def distinct_map_filter)
  have news: "\<forall>(t, pks)\<in>set ?news. pks = missing_rel E ?as (td_related t) \<and> distinct pks \<and> length (td_alias t) \<le> 50"
    using assms(5) sub
    by (fastforce simp: missing_todos_def single_todo_def missing_rel_eq [OF dis] list_all_iff)
  have "\<exists>db'. run_check clk 5000 False (missing_check E) ?as empty_acc db = (None, db') \<and>
    db_advisories db' = db_advisories db \<and> db_aliases db' = db_aliases db \<and>
    map fst (db_todos db') = bulk_create todo_conflict (map fst ?news) (map fst (db_todos db)) \<and>
    db_related db' = db_related db @
      rel_rows (missing_rel E ?as) (map fst (db_todos db')) (length (db_todos db)) (length (db_todos db'))"
    by (rule missing.run_check_ok [OF all_found_missing _ news assms(3,4)]) (simp add: empty_acc_def)
  then have "\<exists>db'. compute_individual_advisory_todo E clk db = (None, db') \<and>
    map fst (db_todos db') = bulk_create todo_conflict (map fst ?news) (map fst (db_todos db)) \<and>
    db_related db' = db_related db @
      rel_rows (missing_rel E ?as) (map fst (db_todos db')) (length (db_todos db)) (length (db_todos db'))"
    unfolding compute_individual_advisory_todo_def by blast
  then obtain db' where 1: "compute_individual_advisory_todo E clk db = (None, db')"
      "map fst (db_todos db') = bulk_create todo_conflict (map fst ?news) (map fst (db_todos db))"
      "db_related db' = db_related db @
         rel_rows (missing_rel E ?as) (map fst (db_todos db')) (length (db_todos db)) (length (db_todos db'))"
    by - (elim exE conjE, rule that; assumption)
  have keys: "todo_key ` set (map fst (db_todos db')) = todo_key ` set (map fst ?news) \<union> todo_key ` set (map fst (db_todos db))"
    unfolding 1(2) by (rule bulk_create_todo_keys)
  have nk: "(i, issue) \<in> todo_key ` set (map fst ?news) \<longleftrightarrow>
      (\<exists>a\<in>set ?as. i = todo_checksum E [a] \<and> issue \<in> set (missing_issues a))" for i issue
    by (auto simp: missing_todos_def todo_key_def single_todo_def image_iff)
  obtain new where new: "map fst (db_todos db') = map fst (db_todos db) @ new" "set new \<subseteq> set (map fst ?news)"
    using bulk_create_prefix [of todo_conflict "map fst ?news" "map fst (db_todos db)"] 1(2) by auto
  have rows: "\<exists>a\<in>set ?as. td_related (fst (db_todos db' ! k)) = todo_checksum E [a] \<and>
          (\<forall>pk. (k, pk) \<in> set (db_related db') \<longleftrightarrow> pk = ta_pk a)"
    if k: "length (db_todos db) \<le> k" "k < length (db_todos db')" for k
  proof -
    have at: "map fst (db_todos db') ! k = fst (db_todos db' ! k)" using k by simp
    have len: "length (db_todos db') = length (db_todos db) + length new" using arg_cong [OF new(1), of length] by simp
    have "map fst (db_todos db') ! k \<in> set new" using k len by (simp add: new(1) nth_append)
    then obtain a where a: "a \<in> set ?as" "td_related (fst (db_todos db' ! k)) = todo_checksum E [a]"
      using new(2) unfolding at by (auto simp: missing_todos_def single_todo_def)
    have "(k, pk) \<notin> set (db_related db)" for pk using assms(4) k(1) by (force simp: todo_db_ok_def)
    then have "(k, pk) \<in> set (db_related db') \<longleftrightarrow> pk \<in> set (missing_rel E ?as (td_related (map fst (db_todos db') ! k)))" for pk
      using k by (auto simp: 1(3) rel_rows_def)
    then show ?thesis using a missing_rel_eq [OF dis a(1)] unfolding at by auto
  qed
  have im: "(todo_key \<circ> fst) ` set T = todo_key ` set (map fst T)" for T
    by (simp add: image_comp)
  have k2: "(i, issue) \<in> (todo_key \<circ> fst) ` set (db_todos db') \<longleftrightarrow>
       (i, issue) \<in> (todo_key \<circ> fst) ` set (db_todos db) \<or>
       (\<exists>a\<in>set ?as. i = todo_checksum E [a] \<and> issue \<in> set (missing_issues a))" for i issue
    unfolding im keys Un_iff nk by blast
  show ?thesis
  proof (intro exI [of _ db'] conjI allI)
    show "(\<exists>new. map fst (db_todos db') = map fst (db_todos db) @ new)" using new(1) by blast
  qed (use 1(1) k2 rows in blast)+
qed

lemma missing_todos_exact_witness:
  "\<exists>db'. compute_individual_advisory_todo demo_todo_env int demo_todo_db = (None, db') \<and>
     (''A'', ''MISSING_SUMMARY'') \<in> (todo_key \<circ> fst) ` set (db_todos db') \<and>
     (''A'', ''MISSING_AFFECTED_PACKAGE'') \<notin> (todo_key \<circ> fst) ` set (db_todos db')"
proof -
  have a: "individual_advisories demo_todo_env demo_todo_db = db_advisories demo_todo_db" by code_simp
  have i: "missing_issues (demo_todo_adv 5 ''A'' [79]) = [''MISSING_SUMMARY'', ''MISSING_AFFECTED_AND_FIXED_BY_PACKAGES'']"
      "missing_issues (demo_todo_adv 6 ''B'' [79, 89]) = [''MISSING_SUMMARY'', ''MISSING_AFFECTED_AND_FIXED_BY_PACKAGES'']"
      "todo_checksum demo_todo_env [demo_todo_adv 5 ''A'' [79]] = ''A''"
    by code_simp+
  have d: "distinct (map ta_content_id (db_advisories demo_todo_db))" "todo_db_ok demo_todo_db (int 0)"
      "list_all (\<lambda>a. length (last_part (ta_advisory_id a)) \<le> 50) (db_advisories demo_todo_db)"
    by code_simp+
  have inj: "inj_on (te_sha1 demo_todo_env) (ta_content_id ` set (db_advisories demo_todo_db))"
    by (simp add: demo_todo_env_def)
  from missing_todos_exact [of demo_todo_env demo_todo_db int, OF inj d(1) _ d(2,3)] show ?thesis
    unfolding a by (auto simp: demo_todo_db_def i)
qed

end
