(* ===== verification/ToDoCvss.thy ===== *)
theory ToDoCvss
  imports ToDoRun
begin

text \<open>
  The check of CVSS scores raises a to-do exactly for different scores of the same packages; with the
  examples of this check and of that of packages.
\<close>

definition demo_packages_env :: "(nat, nat, nat) todo_env" where
  "demo_packages_env = demo_todo_env\<lparr>te_ext := demo_ext\<lparr>purls := demo_url_lib, type_version := (\<lambda>_. Some (\<lambda>s. Inr (length s)))\<rparr>\<rparr>"

definition demo_impact_adv :: "nat \<Rightarrow> string \<Rightarrow> string list \<Rightarrow> (nat, nat) todo_adv" where
  "demo_impact_adv pk i vs = (demo_todo_adv pk i [])\<lparr>ta_impacts := [\<lparr>ti_base_purl = ''npm/a@'', ti_affecting_vers = None,
     ti_fixed_vers = None, ti_affecting = vs, ti_fixed_by = [], ti_unfurled = True\<rparr>]\<rparr>"

definition demo_conflict :: "(nat, nat) todo_adv list" where
  "demo_conflict = [demo_impact_adv 5 ''A'' [''1''], demo_impact_adv 6 ''B'' [''1'', ''2'']]"

lemma package_conflicts_exact_witness:
  "\<exists>detail conflicting n. packages_alias demo_packages_env ''CVE-1'' demo_conflict empty_acc =
     Inr (Some (snd (raise_todo demo_packages_env ''CVE-1'' ''CONFLICTING_AFFECTED_PACKAGES'' detail conflicting n empty_acc))) \<and>
     set conflicting = set demo_conflict"
proof -
  have "\<not> isl (packages_alias demo_packages_env ''CVE-1'' demo_conflict empty_acc)" by code_simp
  then obtain r where r: "packages_alias demo_packages_env ''CVE-1'' demo_conflict empty_acc = Inr r"
    by (cases "packages_alias demo_packages_env ''CVE-1'' demo_conflict empty_acc") auto
  have c: "versions_conflict demo_conflict ''npm/a@''" "packages_issue_of demo_conflict = ''CONFLICTING_AFFECTED_PACKAGES''"
      "list_all (\<lambda>a. names_purl a ''npm/a@'') demo_conflict" "distinct (map ta_avid demo_conflict)"
      "list_all (\<lambda>a. list_all (\<lambda>im. ti_unfurled im \<or> \<not> truthy_opt (ti_affecting_vers im)) (ta_impacts a)) demo_conflict"
    by code_simp+
  have "{a \<in> set demo_conflict. \<exists>p. versions_conflict demo_conflict p \<and> names_purl a p} = set demo_conflict"
    using c(1,3) by (auto simp: list_all_iff)
  moreover have "\<exists>p. versions_conflict demo_conflict p" using c(1) by blast
  ultimately show ?thesis
    using package_conflicts_exact [OF c(4,5) r] unfolding r c(2) by (simp only: if_True simp_thms) blast
qed

section \<open>CVSS: a to-do exactly for different scores of the same packages\<close>

text \<open>The advisories with a score of a CVSS version, in order.\<close>

definition with_score :: "string \<Rightarrow> (string \<times> cvss_entry) list \<Rightarrow> (string \<times> cvss_entry) list" where
  "with_score t m = filter (\<lambda>(_, e). dict_get (ce_scores e) t [] \<noteq> []) m"

definition scores_conflict :: "string \<Rightarrow> (string \<times> cvss_entry) list \<Rightarrow> bool" where
  "scores_conflict t m \<longleftrightarrow> (let g = with_score t m
     in 2 \<le> length g \<and> list_all (\<lambda>(_, e). list_all (\<lambda>(_, e'). set (ce_purls e) = set (ce_purls e')) g) g \<and>
        list_ex (\<lambda>(_, e). list_ex (\<lambda>(_, e'). set (dict_get (ce_scores e) t []) \<noteq> set (dict_get (ce_scores e') t [])) g) g)"

definition add_scored :: "string \<times> cvss_entry \<Rightarrow> (string \<times> (string \<times> cvss_entry) list) list \<Rightarrow> (string \<times> (string \<times> cvss_entry) list) list" where
  "add_scored x d = (case x of (avid, entry) \<Rightarrow> fold (\<lambda>t d. if dict_get (ce_scores entry) t [] = [] then d
      else AList.update t (AList.update avid entry (dict_get d t [])) d) cvss_types d)"

lemma adv_by_cvss_fold: "adv_by_cvss m = fold add_scored m []"
  by (simp add: adv_by_cvss_def add_scored_def [abs_def] case_prod_unfold)

lemma add_scored_get:
  "dict_get (add_scored (avid, e) d) t [] =
     (if t \<in> set cvss_types \<and> dict_get (ce_scores e) t [] \<noteq> [] then AList.update avid e (dict_get d t []) else dict_get d t [])"
  by (simp add: add_scored_def cvss_types_def dict_get_update)

lemma add_scored_keys:
  "set (map fst (add_scored (avid, e) d)) = set (map fst d) \<union> {t \<in> set cvss_types. dict_get (ce_scores e) t [] \<noteq> []}"
  "distinct (map fst d) \<Longrightarrow> distinct (map fst (add_scored (avid, e) d))"
  by (auto simp: add_scored_def cvss_types_def dom_update set_dict_keys_update [unfolded dict_keys_def] distinct_update)

lemma fold_add_scored:
  "distinct (map fst m) \<Longrightarrow> (\<And>t. fst ` set m \<inter> fst ` set (dict_get d t []) = {}) \<Longrightarrow> distinct (map fst d) \<Longrightarrow>
   (\<forall>t\<in>set cvss_types. dict_get (fold add_scored m d) t [] = dict_get d t [] @ with_score t m) \<and>
   distinct (map fst (fold add_scored m d)) \<and>
   fst ` set (fold add_scored m d) = fst ` set d \<union> {t \<in> set cvss_types. with_score t m \<noteq> []}"
proof (induction m arbitrary: d)
  case (Cons x m)
  obtain avid e where x: "x = (avid, e)" by force
  have get: "dict_get (add_scored x d) t [] = dict_get d t [] @
      (if t \<in> set cvss_types \<and> dict_get (ce_scores e) t [] \<noteq> [] then [(avid, e)] else [])" for t
    using Cons.prems(2) [of t] by (auto simp: x add_scored_get update_absent)
  have prem: "fst ` set m \<inter> fst ` set (dict_get (add_scored x d) t []) = {}" for t
    unfolding get using Cons.prems(1) Cons.prems(2) [of t] by (auto simp: x) (metis fst_conv image_eqI)
  have keys: "fst ` set (add_scored x d) = fst ` set d \<union> {t \<in> set cvss_types. dict_get (ce_scores e) t [] \<noteq> []}"
    using add_scored_keys(1) [of avid e d] x by simp
  have IH: "(\<forall>t\<in>set cvss_types. dict_get (fold add_scored m (add_scored x d)) t [] = dict_get (add_scored x d) t [] @ with_score t m) \<and>
     distinct (map fst (fold add_scored m (add_scored x d))) \<and>
     fst ` set (fold add_scored m (add_scored x d)) = fst ` set (add_scored x d) \<union> {t \<in> set cvss_types. with_score t m \<noteq> []}"
    using Cons.prems add_scored_keys(2) [of d avid e] prem by (intro Cons.IH) (auto simp: x)
  have w: "with_score t (x # m) = (if dict_get (ce_scores e) t [] \<noteq> [] then [(avid, e)] else []) @ with_score t m" for t
    by (simp add: with_score_def x)
  show ?case using IH by (auto simp: get keys w)
qed (simp add: with_score_def)

lemma adv_by_cvss_mem:
  assumes "distinct (map fst m)"
  shows "(t, g) \<in> set (adv_by_cvss m) \<longleftrightarrow> t \<in> set cvss_types \<and> g = with_score t m \<and> g \<noteq> []"
proof -
  have f: "\<forall>t\<in>set cvss_types. dict_get (adv_by_cvss m) t [] = with_score t m" "distinct (map fst (adv_by_cvss m))"
      "fst ` set (adv_by_cvss m) = {t \<in> set cvss_types. with_score t m \<noteq> []}"
    using fold_add_scored [OF assms, of "[]"] by (simp_all add: adv_by_cvss_fold dict_get_def)
  show ?thesis
  proof
    assume g: "(t, g) \<in> set (adv_by_cvss m)"
    then have "map_of (adv_by_cvss m) t = Some g" using f(2) by simp
    moreover have "t \<in> set cvss_types" "with_score t m \<noteq> []" using f(3) g by force+
    ultimately show "t \<in> set cvss_types \<and> g = with_score t m \<and> g \<noteq> []" using f(1) by (auto simp: dict_get_def)
  next
    assume g: "t \<in> set cvss_types \<and> g = with_score t m \<and> g \<noteq> []"
    then have "t \<in> fst ` set (adv_by_cvss m)" using f(3) by blast
    then obtain g' where "(t, g') \<in> set (adv_by_cvss m)" by auto
    moreover from this have "map_of (adv_by_cvss m) t = Some g'" using f(2) by simp
    ultimately show "(t, g) \<in> set (adv_by_cvss m)" using f(1) g by (auto simp: dict_get_def)
  qed
qed

lemma cvss_disagreement_ok:
  assumes "g \<noteq> []"
  shows "\<exists>ps pd sd. compute_cvss_disagreement t g = Inr (Some (ps, pd, sd)) \<and>
    (pd = [] \<longleftrightarrow> list_all (\<lambda>(_, e). list_all (\<lambda>(_, e'). set (ce_purls e) = set (ce_purls e')) g) g) \<and>
    (sd = [] \<longleftrightarrow> \<not> list_ex (\<lambda>(_, e). list_ex (\<lambda>(_, e'). set (dict_get (ce_scores e) t []) \<noteq> set (dict_get (ce_scores e') t [])) g) g)"
proof -
  let ?P = "map ce_purls (dict_values g)" and ?S = "map (\<lambda>v. dict_get (ce_scores v) t []) (dict_values g)"
  have ne: "?P \<noteq> []" "?S \<noteq> []" using assms by (simp_all add: dict_values_def)
  obtain cp where cp: "inter_all ?P = Inr cp" using inter_all_ok [OF ne(1)] by blast
  obtain cs where cs: "inter_all ?S = Inr cs" using inter_all_ok [OF ne(2)] by blast
  have "compute_cvss_disagreement t g =
      Inr (Some (union_all ?P, set_minus (union_all ?P) cp, set_minus (union_all ?S) cs))"
    using ne by (simp add: compute_cvss_disagreement_def Let_def cp cs)
  moreover have "set_minus (union_all ?P) cp = [] \<longleftrightarrow>
      list_all (\<lambda>(_, e). list_all (\<lambda>(_, e'). set (ce_purls e) = set (ce_purls e')) g) g"
    unfolding no_disagreement_iff [OF cp] by (simp add: list_all_iff dict_values_def case_prod_unfold)
  moreover have "set_minus (union_all ?S) cs = [] \<longleftrightarrow>
      \<not> list_ex (\<lambda>(_, e). list_ex (\<lambda>(_, e'). set (dict_get (ce_scores e) t []) \<noteq> set (dict_get (ce_scores e') t [])) g) g"
    unfolding no_disagreement_iff [OF cs] by (simp add: list_ex_iff dict_values_def case_prod_unfold)
  ultimately show ?thesis by blast
qed

lemma cvss_conflict_ok:
  assumes "cvss_conflict dec advs curations (t, with_score t m) = Inr r" "with_score t m \<noteq> []"
  shows "(r = None \<longleftrightarrow> \<not> scores_conflict t m) \<and>
    (\<forall>conf item. r = Some (conf, item) \<longrightarrow> map_result (dict_lookup advs) (map fst (with_score t m)) = Inr conf)"
proof -
  obtain ps pd sd where d: "compute_cvss_disagreement t (with_score t m) = Inr (Some (ps, pd, sd))"
      "pd = [] \<longleftrightarrow> list_all (\<lambda>(_, e). list_all (\<lambda>(_, e'). set (ce_purls e) = set (ce_purls e')) (with_score t m)) (with_score t m)"
      "sd = [] \<longleftrightarrow> \<not> list_ex (\<lambda>(_, e). list_ex (\<lambda>(_, e'). set (dict_get (ce_scores e) t []) \<noteq> set (dict_get (ce_scores e') t [])) (with_score t m)) (with_score t m)"
    using cvss_disagreement_ok [OF assms(2), of t] by (elim exE conjE)
  have sc: "scores_conflict t m \<longleftrightarrow> \<not> length (with_score t m) < 2 \<and> \<not> (pd \<noteq> [] \<or> sd = [])"
    unfolding scores_conflict_def Let_def d(2,3) by (simp add: not_less)
  show ?thesis
  proof (cases "scores_conflict t m")
    case False
    then have "r = None" using assms(1) unfolding sc cvss_conflict_def prod.case d(1) by (auto split: if_splits)
    with False show ?thesis by simp
  next
    case True
    then have "\<not> length (with_score t m) < 2" "\<not> (pd \<noteq> [] \<or> sd = [])" using sc by blast+
    then have "\<exists>conf item. r = Some (conf, item) \<and> map_result (dict_lookup advs) (map fst (with_score t m)) = Inr conf"
      using assms(1) unfolding cvss_conflict_def prod.case d(1)
      by (auto simp: bind_result_Inr Let_def dict_keys_def)
    with True show ?thesis by auto
  qed
qed

text \<open>The check of the entries of an alias.\<close>

lemma check_cvss_ok:
  assumes "distinct (map fst m)" "check_conflicting_cvss_for_alias E dec alias m advs curations acc = Inr (counts, acc')"
  shows "if list_ex (\<lambda>t. scores_conflict t m) cvss_types
    then \<exists>ts detail conflicting n. set ts = {t \<in> set cvss_types. scores_conflict t m} \<and> distinct ts \<and>
       (counts, acc') = raise_todo E alias ''CONFLICTING_SEVERITY_SCORES'' detail conflicting n acc \<and> n = length ts \<and>
       list_all2 (\<lambda>x a. dict_lookup advs x = Inr a) (concat (map (\<lambda>t. map fst (with_score t m)) ts)) conflicting
    else counts = (0, 0) \<and> acc' = acc"
proof -
  obtain cs where cs: "map_result (cvss_conflict dec advs curations) (adv_by_cvss m) = Inr cs"
    using assms(2) by (auto simp: check_conflicting_cvss_for_alias_def split: sum.splits)
  let ?found = "concat (map (\<lambda>c. case c of None \<Rightarrow> [] | Some x \<Rightarrow> [x]) cs)"
  have run: "(if ?found = [] then Inr ((0, 0), acc)
     else Inr (raise_todo E alias ''CONFLICTING_SEVERITY_SCORES''
            (obj [(''alias'', VStr alias), (''curation_items'', VList (map snd ?found))])
            (concat (map fst ?found)) (length ?found) acc)) = (Inr (counts, acc') :: _ result)"
    using assms(2) unfolding check_conflicting_cvss_for_alias_def cs sum.case Let_def .
  let ?ts = "map fst (filter (\<lambda>(t, _). scores_conflict t m) (adv_by_cvss m))"
  have all2: "list_all2 (\<lambda>x c. cvss_conflict dec advs curations x = Inr c) (adv_by_cvss m) cs"
    using cs by (simp add: map_result_Inr_iff)
  have gen: "\<And>xs cs. list_all2 (\<lambda>x c. cvss_conflict dec advs curations x = Inr c) xs cs \<Longrightarrow> set xs \<subseteq> set (adv_by_cvss m) \<Longrightarrow>
      list_all2 (\<lambda>t (conf, _). map_result (dict_lookup advs) (map fst (with_score t m)) = Inr conf)
        (map fst (filter (\<lambda>(t, _). scores_conflict t m) xs)) (concat (map (\<lambda>c. case c of None \<Rightarrow> [] | Some x \<Rightarrow> [x]) cs))"
    subgoal for xs cs
    proof (induction rule: list_all2_induct)
      case (Cons x xs c cs)
      obtain t g where x: "x = (t, g)" by force
      with Cons.prems have "(t, g) \<in> set (adv_by_cvss m)" by simp
      then have g: "g = with_score t m" "g \<noteq> []" using adv_by_cvss_mem [OF assms(1)] by auto
      have c: "(c = None \<longleftrightarrow> \<not> scores_conflict t m) \<and>
          (\<forall>conf item. c = Some (conf, item) \<longrightarrow> map_result (dict_lookup advs) (map fst (with_score t m)) = Inr conf)"
        using Cons.hyps(1) g x by (intro cvss_conflict_ok) auto
      show ?case
      proof (cases c)
        case None
        with c Cons x show ?thesis by simp
      next
        case (Some z)
        obtain conf item where "z = (conf, item)" by force
        with Some c Cons x show ?thesis by simp
      qed
    qed simp
    done
  from gen [OF all2 subset_refl] have found: "list_all2 (\<lambda>t (conf, _). map_result (dict_lookup advs) (map fst (with_score t m)) = Inr conf)
      ?ts ?found" .
  have ts: "set ?ts = {t \<in> set cvss_types. scores_conflict t m}"
  proof -
    have "t \<in> set ?ts \<longleftrightarrow> (\<exists>g. (t, g) \<in> set (adv_by_cvss m) \<and> scores_conflict t m)" for t by force
    moreover have "with_score t m \<noteq> []" if "scores_conflict t m" for t
      using that by (auto simp: scores_conflict_def Let_def)
    ultimately show ?thesis using adv_by_cvss_mem [OF assms(1)] by blast
  qed
  have dts: "distinct ?ts"
    using fold_add_scored [OF assms(1), of "[]"] by (simp add: adv_by_cvss_fold dict_get_def distinct_map_filter)
  have len: "length ?ts = length ?found" using found by (rule list_all2_lengthD)
  show ?thesis
  proof (cases "list_ex (\<lambda>t. scores_conflict t m) cvss_types")
    case False
    then have "set ?ts = {}" unfolding ts by (auto simp: list_ex_iff)
    then have "?found = []" using len by (metis length_0_conv set_empty)
    with run False show ?thesis by simp
  next
    case True
    then have "set ?ts \<noteq> {}" unfolding ts by (auto simp: list_ex_iff)
    then have "?found \<noteq> []" using len by (metis length_0_conv set_empty)
    then have r: "(counts, acc') = raise_todo E alias ''CONFLICTING_SEVERITY_SCORES''
            (obj [(''alias'', VStr alias), (''curation_items'', VList (map snd ?found))])
            (concat (map fst ?found)) (length ?ts) acc" using run len by (simp only: if_False sum.inject)
    have "list_all2 (\<lambda>x a. dict_lookup advs x = Inr a) (concat (map (\<lambda>t. map fst (with_score t m)) ?ts)) (concat (map fst ?found))"
      using found
    proof (induction rule: list_all2_induct)
      case (Cons t ts f fs)
      obtain conf item where f: "f = (conf, item)" by force
      with Cons.hyps have "list_all2 (\<lambda>x a. dict_lookup advs x = Inr a) (map fst (with_score t m)) conf"
        using dict_lookup_map [of advs "map fst (with_score t m)" conf] by simp
      with Cons.IH f show ?case by (simp add: list_all2_appendI)
    qed simp
    with True ts dts r show ?thesis by (simp only: if_True) blast
  qed
qed

text \<open>
  What the severities and impacts of an advisory say: its scores of a CVSS version, and the package URLs
  it has packages of. The advisories compared for a version are those that have both.
\<close>

definition cvss_scores :: "('r, 'v, 'd) todo_env \<Rightarrow> string \<Rightarrow> ('r, 'd) todo_adv \<Rightarrow> string option list" where
  "cvss_scores E t a = map (fst \<circ> cvss_of E) (filter (\<lambda>sv. scored sv \<and> ts_system sv = t) (ta_severities a))"

definition cvss_purls :: "('r, 'd) todo_adv \<Rightarrow> string list" where
  "cvss_purls a = map ti_base_purl (filter (\<lambda>im. ti_fixed_by im \<noteq> [] \<or> ti_affecting im \<noteq> []) (ta_impacts a))"

definition cvss_group :: "('r, 'v, 'd) todo_env \<Rightarrow> ('r, 'd) todo_adv list \<Rightarrow> string \<Rightarrow> ('r, 'd) todo_adv list" where
  "cvss_group E advs t = filter (\<lambda>a. cvss_purls a \<noteq> [] \<and> cvss_scores E t a \<noteq> []) advs"

definition severity_conflict :: "('r, 'v, 'd) todo_env \<Rightarrow> ('r, 'd) todo_adv list \<Rightarrow> string \<Rightarrow> bool" where
  "severity_conflict E advs t \<longleftrightarrow> (let g = cvss_group E advs t
     in 2 \<le> length g \<and> list_all (\<lambda>a. list_all (\<lambda>b. set (cvss_purls a) = set (cvss_purls b)) g) g \<and>
        list_ex (\<lambda>a. list_ex (\<lambda>b. set (cvss_scores E t a) \<noteq> set (cvss_scores E t b)) g) g)"

definition entry_of :: "('r, 'v, 'd) todo_env \<Rightarrow> ('r, 'd) todo_adv \<Rightarrow> cvss_entry" where
  "entry_of E a = fst (cvss_advisory E a (empty_cvss, []))"

lemma add_severity_fst: "fst (add_severity E i sv (e, c)) =
    e\<lparr>ce_scores := AList.update (ts_system sv)
       (set_update (dict_get (ce_scores e) (ts_system sv) []) [fst (cvss_of E sv)]) (ce_scores e)\<rparr>"
  by (simp add: add_severity_def case_prod_unfold)

lemma fold_add_severity:
  "ce_purls (fst (fold (add_severity E i) svs x)) = ce_purls (fst x) \<and>
   set (dict_get (ce_scores (fst (fold (add_severity E i) svs x))) t []) =
     set (dict_get (ce_scores (fst x)) t []) \<union> set (map (fst \<circ> cvss_of E) (filter (\<lambda>sv. ts_system sv = t) svs))"
proof (induction svs arbitrary: x)
  case (Cons sv svs)
  obtain e c where x: "x = (e, c)" by force
  show ?case using Cons.IH [of "add_severity E i sv x"] by (auto simp: x add_severity_fst dict_get_update)
qed simp

lemma empty_cvss_get [simp]: "dict_get (ce_scores empty_cvss) t [] = []" "ce_purls empty_cvss = []"
  by (simp_all add: empty_cvss_def dict_get_def cvss_types_def)

lemma entry_scores: "set (dict_get (ce_scores (entry_of E a)) t []) = set (cvss_scores E t a)"
  using fold_add_severity [of E "ta_avid a" "filter scored (ta_severities a)" "(empty_cvss, [])" t]
  by (auto simp: entry_of_def cvss_advisory_def cvss_scores_def Let_def case_prod_unfold)

lemma entry_scores_Nil: "dict_get (ce_scores (entry_of E a)) t [] = [] \<longleftrightarrow> cvss_scores E t a = []"
  using entry_scores [of E a t] by (metis set_empty)

lemma entry_purls: "set (ce_purls (entry_of E a)) = (if filter scored (ta_severities a) = [] then {} else set (cvss_purls a))"
  using fold_add_severity [of E "ta_avid a" "filter scored (ta_severities a)" "(empty_cvss, [])"]
  by (auto simp: entry_of_def cvss_advisory_def cvss_purls_def Let_def case_prod_unfold)

lemma scored_of_scores: "cvss_scores E t a \<noteq> [] \<Longrightarrow> filter scored (ta_severities a) \<noteq> []"
  by (auto simp: cvss_scores_def filter_empty_conv)

lemma cvss_entries:
  "distinct (map ta_avid advs) \<Longrightarrow> ta_avid ` set advs \<inter> (fst ` set en \<union> fst ` set cu) = {} \<Longrightarrow>
   fst (fold (add_cvss_advisory E) advs (en, cu)) = en @ map (\<lambda>a. (ta_avid a, entry_of E a)) advs"
proof (induction advs arbitrary: en cu)
  case (Cons a advs)
  have absent: "ta_avid a \<notin> fst ` set en" "ta_avid a \<notin> fst ` set cu" using Cons.prems(2) by auto
  then have "map_of en (ta_avid a) = None" "map_of cu (ta_avid a) = None" by (simp_all add: map_of_eq_None_iff)
  then have "add_cvss_advisory E a (en, cu) =
      (AList.update (ta_avid a) (entry_of E a) en, AList.update (ta_avid a) (snd (cvss_advisory E a (empty_cvss, []))) cu)"
    by (simp add: add_cvss_advisory_def entry_of_def dict_get_def case_prod_unfold)
  then have "add_cvss_advisory E a (en, cu) =
      (en @ [(ta_avid a, entry_of E a)], cu @ [(ta_avid a, snd (cvss_advisory E a (empty_cvss, [])))])"
    using absent by (simp add: update_absent)
  moreover have "ta_avid ` set advs \<inter> (fst ` set (en @ [(ta_avid a, entry_of E a)]) \<union>
      fst ` set (cu @ [(ta_avid a, snd (cvss_advisory E a (empty_cvss, [])))])) = {}"
    using Cons.prems by auto
  ultimately show ?case using Cons.IH Cons.prems(1) by simp
qed simp

lemma with_score_entries:
  "with_score t (filter (\<lambda>(_, e). ce_purls e \<noteq> []) (map (\<lambda>a. (ta_avid a, entry_of E a)) advs)) =
   map (\<lambda>a. (ta_avid a, entry_of E a)) (cvss_group E advs t)"
proof -
  have p: "dict_get (ce_scores (entry_of E a)) t [] \<noteq> [] \<and> ce_purls (entry_of E a) \<noteq> [] \<longleftrightarrow>
      cvss_purls a \<noteq> [] \<and> cvss_scores E t a \<noteq> []" for a
    using entry_purls [of E a] scored_of_scores [of E t a] entry_scores_Nil [of E a t] by (metis set_empty)
  show ?thesis unfolding with_score_def cvss_group_def filter_filter filter_map
    by (intro arg_cong [where f = "map _"] filter_cong refl) (use p in \<open>auto\<close>)
qed

lemma scores_conflict_entries:
  "scores_conflict t (filter (\<lambda>(_, e). ce_purls e \<noteq> []) (map (\<lambda>a. (ta_avid a, entry_of E a)) advs)) \<longleftrightarrow>
   severity_conflict E advs t"
proof -
  have "set (ce_purls (entry_of E a)) = set (cvss_purls a)" if "a \<in> set (cvss_group E advs t)" for a
    using that scored_of_scores [of E t a] by (simp add: entry_purls cvss_group_def)
  then show ?thesis
    unfolding scores_conflict_def severity_conflict_def Let_def with_score_entries
    by (simp add: list_all_iff list_ex_iff entry_scores case_prod_unfold)
qed

lemma lookup_advisories:
  assumes "distinct (map ta_avid advs)" "set xs \<subseteq> set advs"
    "list_all2 (\<lambda>x a. dict_lookup (fold (\<lambda>a. AList.update (ta_avid a) a) advs []) x = Inr a) (map ta_avid xs) ys"
  shows "ys = xs"
  using assms(3,2)
proof (induction xs arbitrary: ys)
  case (Cons x xs)
  then obtain y ys' where y: "ys = y # ys'" "dict_lookup (fold (\<lambda>a. AList.update (ta_avid a) a) advs []) (ta_avid x) = Inr y"
      "list_all2 (\<lambda>x a. dict_lookup (fold (\<lambda>a. AList.update (ta_avid a) a) advs []) x = Inr a) (map ta_avid xs) ys'"
    by (auto simp: list_all2_Cons1)
  have "y = x" using dict_lookup_group [OF y(2)] Cons.prems(2) assms(1) by (auto simp: distinct_map inj_on_def)
  with Cons y show ?case by simp
qed simp

text \<open>
  C16: The check of the CVSS scores of an alias, when it succeeds, raises a to-do exactly when, for some
  CVSS version, at least two of its advisories have scores and packages, they all name the same packages,
  and their scores differ. Its advisories are those compared, once for each such version.
\<close>

theorem cvss_conflicts_exact:
  assumes "distinct (map ta_avid advs)" "cvss_alias E dec al advs acc = Inr r"
  shows "if length advs < 2 then r = None
    else if list_ex (severity_conflict E advs) cvss_types
    then \<exists>ts detail. set ts = {t \<in> set cvss_types. severity_conflict E advs t} \<and> distinct ts \<and>
       r = Some (snd (raise_todo E al ''CONFLICTING_SEVERITY_SCORES'' detail
             (concat (map (cvss_group E advs) ts)) (length ts) acc))
    else r = Some acc"
proof (cases "length advs < 2")
  case True
  with assms(2) show ?thesis by (simp add: cvss_alias_def)
next
  case False
  let ?m = "filter (\<lambda>(_, e). ce_purls e \<noteq> []) (map (\<lambda>a. (ta_avid a, entry_of E a)) advs)"
  let ?advs = "fold (\<lambda>a. AList.update (ta_avid a) a) advs []"
  have en: "fst (fold (add_cvss_advisory E) advs ([], [])) = map (\<lambda>a. (ta_avid a, entry_of E a)) advs"
    using cvss_entries [OF assms(1), of "[]" "[]" E] by simp
  obtain counts acc' where c: "check_conflicting_cvss_for_alias E dec al ?m ?advs
      (snd (fold (add_cvss_advisory E) advs ([], []))) acc = Inr (counts, acc')" "r = Some acc'"
    using assms(2) False
    by (auto simp: cvss_alias_def Let_def case_prod_unfold en map_sum_Inr)
  have d: "distinct (map fst ?m)" using assms(1) by (simp add: distinct_map_filter comp_def)
  note ok = check_cvss_ok [OF d c(1), unfolded scores_conflict_entries]
  show ?thesis
  proof (cases "list_ex (severity_conflict E advs) cvss_types")
    case False
    with ok c(2) \<open>\<not> length advs < 2\<close> show ?thesis by simp
  next
    case True
    with ok obtain ts detail conflicting n where ts: "set ts = {t \<in> set cvss_types. severity_conflict E advs t}" "distinct ts"
        "(counts, acc') = raise_todo E al ''CONFLICTING_SEVERITY_SCORES'' detail conflicting n acc" "n = length ts"
        "list_all2 (\<lambda>x a. dict_lookup ?advs x = Inr a) (concat (map (\<lambda>t. map fst (with_score t ?m)) ts)) conflicting"
      by (simp only: if_True) (elim exE conjE, rule that; assumption)
    have "concat (map (\<lambda>t. map fst (with_score t ?m)) ts) = map ta_avid (concat (map (cvss_group E advs) ts))"
      unfolding with_score_entries by (simp add: map_concat comp_def)
    then have "conflicting = concat (map (cvss_group E advs) ts)"
      using ts(5) by (intro lookup_advisories [OF assms(1)]) (auto simp: cvss_group_def)
    with ts c(2) have "r = Some (snd (raise_todo E al ''CONFLICTING_SEVERITY_SCORES'' detail
        (concat (map (cvss_group E advs) ts)) (length ts) acc))" by (metis snd_conv)
    with ts(1,2) True \<open>\<not> length advs < 2\<close> show ?thesis by (simp only: if_True if_False) blast
  qed
qed

definition demo_scored :: "nat \<Rightarrow> string \<Rightarrow> string \<Rightarrow> (nat, nat) todo_adv" where
  "demo_scored pk i s = (demo_impact_adv pk i [''1''])\<lparr>ta_severities :=
     [\<lparr>ts_system = ''cvssv3.1'', ts_value = Some s, ts_elements = None\<rparr>]\<rparr>"

text \<open>Two advisories of one package with scores 5 and 7.\<close>

lemma cvss_conflicts_exact_witness:
  "\<exists>detail. cvss_alias demo_todo_env (\<lambda>_. []) ''CVE-1'' [demo_scored 5 ''A'' ''5'', demo_scored 6 ''B'' ''7''] empty_acc =
     Inr (Some (snd (raise_todo demo_todo_env ''CVE-1'' ''CONFLICTING_SEVERITY_SCORES'' detail
       [demo_scored 5 ''A'' ''5'', demo_scored 6 ''B'' ''7''] 1 empty_acc)))"
proof -
  let ?advs = "[demo_scored 5 ''A'' ''5'', demo_scored 6 ''B'' ''7'']"
  have c: "distinct (map ta_avid ?advs)" "map (severity_conflict demo_todo_env ?advs) cvss_types = [False, False, True]"
    "cvss_group demo_todo_env ?advs ''cvssv3.1'' = ?advs"
    "\<not> isl (cvss_alias demo_todo_env (\<lambda>_. []) ''CVE-1'' ?advs empty_acc)" by code_simp+
  from c(4) obtain r where r: "cvss_alias demo_todo_env (\<lambda>_. []) ''CVE-1'' ?advs empty_acc = Inr r"
    by (cases "cvss_alias demo_todo_env (\<lambda>_. []) ''CVE-1'' ?advs empty_acc") auto
  have ex: "list_ex (severity_conflict demo_todo_env ?advs) cvss_types" "\<not> length ?advs < 2"
    "{t \<in> set cvss_types. severity_conflict demo_todo_env ?advs t} = {''cvssv3.1''}"
    using c(2) by (auto simp: cvss_types_def)
  obtain ts detail where ts: "set ts = {''cvssv3.1''}" "distinct ts"
      "r = Some (snd (raise_todo demo_todo_env ''CVE-1'' ''CONFLICTING_SEVERITY_SCORES'' detail
             (concat (map (cvss_group demo_todo_env ?advs) ts)) (length ts) empty_acc))"
    using cvss_conflicts_exact [OF c(1) r] unfolding ex(3) by (simp only: ex(1,2) if_True if_False) blast
  have "length ts = 1" using distinct_card [OF ts(2)] ts(1) by simp
  with ts(1) have "ts = [''cvssv3.1'']" by (cases ts) auto
  with ts(3) r c(3) show ?thesis by auto
qed

section \<open>The metrics all advisories agree on\<close>

definition metric_values :: "(string \<times> string) list list \<Rightarrow> string \<Rightarrow> string set" where
  "metric_values metrics k = {v. v \<noteq> [] \<and> (\<exists>m\<in>set metrics. map_of m k = Some v)}"

lemma dedupe_single: "dedupe xs = [v] \<longleftrightarrow> set xs = {v}"
proof
  assume "set xs = {v}"
  then have "set (dedupe xs) = {v}" "length (dedupe xs) = 1"
    using distinct_card [OF distinct_dedupe, of xs] by simp_all
  then show "dedupe xs = [v]" by (cases "dedupe xs") auto
qed (metis set_dedupe list.set(1) list.set(2))

lemma fold_choose:
  "map_of (fold (\<lambda>k d. case f k of None \<Rightarrow> d | Some v \<Rightarrow> AList.update k v d) keys d) k =
     (if k \<in> set keys \<and> f k \<noteq> None then f k else map_of d k)"
  by (induction keys arbitrary: d) (auto split: option.splits)

definition only_value :: "'a list \<Rightarrow> 'a option" where
  "only_value xs = (case dedupe xs of [v] \<Rightarrow> Some v | _ \<Rightarrow> None)"

lemma only_value_iff: "only_value xs = Some v \<longleftrightarrow> set xs = {v}"
proof -
  have "only_value xs = Some v \<longleftrightarrow> dedupe xs = [v]" by (auto simp: only_value_def split: list.splits)
  then show ?thesis by (simp only: dedupe_single)
qed

text \<open>The metrics of a CVSS 3 vector and of a CVSS 4.0 vector, as the two standards group them.\<close>

definition cvss3_metrics :: "string set" where
  "cvss3_metrics = {''AV'', ''AC'', ''PR'', ''UI'', ''S'', ''C'', ''I'', ''A''} \<union> {''E'', ''RL'', ''RC''} \<union>
     {''CR'', ''IR'', ''AR'', ''MAV'', ''MAC'', ''MPR'', ''MUI'', ''MS'', ''MC'', ''MI'', ''MA''}"

definition cvss4_metrics :: "string set" where
  "cvss4_metrics = {''AV'', ''AC'', ''AT'', ''PR'', ''UI'', ''VC'', ''VI'', ''VA'', ''SC'', ''SI'', ''SA''} \<union> {''E''} \<union>
     {''CR'', ''IR'', ''AR'', ''MAV'', ''MAC'', ''MAT'', ''MPR'', ''MUI'', ''MVC'', ''MVI'', ''MVA'', ''MSC'', ''MSI'', ''MSA''} \<union>
     {''S'', ''AU'', ''R'', ''V'', ''RE'', ''U''}"

lemma keys_are_metrics: "set cvss_v3_keys = cvss3_metrics" "set cvss_v4_keys = cvss4_metrics - {''AT''}"
  unfolding cvss_v3_keys_def cvss3_metrics_def cvss_v4_keys_def cvss4_metrics_def by (auto; fail)+

lemma consensus_of_keys:
  "map_of (consensus_cvss_metrics metrics version) k = Some v \<longleftrightarrow>
   k \<in> set (if version = ''4.0'' then cvss_v4_keys else cvss_v3_keys) \<and> metric_values metrics k = {v}"
proof -
  let ?vals = "\<lambda>k. concat (map (\<lambda>m. case map_of m k of None \<Rightarrow> [] | Some v \<Rightarrow> if v = [] then [] else [v]) metrics)"
  let ?keys = "if version = ''4.0'' then cvss_v4_keys else cvss_v3_keys"
  have "set (?vals k) = metric_values metrics k"
    by (auto simp: metric_values_def split: option.splits if_splits) (force split: option.splits)
  then have v: "only_value (?vals k) = Some v \<longleftrightarrow> metric_values metrics k = {v}" by (simp add: only_value_iff)
  have step: "(\<lambda>k d. case dedupe (?vals k) of [v] \<Rightarrow> AList.update k v d | _ \<Rightarrow> d) =
      (\<lambda>k d. case only_value (?vals k) of None \<Rightarrow> d | Some v \<Rightarrow> AList.update k v d)"
    by (intro ext) (simp add: only_value_def split: list.split)
  show ?thesis
  proof (cases "metrics = []")
    case True
    then show ?thesis by (simp add: consensus_cvss_metrics_def metric_values_def)
  next
    case False
    then have "consensus_cvss_metrics metrics version =
        fold (\<lambda>k d. case only_value (?vals k) of None \<Rightarrow> d | Some v \<Rightarrow> AList.update k v d) ?keys []"
      unfolding consensus_cvss_metrics_def Let_def step by simp
    then show ?thesis by (simp only: fold_choose [of "\<lambda>k. only_value (?vals k)" ?keys "[]" k] v map_of.simps) (auto simp flip: v)
  qed
qed


text \<open>The requirement of an attack of CVSS 4.0 (AT) is not among the keys, which have AR twice.\<close>

lemma no_consensus_on_AT:
  "consensus_cvss_metrics [[(''AV'', ''N''), (''AT'', ''P'')], [(''AV'', ''N''), (''AT'', ''P'')]] ''4.0'' = [(''AV'', ''N'')]"
  by code_simp

text \<open>Two versions in conflict relate each advisory twice, and the relations are then not written.\<close>

definition demo_twice :: "nat \<Rightarrow> string \<Rightarrow> string \<Rightarrow> (nat, nat) todo_adv" where
  "demo_twice pk i s = (demo_impact_adv pk i [''1''])\<lparr>ta_aliases := [''CVE-1''], ta_severities :=
     [\<lparr>ts_system = ''cvssv3.1'', ts_value = Some s, ts_elements = None\<rparr>, \<lparr>ts_system = ''cvssv4'', ts_value = Some s, ts_elements = None\<rparr>]\<rparr>"

lemma two_versions_no_relations:
  "case detect_conflicting_cvss_scores demo_todo_env (\<lambda>_. []) int
      \<lparr>db_advisories = [demo_twice 5 ''A'' ''5'', demo_twice 6 ''B'' ''7''], db_aliases = [''CVE-1''], db_todos = [], db_related = []\<rparr>
   of (e, db') \<Rightarrow> e = None \<and> length (db_todos db') = 1 \<and> db_related db' = []"
  by code_simp

text \<open>A to-do of another kind for the same advisories is not created.\<close>

lemma other_issue_suppressed:
  "case detect_conflicting_cvss_scores demo_todo_env (\<lambda>_. []) int
      (snd (detect_conflicting_weakness demo_todo_env int
        \<lparr>db_advisories = [(demo_scored 5 ''A'' ''5'')\<lparr>ta_weaknesses := [79, 89]\<rparr>, (demo_scored 6 ''B'' ''7'')\<lparr>ta_weaknesses := [89]\<rparr>],
          db_aliases = [''CVE-1''], db_todos = [], db_related = []\<rparr>))
   of (e, db') \<Rightarrow> e = None \<and> map (td_issue \<circ> fst) (db_todos db') = [''CONFLICTING_WEAKNESSES'']"
  by code_simp

end
