(* ===== verification/Unfurl.thy ===== *)
theory Unfurl
  imports AdvisoryImport
begin

text \<open>
  Unfurling version ranges (\<open>vulnerabilities/pipelines/v2_improvers/unfurl_version_range.py\<close> and
  \<open>vulnerabilities/pipes/fetchcode_utils.py\<close>): the impacts of the latest advisories whose range names
  no exact version get the upstream versions in the range as affected packages. The facts show what a
  run leaves in the tables.
\<close>

section \<open>Unfurling the ranges of the impacts\<close>

text \<open>
  The \<open>fetchcode\<close> library: the package types it knows, and the versions it finds upstream for a package
  URL.
\<close>

record fetchcode =
  fc_types :: "string list"
  fc_versions :: "string \<Rightarrow> string list result"

definition strip_v :: "string \<Rightarrow> string" where
  "strip_v s = dropWhile (\<lambda>c. c \<in> {CHR ''v'', CHR ''V''}) s"

definition get_versions :: "purl_lib \<Rightarrow> fetchcode \<Rightarrow> purl \<Rightarrow> string list option" where
  "get_versions L F p =
     (if ptype p \<notin> set (fc_types F) then None
      else (case fc_versions F (lib_to_string L p) of Inl _ \<Rightarrow> None | Inr vs \<Rightarrow> Some (dedupe (map strip_v vs))))"

definition get_purl_versions ::
    "purl_lib \<Rightarrow> fetchcode \<Rightarrow> purl \<Rightarrow> (purl \<times> string list) list \<Rightarrow> string list \<times> (purl \<times> string list) list" where
  "get_purl_versions L F p cache =
     (let cache = (if map_of cache p \<noteq> None then cache
                   else (case get_versions L F p of None \<Rightarrow> cache | Some vs \<Rightarrow> AList.update p vs cache))
      in (dict_get cache p [], cache))"

text \<open>A range that does not parse raises; a version that does not is logged, and there is then no result.\<close>

definition get_affected_purls ::
    "('r, 'v, 'd) import_env \<Rightarrow> string list \<Rightarrow> impact_v2 \<Rightarrow> purl list option result" where
  "get_affected_purls E versions im =
     (case range_parse (env_ext E) (str_or_empty (im_affecting_vers im)) of Inl e \<Rightarrow> Inl e
      | Inr r \<Rightarrow>
          if versions = [] then Inr (Some [])
          else (case map_result (range_version (env_ext E) r) versions of
              Inl _ \<Rightarrow> Inr None
            | Inr vs \<Rightarrow> Inr (Some (concat (map (\<lambda>v. case env_contains E v r of
                  Inr True \<Rightarrow> (case update_purl_version (purls (env_ext E)) (PStr (im_base_purl im))
                                   (Some (version_str (env_ext E) v)) of Inl _ \<Rightarrow> [] | Inr p \<Rightarrow> [p])
                | _ \<Rightarrow> []) vs)))))"

text \<open>
  \<open>bulk_create_with_m2m\<close>: the packages are created, ranked when one has no rank, and related to the
  impact. (All the packages have the same type, namespace and name, so any of them ranks the same group.)
\<close>

definition relate_packages :: "nat \<Rightarrow> nat list \<Rightarrow> 'd import_db \<Rightarrow> 'd import_db" where
  "relate_packages i ids db =
     (let im = t_impacts db ! i
      in db\<lparr>t_impacts := (t_impacts db)[i := im\<lparr>im_affecting :=
              im_affecting im @ filter (\<lambda>k. k \<notin> set (im_affecting im)) ids\<rparr>]\<rparr>)"

definition bulk_create_affecting ::
    "('r, 'v::linorder, 'd) import_env \<Rightarrow> purl list \<Rightarrow> nat \<Rightarrow> 'd import_db \<Rightarrow> (nat \<times> 'd import_db) result" where
  "bulk_create_affecting E ps i db =
     (if ps = [] then Inr (0, db)
      else (case bulk_get_or_create_from_purls (purls (env_ext E)) (map PObj ps) (t_packages db) of Inl e \<Rightarrow> Inl e
        | Inr ([], pk) \<Rightarrow> Inr (0, db\<lparr>t_packages := pk\<rparr>)
        | Inr (k # ids, pk) \<Rightarrow>
            (case calculate_version_rank (env_vclass E) (pk ! k) pk of Inl e \<Rightarrow> Inl e
             | Inr (_, pk) \<Rightarrow> Inr (Suc (length ids), relate_packages i (k # ids) (db\<lparr>t_packages := pk\<rparr>)))))"

text \<open>
  One impact: it has nothing to unfurl (only exact versions), it is skipped (no upstream versions), or
  its versions are related to it.
\<close>

datatype unfurl_outcome = Nothing_to_unfurl | Skipped | Unfurled

definition has_comparator :: "string \<Rightarrow> bool" where
  "has_comparator vers \<longleftrightarrow> list_ex (\<lambda>c. c \<in> set vers) [CHR ''<'', CHR ''>'', CHR ''!'']"

type_synonym version_cache = "(purl \<times> string list) list"

definition unfurl_impact ::
    "('r, 'v::linorder, 'd) import_env \<Rightarrow> fetchcode \<Rightarrow> nat \<Rightarrow> version_cache \<Rightarrow> 'd import_db \<Rightarrow>
       (unfurl_outcome \<times> version_cache \<times> 'd import_db) result" where
  "unfurl_impact E F i cache db =
     (let im = t_impacts db ! i; L = purls (env_ext E) in
      case lib_from_string L (im_base_purl im) of Inl e \<Rightarrow> Inl e
      | Inr p \<Rightarrow>
          if \<not> truthy_opt (im_affecting_vers im) \<or> \<not> has_comparator (the (im_affecting_vers im))
          then Inr (Nothing_to_unfurl, cache, db)
          else if ptype p \<notin> set (fc_types F) then Inr (Skipped, cache, db)
          else if type_version (env_ext E) (ptype p) = None then Inr (Skipped, cache, db)
          else (case get_purl_versions L F p cache of (versions, cache) \<Rightarrow>
            (case get_affected_purls E versions im of Inl e \<Rightarrow> Inl e
             | Inr None \<Rightarrow> Inr (Skipped, cache, db)
             | Inr (Some []) \<Rightarrow> Inr (Skipped, cache, db)
             | Inr (Some ps) \<Rightarrow> map_sum id (\<lambda>(_, db). (Unfurled, cache, db)) (bulk_create_affecting E ps i db))))"

text \<open>
  The loop keeps the impacts to date, those of them that succeeded, and the number of readings of the
  clock; \<open>clk n\<close> is the \<open>n\<close>-th reading. The dates are written after an unfurled impact when more than
  500 have piled up, and at the end.
\<close>

record 'd unfurl_state =
  us_db :: "'d import_db"
  us_cache :: version_cache
  us_done :: "nat list"
  us_ok :: "nat list"
  us_clock :: nat

definition date_impacts :: "int \<Rightarrow> nat list \<Rightarrow> nat list \<Rightarrow> 'd import_db \<Rightarrow> 'd import_db" where
  "date_impacts t attempted successful db =
     db\<lparr>t_impacts := map (\<lambda>(i, im). im\<lparr>
         im_unfurled_at := (if i \<in> set attempted then Some t else im_unfurled_at im),
         im_unfurled_ok_at := (if i \<in> set successful then Some t else im_unfurled_ok_at im)\<rparr>)
       (enumerate 0 (t_impacts db))\<rparr>"

definition write_dates :: "(nat \<Rightarrow> int) \<Rightarrow> 'd unfurl_state \<Rightarrow> 'd unfurl_state" where
  "write_dates clk s =
     s\<lparr>us_db := date_impacts (clk (us_clock s)) (us_done s) (us_ok s) (us_db s),
       us_done := [], us_ok := [], us_clock := Suc (us_clock s)\<rparr>"

fun unfurl_loop ::
    "('r, 'v::linorder, 'd) import_env \<Rightarrow> fetchcode \<Rightarrow> (nat \<Rightarrow> int) \<Rightarrow> nat list \<Rightarrow> 'd unfurl_state \<Rightarrow>
       py_error option \<times> 'd unfurl_state" where
  "unfurl_loop E F clk [] s = (None, s)"
| "unfurl_loop E F clk (i # is) s =
     (let s = s\<lparr>us_done := us_done s @ [i]\<rparr> in
      case unfurl_impact E F i (us_cache s) (us_db s) of
        Inl e \<Rightarrow> (Some e, s)
      | Inr (outcome, cache, db) \<Rightarrow>
          (let s = s\<lparr>us_cache := cache, us_db := db,
                     us_ok := (if outcome = Skipped then us_ok s else us_ok s @ [i])\<rparr>
           in unfurl_loop E F clk is
                (if outcome = Unfurled \<and> 500 < length (us_done s) then write_dates clk s else s)))"

definition day :: int where
  "day = 24 * 60 * 60"

definition reunfurl_after_days :: int where
  "reunfurl_after_days = 2"

definition impacted_package_qs :: "int \<Rightarrow> int \<Rightarrow> 'd import_db \<Rightarrow> nat list" where
  "impacted_package_qs now cutoff_day db =
     (let cutoff = now - cutoff_day * day; im = (\<lambda>i. t_impacts db ! i);
          qs = filter (\<lambda>i. (im_unfurled_at (im i) = None \<or> the (im_unfurled_at (im i)) \<le> cutoff) \<and>
                 im_affecting_vers (im i) \<noteq> None \<and> av_is_latest (t_advisories db ! im_advisory (im i)) \<and>
                 im_affecting_vers (im i) \<noteq> Some []) [0..<length (t_impacts db)]
      in sort_key (\<lambda>i. im_advisory (im i))
           (filter (\<lambda>i. im_unfurled_at (im i) = None) qs @
            sort_key (\<lambda>i. the (im_unfurled_at (im i))) (filter (\<lambda>i. im_unfurled_at (im i) \<noteq> None) qs)))"

text \<open>The step. An exception ends it, and what was written until then stays.\<close>

definition unfurl_version_range ::
    "('r, 'v::linorder, 'd) import_env \<Rightarrow> fetchcode \<Rightarrow> (nat \<Rightarrow> int) \<Rightarrow> 'd import_db \<Rightarrow> py_error option \<times> 'd import_db" where
  "unfurl_version_range E F clk db =
     (let empty = rows_where (\<lambda>im. \<not> truthy_opt (im_affecting_vers im)) (t_impacts db);
          db = date_impacts (clk 0) empty empty db;
          start = \<lparr>us_db = db, us_cache = [], us_done = [], us_ok = [], us_clock = 2\<rparr>
      in case unfurl_loop E F clk (impacted_package_qs (clk 1) reunfurl_after_days db) start of
           (Some e, s) \<Rightarrow> (Some e, us_db s)
         | (None, s) \<Rightarrow> (None, us_db (write_dates clk s)))"

section \<open>The versions of one impact\<close>

definition known_versions :: "purl_lib \<Rightarrow> fetchcode \<Rightarrow> purl \<Rightarrow> string list" where
  "known_versions L F p = (case get_versions L F p of None \<Rightarrow> [] | Some vs \<Rightarrow> vs)"

definition cache_ok :: "purl_lib \<Rightarrow> fetchcode \<Rightarrow> version_cache \<Rightarrow> bool" where
  "cache_ok L F cache \<longleftrightarrow> (\<forall>p vs. map_of cache p = Some vs \<longrightarrow> get_versions L F p = Some vs)"

lemma get_purl_versions_ok:
  assumes "cache_ok L F cache"
  shows "fst (get_purl_versions L F p cache) = known_versions L F p" "cache_ok L F (snd (get_purl_versions L F p cache))"
proof -
  have "fst (get_purl_versions L F p cache) = known_versions L F p \<and> cache_ok L F (snd (get_purl_versions L F p cache))"
  proof (cases "map_of cache p")
    case None
    then show ?thesis using assms
      by (auto simp: get_purl_versions_def known_versions_def dict_get_def cache_ok_def split: option.splits)
  next
    case (Some vs)
    then show ?thesis using assms
      by (auto simp: get_purl_versions_def known_versions_def dict_get_def cache_ok_def)
  qed
  then show "fst (get_purl_versions L F p cache) = known_versions L F p" "cache_ok L F (snd (get_purl_versions L F p cache))"
    by simp_all
qed

text \<open>What becomes of an impact, and the package URLs it gets: this depends on the impact only.\<close>

definition impact_outcome ::
    "('r, 'v, 'd) import_env \<Rightarrow> fetchcode \<Rightarrow> impact_v2 \<Rightarrow> (unfurl_outcome \<times> purl list) result" where
  "impact_outcome E F im =
     (let L = purls (env_ext E) in
      case lib_from_string L (im_base_purl im) of Inl e \<Rightarrow> Inl e
      | Inr p \<Rightarrow>
          if \<not> truthy_opt (im_affecting_vers im) \<or> \<not> has_comparator (the (im_affecting_vers im)) then Inr (Nothing_to_unfurl, [])
          else if ptype p \<notin> set (fc_types F) \<or> type_version (env_ext E) (ptype p) = None then Inr (Skipped, [])
          else (case get_affected_purls E (known_versions L F p) im of Inl e \<Rightarrow> Inl e
             | Inr (Some (q # qs)) \<Rightarrow> Inr (Unfurled, q # qs)
             | Inr _ \<Rightarrow> Inr (Skipped, [])))"

lemma unfurl_impact_eq:
  assumes "cache_ok (purls (env_ext E)) F cache"
  shows "\<exists>cache'. cache_ok (purls (env_ext E)) F cache' \<and> unfurl_impact E F i cache db =
     (case impact_outcome E F (t_impacts db ! i) of Inl e \<Rightarrow> Inl e
      | Inr (Unfurled, ps) \<Rightarrow> map_sum id (\<lambda>(_, db). (Unfurled, cache', db)) (bulk_create_affecting E ps i db)
      | Inr (out, ps) \<Rightarrow> Inr (out, cache', db))"
proof -
  let ?im = "t_impacts db ! i" and ?L = "purls (env_ext E)"
  show ?thesis
  proof (cases "lib_from_string ?L (im_base_purl ?im)")
    case (Inl e)
    then show ?thesis using assms by (auto simp: unfurl_impact_def impact_outcome_def Let_def)
  next
    case (Inr p)
    obtain vs cache' where v: "get_purl_versions ?L F p cache = (vs, cache')" by force
    with get_purl_versions_ok [OF assms, of p] have vs: "vs = known_versions ?L F p" and c: "cache_ok ?L F cache'" by simp_all
    show ?thesis
    proof (cases "\<not> truthy_opt (im_affecting_vers ?im) \<or> \<not> has_comparator (the (im_affecting_vers ?im)) \<or>
        ptype p \<notin> set (fc_types F) \<or> type_version (env_ext E) (ptype p) = None")
      case True
      then show ?thesis using assms Inr by (intro exI [of _ cache]) (auto simp: unfurl_impact_def impact_outcome_def Let_def)
    next
      case False
      then show ?thesis using c Inr v vs
        by (intro exI [of _ cache']) (auto simp: unfurl_impact_def impact_outcome_def Let_def split: sum.split option.split list.split)
    qed
  qed
qed

text \<open>What a run keeps of the tables, and the impacts but for their affected packages and dates.\<close>

definition same_impact :: "impact_v2 \<Rightarrow> impact_v2 \<Rightarrow> bool" where
  "same_impact a b \<longleftrightarrow> a\<lparr>im_affecting := [], im_unfurled_at := None, im_unfurled_ok_at := None\<rparr> =
     b\<lparr>im_affecting := [], im_unfurled_at := None, im_unfurled_ok_at := None\<rparr>"

lemma same_impactD:
  "same_impact a b \<Longrightarrow> im_base_purl a = im_base_purl b \<and> im_affecting_vers a = im_affecting_vers b \<and>
     im_advisory a = im_advisory b \<and> im_fixed_by a = im_fixed_by b \<and> im_fixed_vers a = im_fixed_vers b"
  by (cases a, cases b) (simp add: same_impact_def)

lemma same_impact_outcome: "same_impact a b \<Longrightarrow> impact_outcome E F a = impact_outcome E F b"
proof -
  assume s: "same_impact a b"
  then have e: "im_base_purl a = im_base_purl b" "im_affecting_vers a = im_affecting_vers b" by (simp_all add: same_impactD)
  have "get_affected_purls E vs a = get_affected_purls E vs b" for vs
    unfolding get_affected_purls_def e by (rule refl)
  then show ?thesis unfolding impact_outcome_def e by presburger
qed

lemma same_impact_refl [simp]: "same_impact a a" by (simp add: same_impact_def)

lemma same_impact_trans: "same_impact a b \<Longrightarrow> same_impact b c \<Longrightarrow> same_impact a c"
  by (simp add: same_impact_def)

definition affected_urls :: "'d import_db \<Rightarrow> nat \<Rightarrow> string set" where
  "affected_urls db i = (\<lambda>k. package_url (t_packages db ! k)) ` set (im_affecting (t_impacts db ! i))"

definition tables_ok :: "purl_lib \<Rightarrow> 'd import_db \<Rightarrow> bool" where
  "tables_ok L db \<longleftrightarrow> packages_ok L (t_packages db) \<and>
     list_all (\<lambda>im. list_all (\<lambda>k. k < length (t_packages db)) (im_affecting im @ im_fixed_by im)) (t_impacts db)"

lemma urls_of_rows:
  "(\<lambda>k. package_url (t ! k)) ` set (rows_where (\<lambda>r. package_url r \<in> U) t) = U \<inter> package_url ` set t"
proof (intro set_eqI iffI)
  fix u assume "u \<in> U \<inter> package_url ` set t"
  then obtain i where i: "i < length t" "u = package_url (t ! i)" "u \<in> U" by (auto simp: in_set_conv_nth)
  then have "i \<in> set (rows_where (\<lambda>r. package_url r \<in> U) t)" by (simp add: rows_where_iff)
  with i(2) show "u \<in> (\<lambda>k. package_url (t ! k)) ` set (rows_where (\<lambda>r. package_url r \<in> U) t)" by blast
qed (auto simp: rows_where_iff)

lemma bulk_create_affecting_ok:
  assumes "purl_fields_law (purls (env_ext E))" "tables_ok (purls (env_ext E)) db" "i < length (t_impacts db)"
    "bulk_create_affecting E ps i db = Inr (n, db')"
  shows "tables_ok (purls (env_ext E)) db'" "t_advisories db' = t_advisories db" "length (t_impacts db') = length (t_impacts db)"
    "\<And>j. j < length (t_impacts db) \<Longrightarrow> same_impact (t_impacts db ! j) (t_impacts db' ! j) \<and>
       im_unfurled_at (t_impacts db' ! j) = im_unfurled_at (t_impacts db ! j) \<and>
       im_unfurled_ok_at (t_impacts db' ! j) = im_unfurled_ok_at (t_impacts db ! j) \<and>
       affected_urls db' j = affected_urls db j \<union> (if j = i then purl_urls (purls (env_ext E)) ps else {})"
proof -
  have "tables_ok (purls (env_ext E)) db' \<and> t_advisories db' = t_advisories db \<and> length (t_impacts db') = length (t_impacts db) \<and>
     (\<forall>j<length (t_impacts db). same_impact (t_impacts db ! j) (t_impacts db' ! j) \<and>
       im_unfurled_at (t_impacts db' ! j) = im_unfurled_at (t_impacts db ! j) \<and>
       im_unfurled_ok_at (t_impacts db' ! j) = im_unfurled_ok_at (t_impacts db ! j) \<and>
       affected_urls db' j = affected_urls db j \<union> (if j = i then purl_urls (purls (env_ext E)) ps else {}))"
  proof (cases "ps = []")
    case True
    with assms(2-4) show ?thesis by (simp add: bulk_create_affecting_def purl_urls_def)
  next
    case False
    obtain ids pk where g: "bulk_get_or_create_from_purls (purls (env_ext E)) (map PObj ps) (t_packages db) = Inr (ids, pk)"
      using assms(4) False by (auto simp: bulk_create_affecting_def split: sum.splits)
    have p: "packages_ok (purls (env_ext E)) (t_packages db)" using assms(2) by (simp add: tables_ok_def)
    note b = bulk_get_packages [OF assms(1) p g]
    let ?U = "purl_urls (purls (env_ext E)) ps"
    obtain new where new: "pk = t_packages db @ new" using b(2) by blast
    have u: "(\<lambda>k. package_url (pk ! k)) ` set ids = ?U" using urls_of_rows [of pk ?U] b(3,4) by auto
    have old: "k < length (t_packages db)" if "j < length (t_impacts db)" "k \<in> set (im_affecting (t_impacts db ! j))" for j k
    proof -
      have "t_impacts db ! j \<in> set (t_impacts db)" using that(1) by simp
      with assms(2) that(2) show ?thesis by (auto simp: tables_ok_def list_all_iff)
    qed
    obtain pk2 where pk2: "map package_url pk2 = map package_url pk" "packages_ok (purls (env_ext E)) pk2"
      and db': "db' = (if ids = [] then db\<lparr>t_packages := pk2\<rparr> else relate_packages i ids (db\<lparr>t_packages := pk2\<rparr>))"
    proof (cases ids)
      case Nil
      with that [of pk] b(1) show thesis using assms(4) False g by (simp add: bulk_create_affecting_def)
    next
      case (Cons k ids')
      with assms(4) False g obtain m pk2 where r: "calculate_version_rank (env_vclass E) (pk ! k) pk = Inr (m, pk2)"
        "db' = relate_packages i ids (db\<lparr>t_packages := pk2\<rparr>)"
        by (auto simp: bulk_create_affecting_def split: sum.splits)
      with that [of pk2] version_rank_urls [OF r(1)] b(1) Cons show thesis by simp
    qed
    have len: "length pk2 = length pk" using pk2(1) by (metis length_map)
    have url: "package_url (pk2 ! k) = package_url (pk ! k)" if "k < length pk" for k
      using pk2(1) len that by (metis nth_map)
    have idl: "k < length pk" if "k \<in> set ids" for k using that b(4) by (simp add: rows_where_iff)
    have img: "(\<lambda>k. package_url (pk2 ! k)) ` (A \<union> set ids) = (\<lambda>k. package_url (t_packages db ! k)) ` A \<union> ?U"
      if "\<And>k. k \<in> A \<Longrightarrow> k < length (t_packages db)" for A
      unfolding u [symmetric] image_Un
      by (intro arg_cong2 [where f = "(\<union>)"] image_cong refl) (use that url idl len in \<open>auto simp: new nth_append dest!: that\<close>)
    have old_img: "(\<lambda>k. package_url (pk2 ! k)) ` A = (\<lambda>k. package_url (t_packages db ! k)) ` A"
      if "\<And>k. k \<in> A \<Longrightarrow> k < length (t_packages db)" for A
      by (intro image_cong refl) (use that url in \<open>auto simp: new nth_append dest!: that\<close>)
    have affected: "affected_urls db' j = affected_urls db j \<union> (if j = i then ?U else {})" if j: "j < length (t_impacts db)" for j
    proof (cases "ids = [] \<or> j \<noteq> i")
      case True
      then have "im_affecting (t_impacts db' ! j) = im_affecting (t_impacts db ! j)" "t_packages db' = pk2" "ids = [] \<Longrightarrow> ?U = {}"
        using u by (auto simp: db' relate_packages_def Let_def)
      with old_img [of "set (im_affecting (t_impacts db ! j))"] old [OF j] True show ?thesis by (auto simp: affected_urls_def)
    next
      case False
      then have "set (im_affecting (t_impacts db' ! j)) = set (im_affecting (t_impacts db ! j)) \<union> set ids" "t_packages db' = pk2"
        using assms(3) by (auto simp: db' relate_packages_def Let_def)
      with img [of "set (im_affecting (t_impacts db ! j))"] old [OF j] False show ?thesis by (simp add: affected_urls_def)
    qed
    have shape: "t_packages db' = pk2" "length (t_impacts db') = length (t_impacts db)" by (simp_all add: db' relate_packages_def Let_def)
    have bound: "k < length pk2" if j: "j < length (t_impacts db)" and k: "k \<in> set (im_affecting (t_impacts db' ! j))" for j k
    proof -
      have "k \<in> set (im_affecting (t_impacts db ! j)) \<or> k \<in> set ids"
        using j k assms(3) by (auto simp: db' relate_packages_def Let_def nth_list_update split: if_splits)
      then show ?thesis using old [OF j, of k] idl [of k] by (auto simp: len new)
    qed
    have same: "im_fixed_by (t_impacts db' ! j) = im_fixed_by (t_impacts db ! j)" if "j < length (t_impacts db)" for j
      using that assms(3) by (auto simp: db' relate_packages_def Let_def nth_list_update)
    have "k < length pk2" if "j < length (t_impacts db)" "k \<in> set (im_fixed_by (t_impacts db ! j))" for j k
    proof -
      have "t_impacts db ! j \<in> set (t_impacts db)" using that(1) by simp
      with assms(2) that(2) have "k < length (t_packages db)" by (auto simp: tables_ok_def list_all_iff)
      then show ?thesis by (simp add: len new)
    qed
    with bound have "list_all (\<lambda>im. list_all (\<lambda>k. k < length pk2) (im_affecting im @ im_fixed_by im)) (t_impacts db')"
      by (subst list_all_length) (auto simp: shape list_all_iff same)
    then have "tables_ok (purls (env_ext E)) db'"
      using pk2(2) by (simp add: tables_ok_def shape)
    moreover have "t_advisories db' = t_advisories db" "length (t_impacts db') = length (t_impacts db)"
      by (simp_all add: db' relate_packages_def Let_def)
    moreover have "same_impact (t_impacts db ! j) (t_impacts db' ! j) \<and>
       im_unfurled_at (t_impacts db' ! j) = im_unfurled_at (t_impacts db ! j) \<and>
       im_unfurled_ok_at (t_impacts db' ! j) = im_unfurled_ok_at (t_impacts db ! j)" if "j < length (t_impacts db)" for j
      using that assms(3) by (auto simp: db' relate_packages_def Let_def nth_list_update same_impact_def)
    ultimately show ?thesis using affected by blast
  qed
  then show "tables_ok (purls (env_ext E)) db'" "t_advisories db' = t_advisories db" "length (t_impacts db') = length (t_impacts db)"
    "\<And>j. j < length (t_impacts db) \<Longrightarrow> same_impact (t_impacts db ! j) (t_impacts db' ! j) \<and>
       im_unfurled_at (t_impacts db' ! j) = im_unfurled_at (t_impacts db ! j) \<and>
       im_unfurled_ok_at (t_impacts db' ! j) = im_unfurled_ok_at (t_impacts db ! j) \<and>
       affected_urls db' j = affected_urls db j \<union> (if j = i then purl_urls (purls (env_ext E)) ps else {})" by blast+
qed


lemma impact_outcome_purls: "impact_outcome E F im = Inr (out, ps) \<Longrightarrow> out \<noteq> Unfurled \<Longrightarrow> ps = []"
  by (auto simp: impact_outcome_def Let_def split: sum.splits if_splits option.splits list.splits)

lemma unfurl_impact_ok:
  assumes "purl_fields_law (purls (env_ext E))" "tables_ok (purls (env_ext E)) db" "i < length (t_impacts db)"
    "cache_ok (purls (env_ext E)) F cache" "unfurl_impact E F i cache db = Inr (out, cache', db')"
  obtains ps where "impact_outcome E F (t_impacts db ! i) = Inr (out, ps)" "cache_ok (purls (env_ext E)) F cache'"
    "tables_ok (purls (env_ext E)) db'" "t_advisories db' = t_advisories db" "length (t_impacts db') = length (t_impacts db)"
    "\<And>j. j < length (t_impacts db) \<Longrightarrow> same_impact (t_impacts db ! j) (t_impacts db' ! j) \<and>
       im_unfurled_at (t_impacts db' ! j) = im_unfurled_at (t_impacts db ! j) \<and>
       im_unfurled_ok_at (t_impacts db' ! j) = im_unfurled_ok_at (t_impacts db ! j) \<and>
       affected_urls db' j = affected_urls db j \<union> (if j = i then purl_urls (purls (env_ext E)) ps else {})"
proof -
  obtain cache2 where c: "cache_ok (purls (env_ext E)) F cache2" "unfurl_impact E F i cache db =
     (case impact_outcome E F (t_impacts db ! i) of Inl e \<Rightarrow> Inl e
      | Inr (Unfurled, ps) \<Rightarrow> map_sum id (\<lambda>(_, db). (Unfurled, cache2, db)) (bulk_create_affecting E ps i db)
      | Inr (out, ps) \<Rightarrow> Inr (out, cache2, db))"
    using unfurl_impact_eq [OF assms(4)] by blast
  from c(2) assms(5) obtain o2 ps where o: "impact_outcome E F (t_impacts db ! i) = Inr (o2, ps)"
    by (auto split: sum.splits)
  show thesis
  proof (cases "o2 = Unfurled")
    case True
    with c(2) o assms(5) obtain n where b: "bulk_create_affecting E ps i db = Inr (n, db')" "out = Unfurled" "cache' = cache2"
      by (cases "bulk_create_affecting E ps i db") auto
    show thesis
      by (rule that [of ps]) (use o True b c(1) bulk_create_affecting_ok [OF assms(1-3) b(1)] in simp_all)
  next
    case False
    with c(2) o assms(5) have "out = o2" "cache' = cache2" "db' = db" by (auto split: unfurl_outcome.splits)
    moreover have "ps = []" using impact_outcome_purls o False by blast
    ultimately show thesis using that [of ps] o c(1) assms(2) by (simp add: purl_urls_def)
  qed
qed

lemma date_impacts_simps [simp]:
  "t_advisories (date_impacts t A S db) = t_advisories db" "t_packages (date_impacts t A S db) = t_packages db"
  "length (t_impacts (date_impacts t A S db)) = length (t_impacts db)"
  by (simp_all add: date_impacts_def)

lemma date_impacts_nth:
  "j < length (t_impacts db) \<Longrightarrow> t_impacts (date_impacts t A S db) ! j = (t_impacts db ! j)\<lparr>
     im_unfurled_at := (if j \<in> set A then Some t else im_unfurled_at (t_impacts db ! j)),
     im_unfurled_ok_at := (if j \<in> set S then Some t else im_unfurled_ok_at (t_impacts db ! j))\<rparr>"
  by (simp add: date_impacts_def nth_enumerate_eq)

lemma date_impacts_keeps:
  "j < length (t_impacts db) \<Longrightarrow> same_impact (t_impacts db ! j) (t_impacts (date_impacts t A S db) ! j) \<and>
     affected_urls (date_impacts t A S db) j = affected_urls db j"
  by (simp add: date_impacts_nth same_impact_def affected_urls_def)

lemma date_impacts_tables: "tables_ok L db \<Longrightarrow> tables_ok L (date_impacts t A S db)"
  by (auto simp: tables_ok_def list_all_length date_impacts_nth)

text \<open>
  The impacts of a state of the loop as they are once the pending dates are written: \<open>dated\<close> is what
  the rest of the loop does to them.
\<close>

definition dated :: "(nat \<Rightarrow> int) \<Rightarrow> bool \<Rightarrow> int option \<Rightarrow> int option \<Rightarrow> bool" where
  "dated clk now t t' \<longleftrightarrow> (if now then t' \<in> Some ` range clk else t' = t)"

definition run_ok ::
    "('r, 'v, 'd) import_env \<Rightarrow> fetchcode \<Rightarrow> (nat \<Rightarrow> int) \<Rightarrow> nat list \<Rightarrow> nat list \<Rightarrow> nat list \<Rightarrow> 'd import_db \<Rightarrow> 'd import_db \<Rightarrow> nat \<Rightarrow> bool" where
  "run_ok E F clk is attempted successful db db' j \<longleftrightarrow>
     (let im = t_impacts db ! j; im' = t_impacts db' ! j; L = purls (env_ext E)
      in same_impact im im' \<and> dated clk (j \<in> set is \<or> j \<in> set attempted) (im_unfurled_at im) (im_unfurled_at im') \<and>
         (if j \<in> set is
          then (\<exists>out ps. impact_outcome E F im = Inr (out, ps) \<and> affected_urls db' j = affected_urls db j \<union> purl_urls L ps \<and>
                 dated clk (out \<noteq> Skipped \<or> j \<in> set successful) (im_unfurled_ok_at im) (im_unfurled_ok_at im'))
          else affected_urls db' j = affected_urls db j \<and>
               dated clk (j \<in> set successful) (im_unfurled_ok_at im) (im_unfurled_ok_at im')))"

lemma unfurl_loop_ok:
  assumes "purl_fields_law (purls (env_ext E))" "unfurl_loop E F clk is s = (None, s')"
    "tables_ok (purls (env_ext E)) (us_db s)" "cache_ok (purls (env_ext E)) F (us_cache s)"
    "distinct is" "set is \<subseteq> {..<length (t_impacts (us_db s))}"
  shows "t_advisories (us_db s') = t_advisories (us_db s) \<and> length (t_impacts (us_db s')) = length (t_impacts (us_db s)) \<and>
    tables_ok (purls (env_ext E)) (us_db s') \<and>
    (\<forall>j<length (t_impacts (us_db s)). run_ok E F clk is (us_done s) (us_ok s) (us_db s) (us_db (write_dates clk s')) j)"
  using assms(2-)
proof (induction "is" arbitrary: s)
  case Nil
  then have "s' = s" by simp
  have "run_ok E F clk [] (us_done s) (us_ok s) (us_db s) (us_db (write_dates clk s)) j"
    if "j < length (t_impacts (us_db s))" for j
    using that date_impacts_keeps [of j "us_db s"] by (simp add: run_ok_def Let_def write_dates_def dated_def date_impacts_nth)
  with \<open>s' = s\<close> Nil.prems(2) show ?case by simp
next
  case (Cons i "is")
  let ?L = "purls (env_ext E)"
  have i: "i < length (t_impacts (us_db s))" "i \<notin> set is" using Cons.prems(4,5) by auto
  obtain out cache db where u: "unfurl_impact E F i (us_cache s) (us_db s) = Inr (out, cache, db)"
    using Cons.prems(1) by (auto simp: Let_def split: sum.splits)
  let ?s1 = "s\<lparr>us_done := us_done s @ [i], us_cache := cache, us_db := db,
                us_ok := (if out = Skipped then us_ok s else us_ok s @ [i])\<rparr>"
  let ?s2 = "if out = Unfurled \<and> 500 < length (us_done ?s1) then write_dates clk ?s1 else ?s1"
  have run: "unfurl_loop E F clk is ?s2 = (None, s')"
    using Cons.prems(1) u by (simp add: Let_def cong: if_cong)
  obtain ps where o: "impact_outcome E F (t_impacts (us_db s) ! i) = Inr (out, ps)" "cache_ok ?L F cache" "tables_ok ?L db"
      "t_advisories db = t_advisories (us_db s)" "length (t_impacts db) = length (t_impacts (us_db s))"
      "\<And>j. j < length (t_impacts (us_db s)) \<Longrightarrow> same_impact (t_impacts (us_db s) ! j) (t_impacts db ! j) \<and>
       im_unfurled_at (t_impacts db ! j) = im_unfurled_at (t_impacts (us_db s) ! j) \<and>
       im_unfurled_ok_at (t_impacts db ! j) = im_unfurled_ok_at (t_impacts (us_db s) ! j) \<and>
       affected_urls db j = affected_urls (us_db s) j \<union> (if j = i then purl_urls ?L ps else {})"
    using unfurl_impact_ok [OF assms(1) Cons.prems(2) i(1) Cons.prems(3) u] by blast
  let ?A = "us_done ?s2" and ?S = "us_ok ?s2" and ?db2 = "us_db ?s2"
  have s2: "t_advisories ?db2 = t_advisories (us_db s)" "length (t_impacts ?db2) = length (t_impacts (us_db s))"
      "tables_ok ?L ?db2" "cache_ok ?L F (us_cache ?s2)"
    using o(2-5) by (simp_all add: write_dates_def date_impacts_tables)
  have IH: "t_advisories (us_db s') = t_advisories ?db2 \<and> length (t_impacts (us_db s')) = length (t_impacts ?db2) \<and>
    tables_ok ?L (us_db s') \<and> (\<forall>j<length (t_impacts ?db2). run_ok E F clk is ?A ?S ?db2 (us_db (write_dates clk s')) j)"
    by (rule Cons.IH [OF run s2(3,4)]) (use Cons.prems(4,5) s2(2) in auto)
  have "run_ok E F clk (i # is) (us_done s) (us_ok s) (us_db s) (us_db (write_dates clk s')) j"
    if j: "j < length (t_impacts (us_db s))" for j
  proof -
    let ?im = "t_impacts (us_db s) ! j" and ?im2 = "t_impacts ?db2 ! j" and ?im' = "t_impacts (us_db (write_dates clk s')) ! j"
    let ?w = "out = Unfurled \<and> 500 < length (us_done ?s1)"
    have "same_impact (t_impacts db ! j) ?im2"
      using date_impacts_keeps [of j db] j o(5) by (simp add: write_dates_def)
    then have same: "same_impact ?im ?im2" using o(6) [OF j] same_impact_trans by blast
    have urls: "affected_urls ?db2 j = affected_urls (us_db s) j \<union> (if j = i then purl_urls ?L ps else {})"
    proof -
      have "affected_urls ?db2 j = affected_urls db j"
        using date_impacts_keeps [of j db] j o(5) by (simp add: write_dates_def)
      then show ?thesis using o(6) [OF j] by simp
    qed
    have at: "im_unfurled_at ?im2 = (if ?w \<and> (j \<in> set (us_done s) \<or> j = i) then Some (clk (us_clock s)) else im_unfurled_at ?im)"
      using o(6) [OF j] j o(5) by (auto simp: write_dates_def date_impacts_nth)
    have okat: "im_unfurled_ok_at ?im2 = (if ?w \<and> (j \<in> set (us_ok s) \<or> j = i) then Some (clk (us_clock s)) else im_unfurled_ok_at ?im)"
      using o(6) [OF j] j o(5) by (auto simp: write_dates_def date_impacts_nth)
    have sets: "set ?A = (if ?w then {} else insert i (set (us_done s)))"
        "set ?S = (if ?w then {} else if out = Skipped then set (us_ok s) else insert i (set (us_ok s)))"
      by (auto simp: write_dates_def)
    have ih: "run_ok E F clk is ?A ?S ?db2 (us_db (write_dates clk s')) j" using IH j s2(2) by simp
    have out: "impact_outcome E F ?im2 = impact_outcome E F ?im" by (rule same_impact_outcome [OF same, symmetric])
    have s: "same_impact ?im ?im'" using ih same same_impact_trans by (auto simp: run_ok_def Let_def)
    have a: "dated clk (j \<in> set (i # is) \<or> j \<in> set (us_done s)) (im_unfurled_at ?im) (im_unfurled_at ?im')"
      using ih unfolding run_ok_def Let_def sets(1) at by (auto simp: dated_def split: if_splits)
    show ?thesis
    proof (cases "j \<in> set is")
      case True
      with i(2) have "j \<noteq> i" by blast
      with ih True show ?thesis
        unfolding run_ok_def Let_def sets out urls okat using s a by (auto simp: dated_def split: if_splits)
    next
      case False
      show ?thesis
      proof (cases "j = i")
        case True
        with ih False o(1) show ?thesis
          unfolding run_ok_def Let_def sets out urls okat using s a by (auto simp: dated_def split: if_splits)
      next
        case False
        with ih \<open>j \<notin> set is\<close> show ?thesis
          unfolding run_ok_def Let_def sets out urls okat using s a by (auto simp: dated_def split: if_splits)
      qed
    qed
  qed
  with IH s2 show ?case by simp
qed

section \<open>What a run leaves\<close>

text \<open>The URLs of the upstream versions of the package of an impact that are in its range.\<close>

definition range_urls :: "('r, 'v, 'd) import_env \<Rightarrow> fetchcode \<Rightarrow> impact_v2 \<Rightarrow> string set" where
  "range_urls E F im = {package_url row | p r s v q row.
     lib_from_string (purls (env_ext E)) (im_base_purl im) = Inr p \<and>
     range_parse (env_ext E) (str_or_empty (im_affecting_vers im)) = Inr r \<and>
     s \<in> set (known_versions (purls (env_ext E)) F p) \<and> range_version (env_ext E) r s = Inr v \<and> env_contains E v r = Inr True \<and>
     update_purl_version (purls (env_ext E)) (PStr (im_base_purl im)) (Some (version_str (env_ext E) v)) = Inr q \<and>
     package_of_purl (purls (env_ext E)) (PObj q) = Inr row}"

lemma unfurled_urls:
  assumes "impact_outcome E F im = Inr (Unfurled, ps)"
  shows "purl_urls (purls (env_ext E)) ps = range_urls E F im"
proof -
  let ?L = "purls (env_ext E)"
  obtain p where p: "lib_from_string ?L (im_base_purl im) = Inr p"
    and a: "get_affected_purls E (known_versions ?L F p) im = Inr (Some ps)"
    using assms by (auto simp: impact_outcome_def Let_def split: sum.splits if_splits option.splits list.splits)
  from a obtain r where r: "range_parse (env_ext E) (str_or_empty (im_affecting_vers im)) = Inr r"
    by (auto simp: get_affected_purls_def split: sum.splits)
  show ?thesis
  proof (cases "known_versions ?L F p = []")
    case True
    with a r p show ?thesis by (auto simp: get_affected_purls_def purl_urls_def range_urls_def)
  next
    case False
    with a r obtain vs where vs: "map_result (range_version (env_ext E) r) (known_versions ?L F p) = Inr vs"
      and ps: "ps = concat (map (\<lambda>v. case env_contains E v r of
                  Inr True \<Rightarrow> (case update_purl_version ?L (PStr (im_base_purl im))
                                   (Some (version_str (env_ext E) v)) of Inl _ \<Rightarrow> [] | Inr p \<Rightarrow> [p])
                | _ \<Rightarrow> []) vs)"
      by (auto simp: get_affected_purls_def split: sum.splits)
    have mem: "v \<in> set vs \<longleftrightarrow> (\<exists>s\<in>set (known_versions ?L F p). range_version (env_ext E) r s = Inr v)" for v
    proof -
      have "list_all2 (\<lambda>s v. range_version (env_ext E) r s = Inr v) (known_versions ?L F p) vs"
        using vs by (simp add: map_result_Inr_iff)
      then show ?thesis by (induction rule: list_all2_induct) auto
    qed
    have "q \<in> set ps \<longleftrightarrow> (\<exists>v\<in>set vs. env_contains E v r = Inr True \<and>
        update_purl_version ?L (PStr (im_base_purl im)) (Some (version_str (env_ext E) v)) = Inr q)" for q
      unfolding ps by (auto split: sum.splits bool.splits) (force split: sum.splits bool.splits)
    with p r mem show ?thesis unfolding purl_urls_def range_urls_def by (simp add: Bex_def) blast
  qed
qed

lemma outcome_urls:
  assumes "impact_outcome E F im = Inr (out, ps)"
  shows "purl_urls (purls (env_ext E)) ps = (if out = Unfurled then range_urls E F im else {})"
proof (cases "out = Unfurled")
  case True
  with assms unfurled_urls show ?thesis by simp
next
  case False
  with impact_outcome_purls [OF assms] show ?thesis by (simp add: purl_urls_def)
qed

definition due :: "int \<Rightarrow> 'd import_db \<Rightarrow> impact_v2 \<Rightarrow> bool" where
  "due now db im \<longleftrightarrow> truthy_opt (im_affecting_vers im) \<and> av_is_latest (t_advisories db ! im_advisory im) \<and>
     (case im_unfurled_at im of None \<Rightarrow> True | Some t \<Rightarrow> t \<le> now - 2 * day)"

lemma impacted_package_qs_mem:
  "distinct (impacted_package_qs now 2 db) \<and>
   set (impacted_package_qs now 2 db) = {j. j < length (t_impacts db) \<and> due now db (t_impacts db ! j)}"
proof -
  have "distinct (filter P xs @ sort_key f (filter (\<lambda>x. \<not> P x) xs))" if "distinct xs" for P f and xs :: "nat list"
    using that by auto
  then show ?thesis
    by (auto simp: impacted_package_qs_def Let_def due_def truthy_opt_def split: option.splits)
qed

text \<open>The tables after a run, and then each impact.\<close>

definition impact_run :: "('r, 'v, 'd) import_env \<Rightarrow> fetchcode \<Rightarrow> (nat \<Rightarrow> int) \<Rightarrow> 'd import_db \<Rightarrow> 'd import_db \<Rightarrow> nat \<Rightarrow> bool" where
  "impact_run E F clk db db' j \<longleftrightarrow>
    (let im = t_impacts db ! j; im' = t_impacts db' ! j
     in same_impact im im' \<and>
       (if \<not> truthy_opt (im_affecting_vers im)
        then affected_urls db' j = affected_urls db j \<and> im_unfurled_at im' = Some (clk 0) \<and> im_unfurled_ok_at im' = Some (clk 0)
        else if due (clk 1) db im
        then \<exists>out ps. impact_outcome E F im = Inr (out, ps) \<and>
          affected_urls db' j = affected_urls db j \<union> (if out = Unfurled then range_urls E F im else {}) \<and>
          im_unfurled_at im' \<in> Some ` range clk \<and>
          (if out = Skipped then im_unfurled_ok_at im' = im_unfurled_ok_at im else im_unfurled_ok_at im' \<in> Some ` range clk)
        else affected_urls db' j = affected_urls db j \<and> im_unfurled_at im' = im_unfurled_at im \<and>
          im_unfurled_ok_at im' = im_unfurled_ok_at im))"

lemma unfurl_run_ok:
  assumes "purl_fields_law (purls (env_ext E))" "tables_ok (purls (env_ext E)) db"
    "unfurl_version_range E F clk db = (None, db')"
  shows "t_advisories db' = t_advisories db \<and> length (t_impacts db') = length (t_impacts db) \<and> tables_ok (purls (env_ext E)) db' \<and>
    (\<forall>j<length (t_impacts db). impact_run E F clk db db' j)"
proof -
  let ?empty = "rows_where (\<lambda>im. \<not> truthy_opt (im_affecting_vers im)) (t_impacts db)"
  let ?db0 = "date_impacts (clk 0) ?empty ?empty db"
  let ?start = "\<lparr>us_db = ?db0, us_cache = [], us_done = [], us_ok = [], us_clock = 2\<rparr>"
  let ?qs = "impacted_package_qs (clk 1) 2 ?db0"
  obtain s' where run: "unfurl_loop E F clk ?qs ?start = (None, s')" and db': "db' = us_db (write_dates clk s')"
    using assms(3) by (auto simp: unfurl_version_range_def Let_def reunfurl_after_days_def split: prod.splits option.splits)
  have nth: "t_impacts ?db0 ! i = (if truthy_opt (im_affecting_vers (t_impacts db ! i)) then t_impacts db ! i
      else (t_impacts db ! i)\<lparr>im_unfurled_at := Some (clk 0), im_unfurled_ok_at := Some (clk 0)\<rparr>)"
    if "i < length (t_impacts db)" for i
    using that by (simp add: date_impacts_nth rows_where_iff)
  note qs = impacted_package_qs_mem [of "clk 1" ?db0]
  have loop: "t_advisories (us_db s') = t_advisories db \<and> length (t_impacts (us_db s')) = length (t_impacts db) \<and>
      tables_ok (purls (env_ext E)) (us_db s') \<and>
      (\<forall>i<length (t_impacts db). run_ok E F clk ?qs [] [] ?db0 db' i)"
    using unfurl_loop_ok [OF assms(1) run] date_impacts_tables [OF assms(2)] qs by (auto simp: db' cache_ok_def)
  then have tables: "t_advisories db' = t_advisories db" "length (t_impacts db') = length (t_impacts db)" "tables_ok (purls (env_ext E)) db'"
    by (simp_all add: db' write_dates_def date_impacts_tables)
  have "impact_run E F clk db db' j" if j: "j < length (t_impacts db)" for j
  proof -
    have sel: "j \<in> set ?qs \<longleftrightarrow> due (clk 1) db (t_impacts db ! j)"
      using qs j by (simp add: nth due_def)
    have k: "same_impact (t_impacts db ! j) (t_impacts ?db0 ! j)" "affected_urls ?db0 j = affected_urls db j"
      using date_impacts_keeps [OF j] by simp_all
    from loop j have r: "run_ok E F clk ?qs [] [] ?db0 db' j" by blast
    then have same: "same_impact (t_impacts db ! j) (t_impacts db' ! j)"
      using k(1) same_impact_trans by (auto simp: run_ok_def Let_def)
    have o: "impact_outcome E F (t_impacts ?db0 ! j) = impact_outcome E F (t_impacts db ! j)"
      by (rule same_impact_outcome [OF k(1), symmetric])
    show ?thesis
    proof (cases "truthy_opt (im_affecting_vers (t_impacts db ! j))")
      case False
      then have "j \<notin> set ?qs" using sel by (simp add: due_def)
      with r False tables same k j show ?thesis
        by (simp add: impact_run_def run_ok_def Let_def dated_def nth)
    next
      case True
      then have n: "t_impacts ?db0 ! j = t_impacts db ! j" using nth [OF j] by simp
      show ?thesis
      proof (cases "j \<in> set ?qs")
        case False
        with r True sel tables same k n show ?thesis by (simp add: impact_run_def run_ok_def Let_def dated_def)
      next
        case in_qs: True
        with r n k obtain out ps where out: "impact_outcome E F (t_impacts db ! j) = Inr (out, ps)"
          "affected_urls db' j = affected_urls db j \<union> purl_urls (purls (env_ext E)) ps"
          "im_unfurled_at (t_impacts db' ! j) \<in> Some ` range clk"
          "dated clk (out \<noteq> Skipped) (im_unfurled_ok_at (t_impacts db ! j)) (im_unfurled_ok_at (t_impacts db' ! j))"
          by (auto simp: run_ok_def Let_def dated_def)
        have "if out = Skipped then im_unfurled_ok_at (t_impacts db' ! j) = im_unfurled_ok_at (t_impacts db ! j)
            else im_unfurled_ok_at (t_impacts db' ! j) \<in> Some ` range clk"
          using out(4) by (auto simp: dated_def split: if_splits)
        with out(1-3) True in_qs sel tables same show ?thesis
          unfolding impact_run_def Let_def outcome_urls [OF out(1)] by (simp only: if_True if_False not_True_eq_False simp_thms) blast
      qed
    qed
  qed
  with tables show ?thesis by blast
qed

text \<open>
  C9: A run without an exception relates to every impact that was due (its advisory is a latest one and it was not
  unfurled in the last two days) the packages of exactly the upstream versions in its range, when it can
  be unfurled, and dates it; it dates an impact without a range, and leaves every other impact as it was.
\<close>

theorem unfurl_run_exact:
  assumes "purl_fields_law (purls (env_ext E))" "tables_ok (purls (env_ext E)) db"
    "unfurl_version_range E F clk db = (None, db')" "j < length (t_impacts db)"
  shows "t_advisories db' = t_advisories db \<and> length (t_impacts db') = length (t_impacts db) \<and> tables_ok (purls (env_ext E)) db' \<and>
    (let im = t_impacts db ! j; im' = t_impacts db' ! j
     in same_impact im im' \<and>
       (if \<not> truthy_opt (im_affecting_vers im)
        then affected_urls db' j = affected_urls db j \<and> im_unfurled_at im' = Some (clk 0) \<and> im_unfurled_ok_at im' = Some (clk 0)
        else if due (clk 1) db im
        then \<exists>out ps. impact_outcome E F im = Inr (out, ps) \<and>
          affected_urls db' j = affected_urls db j \<union> (if out = Unfurled then range_urls E F im else {}) \<and>
          im_unfurled_at im' \<in> Some ` range clk \<and>
          (if out = Skipped then im_unfurled_ok_at im' = im_unfurled_ok_at im else im_unfurled_ok_at im' \<in> Some ` range clk)
        else affected_urls db' j = affected_urls db j \<and> im_unfurled_at im' = im_unfurled_at im \<and>
          im_unfurled_ok_at im' = im_unfurled_ok_at im))"
  using unfurl_run_ok [OF assms(1-3)] assms(4) by (simp only: impact_run_def)

section \<open>Examples\<close>

definition demo_unfurl_env :: "(nat, nat, nat) import_env" where
  "demo_unfurl_env = demo_env\<lparr>env_ext := demo_ext\<lparr>purls := demo_six_lib, type_version := (\<lambda>_. Some (\<lambda>s. Inr (length s))),
       range_parse := (\<lambda>s. if s = ''<?'' then Inl ValueError else Inr (length s)), version_str := (\<lambda>n. replicate n (CHR ''1''))\<rparr>,
     env_contains := (\<lambda>v r. Inr (v < r))\<rparr>"

definition demo_fetch :: fetchcode where
  "demo_fetch = \<lparr>fc_types = [''npm''], fc_versions = (\<lambda>p. if p = ''npm/a@'' then Inr [''v1'', ''11'', ''1111''] else Inl ValueError)\<rparr>"

definition demo_impact :: "nat \<Rightarrow> string \<Rightarrow> string \<Rightarrow> impact_v2" where
  "demo_impact i base vers = \<lparr>im_advisory = i, im_base_purl = base, im_affecting_vers = Some vers, im_fixed_vers = None,
     im_affecting = [], im_fixed_by = [], im_introduced_commits = [], im_fixed_commits = [],
     im_unfurled_at = None, im_unfurled_ok_at = None\<rparr>"

definition demo_unfurl_adv :: "string \<Rightarrow> nat advisory_v2" where
  "demo_unfurl_adv s = \<lparr>av_datasource = ''d'', av_pipeline = ''p'', av_advisory_id = s, av_avid = ''d/'' @ s, av_content_id = s,
     av_url = ''u'', av_summary = s, av_date_published = None, av_original = None, av_precedence = 0, av_is_latest = True,
     av_aliases = [], av_references = [], av_severities = [], av_weaknesses = [], av_patches = [],
     av_weighted_severity = None, av_exploitability = None, av_risk_score = None, av_unfurled_at = None, av_unfurled_ok_at = None\<rparr>"

definition demo_unfurl_db :: "impact_v2 list \<Rightarrow> nat import_db" where
  "demo_unfurl_db ims = empty_db\<lparr>t_advisories := [demo_unfurl_adv ''A'', demo_unfurl_adv ''B''], t_impacts := ims\<rparr>"

lemma demo_six_law: "purl_fields_law (purls (env_ext demo_unfurl_env))"
  by (simp add: purl_fields_law_def demo_unfurl_env_def demo_six_lib_def unique_package_fields_def)

text \<open>The range of the first impact has the versions 1 and 11 of the three upstream ones.\<close>

lemma unfurl_run_exact_witness:
  "affected_urls (snd (unfurl_version_range demo_unfurl_env demo_fetch int (demo_unfurl_db [demo_impact 0 ''npm/a@'' ''<33'']))) 0 =
     range_urls demo_unfurl_env demo_fetch (demo_impact 0 ''npm/a@'' ''<33'') \<and>
   im_unfurled_ok_at (t_impacts (snd (unfurl_version_range demo_unfurl_env demo_fetch int
     (demo_unfurl_db [demo_impact 0 ''npm/a@'' ''<33'']))) ! 0) \<in> Some ` range int"
proof -
  let ?db = "demo_unfurl_db [demo_impact 0 ''npm/a@'' ''<33'']"
  have "fst (unfurl_version_range demo_unfurl_env demo_fetch int ?db) = None" by code_simp
  then have run: "unfurl_version_range demo_unfurl_env demo_fetch int ?db =
      (None, snd (unfurl_version_range demo_unfurl_env demo_fetch int ?db))" by (simp add: prod_eq_iff)
  have im: "t_impacts ?db ! 0 = demo_impact 0 ''npm/a@'' ''<33''" "length (t_impacts ?db) = 1" "t_packages ?db = []"
      "t_advisories ?db ! 0 = demo_unfurl_adv ''A''"
    by (simp_all add: demo_unfurl_db_def empty_db_def)
  have ok: "tables_ok (purls (env_ext demo_unfurl_env)) ?db"
    by (simp add: tables_ok_def packages_ok_def im demo_unfurl_db_def empty_db_def demo_impact_def)
  have d: "due (int 1) ?db (demo_impact 0 ''npm/a@'' ''<33'')" "truthy_opt (im_affecting_vers (demo_impact 0 ''npm/a@'' ''<33''))"
    by (simp_all add: due_def im demo_impact_def demo_unfurl_db_def demo_unfurl_adv_def truthy_opt_def)
  have "map_sum id fst (impact_outcome demo_unfurl_env demo_fetch (demo_impact 0 ''npm/a@'' ''<33'')) = Inr Unfurled" by code_simp
  then obtain ps where o: "impact_outcome demo_unfurl_env demo_fetch (demo_impact 0 ''npm/a@'' ''<33'') = Inr (Unfurled, ps)"
    by (cases "impact_outcome demo_unfurl_env demo_fetch (demo_impact 0 ''npm/a@'' ''<33'')") auto
  have e: "affected_urls ?db 0 = {}" by (simp add: affected_urls_def im(1)) (simp add: demo_impact_def)
  show ?thesis
    using unfurl_run_exact [OF demo_six_law ok run, of 0] unfolding im(1,2) Let_def
    using o d e by auto
qed

lemma demo_range_urls:
  "let db = snd (unfurl_version_range demo_unfurl_env demo_fetch int (demo_unfurl_db [demo_impact 0 ''npm/a@'' ''<33'']))
   in (map package_url (t_packages db), map version_rank (t_packages db), im_affecting (t_impacts db ! 0)) =
     ([''npm/a@1'', ''npm/a@11''], [1, 2], [0, 1])"
  by code_simp

text \<open>
  A range that does not parse ends the run. Nothing is dated, so the next run takes the impacts in the
  same order, fails on the same one, and the impacts after it are never dated.
\<close>

lemma bad_range_blocks_unfurling:
  "let db = demo_unfurl_db [demo_impact 0 ''npm/a@'' ''<?'', demo_impact 1 ''npm/a@'' ''<33''];
       (e, db') = unfurl_version_range demo_unfurl_env demo_fetch int db
   in e = Some ValueError \<and> map im_unfurled_at (t_impacts db') = [None, None] \<and>
      impacted_package_qs 1000000 2 db' = [0, 1]"
  by code_simp

text \<open>The range of all versions has no comparator: it counts as unfurled, and no version is affected.\<close>

lemma all_versions_not_unfurled:
  "let (e, db') = unfurl_version_range demo_unfurl_env demo_fetch int (demo_unfurl_db [demo_impact 0 ''npm/a@'' ''vers:npm/*''])
   in e = None \<and> im_affecting (t_impacts db' ! 0) = [] \<and> im_unfurled_ok_at (t_impacts db' ! 0) \<noteq> None"
  by code_simp

end
