(* ===== verification/MarkUnfurled.thy ===== *)
theory MarkUnfurled
  imports Unfurl AdvisorySets
begin

text \<open>
  Marking advisories whose impacts have all been unfurled
  (\<open>vulnerabilities/pipelines/v2_improvers/mark_unfurl_version_range.py\<close>): a marked advisory is
  completely imported, and the packages it names get their risk score
  (\<open>compute_package_risk_score_bulk\<close> of \<open>pipes/risk_score.py\<close>) and their advisory sets again. The
  state is the tables of \<open>AdvisoryImport\<close> and those of the advisory sets; \<open>advisory_table\<close> and
  \<open>package_view\<close> are the rows that \<open>AdvisorySets\<close> works on, as the prefetched queries give them.
\<close>

section \<open>The rows as the queries give them\<close>

definition impact_view :: "'d import_db \<Rightarrow> impact_v2 \<Rightarrow> impact_row" where
  "impact_view db im = \<lparr>base_purl = im_base_purl im,
     affecting_packages = map (\<lambda>k. package_url (t_packages db ! k)) (im_affecting im),
     fixed_by_packages = map (\<lambda>k. package_url (t_packages db ! k)) (im_fixed_by im)\<rparr>"

definition advisory_view :: "'d import_db \<Rightarrow> nat \<Rightarrow> adv_row" where
  "advisory_view db i = (let r = t_advisories db ! i in
     \<lparr>adv_pk = i, advisory_id = av_advisory_id r, precedence = Some (av_precedence r),
      adv_aliases = map (\<lambda>a. \<lparr>alias_pk = a, alias_name = t_aliases db ! a\<rparr>) (av_aliases r),
      impacted_packages = map (impact_view db) (filter (\<lambda>im. im_advisory im = i) (t_impacts db)),
      avid = av_avid r, is_latest = av_is_latest r, all_impacts_unfurled = (av_unfurled_at r \<noteq> None),
      weighted_severity = av_weighted_severity r, exploitability = av_exploitability r\<rparr>)"

definition advisory_table :: "'d import_db \<Rightarrow> adv_row list" where
  "advisory_table db = map (advisory_view db) [0..<length (t_advisories db)]"

text \<open>The text without a version has the qualifiers and the subpath of the package.\<close>

definition package_view :: "purl_lib \<Rightarrow> 'd import_db \<Rightarrow> nat \<Rightarrow> AdvisorySets.package_row" where
  "package_view L db k = (let p = t_packages db ! k in
     \<lparr>pkg_pk = k, pkg_type = pkg_field ''type'' p, pkg_purl = package_url p,
      versionless_purl = (case lib_of_fields L (filter (\<lambda>(f, _). f \<noteq> ''version'') (pkg_fields p)) of
        Inl _ \<Rightarrow> [] | Inr q \<Rightarrow> lib_to_string L q)\<rparr>)"

section \<open>The advisories to mark\<close>

definition impacts_where :: "'d import_db \<Rightarrow> nat \<Rightarrow> impact_v2 list" where
  "impacts_where db i = filter (\<lambda>im. im_advisory im = i \<and> av_is_latest (t_advisories db ! im_advisory im)) (t_impacts db)"

definition latest_advisories_with_all_impacts_unfurled_attempted :: "int \<Rightarrow> 'd import_db \<Rightarrow> nat list" where
  "latest_advisories_with_all_impacts_unfurled_attempted now db =
     (let cutoff = now - 30 * day; row = (\<lambda>i. t_advisories db ! i);
          first_base_purl = (\<lambda>i. let ps = map im_base_purl (filter (\<lambda>im. im_advisory im = i) (t_impacts db))
                                 in if ps = [] then None else Some (Min (set ps)))
      in nulls_last (\<lambda>i. av_unfurled_at (row i)) (nulls_last first_base_purl
           (filter (\<lambda>i. av_unfurled_ok_at (row i) = None \<and> av_is_latest (row i) \<and>
                (case av_unfurled_at (row i) of None \<Rightarrow> True | Some t \<Rightarrow> t < cutoff) \<and>
                \<not> list_ex (\<lambda>im. im_unfurled_at im = None) (impacts_where db i))
             [0..<length (t_advisories db)])))"

definition latest_advisories_with_all_impacts_unfurled_successfully :: "'d import_db \<Rightarrow> nat list" where
  "latest_advisories_with_all_impacts_unfurled_successfully db =
     filter (\<lambda>i. av_unfurled_ok_at (t_advisories db ! i) = None \<and> av_is_latest (t_advisories db ! i) \<and>
          \<not> list_ex (\<lambda>im. im_unfurled_at im = None \<or> im_unfurled_ok_at im = None) (impacts_where db i))
       [0..<length (t_advisories db)]"

section \<open>Completing the import of advisories\<close>

text \<open>The highest known risk of the visible advisories that affect a package; without one it stays.\<close>

definition compute_package_risk_score_bulk ::
    "(rat \<Rightarrow> rat) \<Rightarrow> nat list \<Rightarrow> 'd import_db \<Rightarrow> 'd import_db" where
  "compute_package_risk_score_bulk round1 ids db =
     (let urls = map (\<lambda>k. package_url (t_packages db ! k)) ids;
          advisories = map adv_pk (latest_affecting_advisories_for_purls (advisory_table db) urls);
          risk = (\<lambda>k. max_known (map (\<lambda>i. av_risk_score (t_advisories db ! i))
             (filter (\<lambda>i. list_ex (\<lambda>im. im_advisory im = i \<and> k \<in> set (im_affecting im)) (t_impacts db)) advisories)))
      in db\<lparr>t_packages := map (\<lambda>(k, p). case (if k \<in> set ids then risk k else None) of
              None \<Rightarrow> p | Some m \<Rightarrow> p\<lparr>pkg_risk_score := Some (round1 m)\<rparr>) (enumerate 0 (t_packages db))\<rparr>)"

text \<open>
  \<open>group_advisories_for_packages_bulk_marking\<close>: two queries give the pairs of a package URL and an
  advisory for all the packages, in the order of the advisories. The first exception ends it.
\<close>

definition purl_pairs :: "(adv_row \<Rightarrow> string \<Rightarrow> bool) \<Rightarrow> adv_row list \<Rightarrow> string list \<Rightarrow> (string \<times> nat) list" where
  "purl_pairs rel tbl urls =
     concat (map (\<lambda>a. map (\<lambda>p. (p, adv_pk a)) (filter (\<lambda>p. rel a p \<and> visible a) (dedupe urls))) tbl)"

definition by_purl :: "(nat \<times> adv_row) list \<Rightarrow> (string \<times> nat) list \<Rightarrow> (string \<times> adv_row list) list result" where
  "by_purl advisory_map pairs =
     map_result (\<lambda>(p, g). map_sum id (Pair p) (map_result (\<lambda>(_, i). case map_of advisory_map i of
       None \<Rightarrow> Inl KeyError | Some a \<Rightarrow> Inr a) g)) (group_by fst pairs)"

fun group_each ::
    "(json \<Rightarrow> string) \<Rightarrow> (string \<times> adv_row list) list \<Rightarrow> (string \<times> adv_row list) list \<Rightarrow>
       AdvisorySets.package_row list \<Rightarrow> set_db \<Rightarrow> set_db result option" where
  "group_each H affecting fixed [] sets = Some (Inr sets)"
| "group_each H affecting fixed (p # ps) sets =
     (case group_single_package_with_provided_advisories H p (dict_get affecting (pkg_purl p) [])
             (dict_get fixed (pkg_purl p) []) sets of
        None \<Rightarrow> None
      | Some (_, Some e) \<Rightarrow> Some (Inl e)
      | Some (sets, None) \<Rightarrow> group_each H affecting fixed ps sets)"

definition group_advisories_for_packages_bulk_marking ::
    "(json \<Rightarrow> string) \<Rightarrow> adv_row list \<Rightarrow> AdvisorySets.package_row list \<Rightarrow> set_db \<Rightarrow> set_db result option" where
  "group_advisories_for_packages_bulk_marking H tbl ps sets =
     (let urls = map pkg_purl ps;
          affecting_pairs = purl_pairs affects tbl urls;
          fixed_pairs = purl_pairs fixes_purl tbl urls;
          all_adv_ids = map snd affecting_pairs @ map snd fixed_pairs;
          advisory_map = map (\<lambda>a. (adv_pk a, a)) (filter (\<lambda>a. adv_pk a \<in> set all_adv_ids) tbl)
      in case by_purl advisory_map affecting_pairs of Inl e \<Rightarrow> Some (Inl e)
         | Inr affecting \<Rightarrow> (case by_purl advisory_map fixed_pairs of Inl e \<Rightarrow> Some (Inl e)
           | Inr fixed \<Rightarrow> group_each H affecting fixed ps sets))"

text \<open>\<open>complete_advisories_import\<close> is one transaction.\<close>

definition date_advisories :: "int \<Rightarrow> nat list \<Rightarrow> nat list \<Rightarrow> 'd import_db \<Rightarrow> 'd import_db" where
  "date_advisories t attempted successful db =
     db\<lparr>t_advisories := map (\<lambda>(i, r). r\<lparr>
         av_unfurled_at := (if i \<in> set attempted then Some t else av_unfurled_at r),
         av_unfurled_ok_at := (if i \<in> set successful then Some t else av_unfurled_ok_at r)\<rparr>)
       (enumerate 0 (t_advisories db))\<rparr>"

definition related_packages :: "(impact_v2 \<Rightarrow> nat list) \<Rightarrow> nat list \<Rightarrow> 'd import_db \<Rightarrow> nat list" where
  "related_packages rel advisories db =
     dedupe (concat (map rel (filter (\<lambda>im. im_advisory im \<in> set advisories) (t_impacts db))))"

definition complete_advisories_import ::
    "(json \<Rightarrow> string) \<Rightarrow> ('r, 'v, 'd) import_env \<Rightarrow> int \<Rightarrow> nat list \<Rightarrow> nat list \<Rightarrow> 'd import_db \<Rightarrow> set_db \<Rightarrow>
       ('d import_db \<times> set_db) result option" where
  "complete_advisories_import H E cur advisories successful db sets =
     (if advisories = [] then Some (Inr (db, sets))
      else (let db = date_advisories cur advisories successful db;
                affecting = related_packages im_affecting advisories db;
                fixed_by = related_packages im_fixed_by advisories db;
                db = compute_package_risk_score_bulk (env_round1 E) affecting db;
                packages = filter (\<lambda>p. pkg_type p \<in> set TYPES_WITH_MULTIPLE_IMPORTERS)
                  (map (package_view (purls (env_ext E)) db)
                    (filter (\<lambda>k. k \<in> set affecting \<or> k \<in> set fixed_by) [0..<length (t_packages db)]))
            in case group_advisories_for_packages_bulk_marking H (advisory_table db) packages sets of
                 None \<Rightarrow> None | Some (Inl e) \<Rightarrow> Some (Inl e) | Some (Inr sets) \<Rightarrow> Some (Inr (db, sets))))"

section \<open>The step\<close>

definition complete_batch ::
    "(json \<Rightarrow> string) \<Rightarrow> ('r, 'v, 'd) import_env \<Rightarrow> int \<Rightarrow> nat list \<Rightarrow> 'd import_db \<Rightarrow> set_db \<Rightarrow>
       ('d import_db \<times> set_db) result option" where
  "complete_batch H E cur batch db sets =
     complete_advisories_import H E cur batch
       (filter (\<lambda>i. i \<in> set batch) (latest_advisories_with_all_impacts_unfurled_successfully db)) db sets"

text \<open>Batches of 1000; \<open>clk n\<close> is the time of the \<open>n\<close>-th one. A batch that fails leaves the ones before it.\<close>

fun mark_loop ::
    "(json \<Rightarrow> string) \<Rightarrow> ('r, 'v, 'd) import_env \<Rightarrow> (nat \<Rightarrow> int) \<Rightarrow> nat \<Rightarrow> nat list \<Rightarrow> nat list \<Rightarrow> 'd import_db \<Rightarrow> set_db \<Rightarrow>
       (py_error option \<times> 'd import_db \<times> set_db) option" where
  "mark_loop H E clk n [] batch db sets =
     (if batch = [] then Some (None, db, sets)
      else (case complete_batch H E (clk n) batch db sets of None \<Rightarrow> None
        | Some (Inl e) \<Rightarrow> Some (Some e, db, sets) | Some (Inr (db, sets)) \<Rightarrow> Some (None, db, sets)))"
| "mark_loop H E clk n (i # is) batch db sets =
     (if 1000 \<le> length (batch @ [i])
      then (case complete_batch H E (clk n) (batch @ [i]) db sets of None \<Rightarrow> None
        | Some (Inl e) \<Rightarrow> Some (Some e, db, sets)
        | Some (Inr (db, sets)) \<Rightarrow> mark_loop H E clk (Suc n) is [] db sets)
      else mark_loop H E clk n is (batch @ [i]) db sets)"

definition mark_all_impacts_unfurled ::
    "(json \<Rightarrow> string) \<Rightarrow> ('r, 'v, 'd) import_env \<Rightarrow> (nat \<Rightarrow> int) \<Rightarrow> 'd import_db \<Rightarrow> set_db \<Rightarrow>
       (py_error option \<times> 'd import_db \<times> set_db) option" where
  "mark_all_impacts_unfurled H E clk db sets =
     mark_loop H E clk 1 (latest_advisories_with_all_impacts_unfurled_attempted (clk 0) db) [] db sets"

text \<open>The pipeline \<open>group_advisories_for_packages\<close> groups every package of these types.\<close>

definition group_advisories_for_packages ::
    "(json \<Rightarrow> string) \<Rightarrow> purl_lib \<Rightarrow> 'd import_db \<Rightarrow> set_db \<Rightarrow> set_db option" where
  "group_advisories_for_packages H L db sets =
     fold (\<lambda>k s. Option.bind s (group_advisory_for_package H (advisory_table db) (package_view L db k)))
       (filter (\<lambda>k. pkg_field ''type'' (t_packages db ! k) \<in> set TYPES_WITH_MULTIPLE_IMPORTERS) [0..<length (t_packages db)])
       (Some sets)"

section \<open>The bulk grouping is the grouping of each package\<close>

lemma purl_pairs_filter:
  "p \<in> set urls \<Longrightarrow> filter (\<lambda>x. fst x = p) (purl_pairs rel tbl urls) =
     map (\<lambda>a. (p, adv_pk a)) (filter (\<lambda>a. rel a p \<and> visible a) tbl)"
proof -
  assume p: "p \<in> set urls"
  have one: "filter (\<lambda>x. x = p) (filter P (dedupe urls)) = (if P p then [p] else [])" for P
  proof -
    have "filter (\<lambda>x. x = p) xs = (if p \<in> set xs then [p] else [])" if "distinct xs" for xs
      using that by (induction xs) auto
    from this [of "filter P (dedupe urls)"] p show ?thesis by (simp del: filter_filter)
  qed
  have "filter (\<lambda>x. fst x = p) (map (\<lambda>p. (p, adv_pk a)) (filter (\<lambda>p. rel a p \<and> visible a) (dedupe urls))) =
      (if rel a p \<and> visible a then [(p, adv_pk a)] else [])" for a
    using one [of "\<lambda>p. rel a p \<and> visible a"] by (simp add: filter_map comp_def)
  then show ?thesis unfolding purl_pairs_def filter_concat map_map comp_def by (induction tbl) auto
qed

lemma purl_pairs_mem:
  "(p, i) \<in> set (purl_pairs rel tbl urls) \<longleftrightarrow> p \<in> set urls \<and> (\<exists>a\<in>set tbl. i = adv_pk a \<and> rel a p \<and> visible a)"
  by (auto simp: purl_pairs_def)

text \<open>The two lists are those of the queries for a single package.\<close>

lemma by_purl_ok:
  assumes "distinct (map adv_pk tbl)" "set (map snd (purl_pairs rel tbl urls)) \<subseteq> ids"
  shows "\<exists>d. by_purl (map (\<lambda>a. (adv_pk a, a)) (filter (\<lambda>a. adv_pk a \<in> ids) tbl)) (purl_pairs rel tbl urls) = Inr d \<and>
    (\<forall>p\<in>set urls. dict_get d p [] = filter (\<lambda>a. rel a p \<and> visible a) tbl)"
proof -
  let ?m = "map (\<lambda>a. (adv_pk a, a)) (filter (\<lambda>a. adv_pk a \<in> ids) tbl)"
  let ?pairs = "purl_pairs rel tbl urls" and ?sel = "\<lambda>p. filter (\<lambda>a. rel a p \<and> visible a) tbl"
  have dm: "distinct (map fst ?m)" using assms(1) by (simp add: comp_def distinct_map_filter)
  have look: "map_of ?m (adv_pk a) = Some a" if "a \<in> set tbl" "adv_pk a \<in> ids" for a
    using that dm by (auto simp: map_of_eq_Some_iff)
  have row: "map_sum id (Pair p) (map_result (\<lambda>(_, i). case map_of ?m i of None \<Rightarrow> Inl KeyError | Some a \<Rightarrow> Inr a) g) = Inr (p, ?sel p)"
    if "(p, g) \<in> set (group_by fst ?pairs)" for p g
  proof -
    have p: "p \<in> fst ` set ?pairs" and g: "g = filter (\<lambda>x. fst x = p) ?pairs" using that by (simp_all add: group_by_mem)
    then have pu: "p \<in> set urls" by (auto simp: purl_pairs_mem)
    have ids: "adv_pk a \<in> ids" if "a \<in> set (?sel p)" for a
    proof -
      have "(p, adv_pk a) \<in> set ?pairs" using that pu by (auto simp: purl_pairs_mem)
      then show ?thesis using assms(2) by force
    qed
    have "map_result (\<lambda>(_, i). case map_of ?m i of None \<Rightarrow> Inl KeyError | Some a \<Rightarrow> Inr a) g = Inr (?sel p)"
      unfolding g purl_pairs_filter [OF pu] map_result_Inr_iff list.rel_map
      by (rule list.rel_refl_strong) (use look ids in auto)
    then show ?thesis by simp
  qed
  have "map_result (\<lambda>(p, g). map_sum id (Pair p) (map_result (\<lambda>(_, i). case map_of ?m i of None \<Rightarrow> Inl KeyError | Some a \<Rightarrow> Inr a) g))
      (group_by fst ?pairs) = Inr (map (\<lambda>(p, _). (p, ?sel p)) (group_by fst ?pairs))"
    unfolding map_result_Inr_iff list.rel_map by (rule list.rel_refl_strong) (use row in \<open>auto simp del: map_result_Inr_iff\<close>)
  moreover have "dict_get (map (\<lambda>(p, _). (p, ?sel p)) (group_by fst ?pairs)) p [] = ?sel p" if p: "p \<in> set urls" for p
  proof (cases "p \<in> fst ` set ?pairs")
    case True
    then have "(p, ?sel p) \<in> set (map (\<lambda>(p, _). (p, ?sel p)) (group_by fst ?pairs))" by (force simp: group_by_mem)
    then show ?thesis by (simp add: dict_get_def map_of_eq_Some_iff comp_def case_prod_unfold)
  next
    case False
    then have "(p, i) \<notin> set ?pairs" for i by force
    then have "?sel p = []" using p by (auto simp: filter_empty_conv purl_pairs_mem)
    moreover have "p \<notin> fst ` set (map (\<lambda>(p, _). (p, ?sel p)) (group_by fst ?pairs))"
      using False by (auto simp: group_by_mem)
    ultimately show ?thesis by (simp add: dict_get_def map_of_eq_None_iff [THEN iffD2])
  qed
  ultimately show ?thesis by (auto simp: by_purl_def)
qed


definition current :: "(json \<Rightarrow> string) \<Rightarrow> adv_row list \<Rightarrow> AdvisorySets.package_row \<Rightarrow> set_db \<Rightarrow> bool" where
  "current H tbl p sets \<longleftrightarrow>
     (\<exists>ags fgs. merge_advisories H (latest_affecting_advisories_for_purl tbl (pkg_purl p)) p = Some ags \<and>
        merge_advisories H (latest_fixed_by_advisories_for_purl tbl (pkg_purl p)) p = Some fgs \<and>
        stored sets (pkg_pk p) ''affecting'' = group_view ` set ags \<and> stored sets (pkg_pk p) ''fixing'' = group_view ` set fgs)"

lemma group_each_ok:
  assumes "distinct (map adv_pk tbl)" "distinct (map pkg_pk ps)" "set_db_wf sets"
    "\<And>p. p \<in> set ps \<Longrightarrow> dict_get affecting (pkg_purl p) [] = latest_affecting_advisories_for_purl tbl (pkg_purl p) \<and>
       dict_get fixed (pkg_purl p) [] = latest_fixed_by_advisories_for_purl tbl (pkg_purl p)"
  shows "\<exists>sets'. group_each H affecting fixed ps sets = Some (Inr sets') \<and> set_db_wf sets' \<and>
    (\<forall>p\<in>set ps. current H tbl p sets') \<and> (\<forall>q t. q \<notin> pkg_pk ` set ps \<longrightarrow> stored sets' q t = stored sets q t)"
  using assms(2-4)
proof (induction ps arbitrary: sets)
  case (Cons p ps)
  let ?aff = "latest_affecting_advisories_for_purl tbl (pkg_purl p)"
  let ?fix = "latest_fixed_by_advisories_for_purl tbl (pkg_purl p)"
  have d: "distinct (map adv_pk ?aff)" "distinct (map adv_pk ?fix)"
    using assms(1) by (simp_all add: latest_affecting_advisories_for_purl_def
        latest_fixed_by_advisories_for_purl_def distinct_map_filter)
  obtain ags fgs sets1 where g: "merge_advisories H ?aff p = Some ags" "merge_advisories H ?fix p = Some fgs"
      "group_single_package_with_provided_advisories H p ?aff ?fix sets = Some (sets1, None)" "set_db_wf sets1"
      "\<forall>q t. stored sets1 q t = (if q = pkg_pk p \<and> t = ''affecting'' then group_view ` set ags
         else if q = pkg_pk p \<and> t = ''fixing'' then group_view ` set fgs else stored sets q t)"
    using group_single_ok [OF d Cons.prems(2), of H p] by blast
  have "\<exists>sets'. group_each H affecting fixed ps sets1 = Some (Inr sets') \<and> set_db_wf sets' \<and>
    (\<forall>p\<in>set ps. current H tbl p sets') \<and> (\<forall>q t. q \<notin> pkg_pk ` set ps \<longrightarrow> stored sets' q t = stored sets1 q t)"
    using Cons.prems g(4) by (intro Cons.IH) auto
  then obtain sets' where s: "group_each H affecting fixed ps sets1 = Some (Inr sets')" "set_db_wf sets'"
      "\<forall>p\<in>set ps. current H tbl p sets'" "\<forall>q t. q \<notin> pkg_pk ` set ps \<longrightarrow> stored sets' q t = stored sets1 q t" by blast
  have "pkg_pk p \<notin> pkg_pk ` set ps" using Cons.prems(1) by auto
  then have "current H tbl p sets'" using s(4) g(1,2,5) by (simp add: current_def)
  moreover have "group_each H affecting fixed (p # ps) sets = Some (Inr sets')"
    using Cons.prems(3) [of p] g(3) s(1) by simp
  ultimately show ?case using s(2-4) g(5) by (intro exI [of _ sets'] conjI) auto
qed simp

lemma bulk_marking_ok:
  assumes "distinct (map adv_pk tbl)" "distinct (map pkg_pk ps)" "set_db_wf sets"
  shows "\<exists>sets'. group_advisories_for_packages_bulk_marking H tbl ps sets = Some (Inr sets') \<and> set_db_wf sets' \<and>
    (\<forall>p\<in>set ps. current H tbl p sets') \<and> (\<forall>q t. q \<notin> pkg_pk ` set ps \<longrightarrow> stored sets' q t = stored sets q t)"
proof -
  let ?urls = "map pkg_purl ps"
  let ?ids = "set (map snd (purl_pairs affects tbl ?urls) @ map snd (purl_pairs fixes_purl tbl ?urls))"
  have "set (map snd (purl_pairs affects tbl ?urls)) \<subseteq> ?ids" "set (map snd (purl_pairs fixes_purl tbl ?urls)) \<subseteq> ?ids" by auto
  from by_purl_ok [OF assms(1) this(1)] by_purl_ok [OF assms(1) this(2)] obtain da df where
    d: "by_purl (map (\<lambda>a. (adv_pk a, a)) (filter (\<lambda>a. adv_pk a \<in> ?ids) tbl)) (purl_pairs affects tbl ?urls) = Inr da"
      "by_purl (map (\<lambda>a. (adv_pk a, a)) (filter (\<lambda>a. adv_pk a \<in> ?ids) tbl)) (purl_pairs fixes_purl tbl ?urls) = Inr df"
      "\<forall>p\<in>set ?urls. dict_get da p [] = filter (\<lambda>a. affects a p \<and> visible a) tbl"
      "\<forall>p\<in>set ?urls. dict_get df p [] = filter (\<lambda>a. fixes_purl a p \<and> visible a) tbl" by blast
  have "group_advisories_for_packages_bulk_marking H tbl ps sets = group_each H da df ps sets"
    unfolding group_advisories_for_packages_bulk_marking_def Let_def d(1,2) by simp
  then show ?thesis
    using group_each_ok [OF assms, of da df H] d(3,4)
    by (simp add: latest_affecting_advisories_for_purl_def latest_fixed_by_advisories_for_purl_def)
qed

section \<open>One batch\<close>

definition refs_ok :: "'d import_db \<Rightarrow> bool" where
  "refs_ok db \<longleftrightarrow> distinct (map package_url (t_packages db)) \<and>
     list_all (\<lambda>im. list_all (\<lambda>k. k < length (t_packages db)) (im_affecting im @ im_fixed_by im)) (t_impacts db)"

definition touched :: "nat list \<Rightarrow> 'd import_db \<Rightarrow> nat \<Rightarrow> bool" where
  "touched advisories db k \<longleftrightarrow>
     list_ex (\<lambda>im. im_advisory im \<in> set advisories \<and> (k \<in> set (im_affecting im) \<or> k \<in> set (im_fixed_by im))) (t_impacts db)"

definition multi :: "'d import_db \<Rightarrow> nat \<Rightarrow> bool" where
  "multi db k \<longleftrightarrow> k < length (t_packages db) \<and> pkg_field ''type'' (t_packages db ! k) \<in> set TYPES_WITH_MULTIPLE_IMPORTERS"

text \<open>What a batch changes: the dates of its advisories and the risk of packages.\<close>

definition dated_row :: "int \<Rightarrow> bool \<Rightarrow> bool \<Rightarrow> 'd advisory_v2 \<Rightarrow> 'd advisory_v2" where
  "dated_row t attempted successful r = r\<lparr>av_unfurled_at := (if attempted then Some t else av_unfurled_at r),
     av_unfurled_ok_at := (if successful then Some t else av_unfurled_ok_at r)\<rparr>"

definition but_risk :: "Packages.package_row \<Rightarrow> Packages.package_row" where
  "but_risk p = p\<lparr>pkg_risk_score := None\<rparr>"

lemma but_risk_simps:
  "but_risk p = but_risk q \<Longrightarrow> package_url p = package_url q \<and> pkg_fields p = pkg_fields q"
  by (cases p, cases q) (simp add: but_risk_def)

lemma risk_bulk_keeps:
  "t_advisories (compute_package_risk_score_bulk r ids db) = t_advisories db"
  "t_impacts (compute_package_risk_score_bulk r ids db) = t_impacts db"
  "t_aliases (compute_package_risk_score_bulk r ids db) = t_aliases db"
  "map but_risk (t_packages (compute_package_risk_score_bulk r ids db)) = map but_risk (t_packages db)"
  by (simp_all add: compute_package_risk_score_bulk_def Let_def)
    (auto simp: but_risk_def nth_enumerate_eq intro!: nth_equalityI split: option.split)

lemma date_advisories_simps [simp]:
  "t_impacts (date_advisories t A S db) = t_impacts db" "t_packages (date_advisories t A S db) = t_packages db"
  "t_aliases (date_advisories t A S db) = t_aliases db" "length (t_advisories (date_advisories t A S db)) = length (t_advisories db)"
  by (simp_all add: date_advisories_def)

lemma date_advisories_nth:
  "i < length (t_advisories db) \<Longrightarrow>
   t_advisories (date_advisories t A S db) ! i = dated_row t (i \<in> set A) (i \<in> set S) (t_advisories db ! i)"
  by (simp add: date_advisories_def nth_enumerate_eq dated_row_def)

text \<open>The views of two states that differ in such a way, for the advisories \<open>A\<close>.\<close>

definition marked :: "'d import_db \<Rightarrow> 'd import_db \<Rightarrow> nat list \<Rightarrow> bool" where
  "marked db db' A \<longleftrightarrow> refs_ok db \<and> t_impacts db' = t_impacts db \<and> t_aliases db' = t_aliases db \<and>
     map but_risk (t_packages db') = map but_risk (t_packages db) \<and> length (t_advisories db') = length (t_advisories db) \<and>
     (\<forall>i<length (t_advisories db). \<exists>t S. t_advisories db' ! i = dated_row t (i \<in> set A) S (t_advisories db ! i))"

lemma marked_impacts: "marked db db' A \<Longrightarrow> t_impacts db' = t_impacts db" by (simp add: marked_def)

lemma marked_length:
  assumes "marked db db' A"
  shows "length (t_packages db') = length (t_packages db)" "length (t_advisories db') = length (t_advisories db)"
  using assms by (simp_all add: marked_def) (metis length_map)

lemma marked_package:
  assumes "marked db db' A" "k < length (t_packages db)"
  shows "package_url (t_packages db' ! k) = package_url (t_packages db ! k) \<and> pkg_fields (t_packages db' ! k) = pkg_fields (t_packages db ! k)"
proof -
  have "map but_risk (t_packages db') = map but_risk (t_packages db)" using assms(1) by (simp add: marked_def)
  then have "but_risk (t_packages db' ! k) = but_risk (t_packages db ! k)"
    using assms(2) marked_length [OF assms(1)] by (metis nth_map)
  then show ?thesis by (rule but_risk_simps)
qed

lemma marked_refs:
  assumes "marked db db' A"
  shows "refs_ok db'"
proof -
  have "map package_url (t_packages db') = map package_url (t_packages db)"
    by (rule nth_equalityI) (simp_all add: marked_length [OF assms] marked_package [OF assms])
  then show ?thesis using assms marked_length [OF assms] by (simp add: marked_def refs_ok_def)
qed

lemma refs_in_range:
  "refs_ok db \<Longrightarrow> im \<in> set (t_impacts db) \<Longrightarrow> k \<in> set (im_affecting im) \<or> k \<in> set (im_fixed_by im) \<Longrightarrow> k < length (t_packages db)"
  by (auto simp: refs_ok_def list_all_iff)

lemma marked_view:
  assumes "marked db db' A" "i < length (t_advisories db)"
  shows "advisory_view db' i = (advisory_view db i)\<lparr>all_impacts_unfurled := (i \<in> set A \<or> av_unfurled_at (t_advisories db ! i) \<noteq> None)\<rparr>"
proof -
  have ok: "refs_ok db" using assms(1) by (simp add: marked_def)
  obtain t S where r: "t_advisories db' ! i = dated_row t (i \<in> set A) S (t_advisories db ! i)"
    using assms by (auto simp: marked_def)
  have "impact_view db' im = impact_view db im" if "im \<in> set (t_impacts db)" for im
    using refs_in_range [OF ok that] by (auto simp: impact_view_def marked_package [OF assms(1)])
  then have "map (impact_view db') (filter (\<lambda>im. im_advisory im = i) (t_impacts db)) =
      map (impact_view db) (filter (\<lambda>im. im_advisory im = i) (t_impacts db))"
    by (intro map_cong) auto
  then show ?thesis using assms(1) by (simp add: marked_def advisory_view_def Let_def r dated_row_def)
qed

lemma marked_package_view:
  "marked db db' A \<Longrightarrow> k < length (t_packages db) \<Longrightarrow> package_view L db' k = package_view L db k"
  by (simp add: package_view_def Let_def marked_package)

lemma view_relates:
  assumes "refs_ok db" "k < length (t_packages db)"
  shows "affects (advisory_view db i) (package_url (t_packages db ! k)) \<longleftrightarrow>
      (\<exists>im\<in>set (t_impacts db). im_advisory im = i \<and> k \<in> set (im_affecting im))"
    "fixes_purl (advisory_view db i) (package_url (t_packages db ! k)) \<longleftrightarrow>
      (\<exists>im\<in>set (t_impacts db). im_advisory im = i \<and> k \<in> set (im_fixed_by im))"
proof -
  have inj: "package_url (t_packages db ! k) = package_url (t_packages db ! j) \<longleftrightarrow> j = k" if "j < length (t_packages db)" for j
    using nth_eq_iff_index_eq [of "map package_url (t_packages db)" k j] assms that by (auto simp: refs_ok_def)
  have url: "package_url (t_packages db ! k) \<in> (\<lambda>k. package_url (t_packages db ! k)) ` set ks \<longleftrightarrow> k \<in> set ks"
    if "\<And>j. j \<in> set ks \<Longrightarrow> j < length (t_packages db)" for ks
  proof -
    have "package_url (t_packages db ! k) \<in> (\<lambda>k. package_url (t_packages db ! k)) ` set ks \<longleftrightarrow>
        (\<exists>j\<in>set ks. package_url (t_packages db ! k) = package_url (t_packages db ! j))" by blast
    also have "\<dots> \<longleftrightarrow> (\<exists>j\<in>set ks. j = k)" using that inj by simp
    finally show ?thesis by simp
  qed
  have "package_url (t_packages db ! k) \<in> set (affecting_packages (impact_view db im)) \<longleftrightarrow> k \<in> set (im_affecting im)"
      "package_url (t_packages db ! k) \<in> set (fixed_by_packages (impact_view db im)) \<longleftrightarrow> k \<in> set (im_fixed_by im)"
    if "im \<in> set (t_impacts db)" for im
    using url [of "im_affecting im"] url [of "im_fixed_by im"] refs_in_range [OF assms(1) that] by (simp_all add: impact_view_def)
  then show "affects (advisory_view db i) (package_url (t_packages db ! k)) \<longleftrightarrow>
      (\<exists>im\<in>set (t_impacts db). im_advisory im = i \<and> k \<in> set (im_affecting im))"
    "fixes_purl (advisory_view db i) (package_url (t_packages db ! k)) \<longleftrightarrow>
      (\<exists>im\<in>set (t_impacts db). im_advisory im = i \<and> k \<in> set (im_fixed_by im))"
    by (auto simp: affects_def fixes_purl_def advisory_view_def Let_def)
qed

lemma filter_views:
  "(\<And>x. x \<in> set xs \<Longrightarrow> Q (f x) \<longleftrightarrow> Q (g x)) \<Longrightarrow> (\<And>x. x \<in> set xs \<Longrightarrow> Q (g x) \<Longrightarrow> f x = g x) \<Longrightarrow>
   filter Q (map f xs) = filter Q (map g xs)"
  by (induction xs) auto

lemma untouched_latest:
  assumes "marked db db' A" "k < length (t_packages db)" "\<not> touched A db k"
  shows "latest_affecting_advisories_for_purl (advisory_table db') (package_url (t_packages db ! k)) =
      latest_affecting_advisories_for_purl (advisory_table db) (package_url (t_packages db ! k))"
    "latest_fixed_by_advisories_for_purl (advisory_table db') (package_url (t_packages db ! k)) =
      latest_fixed_by_advisories_for_purl (advisory_table db) (package_url (t_packages db ! k))"
proof -
  let ?u = "package_url (t_packages db ! k)"
  have ok: "refs_ok db" using assms(1) by (simp add: marked_def)
  have same: "advisory_view db' i = advisory_view db i"
    if "i < length (t_advisories db)" "affects (advisory_view db i) ?u \<or> fixes_purl (advisory_view db i) ?u" for i
  proof -
    have "i \<notin> set A" using that view_relates [OF ok assms(2)] assms(3) by (auto simp: touched_def list_ex_iff)
    with marked_view [OF assms(1) that(1)] show ?thesis by (simp add: advisory_view_def Let_def)
  qed
  have rel: "affects (advisory_view db' i) ?u \<longleftrightarrow> affects (advisory_view db i) ?u"
      "fixes_purl (advisory_view db' i) ?u \<longleftrightarrow> fixes_purl (advisory_view db i) ?u" if "i < length (t_advisories db)" for i
    by (simp_all add: marked_view [OF assms(1) that] affects_def fixes_purl_def)
  show "latest_affecting_advisories_for_purl (advisory_table db') ?u = latest_affecting_advisories_for_purl (advisory_table db) ?u"
    unfolding latest_affecting_advisories_for_purl_def advisory_table_def marked_length(2) [OF assms(1)]
    by (rule filter_views) (use rel same in auto)
  show "latest_fixed_by_advisories_for_purl (advisory_table db') ?u = latest_fixed_by_advisories_for_purl (advisory_table db) ?u"
    unfolding latest_fixed_by_advisories_for_purl_def advisory_table_def marked_length(2) [OF assms(1)]
    by (rule filter_views) (use rel same in auto)
qed

lemma untouched_current:
  assumes "marked db db' A" "k < length (t_packages db)" "\<not> touched A db k"
    "current H (advisory_table db) (package_view L db k) sets" "\<And>t. stored sets' k t = stored sets k t"
  shows "current H (advisory_table db') (package_view L db' k) sets'"
proof -
  have v: "pkg_purl (package_view L db k) = package_url (t_packages db ! k)" "pkg_pk (package_view L db k) = k"
    by (simp_all add: package_view_def Let_def)
  show ?thesis
    using assms(4,5) unfolding current_def marked_package_view [OF assms(1,2)] v untouched_latest [OF assms(1-3)] by simp
qed

lemma advisory_table_pks: "distinct (map adv_pk (advisory_table db))"
  by (simp add: advisory_table_def comp_def advisory_view_def Let_def)

lemma related_packages_mem:
  "k \<in> set (related_packages rel A db) \<longleftrightarrow> (\<exists>im\<in>set (t_impacts db). im_advisory im \<in> set A \<and> k \<in> set (rel im))"
  by (auto simp: related_packages_def)

lemma complete_import_ok:
  assumes "refs_ok db" "set_db_wf sets" "set S \<subseteq> set A"
  shows "\<exists>db' sets'. complete_advisories_import H E cur A S db sets = Some (Inr (db', sets')) \<and>
    marked db db' A \<and> set_db_wf sets' \<and>
    (\<forall>i<length (t_advisories db). t_advisories db' ! i = dated_row cur (i \<in> set A) (i \<in> set S) (t_advisories db ! i)) \<and>
    (\<forall>k. multi db k \<longrightarrow> touched A db k \<or> current H (advisory_table db) (package_view (purls (env_ext E)) db k) sets \<longrightarrow>
       current H (advisory_table db') (package_view (purls (env_ext E)) db' k) sets')"
proof (cases "A = []")
  case True
  with assms have "marked db db A" by (auto simp: marked_def dated_row_def intro!: exI [of _ False])
  with True assms show ?thesis by (simp add: complete_advisories_import_def touched_def dated_row_def list_ex_iff)
next
  case False
  let ?L = "purls (env_ext E)" and ?db1 = "date_advisories cur A S db"
  let ?aff = "related_packages im_affecting A ?db1" and ?fix = "related_packages im_fixed_by A ?db1"
  let ?db = "compute_package_risk_score_bulk (env_round1 E) ?aff ?db1"
  let ?ks = "filter (\<lambda>k. k \<in> set ?aff \<or> k \<in> set ?fix) [0..<length (t_packages ?db)]"
  let ?ps = "filter (\<lambda>p. pkg_type p \<in> set TYPES_WITH_MULTIPLE_IMPORTERS) (map (package_view ?L ?db) ?ks)"
  note keeps = risk_bulk_keeps [of "env_round1 E" ?aff ?db1]
  have dates: "t_advisories ?db ! i = dated_row cur (i \<in> set A) (i \<in> set S) (t_advisories db ! i)" if "i < length (t_advisories db)" for i
    using that by (simp add: keeps date_advisories_nth)
  have ms: "marked db ?db A" using keeps dates assms(1) by (auto simp: marked_def)
  have pk: "pkg_pk (package_view ?L ?db k) = k" "pkg_type (package_view ?L ?db k) = pkg_field ''type'' (t_packages ?db ! k)" for k
    by (simp_all add: package_view_def Let_def)
  have "distinct (map pkg_pk (map (package_view ?L ?db) ?ks))" by (simp add: comp_def pk)
  then have d: "distinct (map pkg_pk ?ps)" by (rule distinct_map_filter)
  from bulk_marking_ok [OF advisory_table_pks d assms(2), of H ?db] obtain sets' where
    s: "group_advisories_for_packages_bulk_marking H (advisory_table ?db) ?ps sets = Some (Inr sets')" "set_db_wf sets'"
      "\<forall>p\<in>set ?ps. current H (advisory_table ?db) p sets'" "\<forall>q t. q \<notin> pkg_pk ` set ?ps \<longrightarrow> stored sets' q t = stored sets q t" by blast
  have run: "complete_advisories_import H E cur A S db sets = Some (Inr (?db, sets'))"
    using False s(1) by (simp add: complete_advisories_import_def Let_def)
  have in_ps: "package_view ?L ?db k \<in> set ?ps \<and> k \<in> pkg_pk ` set ?ps" if "multi db k" "touched A db k" for k
  proof -
    have "k < length (t_packages ?db)" "pkg_fields (t_packages ?db ! k) = pkg_fields (t_packages db ! k)"
      using that(1) marked_package [OF ms, of k] marked_length [OF ms] by (simp_all add: multi_def)
    then have "package_view ?L ?db k \<in> set ?ps"
      using that by (auto simp: multi_def touched_def list_ex_iff related_packages_mem pk)
    moreover have "k = pkg_pk (package_view ?L ?db k)" by (simp add: pk)
    ultimately show ?thesis by blast
  qed
  have not_ps: "k \<notin> pkg_pk ` set ?ps" if "\<not> touched A db k" for k
    using that by (auto simp: pk related_packages_mem touched_def list_ex_iff)
  have "current H (advisory_table ?db) (package_view ?L ?db k) sets'"
    if "multi db k" "touched A db k \<or> current H (advisory_table db) (package_view ?L db k) sets" for k
  proof (cases "touched A db k")
    case True
    with in_ps that s(3) show ?thesis by blast
  next
    case False
    then have "\<And>t. stored sets' k t = stored sets k t" using s(4) not_ps by blast
    with False that show ?thesis
      using untouched_current [OF ms, of k H ?L sets sets'] by (simp add: multi_def)
  qed
  with run ms s(2) dates show ?thesis by blast
qed

section \<open>All batches\<close>

abbreviation successful :: "'d import_db \<Rightarrow> nat list" where
  "successful db \<equiv> latest_advisories_with_all_impacts_unfurled_successfully db"

definition mark_result ::
    "(json \<Rightarrow> string) \<Rightarrow> purl_lib \<Rightarrow> (nat \<Rightarrow> int) \<Rightarrow> nat list \<Rightarrow> 'd import_db \<Rightarrow> set_db \<Rightarrow> 'd import_db \<Rightarrow> set_db \<Rightarrow> bool" where
  "mark_result H L clk A db sets db' sets' \<longleftrightarrow> marked db db' A \<and> set_db_wf sets' \<and>
     (\<forall>i<length (t_advisories db). \<exists>m. t_advisories db' ! i =
        dated_row (clk m) (i \<in> set A) (i \<in> set A \<and> i \<in> set (successful db)) (t_advisories db ! i)) \<and>
     (\<forall>k. multi db k \<longrightarrow> touched A db k \<or> current H (advisory_table db) (package_view L db k) sets \<longrightarrow>
        current H (advisory_table db') (package_view L db' k) sets')"

lemma impacts_where_eq: "impacts_where db i = (if av_is_latest (t_advisories db ! i) then filter (\<lambda>im. im_advisory im = i) (t_impacts db) else [])"
  by (auto simp: impacts_where_def intro: filter_cong)

lemma successful_mem:
  "i \<in> set (successful db) \<longleftrightarrow> i < length (t_advisories db) \<and> av_unfurled_ok_at (t_advisories db ! i) = None \<and>
     av_is_latest (t_advisories db ! i) \<and>
     (\<forall>im\<in>set (t_impacts db). im_advisory im = i \<longrightarrow> im_unfurled_at im \<noteq> None \<and> im_unfurled_ok_at im \<noteq> None)"
  by (auto simp: latest_advisories_with_all_impacts_unfurled_successfully_def impacts_where_eq list_ex_iff)

lemma dated_row_none [simp]: "dated_row t False False r = r"
  by (simp add: dated_row_def)

lemma mark_result_refl: "refs_ok db \<Longrightarrow> set_db_wf sets \<Longrightarrow> mark_result H L clk [] db sets db sets"
  by (auto simp: mark_result_def marked_def touched_def list_ex_iff intro!: exI [of _ False])

lemma multi_marked: "marked db db' A \<Longrightarrow> multi db' k \<longleftrightarrow> multi db k"
  using marked_length(1) [of db db' A] marked_package [of db db' A k] by (auto simp: multi_def)

lemma touched_marked: "marked db db' A \<Longrightarrow> touched B db' k \<longleftrightarrow> touched B db k"
  by (simp add: touched_def marked_impacts)

lemma touched_append: "touched (A @ B) db k \<longleftrightarrow> touched A db k \<or> touched B db k"
  by (auto simp: touched_def list_ex_iff)

lemma mark_result_trans:
  assumes "mark_result H L clk A db sets db1 sets1" "mark_result H L clk B db1 sets1 db2 sets2" "set A \<inter> set B = {}"
  shows "mark_result H L clk (A @ B) db sets db2 sets2"
proof -
  note m1 = assms(1) [unfolded mark_result_def] and m2 = assms(2) [unfolded mark_result_def]
  have len: "length (t_advisories db1) = length (t_advisories db)" "length (t_packages db1) = length (t_packages db)"
    using marked_length m1 by blast+
  have row: "\<exists>m. t_advisories db2 ! i = dated_row (clk m) (i \<in> set (A @ B)) (i \<in> set (A @ B) \<and> i \<in> set (successful db)) (t_advisories db ! i)"
    if i: "i < length (t_advisories db)" for i
  proof -
    from m1 i obtain m where r1: "t_advisories db1 ! i =
        dated_row (clk m) (i \<in> set A) (i \<in> set A \<and> i \<in> set (successful db)) (t_advisories db ! i)" by blast
    from m2 i len obtain n where r2: "t_advisories db2 ! i =
        dated_row (clk n) (i \<in> set B) (i \<in> set B \<and> i \<in> set (successful db1)) (t_advisories db1 ! i)" by force
    show ?thesis
    proof (cases "i \<in> set A")
      case True
      with assms(3) have "i \<notin> set B" by blast
      with r1 r2 True show ?thesis by auto
    next
      case False
      then have "t_advisories db1 ! i = t_advisories db ! i" using r1 by simp
      moreover from this have "i \<in> set (successful db1) \<longleftrightarrow> i \<in> set (successful db)"
        unfolding successful_mem using marked_impacts [of db db1 A] m1 len by simp
      ultimately show ?thesis using r2 False by auto
    qed
  qed
  have "\<exists>t S. t_advisories db2 ! i = dated_row t (i \<in> set (A @ B)) S (t_advisories db ! i)" if "i < length (t_advisories db)" for i
    using row [OF that] by blast
  moreover have "t_impacts db2 = t_impacts db" "t_aliases db2 = t_aliases db"
    "map but_risk (t_packages db2) = map but_risk (t_packages db)" "length (t_advisories db2) = length (t_advisories db)" "refs_ok db"
    using m1 m2 by (simp_all add: marked_def)
  ultimately have "marked db db2 (A @ B)" by (simp add: marked_def)
  moreover have "current H (advisory_table db2) (package_view L db2 k) sets2"
    if "multi db k" "touched (A @ B) db k \<or> current H (advisory_table db) (package_view L db k) sets" for k
    using that m1 m2 multi_marked [of db db1 A k] touched_marked [of db db1 A B k] by (auto simp: touched_append)
  ultimately show ?thesis using m2 row by (simp add: mark_result_def)
qed

lemma complete_batch_ok:
  assumes "refs_ok db" "set_db_wf sets"
  shows "\<exists>db' sets'. complete_batch H E (clk n) A db sets = Some (Inr (db', sets')) \<and>
     mark_result H (purls (env_ext E)) clk A db sets db' sets'"
proof -
  let ?S = "filter (\<lambda>i. i \<in> set A) (successful db)"
  have "set ?S \<subseteq> set A" by auto
  from complete_import_ok [OF assms this, of H E "clk n"] obtain db' sets' where r:
    "complete_advisories_import H E (clk n) A ?S db sets = Some (Inr (db', sets'))" "marked db db' A" "set_db_wf sets'"
    "\<forall>i<length (t_advisories db). t_advisories db' ! i = dated_row (clk n) (i \<in> set A) (i \<in> set ?S) (t_advisories db ! i)"
    "\<forall>k. multi db k \<longrightarrow> touched A db k \<or> current H (advisory_table db) (package_view (purls (env_ext E)) db k) sets \<longrightarrow>
       current H (advisory_table db') (package_view (purls (env_ext E)) db' k) sets'" by blast
  have "\<exists>m. t_advisories db' ! i = dated_row (clk m) (i \<in> set A) (i \<in> set A \<and> i \<in> set (successful db)) (t_advisories db ! i)"
    if "i < length (t_advisories db)" for i
    using r(4) that by (intro exI [of _ n]) (auto simp: conj_commute)
  with r show ?thesis by (auto simp: mark_result_def complete_batch_def)
qed

lemma mark_loop_ok:
  assumes "refs_ok db" "set_db_wf sets" "distinct (batch @ is)"
  shows "\<exists>db' sets'. mark_loop H E clk n is batch db sets = Some (None, db', sets') \<and>
     mark_result H (purls (env_ext E)) clk (batch @ is) db sets db' sets'"
  using assms
proof (induction "is" arbitrary: n batch db sets)
  case Nil
  show ?case
  proof (cases "batch = []")
    case True
    with mark_result_refl [OF Nil.prems(1,2)] show ?thesis by auto
  next
    case False
    with complete_batch_ok [OF Nil.prems(1,2), of H E clk n batch] show ?thesis by auto
  qed
next
  case (Cons i "is")
  show ?case
  proof (cases "1000 \<le> length (batch @ [i])")
    case False
    with Cons.IH [of db sets "batch @ [i]" n] Cons.prems show ?thesis by auto
  next
    case True
    from complete_batch_ok [OF Cons.prems(1,2), of H E clk n "batch @ [i]"] obtain db1 sets1 where
      1: "complete_batch H E (clk n) (batch @ [i]) db sets = Some (Inr (db1, sets1))"
        "mark_result H (purls (env_ext E)) clk (batch @ [i]) db sets db1 sets1" by blast
    then have "refs_ok db1" "set_db_wf sets1" by (auto simp: mark_result_def intro: marked_refs)
    from Cons.IH [OF this, of "[]" "Suc n"] Cons.prems obtain db2 sets2 where
      2: "mark_loop H E clk (Suc n) is [] db1 sets1 = Some (None, db2, sets2)"
        "mark_result H (purls (env_ext E)) clk is db1 sets1 db2 sets2" by auto
    have "mark_loop H E clk n (i # is) batch db sets = Some (None, db2, sets2)" using True 1(1) 2(1) by simp
    moreover have "mark_result H (purls (env_ext E)) clk (batch @ i # is) db sets db2 sets2"
      using mark_result_trans [OF 1(2) 2(2)] Cons.prems(3) by auto
    ultimately show ?thesis by blast
  qed
qed

definition to_mark :: "int \<Rightarrow> 'd import_db \<Rightarrow> nat \<Rightarrow> bool" where
  "to_mark now db i \<longleftrightarrow> (let r = t_advisories db ! i in
     i < length (t_advisories db) \<and> av_unfurled_ok_at r = None \<and> av_is_latest r \<and>
     (case av_unfurled_at r of None \<Rightarrow> True | Some t \<Rightarrow> t < now - 30 * day) \<and>
     list_all (\<lambda>im. im_advisory im = i \<longrightarrow> im_unfurled_at im \<noteq> None) (t_impacts db))"

lemma nulls_last_mem [simp]: "set (nulls_last f xs) = set xs"
  by (auto simp: nulls_last_def)

lemma nulls_last_distinct [simp]: "distinct xs \<Longrightarrow> distinct (nulls_last f xs)"
  by (auto simp: nulls_last_def)

lemma attempted_mem:
  "distinct (latest_advisories_with_all_impacts_unfurled_attempted now db) \<and>
   set (latest_advisories_with_all_impacts_unfurled_attempted now db) = {i. to_mark now db i}"
  by (auto simp: latest_advisories_with_all_impacts_unfurled_attempted_def Let_def to_mark_def impacts_where_eq list_ex_iff list_all_iff)

text \<open>
  C11: Marking always ends without an exception. It dates exactly the latest advisories whose impacts were
  all tried, as successful when they all succeeded. The stored advisory sets of every package that one
  of them names are then those of the advisories now visible, and so are all the sets that were up to date
  before.
\<close>

theorem mark_unfurled_exact:
  assumes "refs_ok db" "set_db_wf sets"
  shows "\<exists>db' sets'. mark_all_impacts_unfurled H E clk db sets = Some (None, db', sets') \<and> set_db_wf sets' \<and>
    t_impacts db' = t_impacts db \<and>
    list_all (\<lambda>i. \<exists>m. t_advisories db' ! i = (if to_mark (clk 0) db i
        then dated_row (clk m) True (i \<in> set (successful db)) (t_advisories db ! i) else t_advisories db ! i))
      [0..<length (t_advisories db)] \<and>
    list_all (\<lambda>k. (\<exists>i. to_mark (clk 0) db i \<and> touched [i] db k) \<or>
        current H (advisory_table db) (package_view (purls (env_ext E)) db k) sets \<longrightarrow>
        current H (advisory_table db') (package_view (purls (env_ext E)) db' k) sets')
      (filter (multi db) [0..<length (t_packages db)])"
proof -
  let ?A = "latest_advisories_with_all_impacts_unfurled_attempted (clk 0) db"
  note A = attempted_mem [of "clk 0" db]
  from mark_loop_ok [OF assms, of "[]" ?A H E clk 1] A obtain db' sets' where
    r: "mark_all_impacts_unfurled H E clk db sets = Some (None, db', sets')"
      "mark_result H (purls (env_ext E)) clk ?A db sets db' sets'"
    by (auto simp: mark_all_impacts_unfurled_def)
  have t: "touched ?A db k \<longleftrightarrow> (\<exists>i. to_mark (clk 0) db i \<and> touched [i] db k)" for k
    using A by (auto simp: touched_def list_ex_iff)
  have "\<exists>m. t_advisories db' ! i = (if to_mark (clk 0) db i
        then dated_row (clk m) True (i \<in> set (successful db)) (t_advisories db ! i) else t_advisories db ! i)"
    if i: "i < length (t_advisories db)" for i
  proof -
    from r(2) i obtain m where "t_advisories db' ! i =
        dated_row (clk m) (i \<in> set ?A) (i \<in> set ?A \<and> i \<in> set (successful db)) (t_advisories db ! i)"
      by (auto simp: mark_result_def)
    with A show ?thesis by auto
  qed
  moreover have "set_db_wf sets'" "t_impacts db' = t_impacts db" using r(2) by (auto simp: mark_result_def marked_def)
  moreover have "current H (advisory_table db') (package_view (purls (env_ext E)) db' k) sets'"
    if "multi db k" "(\<exists>i. to_mark (clk 0) db i \<and> touched [i] db k) \<or>
        current H (advisory_table db) (package_view (purls (env_ext E)) db k) sets" for k
    using r(2) that t [of k] by (simp only: mark_result_def)
  ultimately show ?thesis using r(1) by (auto simp: list_all_iff)
qed


section \<open>Unfurling and then marking\<close>

text \<open>Every advisory that was ever marked successful was marked.\<close>

definition dates_ok :: "'d import_db \<Rightarrow> bool" where
  "dates_ok db \<longleftrightarrow> list_all (\<lambda>r. av_unfurled_ok_at r \<noteq> None \<longrightarrow> av_unfurled_at r \<noteq> None) (t_advisories db)"

lemma tables_refs: "tables_ok L db \<Longrightarrow> refs_ok db"
  by (simp add: tables_ok_def packages_ok_def refs_ok_def)

lemma unfurled_all_dated:
  assumes "purl_fields_law (purls (env_ext E))" "tables_ok (purls (env_ext E)) db"
    "unfurl_version_range E F clk db = (None, db')" "im' \<in> set (t_impacts db')" "av_is_latest (t_advisories db' ! im_advisory im')"
  shows "im_unfurled_at im' \<noteq> None"
proof -
  note run = unfurl_run_ok [OF assms(1-3)]
  obtain j where j: "j < length (t_impacts db)" "im' = t_impacts db' ! j" using assms(4) run by (auto simp: in_set_conv_nth)
  have e: "impact_run E F clk db db' j" using run j(1) by blast
  then have adv: "im_advisory im' = im_advisory (t_impacts db ! j)"
    using j(2) by (auto simp: impact_run_def Let_def dest: same_impactD)
  show ?thesis
  proof (cases "truthy_opt (im_affecting_vers (t_impacts db ! j))")
    case False
    with e j(2) show ?thesis by (simp add: impact_run_def Let_def)
  next
    case True
    show ?thesis
    proof (cases "due (clk 1) db (t_impacts db ! j)")
      case due: True
      with e True j(2) show ?thesis by (auto simp: impact_run_def Let_def)
    next
      case False
      with True assms(5) adv run have "im_unfurled_at (t_impacts db ! j) \<noteq> None"
        by (auto simp: due_def split: option.splits)
      with e True False j(2) show ?thesis by (simp add: impact_run_def Let_def)
    qed
  qed
qed

lemma mark_run_ok:
  assumes "refs_ok db" "set_db_wf sets"
  shows "\<exists>db' sets'. mark_all_impacts_unfurled H E clk db sets = Some (None, db', sets') \<and>
     mark_result H (purls (env_ext E)) clk (latest_advisories_with_all_impacts_unfurled_attempted (clk 0) db) db sets db' sets'"
  using mark_loop_ok [OF assms, of "[]" _ H E clk 1] attempted_mem [of "clk 0" db] by (simp add: mark_all_impacts_unfurled_def)

text \<open>
  C12: After a run of the unfurling without an exception and then one of the marking, every latest advisory
  is completely imported: the queries for visible advisories miss none.
\<close>

theorem unfurl_then_mark_visible:
  assumes "purl_fields_law (purls (env_ext E))" "tables_ok (purls (env_ext E)) db" "dates_ok db" "set_db_wf sets"
    "unfurl_version_range E F clk db = (None, db1)"
  shows "\<exists>db2 sets2. mark_all_impacts_unfurled H E clk' db1 sets = Some (None, db2, sets2) \<and>
     latest_completely_imported_advisories_per_avid (advisory_table db2) = latest_per_avid (advisory_table db2)"
proof -
  have t: "tables_ok (purls (env_ext E)) db1" "t_advisories db1 = t_advisories db"
    using unfurl_run_ok [OF assms(1,2,5)] by simp_all
  from mark_run_ok [OF tables_refs [OF t(1)] assms(4), of H E clk'] obtain db2 sets2 where
    r: "mark_all_impacts_unfurled H E clk' db1 sets = Some (None, db2, sets2)"
      "mark_result H (purls (env_ext E)) clk' (latest_advisories_with_all_impacts_unfurled_attempted (clk' 0) db1) db1 sets db2 sets2"
    by blast
  have "visible (advisory_view db2 i)" if i: "i < length (t_advisories db2)" "is_latest (advisory_view db2 i)" for i
  proof -
    let ?r = "t_advisories db1 ! i"
    have i1: "i < length (t_advisories db1)" using i(1) r(2) by (simp add: mark_result_def marked_def)
    from r(2) i1 obtain m where row: "t_advisories db2 ! i = dated_row (clk' m)
        (i \<in> set (latest_advisories_with_all_impacts_unfurled_attempted (clk' 0) db1))
        (i \<in> set (latest_advisories_with_all_impacts_unfurled_attempted (clk' 0) db1) \<and> i \<in> set (successful db1)) ?r"
      by (auto simp: mark_result_def)
    then have l: "av_is_latest ?r" using i(2) by (simp add: advisory_view_def Let_def dated_row_def)
    have "av_unfurled_at (t_advisories db2 ! i) \<noteq> None"
    proof (cases "av_unfurled_at ?r")
      case None
      then have "av_unfurled_ok_at ?r = None"
        using assms(3) i1 t(2) by (auto simp: dates_ok_def list_all_length)
      then have "to_mark (clk' 0) db1 i"
        using None i1 l unfurled_all_dated [OF assms(1,2,5)] by (auto simp: to_mark_def Let_def list_all_iff)
      then show ?thesis using row attempted_mem [of "clk' 0" db1] by (auto simp: dated_row_def)
    next
      case (Some t)
      with row show ?thesis by (auto simp: dated_row_def)
    qed
    with i(2) show ?thesis by (simp add: visible_def advisory_view_def Let_def)
  qed
  then have "filter visible (advisory_table db2) = filter is_latest (advisory_table db2)"
    by (intro filter_cong refl) (auto simp: advisory_table_def visible_def)
  with r(1) show ?thesis
    by (simp add: latest_completely_imported_advisories_per_avid_def latest_per_avid_def)
qed

definition demo_mark_db :: "nat import_db" where
  "demo_mark_db = demo_unfurl_db [demo_impact 0 ''npm/a@'' ''<33'', demo_impact 1 ''npm/a@'' ''<222'']"

definition demo_unfurled_db :: "nat import_db" where
  "demo_unfurled_db = snd (unfurl_version_range demo_unfurl_env demo_fetch int demo_mark_db)"

lemma demo_mark_ok: "tables_ok (purls (env_ext demo_unfurl_env)) demo_mark_db" "dates_ok demo_mark_db"
  by (simp_all add: demo_mark_db_def demo_unfurl_db_def empty_db_def tables_ok_def packages_ok_def demo_impact_def dates_ok_def demo_unfurl_adv_def)

lemma demo_unfurled: "unfurl_version_range demo_unfurl_env demo_fetch int demo_mark_db = (None, demo_unfurled_db)"
proof -
  have "fst (unfurl_version_range demo_unfurl_env demo_fetch int demo_mark_db) = None" by code_simp
  then show ?thesis by (simp add: demo_unfurled_db_def prod_eq_iff)
qed

lemma unfurl_then_mark_visible_witness:
  "\<exists>db2 sets2. mark_all_impacts_unfurled (\<lambda>_. []) demo_unfurl_env int demo_unfurled_db empty_set_db = Some (None, db2, sets2) \<and>
     latest_completely_imported_advisories_per_avid (advisory_table db2) = latest_per_avid (advisory_table db2)"
  by (rule unfurl_then_mark_visible [OF demo_six_law demo_mark_ok empty_set_db_wf demo_unfurled])

text \<open>Both advisories are marked, and their common package gets its sets.\<close>

lemma mark_unfurled_exact_witness:
  "\<exists>db' sets'. mark_all_impacts_unfurled (\<lambda>_. []) demo_unfurl_env int demo_unfurled_db empty_set_db = Some (None, db', sets') \<and>
     current (\<lambda>_. []) (advisory_table db') (package_view (purls (env_ext demo_unfurl_env)) db' 0) sets' \<and>
     av_unfurled_ok_at (t_advisories db' ! 1) \<noteq> None"
proof -
  have "refs_ok demo_unfurled_db"
    using unfurl_run_ok [OF demo_six_law demo_mark_ok(1) demo_unfurled] tables_refs by blast
  from mark_unfurled_exact [OF this empty_set_db_wf, of "\<lambda>_. []" demo_unfurl_env int] obtain db' sets' where
    r: "mark_all_impacts_unfurled (\<lambda>_. []) demo_unfurl_env int demo_unfurled_db empty_set_db = Some (None, db', sets')"
      "\<forall>i<length (t_advisories demo_unfurled_db). \<exists>m. t_advisories db' ! i = (if to_mark (int 0) demo_unfurled_db i
        then dated_row (int m) True (i \<in> set (successful demo_unfurled_db)) (t_advisories demo_unfurled_db ! i)
        else t_advisories demo_unfurled_db ! i)"
      "\<forall>k<length (t_packages demo_unfurled_db). multi demo_unfurled_db k \<longrightarrow> (\<exists>i. to_mark (int 0) demo_unfurled_db i \<and> touched [i] demo_unfurled_db k) \<or>
        current (\<lambda>_. []) (advisory_table demo_unfurled_db) (package_view (purls (env_ext demo_unfurl_env)) demo_unfurled_db k) empty_set_db \<longrightarrow>
        current (\<lambda>_. []) (advisory_table db') (package_view (purls (env_ext demo_unfurl_env)) db' k) sets'"
    by (auto simp: list_all_iff)
  have c: "length (t_advisories demo_unfurled_db) = 2" "multi demo_unfurled_db 0" "touched [0] demo_unfurled_db 0"
    "to_mark (int 0) demo_unfurled_db 0" "to_mark (int 0) demo_unfurled_db 1" "1 \<in> set (successful demo_unfurled_db)" by code_simp+
  have "current (\<lambda>_. []) (advisory_table db') (package_view (purls (env_ext demo_unfurl_env)) db' 0) sets'"
    using r(3) c(2-4) by (auto simp: multi_def)
  moreover have "av_unfurled_ok_at (t_advisories db' ! 1) \<noteq> None"
    using r(2) c(1,5,6) by (auto simp: dated_row_def dest!: spec [of _ 1])
  ultimately show ?thesis using r(1) by blast
qed


section \<open>The bulk risk is the risk of each package\<close>

text \<open>
  C30: The bulk computation gives a package the score that the computation for a single package gives it,
  and leaves it as it was when there is none.
\<close>

theorem bulk_risk_exact:
  assumes "refs_ok db" "k < length (t_packages db)"
  shows "pkg_risk_score (t_packages (compute_package_risk_score_bulk round1 ids db) ! k) =
    (case (if k \<in> set ids then compute_package_risk_score round1
        (map (\<lambda>a. av_risk_score (t_advisories db ! adv_pk a))
          (latest_affecting_advisories_for_purl (advisory_table db) (package_url (t_packages db ! k)))) None else None) of
      None \<Rightarrow> pkg_risk_score (t_packages db ! k) | Some s \<Rightarrow> Some s)"
proof -
  let ?url = "\<lambda>k. package_url (t_packages db ! k)" and ?n = "length (t_advisories db)"
  have pk: "adv_pk (advisory_view db i) = i" for i by (simp add: advisory_view_def Let_def)
  have adv: "map adv_pk (filter P (advisory_table db)) = filter (\<lambda>i. P (advisory_view db i)) [0..<?n]" for P
    by (simp add: advisory_table_def filter_map comp_def pk)
  have "filter (\<lambda>i. list_ex (\<lambda>im. im_advisory im = i \<and> k \<in> set (im_affecting im)) (t_impacts db))
        (map adv_pk (latest_affecting_advisories_for_purls (advisory_table db) (map ?url ids))) =
      map adv_pk (latest_affecting_advisories_for_purl (advisory_table db) (?url k))" if "k \<in> set ids"
    unfolding latest_affecting_advisories_for_purls_def latest_affecting_advisories_for_purl_def adv filter_filter
    by (rule filter_cong) (use that view_relates(1) [OF assms] in \<open>auto simp: list_ex_iff\<close>)
  then have "map (\<lambda>i. av_risk_score (t_advisories db ! i))
        (filter (\<lambda>i. list_ex (\<lambda>im. im_advisory im = i \<and> k \<in> set (im_affecting im)) (t_impacts db))
          (map adv_pk (latest_affecting_advisories_for_purls (advisory_table db) (map ?url ids)))) =
      map (\<lambda>a. av_risk_score (t_advisories db ! adv_pk a)) (latest_affecting_advisories_for_purl (advisory_table db) (?url k))"
    if "k \<in> set ids" using that by (simp add: comp_def)
  then show ?thesis
    using assms(2) by (auto simp: compute_package_risk_score_bulk_def Let_def nth_enumerate_eq compute_package_risk_score_def
        split: option.splits)
qed

definition demo_scored_db :: "nat import_db" where
  "demo_scored_db = demo_unfurled_db\<lparr>t_advisories := map (\<lambda>r. r\<lparr>av_unfurled_at := Some 1,
     av_risk_score := (if av_advisory_id r = ''A'' then Some 7 else None)\<rparr>) (t_advisories demo_unfurled_db)\<rparr>"

lemma bulk_risk_exact_witness:
  "pkg_risk_score (t_packages (compute_package_risk_score_bulk id [0] demo_scored_db) ! 0) = Some 7"
proof -
  have "t_impacts demo_scored_db = t_impacts demo_unfurled_db" "t_packages demo_scored_db = t_packages demo_unfurled_db"
    by (simp_all add: demo_scored_db_def)
  then have r: "refs_ok demo_scored_db"
    using unfurl_run_ok [OF demo_six_law demo_mark_ok(1) demo_unfurled] tables_refs by (auto simp: refs_ok_def)
  have c: "0 < length (t_packages demo_scored_db)"
    "map (\<lambda>a. av_risk_score (t_advisories demo_scored_db ! adv_pk a))
      (latest_affecting_advisories_for_purl (advisory_table demo_scored_db) (package_url (t_packages demo_scored_db ! 0))) = [Some 7, None]"
    by code_simp+
  show ?thesis using bulk_risk_exact [OF r c(1), of id "[0]"] unfolding c(2)
    by (simp add: compute_package_risk_score_def max_known_def)
qed

text \<open>A package whose advisories have no score any more keeps the one it had.\<close>

lemma stale_package_risk:
  "let db = compute_package_risk_score_bulk id [0] demo_scored_db;
       db = db\<lparr>t_advisories := map (\<lambda>r. r\<lparr>av_risk_score := None\<rparr>) (t_advisories db)\<rparr>
   in pkg_risk_score (t_packages (compute_package_risk_score_bulk id [0] db) ! 0) = Some 7 \<and>
      compute_package_risk_score id (map (\<lambda>a. av_risk_score (t_advisories db ! adv_pk a))
        (latest_affecting_advisories_for_purl (advisory_table db) (package_url (t_packages db ! 0)))) None = None"
  by code_simp

section \<open>Grouping every package\<close>

lemma group_package_ok:
  assumes "set_db_wf sets" "pkg_type p \<in> set TYPES_WITH_MULTIPLE_IMPORTERS"
  shows "\<exists>sets'. group_advisory_for_package H (advisory_table db) p sets = Some sets' \<and> set_db_wf sets' \<and>
    current H (advisory_table db) p sets' \<and> (\<forall>q t. q \<noteq> pkg_pk p \<longrightarrow> stored sets' q t = stored sets q t)"
proof -
  let ?aff = "latest_affecting_advisories_for_purl (advisory_table db) (pkg_purl p)"
  let ?fix = "latest_fixed_by_advisories_for_purl (advisory_table db) (pkg_purl p)"
  have d: "distinct (map adv_pk ?aff)" "distinct (map adv_pk ?fix)"
    using advisory_table_pks [of db] by (simp_all add: latest_affecting_advisories_for_purl_def
        latest_fixed_by_advisories_for_purl_def distinct_map_filter)
  from group_single_ok [OF d assms(1), of H p] assms(2) show ?thesis
    by (elim exE conjE) (auto simp: group_advisory_for_package_def current_def)
qed

text \<open>After the pipeline \<open>group_advisories_for_packages\<close> all stored sets are up to date.\<close>

lemma group_all_current:
  assumes "set_db_wf sets"
  shows "\<exists>sets'. group_advisories_for_packages H L db sets = Some sets' \<and> set_db_wf sets' \<and>
    (\<forall>k. multi db k \<longrightarrow> current H (advisory_table db) (package_view L db k) sets')"
proof -
  have run: "\<exists>sets'. fold (\<lambda>k s. Option.bind s (group_advisory_for_package H (advisory_table db) (package_view L db k))) ks (Some sets) = Some sets' \<and>
      set_db_wf sets' \<and> (\<forall>k. k \<in> set ks \<or> current H (advisory_table db) (package_view L db k) sets \<longrightarrow>
         current H (advisory_table db) (package_view L db k) sets')"
    if "set_db_wf sets" "\<forall>k\<in>set ks. multi db k" for ks sets
    using that
  proof (induction ks arbitrary: sets)
    case (Cons k ks)
    let ?p = "package_view L db k"
    have pk: "pkg_pk (package_view L db j) = j" for j by (simp add: package_view_def Let_def)
    have "pkg_type ?p \<in> set TYPES_WITH_MULTIPLE_IMPORTERS" using Cons.prems(2) by (simp add: package_view_def Let_def multi_def)
    from group_package_ok [OF Cons.prems(1) this, of H db] obtain sets1 where 1:
      "group_advisory_for_package H (advisory_table db) ?p sets = Some sets1" "set_db_wf sets1"
      "current H (advisory_table db) ?p sets1" "\<forall>q t. q \<noteq> k \<longrightarrow> stored sets1 q t = stored sets q t" by (auto simp: pk)
    from Cons.IH [OF 1(2)] Cons.prems(2) obtain sets2 where 2:
      "fold (\<lambda>k s. Option.bind s (group_advisory_for_package H (advisory_table db) (package_view L db k))) ks (Some sets1) = Some sets2"
      "set_db_wf sets2" "\<forall>j. j \<in> set ks \<or> current H (advisory_table db) (package_view L db j) sets1 \<longrightarrow>
         current H (advisory_table db) (package_view L db j) sets2" by auto
    have "current H (advisory_table db) (package_view L db j) sets1"
      if "j = k \<or> current H (advisory_table db) (package_view L db j) sets" for j
      using that 1(3,4) by (cases "j = k") (simp_all add: current_def pk)
    then have "\<forall>j. j \<in> set (k # ks) \<or> current H (advisory_table db) (package_view L db j) sets \<longrightarrow>
         current H (advisory_table db) (package_view L db j) sets2" using 2(3) by auto
    with 1(1) 2(1,2) show ?case by simp
  qed auto
  let ?ks = "filter (\<lambda>k. pkg_field ''type'' (t_packages db ! k) \<in> set TYPES_WITH_MULTIPLE_IMPORTERS) [0..<length (t_packages db)]"
  have "\<forall>k\<in>set ?ks. multi db k" by (simp add: multi_def)
  from run [OF assms this] show ?thesis
    by (elim exE conjE) (auto simp: group_advisories_for_packages_def multi_def)
qed

end
