(* ===== verification/Maintenance.thy ===== *)
theory Maintenance
  imports MarkUnfurled
begin

text \<open>
  The pipelines that keep the packages of the second generation up to date, of
  \<open>vulnerabilities/pipelines/v2_improvers\<close>: \<open>computer_package_version_rank.py\<close>,
  \<open>flag_ghost_packages.py\<close> and \<open>compute_package_risk.py\<close>. They go over all packages, or groups of
  packages with the same type, namespace and name.
\<close>

section \<open>Groups of packages\<close>

text \<open>\<open>itertools.groupby\<close>: runs of elements with the same key.\<close>

function groupby :: "('a \<Rightarrow> 'k) \<Rightarrow> 'a list \<Rightarrow> ('k \<times> 'a list) list" where
  "groupby f [] = []"
| "groupby f (x # xs) = (f x, x # takeWhile (\<lambda>y. f y = f x) xs) # groupby f (dropWhile (\<lambda>y. f y = f x) xs)"
  by pat_completeness auto
termination by (relation "measure (length \<circ> snd)") (auto simp: le_imp_less_Suc length_dropWhile_le)

definition group_key :: "Packages.package_row \<Rightarrow> string list" where
  "group_key p = map (\<lambda>f. pkg_field f p) [''type'', ''namespace'', ''name'']"

definition package_groups :: "(Packages.package_row \<Rightarrow> bool) \<Rightarrow> Packages.package_row list \<Rightarrow> (string list \<times> nat list) list" where
  "package_groups P t = groupby (\<lambda>i. group_key (t ! i)) (sort_key (\<lambda>i. group_key (t ! i)) (rows_where P t))"

section \<open>Version ranks\<close>

text \<open>
  \<open>update_version_rank_for_group\<close> is one transaction, and an invalid version ends the run. \<open>types\<close> are
  those \<open>univers\<close> has a range class for.
\<close>

definition update_version_rank_for_group ::
    "(string \<Rightarrow> string \<Rightarrow> ('v::linorder) result) \<Rightarrow> string \<Rightarrow> nat list \<Rightarrow> Packages.package_row list \<Rightarrow> Packages.package_row list result" where
  "update_version_rank_for_group vclass ty g t =
     map_sum id (\<lambda>vs. set_ranks 1 (map fst (sort_key snd (zip g vs))) t)
       (map_result (\<lambda>i. vclass ty (pkg_field ''version'' (t ! i))) g)"

fun rank_groups ::
    "(string \<Rightarrow> string \<Rightarrow> ('v::linorder) result) \<Rightarrow> string list \<Rightarrow> (string list \<times> nat list) list \<Rightarrow> Packages.package_row list \<Rightarrow>
       py_error option \<times> Packages.package_row list" where
  "rank_groups vclass types [] t = (None, t)"
| "rank_groups vclass types ((key, g) # gs) t =
     (if hd key \<notin> set types then rank_groups vclass types gs t
      else (case update_version_rank_for_group vclass (hd key) g t of
          Inl e \<Rightarrow> (Some e, t) | Inr t \<Rightarrow> rank_groups vclass types gs t))"

definition compute_and_store_version_rank ::
    "(string \<Rightarrow> string \<Rightarrow> ('v::linorder) result) \<Rightarrow> string list \<Rightarrow> Packages.package_row list \<Rightarrow> py_error option \<times> Packages.package_row list" where
  "compute_and_store_version_rank vclass types t = rank_groups vclass types (package_groups (\<lambda>_. True) t) t"

section \<open>Packages that do not exist upstream\<close>

text \<open>
  \<open>upstream\<close> is \<open>get_versions\<close> of this pipeline, which asks \<open>fetchcode\<close> for the package URL of the group;
  an exception is logged and skips the group.
\<close>

definition upstream_versions :: "purl_lib \<Rightarrow> fetchcode \<Rightarrow> string list \<Rightarrow> string list option" where
  "upstream_versions L F key =
     (case fc_versions F (lib_to_string L (lib_purl L (key ! 0) (Some (key ! 1)) (key ! 2) None [] None)) of
        Inl _ \<Rightarrow> None | Inr vs \<Rightarrow> Some (map strip_v vs))"

definition flag_ghost_packages ::
    "purl_lib \<Rightarrow> fetchcode \<Rightarrow> string list \<times> nat list \<Rightarrow> Packages.package_row list \<Rightarrow> nat \<times> Packages.package_row list" where
  "flag_ghost_packages L F grp t =
     (case grp of (key, g) \<Rightarrow> (case upstream_versions L F key of None \<Rightarrow> (0, t)
      | Some known \<Rightarrow>
          (let ghost = (\<lambda>i. strip_v (pkg_field ''version'' (t ! i)) \<notin> set known)
           in (length (filter ghost g), fold (\<lambda>i t. t[i := (t ! i)\<lparr>is_ghost := ghost i\<rparr>]) g t))))"

definition detect_and_flag_ghost_packages ::
    "purl_lib \<Rightarrow> fetchcode \<Rightarrow> Packages.package_row list \<Rightarrow> nat \<times> Packages.package_row list" where
  "detect_and_flag_ghost_packages L F t =
     fold (\<lambda>grp (n, t). case flag_ghost_packages L F grp t of (m, t) \<Rightarrow> (n + m, t))
       (package_groups (\<lambda>p. pkg_field ''type'' p \<in> set (fc_types F) \<and> pkg_field ''qualifiers'' p = [] \<and> pkg_field ''subpath'' p = []) t)
       (0, t)"

section \<open>Risk scores\<close>

text \<open>
  \<open>exploits\<close> and \<open>related\<close> give the number of exploits of an advisory and its related advisories. The
  risk of an advisory is set only when neither factor is null.
\<close>

definition advisory_risk_update ::
    "('r, 'v, 'd) import_env \<Rightarrow> (nat \<Rightarrow> nat) \<Rightarrow> (nat \<Rightarrow> nat list) \<Rightarrow> 'd import_db \<Rightarrow> nat \<Rightarrow> 'd advisory_v2" where
  "advisory_risk_update E exploits related db i =
     (let r = t_advisories db ! i;
          sevs = (\<lambda>r. map ((!) (t_severities db)) (av_severities r))
      in case compute_vulnerability_risk_factors (env_round1 E) (env_float E) (map ((!) (t_references db)) (av_references r))
             (sevs r @ concat (map (\<lambda>j. sevs (t_advisories db ! j)) (related i))) (exploits i) of
           Inl _ \<Rightarrow> r
         | Inr (ws, ex) \<Rightarrow> r\<lparr>av_weighted_severity := Some ws, av_exploitability := Some ex,
             av_risk_score := (if ex \<noteq> 0 \<and> ws \<noteq> 0 then Some (env_round1 E (min (ex * ws) 10)) else av_risk_score r)\<rparr>)"

definition affects_any :: "'d import_db \<Rightarrow> nat \<Rightarrow> bool" where
  "affects_any db i \<longleftrightarrow> list_ex (\<lambda>im. im_advisory im = i \<and> im_affecting im \<noteq> []) (t_impacts db)"

definition compute_and_store_vulnerability_risk_score ::
    "('r, 'v, 'd) import_env \<Rightarrow> (nat \<Rightarrow> nat) \<Rightarrow> (nat \<Rightarrow> nat list) \<Rightarrow> 'd import_db \<Rightarrow> 'd import_db" where
  "compute_and_store_vulnerability_risk_score E exploits related db =
     db\<lparr>t_advisories := map (\<lambda>i. if av_is_latest (t_advisories db ! i) \<and> affects_any db i
          then advisory_risk_update E exploits related db i else t_advisories db ! i) [0..<length (t_advisories db)]\<rparr>"

definition compute_and_store_package_risk_score :: "(rat \<Rightarrow> rat) \<Rightarrow> 'd import_db \<Rightarrow> 'd import_db" where
  "compute_and_store_package_risk_score round1 db =
     (let latest = map adv_pk (latest_completely_imported_advisories_per_avid (advisory_table db));
          scores = (\<lambda>k. map (\<lambda>i. av_risk_score (t_advisories db ! i))
            (filter (\<lambda>i. list_ex (\<lambda>im. im_advisory im = i \<and> k \<in> set (im_affecting im)) (t_impacts db)) latest))
      in db\<lparr>t_packages := map (\<lambda>(k, p). case max_known (scores k) of
              None \<Rightarrow> p | Some m \<Rightarrow> p\<lparr>pkg_risk_score := Some (round1 m)\<rparr>) (enumerate 0 (t_packages db))\<rparr>)"

section \<open>The groups are the packages of one name\<close>

lemma sorted_run:
  assumes "sorted (map f ys)" "\<forall>y\<in>set ys. k \<le> f y"
  shows "takeWhile (\<lambda>y. f y = k) ys = filter (\<lambda>y. f y = k) ys \<and> dropWhile (\<lambda>y. f y = k) ys = filter (\<lambda>y. f y \<noteq> k) ys"
  using assms
proof (induction ys)
  case (Cons y ys)
  show ?case
  proof (cases "f y = k")
    case True
    with Cons show ?thesis by simp
  next
    case False
    have "k < f z" if "z \<in> set ys" for z
    proof -
      have "k < f y" using Cons.prems(2) False by (simp add: order.order_iff_strict)
      also have "f y \<le> f z" using Cons.prems(1) that by simp
      finally show ?thesis .
    qed
    then have "filter (\<lambda>y. f y = k) ys = [] \<and> filter (\<lambda>y. f y \<noteq> k) ys = ys"
      by (force simp: filter_empty_conv filter_id_conv)
    with False show ?thesis by simp
  qed
qed simp

lemma groupby_sorted:
  "sorted (map f xs) \<Longrightarrow> (\<forall>(k, g)\<in>set (groupby f xs). g = filter (\<lambda>x. f x = k) xs) \<and>
     distinct (map fst (groupby f xs)) \<and> fst ` set (groupby f xs) = f ` set xs"
proof (induction f xs rule: groupby.induct)
  case (2 f x xs)
  let ?rest = "dropWhile (\<lambda>y. f y = f x) xs"
  have sp: "takeWhile (\<lambda>y. f y = f x) xs = filter (\<lambda>y. f y = f x) xs" "?rest = filter (\<lambda>y. f y \<noteq> f x) xs"
    using sorted_run [of f xs "f x"] 2(2) by auto
  have "sorted (map f ?rest)" using 2(2) by (simp add: sp sorted_filter)
  note ih = 2(1) [OF this]
  have keys: "fst ` set (groupby f ?rest) = f ` set xs - {f x}" using ih unfolding sp by auto
  have "\<forall>(k, g)\<in>set (groupby f ?rest). g = filter (\<lambda>y. f y = k) (x # xs)"
  proof clarify
    fix k g assume that: "(k, g) \<in> set (groupby f ?rest)"
    have "k \<in> fst ` set (groupby f ?rest)" using that by (rule image_eqI [rotated]) simp
    then have "k \<noteq> f x" using keys by simp
    moreover have "g = filter (\<lambda>y. f y = k) ?rest" using ih that by blast
    ultimately show "g = filter (\<lambda>y. f y = k) (x # xs)" unfolding sp by (auto intro!: filter_cong)
  qed
  moreover have "x # takeWhile (\<lambda>y. f y = f x) xs = filter (\<lambda>y. f y = f x) (x # xs)" by (simp add: sp)
  moreover have "distinct (map fst (groupby f (x # xs)))"
  proof -
    have "f x \<notin> set (map fst (groupby f ?rest))" unfolding set_map keys by simp
    then show ?thesis using ih unfolding groupby.simps list.map fst_conv distinct.simps by blast
  qed
  moreover have "fst ` set (groupby f (x # xs)) = f ` set (x # xs)" using keys by auto
  ultimately show ?case unfolding groupby.simps by simp
qed simp

lemma package_groups_ok:
  "distinct (map fst (package_groups P t)) \<and> fst ` set (package_groups P t) = group_key ` {p \<in> set t. P p} \<and>
   (\<forall>(k, g)\<in>set (package_groups P t). g = rows_where (\<lambda>p. P p \<and> group_key p = k) t)"
proof -
  let ?f = "\<lambda>i. group_key (t ! i)"
  note g = groupby_sorted [of ?f "sort_key ?f (rows_where P t)", OF sorted_sort_key, folded package_groups_def]
  have rows: "filter (\<lambda>i. ?f i = k) (sort_key ?f (rows_where P t)) = rows_where (\<lambda>p. P p \<and> group_key p = k) t" for k
  proof -
    have "filter (\<lambda>i. ?f i = k) (sort_key ?f (rows_where P t)) = filter (\<lambda>i. ?f i = k) (rows_where P t)" by (rule sort_key_stable)
    then show ?thesis by (simp add: rows_where_def conj_commute)
  qed
  have "?f ` set (sort_key ?f (rows_where P t)) = group_key ` (\<lambda>i. t ! i) ` {i. i < length t \<and> P (t ! i)}"
    by (simp only: set_sort image_image rows_where_def set_filter set_upt) auto
  also have "(\<lambda>i. t ! i) ` {i. i < length t \<and> P (t ! i)} = {p \<in> set t. P p}" by (auto simp: in_set_conv_nth)
  finally have keys: "?f ` set (sort_key ?f (rows_where P t)) = group_key ` {p \<in> set t. P p}" .
  show ?thesis using g unfolding rows keys by blast
qed

section \<open>Every package is ranked\<close>

definition rank_only :: "Packages.package_row list \<Rightarrow> Packages.package_row list \<Rightarrow> bool" where
  "rank_only t t' \<longleftrightarrow> list_all2 (\<lambda>p q. q = p\<lparr>version_rank := version_rank q\<rparr>) t t'"

lemma rank_only_nth: "rank_only t t' \<Longrightarrow> i < length t \<Longrightarrow> t' ! i = (t ! i)\<lparr>version_rank := version_rank (t' ! i)\<rparr>"
  by (auto simp: rank_only_def list_all2_conv_all_nth)

lemma rank_only_trans: "rank_only t u \<Longrightarrow> rank_only u v \<Longrightarrow> rank_only t v"
  unfolding rank_only_def list_all2_conv_all_nth by (metis Packages.package_row.surjective Packages.package_row.update_convs(6))

lemma rank_only_key: "rank_only t t' \<Longrightarrow> i < length t \<Longrightarrow> group_key (t' ! i) = group_key (t ! i)"
proof -
  assume "rank_only t t'" "i < length t"
  from arg_cong [OF rank_only_nth [OF this], of group_key] show ?thesis by (simp add: group_key_def)
qed

lemma rank_only_length: "rank_only t t' \<Longrightarrow> length t' = length t"
  by (auto simp: rank_only_def dest: list_all2_lengthD)

lemma same_package_key: "same_package p q \<longleftrightarrow> group_key p = group_key q"
  by (auto simp: same_package_def group_key_def)

lemma group_packages_key: "group_packages p t = rows_where (\<lambda>q. group_key q = group_key p) t"
  by (auto simp: group_packages_def same_package_key intro!: arg_cong [where f = "\<lambda>P. rows_where P t"])

lemma ranked_cong:
  assumes "length t' = length t" "\<And>i. i < length t \<Longrightarrow> group_key (t' ! i) = group_key (t ! i)"
    "\<And>i. i < length t \<Longrightarrow> group_key (t ! i) = group_key p \<Longrightarrow> t' ! i = t ! i"
  shows "ranked vclass p t' \<longleftrightarrow> ranked vclass p t"
proof -
  have g: "group_packages p t' = group_packages p t"
    using assms(1,2) by (auto simp: group_packages_key rows_where_def intro!: filter_cong)
  have "t' ! i = t ! i" if "i \<in> set (group_packages p t)" for i
    using that assms(3) by (auto simp: group_packages_key rows_where_iff)
  then show ?thesis unfolding ranked_def g by simp
qed

lemma rank_groups_ok:
  "rank_groups vclass types gs t = (None, t') \<Longrightarrow> distinct (map fst gs) \<Longrightarrow>
   \<forall>(k, g)\<in>set gs. g = rows_where (\<lambda>p. group_key p = k) t \<Longrightarrow>
   rank_only t t' \<and> (\<forall>i<length t. group_key (t ! i) \<notin> fst ` set gs \<longrightarrow> t' ! i = t ! i) \<and>
   (\<forall>p. group_key p \<in> fst ` set gs \<longrightarrow> pkg_field ''type'' p \<in> set types \<longrightarrow> ranked vclass p t')"
proof (induction gs arbitrary: t)
  case Nil
  then show ?case by (auto simp: rank_only_def list_all2_conv_all_nth)
next
  case (Cons x gs)
  obtain k g where x: "x = (k, g)" by force
  have hd: "hd (group_key p) = pkg_field ''type'' p" for p by (simp add: group_key_def)
  have g: "g = rows_where (\<lambda>p. group_key p = k) t" using Cons.prems(3) x by simp
  show ?case
  proof (cases "hd k \<in> set types")
    case False
    with Cons.prems x have "rank_groups vclass types gs t = (None, t')" by simp
    from Cons.IH [OF this] Cons.prems x have IH: "rank_only t t' \<and> (\<forall>i<length t. group_key (t ! i) \<notin> fst ` set gs \<longrightarrow> t' ! i = t ! i) \<and>
       (\<forall>p. group_key p \<in> fst ` set gs \<longrightarrow> pkg_field ''type'' p \<in> set types \<longrightarrow> ranked vclass p t')" by simp
    have "pkg_field ''type'' p \<notin> set types" if "group_key p = k" for p using that hd [of p] False by simp
    with IH x show ?thesis by auto
  next
    case True
    then obtain t1 where 1: "update_version_rank_for_group vclass (hd k) g t = Inr t1" "rank_groups vclass types gs t1 = (None, t')"
      using Cons.prems(1) x by (auto split: sum.splits)
    then obtain vs where vs: "map_result (\<lambda>i. vclass (hd k) (pkg_field ''version'' (t ! i))) g = Inr vs"
      "t1 = set_ranks 1 (map fst (sort_key snd (zip g vs))) t"
      by (auto simp: update_version_rank_for_group_def map_sum_Inr)
    have rk: "ranked vclass p t1 \<and> length t1 = length t \<and>
        list_all (\<lambda>i. if i \<in> set g then t1 ! i = (t ! i)\<lparr>version_rank := version_rank (t1 ! i)\<rparr> else t1 ! i = t ! i) [0..<length t]"
      if "group_key p = k" for p
      using vs that g hd [of p] by (intro set_ranks_ranked) (auto simp: group_packages_key group_version_def rows_where_def)
    have t1: "rank_only t t1 \<and> (\<forall>i<length t. group_key (t ! i) \<noteq> k \<longrightarrow> t1 ! i = t ! i)"
    proof (cases "\<exists>p. group_key p = k")
      case True
      then obtain p where p: "group_key p = k" by blast
      have ing: "i \<in> set g \<longleftrightarrow> i < length t \<and> group_key (t ! i) = k" for i unfolding g by (rule rows_where_iff)
      have same: "t1 ! i = t ! i" if "i < length t" "group_key (t ! i) \<noteq> k" for i
        using rk [OF p] that ing [of i] by (auto simp: list_all_iff)
      have "t1 ! i = (t ! i)\<lparr>version_rank := version_rank (t1 ! i)\<rparr>" if "i < length t" for i
      proof (cases "i \<in> set g")
        case True
        then show ?thesis using rk [OF p] that by (auto simp: list_all_iff)
      next
        case False
        then show ?thesis using same [OF that] ing that by simp
      qed
      then show ?thesis using same rk [OF p] by (simp add: rank_only_def list_all2_conv_all_nth)
    next
      case False
      then have "g = []" using g by (auto simp: rows_where_def)
      then show ?thesis using vs by (simp add: rank_only_def list_all2_conv_all_nth)
    qed
    have len: "length t1 = length t" using t1 rank_only_length by blast
    have "rows_where (\<lambda>p. group_key p = k') t1 = rows_where (\<lambda>p. group_key p = k') t" for k'
      unfolding rows_where_def len using t1 rank_only_key by (intro filter_cong) auto
    with Cons.IH [OF 1(2)] Cons.prems x have IH: "rank_only t1 t' \<and> (\<forall>i<length t1. group_key (t1 ! i) \<notin> fst ` set gs \<longrightarrow> t' ! i = t1 ! i) \<and>
       (\<forall>p. group_key p \<in> fst ` set gs \<longrightarrow> pkg_field ''type'' p \<in> set types \<longrightarrow> ranked vclass p t')" by simp
    have k: "k \<notin> fst ` set gs" using Cons.prems(2) x by auto
    have other: "t' ! i = t1 ! i" if "i < length t" "group_key (t ! i) \<notin> fst ` set gs" for i
      using IH that t1 len rank_only_key [of t t1 i] by simp
    have "ranked vclass p t'" if p: "group_key p = k" for p
    proof -
      have "ranked vclass p t' \<longleftrightarrow> ranked vclass p t1"
        using IH len t1 other k p by (intro ranked_cong) (auto dest: rank_only_length rank_only_key)
      with rk [OF p] show ?thesis by simp
    qed
    moreover have "t' ! i = t ! i" if "i < length t" "group_key (t ! i) \<notin> fst ` set (x # gs)" for i
      using other [of i] t1 that x by simp
    ultimately show ?thesis using IH t1 x by (auto intro: rank_only_trans)
  qed
qed

section \<open>The theorems of the pipelines\<close>

lemma set_ranks_fields: "pkg_fields (set_ranks r is t ! i) = pkg_fields (t ! i)"
proof (induction r "is" t rule: set_ranks.induct)
  case (2 r j js t)
  have "pkg_fields (t[j := (t ! j)\<lparr>version_rank := r\<rparr>] ! i) = pkg_fields (t ! i)"
    by (cases "j < length t"; cases "i = j") (auto simp: list_update_beyond)
  with 2 show ?case by simp
qed simp

lemma rank_groups_error:
  "rank_groups vclass types gs t = (Some e, t') \<Longrightarrow>
   \<exists>(k, g)\<in>set gs. hd k \<in> set types \<and> (\<exists>i\<in>set g. vclass (hd k) (pkg_field ''version'' (t ! i)) = Inl e)"
proof (induction gs arbitrary: t)
  case (Cons x gs)
  obtain k g where x: "x = (k, g)" by force
  show ?case
  proof (cases "hd k \<in> set types")
    case False
    with Cons x show ?thesis by auto
  next
    case True
    show ?thesis
    proof (cases "update_version_rank_for_group vclass (hd k) g t")
      case (Inl e')
      then have "map_result (\<lambda>i. vclass (hd k) (pkg_field ''version'' (t ! i))) g = Inl e"
        using Cons.prems x True by (auto simp: update_version_rank_for_group_def map_sum_def split: sum.splits)
      from map_result_Inl [OF this] x True show ?thesis by auto
    next
      case (Inr t1)
      then have "pkg_fields (t1 ! i) = pkg_fields (t ! i)" for i
        by (auto simp: update_version_rank_for_group_def map_sum_Inr set_ranks_fields)
      then have "pkg_field ''version'' (t1 ! i) = pkg_field ''version'' (t ! i)" for i by simp
      with Cons.IH [of t1] Cons.prems x True Inr show ?thesis by auto
    qed
  qed
qed simp

lemma rank_groups_rows:
  "rank_groups vclass types gs t = (r, t') \<Longrightarrow> length t' = length t \<and> (\<forall>i. pkg_fields (t' ! i) = pkg_fields (t ! i))"
proof (induction gs arbitrary: t)
  case (Cons x gs)
  obtain k g where x: "x = (k, g)" by force
  have ln: "length (set_ranks r is u) = length u" for r "is" and u :: "Packages.package_row list"
    by (induction r "is" u rule: set_ranks.induct) auto
  have "length t1 = length t \<and> (\<forall>i. pkg_fields (t1 ! i) = pkg_fields (t ! i))"
    if "update_version_rank_for_group vclass (hd k) g t = Inr t1" for t1
    using that by (auto simp: update_version_rank_for_group_def map_sum_Inr set_ranks_fields ln)
  with Cons x show ?case by (auto split: if_splits sum.splits)
qed simp

text \<open>
  C27: Without an error, the pipeline of version ranks changes nothing but ranks, and then every package
  whose type has versions is ranked among those of its name, in the order of their versions. It ends
  with an error only when a package of such a type has a version that is not valid, and the error is
  that of this version.
\<close>

theorem version_rank_run_exact:
  "case compute_and_store_version_rank vclass types t of
     (None, t') \<Rightarrow> rank_only t t' \<and> list_all (\<lambda>p. ranked vclass p t') (filter (\<lambda>p. pkg_field ''type'' p \<in> set types) t')
   | (Some e, t') \<Rightarrow> map pkg_fields t' = map pkg_fields t \<and>
       list_ex (\<lambda>p. pkg_field ''type'' p \<in> set types \<and> vclass (pkg_field ''type'' p) (pkg_field ''version'' p) = Inl e) t"
proof -
  let ?gs = "package_groups (\<lambda>_. True) t"
  have hd: "hd (group_key p) = pkg_field ''type'' p" for p by (simp add: group_key_def)
  have rows: "(k, g) \<in> set ?gs \<Longrightarrow> g = rows_where (\<lambda>p. group_key p = k) t" for k g
    using package_groups_ok [of "\<lambda>_. True" t] by auto
  obtain r t' where run: "compute_and_store_version_rank vclass types t = (r, t')" by force
  note run' = run [unfolded compute_and_store_version_rank_def]
  note fields = rank_groups_rows [OF run']
  show ?thesis
  proof (cases r)
    case None
    note ok = rank_groups_ok [OF run' [unfolded None]]
    have k: "group_key p \<in> fst ` set ?gs" if p: "p \<in> set t'" for p
    proof -
      obtain i where i: "i < length t" "p = t' ! i" using p fields by (auto simp: in_set_conv_nth)
      then have "group_key p = group_key (t ! i)" using fields by (simp add: group_key_def)
      then show ?thesis using i package_groups_ok [of "\<lambda>_. True" t] by auto
    qed
    with ok rows show ?thesis unfolding run None
      using package_groups_ok [of "\<lambda>_. True" t] by (auto simp: list_all_iff)
  next
    case (Some e)
    from rank_groups_error [OF run' [unfolded Some]] obtain k g i where
      "(k, g) \<in> set ?gs" "hd k \<in> set types" "i \<in> set g" "vclass (hd k) (pkg_field ''version'' (t ! i)) = Inl e" by auto
    with rows [of k g] hd [of "t ! i"] have "i < length t \<and> pkg_field ''type'' (t ! i) \<in> set types \<and>
        vclass (pkg_field ''type'' (t ! i)) (pkg_field ''version'' (t ! i)) = Inl e" by (auto simp: rows_where_iff)
    then have "list_ex (\<lambda>p. pkg_field ''type'' p \<in> set types \<and> vclass (pkg_field ''type'' p) (pkg_field ''version'' p) = Inl e) t"
      by (auto simp: list_ex_iff)
    then show ?thesis unfolding run Some using fields by (auto intro: nth_equalityI)
  qed
qed

section \<open>Ghosts\<close>

lemma fold_rows:
  "distinct is \<Longrightarrow> \<forall>i\<in>set is. i < length t \<Longrightarrow>
   fold (\<lambda>i t. t[i := h i (t ! i)]) is t = map (\<lambda>i. if i \<in> set is then h i (t ! i) else t ! i) [0..<length t]"
proof (induction "is" arbitrary: t)
  case Nil
  then show ?case by (simp add: map_nth)
next
  case (Cons j js)
  let ?t = "t[j := h j (t ! j)]"
  have "fold (\<lambda>i t. t[i := h i (t ! i)]) (j # js) t = map (\<lambda>i. if i \<in> set js then h i (?t ! i) else ?t ! i) [0..<length t]"
    using Cons by simp
  also have "\<dots> = map (\<lambda>i. if i \<in> set (j # js) then h i (t ! i) else t ! i) [0..<length t]"
    using Cons.prems by (auto simp: nth_list_update)
  finally show ?case .
qed

lemma rows_count: "length (filter (\<lambda>i. R (t ! i)) (rows_where Q t)) = length (filter (\<lambda>p. Q p \<and> R p) t)"
proof -
  have "filter (\<lambda>p. Q p \<and> R p) (map ((!) t) [0..<length t]) = map ((!) t) (filter (\<lambda>i. R (t ! i)) (rows_where Q t))"
    by (simp add: filter_map rows_where_def comp_def)
  then show ?thesis by (simp add: map_nth)
qed

text \<open>The packages the pipeline looks at, and what it finds of one.\<close>

definition upstream_checked :: "fetchcode \<Rightarrow> Packages.package_row \<Rightarrow> bool" where
  "upstream_checked F p \<longleftrightarrow> pkg_field ''type'' p \<in> set (fc_types F) \<and> pkg_field ''qualifiers'' p = [] \<and> pkg_field ''subpath'' p = []"

definition missing_upstream :: "purl_lib \<Rightarrow> fetchcode \<Rightarrow> Packages.package_row \<Rightarrow> bool option" where
  "missing_upstream L F p = map_option (\<lambda>known. strip_v (pkg_field ''version'' p) \<notin> set known) (upstream_versions L F (group_key p))"

definition flagged :: "purl_lib \<Rightarrow> fetchcode \<Rightarrow> Packages.package_row \<Rightarrow> Packages.package_row" where
  "flagged L F p = (case missing_upstream L F p of None \<Rightarrow> p | Some g \<Rightarrow> p\<lparr>is_ghost := g\<rparr>)"

lemma flag_group:
  "flag_ghost_packages L F (k, rows_where (\<lambda>p. P p \<and> group_key p = k) t) t =
     (length (filter (\<lambda>p. (P p \<and> group_key p = k) \<and> missing_upstream L F p = Some True) t),
      map (\<lambda>p. if P p \<and> group_key p = k then flagged L F p else p) t)"
proof (cases "upstream_versions L F k")
  case None
  have "map (\<lambda>p. if P p \<and> group_key p = k then flagged L F p else p) t = t"
    using None by (intro map_idI) (auto simp: flagged_def missing_upstream_def)
  then show ?thesis using None by (auto simp: flag_ghost_packages_def missing_upstream_def filter_empty_conv)
next
  case (Some known)
  let ?Q = "\<lambda>p. P p \<and> group_key p = k" and ?G = "\<lambda>p. strip_v (pkg_field ''version'' p) \<notin> set known"
  have r: "distinct (rows_where ?Q t)" "\<forall>i\<in>set (rows_where ?Q t). i < length t"
    by (auto simp: rows_where_def)
  have "fold (\<lambda>i u. u[i := (u ! i)\<lparr>is_ghost := ?G (t ! i)\<rparr>]) (rows_where ?Q t) t =
      map (\<lambda>i. if i \<in> set (rows_where ?Q t) then (t ! i)\<lparr>is_ghost := ?G (t ! i)\<rparr> else t ! i) [0..<length t]"
    by (rule fold_rows [OF r])
  also have "\<dots> = map (\<lambda>i. if ?Q (t ! i) then flagged L F (t ! i) else t ! i) [0..<length t]"
    using Some by (auto simp: rows_where_iff flagged_def missing_upstream_def)
  also have "\<dots> = map (\<lambda>p. if ?Q p then flagged L F p else p) (map ((!) t) [0..<length t])" by simp
  finally have f: "fold (\<lambda>i u. u[i := (u ! i)\<lparr>is_ghost := ?G (t ! i)\<rparr>]) (rows_where ?Q t) t =
      map (\<lambda>p. if ?Q p then flagged L F p else p) t" by (simp add: map_nth)
  have "length (filter (\<lambda>i. ?G (t ! i)) (rows_where ?Q t)) = length (filter (\<lambda>p. ?Q p \<and> ?G p) t)" by (rule rows_count)
  also have "filter (\<lambda>p. ?Q p \<and> ?G p) t = filter (\<lambda>p. ?Q p \<and> missing_upstream L F p = Some True) t"
    using Some by (intro filter_cong) (auto simp: missing_upstream_def)
  finally show ?thesis using Some f by (simp add: flag_ghost_packages_def Let_def)
qed


lemma flagged_keeps [simp]:
  "group_key (flagged L F p) = group_key p" "upstream_checked F (flagged L F p) = upstream_checked F p"
  "missing_upstream L F (flagged L F p) = missing_upstream L F p"
  by (simp_all add: flagged_def group_key_def upstream_checked_def missing_upstream_def split: option.split)

lemma flag_groups:
  "distinct (map fst gs) \<Longrightarrow> \<forall>(k, g)\<in>set gs. g = rows_where (\<lambda>p. upstream_checked F p \<and> group_key p = k) t \<Longrightarrow>
   fold (\<lambda>grp (n, t). case flag_ghost_packages L F grp t of (m, t) \<Rightarrow> (n + m, t)) gs (n, t) =
     (n + length (filter (\<lambda>p. (upstream_checked F p \<and> group_key p \<in> fst ` set gs) \<and> missing_upstream L F p = Some True) t),
      map (\<lambda>p. if upstream_checked F p \<and> group_key p \<in> fst ` set gs then flagged L F p else p) t)"
proof (induction gs arbitrary: n t)
  case (Cons x gs)
  obtain k g where x: "x = (k, g)" by force
  let ?P = "upstream_checked F" and ?ks = "fst ` set gs"
  let ?f = "\<lambda>p. if ?P p \<and> group_key p = k then flagged L F p else p"
  let ?t = "map ?f t"
  have g: "g = rows_where (\<lambda>p. ?P p \<and> group_key p = k) t" and k: "k \<notin> ?ks" "distinct (map fst gs)" using Cons.prems x by auto
  have same: "?P (?f p) = ?P p" "group_key (?f p) = group_key p" "missing_upstream L F (?f p) = missing_upstream L F p" for p by auto
  have "rows_where (\<lambda>p. ?P p \<and> group_key p = k') ?t = rows_where (\<lambda>p. ?P p \<and> group_key p = k') t" for k'
    unfolding rows_where_def length_map by (rule filter_cong) (simp_all add: same split del: if_split)
  then have "\<forall>(k, g)\<in>set gs. g = rows_where (\<lambda>p. ?P p \<and> group_key p = k) ?t" using Cons.prems(2) by auto
  note IH = Cons.IH [OF k(2) this]
  have "length (filter (\<lambda>p. (?P p \<and> group_key p \<in> ?ks) \<and> missing_upstream L F p = Some True) ?t) =
      length (filter (\<lambda>p. (?P p \<and> group_key p \<in> ?ks) \<and> missing_upstream L F p = Some True) t)"
    unfolding filter_map length_map comp_def same by simp
  moreover have "length (filter (\<lambda>p. (?P p \<and> group_key p = k) \<and> missing_upstream L F p = Some True) t) +
      length (filter (\<lambda>p. (?P p \<and> group_key p \<in> ?ks) \<and> missing_upstream L F p = Some True) t) =
      length (filter (\<lambda>p. (?P p \<and> group_key p \<in> insert k ?ks) \<and> missing_upstream L F p = Some True) t)"
    using k(1) by (induction t) auto
  moreover have "map (\<lambda>p. if ?P p \<and> group_key p \<in> ?ks then flagged L F p else p) ?t =
      map (\<lambda>p. if ?P p \<and> group_key p \<in> insert k ?ks then flagged L F p else p) t"
    using k(1) by auto
  ultimately show ?case using IH unfolding x g by (simp add: flag_group)
qed simp

text \<open>
  C28: The pipeline gives every package it looks at, whose package URL can be looked up upstream, the flag
  that says whether upstream lacks its version, and keeps the flags of all others; it counts the packages
  it flags.
\<close>

theorem ghosts_exact:
  "detect_and_flag_ghost_packages L F t =
     (length (filter (\<lambda>p. upstream_checked F p \<and> missing_upstream L F p = Some True) t),
      map (\<lambda>p. if upstream_checked F p then flagged L F p else p) t)"
proof -
  let ?gs = "package_groups (upstream_checked F) t"
  note g = package_groups_ok [of "upstream_checked F" t]
  have k: "(upstream_checked F p \<and> group_key p \<in> fst ` set ?gs) = upstream_checked F p" if "p \<in> set t" for p
    using that g by auto
  have d: "detect_and_flag_ghost_packages L F t =
      fold (\<lambda>grp (n, t). case flag_ghost_packages L F grp t of (m, t) \<Rightarrow> (n + m, t)) ?gs (0, t)"
    by (simp add: detect_and_flag_ghost_packages_def upstream_checked_def [abs_def])
  have f: "filter (\<lambda>p. (upstream_checked F p \<and> group_key p \<in> fst ` set ?gs) \<and> missing_upstream L F p = Some True) t =
      filter (\<lambda>p. upstream_checked F p \<and> missing_upstream L F p = Some True) t"
    using k by (intro filter_cong) auto
  have m: "map (\<lambda>p. if upstream_checked F p \<and> group_key p \<in> fst ` set ?gs then flagged L F p else p) t =
      map (\<lambda>p. if upstream_checked F p then flagged L F p else p) t"
    using k by (intro map_cong) auto
  from flag_groups [of ?gs F t L 0] g show ?thesis unfolding d f m by simp
qed

section \<open>Risk\<close>

text \<open>
  C29: The step for packages is the bulk computation for all packages.
\<close>

theorem package_risk_step_is_bulk:
  assumes "refs_ok db"
  shows "compute_and_store_package_risk_score round1 db =
    compute_package_risk_score_bulk round1 [0..<length (t_packages db)] db"
proof -
  let ?url = "\<lambda>k. package_url (t_packages db ! k)" and ?n = "length (t_advisories db)" and ?m = "length (t_packages db)"
  have pk: "adv_pk (advisory_view db i) = i" for i by (simp add: advisory_view_def Let_def)
  have adv: "map adv_pk (filter P (advisory_table db)) = filter (\<lambda>i. P (advisory_view db i)) [0..<?n]" for P
    by (simp add: advisory_table_def filter_map comp_def pk)
  have "filter (\<lambda>i. list_ex (\<lambda>im. im_advisory im = i \<and> k \<in> set (im_affecting im)) (t_impacts db))
        (map adv_pk (latest_affecting_advisories_for_purls (advisory_table db) (map ?url [0..<?m]))) =
      filter (\<lambda>i. list_ex (\<lambda>im. im_advisory im = i \<and> k \<in> set (im_affecting im)) (t_impacts db))
        (map adv_pk (latest_completely_imported_advisories_per_avid (advisory_table db)))" if "k < ?m" for k
    unfolding latest_affecting_advisories_for_purls_def latest_completely_imported_advisories_per_avid_def adv filter_filter
    by (rule filter_cong) (use that view_relates(1) [OF assms that] in \<open>auto simp: list_ex_iff intro!: bexI [of _ k]\<close>)
  then show ?thesis
    by (auto simp: compute_and_store_package_risk_score_def compute_package_risk_score_bulk_def Let_def
        enumerate_eq_zip set_zip intro!: arg_cong [where f = "\<lambda>p. db\<lparr>t_packages := p\<rparr>"] split: option.split)
qed


text \<open>
  An advisory that has lost its severities keeps the risk it had, beside a weighted severity of 0; a
  computation from scratch finds no risk.
\<close>

lemma stale_advisory_risk:
  "let r = t_advisories (compute_and_store_vulnerability_risk_score demo_unfurl_env (\<lambda>_. 0) (\<lambda>_. []) demo_scored_db) ! 0
   in (av_severities r, av_weighted_severity r, av_risk_score r) = ([], Some 0, Some 7) \<and>
      compute_advisory_risk_score (env_round1 demo_unfurl_env) (env_float demo_unfurl_env) [] [] [] 0 = (Some 0, Some (1/2), None)"
  by code_simp

lemma package_risk_step_is_bulk_witness:
  "compute_and_store_package_risk_score id demo_scored_db =
     compute_package_risk_score_bulk id [0..<length (t_packages demo_scored_db)] demo_scored_db"
proof (rule package_risk_step_is_bulk)
  have "t_impacts demo_scored_db = t_impacts demo_unfurled_db" "t_packages demo_scored_db = t_packages demo_unfurled_db"
    by (simp_all add: demo_scored_db_def)
  then show "refs_ok demo_scored_db"
    using unfurl_run_ok [OF demo_six_law demo_mark_ok(1) demo_unfurled] tables_refs by (auto simp: refs_ok_def)
qed

end
