(* ===== verification/Vulnerabilities.thy ===== *)
theory Vulnerabilities
  imports AdvisoryImport
begin

text \<open>
  The tables of the first generation (\<open>vulnerabilities/models.py\<close>): vulnerabilities, their aliases,
  references, severities and weaknesses, packages, the two relations between packages and
  vulnerabilities, and the change logs; and the operations on them of
  \<open>vulnerabilities/import_runner.py\<close> and \<open>pipes/advisory.py\<close>. The widths of text columns are not
  modelled; the validator of URL fields and the random part of a new identifier are parameters.
\<close>

section \<open>The tables\<close>

record alias_v1 =
  al_name :: string
  al_vuln :: "nat option"

record vulnerability =
  vu_id :: string
  vu_summary :: string
  vu_references :: "nat list"
  vu_severities :: "nat list"
  vu_weaknesses :: "nat list"

record relation_v1 =
  re_vuln :: nat
  re_package :: nat
  re_created_by :: string
  re_confidence :: int

datatype log_action = Log_import | Log_improve | Log_affected_by | Log_fixing

record log_entry =
  lg_action :: log_action
  lg_subject :: nat
  lg_actor :: string
  lg_url :: "string option"
  lg_related :: "string option"

record 'd advisory_v1 =
  a1_content_id :: string
  a1_aliases :: "nat list"
  a1_summary :: string
  a1_affected :: "json list"
  a1_references :: "json list"
  a1_published :: "'d option"
  a1_weaknesses :: "int list"
  a1_created_by :: string
  a1_imported :: "int option"
  a1_url :: string

record 'd v1_db =
  v_aliases :: "alias_v1 list"
  v_vulns :: "vulnerability list"
  v_references :: "reference list"
  v_severities :: "sev_row list"
  v_packages :: "package_row list"
  v_affected :: "relation_v1 list"
  v_fixing :: "relation_v1 list"
  v_weaknesses :: "int list"
  v_log :: "log_entry list"
  v_advisories :: "'d advisory_v1 list"

text \<open>
  \<open>vcid n\<close> is the identifier \<open>build_vcid\<close> draws for the \<open>n\<close>-th row, \<open>importer_name\<close> is
  \<open>get_importer_name\<close>, the name in the registry of importers.
\<close>

record ('r, 'v, 'd) v1_env =
  v1_imp :: "('r, 'v, 'd) import_env"
  vcid :: "nat \<Rightarrow> string"
  valid_url :: "string \<Rightarrow> bool"
  importer_name :: "string \<Rightarrow> string"

section \<open>Aliases and vulnerabilities\<close>

definition get_or_create_aliases :: "string list \<Rightarrow> alias_v1 list \<Rightarrow> nat list \<times> alias_v1 list" where
  "get_or_create_aliases names t =
     (let t' = fold (\<lambda>n t. if n \<in> al_name ` set t then t else t @ [\<lparr>al_name = n, al_vuln = None\<rparr>]) names t
      in (rows_where (\<lambda>a. al_name a \<in> set names) t', t'))"

definition get_vulns_for_aliases_and_get_new_aliases :: "nat list \<Rightarrow> alias_v1 list \<Rightarrow> nat list \<times> nat list" where
  "get_vulns_for_aliases_and_get_new_aliases ids t =
     (filter (\<lambda>a. al_vuln (t ! a) = None) ids,
      dedupe (concat (map (\<lambda>a. case al_vuln (t ! a) of None \<Rightarrow> [] | Some v \<Rightarrow> [v]) ids)))"

definition associate_vulnerability_with_aliases :: "nat list \<Rightarrow> nat \<Rightarrow> alias_v1 list \<Rightarrow> alias_v1 list" where
  "associate_vulnerability_with_aliases ids v t =
     map (\<lambda>(i, a). if i \<in> set ids then a\<lparr>al_vuln := Some v\<rparr> else a) (enumerate 0 t)"

definition add_log :: "log_entry \<Rightarrow> log_entry list \<Rightarrow> log_entry list" where
  "add_log e t = (if e \<in> set t then t else t @ [e])"

text \<open>
  \<open>create_vulnerability_and_add_aliases\<close> is one transaction: a taken identifier, a null summary and a
  vulnerability without an alias undo it.
\<close>

definition create_vulnerability_and_add_aliases ::
    "('r, 'v, 'd) v1_env \<Rightarrow> nat list \<Rightarrow> string option \<Rightarrow> 'd v1_db \<Rightarrow> (nat \<times> 'd v1_db) result" where
  "create_vulnerability_and_add_aliases E new summary db =
     (let v = length (v_vulns db);
          aliases = associate_vulnerability_with_aliases new v (v_aliases db)
      in if list_ex (\<lambda>r. vu_id r = vcid E v) (v_vulns db) \<or> summary = None then Inl IntegrityError
         else if \<not> list_ex (\<lambda>a. al_vuln a = Some v) aliases then Inl PlainException
         else Inr (v, db\<lparr>v_vulns := v_vulns db @ [\<lparr>vu_id = vcid E v, vu_summary = the summary,
                           vu_references = [], vu_severities = [], vu_weaknesses = []\<rparr>],
                         v_aliases := aliases\<rparr>))"

definition log_import :: "('r, 'v, 'd) v1_env \<Rightarrow> 'd advisory_v1 \<Rightarrow> nat \<Rightarrow> 'd v1_db \<Rightarrow> 'd v1_db" where
  "log_import E adv v db = db\<lparr>v_log := add_log \<lparr>lg_action = Log_import, lg_subject = v,
     lg_actor = importer_name E (a1_created_by adv), lg_url = Some (a1_url adv), lg_related = None\<rparr> (v_log db)\<rparr>"

text \<open>No vulnerability when the aliases name two, or another one than is asked for; the reason is logged.\<close>

definition get_or_create_vulnerability_and_aliases ::
    "('r, 'v, 'd) v1_env \<Rightarrow> nat list \<Rightarrow> string option \<Rightarrow> string option \<Rightarrow> 'd advisory_v1 \<Rightarrow> 'd v1_db \<Rightarrow>
       nat option \<times> 'd v1_db" where
  "get_or_create_vulnerability_and_aliases E ids vid summary adv db =
     (let (new, existing) = get_vulns_for_aliases_and_get_new_aliases ids (v_aliases db);
          found = (\<lambda>v. (Some v, db\<lparr>v_aliases := associate_vulnerability_with_aliases new v (v_aliases db)\<rparr>))
      in case existing of
           [v] \<Rightarrow> if truthy_opt vid \<and> Some (vu_id (v_vulns db ! v)) \<noteq> vid then (None, db) else found v
         | [] \<Rightarrow>
             if truthy_opt vid then
               (case rows_where (\<lambda>r. Some (vu_id r) = vid) (v_vulns db) of [] \<Rightarrow> (None, db) | v # _ \<Rightarrow> found v)
             else (case create_vulnerability_and_add_aliases E new summary db of
                     Inl _ \<Rightarrow> (None, db) | Inr (v, db) \<Rightarrow> (Some v, log_import E adv v db))
         | _ \<Rightarrow> (None, db))"

section \<open>References and severities\<close>

record 'd reference_v1 =
  r1_id :: string
  r1_type :: string
  r1_url :: string
  r1_severities :: "'d severity list"

definition change_vuln :: "nat \<Rightarrow> (vulnerability \<Rightarrow> vulnerability) \<Rightarrow> 'd v1_db \<Rightarrow> 'd v1_db" where
  "change_vuln v f db = db\<lparr>v_vulns := (v_vulns db)[v := f (v_vulns db ! v)]\<rparr>"

definition insert_new :: "nat \<Rightarrow> nat list \<Rightarrow> nat list" where
  "insert_new i is = (if i \<in> set is then is else is @ [i])"

text \<open>
  \<open>create_valid_vulnerability_reference\<close> creates no reference whose URL is not one or is taken, and
  logs it.
\<close>

definition create_valid_vulnerability_reference ::
    "('r, 'v, 'd) v1_env \<Rightarrow> string \<Rightarrow> string \<Rightarrow> reference list \<Rightarrow> nat option \<times> reference list" where
  "create_valid_vulnerability_reference E i url t =
     (if valid_url E url \<and> \<not> list_ex (\<lambda>r. ref_url r = url) t
      then (Some (length t), t @ [\<lparr>ref_id = i, ref_type = [], ref_url = url\<rparr>]) else (None, t))"

definition add_reference :: "('r, 'v, 'd) v1_env \<Rightarrow> nat \<Rightarrow> 'd reference_v1 \<Rightarrow> 'd v1_db \<Rightarrow> 'd v1_db" where
  "add_reference E v ref db =
     (let (found, t) = (case rows_where (\<lambda>r. ref_id r = r1_id ref \<and> ref_url r = r1_url ref) (v_references db) of
            i # _ \<Rightarrow> (Some i, v_references db)
          | [] \<Rightarrow> create_valid_vulnerability_reference E (r1_id ref) (r1_url ref) (v_references db));
          db = db\<lparr>v_references := t\<rparr>
      in case found of None \<Rightarrow> db
         | Some i \<Rightarrow> change_vuln v (\<lambda>r. r\<lparr>vu_references := insert_new i (vu_references r)\<rparr>) db)"

text \<open>Two rows for a severity raise; the exception is logged and the severity left out.\<close>

definition add_severity :: "('r, 'v, 'd) v1_env \<Rightarrow> nat \<Rightarrow> string \<Rightarrow> 'd severity \<Rightarrow> 'd v1_db \<Rightarrow> 'd v1_db" where
  "add_severity E v url s db =
     (let row = (sev_row_of (env_date_str (v1_imp E)) s)\<lparr>sr_url := Some url\<rparr>;
          relate = (\<lambda>i. change_vuln v (\<lambda>r. r\<lparr>vu_severities := insert_new i (vu_severities r)\<rparr>))
      in case rows_where (\<lambda>r. sev_row_key r = sev_row_key row) (v_severities db) of
           [] \<Rightarrow> relate (length (v_severities db)) (db\<lparr>v_severities := v_severities db @ [row]\<rparr>)
         | [i] \<Rightarrow> relate i (db\<lparr>v_severities := (v_severities db)[i := (v_severities db ! i)\<lparr>sr_published := sr_published row\<rparr>]\<rparr>)
         | _ \<Rightarrow> db)"

definition add_references :: "('r, 'v, 'd) v1_env \<Rightarrow> nat \<Rightarrow> 'd reference_v1 list \<Rightarrow> 'd v1_db \<Rightarrow> 'd v1_db" where
  "add_references E v refs =
     fold (\<lambda>ref db. fold (add_severity E v (r1_url ref)) (r1_severities ref) (add_reference E v ref db)) refs"

section \<open>Packages, their relations, weaknesses\<close>

text \<open>\<open>Package.objects.get_or_create(**purl_to_dict(purl))\<close>; \<open>save\<close> normalises the fields.\<close>

definition new_package_v1 :: "purl_lib \<Rightarrow> (string \<times> string) list \<Rightarrow> package_row result" where
  "new_package_v1 L d =
     bind_result (bind_result (lib_of_fields L d) (\<lambda>q. normalize_purl L (PObj q))) (\<lambda>n.
     bind_result (purl_to_dict L (PObj n) True) (\<lambda>fields.
     map_sum id (\<lambda>pl. \<lparr>pkg_fields = fields, package_url = lib_to_string L n,
       plain_package_url = lib_to_string L pl, is_ghost = False, pkg_risk_score = None, version_rank = 0\<rparr>)
       (plain_purl L (PObj n))))"

definition same_fields :: "(string \<times> string) list \<Rightarrow> (string \<times> string) list \<Rightarrow> bool" where
  "same_fields d e \<longleftrightarrow> list_all (\<lambda>k. dict_get d k [] = dict_get e k []) unique_package_fields"

definition get_or_create_from_purl :: "purl_lib \<Rightarrow> purl \<Rightarrow> package_row list \<Rightarrow> (nat \<times> package_row list) result" where
  "get_or_create_from_purl L p t =
     bind_result (purl_to_dict L (PObj p) True) (\<lambda>d.
       (case rows_where (\<lambda>r. same_fields (pkg_fields r) d) t of
          i # _ \<Rightarrow> Inr (i, t)
        | [] \<Rightarrow> bind_result (new_package_v1 L d) (\<lambda>row.
            if list_ex (\<lambda>r. same_fields (pkg_fields r) (pkg_fields row)) t then Inl IntegrityError
            else Inr (length t, t @ [row]))))"

text \<open>\<open>update_or_create\<close> of a relation: a higher confidence replaces a lower one.\<close>

definition update_or_create_relation :: "relation_v1 \<Rightarrow> relation_v1 list \<Rightarrow> relation_v1 list" where
  "update_or_create_relation r t =
     (case rows_where (\<lambda>q. re_vuln q = re_vuln r \<and> re_package q = re_package r) t of
        [] \<Rightarrow> t @ [r]
      | i # _ \<Rightarrow> if re_confidence r > re_confidence (t ! i)
          then t[i := (t ! i)\<lparr>re_created_by := re_created_by r, re_confidence := re_confidence r\<rparr>] else t)"

definition package_log ::
    "('r, 'v, 'd) v1_env \<Rightarrow> 'd advisory_v1 \<Rightarrow> log_action \<Rightarrow> nat \<Rightarrow> nat \<Rightarrow> 'd v1_db \<Rightarrow> log_entry" where
  "package_log E adv action v k db = \<lparr>lg_action = action, lg_subject = k,
     lg_actor = importer_name E (a1_created_by adv), lg_url = (if a1_url adv = [] then None else Some (a1_url adv)),
     lg_related = Some (vu_id (v_vulns db ! v))\<rparr>"

definition add_affected ::
    "('r, 'v, 'd) v1_env \<Rightarrow> 'd advisory_v1 \<Rightarrow> string \<Rightarrow> int \<Rightarrow> nat \<Rightarrow> purl \<Rightarrow> 'd v1_db \<Rightarrow> 'd v1_db result" where
  "add_affected E adv created_by confidence v p db =
     map_sum id (\<lambda>(k, t). db\<lparr>v_packages := t,
         v_affected := update_or_create_relation \<lparr>re_vuln = v, re_package = k, re_created_by = created_by,
            re_confidence = confidence\<rparr> (v_affected db),
         v_log := add_log (package_log E adv Log_affected_by v k db) (v_log db)\<rparr>)
       (get_or_create_from_purl (purls (env_ext (v1_imp E))) p (v_packages db))"

definition add_fixing ::
    "('r, 'v, 'd) v1_env \<Rightarrow> 'd advisory_v1 \<Rightarrow> string \<Rightarrow> int \<Rightarrow> nat \<Rightarrow> purl \<Rightarrow> 'd v1_db \<Rightarrow> 'd v1_db result" where
  "add_fixing E adv created_by confidence v p db =
     map_sum id (\<lambda>(k, t). db\<lparr>v_packages := t,
         v_fixing := update_or_create_relation \<lparr>re_vuln = v, re_package = k, re_created_by = created_by,
            re_confidence = confidence\<rparr> (v_fixing db),
         v_log := add_log (package_log E adv Log_fixing v k db) (v_log db)\<rparr>)
       (get_or_create_from_purl (purls (env_ext (v1_imp E))) p (v_packages db))"

fun fold_result :: "('a \<Rightarrow> 's \<Rightarrow> 's result) \<Rightarrow> 'a list \<Rightarrow> 's \<Rightarrow> 's result" where
  "fold_result f [] s = Inr s"
| "fold_result f (x # xs) s = bind_result (f x s) (fold_result f xs)"

definition add_weakness :: "nat \<Rightarrow> int \<Rightarrow> 'd v1_db \<Rightarrow> 'd v1_db" where
  "add_weakness v cwe db =
     (let (i, t) = (case rows_where (\<lambda>w. w = cwe) (v_weaknesses db) of
            i # _ \<Rightarrow> (i, v_weaknesses db) | [] \<Rightarrow> (length (v_weaknesses db), v_weaknesses db @ [cwe]))
      in change_vuln v (\<lambda>r. r\<lparr>vu_weaknesses := insert_new i (vu_weaknesses r)\<rparr>) (db\<lparr>v_weaknesses := t\<rparr>))"

definition relate_vulnerability ::
    "('r, 'v, 'd) v1_env \<Rightarrow> 'd advisory_v1 \<Rightarrow> string \<Rightarrow> int \<Rightarrow> nat \<Rightarrow> 'd reference_v1 list \<Rightarrow> purl list \<Rightarrow> purl list \<Rightarrow>
       int list \<Rightarrow> 'd v1_db \<Rightarrow> 'd v1_db result" where
  "relate_vulnerability E adv created_by confidence v refs affected fixed weaknesses db =
     bind_result (fold_result (add_affected E adv created_by confidence v) affected (add_references E v refs db)) (\<lambda>db.
       map_sum id (fold (add_weakness v) weaknesses) (fold_result (add_fixing E adv created_by confidence v) fixed db))"

section \<open>What every operation keeps\<close>

text \<open>
  The constraints of the tables, and: every alias names an existing vulnerability or none, every
  vulnerability has an alias, and relations are between existing rows.
\<close>

definition aliases_ok :: "alias_v1 list \<Rightarrow> vulnerability list \<Rightarrow> bool" where
  "aliases_ok t vs \<longleftrightarrow> distinct (map al_name t) \<and> (\<forall>a\<in>set t. \<forall>v. al_vuln a = Some v \<longrightarrow> v < length vs) \<and>
     (\<forall>v<length vs. \<exists>a\<in>set t. al_vuln a = Some v)"

definition relations_ok :: "relation_v1 list \<Rightarrow> vulnerability list \<Rightarrow> package_row list \<Rightarrow> bool" where
  "relations_ok t vs ps \<longleftrightarrow> distinct (map (\<lambda>r. (re_vuln r, re_package r)) t) \<and>
     (\<forall>r\<in>set t. re_vuln r < length vs \<and> re_package r < length ps)"

definition v1_ok :: "'d v1_db \<Rightarrow> bool" where
  "v1_ok db \<longleftrightarrow> aliases_ok (v_aliases db) (v_vulns db) \<and> distinct (map vu_id (v_vulns db)) \<and>
     relations_ok (v_affected db) (v_vulns db) (v_packages db) \<and> relations_ok (v_fixing db) (v_vulns db) (v_packages db) \<and>
     distinct (map ref_url (v_references db)) \<and> distinct (map a1_content_id (v_advisories db))"

text \<open>
  What only grows: an alias keeps its vulnerability, a vulnerability its identifier, a relation between a
  package and a vulnerability its confidence or a higher one, an advisory that is imported stays so.
\<close>

definition aliases_grow :: "alias_v1 list \<Rightarrow> alias_v1 list \<Rightarrow> bool" where
  "aliases_grow t t' \<longleftrightarrow> length t \<le> length t' \<and> (\<forall>i<length t. al_name (t' ! i) = al_name (t ! i) \<and>
     (al_vuln (t ! i) = None \<or> al_vuln (t' ! i) = al_vuln (t ! i)))"

definition vulns_grow :: "vulnerability list \<Rightarrow> vulnerability list \<Rightarrow> bool" where
  "vulns_grow t t' \<longleftrightarrow> length t \<le> length t' \<and> (\<forall>i<length t. vu_id (t' ! i) = vu_id (t ! i) \<and>
     vu_summary (t' ! i) = vu_summary (t ! i) \<and> set (vu_references (t ! i)) \<subseteq> set (vu_references (t' ! i)) \<and>
     set (vu_severities (t ! i)) \<subseteq> set (vu_severities (t' ! i)) \<and> set (vu_weaknesses (t ! i)) \<subseteq> set (vu_weaknesses (t' ! i)))"

definition relations_grow :: "relation_v1 list \<Rightarrow> relation_v1 list \<Rightarrow> bool" where
  "relations_grow t t' \<longleftrightarrow> (\<forall>r\<in>set t. \<exists>r'\<in>set t'. re_vuln r' = re_vuln r \<and> re_package r' = re_package r \<and>
     re_confidence r \<le> re_confidence r')"

definition advisories_grow :: "'d advisory_v1 list \<Rightarrow> 'd advisory_v1 list \<Rightarrow> bool" where
  "advisories_grow t t' \<longleftrightarrow> length t \<le> length t' \<and> (\<forall>i<length t. a1_content_id (t' ! i) = a1_content_id (t ! i) \<and>
     a1_created_by (t' ! i) = a1_created_by (t ! i) \<and> a1_published (t' ! i) = a1_published (t ! i) \<and>
     (a1_imported (t ! i) = None \<or> a1_imported (t' ! i) \<noteq> None))"

definition v1_grows :: "'d v1_db \<Rightarrow> 'd v1_db \<Rightarrow> bool" where
  "v1_grows db db' \<longleftrightarrow> aliases_grow (v_aliases db) (v_aliases db') \<and> vulns_grow (v_vulns db) (v_vulns db') \<and>
     relations_grow (v_affected db) (v_affected db') \<and> relations_grow (v_fixing db) (v_fixing db') \<and>
     advisories_grow (v_advisories db) (v_advisories db') \<and> take (length (v_packages db)) (v_packages db') = v_packages db"

definition v1_keeps :: "'d v1_db \<Rightarrow> 'd v1_db \<Rightarrow> bool" where
  "v1_keeps db db' \<longleftrightarrow> (v1_ok db \<longrightarrow> v1_ok db' \<and> v1_grows db db')"

lemma grow_refl [simp]:
  "aliases_grow a a" "vulns_grow v v" "relations_grow r r" "advisories_grow d d" "v1_grows db db" "v1_keeps db db"
  by (auto simp: aliases_grow_def vulns_grow_def relations_grow_def advisories_grow_def v1_grows_def v1_keeps_def)

lemma aliases_grow_trans: "aliases_grow a b \<Longrightarrow> aliases_grow b c \<Longrightarrow> aliases_grow a c"
  unfolding aliases_grow_def by (metis order.strict_trans2 order.trans)

lemma vulns_grow_trans: "vulns_grow a b \<Longrightarrow> vulns_grow b c \<Longrightarrow> vulns_grow a c"
  unfolding vulns_grow_def by (smt (verit) order.strict_trans2 order.trans)

lemma relations_grow_trans: "relations_grow a b \<Longrightarrow> relations_grow b c \<Longrightarrow> relations_grow a c"
  unfolding relations_grow_def by (metis order.trans)

lemma advisories_grow_trans: "advisories_grow a b \<Longrightarrow> advisories_grow b c \<Longrightarrow> advisories_grow a c"
  unfolding advisories_grow_def by (metis order.strict_trans2 order.trans)

lemma prefix_trans: "take (length a) b = a \<Longrightarrow> take (length b) c = b \<Longrightarrow> take (length a) c = a"
  by (metis append_eq_conv_conj append_take_drop_id append.assoc)

lemma v1_grows_trans: "v1_grows a b \<Longrightarrow> v1_grows b c \<Longrightarrow> v1_grows a c"
  unfolding v1_grows_def by (blast intro: aliases_grow_trans vulns_grow_trans relations_grow_trans advisories_grow_trans prefix_trans)

lemma v1_keeps_trans: "v1_keeps a b \<Longrightarrow> v1_keeps b c \<Longrightarrow> v1_keeps a c"
  unfolding v1_keeps_def by (blast intro: v1_grows_trans)

lemma fold_keeps: "(\<And>x s. v1_keeps s (f x s)) \<Longrightarrow> v1_keeps s (fold f xs s)"
  by (induction xs arbitrary: s) (auto intro: v1_keeps_trans)

text \<open>Operations on a vulnerability that exists.\<close>

lemma fold_result_keeps:
  assumes "\<And>x s s'. f x s = Inr s' \<Longrightarrow> v < length (v_vulns s) \<Longrightarrow> v1_keeps s s' \<and> v < length (v_vulns s')"
  shows "fold_result f xs s = Inr s' \<Longrightarrow> v < length (v_vulns s) \<Longrightarrow> v1_keeps s s' \<and> v < length (v_vulns s')"
proof (induction xs arbitrary: s)
  case (Cons x xs)
  from Cons.prems(1) obtain s1 where 1: "f x s = Inr s1" "fold_result f xs s1 = Inr s'" by (auto simp: bind_result_Inr)
  from assms [OF 1(1) Cons.prems(2)] Cons.IH [OF 1(2)] show ?case by (blast intro: v1_keeps_trans)
qed simp

section \<open>Aliases\<close>

lemma new_aliases:
  "\<exists>new. fold (\<lambda>n t. if n \<in> al_name ` set t then t else t @ [\<lparr>al_name = n, al_vuln = None\<rparr>]) names t = t @ new \<and>
     (\<forall>a\<in>set new. al_vuln a = None) \<and> al_name ` set (t @ new) = al_name ` set t \<union> set names \<and>
     (distinct (map al_name t) \<longrightarrow> distinct (map al_name (t @ new)))"
proof (induction names arbitrary: t)
  case (Cons n names)
  show ?case
  proof (cases "n \<in> al_name ` set t")
    case True
    with Cons [of t] show ?thesis by auto
  next
    case False
    from Cons [of "t @ [\<lparr>al_name = n, al_vuln = None\<rparr>]"] obtain new where new:
      "fold (\<lambda>n t. if n \<in> al_name ` set t then t else t @ [\<lparr>al_name = n, al_vuln = None\<rparr>]) names
         (t @ [\<lparr>al_name = n, al_vuln = None\<rparr>]) = t @ \<lparr>al_name = n, al_vuln = None\<rparr> # new"
      "\<forall>a\<in>set new. al_vuln a = None" "al_name ` set (t @ \<lparr>al_name = n, al_vuln = None\<rparr> # new) = insert n (al_name ` set t \<union> set names)"
      "distinct (map al_name (t @ [\<lparr>al_name = n, al_vuln = None\<rparr>])) \<longrightarrow> distinct (map al_name (t @ \<lparr>al_name = n, al_vuln = None\<rparr> # new))"
      by auto
    show ?thesis using False new by (intro exI [of _ "\<lparr>al_name = n, al_vuln = None\<rparr> # new"]) auto
  qed
qed simp

lemma get_or_create_aliases_ok:
  assumes "get_or_create_aliases names t = (ids, t')"
  shows "\<exists>new. t' = t @ new \<and> (\<forall>a\<in>set new. al_vuln a = None) \<and> set ids = {i. i < length t' \<and> al_name (t' ! i) \<in> set names} \<and>
     distinct ids \<and> al_name ` (!) t' ` set ids = set names \<and> (distinct (map al_name t) \<longrightarrow> distinct (map al_name t'))"
proof -
  obtain new where new: "t' = t @ new" "\<forall>a\<in>set new. al_vuln a = None" "al_name ` set t' = al_name ` set t \<union> set names"
    "distinct (map al_name t) \<longrightarrow> distinct (map al_name t')" "ids = rows_where (\<lambda>a. al_name a \<in> set names) t'"
    using new_aliases [of names t] assms by (auto simp: get_or_create_aliases_def Let_def)
  have st: "set ids = {i. i < length t' \<and> al_name (t' ! i) \<in> set names}" unfolding new(5) by (auto simp: rows_where_def)
  have "al_name ` (!) t' ` set ids = {n \<in> (\<lambda>i. al_name (t' ! i)) ` {i. i < length t'}. n \<in> set names}"
    unfolding image_image st by blast
  also have "(\<lambda>i. al_name (t' ! i)) ` {i. i < length t'} = al_name ` set t'" by (force simp: set_conv_nth)
  finally have "al_name ` (!) t' ` set ids = {n \<in> al_name ` set t'. n \<in> set names}" .
  then have "al_name ` (!) t' ` set ids = set names" using new(3) by auto
  moreover have "distinct ids" "set ids = {i. i < length t' \<and> al_name (t' ! i) \<in> set names}"
    unfolding new(5) by (auto simp: rows_where_def)
  ultimately show ?thesis using new(1,2,4) by blast
qed

lemma aliases_append_ok: "aliases_ok t vs \<Longrightarrow> \<forall>a\<in>set new. al_vuln a = None \<Longrightarrow> distinct (map al_name (t @ new)) \<Longrightarrow> aliases_ok (t @ new) vs"
  unfolding aliases_ok_def by auto

lemma get_or_create_aliases_keeps:
  assumes "get_or_create_aliases names (v_aliases db) = (ids, t')"
  shows "v1_keeps db (db\<lparr>v_aliases := t'\<rparr>)"
proof -
  obtain new where n: "t' = v_aliases db @ new" "\<forall>a\<in>set new. al_vuln a = None"
    "distinct (map al_name (v_aliases db)) \<longrightarrow> distinct (map al_name (v_aliases db @ new))"
    using get_or_create_aliases_ok [OF assms] by blast
  have "aliases_ok (v_aliases db) (v_vulns db) \<Longrightarrow> aliases_ok t' (v_vulns db)"
    unfolding n(1) using n(2,3) by (intro aliases_append_ok) (auto simp: aliases_ok_def)
  moreover have "aliases_grow (v_aliases db) t'" unfolding n(1) by (simp add: aliases_grow_def nth_append)
  ultimately show ?thesis by (simp add: v1_keeps_def v1_ok_def v1_grows_def)
qed

lemma associate_nth:
  "i < length t \<Longrightarrow> associate_vulnerability_with_aliases ids v t ! i = (if i \<in> set ids then (t ! i)\<lparr>al_vuln := Some v\<rparr> else t ! i)"
  "length (associate_vulnerability_with_aliases ids v t) = length t"
  by (simp_all add: associate_vulnerability_with_aliases_def nth_enumerate_eq)

lemma associate_names: "map al_name (associate_vulnerability_with_aliases ids v t) = map al_name t"
  by (rule nth_equalityI) (simp_all add: associate_nth)

text \<open>Unassigned aliases are given to a vulnerability that exists, or to one that is created for them.\<close>

lemma associate_ok:
  assumes "aliases_ok t vs" "\<forall>i\<in>set new. i < length t \<and> al_vuln (t ! i) = None" "v < length vs'"
    "length vs \<le> length vs'" "\<forall>w<length vs'. w < length vs \<or> w = v" "v < length vs \<or> new \<noteq> []"
  shows "aliases_ok (associate_vulnerability_with_aliases new v t) vs' \<and>
    aliases_grow t (associate_vulnerability_with_aliases new v t)"
proof -
  let ?t = "associate_vulnerability_with_aliases new v t"
  note nth = associate_nth(1) [of _ t new v] associate_nth(2) [of new v t]
  have d: "distinct (map al_name ?t)" using assms(1) by (simp add: associate_names aliases_ok_def)
  have r: "\<forall>a\<in>set ?t. \<forall>w. al_vuln a = Some w \<longrightarrow> w < length vs'"
  proof (clarify)
    fix a w assume "a \<in> set ?t" "al_vuln a = Some w"
    then obtain i where i: "i < length t" "a = ?t ! i" "al_vuln (?t ! i) = Some w" by (auto simp: in_set_conv_nth nth(2))
    show "w < length vs'"
    proof (cases "i \<in> set new")
      case True
      with i assms(3) show ?thesis by (simp add: nth)
    next
      case False
      with i have "t ! i \<in> set t" "al_vuln (t ! i) = Some w" by (simp_all add: nth)
      then have "w < length vs" using assms(1) by (auto simp: aliases_ok_def)
      with assms(4) show ?thesis by simp
    qed
  qed
  have c: "\<exists>a\<in>set ?t. al_vuln a = Some w" if w: "w < length vs'" for w
  proof (cases "w < length vs")
    case True
    then obtain a where "a \<in> set t" "al_vuln a = Some w" using assms(1) unfolding aliases_ok_def by blast
    then obtain i where i: "i < length t" "al_vuln (t ! i) = Some w" by (auto simp: in_set_conv_nth)
    with assms(2) have "?t ! i = t ! i" by (auto simp: nth)
    with i show ?thesis by (metis nth(2) nth_mem)
  next
    case False
    with assms(5,6) w obtain i where "i \<in> set new" "w = v" by (cases new) auto
    then have "i < length ?t" "al_vuln (?t ! i) = Some w" using assms(2) by (auto simp: nth)
    then show ?thesis by (meson nth_mem)
  qed
  have "aliases_grow t ?t" using assms(2) by (auto simp: aliases_grow_def nth)
  with d r c show ?thesis by (auto simp: aliases_ok_def)
qed

lemma vulns_append:
  "relations_ok t vs ps \<Longrightarrow> relations_ok t (vs @ [r]) ps" "vulns_grow vs (vs @ [r])"
  by (auto simp: relations_ok_def vulns_grow_def nth_append less_Suc_eq)

text \<open>The branches of \<open>get_or_create_vulnerability_and_aliases\<close>.\<close>

lemma existing_aliases:
  assumes "get_vulns_for_aliases_and_get_new_aliases ids t = (new, existing)"
  shows "set new = {i \<in> set ids. al_vuln (t ! i) = None}" "set existing = {v. \<exists>i\<in>set ids. al_vuln (t ! i) = Some v}"
proof -
  show "set new = {i \<in> set ids. al_vuln (t ! i) = None}"
    using assms by (auto simp: get_vulns_for_aliases_and_get_new_aliases_def)
  have "(\<exists>i\<in>set ids. v \<in> set (case al_vuln (t ! i) of None \<Rightarrow> [] | Some v \<Rightarrow> [v])) \<longleftrightarrow> (\<exists>i\<in>set ids. al_vuln (t ! i) = Some v)" for v
    by (auto split: option.splits; metis)
  then show "set existing = {v. \<exists>i\<in>set ids. al_vuln (t ! i) = Some v}"
    using assms by (auto simp: get_vulns_for_aliases_and_get_new_aliases_def)
qed

lemma vulnerability_for_aliases_ok:
  assumes ok: "v1_ok db" and ids: "\<forall>i\<in>set ids. i < length (v_aliases db)"
    and run: "get_or_create_vulnerability_and_aliases E ids vid summary adv db = (r, db')"
  shows "v1_ok db' \<and> v1_grows db db' \<and> v_advisories db' = v_advisories db \<and>
    (case r of None \<Rightarrow> db' = db
     | Some v \<Rightarrow> v < length (v_vulns db') \<and> list_all (\<lambda>i. al_vuln (v_aliases db' ! i) = Some v) ids \<and>
         length (v_aliases db') = length (v_aliases db) \<and>
         (\<forall>i<length (v_aliases db). i \<notin> set ids \<longrightarrow> v_aliases db' ! i = v_aliases db ! i))"
proof -
  obtain new existing where ne: "get_vulns_for_aliases_and_get_new_aliases ids (v_aliases db) = (new, existing)" by force
  note new = existing_aliases(1) [OF ne] and old = existing_aliases(2) [OF ne]
  have nw: "\<forall>i\<in>set new. i < length (v_aliases db) \<and> al_vuln (v_aliases db ! i) = None" using new ids by auto
  have aok: "aliases_ok (v_aliases db) (v_vulns db)" using ok by (simp add: v1_ok_def)
  have range: "v < length (v_vulns db)" if "v \<in> set existing" for v
    using that old aok ids by (auto simp: aliases_ok_def)
  let ?t = "\<lambda>v. associate_vulnerability_with_aliases new v (v_aliases db)"
  have all: "list_all (\<lambda>i. al_vuln (?t v ! i) = Some v) ids" if "set existing \<subseteq> {v}" for v
    unfolding list_all_iff
  proof
    fix i assume i: "i \<in> set ids"
    show "al_vuln (?t v ! i) = Some v"
    proof (cases "al_vuln (v_aliases db ! i)")
      case None
      with i new ids show ?thesis by (auto simp: associate_nth)
    next
      case (Some w)
      with i old that have "w = v" by auto
      with Some i new ids show ?thesis by (auto simp: associate_nth)
    qed
  qed
  have rest: "?t v ! i = v_aliases db ! i" if "i < length (v_aliases db)" "i \<notin> set ids" for v i
    using that new by (simp add: associate_nth)
  have found: ?thesis if "r = Some v" "db' = db\<lparr>v_aliases := ?t v\<rparr>" "v < length (v_vulns db)" "set existing \<subseteq> {v}" for v
  proof -
    have "aliases_ok (?t v) (v_vulns db) \<and> aliases_grow (v_aliases db) (?t v)"
      by (rule associate_ok [OF aok nw]) (use that in auto)
    then show ?thesis using that ok all [OF that(4)] rest by (simp add: v1_ok_def v1_grows_def associate_nth)
  qed
  have none: ?thesis if "r = None" "db' = db" using that ok by simp
  show ?thesis
  proof (cases existing)
    case Nil
    show ?thesis
    proof (cases "truthy_opt vid")
      case True
      show ?thesis
      proof (cases "rows_where (\<lambda>r. Some (vu_id r) = vid) (v_vulns db)")
        case (Cons v vs)
        then have "v < length (v_vulns db)" by (metis list.set_intros(1) rows_where_iff)
        then show ?thesis using run ne Nil True Cons
          by (intro found [of v]) (auto simp: get_or_create_vulnerability_and_aliases_def)
      next
        case Nil2: Nil
        show ?thesis using run ne Nil True Nil2 by (intro none) (auto simp: get_or_create_vulnerability_and_aliases_def)
      qed
    next
      case False
      show ?thesis
      proof (cases "create_vulnerability_and_add_aliases E new summary db")
        case (Inl e)
        then show ?thesis using run ne Nil False by (intro none) (auto simp: get_or_create_vulnerability_and_aliases_def)
      next
        case (Inr p)
        let ?v = "length (v_vulns db)"
        let ?row = "\<lparr>vu_id = vcid E ?v, vu_summary = the summary, vu_references = [], vu_severities = [], vu_weaknesses = []\<rparr>"
        have c: "\<not> list_ex (\<lambda>r. vu_id r = vcid E ?v) (v_vulns db)" "list_ex (\<lambda>a. al_vuln a = Some ?v) (?t ?v)"
          "p = (?v, db\<lparr>v_vulns := v_vulns db @ [?row], v_aliases := ?t ?v\<rparr>)"
          using Inr by (auto simp: create_vulnerability_and_add_aliases_def Let_def split: if_splits)
        then have r: "r = Some ?v" "db' = log_import E adv ?v (db\<lparr>v_vulns := v_vulns db @ [?row], v_aliases := ?t ?v\<rparr>)"
          using run ne Nil False Inr by (auto simp: get_or_create_vulnerability_and_aliases_def)
        have "new \<noteq> []"
        proof
          assume "new = []"
          then have "?t ?v = v_aliases db" by (intro nth_equalityI) (simp_all add: associate_nth)
          with c(2) aok show False by (auto simp: list_ex_iff aliases_ok_def)
        qed
        then have "aliases_ok (?t ?v) (v_vulns db @ [?row]) \<and> aliases_grow (v_aliases db) (?t ?v)"
          by (intro associate_ok [OF aok nw]) auto
        moreover have "distinct (map vu_id (v_vulns db @ [?row]))" using ok c(1) by (auto simp: v1_ok_def list_ex_iff)
        ultimately show ?thesis
          using ok r vulns_append all [of ?v] rest Nil by (simp add: v1_ok_def v1_grows_def log_import_def associate_nth)
      qed
    qed
  next
    case (Cons v vs)
    show ?thesis
    proof (cases "vs = [] \<and> \<not> (truthy_opt vid \<and> Some (vu_id (v_vulns db ! v)) \<noteq> vid)")
      case True
      then show ?thesis using run ne Cons range
        by (intro found [of v]) (auto simp: get_or_create_vulnerability_and_aliases_def)
    next
      case False
      then show ?thesis using run ne Cons
        by (intro none) (auto simp: get_or_create_vulnerability_and_aliases_def split: list.splits if_splits)
    qed
  qed
qed

section \<open>Relations of a vulnerability\<close>

definition extends_vuln :: "(vulnerability \<Rightarrow> vulnerability) \<Rightarrow> bool" where
  "extends_vuln f \<longleftrightarrow> (\<forall>r. vu_id (f r) = vu_id r \<and> vu_summary (f r) = vu_summary r \<and>
     set (vu_references r) \<subseteq> set (vu_references (f r)) \<and> set (vu_severities r) \<subseteq> set (vu_severities (f r)) \<and>
     set (vu_weaknesses r) \<subseteq> set (vu_weaknesses (f r)))"

lemma extends_insert_new [simp]:
  "extends_vuln (\<lambda>r. r\<lparr>vu_references := insert_new i (vu_references r)\<rparr>)"
  "extends_vuln (\<lambda>r. r\<lparr>vu_severities := insert_new i (vu_severities r)\<rparr>)"
  "extends_vuln (\<lambda>r. r\<lparr>vu_weaknesses := insert_new i (vu_weaknesses r)\<rparr>)"
  by (auto simp: extends_vuln_def insert_new_def)

lemma map_list_update_same: "(v < length t \<Longrightarrow> g x = g (t ! v)) \<Longrightarrow> map g (t[v := x]) = map g t"
  by (cases "v < length t") (auto simp: map_update list_update_same_conv list_update_beyond)

lemma rows_where_first: "rows_where P t = i # is \<Longrightarrow> i < length t \<and> P (t ! i)"
  by (metis list.set_intros(1) rows_where_iff)

lemma nth_update_if: "t[v := x] ! i = (if v = i \<and> v < length t then x else t ! i)"
  by (cases "v < length t") (auto simp: list_update_beyond nth_list_update)

lemma change_vuln_keeps:
  assumes "extends_vuln f"
  shows "v1_keeps db (change_vuln v f db)" "length (v_vulns (change_vuln v f db)) = length (v_vulns db)"
proof -
  have "map vu_id ((v_vulns db)[v := f (v_vulns db ! v)]) = map vu_id (v_vulns db)"
    using assms by (intro map_list_update_same) (simp add: extends_vuln_def)
  moreover have "vulns_grow (v_vulns db) ((v_vulns db)[v := f (v_vulns db ! v)])"
    using assms by (auto simp: vulns_grow_def extends_vuln_def nth_update_if)
  ultimately show "v1_keeps db (change_vuln v f db)"
    by (auto simp: v1_keeps_def v1_ok_def v1_grows_def change_vuln_def aliases_ok_def relations_ok_def)
qed (simp add: change_vuln_def)

lemma v1_keeps_tables:
  "v1_keeps db (db\<lparr>v_severities := s\<rparr>)" "v1_keeps db (db\<lparr>v_weaknesses := w\<rparr>)" "v1_keeps db (db\<lparr>v_log := l\<rparr>)"
  "(distinct (map ref_url (v_references db)) \<Longrightarrow> distinct (map ref_url t)) \<Longrightarrow> v1_keeps db (db\<lparr>v_references := t\<rparr>)"
  by (auto simp: v1_keeps_def v1_ok_def v1_grows_def)

lemma add_reference_keeps:
  "v1_keeps db (add_reference E v ref db) \<and> length (v_vulns (add_reference E v ref db)) = length (v_vulns db)"
proof -
  obtain found t where ft: "(case rows_where (\<lambda>r. ref_id r = r1_id ref \<and> ref_url r = r1_url ref) (v_references db) of
        i # _ \<Rightarrow> (Some i, v_references db)
      | [] \<Rightarrow> create_valid_vulnerability_reference E (r1_id ref) (r1_url ref) (v_references db)) = (found, t)" by force
  then have "distinct (map ref_url (v_references db)) \<Longrightarrow> distinct (map ref_url t)"
    by (auto simp: create_valid_vulnerability_reference_def list_ex_iff split: list.splits if_splits) blast
  note k = v1_keeps_tables(4) [OF this]
  then show ?thesis using ft
    by (cases found) (auto simp: add_reference_def change_vuln_keeps(2) intro: v1_keeps_trans [OF _ change_vuln_keeps(1)])
qed

lemma add_severity_keeps:
  "v1_keeps db (add_severity E v u s db) \<and> length (v_vulns (add_severity E v u s db)) = length (v_vulns db)"
  by (auto simp: add_severity_def Let_def change_vuln_keeps(2) split: list.split
      intro: v1_keeps_trans [OF v1_keeps_tables(1) change_vuln_keeps(1)])

lemma fold_length: "(\<And>x s. length (g (f x s)) = length (g s)) \<Longrightarrow> length (g (fold f xs s)) = length (g s)"
  by (induction xs arbitrary: s) simp_all

lemma add_references_keeps:
  "v1_keeps db (add_references E v refs db) \<and> length (v_vulns (add_references E v refs db)) = length (v_vulns db)"
proof -
  have "v1_keeps s (fold (add_severity E v (r1_url ref)) (r1_severities ref) (add_reference E v ref s))" for ref s
    by (rule v1_keeps_trans [OF conjunct1 [OF add_reference_keeps] fold_keeps]) (simp add: add_severity_keeps)
  moreover have "length (v_vulns (fold (add_severity E v (r1_url ref)) (r1_severities ref) (add_reference E v ref s))) = length (v_vulns s)" for ref s
    using add_reference_keeps [of s E v ref] by (simp add: fold_length [where g = v_vulns] add_severity_keeps)
  ultimately show ?thesis unfolding add_references_def by (simp add: fold_keeps fold_length [where g = v_vulns])
qed

lemma add_weakness_keeps:
  "v1_keeps db (add_weakness v c db) \<and> length (v_vulns (add_weakness v c db)) = length (v_vulns db)"
  by (auto simp: add_weakness_def Let_def change_vuln_keeps(2) split: prod.split
      intro: v1_keeps_trans [OF v1_keeps_tables(2) change_vuln_keeps(1)])

section \<open>Packages and their relations\<close>

text \<open>The row is the one with the fields of the package URL, or the one that is created for it.\<close>

definition names_package :: "purl_lib \<Rightarrow> purl \<Rightarrow> package_row \<Rightarrow> bool" where
  "names_package L p row \<longleftrightarrow> (case purl_to_dict L (PObj p) True of Inl _ \<Rightarrow> False
     | Inr d \<Rightarrow> same_fields (pkg_fields row) d \<or> new_package_v1 L d = Inr row)"

lemma get_or_create_from_purl_ok:
  "get_or_create_from_purl L p t = Inr (k, t') \<Longrightarrow>
   k < length t' \<and> (\<exists>new. t' = t @ new) \<and> names_package L p (t' ! k)"
proof -
  assume "get_or_create_from_purl L p t = Inr (k, t')"
  then obtain d where d: "purl_to_dict L (PObj p) True = Inr d"
    and r: "(case rows_where (\<lambda>r. same_fields (pkg_fields r) d) t of
          i # _ \<Rightarrow> Inr (i, t)
        | [] \<Rightarrow> bind_result (new_package_v1 L d) (\<lambda>row.
            if list_ex (\<lambda>r. same_fields (pkg_fields r) (pkg_fields row)) t then Inl IntegrityError
            else Inr (length t, t @ [row]))) = Inr (k, t')"
    unfolding get_or_create_from_purl_def bind_result_Inr by blast
  show ?thesis
  proof (cases "rows_where (\<lambda>r. same_fields (pkg_fields r) d) t")
    case Nil
    with r obtain row where "new_package_v1 L d = Inr row" "k = length t" "t' = t @ [row]"
      by (auto simp: bind_result_Inr split: if_splits)
    then show ?thesis using d by (simp add: names_package_def)
  next
    case (Cons i js)
    with r rows_where_first [OF Cons] d show ?thesis by (simp add: names_package_def)
  qed
qed

lemma update_or_create_ok:
  "relations_ok t vs ps \<Longrightarrow> re_vuln r < length vs \<Longrightarrow> re_package r < length ps \<Longrightarrow>
     relations_ok (update_or_create_relation r t) vs ps"
  "relations_grow t (update_or_create_relation r t)"
  "\<exists>q\<in>set (update_or_create_relation r t). re_vuln q = re_vuln r \<and> re_package q = re_package r \<and> re_confidence r \<le> re_confidence q"
proof -
  let ?P = "\<lambda>q. re_vuln q = re_vuln r \<and> re_package q = re_package r"
  have cases: "(\<forall>q\<in>set t. \<not> ?P q) \<and> update_or_create_relation r t = t @ [r] \<or>
     (\<exists>i<length t. ?P (t ! i) \<and> update_or_create_relation r t = (if re_confidence r > re_confidence (t ! i)
          then t[i := (t ! i)\<lparr>re_created_by := re_created_by r, re_confidence := re_confidence r\<rparr>] else t))"
  proof (cases "rows_where ?P t")
    case Nil
    then show ?thesis by (auto simp: update_or_create_relation_def rows_where_def filter_empty_conv in_set_conv_nth)
  next
    case (Cons i xs)
    then show ?thesis using rows_where_first [OF Cons]
      by (intro disjI2 exI [of _ i]) (simp add: update_or_create_relation_def)
  qed
  let ?u = "\<lambda>i. (t ! i)\<lparr>re_created_by := re_created_by r, re_confidence := re_confidence r\<rparr>"
  have keys: "map (\<lambda>q. (re_vuln q, re_package q)) (t[i := ?u i]) = map (\<lambda>q. (re_vuln q, re_package q)) t" for i
    by (rule map_list_update_same) simp
  show "relations_ok (update_or_create_relation r t) vs ps"
    if ok: "relations_ok t vs ps" "re_vuln r < length vs" "re_package r < length ps"
    using cases
  proof (elim disjE exE conjE)
    fix i assume i: "i < length t" and u: "update_or_create_relation r t = (if re_confidence r > re_confidence (t ! i) then t[i := ?u i] else t)"
    have "\<forall>q\<in>set (t[i := ?u i]). re_vuln q < length vs \<and> re_package q < length ps"
      using ok i set_update_subset_insert [of t i "?u i"] by (fastforce simp: relations_ok_def)
    with ok keys u show ?thesis by (auto simp: relations_ok_def)
  qed (use ok in \<open>auto simp: relations_ok_def\<close>)
  show "relations_grow t (update_or_create_relation r t)"
    using cases
  proof (elim disjE exE conjE)
    fix i assume i: "i < length t" and u: "update_or_create_relation r t = (if re_confidence r > re_confidence (t ! i) then t[i := ?u i] else t)"
    have "\<exists>q'\<in>set (t[i := ?u i]). re_vuln q' = re_vuln q \<and> re_package q' = re_package q \<and> re_confidence q \<le> re_confidence q'"
      if q: "q \<in> set t" and lt: "re_confidence (t ! i) < re_confidence r" for q
    proof -
      obtain j where j: "j < length t" "q = t ! j" using q by (auto simp: in_set_conv_nth)
      then have "t[i := ?u i] ! j \<in> set (t[i := ?u i])" by simp
      then show ?thesis using j lt by (intro bexI [of _ "t[i := ?u i] ! j"]) (auto simp: nth_update_if)
    qed
    with u show ?thesis by (auto simp: relations_grow_def)
  qed (auto simp: relations_grow_def)
  show "\<exists>q\<in>set (update_or_create_relation r t). re_vuln q = re_vuln r \<and> re_package q = re_package r \<and> re_confidence r \<le> re_confidence q"
    using cases
  proof (elim disjE exE conjE)
    fix i assume i: "i < length t" "re_vuln (t ! i) = re_vuln r" "re_package (t ! i) = re_package r"
      and u: "update_or_create_relation r t = (if re_confidence r > re_confidence (t ! i) then t[i := ?u i] else t)"
    have "t ! i \<in> set t" "?u i \<in> set (t[i := ?u i])" using i(1) by (simp_all add: set_update_memI)
    then show ?thesis
    proof (cases "re_confidence r > re_confidence (t ! i)")
      case True
      then show ?thesis using u i \<open>?u i \<in> set (t[i := ?u i])\<close> by (intro bexI [of _ "?u i"]) simp_all
    next
      case False
      then show ?thesis using u i \<open>t ! i \<in> set t\<close> by (intro bexI [of _ "t ! i"]) simp_all
    qed
  qed simp
qed


text \<open>The package is related to the vulnerability with at least the confidence.\<close>

definition related :: "purl_lib \<Rightarrow> nat \<Rightarrow> int \<Rightarrow> relation_v1 list \<Rightarrow> package_row list \<Rightarrow> purl \<Rightarrow> bool" where
  "related L v confidence rels ps p \<longleftrightarrow> list_ex (\<lambda>r. re_vuln r = v \<and> confidence \<le> re_confidence r \<and>
     re_package r < length ps \<and> names_package L p (ps ! re_package r)) rels"

lemma related_grows:
  assumes "related L v c rels ps p" "relations_grow rels rels'" "take (length ps) ps' = ps"
  shows "related L v c rels' ps' p"
proof -
  obtain r where r: "r \<in> set rels" "re_vuln r = v" "c \<le> re_confidence r" "re_package r < length ps" "names_package L p (ps ! re_package r)"
    using assms(1) by (auto simp: related_def list_ex_iff)
  then obtain r' where r': "r' \<in> set rels'" "re_vuln r' = v" "re_package r' = re_package r" "re_confidence r \<le> re_confidence r'"
    using assms(2) unfolding relations_grow_def by metis
  have "ps' ! re_package r = ps ! re_package r" "length ps \<le> length ps'"
    using assms(3) r(4) by (metis nth_take, metis length_take min.cobounded1)
  with r r' show ?thesis by (auto simp: related_def list_ex_iff intro!: bexI [of _ r'])
qed

lemma add_package_ok:
  assumes "get_or_create_from_purl L p (v_packages db) = Inr (k, t)" "v < length (v_vulns db)"
    "r = \<lparr>re_vuln = v, re_package = k, re_created_by = by, re_confidence = c\<rparr>"
  shows "v1_keeps db (db\<lparr>v_packages := t, v_affected := update_or_create_relation r (v_affected db), v_log := l\<rparr>)"
    "v1_keeps db (db\<lparr>v_packages := t, v_fixing := update_or_create_relation r (v_fixing db), v_log := l\<rparr>)"
    "related L v c (update_or_create_relation r rels) t p"
proof -
  from get_or_create_from_purl_ok [OF assms(1)] obtain new where
    k: "k < length t" "t = v_packages db @ new" "names_package L p (t ! k)" by blast
  have rel: "relations_ok rs vs (v_packages db) \<Longrightarrow> relations_ok rs vs t" for rs vs
    unfolding k(2) by (auto simp: relations_ok_def)
  note u = update_or_create_ok(1) [OF rel, of _ "v_vulns db" r]
  show "v1_keeps db (db\<lparr>v_packages := t, v_affected := update_or_create_relation r (v_affected db), v_log := l\<rparr>)"
    "v1_keeps db (db\<lparr>v_packages := t, v_fixing := update_or_create_relation r (v_fixing db), v_log := l\<rparr>)"
    using u rel update_or_create_ok(2) assms(2,3) k(1,2) by (auto simp: v1_keeps_def v1_ok_def v1_grows_def)
  show "related L v c (update_or_create_relation r rels) t p"
    using update_or_create_ok(3) [of r rels] k assms(3) by (auto simp: related_def list_ex_iff)
qed

lemma add_affected_ok:
  assumes "add_affected E adv by c v p db = Inr db'" "v < length (v_vulns db)"
  shows "v1_keeps db db' \<and> v_vulns db' = v_vulns db \<and> v_advisories db' = v_advisories db \<and>
    related (purls (env_ext (v1_imp E))) v c (v_affected db') (v_packages db') p"
proof -
  from assms(1) obtain k t where g: "get_or_create_from_purl (purls (env_ext (v1_imp E))) p (v_packages db) = Inr (k, t)"
    and db': "db' = db\<lparr>v_packages := t, v_affected := update_or_create_relation \<lparr>re_vuln = v, re_package = k, re_created_by = by,
       re_confidence = c\<rparr> (v_affected db), v_log := add_log (package_log E adv Log_affected_by v k db) (v_log db)\<rparr>"
    by (auto simp: add_affected_def map_sum_Inr)
  from add_package_ok [OF g assms(2) refl] show ?thesis unfolding db' by simp
qed

lemma add_fixing_ok:
  assumes "add_fixing E adv by c v p db = Inr db'" "v < length (v_vulns db)"
  shows "v1_keeps db db' \<and> v_vulns db' = v_vulns db \<and> v_advisories db' = v_advisories db \<and>
    related (purls (env_ext (v1_imp E))) v c (v_fixing db') (v_packages db') p"
proof -
  from assms(1) obtain k t where g: "get_or_create_from_purl (purls (env_ext (v1_imp E))) p (v_packages db) = Inr (k, t)"
    and db': "db' = db\<lparr>v_packages := t, v_fixing := update_or_create_relation \<lparr>re_vuln = v, re_package = k, re_created_by = by,
       re_confidence = c\<rparr> (v_fixing db), v_log := add_log (package_log E adv Log_fixing v k db) (v_log db)\<rparr>"
    by (auto simp: add_fixing_def map_sum_Inr)
  from add_package_ok [OF g assms(2) refl] show ?thesis unfolding db' by simp
qed

text \<open>A series of such operations keeps what each of them makes true.\<close>

lemma fold_result_all:
  assumes step: "\<And>x s s'. f x s = Inr s' \<Longrightarrow> P s \<Longrightarrow> v1_ok s \<Longrightarrow> P s' \<and> v1_keeps s s' \<and> Q x s'"
    and stable: "\<And>x s s'. v1_grows s s' \<Longrightarrow> Q x s \<Longrightarrow> Q x s'"
  shows "fold_result f xs s = Inr s' \<Longrightarrow> P s \<Longrightarrow> v1_ok s \<Longrightarrow> P s' \<and> v1_ok s' \<and> v1_grows s s' \<and> list_all (\<lambda>x. Q x s') xs"
proof (induction xs arbitrary: s)
  case (Cons x xs)
  from Cons.prems(1) obtain s1 where 1: "f x s = Inr s1" "fold_result f xs s1 = Inr s'" by (auto simp: bind_result_Inr)
  have 2: "P s1" "v1_ok s1" "v1_grows s s1" "Q x s1" using step [OF 1(1) Cons.prems(2,3)] Cons.prems(3) by (auto simp: v1_keeps_def)
  from Cons.IH [OF 1(2) 2(1,2)] 2 show ?case by (auto intro: v1_grows_trans stable)
qed simp

lemma relate_vulnerability_ok:
  fixes E :: "('r, 'v, 'd) v1_env"
  assumes "relate_vulnerability E adv by c v refs affected fixed ws db = Inr db'" "v < length (v_vulns db)" "v1_ok db"
  shows "v1_ok db' \<and> v1_grows db db' \<and> v_advisories db' = v_advisories db \<and>
    list_all (related (purls (env_ext (v1_imp E))) v c (v_affected db') (v_packages db')) affected \<and>
    list_all (related (purls (env_ext (v1_imp E))) v c (v_fixing db') (v_packages db')) fixed"
proof -
  let ?L = "purls (env_ext (v1_imp E))" and ?db1 = "add_references E v refs db"
  have advs: "v_advisories (add_reference E v ref s) = v_advisories s" "v_advisories (add_severity E v u sv s) = v_advisories s"
    "v_advisories (add_weakness v w s) = v_advisories s" for ref s u sv w
    by (auto simp: add_reference_def add_severity_def add_weakness_def change_vuln_def Let_def split: prod.split option.split list.split)
  have fold_adv: "(\<And>x s. v_advisories (f x s) = v_advisories s) \<Longrightarrow> v_advisories (fold f xs s) = v_advisories s"
    for f :: "'x \<Rightarrow> 'd v1_db \<Rightarrow> 'd v1_db" and xs s
    by (induction xs arbitrary: s) simp_all
  have radv: "v_advisories ?db1 = v_advisories db"
    unfolding add_references_def by (rule fold_adv) (simp add: fold_adv advs)
  have refs: "v1_ok ?db1 \<and> v1_grows db ?db1 \<and> v < length (v_vulns ?db1) \<and> v_advisories ?db1 = v_advisories db"
    using add_references_keeps [of db E v refs] assms(2,3) radv by (simp add: v1_keeps_def)
  from assms(1) obtain db2 db3 where run: "fold_result (add_affected E adv by c v) affected ?db1 = Inr db2"
    "fold_result (add_fixing E adv by c v) fixed db2 = Inr db3" "db' = fold (add_weakness v) ws db3"
    by (auto simp: relate_vulnerability_def bind_result_Inr map_sum_Inr)
  have stable: "v1_grows s s' \<Longrightarrow> related ?L v c (v_affected s) (v_packages s) x \<Longrightarrow> related ?L v c (v_affected s') (v_packages s') x"
    "v1_grows s s' \<Longrightarrow> related ?L v c (v_fixing s) (v_packages s) x \<Longrightarrow> related ?L v c (v_fixing s') (v_packages s') x" for s s' :: "'d v1_db" and x
    unfolding v1_grows_def by (blast intro: related_grows)+
  let ?P = "\<lambda>s. v < length (v_vulns s) \<and> v_advisories s = v_advisories db"
  let ?A = "\<lambda>x s. related ?L v c (v_affected s) (v_packages s) x" and ?F = "\<lambda>x s. related ?L v c (v_fixing s) (v_packages s) x"
  have steps: "add_affected E adv by c v x s = Inr s' \<Longrightarrow> ?P s \<Longrightarrow> v1_ok s \<Longrightarrow> ?P s' \<and> v1_keeps s s' \<and> ?A x s'"
    "add_fixing E adv by c v x s = Inr s' \<Longrightarrow> ?P s \<Longrightarrow> v1_ok s \<Longrightarrow> ?P s' \<and> v1_keeps s s' \<and> ?F x s'" for x s s'
    using add_affected_ok [of E adv "by" c v x s s'] add_fixing_ok [of E adv "by" c v x s s'] by auto
  have 2: "?P db2 \<and> v1_ok db2 \<and> v1_grows ?db1 db2 \<and> list_all (\<lambda>x. ?A x db2) affected"
    by (rule fold_result_all [where P = ?P and Q = ?A, OF steps(1) stable(1) run(1)]) (use refs in auto)
  have 3: "?P db3 \<and> v1_ok db3 \<and> v1_grows db2 db3 \<and> list_all (\<lambda>x. ?F x db3) fixed"
    by (rule fold_result_all [where P = ?P and Q = ?F, OF steps(2) stable(2) run(2)]) (use 2 in auto)
  have 4: "v1_ok db' \<and> v1_grows db3 db' \<and> v_advisories db' = v_advisories db"
    using fold_keeps [of "add_weakness v" db3 ws] add_weakness_keeps 3 by (auto simp: run(3) v1_keeps_def fold_adv advs)
  have "v1_grows db2 db'" using 3 4 by (blast intro: v1_grows_trans)
  then show ?thesis using refs 2 3 4 by (auto simp: list_all_iff intro: v1_grows_trans stable)
qed

end
