(* ===== verification/VulnImport.thy ===== *)
theory VulnImport
  imports Vulnerabilities
begin

text \<open>
  Importing advisories of the first generation: \<open>insert_advisory\<close> and \<open>import_advisory\<close> of
  \<open>vulnerabilities/pipes/advisory.py\<close> with the steps of \<open>VulnerableCodeBaseImporterPipeline\<close>, and
  \<open>vulnerabilities/import_runner.py\<close> with the default improver. A transaction that raises gives the
  exception alone, and its caller keeps the tables as they were.
\<close>

section \<open>The data of an advisory\<close>

record ('r, 'v, 'd) adv_data_v1 =
  d1_aliases :: "string list"
  d1_summary :: string
  d1_affected :: "('r, 'v fixed_version) affected_v1 option list"
  d1_references :: "'d reference_v1 list"
  d1_published :: "'d option"
  d1_weaknesses :: "int list"
  d1_url :: string

definition reference1_from_dict :: "json \<Rightarrow> 'd reference_v1 result" where
  "reference1_from_dict d =
     bind_result (bind_result (req d ''reference_id'') as_str) (\<lambda>i.
     bind_result (as_str_opt (opt d ''reference_type'')) (\<lambda>t.
     bind_result (bind_result (req d ''url'') as_str) (\<lambda>u.
     bind_result (bind_result (req d ''severities'') (list_of severity_from_dict)) (\<lambda>ss.
       if u = [] then Inl TypeError
       else Inr \<lparr>r1_id = i, r1_type = str_or_empty t, r1_url = u, r1_severities = ss\<rparr>))))"

definition reference1_to_dict :: "('r, 'v, 'd::linorder) ext \<Rightarrow> 'd reference_v1 \<Rightarrow> json result" where
  "reference1_to_dict X r = map_sum id (\<lambda>ss. JObj [(''reference_id'', JStr (r1_id r)), (''reference_type'', JStr (r1_type r)),
     (''url'', JStr (r1_url r)), (''severities'', JArr (map (severity_to_dict X) ss))]) (sort_severities (r1_severities r))"

text \<open>A stored package that gives no object is \<open>None\<close>, and has no dictionary.\<close>

definition affected_dict :: "('r, 'v, 'd) ext \<Rightarrow> ('r, 'v fixed_version) affected_v1 option \<Rightarrow> json result" where
  "affected_dict X a = (case a of None \<Rightarrow> Inl AttributeError | Some a \<Rightarrow> Inr (affected1_to_dict X a))"

definition data_dicts :: "('r, 'v, 'd::linorder) ext \<Rightarrow> ('r, 'v, 'd) adv_data_v1 \<Rightarrow> (json list \<times> json list) result" where
  "data_dicts X d = bind_result (map_result (affected_dict X) (d1_affected d)) (\<lambda>as.
     map_sum id (Pair as) (map_result (reference1_to_dict X) (d1_references d)))"

definition to_advisory_data :: "('r, 'v, 'd) v1_env \<Rightarrow> 'd v1_db \<Rightarrow> nat \<Rightarrow> ('r, 'v, 'd) adv_data_v1 result" where
  "to_advisory_data E db k =
     (let r = v_advisories db ! k; X = env_ext (v1_imp E) in
      bind_result (map_result (affected1_from_dict X) (filter (\<lambda>j. \<not> falsy j) (a1_affected r))) (\<lambda>as.
      map_sum id (\<lambda>refs. \<lparr>d1_aliases = map (\<lambda>a. al_name (v_aliases db ! a)) (a1_aliases r),
          d1_summary = (if a1_summary r = [] then [] else clean_summary X (a1_summary r)), d1_affected = as,
          d1_references = refs, d1_published = a1_published r, d1_weaknesses = a1_weaknesses r, d1_url = a1_url r\<rparr>)
        (map_result reference1_from_dict (a1_references r))))"

section \<open>Storing an advisory\<close>

definition get_or_create_advisory_v1 ::
    "('r, 'v, 'd) v1_env \<Rightarrow> 'd advisory_v1 \<Rightarrow> 'd v1_db \<Rightarrow> (nat \<times> bool \<times> 'd v1_db) result" where
  "get_or_create_advisory_v1 E row db =
     (case rows_where (\<lambda>r. a1_content_id r = a1_content_id row \<and> a1_url r = a1_url row) (v_advisories db) of
        i # _ \<Rightarrow> Inr (i, False, db)
      | [] \<Rightarrow> if valid_url E (a1_url row) \<and> \<not> list_ex (\<lambda>r. a1_content_id r = a1_content_id row) (v_advisories db)
          then Inr (length (v_advisories db), True, db\<lparr>v_advisories := v_advisories db @ [row]\<rparr>)
          else Inl ValidationError)"

definition advisory_row ::
    "string \<Rightarrow> string \<Rightarrow> ('r, 'v, 'd) adv_data_v1 \<Rightarrow> json list \<times> json list \<Rightarrow> 'd advisory_v1" where
  "advisory_row cid created_by d dicts = \<lparr>a1_content_id = cid, a1_aliases = [], a1_summary = d1_summary d,
     a1_affected = fst dicts, a1_references = snd dicts, a1_published = d1_published d,
     a1_weaknesses = d1_weaknesses d, a1_created_by = created_by, a1_imported = None, a1_url = d1_url d\<rparr>"

definition add_advisory_aliases :: "nat \<Rightarrow> nat list \<Rightarrow> 'd v1_db \<Rightarrow> 'd v1_db" where
  "add_advisory_aliases i ids db = db\<lparr>v_advisories := (v_advisories db)[i :=
     (v_advisories db ! i)\<lparr>a1_aliases := fold insert_new ids (a1_aliases (v_advisories db ! i))\<rparr>]\<rparr>"

text \<open>
  \<open>cid\<close> is the digest that \<open>compute_content_id\<close> gives the advisory. An exception is logged; the aliases
  are there by then.
\<close>

definition insert_advisory ::
    "('r, 'v, 'd::linorder) v1_env \<Rightarrow> string \<Rightarrow> string \<Rightarrow> ('r, 'v, 'd) adv_data_v1 \<Rightarrow> 'd v1_db \<Rightarrow> nat option \<times> 'd v1_db" where
  "insert_advisory E cid pid d db =
     (let (ids, t) = get_or_create_aliases (d1_aliases d) (v_aliases db); db = db\<lparr>v_aliases := t\<rparr>
      in case bind_result (data_dicts (env_ext (v1_imp E)) d)
           (\<lambda>ds. get_or_create_advisory_v1 E (advisory_row cid pid d ds) db) of
           Inl _ \<Rightarrow> (None, db) | Inr (i, _, db) \<Rightarrow> (Some i, add_advisory_aliases i ids db))"

section \<open>Importing an advisory\<close>

text \<open>\<open>get_exact_purls\<close> of \<open>improvers/default.py\<close>: an exception is logged and gives no package at all.\<close>

definition get_exact_purls ::
    "('r, 'v, 'd) import_env \<Rightarrow> ('r, 'v fixed_version) affected_v1 option \<Rightarrow> purl list \<times> purl list" where
  "get_exact_purls E affected =
     (case affected of None \<Rightarrow> ([], []) | Some a \<Rightarrow>
       (case get_exact_purl_from_vers E (a1_range a) (a1_package a) of Inl _ \<Rightarrow> ([], [])
        | Inr (aff, fix) \<Rightarrow>
            (case fixed_text (env_ext E) (a1_fixed a) of None \<Rightarrow> (aff, fix)
             | Some t \<Rightarrow> (case update_purl_version (purls (env_ext E)) (PObj (a1_package a)) (Some t) of
                 Inl _ \<Rightarrow> ([], []) | Inr p \<Rightarrow> (aff, fix @ [p])))))"

definition set_imported :: "int \<Rightarrow> nat \<Rightarrow> 'd v1_db \<Rightarrow> 'd v1_db" where
  "set_imported now k db = db\<lparr>v_advisories := (v_advisories db)[k := (v_advisories db ! k)\<lparr>a1_imported := Some now\<rparr>]\<rparr>"

text \<open>Without a vulnerability the advisory keeps its place among those to import.\<close>

definition import_advisory ::
    "('r, 'v, 'd) v1_env \<Rightarrow> int \<Rightarrow> string \<Rightarrow> int \<Rightarrow> nat \<Rightarrow> 'd v1_db \<Rightarrow> 'd v1_db result" where
  "import_advisory E now pid confidence k db =
     bind_result (to_advisory_data E db k) (\<lambda>d.
       let adv = v_advisories db ! k; exact = map (get_exact_purls (v1_imp E)) (d1_affected d);
           (ids, t) = get_or_create_aliases (d1_aliases d) (v_aliases db)
       in case get_or_create_vulnerability_and_aliases E ids None (Some (d1_summary d)) adv (db\<lparr>v_aliases := t\<rparr>) of
            (None, db) \<Rightarrow> Inr db
          | (Some v, db) \<Rightarrow> map_sum id (set_imported now k)
              (relate_vulnerability E adv pid confidence v (d1_references d) (concat (map fst exact))
                 (concat (map snd exact)) (d1_weaknesses d) db))"

section \<open>The steps of a pipeline\<close>

definition new_advisories :: "string \<Rightarrow> 'd::linorder v1_db \<Rightarrow> nat list" where
  "new_advisories pid db =
     (let row = (\<lambda>k. v_advisories db ! k) in
      nulls_last (\<lambda>k. a1_published (row k)) (sort_key (\<lambda>k. a1_content_id (row k))
        (rows_where (\<lambda>r. a1_created_by r = pid \<and> a1_imported r = None) (v_advisories db))))"

definition try_import ::
    "('r, 'v, 'd) v1_env \<Rightarrow> (nat \<Rightarrow> int) \<Rightarrow> string \<Rightarrow> int \<Rightarrow> nat \<Rightarrow> 'd v1_db \<Rightarrow> 'd v1_db" where
  "try_import E clk pid confidence k db =
     (case import_advisory E (clk k) pid confidence k db of Inl _ \<Rightarrow> db | Inr db \<Rightarrow> db)"

text \<open>
  \<open>paginated\<close>: the number of rows is read once, and each page is read when the ones before it have been
  gone through.
\<close>

definition page_of :: "nat \<Rightarrow> nat \<Rightarrow> nat \<Rightarrow> 'a list \<Rightarrow> 'a list" where
  "page_of per_page cnt n rows =
     (let bottom = n * per_page; top = (if cnt \<le> bottom + per_page then cnt else bottom + per_page)
      in take (top - bottom) (drop bottom rows))"

definition num_pages :: "nat \<Rightarrow> nat \<Rightarrow> nat" where
  "num_pages per_page cnt = max 1 ((cnt + per_page - 1) div per_page)"

fun import_pages ::
    "('r, 'v, 'd::linorder) v1_env \<Rightarrow> (nat \<Rightarrow> int) \<Rightarrow> string \<Rightarrow> int \<Rightarrow> nat \<Rightarrow> nat \<Rightarrow> nat list \<Rightarrow> 'd v1_db \<Rightarrow> 'd v1_db" where
  "import_pages E clk pid confidence per_page cnt [] db = db"
| "import_pages E clk pid confidence per_page cnt (n # ns) db =
     import_pages E clk pid confidence per_page cnt ns
       (fold (try_import E clk pid confidence) (page_of per_page cnt n (new_advisories pid db)) db)"

definition import_new_advisories ::
    "('r, 'v, 'd::linorder) v1_env \<Rightarrow> (nat \<Rightarrow> int) \<Rightarrow> string \<Rightarrow> int \<Rightarrow> nat \<Rightarrow> 'd v1_db \<Rightarrow> 'd v1_db" where
  "import_new_advisories E clk pid confidence per_page db =
     (let cnt = length (new_advisories pid db)
      in import_pages E clk pid confidence per_page cnt [0..<num_pages per_page cnt] db)"

section \<open>Inferences\<close>

text \<open>
  \<open>Inference\<close> of \<open>vulnerabilities/improver.py\<close> and those of the default improver. The improver is a
  generator: an exception in it ends the transaction that consumes it.
\<close>

record 'd inference =
  in_vid :: "string option"
  in_aliases :: "string list"
  in_confidence :: int
  in_summary :: "string option"
  in_affected :: "purl list"
  in_fixed :: "purl option"
  in_references :: "'d reference_v1 list"
  in_weaknesses :: "int list"

definition MAX_CONFIDENCE :: int where
  "MAX_CONFIDENCE = 100"

definition inference_init :: "'d inference \<Rightarrow> 'd inference result" where
  "inference_init i =
     (if in_confidence i > MAX_CONFIDENCE \<or> in_confidence i < 0 then Inl ValueError
      else if \<not> truthy_opt (in_vid i) \<and> in_aliases i = [] \<and> \<not> truthy_opt (in_summary i) \<and> in_affected i = [] \<and>
        in_fixed i = None \<and> in_references i = [] \<and> in_weaknesses i = [] then Inl AssertionError
      else if list_ex (\<lambda>p. \<not> truthy_opt (pversion p)) ((case in_fixed i of None \<Rightarrow> [] | Some p \<Rightarrow> [p]) @ in_affected i)
      then Inl AssertionError else Inr i)"

definition inference_from_data ::
    "('r, 'v, 'd) adv_data_v1 \<Rightarrow> purl list \<Rightarrow> purl option \<Rightarrow> 'd inference result" where
  "inference_from_data d affected fixed = inference_init \<lparr>in_vid = None, in_aliases = d1_aliases d,
     in_confidence = MAX_CONFIDENCE, in_summary = Some (d1_summary d), in_affected = affected, in_fixed = fixed,
     in_references = d1_references d, in_weaknesses = d1_weaknesses d\<rparr>"

definition get_inferences ::
    "('r, 'v, 'd) import_env \<Rightarrow> ('r, 'v, 'd) adv_data_v1 \<Rightarrow> 'd inference list result" where
  "get_inferences E d =
     (if d1_affected d = [] then map_sum id (\<lambda>i. [i]) (inference_from_data d [] None)
      else map_sum id concat (map_result (\<lambda>a. case get_exact_purls E a of (affected, fixed) \<Rightarrow>
             if fixed = [] then map_sum id (\<lambda>i. [i]) (inference_from_data d affected None)
             else map_result (\<lambda>p. inference_from_data d affected (Some p)) fixed) (d1_affected d)))"

section \<open>The import runner\<close>

text \<open>
  \<open>process_inferences\<close>, one transaction: an inference without a vulnerability is skipped, and the
  advisory is dated all the same.
\<close>

fun infer_all ::
    "('r, 'v, 'd) v1_env \<Rightarrow> 'd advisory_v1 \<Rightarrow> string \<Rightarrow> 'd inference list \<Rightarrow> nat \<Rightarrow> 'd v1_db \<Rightarrow> (nat \<times> 'd v1_db) result" where
  "infer_all E adv name [] cnt db = Inr (cnt, db)"
| "infer_all E adv name (i # is) cnt db =
     (let (ids, t) = get_or_create_aliases (in_aliases i) (v_aliases db)
      in case get_or_create_vulnerability_and_aliases E ids (in_vid i) (in_summary i) adv (db\<lparr>v_aliases := t\<rparr>) of
           (None, db) \<Rightarrow> infer_all E adv name is cnt db
         | (Some v, db) \<Rightarrow> bind_result (relate_vulnerability E adv name (in_confidence i) v (in_references i)
              (in_affected i) (case in_fixed i of None \<Rightarrow> [] | Some p \<Rightarrow> [p]) (in_weaknesses i) db)
              (infer_all E adv name is (Suc cnt)))"

definition process_inferences ::
    "('r, 'v, 'd) v1_env \<Rightarrow> int \<Rightarrow> string \<Rightarrow> nat \<Rightarrow> 'd inference list \<Rightarrow> 'd v1_db \<Rightarrow> (nat \<times> 'd v1_db) result" where
  "process_inferences E now name k infs db =
     (if infs = [] then Inr (0, db)
      else map_sum id (\<lambda>(cnt, db). (cnt, set_imported now k db)) (infer_all E (v_advisories db ! k) name infs 0 db))"

text \<open>
  \<open>do_import\<close> on the advisories as they were loaded, each with its date. The handler of an exception
  prints the data of the advisory, which raises again when there is none or it has no dictionary.
\<close>

fun do_import ::
    "('r, 'v, 'd::linorder) v1_env \<Rightarrow> (nat \<Rightarrow> int) \<Rightarrow> string \<Rightarrow> (nat \<times> int option) list \<Rightarrow> 'd v1_db \<Rightarrow> py_error option \<times> 'd v1_db" where
  "do_import E clk name [] db = (None, db)"
| "do_import E clk name ((k, loaded) # ks) db =
     (if loaded \<noteq> None then do_import E clk name ks db
      else (case to_advisory_data E db k of
          Inl _ \<Rightarrow> (Some AttributeError, db)
        | Inr d \<Rightarrow> (case bind_result (get_inferences (v1_imp E) d) (\<lambda>infs. process_inferences E (clk k) name k infs db) of
            Inr (_, db) \<Rightarrow> do_import E clk name ks db
          | Inl _ \<Rightarrow> (case data_dicts (env_ext (v1_imp E)) d of
              Inl e \<Rightarrow> (Some e, db) | Inr _ \<Rightarrow> do_import E clk name ks db))))"

text \<open>
  \<open>process_advisories\<close>: each advisory comes with its content identifier. An advisory that has no
  dictionary raises; an error of the database skips it.
\<close>

fun store_all ::
    "('r, 'v, 'd::linorder) v1_env \<Rightarrow> string \<Rightarrow> (string \<times> ('r, 'v, 'd) adv_data_v1) list \<Rightarrow> (nat \<times> int option) list \<Rightarrow> nat \<Rightarrow>
       'd v1_db \<Rightarrow> py_error option \<times> (nat \<times> int option) list \<times> nat \<times> 'd v1_db" where
  "store_all E name [] ks cnt db = (None, ks, cnt, db)"
| "store_all E name ((cid, d) # ds) ks cnt db =
     (case data_dicts (env_ext (v1_imp E)) d of Inl e \<Rightarrow> (Some e, ks, cnt, db)
      | Inr dicts \<Rightarrow>
        (let (ids, t) = get_or_create_aliases (d1_aliases d) (v_aliases db); db = db\<lparr>v_aliases := t\<rparr>
         in case get_or_create_advisory_v1 E (advisory_row cid name d dicts) db of
              Inl _ \<Rightarrow> store_all E name ds ks cnt db
            | Inr (i, created, db) \<Rightarrow>
                (let date = a1_imported (v_advisories db ! i)
                 in store_all E name ds (if date = None then ks @ [(i, date)] else ks) (if created then Suc cnt else cnt)
                      (add_advisory_aliases i ids db))))"

definition process_advisories ::
    "('r, 'v, 'd::linorder) v1_env \<Rightarrow> (nat \<Rightarrow> int) \<Rightarrow> string \<Rightarrow> string \<Rightarrow> (string \<times> ('r, 'v, 'd) adv_data_v1) list \<Rightarrow>
       'd v1_db \<Rightarrow> nat result \<times> 'd v1_db" where
  "process_advisories E clk improver_name name ds db =
     (case store_all E name ds [] 0 db of
        (Some e, _, _, db) \<Rightarrow> (Inl e, db)
      | (None, ks, cnt, db) \<Rightarrow> (Inr cnt, snd (do_import E clk improver_name ks db)))"

section \<open>Importing one advisory\<close>

text \<open>When no vulnerability is found or created for aliases.\<close>

definition no_vulnerability :: "('r, 'v, 'd) v1_env \<Rightarrow> nat list \<Rightarrow> 'd v1_db \<Rightarrow> bool" where
  "no_vulnerability E ids db \<longleftrightarrow> ids = [] \<or> list_ex (\<lambda>r. vu_id r = vcid E (length (v_vulns db))) (v_vulns db) \<or>
     (\<exists>i\<in>set ids. \<exists>j\<in>set ids. \<exists>v w. v \<noteq> w \<and> al_vuln (v_aliases db ! i) = Some v \<and> al_vuln (v_aliases db ! j) = Some w)"

lemma distinct_two: "distinct xs \<Longrightarrow> xs = x # y # zs \<Longrightarrow> x \<noteq> y" by simp

lemma no_vulnerability_why:
  assumes "get_or_create_vulnerability_and_aliases E ids None (Some s) adv db = (None, db')" "\<forall>i\<in>set ids. i < length (v_aliases db)"
  shows "no_vulnerability E ids db"
proof -
  obtain new existing where ne: "get_vulns_for_aliases_and_get_new_aliases ids (v_aliases db) = (new, existing)" by force
  note new = existing_aliases(1) [OF ne] and old = existing_aliases(2) [OF ne]
  have d: "distinct existing" using ne by (auto simp: get_vulns_for_aliases_and_get_new_aliases_def)
  have t: "\<not> truthy_opt None" by (simp add: truthy_opt_def)
  show ?thesis
  proof (cases existing)
    case Nil
    then have all: "set new = set ids" using new old by auto
    obtain e where e: "create_vulnerability_and_add_aliases E new (Some s) db = Inl e"
      using assms(1) ne Nil t by (auto simp: get_or_create_vulnerability_and_aliases_def split: sum.splits prod.splits)
    show ?thesis
    proof (rule ccontr)
      assume n: "\<not> no_vulnerability E ids db"
      then obtain i where i: "i \<in> set new" using all by (cases ids) (auto simp: no_vulnerability_def)
      let ?t = "associate_vulnerability_with_aliases new (length (v_vulns db)) (v_aliases db)"
      have l: "i < length (v_aliases db)" using i all assms(2) by simp
      then have "al_vuln (?t ! i) = Some (length (v_vulns db))" using i by (simp add: associate_nth)
      moreover have "?t ! i \<in> set ?t" using l by (intro nth_mem) (simp add: associate_nth)
      ultimately have "list_ex (\<lambda>a. al_vuln a = Some (length (v_vulns db))) ?t" unfolding list_ex_iff by blast
      then show False using e n by (simp add: create_vulnerability_and_add_aliases_def no_vulnerability_def Let_def split: if_splits)
    qed
  next
    case (Cons v vs)
    show ?thesis
    proof (cases vs)
      case Nil
      with Cons assms(1) ne t show ?thesis by (simp add: get_or_create_vulnerability_and_aliases_def)
    next
      case (Cons w ws)
      with \<open>existing = v # vs\<close> d old have "v \<noteq> w" "v \<in> {v. \<exists>i\<in>set ids. al_vuln (v_aliases db ! i) = Some v}"
        "w \<in> {v. \<exists>i\<in>set ids. al_vuln (v_aliases db ! i) = Some v}" by (auto simp flip: old)
      then show ?thesis unfolding no_vulnerability_def by blast
    qed
  qed
qed

abbreviation exact_purls :: "('r, 'v, 'd) v1_env \<Rightarrow> ('r, 'v, 'd) adv_data_v1 \<Rightarrow> (purl list \<times> purl list) list" where
  "exact_purls E d \<equiv> map (get_exact_purls (v1_imp E)) (d1_affected d)"

definition aliases_of :: "nat \<Rightarrow> 'd v1_db \<Rightarrow> string list \<Rightarrow> bool" where
  "aliases_of v db names \<longleftrightarrow> list_all (\<lambda>n. list_ex (\<lambda>a. al_name a = n \<and> al_vuln a = Some v) (v_aliases db)) names"

lemma aliases_of_grows: "v1_grows db db' \<Longrightarrow> aliases_of v db names \<Longrightarrow> aliases_of v db' names"
  unfolding aliases_of_def list_all_iff list_ex_iff
proof
  fix n assume g: "v1_grows db db'" and "\<forall>n\<in>set names. \<exists>a\<in>set (v_aliases db). al_name a = n \<and> al_vuln a = Some v" "n \<in> set names"
  then obtain i where i: "i < length (v_aliases db)" "al_name (v_aliases db ! i) = n" "al_vuln (v_aliases db ! i) = Some v"
    by (metis in_set_conv_nth)
  then have "i < length (v_aliases db')" "al_name (v_aliases db' ! i) = n" "al_vuln (v_aliases db' ! i) = Some v"
    using g by (auto simp: v1_grows_def aliases_grow_def)
  then show "\<exists>a\<in>set (v_aliases db'). al_name a = n \<and> al_vuln a = Some v"
    by (intro bexI [of _ "v_aliases db' ! i"]) simp_all
qed

text \<open>
  Aliases that are created and a vulnerability that is found or created for them, and what is related to
  it: the part that \<open>import_advisory\<close> and \<open>process_inferences\<close> share.
\<close>

lemma vulnerability_and_relations:
  fixes E :: "('r, 'v, 'd) v1_env"
  assumes ok: "v1_ok db" and g: "get_or_create_aliases names (v_aliases db) = (ids, t)"
    and r: "get_or_create_vulnerability_and_aliases E ids vid summary adv (db\<lparr>v_aliases := t\<rparr>) = (r, db1)"
  shows "v1_ok db1 \<and> v1_grows db db1 \<and> v_advisories db1 = v_advisories db \<and>
    (case r of None \<Rightarrow> v_vulns db1 = v_vulns db \<and> v_affected db1 = v_affected db \<and> v_fixing db1 = v_fixing db
     | Some v \<Rightarrow> v < length (v_vulns db1) \<and> aliases_of v db1 names)"
proof -
  obtain new where n: "t = v_aliases db @ new" "set ids = {i. i < length t \<and> al_name (t ! i) \<in> set names}"
    "al_name ` (!) t ` set ids = set names" using get_or_create_aliases_ok [OF g] by blast
  have 1: "v1_ok (db\<lparr>v_aliases := t\<rparr>)" "v1_grows db (db\<lparr>v_aliases := t\<rparr>)"
    using get_or_create_aliases_keeps [OF g] ok by (auto simp: v1_keeps_def)
  have i: "\<forall>i\<in>set ids. i < length (v_aliases (db\<lparr>v_aliases := t\<rparr>))" using n(2) by simp
  note 2 = vulnerability_for_aliases_ok [OF 1(1) i r]
  have "aliases_of v db1 names" if v: "r = Some v" for v
    unfolding aliases_of_def list_all_iff list_ex_iff
  proof
    fix a assume "a \<in> set names"
    then obtain j where j: "j \<in> set ids" "al_name (t ! j) = a" using n(3) by (metis (no_types, lifting) image_iff)
    then have "j < length (v_aliases db1)" "al_name (v_aliases db1 ! j) = a" "al_vuln (v_aliases db1 ! j) = Some v"
      using 2 v i by (auto simp: list_all_iff v1_grows_def aliases_grow_def)
    then show "\<exists>x\<in>set (v_aliases db1). al_name x = a \<and> al_vuln x = Some v"
      by (intro bexI [of _ "v_aliases db1 ! j"]) simp_all
  qed
  with 1 2 show ?thesis by (auto intro: v1_grows_trans split: option.splits)
qed

lemma set_imported_keeps:
  "v1_keeps db (set_imported now k db)"
proof -
  have "map a1_content_id ((v_advisories db)[k := (v_advisories db ! k)\<lparr>a1_imported := Some now\<rparr>]) = map a1_content_id (v_advisories db)"
    by (rule map_list_update_same) simp
  then show ?thesis by (auto simp: v1_keeps_def v1_ok_def v1_grows_def set_imported_def advisories_grow_def nth_update_if)
qed

lemma set_imported_simps [simp]:
  "v_aliases (set_imported now k db) = v_aliases db" "v_vulns (set_imported now k db) = v_vulns db"
  "v_affected (set_imported now k db) = v_affected db" "v_fixing (set_imported now k db) = v_fixing db"
  "v_packages (set_imported now k db) = v_packages db"
  by (simp_all add: set_imported_def)

text \<open>What an import of the data \<open>d\<close> as vulnerability \<open>v\<close> leaves.\<close>

definition imported_as ::
    "('r, 'v, 'd) v1_env \<Rightarrow> int \<Rightarrow> ('r, 'v, 'd) adv_data_v1 \<Rightarrow> 'd v1_db \<Rightarrow> nat \<Rightarrow> bool" where
  "imported_as E confidence d db v \<longleftrightarrow> v < length (v_vulns db) \<and> aliases_of v db (d1_aliases d) \<and>
     list_all (related (purls (env_ext (v1_imp E))) v confidence (v_affected db) (v_packages db)) (concat (map fst (exact_purls E d))) \<and>
     list_all (related (purls (env_ext (v1_imp E))) v confidence (v_fixing db) (v_packages db)) (concat (map snd (exact_purls E d)))"

lemma import_advisory_ok:
  assumes run: "import_advisory E now pid c k db = Inr db'" and ok: "v1_ok db"
  shows "v1_ok db' \<and> v1_grows db db' \<and> (\<exists>d. to_advisory_data E db k = Inr d \<and>
    (v_advisories db' = v_advisories db \<and> v_vulns db' = v_vulns db \<and>
       (let (ids, t) = get_or_create_aliases (d1_aliases d) (v_aliases db) in no_vulnerability E ids (db\<lparr>v_aliases := t\<rparr>)) \<or>
     v_advisories db' = (v_advisories db)[k := (v_advisories db ! k)\<lparr>a1_imported := Some now\<rparr>] \<and> (\<exists>v. imported_as E c d db' v)))"
proof -
  obtain d where d: "to_advisory_data E db k = Inr d" using run by (auto simp: import_advisory_def bind_result_Inr)
  obtain ids t where g: "get_or_create_aliases (d1_aliases d) (v_aliases db) = (ids, t)" by force
  obtain r db1 where r: "get_or_create_vulnerability_and_aliases E ids None (Some (d1_summary d)) (v_advisories db ! k)
      (db\<lparr>v_aliases := t\<rparr>) = (r, db1)" by force
  note v = vulnerability_and_relations [OF ok g r]
  show ?thesis
  proof (cases r)
    case None
    have "\<forall>i\<in>set ids. i < length (v_aliases (db\<lparr>v_aliases := t\<rparr>))" using get_or_create_aliases_ok [OF g] by auto
    note why = no_vulnerability_why [OF r [unfolded None] this]
    have "db' = db1" using run d g r None by (simp add: import_advisory_def Let_def)
    with v why None d g show ?thesis by auto
  next
    case (Some w)
    then obtain db2 where 2: "relate_vulnerability E (v_advisories db ! k) pid c w (d1_references d)
        (concat (map fst (exact_purls E d))) (concat (map snd (exact_purls E d))) (d1_weaknesses d) db1 = Inr db2"
      "db' = set_imported now k db2"
      using run d g r by (auto simp: import_advisory_def Let_def map_sum_Inr)
    have w: "w < length (v_vulns db1)" "v1_ok db1" "aliases_of w db1 (d1_aliases d)" "v1_grows db db1" "v_advisories db1 = v_advisories db"
      using v Some by auto
    note 3 = relate_vulnerability_ok [OF 2(1) w(1,2)]
    have 4: "v1_ok db'" "v1_grows db2 db'" using 3 set_imported_keeps [of db2 now k] by (auto simp: 2(2) v1_keeps_def)
    have "w < length (v_vulns db2)" using w(1) 3 by (auto simp: v1_grows_def vulns_grow_def)
    moreover have "aliases_of w db2 (d1_aliases d)" using aliases_of_grows 3 w(3) by blast
    ultimately have "imported_as E c d db' w" using 3 by (simp add: imported_as_def 2(2) aliases_of_def)
    moreover have "v_advisories db' = (v_advisories db)[k := (v_advisories db ! k)\<lparr>a1_imported := Some now\<rparr>]"
      using 3 w(5) by (simp add: 2(2) set_imported_def)
    moreover have "v1_grows db db'" using 3 4 w(4) by (blast intro: v1_grows_trans)
    ultimately show ?thesis using 4 d by blast
  qed
qed

text \<open>
  C8: Importing an advisory either finds no vulnerability (its aliases name two, it has none, or the new
  identifier is taken) and leaves it to be imported, or gives all its aliases to one vulnerability, relates
  every exact version it names to that, with at least the confidence, and dates the advisory.
\<close>

theorem import_advisory_exact:
  assumes "import_advisory E now pid c k db = Inr db'" "v1_ok db" "to_advisory_data E db k = Inr d"
    "get_or_create_aliases (d1_aliases d) (v_aliases db) = (ids, t)"
  shows "v_advisories db' = v_advisories db \<and> v_vulns db' = v_vulns db \<and> no_vulnerability E ids (db\<lparr>v_aliases := t\<rparr>) \<or>
    v_advisories db' = (v_advisories db)[k := (v_advisories db ! k)\<lparr>a1_imported := Some now\<rparr>] \<and> (\<exists>v. imported_as E c d db' v)"
  using import_advisory_ok [OF assms(1,2)] assms(3,4) by auto

section \<open>Every way to change the tables\<close>

lemma get_or_create_advisory_v1_keeps:
  assumes "get_or_create_advisory_v1 E row db = Inr (i, created, db')"
  shows "v1_keeps db db'"
proof -
  have "\<exists>new. v_advisories db' = v_advisories db @ new \<and> db' = db\<lparr>v_advisories := v_advisories db @ new\<rparr> \<and>
      (distinct (map a1_content_id (v_advisories db)) \<longrightarrow> distinct (map a1_content_id (v_advisories db @ new)))"
    using assms by (auto simp: get_or_create_advisory_v1_def list_ex_iff split: list.splits if_splits intro: exI [of _ "[]"] exI [of _ "[row]"])
  then show ?thesis by (auto simp: v1_keeps_def v1_ok_def v1_grows_def advisories_grow_def nth_append)
qed

lemma add_advisory_aliases_keeps: "v1_keeps db (add_advisory_aliases i ids db)"
proof -
  let ?r = "(v_advisories db ! i)\<lparr>a1_aliases := fold insert_new ids (a1_aliases (v_advisories db ! i))\<rparr>"
  have "map a1_content_id ((v_advisories db)[i := ?r]) = map a1_content_id (v_advisories db)"
    by (rule map_list_update_same) simp
  then show ?thesis by (auto simp: v1_keeps_def v1_ok_def v1_grows_def add_advisory_aliases_def advisories_grow_def nth_update_if)
qed

lemma insert_advisory_keeps: "insert_advisory E cid pid d db = (r, db') \<Longrightarrow> v1_keeps db db'"
proof -
  assume run: "insert_advisory E cid pid d db = (r, db')"
  obtain ids t where g: "get_or_create_aliases (d1_aliases d) (v_aliases db) = (ids, t)" by force
  note k = get_or_create_aliases_keeps [OF g]
  show ?thesis
  proof (cases "bind_result (data_dicts (env_ext (v1_imp E)) d) (\<lambda>ds. get_or_create_advisory_v1 E (advisory_row cid pid d ds) (db\<lparr>v_aliases := t\<rparr>))")
    case (Inl e)
    with run g k show ?thesis by (simp add: insert_advisory_def Let_def)
  next
    case (Inr x)
    obtain i cr db1 where x: "x = (i, cr, db1)" by (cases x) auto
    then obtain ds where "get_or_create_advisory_v1 E (advisory_row cid pid d ds) (db\<lparr>v_aliases := t\<rparr>) = Inr (i, cr, db1)"
      using Inr by (auto simp: bind_result_Inr)
    note k1 = get_or_create_advisory_v1_keeps [OF this]
    have "db' = add_advisory_aliases i ids db1" using run g Inr x by (simp add: insert_advisory_def Let_def)
    then show ?thesis using v1_keeps_trans [OF v1_keeps_trans [OF k k1] add_advisory_aliases_keeps] by simp
  qed
qed

lemma infer_all_keeps: "infer_all E adv name infs cnt db = Inr (n, db') \<Longrightarrow> v1_keeps db db'"
proof (induction infs arbitrary: cnt db)
  case (Cons i infs)
  obtain ids t where g: "get_or_create_aliases (in_aliases i) (v_aliases db) = (ids, t)" by force
  obtain r db1 where r: "get_or_create_vulnerability_and_aliases E ids (in_vid i) (in_summary i) adv (db\<lparr>v_aliases := t\<rparr>) = (r, db1)" by force
  show ?case
    unfolding v1_keeps_def
  proof
    assume ok: "v1_ok db"
    note v = vulnerability_and_relations [OF ok g r]
    show "v1_ok db' \<and> v1_grows db db'"
    proof (cases r)
      case None
      with Cons.prems g r have "infer_all E adv name infs cnt db1 = Inr (n, db')" by (simp add: Let_def)
      from Cons.IH [OF this] v show ?thesis by (auto simp: v1_keeps_def intro: v1_grows_trans)
    next
      case (Some w)
      with Cons.prems g r obtain db2 where 2: "relate_vulnerability E adv name (in_confidence i) w (in_references i)
          (in_affected i) (case in_fixed i of None \<Rightarrow> [] | Some p \<Rightarrow> [p]) (in_weaknesses i) db1 = Inr db2"
        "infer_all E adv name infs (Suc cnt) db2 = Inr (n, db')" by (auto simp: Let_def bind_result_Inr)
      have "w < length (v_vulns db1)" "v1_ok db1" using v Some by auto
      from relate_vulnerability_ok [OF 2(1) this] Cons.IH [OF 2(2)] v show ?thesis
        by (auto simp: v1_keeps_def intro: v1_grows_trans)
    qed
  qed
qed simp

lemma process_inferences_keeps: "process_inferences E now name k infs db = Inr (n, db') \<Longrightarrow> v1_keeps db db'"
  by (auto simp: process_inferences_def map_sum_Inr split: if_splits
      intro: v1_keeps_trans [OF infer_all_keeps set_imported_keeps])

lemma do_import_keeps: "v1_keeps db (snd (do_import E clk name ks db))"
proof (induction E clk name ks db rule: do_import.induct)
  case (2 E clk name k loaded ks db)
  show ?case
  proof (cases "loaded \<noteq> None \<or> (\<exists>e. to_advisory_data E db k = Inl e)")
    case True
    with 2(1) show ?thesis by auto
  next
    case False
    then obtain d where d: "loaded = None" "to_advisory_data E db k = Inr d"
      by (cases "to_advisory_data E db k") auto
    show ?thesis
    proof (cases "bind_result (get_inferences (v1_imp E) d) (\<lambda>infs. process_inferences E (clk k) name k infs db)")
      case (Inl e)
      with 2(2) d show ?thesis by (auto split: sum.split)
    next
      case (Inr x)
      obtain n db1 where x: "x = (n, db1)" by force
      then have "v1_keeps db db1" using Inr by (auto simp: bind_result_Inr dest: process_inferences_keeps)
      moreover have "v1_keeps db1 (snd (do_import E clk name ks db1))" using 2(3) d Inr x by auto
      ultimately show ?thesis using d Inr x by (auto intro: v1_keeps_trans)
    qed
  qed
qed simp

lemma store_all_keeps: "store_all E name ds ks cnt db = (e, ks', n, db') \<Longrightarrow> v1_keeps db db'"
proof (induction E name ds ks cnt db rule: store_all.induct)
  case (2 E name cid d ds ks cnt db)
  obtain ids t where g: "get_or_create_aliases (d1_aliases d) (v_aliases db) = (ids, t)" by force
  note k = get_or_create_aliases_keeps [OF g]
  show ?case
  proof (cases "data_dicts (env_ext (v1_imp E)) d")
    case (Inl e)
    with 2(3) show ?thesis by simp
  next
    case (Inr dicts)
    show ?thesis
    proof (cases "get_or_create_advisory_v1 E (advisory_row cid name d dicts) (db\<lparr>v_aliases := t\<rparr>)")
      case (Inl e)
      from 2(1) [OF Inr refl g [symmetric] refl Inl] 2(3) Inr g Inl k show ?thesis
        by (auto simp: Let_def intro: v1_keeps_trans)
    next
      case Inr1: (Inr x)
      obtain i cr db1 where x: "x = (i, cr, db1)" by (cases x) auto
      note k1 = v1_keeps_trans [OF v1_keeps_trans [OF k get_or_create_advisory_v1_keeps [OF Inr1 [unfolded x]]] add_advisory_aliases_keeps]
      from 2(2) [OF Inr refl g [symmetric] refl Inr1 x [symmetric] refl refl] 2(3) Inr g Inr1 x show ?thesis
        by (auto simp: Let_def intro: v1_keeps_trans [OF k1])
    qed
  qed
qed simp

lemma process_advisories_keeps: "process_advisories E clk improver name ds db = (r, db') \<Longrightarrow> v1_keeps db db'"
proof -
  assume run: "process_advisories E clk improver name ds db = (r, db')"
  obtain e ks n db1 where s: "store_all E name ds [] 0 db = (e, ks, n, db1)" by (metis prod_cases4)
  from store_all_keeps [OF s] run s do_import_keeps [of db1 E clk improver ks] show ?thesis
    by (cases e) (auto simp: process_advisories_def intro: v1_keeps_trans)
qed

lemma import_advisory_keeps: "import_advisory E now pid c k db = Inr db' \<Longrightarrow> v1_keeps db db'"
  unfolding v1_keeps_def using import_advisory_ok by blast

section \<open>Pages\<close>

lemma sort_key_eq_on: "(\<And>x. x \<in> set xs \<Longrightarrow> f x = g x) \<Longrightarrow> sort_key f xs = sort_key g xs"
proof (induction xs)
  case (Cons x xs)
  have "insort_key f x ys = insort_key g x ys" if "\<forall>y\<in>set ys. f y = g y" "f x = g x" for ys
    using that by (induction ys) auto
  with Cons show ?case by simp
qed simp

lemma nulls_last_filter: "filter P (nulls_last f xs) = nulls_last f (filter P xs)"
  by (simp add: nulls_last_def filter_sort conj_commute)

lemma nulls_last_eq_on: "(\<And>x. x \<in> set xs \<Longrightarrow> f x = g x) \<Longrightarrow> nulls_last f xs = nulls_last g xs"
  unfolding nulls_last_def by (intro arg_cong2 [where f = "(@)"] filter_cong) (auto cong: filter_cong intro!: sort_key_eq_on)

text \<open>The advisories of \<open>t\<close> with those in \<open>D\<close> dated.\<close>

definition dated_in :: "nat set \<Rightarrow> 'd advisory_v1 list \<Rightarrow> 'd advisory_v1 list \<Rightarrow> bool" where
  "dated_in D t t' \<longleftrightarrow> length t' = length t \<and> (\<forall>i<length t. if i \<in> D then \<exists>now. t' ! i = (t ! i)\<lparr>a1_imported := Some now\<rparr> else t' ! i = t ! i)"

lemma dated_in_trans:
  assumes "dated_in D1 t u" "dated_in D2 u w"
  shows "dated_in (D1 \<union> D2) t w"
  unfolding dated_in_def
proof (intro conjI allI impI)
  fix i assume i: "i < length t"
  have 1: "if i \<in> D1 then \<exists>now. u ! i = (t ! i)\<lparr>a1_imported := Some now\<rparr> else u ! i = t ! i"
    and 2: "if i \<in> D2 then \<exists>now. w ! i = (u ! i)\<lparr>a1_imported := Some now\<rparr> else w ! i = u ! i"
    using assms i by (simp_all add: dated_in_def)
  show "if i \<in> D1 \<union> D2 then \<exists>now. w ! i = (t ! i)\<lparr>a1_imported := Some now\<rparr> else w ! i = t ! i"
    using 1 2 by (cases "i \<in> D1"; cases "i \<in> D2") auto
qed (use assms in \<open>simp add: dated_in_def\<close>)

lemma new_advisories_dated:
  assumes "dated_in D (v_advisories db) (v_advisories db')"
  shows "new_advisories pid db' = filter (\<lambda>k. k \<notin> D) (new_advisories pid db)"
proof -
  let ?t = "v_advisories db" and ?t' = "v_advisories db'"
  have len: "length ?t' = length ?t" using assms by (simp add: dated_in_def)
  have keys: "a1_published (?t' ! k) = a1_published (?t ! k)" "a1_content_id (?t' ! k) = a1_content_id (?t ! k)" if "k < length ?t" for k
    using assms that by (auto simp: dated_in_def split: if_splits)
  have rows: "rows_where (\<lambda>r. a1_created_by r = pid \<and> a1_imported r = None) ?t' =
      filter (\<lambda>k. k \<notin> D) (rows_where (\<lambda>r. a1_created_by r = pid \<and> a1_imported r = None) ?t)"
    unfolding rows_where_def filter_filter len
  proof (rule filter_cong)
    fix k assume "k \<in> set [0..<length ?t]"
    then have "if k \<in> D then \<exists>now. ?t' ! k = (?t ! k)\<lparr>a1_imported := Some now\<rparr> else ?t' ! k = ?t ! k"
      using assms by (simp add: dated_in_def)
    then show "(a1_created_by (?t' ! k) = pid \<and> a1_imported (?t' ! k) = None) \<longleftrightarrow>
        (a1_created_by (?t ! k) = pid \<and> a1_imported (?t ! k) = None) \<and> k \<notin> D"
      by (auto split: if_splits)
  qed simp
  let ?rows = "rows_where (\<lambda>r. a1_created_by r = pid \<and> a1_imported r = None)"
  have in_range: "k \<in> set (?rows ?t') \<Longrightarrow> k < length ?t" for k by (simp add: rows_where_iff len)
  have "sort_key (\<lambda>k. a1_content_id (?t' ! k)) (?rows ?t') = sort_key (\<lambda>k. a1_content_id (?t ! k)) (?rows ?t')"
    using in_range keys by (intro sort_key_eq_on) auto
  then have "new_advisories pid db' = nulls_last (\<lambda>k. a1_published (?t' ! k)) (sort_key (\<lambda>k. a1_content_id (?t ! k)) (?rows ?t'))"
    by (simp add: new_advisories_def Let_def)
  also have "\<dots> = nulls_last (\<lambda>k. a1_published (?t ! k)) (sort_key (\<lambda>k. a1_content_id (?t ! k)) (?rows ?t'))"
    using in_range keys by (intro nulls_last_eq_on) auto
  also have "\<dots> = filter (\<lambda>k. k \<notin> D) (new_advisories pid db)"
    by (simp add: rows new_advisories_def Let_def nulls_last_filter filter_sort)
  finally show ?thesis .
qed

lemma try_imports_dated:
  "v1_ok db \<Longrightarrow> v1_ok (fold (try_import E clk pid c) ks db) \<and>
   (\<exists>D\<subseteq>set ks. dated_in D (v_advisories db) (v_advisories (fold (try_import E clk pid c) ks db)))"
proof (induction ks arbitrary: db)
  case Nil
  then show ?case by (simp add: dated_in_def)
next
  case (Cons k ks)
  let ?db1 = "try_import E clk pid c k db"
  have 1: "v1_ok ?db1 \<and> (v_advisories ?db1 = v_advisories db \<or>
      v_advisories ?db1 = (v_advisories db)[k := (v_advisories db ! k)\<lparr>a1_imported := Some (clk k)\<rparr>])"
  proof (cases "import_advisory E (clk k) pid c k db")
    case (Inr db')
    with import_advisory_ok [OF Inr Cons.prems] show ?thesis by (auto simp: try_import_def)
  qed (use Cons.prems in \<open>simp add: try_import_def\<close>)
  then obtain D1 where D1: "D1 \<subseteq> {k}" "dated_in D1 (v_advisories db) (v_advisories ?db1)"
  proof (elim conjE disjE)
    assume "v_advisories ?db1 = v_advisories db"
    then show thesis by (intro that [of "{}"]) (auto simp: dated_in_def)
  next
    assume "v_advisories ?db1 = (v_advisories db)[k := (v_advisories db ! k)\<lparr>a1_imported := Some (clk k)\<rparr>]"
    then show thesis by (intro that [of "{k}"]) (auto simp: dated_in_def nth_update_if)
  qed
  obtain D where D: "D \<subseteq> set ks" "dated_in D (v_advisories ?db1) (v_advisories (fold (try_import E clk pid c) ks ?db1))"
    and ok: "v1_ok (fold (try_import E clk pid c) ks ?db1)"
    using Cons.IH [of ?db1] 1 by blast
  have "dated_in (D1 \<union> D) (v_advisories db) (v_advisories (fold (try_import E clk pid c) ks ?db1))"
    by (rule dated_in_trans [OF D1(2) D(2)])
  then show ?case using D1(1) D(1) ok by (intro conjI exI [of _ "D1 \<union> D"]) auto
qed


text \<open>
  C25: Going through new advisories page by page, a page at a time from what is still new, leaves out those of
  every second page: when all of the first page have been imported, the second one is beyond the end of
  the rows that are left, and the run ends with them still new.
\<close>

theorem second_page_not_imported:
  assumes "v1_ok db" "0 < s" "s < length (new_advisories pid db)" "length (new_advisories pid db) \<le> 2 * s"
    "db1 = fold (try_import E clk pid c) (take s (new_advisories pid db)) db"
    "list_all (\<lambda>k. a1_imported (v_advisories db1 ! k) \<noteq> None) (take s (new_advisories pid db))"
  shows "import_new_advisories E clk pid c s db = db1 \<and> new_advisories pid db1 = drop s (new_advisories pid db)"
proof -
  let ?rows = "new_advisories pid db" and ?n = "length (new_advisories pid db)"
  obtain D where D: "D \<subseteq> set (take s ?rows)" "dated_in D (v_advisories db) (v_advisories db1)"
    using try_imports_dated [OF assms(1), of E clk pid c "take s ?rows"] assms(5) by blast
  have mem: "k \<in> set ?rows \<longleftrightarrow> k < length (v_advisories db) \<and> a1_created_by (v_advisories db ! k) = pid \<and> a1_imported (v_advisories db ! k) = None" for k
    by (auto simp: new_advisories_def Let_def nulls_last_def rows_where_iff)
  have d: "distinct ?rows" by (auto simp: new_advisories_def Let_def nulls_last_def rows_where_def)
  have all: "D = set (take s ?rows)"
  proof
    show "set (take s ?rows) \<subseteq> D"
    proof
      fix k assume k: "k \<in> set (take s ?rows)"
      then have "k \<in> set ?rows" by (rule in_set_takeD)
      then have "k < length (v_advisories db)" "a1_imported (v_advisories db ! k) = None" by (simp_all add: mem)
      moreover have "a1_imported (v_advisories db1 ! k) \<noteq> None" using assms(6) k by (simp add: list_all_iff)
      ultimately show "k \<in> D" using D(2) by (auto simp: dated_in_def split: if_splits)
    qed
  qed (rule D(1))
  have "filter (\<lambda>k. k \<notin> set (take s ?rows)) (take s ?rows @ drop s ?rows) = drop s ?rows"
  proof -
    have "set (take s ?rows) \<inter> set (drop s ?rows) = {}" using d by (metis append_take_drop_id distinct_append)
    then show ?thesis by (auto simp: filter_empty_conv filter_id_conv simp del: append_take_drop_id)
  qed
  then have rest: "new_advisories pid db1 = drop s ?rows" unfolding new_advisories_dated [OF D(2)] all by simp
  have "(?n + s - 1) div s = 2"
    using assms(2-4) by (intro div_nat_eqI) auto
  then have pages: "[0..<num_pages s ?n] = [0, 1]" by (simp add: num_pages_def upt_rec)
  have first: "page_of s ?n 0 ?rows = take s ?rows" using assms(3) by (simp add: page_of_def)
  have second: "page_of s ?n 1 (new_advisories pid db1) = []" using assms(4) by (simp add: rest page_of_def Let_def)
  have "import_new_advisories E clk pid c s db = db1"
    by (simp add: import_new_advisories_def pages [unfolded One_nat_def] first second [unfolded One_nat_def] flip: assms(5))
  with rest show ?thesis by simp
qed

section \<open>A small database\<close>

definition demo_v1_env :: "(nat, nat, nat) v1_env" where
  "demo_v1_env = \<lparr>v1_imp = demo_env, vcid = (\<lambda>n. CHR ''V'' # replicate n (CHR ''x'')), valid_url = (\<lambda>u. u \<noteq> []),
     importer_name = (\<lambda>_. [])\<rparr>"

definition demo_v1_advisory :: "nat \<Rightarrow> nat list \<Rightarrow> json list \<Rightarrow> nat advisory_v1" where
  "demo_v1_advisory n aliases refs = \<lparr>a1_content_id = replicate n (CHR ''c''), a1_aliases = aliases, a1_summary = ''s'',
     a1_affected = [JObj [(''package'', JObj [(''type'', JStr ''npm''), (''name'', JStr ''a'')]),
       (''affected_version_range'', JStr ''xyz''), (''fixed_version'', JNull)]],
     a1_references = refs, a1_published = None, a1_weaknesses = [79], a1_created_by = ''p'', a1_imported = None, a1_url = ''u''\<rparr>"

definition demo_v1_ref :: json where
  "demo_v1_ref = JObj [(''reference_id'', JStr ''i''), (''url'', JStr ''u''), (''severities'', JArr [])]"

definition demo_v1_db :: "nat advisory_v1 list \<Rightarrow> nat v1_db" where
  "demo_v1_db advs = \<lparr>v_aliases = [\<lparr>al_name = ''CVE-1'', al_vuln = None\<rparr>, \<lparr>al_name = ''CVE-2'', al_vuln = None\<rparr>],
     v_vulns = [], v_references = [], v_severities = [], v_packages = [], v_affected = [], v_fixing = [],
     v_weaknesses = [], v_log = [], v_advisories = advs\<rparr>"

abbreviation demo_v1_two :: "nat v1_db" where
  "demo_v1_two \<equiv> demo_v1_db [demo_v1_advisory 0 [0] [demo_v1_ref], demo_v1_advisory 1 [1] []]"

lemma demo_v1_ok: "v1_ok (demo_v1_db [demo_v1_advisory 0 [0] refs, demo_v1_advisory 1 [1] refs'])"
  by (simp add: v1_ok_def aliases_ok_def relations_ok_def demo_v1_db_def demo_v1_advisory_def)

definition demo_v1_imported :: "nat v1_db" where
  "demo_v1_imported = try_import demo_v1_env int ''p'' 100 0 demo_v1_two"

lemma demo_v1_imports: "import_advisory demo_v1_env 0 ''p'' 100 0 demo_v1_two = Inr demo_v1_imported"
proof -
  have "\<not> isl (import_advisory demo_v1_env 0 ''p'' 100 0 demo_v1_two)" by code_simp
  then show ?thesis by (cases "import_advisory demo_v1_env 0 ''p'' 100 0 demo_v1_two") (simp_all add: demo_v1_imported_def try_import_def)
qed

definition demo_v1_data :: "(nat, nat, nat) adv_data_v1" where
  "demo_v1_data = projr (to_advisory_data demo_v1_env demo_v1_two 0)"

lemma import_advisory_exact_witness:
  "\<exists>v. imported_as demo_v1_env 100 demo_v1_data demo_v1_imported v"
proof -
  have d: "to_advisory_data demo_v1_env demo_v1_two 0 = Inr demo_v1_data"
  proof -
    have "\<not> isl (to_advisory_data demo_v1_env demo_v1_two 0)" by code_simp
    then show ?thesis unfolding demo_v1_data_def by (cases "to_advisory_data demo_v1_env demo_v1_two 0") simp_all
  qed
  obtain ids t where g: "get_or_create_aliases (d1_aliases demo_v1_data) (v_aliases demo_v1_two) = (ids, t)" by force
  have "v_vulns demo_v1_imported \<noteq> []" by code_simp
  then have n: "v_vulns demo_v1_imported \<noteq> v_vulns demo_v1_two" by (simp add: demo_v1_db_def)
  from import_advisory_exact [OF demo_v1_imports demo_v1_ok d g] n show ?thesis by blast
qed

lemma second_page_not_imported_witness:
  "new_advisories ''p'' (import_new_advisories demo_v1_env int ''p'' 100 1 demo_v1_two) = [1]"
proof -
  have rows: "new_advisories ''p'' demo_v1_two = [0, 1]" by code_simp
  have i: "a1_imported (v_advisories (fold (try_import demo_v1_env int ''p'' 100) [0] demo_v1_two) ! 0) \<noteq> None" by code_simp
  have c: "0 < (1::nat)" "1 < length (new_advisories ''p'' demo_v1_two)" "length (new_advisories ''p'' demo_v1_two) \<le> 2 * 1"
    "fold (try_import demo_v1_env int ''p'' 100) [0] demo_v1_two =
       fold (try_import demo_v1_env int ''p'' 100) (take 1 (new_advisories ''p'' demo_v1_two)) demo_v1_two"
    "list_all (\<lambda>k. a1_imported (v_advisories (fold (try_import demo_v1_env int ''p'' 100) [0] demo_v1_two) ! k) \<noteq> None)
       (take 1 (new_advisories ''p'' demo_v1_two))"
    using i unfolding rows by simp_all
  from second_page_not_imported [OF demo_v1_ok c] show ?thesis unfolding rows by simp
qed

section \<open>What goes wrong\<close>

text \<open>
  An advisory whose aliases name two vulnerabilities is dated as imported by the import runner although
  nothing of it was stored, where \<open>import_advisory\<close> leaves it among the new ones.
\<close>

definition demo_v1_split :: "nat v1_db" where
  "demo_v1_split = demo_v1_two\<lparr>v_aliases := [\<lparr>al_name = ''CVE-1'', al_vuln = Some 0\<rparr>, \<lparr>al_name = ''CVE-2'', al_vuln = Some 1\<rparr>],
     v_vulns := map (\<lambda>n. \<lparr>vu_id = n, vu_summary = [], vu_references = [], vu_severities = [], vu_weaknesses = []\<rparr>) [''A'', ''B''],
     v_advisories := [demo_v1_advisory 0 [0, 1] []]\<rparr>"

lemma imported_without_vulnerability:
  "let db = snd (do_import demo_v1_env int ''r'' [(0, None)] demo_v1_split)
   in a1_imported (v_advisories db ! 0) = Some 0 \<and> v_affected db = [] \<and> v_packages db = [] \<and>
      (\<not> isl (import_advisory demo_v1_env 0 ''p'' 100 0 demo_v1_split) \<and>
       a1_imported (v_advisories (projr (import_advisory demo_v1_env 0 ''p'' 100 0 demo_v1_split)) ! 0) = None)"
  by code_simp

text \<open>An advisory whose stored references cannot be read ends the import: those after it stay new.\<close>

lemma bad_advisory_stops_import:
  "let (e, db) = do_import demo_v1_env int ''r'' [(0, None), (1, None)]
         (demo_v1_db [demo_v1_advisory 0 [0] [JObj []], demo_v1_advisory 1 [1] []])
   in e = Some AttributeError \<and> map a1_imported (v_advisories db) = [None, None]"
  by code_simp

text \<open>A reference is not related to the vulnerability when its URL is stored with another identifier.\<close>

lemma reference_of_other_id_lost:
  "let db = demo_v1_imported; ref = \<lparr>r1_id = ''j'', r1_type = [], r1_url = ''u'', r1_severities = []\<rparr>
   in vu_references (v_vulns db ! 0) = [0] \<and>
      add_reference demo_v1_env 0 ref (db\<lparr>v_vulns := [(v_vulns db ! 0)\<lparr>vu_references := []\<rparr>]\<rparr>) =
        db\<lparr>v_vulns := [(v_vulns db ! 0)\<lparr>vu_references := []\<rparr>]\<rparr>"
  by code_simp

end
