(* ===== verification/VulnImprove.thy ===== *)
theory VulnImprove
  imports VulnImport
begin

text \<open>
  \<open>vulnerabilities/improve_runner.py\<close>: the inferences of an improver, stored with operations of the
  same names as those of the import runner that differ from them in places.
\<close>

section \<open>Aliases and vulnerabilities\<close>

definition associate_new_aliases :: "string list \<Rightarrow> nat \<Rightarrow> alias_v1 list \<Rightarrow> alias_v1 list" where
  "associate_new_aliases names v t = t @ map (\<lambda>n. \<lparr>al_name = n, al_vuln = Some v\<rparr>) names"

definition create_vulnerability_with_aliases ::
    "('r, 'v, 'd) v1_env \<Rightarrow> string list \<Rightarrow> string option \<Rightarrow> 'd v1_db \<Rightarrow> (nat \<times> 'd v1_db) result" where
  "create_vulnerability_with_aliases E names summary db =
     (let v = length (v_vulns db)
      in if list_ex (\<lambda>r. vu_id r = vcid E v) (v_vulns db) \<or> summary = None then Inl IntegrityError
         else if names = [] then Inl PlainException
         else Inr (v, db\<lparr>v_vulns := v_vulns db @ [\<lparr>vu_id = vcid E v, vu_summary = the summary,
                           vu_references = [], vu_severities = [], vu_weaknesses = []\<rparr>],
                         v_aliases := associate_new_aliases names v (v_aliases db)\<rparr>))"

text \<open>
  The set of the vulnerabilities of the aliases has \<open>None\<close> for an alias without one, and the code reads
  its identifier.
\<close>

definition improve_vulnerability ::
    "('r, 'v, 'd) v1_env \<Rightarrow> string list \<Rightarrow> string option \<Rightarrow> string option \<Rightarrow> 'd advisory_v1 \<Rightarrow> 'd v1_db \<Rightarrow>
       (nat option \<times> 'd v1_db) result" where
  "improve_vulnerability E names vid summary adv db =
     (let aliases = dedupe (filter (\<lambda>n. n \<noteq> []) (map strip names));
          existing = dedupe (map al_vuln (filter (\<lambda>a. al_name a \<in> set aliases) (v_aliases db)));
          new = filter (\<lambda>n. n \<notin> al_name ` set (v_aliases db)) aliases;
          found = (\<lambda>v. Inr (Some v, db\<lparr>v_aliases := associate_new_aliases new v (v_aliases db)\<rparr>));
          create = (case create_vulnerability_with_aliases E new summary db of
              Inl _ \<Rightarrow> Inr (None, db) | Inr (v, db) \<Rightarrow> Inr (Some v, log_import E adv v db))
      in case existing of
           [] \<Rightarrow> if truthy_opt vid then
               (case rows_where (\<lambda>r. Some (vu_id r) = vid) (v_vulns db) of [] \<Rightarrow> Inr (None, db) | v # _ \<Rightarrow> found v)
             else create
         | [None] \<Rightarrow> if truthy_opt vid then Inl AttributeError else create
         | [Some v] \<Rightarrow> if truthy_opt vid \<and> Some (vu_id (v_vulns db ! v)) \<noteq> vid then Inr (None, db) else found v
         | _ \<Rightarrow> if None \<in> set existing then Inl AttributeError else Inr (None, db))"

section \<open>References\<close>

definition REFERENCE_TYPES :: "string list" where
  "REFERENCE_TYPES = [''advisory'', ''exploit'', ''mailing_list'', ''bug'', ''other'']"

text \<open>
  A reference that is not valid is passed over with its severities; a severity is looked up by a field
  that its table does not have.
\<close>

definition improve_reference :: "('r, 'v, 'd) v1_env \<Rightarrow> nat \<Rightarrow> 'd reference_v1 \<Rightarrow> 'd v1_db \<Rightarrow> 'd v1_db result" where
  "improve_reference E v ref db =
     (let t = v_references db;
          row = \<lparr>ref_id = r1_id ref, ref_type = r1_type ref, ref_url = r1_url ref\<rparr>;
          relate = (\<lambda>i t. if r1_severities ref \<noteq> [] then Inl FieldError
             else Inr (change_vuln v (\<lambda>r. r\<lparr>vu_references := insert_new i (vu_references r)\<rparr>) (db\<lparr>v_references := t\<rparr>)))
      in case rows_where (\<lambda>r. r = row) t of
           i # _ \<Rightarrow> relate i t
         | [] \<Rightarrow> if valid_url E (r1_url ref) \<and> (r1_type ref = [] \<or> r1_type ref \<in> set REFERENCE_TYPES) \<and>
               \<not> list_ex (\<lambda>r. ref_url r = r1_url ref) t
             then relate (length t) (t @ [row]) else Inr db)"

section \<open>The improve runner\<close>

fun improve_all ::
    "('r, 'v, 'd) v1_env \<Rightarrow> 'd advisory_v1 \<Rightarrow> string \<Rightarrow> 'd inference list \<Rightarrow> nat \<Rightarrow> 'd v1_db \<Rightarrow> (nat \<times> 'd v1_db) result" where
  "improve_all E adv name [] cnt db = Inr (cnt, db)"
| "improve_all E adv name (i # is) cnt db =
     bind_result (improve_vulnerability E (in_aliases i) (in_vid i) (in_summary i) adv db) (\<lambda>(r, db).
       case r of None \<Rightarrow> improve_all E adv name is cnt db
       | Some v \<Rightarrow> bind_result (fold_result (improve_reference E v) (in_references i) db) (\<lambda>db.
           bind_result (relate_vulnerability E adv name (in_confidence i) v [] (in_affected i)
             (case in_fixed i of None \<Rightarrow> [] | Some p \<Rightarrow> [p]) (in_weaknesses i) db)
             (improve_all E adv name is (Suc cnt))))"

text \<open>\<open>infer\<close> is \<open>get_inferences\<close> of the improver; the exception of an advisory is logged.\<close>

fun improve_run ::
    "('r, 'v, 'd) v1_env \<Rightarrow> (('r, 'v, 'd) adv_data_v1 \<Rightarrow> 'd inference list result) \<Rightarrow> string \<Rightarrow> nat list \<Rightarrow> 'd v1_db \<Rightarrow> 'd v1_db" where
  "improve_run E infer name [] db = db"
| "improve_run E infer name (k # ks) db =
     improve_run E infer name ks
       (case bind_result (bind_result (to_advisory_data E db k) infer)
               (\<lambda>infs. improve_all E (v_advisories db ! k) name infs 0 db) of
          Inl _ \<Rightarrow> db | Inr (_, db) \<Rightarrow> db)"

section \<open>What the improve runner keeps\<close>

lemma associate_new_ok:
  assumes "aliases_ok t vs" "distinct names" "set names \<inter> al_name ` set t = {}" "v < length vs'" "length vs \<le> length vs'"
    "\<forall>w<length vs'. w < length vs \<or> w = v" "v < length vs \<or> names \<noteq> []"
  shows "aliases_ok (associate_new_aliases names v t) vs' \<and> aliases_grow t (associate_new_aliases names v t)"
proof -
  have "\<exists>a\<in>set (associate_new_aliases names v t). al_vuln a = Some w" if "w < length vs'" for w
    using assms(1,6,7) that by (cases names) (auto simp: associate_new_aliases_def aliases_ok_def)
  moreover have "distinct (map al_name (associate_new_aliases names v t))"
    using assms(1-3) by (auto simp: associate_new_aliases_def aliases_ok_def comp_def)
  moreover have "w < length vs'" if "a \<in> set (associate_new_aliases names v t)" "al_vuln a = Some w" for a w
    using that assms(1,4,5) by (auto simp: associate_new_aliases_def aliases_ok_def dest: order.strict_trans2)
  moreover have "aliases_grow t (associate_new_aliases names v t)"
    by (simp add: associate_new_aliases_def aliases_grow_def nth_append)
  ultimately show ?thesis by (auto simp: aliases_ok_def)
qed

lemma improve_vulnerability_ok:
  assumes ok: "v1_ok db" and run: "improve_vulnerability E names vid summary adv db = Inr (r, db')"
  shows "v1_ok db' \<and> v1_grows db db' \<and> (case r of None \<Rightarrow> db' = db | Some v \<Rightarrow> v < length (v_vulns db'))"
proof -
  let ?als = "dedupe (filter (\<lambda>n. n \<noteq> []) (map strip names))"
  let ?ex = "dedupe (map al_vuln (filter (\<lambda>a. al_name a \<in> set ?als) (v_aliases db)))"
  let ?new = "filter (\<lambda>n. n \<notin> al_name ` set (v_aliases db)) ?als"
  let ?found = "\<lambda>v. db\<lparr>v_aliases := associate_new_aliases ?new v (v_aliases db)\<rparr>"
  have aok: "aliases_ok (v_aliases db) (v_vulns db)" using ok by (simp add: v1_ok_def)
  have n: "distinct ?new" "set ?new \<inter> al_name ` set (v_aliases db) = {}" by (auto simp: distinct_dedupe)
  have found: ?thesis if "r = Some v" "db' = ?found v" "v < length (v_vulns db)" for v
  proof -
    have "aliases_ok (associate_new_aliases ?new v (v_aliases db)) (v_vulns db) \<and> aliases_grow (v_aliases db) (associate_new_aliases ?new v (v_aliases db))"
      by (rule associate_new_ok [OF aok n that(3)]) (use that(3) in auto)
    then show ?thesis using that ok by (simp add: v1_ok_def v1_grows_def)
  qed
  have create: ?thesis
    if "(case create_vulnerability_with_aliases E ?new summary db of
              Inl _ \<Rightarrow> Inr (None, db) | Inr (v, db) \<Rightarrow> Inr (Some v, log_import E adv v db)) = Inr (r, db')"
  proof (cases "create_vulnerability_with_aliases E ?new summary db")
    case (Inl e)
    with that ok show ?thesis by simp
  next
    case (Inr p)
    let ?v = "length (v_vulns db)"
    let ?row = "\<lparr>vu_id = vcid E ?v, vu_summary = the summary, vu_references = [], vu_severities = [], vu_weaknesses = []\<rparr>"
    have c: "\<not> list_ex (\<lambda>r. vu_id r = vcid E ?v) (v_vulns db)" "?new \<noteq> []"
      "p = (?v, db\<lparr>v_vulns := v_vulns db @ [?row], v_aliases := associate_new_aliases ?new ?v (v_aliases db)\<rparr>)"
      using Inr unfolding create_vulnerability_with_aliases_def Let_def by (auto split: if_splits)
    have "aliases_ok (associate_new_aliases ?new ?v (v_aliases db)) (v_vulns db @ [?row]) \<and>
        aliases_grow (v_aliases db) (associate_new_aliases ?new ?v (v_aliases db))"
      by (rule associate_new_ok [OF aok n]) (use c(2) in auto)
    moreover have "distinct (map vu_id (v_vulns db @ [?row]))" using ok c(1) by (auto simp: v1_ok_def list_ex_iff)
    moreover have "r = Some ?v" "db' = log_import E adv ?v (snd p)" using that Inr c(3) by auto
    ultimately show ?thesis using ok c(3) vulns_append by (simp add: v1_ok_def v1_grows_def log_import_def)
  qed
  have range: "v < length (v_vulns db)" if "Some v \<in> set ?ex" for v
    using that aok by (auto simp: aliases_ok_def)
  note run = run [unfolded improve_vulnerability_def Let_def]
  consider "?ex = []" | "?ex = [None]" | v where "?ex = [Some v]" | x y zs where "?ex = x # y # zs"
    by (metis list.exhaust option.exhaust)
  then show ?thesis
  proof cases
    case 1
    show ?thesis
    proof (cases "truthy_opt vid")
      case True
      show ?thesis
      proof (cases "rows_where (\<lambda>r. Some (vu_id r) = vid) (v_vulns db)")
        case Nil
        with run 1 True ok show ?thesis by simp
      next
        case (Cons v vs)
        with run 1 True rows_where_first [OF Cons] show ?thesis by (intro found [of v]) simp_all
      qed
    next
      case False
      with run 1 show ?thesis by (intro create) simp
    qed
  next
    case 2
    with run show ?thesis by (intro create) (simp split: if_splits)
  next
    case (3 v)
    have v: "v < length (v_vulns db)" by (rule range) (simp only: 3 list.set insert_iff simp_thms)
    show ?thesis
    proof (cases "truthy_opt vid \<and> Some (vu_id (v_vulns db ! v)) \<noteq> vid")
      case True
      with run 3 ok show ?thesis by simp
    next
      case False
      with run 3 v show ?thesis by (intro found [of v]) (simp_all only: list.case option.case if_False Inr_Inl_False sum.inject prod.inject)
    qed
  next
    case 4
    with run ok show ?thesis by (auto split: if_splits option.splits)
  qed
qed

lemma improve_reference_keeps:
  assumes "improve_reference E v ref db = Inr db'"
  shows "v1_keeps db db' \<and> length (v_vulns db') = length (v_vulns db)"
proof -
  have r: "v1_keeps db (change_vuln v (\<lambda>r. r\<lparr>vu_references := insert_new i (vu_references r)\<rparr>) (db\<lparr>v_references := t\<rparr>))"
    if "distinct (map ref_url (v_references db)) \<Longrightarrow> distinct (map ref_url t)" for i t
    by (rule v1_keeps_trans [OF v1_keeps_tables(4) [OF that] change_vuln_keeps(1)]) simp_all
  have u: False if "\<not> list_ex (\<lambda>r. ref_url r = ref_url x) (v_references db)" "x \<in> set (v_references db)" for x
    using that by (auto simp: list_ex_iff)
  show ?thesis using assms
    by (auto simp: improve_reference_def Let_def change_vuln_keeps(2) split: list.splits if_splits intro!: r change_vuln_keeps(1))
      (use u in blast)+
qed

lemma improve_all_keeps: "improve_all E adv name infs cnt db = Inr (n, db') \<Longrightarrow> v1_keeps db db'"
proof (induction infs arbitrary: cnt db)
  case (Cons i infs)
  from Cons.prems obtain r db1 where r: "improve_vulnerability E (in_aliases i) (in_vid i) (in_summary i) adv db = Inr (r, db1)"
    by (auto simp: bind_result_Inr)
  show ?case
    unfolding v1_keeps_def
  proof
    assume ok: "v1_ok db"
    note v = improve_vulnerability_ok [OF ok r]
    show "v1_ok db' \<and> v1_grows db db'"
    proof (cases r)
      case None
      with Cons.prems r have "improve_all E adv name infs cnt db1 = Inr (n, db')" by simp
      from Cons.IH [OF this] v show ?thesis by (auto simp: v1_keeps_def intro: v1_grows_trans)
    next
      case (Some w)
      with Cons.prems r obtain db2 db3 where 2: "fold_result (improve_reference E w) (in_references i) db1 = Inr db2"
        "relate_vulnerability E adv name (in_confidence i) w [] (in_affected i) (case in_fixed i of None \<Rightarrow> [] | Some p \<Rightarrow> [p])
           (in_weaknesses i) db2 = Inr db3"
        "improve_all E adv name infs (Suc cnt) db3 = Inr (n, db')" by (auto simp: bind_result_Inr)
      have w: "w < length (v_vulns db1)" "v1_ok db1" "v1_grows db db1" using v Some by auto
      have k: "v1_keeps db1 db2 \<and> w < length (v_vulns db2)"
        by (rule fold_result_keeps [OF _ 2(1) w(1)]) (use improve_reference_keeps in fastforce)
      then have "w < length (v_vulns db2)" "v1_ok db2" "v1_grows db1 db2" using w(2) by (auto simp: v1_keeps_def)
      with relate_vulnerability_ok [OF 2(2)] Cons.IH [OF 2(3)] w(3) show ?thesis
        by (auto simp: v1_keeps_def intro: v1_grows_trans)
    qed
  qed
qed simp

lemma improve_run_keeps: "v1_keeps db (improve_run E infer name ks db)"
proof (induction ks arbitrary: db)
  case (Cons k ks)
  show ?case
  proof (cases "bind_result (bind_result (to_advisory_data E db k) infer) (\<lambda>infs. improve_all E (v_advisories db ! k) name infs 0 db)")
    case (Inl e)
    with Cons show ?thesis by simp
  next
    case (Inr x)
    obtain n db1 where x: "x = (n, db1)" by force
    then have "v1_keeps db db1" using Inr by (auto simp: bind_result_Inr dest: improve_all_keeps)
    with Cons [of db1] Inr x show ?thesis by (auto intro: v1_keeps_trans)
  qed
qed simp

section \<open>All the runners together\<close>

text \<open>The operations of the pipelines, of the import runner and of the improve runner.\<close>

inductive v1_step :: "('r, 'v, 'd::linorder) v1_env \<Rightarrow> 'd v1_db \<Rightarrow> 'd v1_db \<Rightarrow> bool" for E where
  v1_insert: "insert_advisory E cid pid d db = (r, db') \<Longrightarrow> v1_step E db db'"
| v1_import: "import_advisory E now pid c k db = Inr db' \<Longrightarrow> v1_step E db db'"
| v1_improve: "db' = improve_run E infer name ks db \<Longrightarrow> v1_step E db db'"
| v1_runner: "process_advisories E clk improver name ds db = (r, db') \<Longrightarrow> v1_step E db db'"

text \<open>
  C7: In every state that imports can reach, aliases, vulnerability identifiers, reference URLs and content
  identifiers are unique, every vulnerability has an alias, and relations are between existing rows, one for a
  package and a vulnerability; and no import takes an alias from its vulnerability or lowers the
  confidence of a relation.
\<close>

theorem v1_reachable_ok:
  assumes "(v1_step E)\<^sup>*\<^sup>* db db'" "v1_ok db"
  shows "v1_ok db' \<and> v1_grows db db'"
proof -
  have "v1_keeps db db'" using assms(1)
  proof (induction rule: rtranclp_induct)
    case (step y z)
    from step(2) have "v1_keeps y z"
      by cases (blast intro: insert_advisory_keeps import_advisory_keeps process_advisories_keeps improve_run_keeps)+
    with step(3) show ?case by (rule v1_keeps_trans)
  qed simp
  with assms(2) show ?thesis by (simp add: v1_keeps_def)
qed

lemma v1_reachable_ok_witness: "v1_ok demo_v1_imported \<and> v1_grows demo_v1_two demo_v1_imported"
  using v1_reachable_ok [OF r_into_rtranclp [of "v1_step demo_v1_env", OF v1_import [OF demo_v1_imports]] demo_v1_ok] by simp

section \<open>What goes wrong\<close>

text \<open>
  An inference with a severity fails whole; and the aliases that an importer has stored, still without a
  vulnerability, do not get one.
\<close>

definition demo_inference :: "nat severity list \<Rightarrow> nat inference" where
  "demo_inference ss = \<lparr>in_vid = None, in_aliases = [''CVE-9''], in_confidence = 100, in_summary = Some ''s'',
     in_affected = [], in_fixed = None,
     in_references = [\<lparr>r1_id = ''i'', r1_type = [], r1_url = ''u'', r1_severities = ss\<rparr>], in_weaknesses = []\<rparr>"

lemma improver_loses_severities:
  "length (v_vulns (improve_run demo_v1_env (\<lambda>_. Inr [demo_inference []]) ''i'' [0] demo_v1_two)) = 1 \<and>
   v_vulns (improve_run demo_v1_env (\<lambda>_. Inr [demo_inference [\<lparr>sev_system = ''cvssv3'', sev_value = ''9'', sev_elements = [],
     sev_published = None, sev_url = None\<rparr>]]) ''i'' [0] demo_v1_two) = []"
  by code_simp

lemma stored_alias_gets_no_vulnerability:
  "improve_vulnerability demo_v1_env [''CVE-1''] None (Some ''s'') (demo_v1_advisory 0 [0] []) demo_v1_two = Inr (None, demo_v1_two) \<and>
   improve_vulnerability demo_v1_env [''CVE-1''] (Some ''A'') (Some ''s'') (demo_v1_advisory 0 [0] []) demo_v1_two = Inl AttributeError"
  by code_simp

end
