(* ===== verification/Exploits.thy ===== *)
theory Exploits
  imports Importer GroupViews
begin

text \<open>
  The pipelines that store known exploits of the second generation: \<open>enhance_with_kev.py\<close>,
  \<open>enhance_with_exploitdb.py\<close>, \<open>enhance_with_metasploit.py\<close> and \<open>enhance_with_github_poc.py\<close> of
  \<open>pipelines/v2_improvers\<close>. The fetched data is an argument. \<open>prep\<close> is what a column stores of a value,
  or its \<open>ValidationError\<close>.
\<close>

section \<open>The table of exploits\<close>

text \<open>The other columns by their name; an absent one has its default.\<close>

record exploit_row =
  ex_advisory :: nat
  ex_source :: string
  ex_record :: string
  ex_columns :: "(string \<times> json) list"

definition exploit_key :: "exploit_row \<Rightarrow> nat \<times> string \<times> string" where
  "exploit_key e = (ex_advisory e, ex_source e, ex_record e)"

definition set_columns :: "string list \<Rightarrow> exploit_row \<Rightarrow> exploit_row \<Rightarrow> exploit_row" where
  "set_columns cols e old =
     old\<lparr>ex_columns := fold (\<lambda>f. AList.update f (dict_get (ex_columns e) f JNull)) cols (ex_columns old)\<rparr>"

fun upsert_exploits :: "string list \<Rightarrow> exploit_row list \<Rightarrow> exploit_row list \<Rightarrow> exploit_row list" where
  "upsert_exploits cols [] t = t"
| "upsert_exploits cols (e # es) t = upsert_exploits cols es
     (if exploit_key e \<in> exploit_key ` set t
      then map (\<lambda>old. if exploit_key old = exploit_key e then set_columns cols e old else old) t else t @ [e])"

definition prep_row :: "(string \<Rightarrow> json \<Rightarrow> json result) \<Rightarrow> exploit_row \<Rightarrow> exploit_row result" where
  "prep_row prep e = map_sum id (\<lambda>cs. e\<lparr>ex_columns := cs\<rparr>)
     (map_result (\<lambda>(k, v). map_sum id (Pair k) (prep k v)) (ex_columns e))"

text \<open>
  \<open>bulk_create\<close> with \<open>update_conflicts\<close>: one statement per batch, which may not name a row twice
  (a \<open>DatabaseError\<close>); all or nothing.
\<close>

fun batches_of :: "nat \<Rightarrow> 'a list \<Rightarrow> 'a list list" where
  "batches_of n xs = (if n = 0 \<or> xs = [] then [] else take n xs # batches_of n (drop n xs))"

declare batches_of.simps [simp del]

definition bulk_create_exploits ::
    "(string \<Rightarrow> json \<Rightarrow> json result) \<Rightarrow> string list \<Rightarrow> exploit_row list \<Rightarrow> exploit_row list \<Rightarrow> exploit_row list result" where
  "bulk_create_exploits prep cols es t =
     bind_result (map_result (prep_row prep) es) (\<lambda>es.
       if list_all (\<lambda>b. distinct (map exploit_key b)) (batches_of 1000 es) then Inr (upsert_exploits cols es t)
       else Inl DatabaseError)"

text \<open>The loops: a key that was seen is skipped before its row is made.\<close>

fun unseen_rows :: "'k list \<Rightarrow> ('k \<times> exploit_row result) list \<Rightarrow> exploit_row list result" where
  "unseen_rows seen [] = Inr []"
| "unseen_rows seen ((k, r) # cs) =
     (if k \<in> set seen then unseen_rows seen cs
      else bind_result r (\<lambda>e. map_sum id ((#) e) (unseen_rows (k # seen) cs)))"

text \<open>The advisories of a string, a set in Python, in the order of the table.\<close>

definition advisories_named :: "alias_row list \<Rightarrow> adv_row list \<Rightarrow> string list \<Rightarrow> string \<Rightarrow> adv_row list" where
  "advisories_named alias_tbl tbl names s =
     filter (\<lambda>a. a \<in> dict_get (build_alias_to_advisory_map alias_tbl tbl names) s {}) tbl"

section \<open>Known exploited vulnerabilities\<close>

definition kev_row :: "json \<Rightarrow> string \<Rightarrow> adv_row \<Rightarrow> exploit_row result" where
  "kev_row r cve a =
     bind_result (req r ''shortDescription'') (\<lambda>sd. bind_result (req r ''dateAdded'') (\<lambda>da.
     bind_result (req r ''requiredAction'') (\<lambda>ra. bind_result (req r ''dueDate'') (\<lambda>dd.
     bind_result (req r ''notes'') (\<lambda>no. map_sum id (\<lambda>kr.
       \<lparr>ex_advisory = adv_pk a, ex_source = ''KEV'', ex_record = cve, ex_columns = [(''description'', sd),
         (''date_added'', da), (''required_action'', ra), (''due_date'', dd), (''notes'', no),
         (''known_ransomware_campaign_use'', JBool (kr = JStr ''Known''))]\<rparr>)
       (req r ''knownRansomwareCampaignUse''))))))"

definition kev_fields :: "string list" where
  "kev_fields = [''description'', ''date_added'', ''required_action'', ''due_date'', ''notes'', ''known_ransomware_campaign_use'']"

text \<open>\<open>f"{count:,d}"\<close> is for integers.\<close>

fun format_count :: "json \<Rightarrow> unit result" where
  "format_count (JInt n) = Inr ()"
| "format_count (JBool b) = Inr ()"
| "format_count (JStr s) = Inl ValueError"
| "format_count _ = Inl TypeError"

text \<open>The records with an identifier.\<close>

definition kev_records :: "json \<Rightarrow> (string \<times> json) list result" where
  "kev_records data = bind_result (bind_result (req data ''vulnerabilities'') as_list) (\<lambda>rs. map_sum id concat
     (map_result (\<lambda>r. bind_result (dget r ''cveID'') (\<lambda>j. if falsy j then Inr [] else map_sum id (\<lambda>s. [(s, r)]) (as_str j))) rs))"

text \<open>What the loop over records and advisories meets, in its order, with the key it remembers.\<close>

definition kev_candidates ::
    "alias_row list \<Rightarrow> adv_row list \<Rightarrow> (string \<times> json) list \<Rightarrow> ((string \<times> string) \<times> exploit_row result) list" where
  "kev_candidates alias_tbl tbl rs = concat (map (\<lambda>(cve, r). map (\<lambda>a. ((avid a, cve), kev_row r cve a))
     (advisories_named alias_tbl tbl (map fst rs) cve)) rs)"

definition kev_add_exploits ::
    "(string \<Rightarrow> json \<Rightarrow> json result) \<Rightarrow> alias_row list \<Rightarrow> adv_row list \<Rightarrow> json \<Rightarrow> exploit_row list \<Rightarrow> exploit_row list result" where
  "kev_add_exploits prep alias_tbl tbl data t =
     bind_result (bind_result (dget data ''count'') format_count) (\<lambda>_. bind_result (kev_records data) (\<lambda>rs.
     bind_result (unseen_rows [] (kev_candidates alias_tbl tbl rs)) (\<lambda>es.
       if es = [] then Inr t else bulk_create_exploits prep kev_fields es t)))"

section \<open>Exploit-DB\<close>

text \<open>A row of the CSV file: a column the line is too short for is null.\<close>

type_synonym csv_row = "(string \<times> string option) list"

definition csv_get :: "csv_row \<Rightarrow> string \<Rightarrow> string option result" where
  "csv_get row k = (case map_of row k of None \<Rightarrow> Inl KeyError | Some v \<Rightarrow> Inr v)"

definition csv_codes :: "csv_row \<Rightarrow> string list result" where
  "csv_codes row = map_sum id (\<lambda>c. if truthy_opt c then split_on (CHR '';'') (the c) else []) (csv_get row ''codes'')"

definition parse_date_db :: "(string \<Rightarrow> string option) \<Rightarrow> string option \<Rightarrow> json" where
  "parse_date_db parse d = (if truthy_opt d then jstr_opt (parse (the d)) else JNull)"

definition exploitdb_row :: "(string \<Rightarrow> string option) \<Rightarrow> csv_row \<Rightarrow> string \<Rightarrow> adv_row \<Rightarrow> exploit_row result" where
  "exploitdb_row parse row alias a =
     bind_result (csv_get row ''date_added'') (\<lambda>da. bind_result (csv_get row ''date_published'') (\<lambda>dp.
     bind_result (csv_get row ''date_updated'') (\<lambda>du. bind_result (csv_get row ''description'') (\<lambda>de.
     bind_result (csv_get row ''verified'') (\<lambda>ve. bind_result (csv_get row ''type'') (\<lambda>ty.
     bind_result (csv_get row ''platform'') (\<lambda>pl. map_sum id (\<lambda>su.
       \<lparr>ex_advisory = adv_pk a, ex_source = ''Exploit-DB'', ex_record = alias, ex_columns = [
         (''date_added'', parse_date_db parse da), (''description'', jstr_opt de),
         (''known_ransomware_campaign_use'', jstr_opt ve), (''source_date_published'', parse_date_db parse dp),
         (''exploit_type'', jstr_opt ty), (''platform'', jstr_opt pl),
         (''source_date_updated'', parse_date_db parse du), (''source_url'', jstr_opt su)]\<rparr>)
       (csv_get row ''source_url''))))))))"

definition exploitdb_fields :: "string list" where
  "exploitdb_fields = [''date_added'', ''description'', ''known_ransomware_campaign_use'', ''source_date_published'',
     ''exploit_type'', ''platform'', ''source_date_updated'', ''source_url'']"

text \<open>A row of another header raises for its dates even when no advisory has its codes.\<close>

definition csv_dates :: "csv_row \<Rightarrow> unit result" where
  "csv_dates row = map_sum id (\<lambda>_. ()) (map_result (csv_get row) [''date_added'', ''date_published'', ''date_updated''])"

fun exploitdb_candidates ::
    "(string \<Rightarrow> string option) \<Rightarrow> (string \<Rightarrow> adv_row list) \<Rightarrow> (csv_row \<times> string list) list \<Rightarrow>
       ((nat \<times> string) \<times> exploit_row result) list result" where
  "exploitdb_candidates parse named [] = Inr []"
| "exploitdb_candidates parse named ((row, codes) # rows) =
     (if codes = [] then exploitdb_candidates parse named rows
      else bind_result (csv_dates row) (\<lambda>_. map_sum id
        ((@) (concat (map (\<lambda>s. map (\<lambda>a. ((adv_pk a, s), exploitdb_row parse row s a)) (named s)) codes)))
        (exploitdb_candidates parse named rows)))"

definition exploitdb_add_exploit ::
    "(string \<Rightarrow> json \<Rightarrow> json result) \<Rightarrow> (string \<Rightarrow> string option) \<Rightarrow> alias_row list \<Rightarrow> adv_row list \<Rightarrow> csv_row list \<Rightarrow>
       exploit_row list \<Rightarrow> exploit_row list result" where
  "exploitdb_add_exploit prep parse alias_tbl tbl rows t =
     bind_result (map_result csv_codes rows) (\<lambda>codes.
     bind_result (exploitdb_candidates parse (advisories_named alias_tbl tbl (concat codes)) (zip rows codes)) (\<lambda>cs.
     bind_result (unseen_rows [] cs) (\<lambda>es. bulk_create_exploits prep exploitdb_fields es t)))"

section \<open>Metasploit\<close>

text \<open>\<open>ref.startswith\<close> on what is not a string.\<close>

definition metasploit_refs :: "json \<Rightarrow> string list result" where
  "metasploit_refs r = map_sum id (filter (\<lambda>s. \<not> starts_with ''OSVDB'' s \<and> \<not> starts_with ''URL-'' s))
     (bind_result (bind_result (dget r ''references'') (\<lambda>_. as_list (case jget r ''references'' of None \<Rightarrow> JArr [] | Some j \<Rightarrow> j)))
        (map_result (\<lambda>j. case j of JStr s \<Rightarrow> Inr s | _ \<Rightarrow> Inl AttributeError)))"

text \<open>
  \<open>dateparser.parse(d).date()\<close>: no date is \<open>None\<close>, which has no \<open>date\<close>; only a \<open>ValueError\<close> is caught.
\<close>

definition disclosure :: "(string \<Rightarrow> string option result) \<Rightarrow> json \<Rightarrow> json result" where
  "disclosure parse r = (let j = opt r ''disclosure_date'' in
     if falsy j then Inr JNull
     else bind_result (as_str j) (\<lambda>s. case parse s of
         Inl e \<Rightarrow> if e = ValueError then Inr JNull else Inl e
       | Inr None \<Rightarrow> Inl AttributeError
       | Inr (Some d) \<Rightarrow> Inr (JStr d)))"

definition metasploit_row :: "(json \<Rightarrow> string) \<Rightarrow> json \<Rightarrow> string \<Rightarrow> json \<Rightarrow> adv_row \<Rightarrow> exploit_row" where
  "metasploit_row dump r path date a =
     \<lparr>ex_advisory = adv_pk a, ex_source = ''Metasploit'', ex_record = path, ex_columns = [
       (''description'', case jget r ''description'' of None \<Rightarrow> JStr [] | Some j \<Rightarrow> j),
       (''notes'', JStr (dump (case jget r ''notes'' of None \<Rightarrow> JObj [] | Some j \<Rightarrow> j))),
       (''source_date_published'', date), (''platform'', opt r ''platform''),
       (''source_url'', JStr (''https://github.com/rapid7/metasploit-framework/tree/master'' @ path))]\<rparr>"

definition metasploit_fields :: "string list" where
  "metasploit_fields = [''description'', ''notes'', ''source_date_published'', ''platform'', ''source_url'']"

fun metasploit_candidates ::
    "(json \<Rightarrow> string) \<Rightarrow> (string \<Rightarrow> string option result) \<Rightarrow> (string \<Rightarrow> adv_row list) \<Rightarrow> (json \<times> string list) list \<Rightarrow>
       ((nat \<times> string) \<times> exploit_row result) list result" where
  "metasploit_candidates dump parse named [] = Inr []"
| "metasploit_candidates dump parse named ((r, refs) # rs) =
     bind_result (disclosure parse r) (\<lambda>date. bind_result (as_str_opt (opt r ''path'')) (\<lambda>path.
       if \<not> truthy_opt path then metasploit_candidates dump parse named rs
       else map_sum id
         ((@) (concat (map (\<lambda>s. map (\<lambda>a. ((adv_pk a, the path), Inr (metasploit_row dump r (the path) date a))) (named s)) refs)))
         (metasploit_candidates dump parse named rs)))"

definition metasploit_add_exploits ::
    "(string \<Rightarrow> json \<Rightarrow> json result) \<Rightarrow> (json \<Rightarrow> string) \<Rightarrow> (string \<Rightarrow> string option result) \<Rightarrow> alias_row list \<Rightarrow> adv_row list \<Rightarrow>
       json list \<Rightarrow> exploit_row list \<Rightarrow> exploit_row list result" where
  "metasploit_add_exploits prep dump parse alias_tbl tbl rs t =
     bind_result (map_result metasploit_refs rs) (\<lambda>refs.
     bind_result (metasploit_candidates dump parse (advisories_named alias_tbl tbl (concat refs)) (zip rs refs)) (\<lambda>cs.
     bind_result (unseen_rows [] cs) (\<lambda>es. bulk_create_exploits prep metasploit_fields es t)))"

section \<open>Proofs of concept on GitHub\<close>

record poc_row =
  pc_advisory :: nat
  pc_url :: string
  pc_created :: json
  pc_updated :: json

definition update_or_create_poc :: "poc_row \<Rightarrow> poc_row list \<Rightarrow> poc_row list result" where
  "update_or_create_poc p t =
     (case filter (\<lambda>i. pc_advisory (t ! i) = pc_advisory p \<and> pc_url (t ! i) = pc_url p) [0..<length t] of
        [] \<Rightarrow> Inr (t @ [p]) | [i] \<Rightarrow> Inr (t[i := p]) | _ \<Rightarrow> Inl MultipleObjectsReturned)"

text \<open>What was stored before an exception stays: every call is a transaction of its own.\<close>

fun store_pocs :: "(json \<Rightarrow> json result) \<Rightarrow> nat \<Rightarrow> json list \<Rightarrow> poc_row list \<Rightarrow> py_error option \<times> poc_row list" where
  "store_pocs prep i [] t = (None, t)"
| "store_pocs prep i (d # ds) t =
     (case dget d ''html_url'' of Inl e \<Rightarrow> (Some e, t)
      | Inr u \<Rightarrow> if falsy u then store_pocs prep i ds t
          else (case bind_result (as_str u) (\<lambda>u. bind_result (prep (opt d ''created_at'')) (\<lambda>c. bind_result (prep (opt d ''updated_at''))
                  (\<lambda>m. update_or_create_poc \<lparr>pc_advisory = i, pc_url = u, pc_created = c, pc_updated = m\<rparr> t))) of
                Inl e \<Rightarrow> (Some e, t) | Inr t \<Rightarrow> store_pocs prep i ds t))"

fun store_advisory_pocs ::
    "(json \<Rightarrow> json result) \<Rightarrow> adv_row list \<Rightarrow> json \<Rightarrow> poc_row list \<Rightarrow> py_error option \<times> poc_row list" where
  "store_advisory_pocs prep [] data t = (None, t)"
| "store_advisory_pocs prep (a # as) data t =
     (case as_list data of Inl e \<Rightarrow> (Some e, t)
      | Inr ds \<Rightarrow> (case store_pocs prep (adv_pk a) ds t of (Some e, t) \<Rightarrow> (Some e, t)
          | (None, t) \<Rightarrow> store_advisory_pocs prep as data t))"

text \<open>The files by their stem, each with its JSON, or nothing when it does not parse.\<close>

fun collect_and_store_exploits ::
    "(json \<Rightarrow> json result) \<Rightarrow> alias_row list \<Rightarrow> adv_row list \<Rightarrow> (string \<times> json option) list \<Rightarrow> poc_row list \<Rightarrow>
       py_error option \<times> poc_row list" where
  "collect_and_store_exploits prep alias_tbl tbl [] t = (None, t)"
| "collect_and_store_exploits prep alias_tbl tbl ((stem, data) # files) t =
     (case data of None \<Rightarrow> collect_and_store_exploits prep alias_tbl tbl files t
      | Some j \<Rightarrow> (case store_advisory_pocs prep
            (filter (\<lambda>a. a \<in> relate_aliases_with_advisories alias_tbl tbl [strip stem]) tbl) j t of
          (Some e, t) \<Rightarrow> (Some e, t) | (None, t) \<Rightarrow> collect_and_store_exploits prep alias_tbl tbl files t))"

section \<open>Storing exploits\<close>

definition row_at :: "exploit_row list \<Rightarrow> nat \<times> string \<times> string \<Rightarrow> exploit_row option" where
  "row_at t k = find (\<lambda>e. exploit_key e = k) t"

lemma set_columns_key [simp]: "exploit_key (set_columns cols e old) = exploit_key old"
  by (simp add: set_columns_def exploit_key_def)

lemma row_at_Some: "distinct (map exploit_key t) \<Longrightarrow> row_at t k = Some e \<longleftrightarrow> e \<in> set t \<and> exploit_key e = k"
  by (induction t) (auto simp: row_at_def)

lemma row_at_None: "row_at t k = None \<longleftrightarrow> k \<notin> exploit_key ` set t"
  by (auto simp: row_at_def find_None_iff)

lemma row_at_Cons: "row_at (e # t) k = (if exploit_key e = k then Some e else row_at t k)"
  by (simp add: row_at_def)

lemma row_at_snoc: "row_at (t @ [e]) k = (case row_at t k of None \<Rightarrow> if exploit_key e = k then Some e else None | Some x \<Rightarrow> Some x)"
  by (induction t) (auto simp: row_at_def)

definition upserted :: "string list \<Rightarrow> exploit_row \<Rightarrow> exploit_row option \<Rightarrow> exploit_row" where
  "upserted cols e old = (case old of None \<Rightarrow> e | Some old \<Rightarrow> set_columns cols e old)"

definition upsert_one :: "string list \<Rightarrow> exploit_row \<Rightarrow> exploit_row list \<Rightarrow> exploit_row list" where
  "upsert_one cols e t = (if exploit_key e \<in> exploit_key ` set t
      then map (\<lambda>old. if exploit_key old = exploit_key e then set_columns cols e old else old) t else t @ [e])"

lemma upsert_one_keys:
  "map exploit_key (upsert_one cols e t) = map exploit_key t @ (if exploit_key e \<in> exploit_key ` set t then [] else [exploit_key e])"
  by (auto simp: upsert_one_def comp_def intro!: map_cong)

lemma row_at_upsert_one:
  "row_at (upsert_one cols e t) k = (if k = exploit_key e then Some (upserted cols e (row_at t k)) else row_at t k)"
proof (cases "exploit_key e \<in> exploit_key ` set t")
  case False
  then have "row_at t (exploit_key e) = None" by (simp add: row_at_None)
  then show ?thesis using False by (auto simp: upsert_one_def row_at_snoc upserted_def split: option.splits)
next
  case True
  have "row_at (map (\<lambda>old. if exploit_key old = exploit_key e then set_columns cols e old else old) t) k =
      map_option (\<lambda>old. if exploit_key old = exploit_key e then set_columns cols e old else old) (row_at t k)"
    by (induction t) (auto simp: row_at_def)
  moreover have "row_at t k = Some old \<Longrightarrow> exploit_key old = k" for old
    by (auto simp: row_at_def find_Some_iff)
  moreover have "row_at t (exploit_key e) \<noteq> None" using True by (simp add: row_at_None)
  ultimately show ?thesis using True by (cases "row_at t k") (auto simp: upsert_one_def upserted_def)
qed

lemma upsert_exploits_fold: "upsert_exploits cols es t = fold (upsert_one cols) es t"
  by (induction es arbitrary: t) (simp_all add: upsert_one_def)

lemma upsert_exploits_distinct:
  "distinct (map exploit_key t) \<Longrightarrow> distinct (map exploit_key (upsert_exploits cols es t))"
  unfolding upsert_exploits_fold by (induction es arbitrary: t) (simp_all add: upsert_one_keys)

lemma row_at_upsert:
  "distinct (map exploit_key es) \<Longrightarrow> row_at (upsert_exploits cols es t) k =
     (case row_at es k of None \<Rightarrow> row_at t k | Some e \<Rightarrow> Some (upserted cols e (row_at t k)))"
  unfolding upsert_exploits_fold
proof (induction es arbitrary: t)
  case (Cons e es)
  then have n: "row_at es (exploit_key e) = None" by (simp add: row_at_None)
  have "distinct (map exploit_key es)" using Cons.prems by simp
  from Cons.IH [OF this] show ?case
    by (cases "k = exploit_key e") (simp_all add: n row_at_Cons row_at_upsert_one split: option.split)
qed (simp add: row_at_def)

lemma batches_concat: "0 < n \<Longrightarrow> concat (batches_of n xs) = xs"
  by (induction n xs rule: batches_of.induct) (subst batches_of.simps, auto)

lemma batches_distinct:
  assumes "distinct (map f xs)"
  shows "list_all (\<lambda>b. distinct (map f b)) (batches_of n xs)"
  using assms
proof (induction n xs rule: batches_of.induct)
  case (1 n xs)
  have "distinct (map f (take n xs))" "distinct (map f (drop n xs))"
    using "1.prems" by (simp_all add: take_map [symmetric] drop_map [symmetric])
  with 1 show ?case by (subst batches_of.simps) simp
qed

lemma prep_row_key: "prep_row prep e = Inr e' \<Longrightarrow> exploit_key e' = exploit_key e"
  by (auto simp: prep_row_def map_sum_Inr exploit_key_def)

lemma prep_rows_keys: "map_result (prep_row prep) es = Inr es' \<Longrightarrow> map exploit_key es' = map exploit_key es"
  by (auto simp: map_result_Inr_iff list_all2_conv_all_nth prep_row_key intro!: nth_equalityI)

lemma row_at_prep:
  "map_result (prep_row prep) es = Inr es' \<Longrightarrow> row_at es k = Some e \<Longrightarrow> \<exists>e'. prep_row prep e = Inr e' \<and> row_at es' k = Some e'"
  unfolding map_result_Inr_iff
proof (induction rule: list_all2_induct)
  case (Cons x xs y ys)
  then show ?case by (auto simp: row_at_def prep_row_key split: if_splits)
qed (simp add: row_at_def)

lemma row_at_prep_None: "map_result (prep_row prep) es = Inr es' \<Longrightarrow> row_at es' k = None \<longleftrightarrow> row_at es k = None"
  unfolding row_at_None using prep_rows_keys [of prep es es'] by (metis list.set_map)

text \<open>Rows with distinct keys never fail as duplicates, and are written over those with the same key.\<close>

lemma bulk_create_exploits_row:
  assumes "distinct (map exploit_key es)" "bulk_create_exploits prep cols es t = Inr t'"
  shows "row_at t' k = (case row_at es k of None \<Rightarrow> row_at t k
      | Some e \<Rightarrow> (case prep_row prep e of Inl _ \<Rightarrow> None | Inr e \<Rightarrow> Some (upserted cols e (row_at t k))))"
proof -
  from assms(2) obtain es' where es': "map_result (prep_row prep) es = Inr es'" "t' = upsert_exploits cols es' t"
    by (auto simp: bulk_create_exploits_def bind_result_Inr split: if_splits)
  from es'(1) assms(1) have d: "distinct (map exploit_key es')" by (simp add: prep_rows_keys)
  show ?thesis
  proof (cases "row_at es k")
    case None
    then show ?thesis using row_at_prep_None [OF es'(1), of k] by (simp add: es'(2) row_at_upsert [OF d])
  next
    case (Some e)
    from row_at_prep [OF es'(1) Some] obtain e' where "prep_row prep e = Inr e'" "row_at es' k = Some e'" by blast
    with Some show ?thesis by (simp add: es'(2) row_at_upsert [OF d])
  qed
qed

lemma bulk_create_exploits_distinct:
  "bulk_create_exploits prep cols es t = Inr t' \<Longrightarrow> distinct (map exploit_key t) \<Longrightarrow> distinct (map exploit_key t')"
  by (auto simp: bulk_create_exploits_def bind_result_Inr upsert_exploits_distinct split: if_splits)

lemma bulk_create_exploits_no_duplicates:
  assumes "distinct (map exploit_key es)" "bulk_create_exploits prep cols es t = Inl err"
  shows "map_result (prep_row prep) es = Inl err"
proof (cases "map_result (prep_row prep) es")
  case (Inr es')
  with assms(1) have "distinct (map exploit_key es')" by (simp add: prep_rows_keys)
  with assms(2) Inr batches_distinct [of exploit_key es' 1000] show ?thesis by (simp add: bulk_create_exploits_def)
qed (use assms(2) in \<open>simp add: bulk_create_exploits_def\<close>)

lemma unseen_rows_set:
  "unseen_rows seen cs = Inr es \<Longrightarrow> e \<in> set es \<longleftrightarrow> (\<exists>k. k \<notin> set seen \<and> map_of cs k = Some (Inr e))"
proof (induction cs arbitrary: seen es)
  case (Cons c cs)
  obtain k r where c: "c = (k, r)" by force
  show ?case
  proof (cases "k \<in> set seen")
    case True
    then have m: "j \<notin> set seen \<and> map_of (c # cs) j = Some (Inr e) \<longleftrightarrow> j \<notin> set seen \<and> map_of cs j = Some (Inr e)" for j
      by (auto simp: c)
    have "unseen_rows seen cs = Inr es" using Cons.prems True by (simp add: c)
    from Cons.IH [OF this] show ?thesis by (simp only: m)
  next
    case False
    with Cons.prems obtain x es' where r: "r = Inr x" and es': "unseen_rows (k # seen) cs = Inr es'" and es: "es = x # es'"
      by (auto simp: c bind_result_Inr map_sum_Inr)
    have "map_of (c # cs) j = (if j = k then Some (Inr x) else map_of cs j)" for j by (simp add: c r)
    then have m: "j \<notin> set seen \<and> map_of (c # cs) j = Some (Inr e) \<longleftrightarrow>
        j = k \<and> e = x \<or> j \<notin> set (k # seen) \<and> map_of cs j = Some (Inr e)" for j
      using False by (cases "j = k") (simp_all, blast)
    show ?thesis unfolding m es by (simp add: Cons.IH [OF es'] ex_disj_distrib)
  qed
qed simp

lemma unseen_rows_Inr:
  "unseen_rows seen cs = Inr es \<Longrightarrow> k \<notin> set seen \<Longrightarrow> map_of cs k = Some r \<Longrightarrow> \<exists>e. r = Inr e"
proof (induction cs arbitrary: seen es)
  case (Cons c cs)
  obtain j q where c: "c = (j, q)" by force
  show ?case
  proof (cases "j \<in> set seen")
    case True
    with Cons.prems(2) have "k \<noteq> j" by auto
    with Cons.prems True show ?thesis by (intro Cons.IH [of seen es]) (simp_all add: c)
  next
    case False
    with Cons.prems(1) obtain x es' where q: "q = Inr x" and es': "unseen_rows (j # seen) cs = Inr es'"
      by (auto simp: c bind_result_Inr map_sum_Inr)
    with Cons.IH [OF es'] Cons.prems(2,3) show ?thesis by (cases "k = j") (auto simp: c)
  qed
qed simp

text \<open>Rows with the same key in the table come from the same key of the loop.\<close>

definition keys_fit :: "('k \<times> exploit_row result) list \<Rightarrow> bool" where
  "keys_fit cs \<longleftrightarrow> (\<forall>k k' e e'. (k, Inr e) \<in> set cs \<longrightarrow> (k', Inr e') \<in> set cs \<longrightarrow>
     exploit_key e = exploit_key e' \<longrightarrow> k = k')"

lemma unseen_rows_distinct: "unseen_rows seen cs = Inr es \<Longrightarrow> keys_fit cs \<Longrightarrow> distinct (map exploit_key es)"
proof (induction cs arbitrary: seen es)
  case (Cons c cs)
  obtain k r where c: "c = (k, r)" by force
  have fit: "keys_fit cs" using Cons.prems(2) unfolding keys_fit_def by simp
  show ?case
  proof (cases "k \<in> set seen")
    case True
    with Cons.prems(1) Cons.IH fit show ?thesis by (simp add: c)
  next
    case False
    with Cons.prems obtain e es' where r: "r = Inr e" and es': "unseen_rows (k # seen) cs = Inr es'" and es: "es = e # es'"
      by (auto simp: c bind_result_Inr map_sum_Inr)
    have "exploit_key e \<noteq> exploit_key x" if x: "x \<in> set es'" for x
    proof
      assume eq: "exploit_key e = exploit_key x"
      from unseen_rows_set [OF es'] x obtain j where j: "j \<noteq> k" "map_of cs j = Some (Inr x)" by auto
      have "(k, Inr e) \<in> set (c # cs)" "(j, Inr x) \<in> set (c # cs)"
        using map_of_SomeD [OF j(2)] by (simp_all add: c r)
      with Cons.prems(2) eq have "k = j" unfolding keys_fit_def by blast
      with j(1) show False by simp
    qed
    with Cons.IH [OF es' fit] show ?thesis by (auto simp: es)
  qed
qed simp

text \<open>What storing the rows of a loop leaves.\<close>

lemma store_unseen:
  assumes "unseen_rows [] cs = Inr es" "keys_fit cs" "bulk_create_exploits prep cols es t = Inr t'"
  shows "map_of cs j = Some r \<Longrightarrow> \<exists>e e'. r = Inr e \<and> prep_row prep e = Inr e' \<and>
      row_at t' (exploit_key e) = Some (upserted cols e' (row_at t (exploit_key e)))"
    and "(\<And>j e. map_of cs j = Some (Inr e) \<Longrightarrow> exploit_key e \<noteq> k) \<Longrightarrow> row_at t' k = row_at t k"
proof -
  note d = unseen_rows_distinct [OF assms(1,2)]
  note row = bulk_create_exploits_row [OF d assms(3)]
  have in_es: "e \<in> set es \<longleftrightarrow> (\<exists>j. map_of cs j = Some (Inr e))" for e using unseen_rows_set [OF assms(1)] by simp
  show "\<exists>e e'. r = Inr e \<and> prep_row prep e = Inr e' \<and>
      row_at t' (exploit_key e) = Some (upserted cols e' (row_at t (exploit_key e)))" if j: "map_of cs j = Some r"
  proof -
    from unseen_rows_Inr [OF assms(1) _ j] obtain e where r: "r = Inr e" by auto
    with in_es j have "e \<in> set es" by auto
    then have at: "row_at es (exploit_key e) = Some e" using row_at_Some [OF d] by simp
    from assms(3) obtain es' where "map_result (prep_row prep) es = Inr es'"
      by (auto simp: bulk_create_exploits_def bind_result_Inr)
    with row_at_prep [OF _ at] obtain e' where "prep_row prep e = Inr e'" by blast
    with row [of "exploit_key e"] at r show ?thesis by simp
  qed
  show "row_at t' k = row_at t k" if k: "\<And>j e. map_of cs j = Some (Inr e) \<Longrightarrow> exploit_key e \<noteq> k"
  proof -
    have "row_at es k = None"
    proof (cases "row_at es k")
      case (Some e)
      with row_at_Some [OF d] have e: "e \<in> set es" "exploit_key e = k" by auto
      from e(1) in_es obtain j where "map_of cs j = Some (Inr e)" by blast
      from k [OF this] e(2) show ?thesis by simp
    qed
    with row show ?thesis by simp
  qed
qed

text \<open>Errors come from the parts.\<close>

lemma unseen_rows_Inl: "unseen_rows seen cs = Inl e \<Longrightarrow> \<exists>k. (k, Inl e) \<in> set cs"
proof (induction cs arbitrary: seen)
  case (Cons c cs)
  then show ?case by (cases c) (auto simp: bind_result_Inl map_sum_Inl split: if_splits)
qed simp

lemma bulk_create_exploits_Inl:
  assumes "distinct (map exploit_key es)" "bulk_create_exploits prep cols es t = Inl e"
  shows "\<exists>k v. prep k v = Inl e"
  using bulk_create_exploits_no_duplicates [OF assms]
  by (force dest!: map_result_Inl simp: prep_row_def map_sum_Inl)

section \<open>Known exploited vulnerabilities are stored exactly\<close>

lemma kev_row_key: "kev_row r cve a = Inr e \<Longrightarrow> exploit_key e = (adv_pk a, ''KEV'', cve)"
  by (auto simp: kev_row_def bind_result_Inr map_sum_Inr exploit_key_def)

lemma kev_row_error: "kev_row r cve a = Inl e \<Longrightarrow> e = KeyError"
  by (auto simp: kev_row_def bind_result_Inl map_sum_Inl req_def split: option.splits)

lemma kev_records_error: "kev_records data = Inl e \<Longrightarrow> e \<noteq> DatabaseError"
proof -
  have l: "as_list j = Inl x \<Longrightarrow> x = TypeError" "as_str j = Inl x \<Longrightarrow> x = TypeError" for j x
    by (cases j; auto)+
  have g: "dget r k = Inl x \<Longrightarrow> x = AttributeError" for r k x by (cases r) auto
  show "kev_records data = Inl e \<Longrightarrow> e \<noteq> DatabaseError"
    by (auto simp: kev_records_def bind_result_Inl map_sum_Inl req_def dest!: map_result_Inl l g split: if_splits option.splits)
qed

definition names_advisory :: "string \<Rightarrow> adv_row \<Rightarrow> bool" where
  "names_advisory s a \<longleftrightarrow> visible a \<and> (advisory_id a = s \<or> has_alias s a)"

lemma advisories_named_set:
  assumes "\<And>a. a \<in> set tbl \<Longrightarrow> set (adv_aliases a) \<subseteq> set alias_tbl"
  shows "set (advisories_named alias_tbl tbl names s) = {a \<in> set tbl. s \<in> set names \<and> names_advisory s a}"
  by (auto simp: advisories_named_def alias_map_lookup [OF assms] names_advisory_def split: if_splits)

lemma map_of_keyed: "map_of (map (\<lambda>a. ((g a, s), h a)) xs) (v, s) = map_option h (find (\<lambda>a. g a = v) xs)"
  by (induction xs) auto

lemma map_of_candidates:
  "map_of (concat (map (\<lambda>(s, r). map (\<lambda>a. ((g a, s), f r s a)) (named s)) rs)) (v, s) =
     (case map_of rs s of None \<Rightarrow> None | Some r \<Rightarrow> map_option (f r s) (find (\<lambda>a. g a = v) (named s)))"
proof (induction rs)
  case (Cons x rs)
  obtain s' r where x: "x = (s', r)" by force
  show ?case
  proof (cases "s' = s")
    case True
    then show ?thesis using Cons by (auto simp: x map_add_def map_of_keyed split: option.splits)
  next
    case False
    then have "map_of (map (\<lambda>a. ((g a, s'), f r s' a)) (named s')) (v, s) = None"
      by (auto simp: map_of_eq_None_iff)
    with False Cons show ?thesis by (simp add: x map_add_def)
  qed
qed simp

lemma find_only: "x \<in> set xs \<Longrightarrow> P x \<Longrightarrow> \<forall>y\<in>set xs. P y \<longrightarrow> y = x \<Longrightarrow> find P xs = Some x"
proof (induction xs)
  case (Cons a xs)
  show ?case
  proof (cases "P a")
    case True
    with Cons.prems(3) have "a = x" by (meson list.set_intros(1))
    with True show ?thesis by simp
  next
    case False
    with Cons.prems have "x \<in> set xs" by auto
    have "find P xs = Some x"
      by (rule Cons.IH [OF \<open>x \<in> set xs\<close> Cons.prems(2)]) (use Cons.prems(3) in \<open>meson list.set_intros(2)\<close>)
    with False show ?thesis by simp
  qed
qed simp

lemma kev_candidate:
  assumes "(k, res) \<in> set (kev_candidates alias_tbl tbl rs)"
  obtains a cve r where "k = (avid a, cve)" "a \<in> set (advisories_named alias_tbl tbl (map fst rs) cve)" "(cve, r) \<in> set rs"
    "res = kev_row r cve a"
  using assms by (auto simp: kev_candidates_def)

lemma kev_candidate_key:
  assumes "(k, Inr e) \<in> set (kev_candidates alias_tbl tbl rs)"
  shows "\<exists>a cve. a \<in> set tbl \<and> k = (avid a, cve) \<and> exploit_key e = (adv_pk a, ''KEV'', cve)"
proof -
  from assms obtain a cve r where "k = (avid a, cve)" "a \<in> set (advisories_named alias_tbl tbl (map fst rs) cve)"
    "Inr e = kev_row r cve a"
    by (rule kev_candidate)
  with kev_row_key [of r cve a e] show ?thesis by (auto simp: advisories_named_def)
qed

lemma kev_keys_fit:
  assumes "distinct (map adv_pk tbl)"
  shows "keys_fit (kev_candidates alias_tbl tbl rs)"
  unfolding keys_fit_def
proof (intro allI impI)
  fix k k' e e'
  assume k: "(k, Inr e) \<in> set (kev_candidates alias_tbl tbl rs)" "(k', Inr e') \<in> set (kev_candidates alias_tbl tbl rs)"
    and eq: "exploit_key e = exploit_key e'"
  from kev_candidate_key [OF k(1)] obtain a cve
    where a: "a \<in> set tbl" "k = (avid a, cve)" "exploit_key e = (adv_pk a, ''KEV'', cve)" by blast
  from kev_candidate_key [OF k(2)] obtain a' cve'
    where a': "a' \<in> set tbl" "k' = (avid a', cve')" "exploit_key e' = (adv_pk a', ''KEV'', cve')" by blast
  from eq a(3) a'(3) have "adv_pk a = adv_pk a'" "cve = cve'" by simp_all
  with a a' assms have "a = a'" by (auto simp: distinct_map dest: inj_onD)
  with a a' \<open>cve = cve'\<close> show "k = k'" by simp
qed

lemma kev_candidates_lookup:
  assumes "\<forall>a\<in>set tbl. set (adv_aliases a) \<subseteq> set alias_tbl" "inj_on avid {a \<in> set tbl. visible a}"
    and "a \<in> set tbl" "names_advisory cve a" "map_of rs cve = Some r"
  shows "map_of (kev_candidates alias_tbl tbl rs) (avid a, cve) = Some (kev_row r cve a)"
proof -
  have named: "set (advisories_named alias_tbl tbl (map fst rs) cve) = {a \<in> set tbl. cve \<in> set (map fst rs) \<and> names_advisory cve a}"
    using assms(1) by (intro advisories_named_set) blast
  have "cve \<in> fst ` set rs" using map_of_SomeD [OF assms(5)] by force
  then have "find (\<lambda>b. avid b = avid a) (advisories_named alias_tbl tbl (map fst rs) cve) = Some a"
    using assms(2-4) by (intro find_only) (auto simp: named names_advisory_def dest: inj_onD)
  then show ?thesis by (simp add: kev_candidates_def map_of_candidates assms(5))
qed

lemma kev_candidates_only:
  assumes "\<forall>a\<in>set tbl. set (adv_aliases a) \<subseteq> set alias_tbl" "map_of (kev_candidates alias_tbl tbl rs) j = Some (Inr e)"
  shows "\<exists>a cve. a \<in> set tbl \<and> names_advisory cve a \<and> cve \<in> fst ` set rs \<and> exploit_key e = (adv_pk a, ''KEV'', cve)"
proof -
  from map_of_SomeD [OF assms(2)] obtain a cve r where a: "a \<in> set (advisories_named alias_tbl tbl (map fst rs) cve)"
    "(cve, r) \<in> set rs" "Inr e = kev_row r cve a"
    by (rule kev_candidate)
  have "set (advisories_named alias_tbl tbl (map fst rs) cve) = {a \<in> set tbl. cve \<in> set (map fst rs) \<and> names_advisory cve a}"
    using assms(1) by (intro advisories_named_set) blast
  with a kev_row_key [of r cve a e] have "a \<in> set tbl \<and> names_advisory cve a \<and> cve \<in> fst ` set rs \<and>
      exploit_key e = (adv_pk a, ''KEV'', cve)" by simp
  then show ?thesis by blast
qed

lemma kev_no_double_row:
  assumes "distinct (map adv_pk tbl)" "\<forall>k v. prep k v \<noteq> Inl DatabaseError" "kev_records data = Inr rs"
    and Inl: "kev_add_exploits prep alias_tbl tbl data t = Inl e"
  shows "e \<noteq> DatabaseError"
proof
  assume e: "e = DatabaseError"
  let ?cs = "kev_candidates alias_tbl tbl rs"
  have "dget data k \<noteq> Inl DatabaseError" "format_count j \<noteq> Inl DatabaseError" for k j
    by (cases data; simp) (cases j; simp)
  with Inl e assms(3) consider "unseen_rows [] ?cs = Inl e" |
    es where "unseen_rows [] ?cs = Inr es" "bulk_create_exploits prep kev_fields es t = Inl e"
    by (auto simp: kev_add_exploits_def bind_result_Inl split: if_splits)
  then show False
  proof cases
    case 1
    from unseen_rows_Inl [OF this] obtain k where "(k, Inl e) \<in> set ?cs" by blast
    then obtain a cve r where "Inl e = kev_row r cve a" by (rule kev_candidate)
    with kev_row_error [of r cve a e] e show False by simp
  next
    case (2 es)
    from bulk_create_exploits_Inl [OF unseen_rows_distinct [OF 2(1) kev_keys_fit [OF assms(1)]] 2(2)] assms(2) e
    show False by auto
  qed
qed

text \<open>
  C36: what the pipeline of known exploited vulnerabilities stores. It never writes an exploit twice in one
  statement; when it does not end with an error, every visible advisory that a record names, by its
  identifier or an alias, has the exploit with the columns of the first record of that name, over the older
  exploit of the same key, and no other exploit changes.
\<close>

theorem kev_exploits_exact:
  assumes "\<forall>a\<in>set tbl. set (adv_aliases a) \<subseteq> set alias_tbl"
    and "distinct (map adv_pk tbl)" "distinct (map exploit_key t)"
    and "inj_on avid {a \<in> set tbl. visible a}"
    and "\<forall>k v. prep k v \<noteq> Inl DatabaseError" and "kev_records data = Inr rs"
  shows "case kev_add_exploits prep alias_tbl tbl data t of Inl e \<Rightarrow> e \<noteq> DatabaseError
    | Inr t' \<Rightarrow> distinct (map exploit_key t') \<and>
        (\<forall>a\<in>set tbl. \<forall>cve r. names_advisory cve a \<longrightarrow> map_of rs cve = Some r \<longrightarrow>
           (\<exists>e e'. kev_row r cve a = Inr e \<and> prep_row prep e = Inr e' \<and>
              row_at t' (adv_pk a, ''KEV'', cve) = Some (upserted kev_fields e' (row_at t (adv_pk a, ''KEV'', cve))))) \<and>
        (\<forall>k. (\<nexists>a cve. a \<in> set tbl \<and> names_advisory cve a \<and> cve \<in> fst ` set rs \<and> k = (adv_pk a, ''KEV'', cve)) \<longrightarrow>
           row_at t' k = row_at t k)"
proof (cases "kev_add_exploits prep alias_tbl tbl data t")
  case (Inl e)
  with kev_no_double_row [OF assms(2,5,6)] show ?thesis by simp
next
  case (Inr t')
  have none: "bulk_create_exploits prep kev_fields [] t = Inr t"
    by (simp add: bulk_create_exploits_def batches_of.simps)
  from Inr assms(6) none obtain es where
    es: "unseen_rows [] (kev_candidates alias_tbl tbl rs) = Inr es" "bulk_create_exploits prep kev_fields es t = Inr t'"
    by (auto simp: kev_add_exploits_def bind_result_Inr split: if_splits)
  note stored = store_unseen [OF es(1) kev_keys_fit [OF assms(2)] es(2)]
  have "\<exists>e e'. kev_row r cve a = Inr e \<and> prep_row prep e = Inr e' \<and>
      row_at t' (adv_pk a, ''KEV'', cve) = Some (upserted kev_fields e' (row_at t (adv_pk a, ''KEV'', cve)))"
    if "a \<in> set tbl" "names_advisory cve a" "map_of rs cve = Some r" for a cve r
    using stored(1) [OF kev_candidates_lookup [OF assms(1,4) that]] kev_row_key [of r cve a] by auto
  moreover have "row_at t' k = row_at t k"
    if "\<nexists>a cve. a \<in> set tbl \<and> names_advisory cve a \<and> cve \<in> fst ` set rs \<and> k = (adv_pk a, ''KEV'', cve)" for k
  proof (rule stored(2))
    show "exploit_key e \<noteq> k" if "map_of (kev_candidates alias_tbl tbl rs) j = Some (Inr e)" for j e
      using kev_candidates_only [OF assms(1) that] \<open>\<nexists>a cve. _\<close> by blast
  qed
  ultimately show ?thesis using bulk_create_exploits_distinct [OF es(2) assms(3)] by (simp add: Inr)
qed

definition demo_kev :: json where
  "demo_kev = JObj [(''count'', JInt 1), (''vulnerabilities'', JArr [JObj [(''cveID'', JStr ''CVE-1''),
     (''shortDescription'', JStr ''d''), (''dateAdded'', JStr ''2024-01-01''), (''requiredAction'', JStr ''a''),
     (''dueDate'', JStr ''2024-02-01''), (''notes'', JStr ''n''), (''knownRansomwareCampaignUse'', JStr ''Known'')]])]"

definition demo_alias_table :: "alias_row list" where
  "demo_alias_table = [\<lparr>alias_pk = 7, alias_name = ''CVE-1''\<rparr>]"

lemma kev_exploits_exact_witness:
  "case kev_add_exploits (\<lambda>k v. Inr v) demo_alias_table demo_advs demo_kev [] of Inl e \<Rightarrow> e \<noteq> DatabaseError
    | Inr t' \<Rightarrow> map (\<lambda>e. (ex_advisory e, ex_record e)) t' = [(1, ''CVE-1''), (2, ''CVE-1'')] \<and> distinct (map exploit_key t')"
proof -
  have r: "kev_records demo_kev = Inr [(''CVE-1'', JObj [(''cveID'', JStr ''CVE-1''),
     (''shortDescription'', JStr ''d''), (''dateAdded'', JStr ''2024-01-01''), (''requiredAction'', JStr ''a''),
     (''dueDate'', JStr ''2024-02-01''), (''notes'', JStr ''n''), (''knownRansomwareCampaignUse'', JStr ''Known'')])]"
    by code_simp
  have "case kev_add_exploits (\<lambda>k v. Inr v) demo_alias_table demo_advs demo_kev [] of Inl e \<Rightarrow> False
    | Inr t' \<Rightarrow> map (\<lambda>e. (ex_advisory e, ex_record e)) t' = [(1, ''CVE-1''), (2, ''CVE-1'')]"
    by code_simp
  moreover have "case kev_add_exploits (\<lambda>k v. Inr v) demo_alias_table demo_advs demo_kev [] of Inl e \<Rightarrow> e \<noteq> DatabaseError
    | Inr t' \<Rightarrow> distinct (map exploit_key t')"
  proof -
    have hyps: "\<forall>a\<in>set demo_advs. set (adv_aliases a) \<subseteq> set demo_alias_table" "distinct (map exploit_key [])"
      "inj_on avid {a \<in> set demo_advs. visible a}" "\<forall>k v. (Inr v :: json result) \<noteq> Inl DatabaseError"
      by (auto simp: demo_advs_def demo_adv_def demo_alias_table_def inj_on_def)
    note stored = kev_exploits_exact [where prep = "\<lambda>k v. Inr v", OF hyps(1) demo_pks hyps(2-4) r]
    show ?thesis
    proof (cases "kev_add_exploits (\<lambda>k v. Inr v) demo_alias_table demo_advs demo_kev []")
      case (Inl e)
      with stored show ?thesis by simp
    next
      case (Inr t')
      show ?thesis using stored unfolding Inr sum.case by (elim conjE)
    qed
  qed
  ultimately show ?thesis by (auto split: sum.splits)
qed

text \<open>A disclosure date that is not recognised ends the whole step with an \<open>AttributeError\<close>.\<close>

lemma unparsable_disclosure:
  "metasploit_add_exploits (\<lambda>k v. Inr v) (\<lambda>j. []) (\<lambda>s. Inr None) demo_alias_table demo_advs
     [JObj [(''references'', JArr []), (''disclosure_date'', JStr ''soon'')]] [] = Inl AttributeError"
  by code_simp

section \<open>Proofs of concept stay unique\<close>

definition poc_key :: "poc_row \<Rightarrow> nat \<times> string" where
  "poc_key p = (pc_advisory p, pc_url p)"

lemma update_or_create_poc_unique:
  assumes "distinct (map poc_key t)"
  shows "\<exists>t'. update_or_create_poc p t = Inr t' \<and> distinct (map poc_key t')"
proof (cases "poc_key p \<in> set (map poc_key t)")
  case False
  have "poc_key (t ! i) \<noteq> poc_key p" if "i < length t" for i
    using False nth_mem [OF that] by (metis image_eqI list.set_map)
  then have "filter (\<lambda>i. pc_advisory (t ! i) = pc_advisory p \<and> pc_url (t ! i) = pc_url p) [0..<length t] = []"
    by (auto simp: poc_key_def filter_empty_conv)
  with False assms show ?thesis by (simp add: update_or_create_poc_def)
next
  case True
  then obtain i where i: "i < length t" "poc_key (t ! i) = poc_key p" by (auto simp: in_set_conv_nth)
  have "filter (\<lambda>i. pc_advisory (t ! i) = pc_advisory p \<and> pc_url (t ! i) = pc_url p) [0..<length t] =
      filter (\<lambda>j. j = i) [0..<length t]"
  proof (rule filter_cong)
    fix j assume "j \<in> set [0..<length t]"
    then have "map poc_key t ! j = map poc_key t ! i \<longleftrightarrow> j = i" using i assms by (simp add: nth_eq_iff_index_eq del: nth_map)
    with \<open>j \<in> set _\<close> i show "(pc_advisory (t ! j) = pc_advisory p \<and> pc_url (t ! j) = pc_url p) = (j = i)"
      by (auto simp: poc_key_def)
  qed simp
  also have "\<dots> = [i]" using i(1) by (induction t rule: rev_induct) auto
  finally show ?thesis
    using i assms list_update_id [of "map poc_key t" i] by (simp add: update_or_create_poc_def map_update)
qed

lemma store_pocs_unique: "distinct (map poc_key t) \<Longrightarrow> distinct (map poc_key (snd (store_pocs prep i ds t)))"
proof (induction ds arbitrary: t)
  case (Cons d ds)
  note unique = update_or_create_poc_unique [OF Cons.prems]
  have "distinct (map poc_key t')" if "update_or_create_poc p t = Inr t'" for p t'
    using unique [of p] that by auto
  with Cons show ?case by (auto split: sum.split simp: bind_result_Inr)
qed simp

lemma store_advisory_pocs_unique:
  "distinct (map poc_key t) \<Longrightarrow> distinct (map poc_key (snd (store_advisory_pocs prep as j t)))"
proof (induction "as" arbitrary: t)
  case (Cons a as)
  have "distinct (map poc_key (snd (store_pocs prep (adv_pk a) ds t)))" for ds
    by (rule store_pocs_unique [OF Cons.prems])
  with Cons show ?case by (auto split: sum.split prod.split option.split) (metis snd_conv)+
qed simp

lemma collect_and_store_exploits_unique:
  "distinct (map poc_key t) \<Longrightarrow> distinct (map poc_key (snd (collect_and_store_exploits prep alias_tbl tbl files t)))"
proof (induction files arbitrary: t)
  case (Cons f files)
  obtain stem data where f: "f = (stem, data)" by force
  have "distinct (map poc_key (snd (store_advisory_pocs prep xs j t)))" for xs j
    by (rule store_advisory_pocs_unique [OF Cons.prems])
  with Cons f show ?case by (auto split: prod.split option.split) (metis snd_conv)+
qed simp

end
