(* ===== verification/FixCommits.thy ===== *)
theory FixCommits
  imports AdvisoryImport Grouping
begin

text \<open>
  Improvers of \<open>pipelines/v2_improvers\<close> that relate what is stored already: \<open>relate_severities.py\<close> (the
  advisories that carry scores to the ones they score), \<open>collect_commits.py\<close> (code fixes from the
  references of an advisory) and \<open>reference_collect_commits.py\<close> (fixing commits of impacts).
\<close>

section \<open>Relating severities\<close>

definition SUPPORTED_SYSTEMS :: "string list" where
  "SUPPORTED_SYSTEMS = [''epss'', ''cvssv2'', ''cvssv3'', ''cvssv3.1'', ''cvssv4'']"

definition severity_pipelines :: "string list" where
  "severity_pipelines = [''epss_importer_v2'', ''suse_importer_v2'']"

definition severity_score_advisories :: "'d import_db \<Rightarrow> nat list" where
  "severity_score_advisories db = filter (\<lambda>i. let r = t_advisories db ! i in
     av_pipeline r \<in> set severity_pipelines \<and> av_is_latest r \<and>
     list_ex (\<lambda>s. sr_system (t_severities db ! s) \<in> set SUPPORTED_SYSTEMS) (av_severities r)) [0..<length (t_advisories db)]"

definition advisory_id_map :: "'d import_db \<Rightarrow> string list \<Rightarrow> (string \<times> nat set) list" where
  "advisory_id_map db ids =
     (let latest = filter (\<lambda>i. av_is_latest (t_advisories db ! i)) [0..<length (t_advisories db)];
          qs = filter (\<lambda>(s, i). s \<in> set ids) (map (\<lambda>i. (av_advisory_id (t_advisories db ! i), i)) latest);
          alias_qs = filter (\<lambda>(s, i). s \<in> set ids)
            (concat (map (\<lambda>i. map (\<lambda>a. (t_aliases db ! a, i)) (av_aliases (t_advisories db ! i))) latest))
      in fold (\<lambda>(s, i). add_member s i) (qs @ alias_qs) [])"

text \<open>A relation is a pair of the advisory that is scored and the one with the score.\<close>

definition relate_severities :: "'d import_db \<Rightarrow> (nat \<times> nat) list \<Rightarrow> (nat \<times> nat) list" where
  "relate_severities db t =
     (let scores = severity_score_advisories db;
          m = advisory_id_map db (map (\<lambda>i. av_advisory_id (t_advisories db ! i)) scores);
          relations = concat (map (\<lambda>i. map (\<lambda>j. (j, i)) (filter (\<lambda>j. j \<noteq> i)
            (filter (\<lambda>j. j \<in> dict_get m (av_advisory_id (t_advisories db ! i)) {}) [0..<length (t_advisories db)]))) scores)
      in bulk_create (=) relations t)"

section \<open>URLs of commits\<close>

definition is_word :: "char \<Rightarrow> bool" where
  "is_word c \<longleftrightarrow> is_digit c \<or> (let n = of_char c :: nat in 65 \<le> n \<and> n \<le> 90 \<or> 97 \<le> n \<and> n \<le> 122 \<or> n = 95 \<or>
     n \<in> {170, 178, 179, 181, 185, 186, 188, 189, 190} \<or> 192 \<le> n \<and> n \<noteq> 215 \<and> n \<noteq> 247)"

text \<open>The classes \<open>[\w\-.]\<close>, \<open>[\w\-./]\<close> and \<open>[\w\-]\<close>.\<close>

definition path_char :: "char \<Rightarrow> bool" where
  "path_char c \<longleftrightarrow> is_word c \<or> c = CHR ''-'' \<or> c = CHR ''.''"

definition vcs_domains :: "string list" where
  "vcs_domains = [''github.com'', ''gitlab.com'', ''bitbucket.org'', ''gist.github.com'']"

definition prefix_of :: "string list \<Rightarrow> string \<Rightarrow> string option" where
  "prefix_of ps s = (case filter (\<lambda>p. starts_with p s) ps of [] \<Rightarrow> None | p # _ \<Rightarrow> Some (drop (length p) s))"

text \<open>\<open>[\w\-.]+/[\w\-.]+\<close> at the start of the text.\<close>

definition two_segments :: "string \<Rightarrow> bool" where
  "two_segments s = (let a = takeWhile path_char s; r = dropWhile path_char s
     in a \<noteq> [] \<and> (case r of c # d # _ \<Rightarrow> c = CHR ''/'' \<and> path_char d | _ \<Rightarrow> False))"

definition is_vcs_url :: "string \<Rightarrow> bool" where
  "is_vcs_url url =
     (let s = strip url
      in s \<noteq> [] \<and>
        ((case prefix_of [''git://'', ''ssh://'', ''http://'', ''https://''] s of None \<Rightarrow> False
          | Some r \<Rightarrow> (case prefix_of (map (\<lambda>d. d @ ''/'') vcs_domains) r of None \<Rightarrow> False | Some p \<Rightarrow> two_segments p)) \<or>
         (case prefix_of [''git@''] s of None \<Rightarrow> False
          | Some r \<Rightarrow> (case prefix_of (map (\<lambda>d. d @ '':'') vcs_domains) r of None \<Rightarrow> False
              | Some p \<Rightarrow> two_segments p \<and> list_all path_char (drop 1 (dropWhile path_char p)))) \<or>
         (case prefix_of [''github:'', ''gitlab:'', ''bitbucket:'', ''gist:''] s of None \<Rightarrow> False
          | Some r \<Rightarrow> r \<noteq> [] \<and> list_all (\<lambda>c. path_char c \<or> c = CHR ''/'') r) \<or>
         (case split_on (CHR ''/'') s of [a, b] \<Rightarrow> a \<noteq> [] \<and> b \<noteq> [] \<and> list_all (\<lambda>c. path_char c \<and> c \<noteq> CHR ''.'') (a @ b)
          | _ \<Rightarrow> False)))"

definition PLAIN_URLS :: "string list" where
  "PLAIN_URLS = [''https://'', ''http://'']"

definition VCS_URLS :: "string list" where
  "VCS_URLS = [''git://'', ''git+git://'', ''git+https://'', ''git+http://'', ''hg://'', ''hg+http://'', ''hg+https://'',
     ''svn://'', ''svn+https://'', ''svn+http://'']"

definition hoster_urls :: "(string \<times> string) list" where
  "hoster_urls = [(''bitbucket'', ''https://bitbucket.org/''), (''github'', ''https://github.com/''),
     (''gitlab'', ''https://gitlab.com/''), (''gist'', ''https://gist.github.com/'')]"

text \<open>
  The repository of a shortcut is put in a template that is formatted once more with \<open>%\<close>: a percent sign
  in it, which \<open>is_vcs_url\<close> excludes, is an error of formatting.
\<close>

definition normalize_vcs_url :: "string option \<Rightarrow> string option result" where
  "normalize_vcs_url url =
     (case url of None \<Rightarrow> Inr None | Some u \<Rightarrow>
       (let s = strip u in
        if s = [] then Inr None
        else if list_ex (\<lambda>p. starts_with p s) (VCS_URLS @ PLAIN_URLS) then Inr (Some s)
        else if starts_with ''git@'' s
        then (let right = drop 4 s;
                  (host, _, repo) = partition_on (if contains_str '':'' s then '':'' else ''/'') right;
                  scheme = (if list_ex (\<lambda>r. contains_str r host) [''bitbucket'', ''gitlab'', ''github''] then ''https'' else ''git'')
              in Inr (Some (scheme @ ''://'' @ host @ ''/'' @ repo)))
        else if list_ex (\<lambda>p. starts_with p s) [''bitbucket:'', ''gitlab:'', ''github:'', ''gist:'']
        then (let (hoster, _, _) = partition_on '':'' s; repo = split_on (CHR '':'') s ! 1
              in if contains_str ''%'' repo then Inl ValueError else Inr (Some (dict_get hoster_urls hoster [] @ repo)))
        else if length (split_on (CHR ''/'') s) = 2 then Inr (Some (''https://github.com/'' @ s))
        else Inr (Some s)))"

section \<open>Code fixes\<close>

record code_fix =
  cf_commits :: "string list"
  cf_advisory :: nat
  cf_package :: nat

definition is_vcs_url_already_processed :: "string \<Rightarrow> code_fix list \<Rightarrow> bool" where
  "is_vcs_url_already_processed u t \<longleftrightarrow> list_ex (\<lambda>c. u \<in> set (cf_commits c)) t"

definition get_or_create_code_fix :: "code_fix \<Rightarrow> code_fix list \<Rightarrow> code_fix list" where
  "get_or_create_code_fix c t = (if c \<in> set t then t else t @ [c])"

definition affecting_of :: "'d import_db \<Rightarrow> nat \<Rightarrow> nat list" where
  "affecting_of db i = concat (map im_affecting (filter (\<lambda>im. im_advisory im = i) (t_impacts db)))"

definition fix_reference :: "'d import_db \<Rightarrow> nat \<Rightarrow> string \<Rightarrow> code_fix list \<Rightarrow> code_fix list result" where
  "fix_reference db i url t =
     (if \<not> contains_str ''/commit/'' url \<or> \<not> is_vcs_url url then Inr t
      else bind_result (normalize_vcs_url (Some url)) (\<lambda>v. case v of None \<Rightarrow> Inr t
        | Some u \<Rightarrow> if u = [] \<or> is_vcs_url_already_processed u t then Inr t
            else Inr (fold (\<lambda>k. get_or_create_code_fix \<lparr>cf_commits = [u], cf_advisory = i, cf_package = k\<rparr>) (affecting_of db i) t)))"

fun fix_references :: "'d import_db \<Rightarrow> (nat \<times> string) list \<Rightarrow> code_fix list \<Rightarrow> code_fix list result" where
  "fix_references db [] t = Inr t"
| "fix_references db ((i, url) # rs) t = bind_result (fix_reference db i url t) (fix_references db rs)"

text \<open>
  The advisories with an affected package, each with its references; \<open>qs\<close> are the advisories in the order
  of the query, by data source, identifier, date and content.
\<close>

definition affected_advisories :: "nat list \<Rightarrow> 'd import_db \<Rightarrow> nat list" where
  "affected_advisories qs db = filter (\<lambda>i. affecting_of db i \<noteq> []) qs"

definition advisory_references :: "nat list \<Rightarrow> 'd import_db \<Rightarrow> (nat \<times> string) list" where
  "advisory_references qs db = concat (map (\<lambda>i. map (\<lambda>r. (i, ref_url (t_references db ! r)))
     (av_references (t_advisories db ! i))) (affected_advisories qs db))"

definition collect_and_store_fix_commits :: "nat list \<Rightarrow> 'd import_db \<Rightarrow> code_fix list \<Rightarrow> code_fix list result" where
  "collect_and_store_fix_commits qs db t = fix_references db (advisory_references qs db) t"

section \<open>Fixing commits from references\<close>

type_synonym vcs_row = "string \<times> string \<times> string \<times> nat"

definition get_vcs_data :: "purl_lib \<Rightarrow> url_lib \<Rightarrow> string option \<Rightarrow> (string \<times> string \<times> string) option" where
  "get_vcs_data L U url =
     (case url of None \<Rightarrow> None | Some u \<Rightarrow> (case url2purl U u of None \<Rightarrow> None
      | Some p \<Rightarrow> if \<not> truthy_opt (pversion p) \<or> \<not> is_commit (the (pversion p)) then None
          else (case get_core_purl L (PObj p) of Inl _ \<Rightarrow> None
            | Inr base \<Rightarrow> (let vcs = purl2url U (lib_to_string L base)
                in if truthy_opt vcs then Some (lib_to_string L base, the vcs, the (pversion p)) else None))))"

definition vcs_rows :: "purl_lib \<Rightarrow> url_lib \<Rightarrow> 'd import_db \<Rightarrow> nat \<Rightarrow> vcs_row list" where
  "vcs_rows L U db i =
     (let r = t_advisories db ! i;
          urls = remdups (map (\<lambda>k. Some (ref_url (t_references db ! k))) (av_references r) @
                          map (\<lambda>k. patch_url (t_patches db ! k)) (av_patches r))
      in concat (map (\<lambda>u. case get_vcs_data L U u of None \<Rightarrow> [] | Some (b, v, h) \<Rightarrow> [(b, v, h, i)]) urls))"

definition new_impact :: "string \<times> nat \<Rightarrow> impact_v2" where
  "new_impact k = \<lparr>im_advisory = snd k, im_base_purl = fst k, im_affecting_vers = None, im_fixed_vers = None,
     im_affecting = [], im_fixed_by = [], im_introduced_commits = [], im_fixed_commits = [],
     im_unfurled_at = None, im_unfurled_ok_at = None\<rparr>"

definition impact_key :: "impact_v2 \<Rightarrow> string \<times> nat" where
  "impact_key im = (im_base_purl im, im_advisory im)"

text \<open>A dict of rows keeps the last row of a key.\<close>

definition last_row :: "('a \<Rightarrow> bool) \<Rightarrow> 'a list \<Rightarrow> nat option" where
  "last_row P t = (case rows_where P t of [] \<Rightarrow> None | is \<Rightarrow> Some (last is))"

definition commit_pair :: "commit_patch \<Rightarrow> string option \<times> string option" where
  "commit_pair c = (vcs_url c, commit_hash c)"

definition relate_commit :: "vcs_row \<Rightarrow> 'd import_db \<Rightarrow> 'd import_db" where
  "relate_commit row db = (case row of (b, v, h, i) \<Rightarrow>
     (case (last_row (\<lambda>im. impact_key im = (b, i)) (t_impacts db), last_row (\<lambda>c. commit_pair c = (Some v, Some h)) (t_commits db)) of
        (Some m, Some c) \<Rightarrow> db\<lparr>t_impacts := (t_impacts db)[m := (t_impacts db ! m)\<lparr>im_fixed_commits :=
            (if c \<in> set (im_fixed_commits (t_impacts db ! m)) then im_fixed_commits (t_impacts db ! m)
             else im_fixed_commits (t_impacts db ! m) @ [c])\<rparr>]\<rparr>
      | _ \<Rightarrow> db))"

definition bulk_commit_batch_update :: "vcs_row list \<Rightarrow> 'd import_db \<Rightarrow> 'd import_db" where
  "bulk_commit_batch_update rows db =
     (let impact_data = remdups (map (\<lambda>(b, v, h, i). (b, i)) rows);
          commit_data = remdups (map (\<lambda>(b, v, h, i). (v, h)) rows);
          new_impacts = filter (\<lambda>k. k \<notin> impact_key ` set (t_impacts db)) impact_data
      in fold relate_commit rows (db\<lparr>
           t_impacts := t_impacts db @ map new_impact new_impacts,
           t_commits := bulk_create (\<lambda>a b. commit_pair a = commit_pair b)
             (map (\<lambda>(v, h). \<lparr>vcs_url = Some v, commit_hash = Some h, cp_text = None, cp_checksum = None\<rparr>) commit_data)
             (t_commits db)\<rparr>))"

text \<open>The loop: a batch is written once it has as many rows as the limit, after a whole advisory.\<close>

fun collect_batches :: "(nat \<Rightarrow> vcs_row list) \<Rightarrow> nat \<Rightarrow> nat list \<Rightarrow> vcs_row list \<Rightarrow> 'd import_db \<Rightarrow> 'd import_db" where
  "collect_batches rows_of limit [] batch db = (if batch = [] then db else bulk_commit_batch_update batch db)"
| "collect_batches rows_of limit (i # is) batch db =
     (let batch = batch @ rows_of i
      in if limit \<le> length batch then collect_batches rows_of limit is [] (bulk_commit_batch_update batch db)
         else collect_batches rows_of limit is batch db)"

definition collect_reference_commits :: "purl_lib \<Rightarrow> url_lib \<Rightarrow> 'd import_db \<Rightarrow> 'd import_db" where
  "collect_reference_commits L U db = collect_batches (vcs_rows L U db) 10000 [0..<length (t_advisories db)] [] db"

section \<open>Related severities, exactly\<close>

lemma set_bulk_create_eq: "set (bulk_create (=) rs t) = set rs \<union> set t"
  using bulk_create_keys [of "(=)" "\<lambda>x. x" rs t] by simp

lemma distinct_bulk_create_eq: "distinct t \<Longrightarrow> distinct (bulk_create (=) rs t)"
  by (induction rs arbitrary: t) (auto simp: list_ex_iff)

lemma dict_get_fold_members: "dict_get (fold (\<lambda>(s, i). add_member s i) ps d) k {} = dict_get d k {} \<union> {i. (k, i) \<in> set ps}"
proof (induction ps arbitrary: d)
  case (Cons p ps)
  show ?case by (cases p) (auto simp: Cons.IH, auto simp: add_member_def dict_get_def split: if_splits)
qed simp

definition scored_by :: "'d import_db \<Rightarrow> string \<Rightarrow> nat \<Rightarrow> bool" where
  "scored_by db s j \<longleftrightarrow> j < length (t_advisories db) \<and> av_is_latest (t_advisories db ! j) \<and>
     (av_advisory_id (t_advisories db ! j) = s \<or> s \<in> (\<lambda>a. t_aliases db ! a) ` set (av_aliases (t_advisories db ! j)))"

lemma advisory_id_map_lookup:
  "s \<in> set ids \<Longrightarrow> dict_get (advisory_id_map db ids) s {} = {j. scored_by db s j}"
  by (auto simp: advisory_id_map_def Let_def dict_get_fold_members scored_by_def) (auto simp: dict_get_def)

text \<open>
  C39: relating severities adds exactly the pairs of a latest advisory and a latest EPSS or SUSE advisory
  with a supported score whose identifier is the identifier or an alias of the former, and keeps all other
  relations.
\<close>

theorem relate_severities_exact:
  "set (relate_severities db t) = set t \<union>
     {(j, i). i \<in> set (severity_score_advisories db) \<and> scored_by db (av_advisory_id (t_advisories db ! i)) j \<and> j \<noteq> i}"
proof -
  have "dict_get (advisory_id_map db (map (\<lambda>i. av_advisory_id (t_advisories db ! i)) (severity_score_advisories db)))
      (av_advisory_id (t_advisories db ! i)) {} = {j. scored_by db (av_advisory_id (t_advisories db ! i)) j}"
    if "i \<in> set (severity_score_advisories db)" for i
    using that by (intro advisory_id_map_lookup) simp
  then show ?thesis by (auto simp: relate_severities_def Let_def set_bulk_create_eq scored_by_def)
qed

lemma relate_severities_distinct: "distinct t \<Longrightarrow> distinct (relate_severities db t)"
  by (simp add: relate_severities_def Let_def distinct_bulk_create_eq)

section \<open>Code fixes, exactly\<close>

text \<open>The commit a reference stands for.\<close>

definition fix_url :: "string \<Rightarrow> string option" where
  "fix_url url = (if contains_str ''/commit/'' url \<and> is_vcs_url url
     then case normalize_vcs_url (Some url) of Inr (Some u) \<Rightarrow> if u = [] then None else Some u | _ \<Rightarrow> None else None)"

lemma starts_with_append: "starts_with p s \<longleftrightarrow> (\<exists>r. s = p @ r)"
  unfolding starts_with_def by (metis append_eq_conv_conj append_take_drop_id)

lemma split_on_chars: "x \<in> set (split_on c s) \<Longrightarrow> set x \<subseteq> set s"
  by (induction c s arbitrary: x rule: split_on.induct) (auto split: if_splits list.splits, blast+)

lemma split_on_two: "c \<in> set s \<Longrightarrow> 2 \<le> length (split_on c s)"
proof (induction c s rule: split_on.induct)
  case (2 c x xs)
  show ?case
  proof (cases "x = c")
    case True
    have "split_on c xs \<noteq> []" by simp
    then show ?thesis using True by (cases "split_on c xs") auto
  next
    case False
    with 2 have "2 \<le> length (split_on c xs)" by auto
    with False show ?thesis by (cases "split_on c xs") auto
  qed
qed simp

lemma contains_char: "contains_str [c] s \<Longrightarrow> c \<in> set s"
  by (auto simp: contains_str_def starts_with_append list_ex_iff) (metis in_set_dropD list.set_intros(1))

lemma prefix_of_Some: "prefix_of ps s = Some r \<Longrightarrow> \<exists>p\<in>set ps. s = p @ r"
  by (auto simp: prefix_of_def starts_with_append split: list.splits dest!: filter_eq_ConsD)

lemma is_vcs_url_normalizes:
  assumes "is_vcs_url url"
  shows "\<exists>v. normalize_vcs_url (Some url) = Inr v"
proof (rule ccontr)
  assume n: "\<not> ?thesis"
  let ?s = "strip url"
  from n have h: "list_ex (\<lambda>p. starts_with p ?s) [''bitbucket:'', ''gitlab:'', ''github:'', ''gist:'']"
    and no: "\<not> starts_with ''git@'' ?s"
    and pct: "contains_str ''%'' (split_on (CHR '':'') ?s ! 1)"
    by (auto simp: normalize_vcs_url_def Let_def split: prod.splits if_splits)
  from h have "CHR '':'' \<in> set ?s" by (auto simp: starts_with_append)
  from split_on_two [OF this] have "split_on (CHR '':'') ?s ! 1 \<in> set (split_on (CHR '':'') ?s)" by simp
  from split_on_chars [OF this] contains_char [OF pct] have pc: "CHR ''%'' \<in> set ?s" by blast
  have np: "\<not> path_char (CHR ''%'')" by code_simp
  from assms consider
    (scheme) r where "prefix_of [''git://'', ''ssh://'', ''http://'', ''https://''] ?s = Some r"
  | (git) r where "prefix_of [''git@''] ?s = Some r"
  | (short) r where "prefix_of [''github:'', ''gitlab:'', ''bitbucket:'', ''gist:''] ?s = Some r"
      "list_all (\<lambda>c. path_char c \<or> c = CHR ''/'') r"
  | (implicit) a b where "split_on (CHR ''/'') ?s = [a, b]" "list_all path_char (a @ b)"
    by (auto simp: is_vcs_url_def Let_def list_all_iff split: option.splits list.splits)
  then show False
  proof cases
    case scheme
    from prefix_of_Some [OF this] h show False by (auto simp: starts_with_append)
  next
    case git
    from prefix_of_Some [OF this] no show False by (auto simp: starts_with_append)
  next
    case short
    from prefix_of_Some [OF short(1)] short(2) pc np show False by (auto simp: list_all_iff)
  next
    case implicit
    have "set ?s = set (join_with ''/'' [a, b])" using join_split [of "CHR ''/''" ?s] by (simp add: implicit(1))
    with implicit(2) pc np show False by (auto simp: list_all_iff join_with_Cons)
  qed
qed

definition fixes_of :: "string \<Rightarrow> code_fix list \<Rightarrow> code_fix set" where
  "fixes_of u t = {c \<in> set t. u \<in> set (cf_commits c)}"

definition new_fixes :: "'d import_db \<Rightarrow> nat \<Rightarrow> string \<Rightarrow> code_fix set" where
  "new_fixes db i u = (\<lambda>k. \<lparr>cf_commits = [u], cf_advisory = i, cf_package = k\<rparr>) ` set (affecting_of db i)"

lemma set_fold_code_fix:
  "set (fold (\<lambda>k. get_or_create_code_fix (f k)) ks t) = set t \<union> f ` set ks"
  by (induction ks arbitrary: t) (auto simp: get_or_create_code_fix_def)

lemma fix_reference_exact:
  "\<exists>t'. fix_reference db i url t = Inr t' \<and>
     set t' = set t \<union> (case fix_url url of None \<Rightarrow> {} | Some u \<Rightarrow> if fixes_of u t = {} then new_fixes db i u else {})"
proof (cases "contains_str ''/commit/'' url \<and> is_vcs_url url")
  case False
  then show ?thesis by (auto simp: fix_reference_def fix_url_def)
next
  case True
  then obtain v where v: "normalize_vcs_url (Some url) = Inr v" using is_vcs_url_normalizes by blast
  have processed: "is_vcs_url_already_processed u t \<longleftrightarrow> fixes_of u t \<noteq> {}" for u
    by (auto simp: is_vcs_url_already_processed_def fixes_of_def list_ex_iff)
  show ?thesis
    using True v by (auto simp: fix_reference_def fix_url_def processed new_fixes_def set_fold_code_fix split: option.splits)
qed

text \<open>
  C31: collecting fix commits always returns. A commit that already has a code fix gets none; another one
  gets a code fix for every affected package of the first advisory that refers to it, and for no other.
\<close>

theorem code_fixes_exact:
  "\<exists>t'. collect_and_store_fix_commits qs db t = Inr t' \<and>
     (\<forall>u. fixes_of u t' = (if fixes_of u t \<noteq> {} then fixes_of u t
        else case find (\<lambda>(i, url). fix_url url = Some u) (advisory_references qs db) of
            None \<Rightarrow> {} | Some (i, url) \<Rightarrow> new_fixes db i u))"
proof -
  have "\<exists>t'. fix_references db rs t = Inr t' \<and>
     (\<forall>u. fixes_of u t' = (if fixes_of u t \<noteq> {} then fixes_of u t
        else case find (\<lambda>(i, url). fix_url url = Some u) rs of None \<Rightarrow> {} | Some (i, url) \<Rightarrow> new_fixes db i u))"
    if "\<forall>(i, url)\<in>set rs. affecting_of db i \<noteq> []" for rs
    using that
  proof (induction rs arbitrary: t)
    case (Cons r rs)
    obtain i url where r: "r = (i, url)" by force
    from fix_reference_exact [of db i url t] obtain t1 where t1: "fix_reference db i url t = Inr t1"
      "set t1 = set t \<union> (case fix_url url of None \<Rightarrow> {} | Some u \<Rightarrow> if fixes_of u t = {} then new_fixes db i u else {})" by blast
    have step: "fixes_of u t1 = (if fixes_of u t = {} \<and> fix_url url = Some u then new_fixes db i u else fixes_of u t)" for u
      using t1(2) by (auto simp: fixes_of_def new_fixes_def split: option.splits if_splits)
    have ne: "new_fixes db i u \<noteq> {}" for u using Cons.prems by (simp add: r new_fixes_def)
    from Cons.IH [of t1] Cons.prems obtain t' where "fix_references db rs t1 = Inr t'"
      "\<forall>u. fixes_of u t' = (if fixes_of u t1 \<noteq> {} then fixes_of u t1
        else case find (\<lambda>(i, url). fix_url url = Some u) rs of None \<Rightarrow> {} | Some (i, url) \<Rightarrow> new_fixes db i u)" by auto
    with t1(1) ne show ?case by (auto simp: r step)
  qed simp
  moreover have "\<forall>(i, url)\<in>set (advisory_references qs db). affecting_of db i \<noteq> []"
    by (auto simp: advisory_references_def affected_advisories_def)
  ultimately show ?thesis unfolding collect_and_store_fix_commits_def by blast
qed

section \<open>Commits of references, exactly\<close>

lemma last_row_Some: "last_row P t = Some i \<Longrightarrow> i < length t \<and> P (t ! i)"
proof -
  assume "last_row P t = Some i"
  then have "i \<in> set (rows_where P t)" by (auto simp: last_row_def split: list.splits if_splits)
  then show ?thesis by (simp add: rows_where_def)
qed

lemma last_row_exists: "x \<in> set t \<Longrightarrow> P x \<Longrightarrow> \<exists>i. last_row P t = Some i"
proof -
  assume "x \<in> set t" "P x"
  then have "rows_where P t \<noteq> []" by (auto simp: rows_where_def filter_empty_conv in_set_conv_nth)
  then show ?thesis by (cases "rows_where P t") (auto simp: last_row_def)
qed

text \<open>Nothing is lost: commits and impacts stay, an impact may have more fixing commits.\<close>

definition commits_grow :: "'d import_db \<Rightarrow> 'd import_db \<Rightarrow> bool" where
  "commits_grow db db' \<longleftrightarrow> (\<exists>cs. t_commits db' = t_commits db @ cs) \<and> length (t_impacts db) \<le> length (t_impacts db') \<and>
     (\<forall>m<length (t_impacts db). \<exists>x. t_impacts db' ! m = (t_impacts db ! m)\<lparr>im_fixed_commits := im_fixed_commits (t_impacts db ! m) @ x\<rparr>) \<and>
     t_advisories db' = t_advisories db \<and> t_references db' = t_references db \<and> t_patches db' = t_patches db \<and>
     t_packages db' = t_packages db"

definition has_commit :: "vcs_row \<Rightarrow> 'd import_db \<Rightarrow> bool" where
  "has_commit row db = (case row of (b, v, h, i) \<Rightarrow> \<exists>im\<in>set (t_impacts db). impact_key im = (b, i) \<and>
     (\<exists>c\<in>set (im_fixed_commits im). c < length (t_commits db) \<and> commit_pair (t_commits db ! c) = (Some v, Some h)))"

lemma commits_grow_refl: "commits_grow db db"
  by (auto simp: commits_grow_def intro: exI [of _ "[]"])

lemma commits_grow_trans:
  assumes "commits_grow a b" "commits_grow b c"
  shows "commits_grow a c"
proof -
  have "\<exists>x. t_impacts c ! m = (t_impacts a ! m)\<lparr>im_fixed_commits := im_fixed_commits (t_impacts a ! m) @ x\<rparr>"
    if m: "m < length (t_impacts a)" for m
  proof -
    from assms(1) m obtain x where x: "t_impacts b ! m = (t_impacts a ! m)\<lparr>im_fixed_commits := im_fixed_commits (t_impacts a ! m) @ x\<rparr>"
      and l: "m < length (t_impacts b)" by (auto simp: commits_grow_def)
    from assms(2) l obtain y where "t_impacts c ! m = (t_impacts b ! m)\<lparr>im_fixed_commits := im_fixed_commits (t_impacts b ! m) @ y\<rparr>"
      by (auto simp: commits_grow_def)
    with x show ?thesis by (intro exI [of _ "x @ y"]) simp
  qed
  with assms show ?thesis by (auto simp: commits_grow_def)
qed

lemma has_commit_grow:
  assumes "has_commit row a" "commits_grow a b"
  shows "has_commit row b"
proof -
  obtain p v h i where row: "row = (p, v, h, i)" by (cases row)
  from assms(1) obtain m c where m: "m < length (t_impacts a)" "impact_key (t_impacts a ! m) = (p, i)"
    and c: "c \<in> set (im_fixed_commits (t_impacts a ! m))" "c < length (t_commits a)" "commit_pair (t_commits a ! c) = (Some v, Some h)"
    by (auto simp: has_commit_def row in_set_conv_nth) blast
  from assms(2) m(1) obtain x where "t_impacts b ! m = (t_impacts a ! m)\<lparr>im_fixed_commits := im_fixed_commits (t_impacts a ! m) @ x\<rparr>"
    and l: "m < length (t_impacts b)" by (auto simp: commits_grow_def)
  with m(2) c(1) have "impact_key (t_impacts b ! m) = (p, i)" "c \<in> set (im_fixed_commits (t_impacts b ! m))"
    by (simp_all add: impact_key_def)
  moreover from assms(2) c(2,3) have "c < length (t_commits b)" "commit_pair (t_commits b ! c) = (Some v, Some h)"
    by (auto simp: commits_grow_def nth_append)
  ultimately show ?thesis using nth_mem [OF l] by (auto simp: has_commit_def row)
qed

lemma relate_commit_grow: "commits_grow db (relate_commit row db)"
proof -
  obtain b v h i where row: "row = (b, v, h, i)" by (cases row)
  show ?thesis
  proof (cases "last_row (\<lambda>im. impact_key im = (b, i)) (t_impacts db)")
    case None
    then show ?thesis by (simp add: row relate_commit_def commits_grow_refl)
  next
    case (Some m)
    show ?thesis
    proof (cases "last_row (\<lambda>c. commit_pair c = (Some v, Some h)) (t_commits db)")
      case None
      with Some show ?thesis by (simp add: row relate_commit_def commits_grow_refl)
    next
      case c: (Some c)
      have "\<exists>x. (if c \<in> set xs then xs else xs @ [c]) = xs @ x" for xs by auto
      then show ?thesis using last_row_Some [OF Some]
        by (auto simp: row relate_commit_def Some c commits_grow_def nth_list_update intro: exI [of _ "[]"])
    qed
  qed
qed

lemma relate_commit_has:
  assumes "impact_key im = (b, i)" "im \<in> set (t_impacts db)" "commit_pair x = (Some v, Some h)" "x \<in> set (t_commits db)"
  shows "has_commit (b, v, h, i) (relate_commit (b, v, h, i) db)"
proof -
  from last_row_exists [OF assms(2), of "\<lambda>im. impact_key im = (b, i)"] assms(1) obtain m where
    m: "last_row (\<lambda>im. impact_key im = (b, i)) (t_impacts db) = Some m" by auto
  from last_row_exists [OF assms(4), of "\<lambda>c. commit_pair c = (Some v, Some h)"] assms(3) obtain c where
    c: "last_row (\<lambda>c. commit_pair c = (Some v, Some h)) (t_commits db) = Some c" by auto
  let ?fixed = "im_fixed_commits (t_impacts db ! m)"
  let ?im = "(t_impacts db ! m)\<lparr>im_fixed_commits := (if c \<in> set ?fixed then ?fixed else ?fixed @ [c])\<rparr>"
  have "?im \<in> set ((t_impacts db)[m := ?im])" using last_row_Some [OF m] by (intro set_update_memI) simp
  moreover have "impact_key ?im = (b, i)" "c \<in> set (im_fixed_commits ?im)"
    using last_row_Some [OF m] by (auto simp: impact_key_def)
  ultimately have "has_commit (b, v, h, i) (db\<lparr>t_impacts := (t_impacts db)[m := ?im]\<rparr>)"
    using last_row_Some [OF c] by (auto simp: has_commit_def simp del: set_update_memI)
  then show ?thesis by (simp add: relate_commit_def m c)
qed

lemma commits_grow_keys:
  assumes "commits_grow a b"
  shows "impact_key ` set (t_impacts a) \<subseteq> impact_key ` set (t_impacts b)" "commit_pair ` set (t_commits a) \<subseteq> commit_pair ` set (t_commits b)"
proof -
  show "impact_key ` set (t_impacts a) \<subseteq> impact_key ` set (t_impacts b)"
  proof (rule image_subsetI)
    fix im assume "im \<in> set (t_impacts a)"
    then obtain m where m: "m < length (t_impacts a)" "im = t_impacts a ! m" by (auto simp: in_set_conv_nth)
    with assms obtain x where "t_impacts b ! m = im\<lparr>im_fixed_commits := im_fixed_commits im @ x\<rparr>" "m < length (t_impacts b)"
      by (auto simp: commits_grow_def)
    then have "impact_key im = impact_key (t_impacts b ! m)" "t_impacts b ! m \<in> set (t_impacts b)"
      by (simp add: impact_key_def) (rule nth_mem, fact)
    then show "impact_key im \<in> impact_key ` set (t_impacts b)" by simp
  qed
  show "commit_pair ` set (t_commits a) \<subseteq> commit_pair ` set (t_commits b)" using assms by (auto simp: commits_grow_def)
qed

lemma fold_relate_commit:
  assumes "\<forall>(b, v, h, i)\<in>set rows. (b, i) \<in> impact_key ` set (t_impacts db) \<and> (Some v, Some h) \<in> commit_pair ` set (t_commits db)"
  shows "commits_grow db (fold relate_commit rows db) \<and> (\<forall>row\<in>set rows. has_commit row (fold relate_commit rows db))"
  using assms
proof (induction rows arbitrary: db)
  case (Cons r rows)
  obtain b v h i where r: "r = (b, v, h, i)" by (cases r)
  note g = relate_commit_grow [of db r]
  note keys = commits_grow_keys [OF g]
  have "has_commit r (relate_commit r db)"
  proof -
    from Cons.prems obtain im x where "im \<in> set (t_impacts db)" "impact_key im = (b, i)" "x \<in> set (t_commits db)"
      "commit_pair x = (Some v, Some h)" by (auto simp: r)
    then show ?thesis unfolding r by (intro relate_commit_has)
  qed
  moreover have "\<forall>(b, v, h, i)\<in>set rows. (b, i) \<in> impact_key ` set (t_impacts (relate_commit r db)) \<and>
      (Some v, Some h) \<in> commit_pair ` set (t_commits (relate_commit r db))"
    using Cons.prems keys by auto
  note rest = Cons.IH [OF this]
  ultimately show ?case
    using commits_grow_trans [OF g] has_commit_grow [of r "relate_commit r db" "fold relate_commit rows (relate_commit r db)"]
    by simp
qed (simp add: commits_grow_refl)

lemma bulk_commit_batch_update_ok:
  "commits_grow db (bulk_commit_batch_update rows db) \<and> (\<forall>row\<in>set rows. has_commit row (bulk_commit_batch_update rows db))"
proof -
  let ?new = "map new_impact (filter (\<lambda>k. k \<notin> impact_key ` set (t_impacts db)) (remdups (map (\<lambda>(b, v, h, i). (b, i)) rows)))"
  let ?made = "map (\<lambda>(v, h). \<lparr>vcs_url = Some v, commit_hash = Some h, cp_text = None, cp_checksum = None\<rparr>)
     (remdups (map (\<lambda>(b, v, h, i). (v, h)) rows))"
  let ?commits = "bulk_create (\<lambda>a b. commit_pair a = commit_pair b) ?made (t_commits db)"
  let ?db = "db\<lparr>t_impacts := t_impacts db @ ?new, t_commits := ?commits\<rparr>"
  have ids: "\<exists>x. y = y\<lparr>im_fixed_commits := im_fixed_commits y @ x\<rparr>" for y :: impact_v2
    by (rule exI [of _ "[]"]) simp
  from bulk_create_prefix [of "\<lambda>a b. commit_pair a = commit_pair b" ?made "t_commits db"]
  obtain cs where "?commits = t_commits db @ cs" by (elim exE conjE)
  then have g: "commits_grow db ?db" using ids by (auto simp: commits_grow_def nth_append)
  have "(b, i) \<in> impact_key ` set (t_impacts ?db) \<and> (Some v, Some h) \<in> commit_pair ` set (t_commits ?db)"
    if row: "(b, v, h, i) \<in> set rows" for b v h i
  proof
    have "(b, i) \<in> (\<lambda>(b, v, h, i). (b, i)) ` set rows" using row by force
    then have new: "new_impact (b, i) \<in> set ?new" if "(b, i) \<notin> impact_key ` set (t_impacts db)" using that by simp
    have "impact_key (new_impact (b, i)) = (b, i)" by (simp add: impact_key_def new_impact_def)
    then have "(b, i) \<in> impact_key ` set ?new" if "(b, i) \<notin> impact_key ` set (t_impacts db)"
      using imageI [OF new [OF that], of impact_key] by (simp only:)
    then have "(b, i) \<in> impact_key ` set (t_impacts db) \<union> impact_key ` set ?new" by blast
    moreover have "t_impacts ?db = t_impacts db @ ?new" by simp
    ultimately show "(b, i) \<in> impact_key ` set (t_impacts ?db)" by (simp only: set_append image_Un)
    have "(v, h) \<in> (\<lambda>(b, v, h, i). (v, h)) ` set rows" using row by force
    then have "\<lparr>vcs_url = Some v, commit_hash = Some h, cp_text = None, cp_checksum = None\<rparr> \<in> set ?made" by force
    then have "(Some v, Some h) \<in> commit_pair ` set ?made" by (force simp: commit_pair_def)
    moreover have "commit_pair ` set ?commits = commit_pair ` set ?made \<union> commit_pair ` set (t_commits db)"
      by (rule bulk_create_keys) simp
    ultimately show "(Some v, Some h) \<in> commit_pair ` set (t_commits ?db)" by simp
  qed
  then have "\<forall>(b, v, h, i)\<in>set rows. (b, i) \<in> impact_key ` set (t_impacts ?db) \<and>
      (Some v, Some h) \<in> commit_pair ` set (t_commits ?db)" by blast
  from fold_relate_commit [OF this] commits_grow_trans [OF g] show ?thesis
    by (simp add: bulk_commit_batch_update_def Let_def)
qed

lemma collect_batches_ok:
  "commits_grow db (collect_batches rows_of limit is batch db) \<and>
   (\<forall>row\<in>set batch \<union> (\<Union>i\<in>set is. set (rows_of i)). has_commit row (collect_batches rows_of limit is batch db))"
proof (induction rows_of limit "is" batch db rule: collect_batches.induct)
  case (1 rows_of limit batch db)
  then show ?case using bulk_commit_batch_update_ok [of db batch] by (simp add: commits_grow_refl)
next
  case (2 rows_of limit i "is" batch db)
  let ?batch = "batch @ rows_of i"
  show ?case
  proof (cases "limit \<le> length ?batch")
    case True
    note up = bulk_commit_batch_update_ok [of db ?batch]
    note rest = "2.IH"(1) [OF refl True]
    have "has_commit row (collect_batches rows_of limit is [] (bulk_commit_batch_update ?batch db))" if "row \<in> set ?batch" for row
      using up rest that has_commit_grow by blast
    with up rest commits_grow_trans show ?thesis using True by (auto simp: Let_def)
  next
    case False
    from "2.IH"(2) [OF refl False] False show ?thesis by (auto simp: Let_def)
  qed
qed

text \<open>
  C37: after collecting commits, every commit of a supported forge that a reference or a patch of an advisory
  names is stored and is a fixing commit of an impact of that advisory on the repository; nothing that was
  stored is lost.
\<close>

theorem reference_commits_recorded:
  assumes "i < length (t_advisories db)" "row \<in> set (vcs_rows L U db i)"
  shows "commits_grow db (collect_reference_commits L U db) \<and> has_commit row (collect_reference_commits L U db)"
  using collect_batches_ok [of db "vcs_rows L U db" 10000 "[0..<length (t_advisories db)]" "[]"] assms
  by (auto simp: collect_reference_commits_def)

section \<open>A concrete database\<close>

definition demo_fix_row :: "string \<Rightarrow> nat advisory_v2" where
  "demo_fix_row s = \<lparr>av_datasource = ''d'', av_pipeline = ''p'', av_advisory_id = s, av_avid = s, av_content_id = s,
     av_url = ''u'', av_summary = [], av_date_published = None, av_original = None, av_precedence = 0, av_is_latest = True,
     av_aliases = [], av_references = [0], av_severities = [], av_weaknesses = [], av_patches = [],
     av_weighted_severity = None, av_exploitability = None, av_risk_score = None, av_unfurled_at = None, av_unfurled_ok_at = None\<rparr>"

definition demo_fix_db :: "nat import_db" where
  "demo_fix_db = \<lparr>t_aliases = [], t_references = [\<lparr>ref_id = [], ref_type = [], ref_url = ''https://github.com/o/r/commit/abcdef1''\<rparr>],
     t_severities = [], t_weaknesses = [], t_patches = [], t_commits = [], t_packages = [],
     t_advisories = [demo_fix_row ''A'', demo_fix_row ''B''],
     t_impacts = [(new_impact (''x'', 0))\<lparr>im_affecting := [0]\<rparr>, (new_impact (''y'', 1))\<lparr>im_affecting := [1]\<rparr>]\<rparr>"

definition demo_commit_urls :: url_lib where
  "demo_commit_urls = \<lparr>url2purl = (\<lambda>u. Some \<lparr>ptype = ''github'', pnamespace = Some ''o'', pname = ''r'', pversion = Some ''abcdef1'',
     pqualifiers = [], psubpath = None\<rparr>), purl2url = (\<lambda>p. Some ''https://github.com/o/r'')\<rparr>"

text \<open>Two advisories refer to the same commit: only the package of the first one gets a code fix.\<close>

lemma code_fix_of_first_advisory_only:
  "collect_and_store_fix_commits [0, 1] demo_fix_db [] =
     Inr [\<lparr>cf_commits = [''https://github.com/o/r/commit/abcdef1''], cf_advisory = 0, cf_package = 0\<rparr>]"
  by code_simp

lemma reference_commits_recorded_witness:
  "has_commit (''github/r'', ''https://github.com/o/r'', ''abcdef1'', 1)
     (collect_reference_commits demo_purl_lib demo_commit_urls demo_fix_db)"
proof -
  have "list_all (\<lambda>r. r = (''github/r'', ''https://github.com/o/r'', ''abcdef1'', 1)) (vcs_rows demo_purl_lib demo_commit_urls demo_fix_db 1) \<and>
     vcs_rows demo_purl_lib demo_commit_urls demo_fix_db 1 \<noteq> []" by code_simp
  then have "(''github/r'', ''https://github.com/o/r'', ''abcdef1'', 1) \<in> set (vcs_rows demo_purl_lib demo_commit_urls demo_fix_db 1)"
    by (cases "vcs_rows demo_purl_lib demo_commit_urls demo_fix_db 1") auto
  from reference_commits_recorded [OF _ this] show ?thesis by (simp add: demo_fix_db_def)
qed

end
