(* ===== verification/SsvcTrees.thy ===== *)
theory SsvcTrees
  imports Ssvc FixCommits
begin

text \<open>
  \<open>pipelines/v2_improvers/collect_ssvc_trees.py\<close>: the SSVC vectors of latest advisories are parsed and stored
  with their decision, and related to all advisories with the same identifier. The parser is the inverse of
  \<open>ssvc_calculator\<close> of \<open>Ssvc\<close>.
\<close>

section \<open>Parsing a vector\<close>

definition REVERSE_POINTS :: "(string \<times> (string \<times> (string \<times> string) list)) list" where
  "REVERSE_POINTS = [
     (''E'', (''Exploitation'', [(''N'', ''none''), (''P'', ''poc''), (''A'', ''active'')])),
     (''A'', (''Automatable'', [(''N'', ''no''), (''Y'', ''yes'')])),
     (''T'', (''Technical Impact'', [(''P'', ''partial''), (''T'', ''total'')])),
     (''P'', (''Mission Prevalence'', [(''M'', ''minimal''), (''S'', ''support''), (''E'', ''essential'')])),
     (''B'', (''Public Well-being Impact'', [(''M'', ''minimal''), (''A'', ''material''), (''I'', ''irreversible'')])),
     (''M'', (''Mission & Well-being'', [(''L'', ''low''), (''M'', ''medium''), (''H'', ''high'')]))]"

definition REVERSE_DECISION :: "(string \<times> string) list" where
  "REVERSE_DECISION = [(''T'', ''Track''), (''R'', ''Track*''), (''A'', ''Attend''), (''C'', ''Act'')]"

text \<open>\<open>s.replace(p, "")\<close> for a text \<open>p\<close> that is not empty.\<close>

fun remove_all :: "string \<Rightarrow> string \<Rightarrow> string" where
  "remove_all p [] = []"
| "remove_all p (c # s) =
     (if p \<noteq> [] \<and> starts_with p (c # s) then remove_all p (drop (length p - 1) s) else c # remove_all p s)"

text \<open>The parts in their order: the options so far and the last decision. The sort by a constant key changes nothing.\<close>

fun convert_parts :: "string list \<Rightarrow> options \<Rightarrow> string option \<Rightarrow> (options \<times> string option) result" where
  "convert_parts [] options decision = Inr (options, decision)"
| "convert_parts (part # parts) options decision =
     (if \<not> contains_str '':'' part then convert_parts parts options decision
      else (let (key, _, v) = partition_on '':'' part in
        if key = ''D'' then convert_parts parts options (map_of REVERSE_DECISION v)
        else (case map_of REVERSE_POINTS key of None \<Rightarrow> convert_parts parts options decision
          | Some (name, mapping) \<Rightarrow> (case map_of mapping v of None \<Rightarrow> Inl KeyError
              | Some x \<Rightarrow> convert_parts parts (options @ [[(name, x)]]) decision))))"

definition convert_vector_to_tree_and_decision :: "string \<Rightarrow> (options \<times> string option) result" where
  "convert_vector_to_tree_and_decision vec =
     (if \<not> starts_with ''SSVCv2/'' vec then Inl ValueError
      else convert_parts (filter (\<lambda>p. p \<noteq> []) (split_on (CHR ''/'') (remove_all ''SSVCv2/'' vec))) [] None)"

section \<open>Storing the trees\<close>

record ssvc_row =
  sv_vector :: string
  sv_options :: options
  sv_decision :: string
  sv_source :: nat
  sv_related :: "nat list"

text \<open>The latest advisories with an SSVC severity, and the vectors of those severities.\<close>

definition ssvc_vectors :: "'d import_db \<Rightarrow> nat \<Rightarrow> string option list" where
  "ssvc_vectors db i = map (\<lambda>s. sr_elements (t_severities db ! s))
     (filter (\<lambda>s. sr_system (t_severities db ! s) = ''ssvc'') (av_severities (t_advisories db ! i)))"

definition ssvc_advisories :: "'d import_db \<Rightarrow> nat list" where
  "ssvc_advisories db = filter (\<lambda>i. av_is_latest (t_advisories db ! i) \<and> ssvc_vectors db i \<noteq> []) [0..<length (t_advisories db)]"

text \<open>What a severity gives: its tree and decision, or nothing when it does not parse or is incomplete.\<close>

definition ssvc_tree :: "string option \<Rightarrow> (string \<times> options \<times> string) option" where
  "ssvc_tree vec = (case vec of None \<Rightarrow> None
     | Some v \<Rightarrow> (case convert_vector_to_tree_and_decision v of
         Inr (tree, Some d) \<Rightarrow> if tree = [] \<or> d = [] then None else Some (v, tree, d) | _ \<Rightarrow> None))"

definition ssvc_found :: "'d import_db \<Rightarrow> (nat \<times> string \<times> options \<times> string) list" where
  "ssvc_found db = concat (map (\<lambda>i. concat (map (\<lambda>vec. case ssvc_tree vec of None \<Rightarrow> [] | Some r \<Rightarrow> [(i, r)]) (ssvc_vectors db i)))
     (ssvc_advisories db))"

definition ssvc_key :: "ssvc_row \<Rightarrow> nat \<times> string" where
  "ssvc_key r = (sv_source r, sv_vector r)"

text \<open>\<open>bulk_create\<close> of the new rows fails when two of them have the same vector and source.\<close>

definition store_ssvc :: "(nat \<times> string \<times> options \<times> string) list \<Rightarrow> ssvc_row list \<Rightarrow> ssvc_row list result" where
  "store_ssvc found t =
     (let new = filter (\<lambda>(i, v, _). (i, v) \<notin> ssvc_key ` set t) found in
      if \<not> distinct (map (\<lambda>(i, v, _). (i, v)) new) then Inl IntegrityError
      else Inr (fold (\<lambda>(i, v, o', d). map (\<lambda>r. if ssvc_key r = (i, v) then r\<lparr>sv_options := o', sv_decision := d\<rparr> else r)) found
             t @ map (\<lambda>(i, v, o', d). \<lparr>sv_vector = v, sv_options = o', sv_decision = d, sv_source = i, sv_related = []\<rparr>) new))"

text \<open>The advisories of an identifier, whether they are the latest ones or not.\<close>

definition ssvc_related :: "'d import_db \<Rightarrow> string \<Rightarrow> nat list" where
  "ssvc_related db s = filter (\<lambda>j. av_advisory_id (t_advisories db ! j) = s \<or>
     s \<in> (\<lambda>a. t_aliases db ! a) ` set (av_aliases (t_advisories db ! j))) [0..<length (t_advisories db)]"

definition relate_ssvc :: "'d import_db \<Rightarrow> ssvc_row list \<Rightarrow> ssvc_row list" where
  "relate_ssvc db t = map (\<lambda>r. if sv_source r \<in> set (ssvc_advisories db)
     then r\<lparr>sv_related := bulk_create (=) (filter (\<lambda>j. j \<noteq> sv_source r)
            (ssvc_related db (av_advisory_id (t_advisories db ! sv_source r)))) (sv_related r)\<rparr> else r) t"

definition collect_ssvc_data :: "'d import_db \<Rightarrow> ssvc_row list \<Rightarrow> ssvc_row list result" where
  "collect_ssvc_data db t = map_sum id (relate_ssvc db) (store_ssvc (ssvc_found db) t)"

section \<open>The parser inverts the calculator\<close>

text \<open>The segment of a decision point and of its value, in both tables.\<close>

definition coded :: "string \<times> string \<Rightarrow> char \<times> char \<Rightarrow> bool" where
  "coded kx kc = (case (kx, kc) of ((name, x), (k, c)) \<Rightarrow>
     k \<notin> {CHR ''/'', CHR '':'', CHR ''v'', CHR ''D''} \<and> c \<notin> {CHR ''/'', CHR ''v''} \<and>
     (case map_of decision_points name of None \<Rightarrow> False | Some (lhs, codes) \<Rightarrow> lhs = [k] \<and> map_of codes x = Some [c]) \<and>
     (case map_of REVERSE_POINTS [k] of None \<Rightarrow> False | Some (name', mapping) \<Rightarrow> name' = name \<and> map_of mapping [c] = Some x))"

definition part_text :: "char \<times> char \<Rightarrow> string" where
  "part_text kc = [fst kc, CHR '':'', snd kc]"

lemma part_text_split: "contains_str '':'' (part_text (k, c))" "k \<noteq> CHR '':'' \<Longrightarrow> partition_on '':'' (part_text (k, c)) = ([k], '':'', [c])"
  by (simp_all add: part_text_def contains_str_def starts_with_def partition_on.simps)

lemma vector_parts_coded:
  "list_all2 coded d kcs \<Longrightarrow> vector_parts d = Inr (concat (map (\<lambda>kc. part_text kc @ ''/'') kcs))"
proof (induction rule: list_all2_induct)
  case (Cons kx d kc kcs)
  then show ?case
    by (cases kx; cases kc) (auto simp: coded_def part_text_def dict_get_def split: option.splits)
qed simp

lemma convert_parts_coded:
  "list_all2 coded d kcs \<Longrightarrow>
   convert_parts (map part_text kcs @ rest) tree dec = convert_parts rest (tree @ map (\<lambda>kx. [kx]) d) dec"
proof (induction arbitrary: tree rule: list_all2_induct)
  case (Cons kx d kc kcs)
  obtain name x k c where kx: "kx = (name, x)" and kc: "kc = (k, c)" by force
  from Cons.hyps(1) show ?case
    using Cons.IH [of "tree @ [[(name, x)]]"]
    by (auto simp: kx kc coded_def part_text_split split: option.splits)
qed simp

lemma remove_all_none: "c \<in> set p \<Longrightarrow> c \<notin> set s \<Longrightarrow> remove_all p s = s"
proof (induction s)
  case (Cons x s)
  have "\<not> starts_with p (x # s)"
  proof
    assume "starts_with p (x # s)"
    then obtain r where "x # s = p @ r" by (auto simp: starts_with_append)
    then have "set p \<subseteq> set (x # s)" by (metis Un_upper1 set_append)
    with Cons.prems show False by auto
  qed
  with Cons show ?case by simp
qed simp

lemma remove_all_prefix: "p \<noteq> [] \<Longrightarrow> c \<in> set p \<Longrightarrow> c \<notin> set s \<Longrightarrow> remove_all p (p @ s) = s"
  by (cases p) (auto simp: starts_with_def remove_all_none)

lemma split_parts:
  "\<forall>kc\<in>set kcs. fst kc \<noteq> CHR ''/'' \<and> snd kc \<noteq> CHR ''/'' \<Longrightarrow>
   filter (\<lambda>p. p \<noteq> []) (split_on (CHR ''/'') (concat (map (\<lambda>kc. part_text kc @ ''/'') kcs))) = map part_text kcs"
proof (induction kcs)
  case (Cons kc kcs)
  then have "CHR ''/'' \<notin> set (part_text kc)" by (auto simp: part_text_def)
  then have "split_on (CHR ''/'') (part_text kc @ CHR ''/'' # r) = part_text kc # split_on (CHR ''/'') r" for r
    by (rule split_on_append)
  moreover have "part_text kc \<noteq> []" by (simp add: part_text_def)
  ultimately show ?case using Cons by simp
qed simp

lemma coded_chars:
  "list_all2 coded d kcs \<Longrightarrow> \<forall>kc\<in>set kcs. fst kc \<notin> {CHR ''/'', CHR ''v''} \<and> snd kc \<notin> {CHR ''/'', CHR ''v''}"
  by (induction rule: list_all2_induct) (auto simp: coded_def)

text \<open>A vector of coded segments with a decision.\<close>

lemma convert_coded:
  assumes "list_all2 coded d kcs" "map_of REVERSE_DECISION [c] = Some dv" "c \<noteq> CHR ''/''" "c \<noteq> CHR ''v''"
  shows "convert_vector_to_tree_and_decision (''SSVCv2/'' @ concat (map (\<lambda>kc. part_text kc @ ''/'') kcs) @ ''D:'' @ [c] @ ''/'') =
    Inr (map (\<lambda>kx. [kx]) d, Some dv)"
proof -
  let ?kcs = "kcs @ [(CHR ''D'', c)]"
  let ?body = "concat (map (\<lambda>kc. part_text kc @ ''/'') ?kcs)"
  have ok: "\<forall>kc\<in>set ?kcs. fst kc \<notin> {CHR ''/'', CHR ''v''} \<and> snd kc \<notin> {CHR ''/'', CHR ''v''}"
    using coded_chars [OF assms(1)] assms(3,4) by simp
  have body: "concat (map (\<lambda>kc. part_text kc @ ''/'') kcs) @ ''D:'' @ [c] @ ''/'' = ?body"
    by (simp add: part_text_def)
  have "CHR ''v'' \<notin> set (part_text kc @ ''/'')" if "kc \<in> set ?kcs" for kc
    using ok that by (auto simp: part_text_def)
  then have v: "CHR ''v'' \<notin> set ?body" unfolding set_concat set_map by blast
  have "remove_all ''SSVCv2/'' (''SSVCv2/'' @ ?body) = ?body"
    by (rule remove_all_prefix [OF _ _ v]) simp_all
  moreover have "starts_with ''SSVCv2/'' (''SSVCv2/'' @ x)" for x by (simp add: starts_with_def)
  moreover have "filter (\<lambda>p. p \<noteq> []) (split_on (CHR ''/'') ?body) = map part_text ?kcs"
    using ok by (intro split_parts) blast
  moreover have "convert_parts (map part_text ?kcs) [] None = Inr (map (\<lambda>kx. [kx]) d, Some dv)"
    using convert_parts_coded [OF assms(1), of "[part_text (CHR ''D'', c)]" "[]" None] assms(2) by (simp add: part_text_split)
  ultimately show ?thesis
    unfolding convert_vector_to_tree_and_decision_def body by (simp only: not_True_eq_False if_False)
qed

text \<open>The vector of the calculator is coded.\<close>

definition full_points :: "string \<Rightarrow> string \<Rightarrow> string \<Rightarrow> string \<Rightarrow> string \<Rightarrow> string \<Rightarrow> (string \<times> string) list" where
  "full_points e a t p b m = [(''Exploitation'', e), (''Automatable'', a), (''Technical Impact'', t),
     (''Mission Prevalence'', p), (''Public Well-being Impact'', b), (''Mission & Well-being'', m)]"

lemma ssvc_full_vector:
  assumes "lower e = e" "lower a = a" "lower t = t" "lower p = p" "lower b = b"
    and "map_of mission_well_being_table (p, b) = Some m" "vector_parts (full_points e a t p b m) = Inr parts"
    and "dict_get decision_lookup (e, a, t, m) [] = dv" "dv \<noteq> []"
  shows "ssvc_calculator f (full_options e a t p b) None =
    Inr (''SSVCv2/'' @ parts @ ''D:'' @ dict_get decision_values dv ''None'' @ ''/'', dv)"
proof -
  have d: "options_dict (full_options e a t p b) = [(''Exploitation'', e), (''Automatable'', a), (''Technical Impact'', t),
      (''Mission Prevalence'', p), (''Public Well-being Impact'', b)]"
    using assms(1-5) by (simp add: options_dict_def full_options_def)
  show ?thesis
    using assms(6-9)
    by (simp add: ssvc_calculator_def d set_default_def dict_keys_def dict_get_def decision_key_def Let_def full_points_def
        del: vector_parts.simps)
qed

lemma levels_coded:
  "e < 3 \<Longrightarrow> coded (''Exploitation'', fst (fst ssvc_levels) ! e) (CHR ''E'', ''NPA'' ! e)"
  "a < 2 \<Longrightarrow> coded (''Automatable'', snd (fst ssvc_levels) ! a) (CHR ''A'', ''NY'' ! a)"
  "t < 2 \<Longrightarrow> coded (''Technical Impact'', fst (snd ssvc_levels) ! t) (CHR ''T'', ''PT'' ! t)"
  "p < 3 \<Longrightarrow> coded (''Mission Prevalence'', prevalences ! p) (CHR ''P'', ''MSE'' ! p)"
  "b < 3 \<Longrightarrow> coded (''Public Well-being Impact'', impacts ! b) (CHR ''B'', ''MAI'' ! b)"
  "m < 3 \<Longrightarrow> coded (''Mission & Well-being'', snd (snd ssvc_levels) ! m) (CHR ''M'', ''LMH'' ! m)"
proof -
  have l: "\<forall>i\<in>set [0..<n]. P i \<Longrightarrow> i < n \<Longrightarrow> P i" for n i and P :: "nat \<Rightarrow> bool" by simp
  have tab: "list_all (\<lambda>e. coded (''Exploitation'', fst (fst ssvc_levels) ! e) (CHR ''E'', ''NPA'' ! e)) [0..<3]"
    "list_all (\<lambda>a. coded (''Automatable'', snd (fst ssvc_levels) ! a) (CHR ''A'', ''NY'' ! a)) [0..<2]"
    "list_all (\<lambda>t. coded (''Technical Impact'', fst (snd ssvc_levels) ! t) (CHR ''T'', ''PT'' ! t)) [0..<2]"
    "list_all (\<lambda>p. coded (''Mission Prevalence'', prevalences ! p) (CHR ''P'', ''MSE'' ! p)) [0..<3]"
    "list_all (\<lambda>b. coded (''Public Well-being Impact'', impacts ! b) (CHR ''B'', ''MAI'' ! b)) [0..<3]"
    "list_all (\<lambda>m. coded (''Mission & Well-being'', snd (snd ssvc_levels) ! m) (CHR ''M'', ''LMH'' ! m)) [0..<3]"
    by code_simp+
  show "e < 3 \<Longrightarrow> coded (''Exploitation'', fst (fst ssvc_levels) ! e) (CHR ''E'', ''NPA'' ! e)"
    using tab(1) unfolding list_all_iff by (rule l)
  show "a < 2 \<Longrightarrow> coded (''Automatable'', snd (fst ssvc_levels) ! a) (CHR ''A'', ''NY'' ! a)"
    using tab(2) unfolding list_all_iff by (rule l)
  show "t < 2 \<Longrightarrow> coded (''Technical Impact'', fst (snd ssvc_levels) ! t) (CHR ''T'', ''PT'' ! t)"
    using tab(3) unfolding list_all_iff by (rule l)
  show "p < 3 \<Longrightarrow> coded (''Mission Prevalence'', prevalences ! p) (CHR ''P'', ''MSE'' ! p)"
    using tab(4) unfolding list_all_iff by (rule l)
  show "b < 3 \<Longrightarrow> coded (''Public Well-being Impact'', impacts ! b) (CHR ''B'', ''MAI'' ! b)"
    using tab(5) unfolding list_all_iff by (rule l)
  show "m < 3 \<Longrightarrow> coded (''Mission & Well-being'', snd (snd ssvc_levels) ! m) (CHR ''M'', ''LMH'' ! m)"
    using tab(6) unfolding list_all_iff by (rule l)
qed

definition decision_at :: "nat \<Rightarrow> nat \<Rightarrow> nat \<Rightarrow> nat \<Rightarrow> string" where
  "decision_at e a t m = dict_get decision_lookup
     (fst (fst ssvc_levels) ! e, snd (fst ssvc_levels) ! a, fst (snd ssvc_levels) ! t, snd (snd ssvc_levels) ! m) []"

text \<open>The code of a decision, by the names of the decisions.\<close>

definition decision_coded :: "string \<Rightarrow> bool" where
  "decision_coded dv \<longleftrightarrow> dv \<noteq> [] \<and> (case map_of decision_values dv of
     Some [c] \<Rightarrow> c \<noteq> CHR ''/'' \<and> c \<noteq> CHR ''v'' \<and> map_of REVERSE_DECISION [c] = Some dv | _ \<Rightarrow> False)"

lemma decision_at_coded:
  assumes "e < 3" "a < 2" "t < 2" "m < 3"
  shows "decision_coded (decision_at e a t m)"
proof -
  have "list_all (\<lambda>e. list_all (\<lambda>a. list_all (\<lambda>t. list_all (\<lambda>m. decision_coded (decision_at e a t m)) [0..<3]) [0..<2]) [0..<2]) [0..<3]"
    by code_simp
  moreover have "e \<in> set [0..<3]" "a \<in> set [0..<2]" "t \<in> set [0..<2]" "m \<in> set [0..<3]" using assms by auto
  ultimately show ?thesis unfolding list_all_iff by blast
qed

text \<open>The tree of full options: the given ones, and their combination of mission and well-being.\<close>

definition full_tree :: "nat \<Rightarrow> nat \<Rightarrow> nat \<Rightarrow> nat \<Rightarrow> nat \<Rightarrow> options" where
  "full_tree e a t p b = options_at e a t p b @ [[(''Mission & Well-being'', snd (snd ssvc_levels) ! mission_at p b)]]"



section \<open>What is stored\<close>

lemma ssvc_key_update [simp]:
  "ssvc_key (r\<lparr>sv_options := tr, sv_decision := d\<rparr>) = ssvc_key r" "ssvc_key (r\<lparr>sv_related := x\<rparr>) = ssvc_key r"
  by (simp_all add: ssvc_key_def)

lemma ssvc_tree_vector: "ssvc_tree vec = Some (v, tr, d) \<Longrightarrow> ssvc_tree (Some v) = Some (v, tr, d)"
  by (auto simp: ssvc_tree_def split: option.splits sum.splits if_splits)

lemma ssvc_found_tree: "(i, v, tr, d) \<in> set (ssvc_found db) \<Longrightarrow> i \<in> set (ssvc_advisories db) \<and> ssvc_tree (Some v) = Some (v, tr, d)"
  by (auto simp: ssvc_found_def split: option.splits dest: ssvc_tree_vector [OF sym])

definition set_tree :: "ssvc_row \<Rightarrow> ssvc_row" where
  "set_tree r = (case ssvc_tree (Some (sv_vector r)) of None \<Rightarrow> r | Some (v, tr, d) \<Rightarrow> r\<lparr>sv_options := tr, sv_decision := d\<rparr>)"

lemma ssvc_update_row:
  "list_all (\<lambda>(i, v, tr, d). ssvc_tree (Some v) = Some (v, tr, d)) found \<Longrightarrow>
   fold (\<lambda>(i, v, tr, d) r. if ssvc_key r = (i, v) then r\<lparr>sv_options := tr, sv_decision := d\<rparr> else r) found r =
     (if ssvc_key r \<in> (\<lambda>(i, v, _). (i, v)) ` set found then set_tree r else r)"
proof (induction found arbitrary: r)
  case (Cons x found)
  obtain i v tr d where x: "x = (i, v, tr, d)" by (cases x)
  from Cons.prems have tree: "ssvc_tree (Some v) = Some (v, tr, d)" by (simp add: x)
  from Cons.prems have rest: "list_all (\<lambda>(i, v, tr, d). ssvc_tree (Some v) = Some (v, tr, d)) found" by (simp only: list.pred_inject)
  show ?case
  proof (cases "ssvc_key r = (i, v)")
    case True
    then have st: "set_tree r = r\<lparr>sv_options := tr, sv_decision := d\<rparr>" by (simp add: set_tree_def ssvc_key_def tree)
    have "set_tree (set_tree r) = set_tree r" using True by (simp add: set_tree_def ssvc_key_def tree)
    then have again: "set_tree (r\<lparr>sv_options := tr, sv_decision := d\<rparr>) = r\<lparr>sv_options := tr, sv_decision := d\<rparr>" by (simp add: st)
    show ?thesis
      using Cons.IH [OF rest, of "r\<lparr>sv_options := tr, sv_decision := d\<rparr>"] by (simp add: x True again st del: fold_simps add: fold_simps(2))
  next
    case False
    with Cons.IH [OF rest, of r] show ?thesis by (auto simp: x)
  qed
qed simp

lemma ssvc_updates:
  "fold (\<lambda>(i, v, tr, d). map (\<lambda>r. if ssvc_key r = (i, v) then r\<lparr>sv_options := tr, sv_decision := d\<rparr> else r)) found t =
   map (fold (\<lambda>(i, v, tr, d) r. if ssvc_key r = (i, v) then r\<lparr>sv_options := tr, sv_decision := d\<rparr> else r) found) t"
  by (induction found arbitrary: t) (auto simp: comp_def)

lemma set_tree_key [simp]: "ssvc_key (set_tree r) = ssvc_key r"
  by (simp add: set_tree_def split: option.split)

lemma store_ssvc_rows:
  assumes "store_ssvc (ssvc_found db) t = Inr t'" "distinct (map ssvc_key t)"
  shows "distinct (map ssvc_key t') \<and> ssvc_key ` set t' = ssvc_key ` set t \<union> (\<lambda>(i, v, _). (i, v)) ` set (ssvc_found db) \<and>
    (\<forall>(i, v, tr, d)\<in>set (ssvc_found db). \<forall>r\<in>set t'. ssvc_key r = (i, v) \<longrightarrow> sv_options r = tr \<and> sv_decision r = d)"
proof -
  let ?found = "ssvc_found db"
  let ?new = "filter (\<lambda>(i, v, _). (i, v) \<notin> ssvc_key ` set t) ?found"
  let ?row = "\<lambda>(i, v, tr, d). \<lparr>sv_vector = v, sv_options = tr, sv_decision = d, sv_source = i, sv_related = []\<rparr>"
  let ?set = "\<lambda>r. if ssvc_key r \<in> (\<lambda>(i, v, _). (i, v)) ` set ?found then set_tree r else r"
  have trees: "list_all (\<lambda>(i, v, tr, d). ssvc_tree (Some v) = Some (v, tr, d)) ?found"
    unfolding list_all_iff using ssvc_found_tree by blast
  from assms(1) have dn: "distinct (map (\<lambda>(i, v, _). (i, v)) ?new)"
    and t': "t' = map ?set t @ map ?row ?new"
    by (auto simp: store_ssvc_def Let_def ssvc_updates ssvc_update_row [OF trees] split: if_splits)
  have keys: "map ssvc_key t' = map ssvc_key t @ map (\<lambda>(i, v, _). (i, v)) ?new"
    by (auto simp: t' ssvc_key_def [of "\<lparr>sv_vector = _, sv_options = _, sv_decision = _, sv_source = _, sv_related = _\<rparr>"] intro!: map_cong)
  have "distinct (map ssvc_key t')" using assms(2) dn unfolding keys by (auto simp: distinct_append)
  moreover have "ssvc_key ` set t' = ssvc_key ` set t \<union> (\<lambda>(i, v, _). (i, v)) ` set ?found"
  proof -
    have "ssvc_key ` set t' = set (map ssvc_key t')" by simp
    also have "\<dots> = ssvc_key ` set t \<union> (\<lambda>(i, v, _). (i, v)) ` set ?new" unfolding keys by simp
    also have "\<dots> = ssvc_key ` set t \<union> (\<lambda>(i, v, _). (i, v)) ` set ?found" by force
    finally show ?thesis .
  qed
  moreover have "sv_options r = tr \<and> sv_decision r = d"
    if f: "(i, v, tr, d) \<in> set ?found" and r: "r \<in> set t'" and k: "ssvc_key r = (i, v)" for i v tr d r
  proof -
    have v: "ssvc_tree (Some v) = Some (v, tr, d)" using ssvc_found_tree [OF f] by blast
    from r have "(\<exists>x\<in>set t. r = ?set x) \<or> (\<exists>x\<in>set ?new. r = ?row x)"
      by (simp only: t' set_append set_map Un_iff image_iff)
    then consider (old) x where "x \<in> set t" "r = ?set x" | (new) x where "x \<in> set ?new" "r = ?row x" by blast
    then show ?thesis
    proof cases
      case old
      with k have kx: "ssvc_key x = (i, v)" by (simp split: if_splits)
      moreover have "(i, v) \<in> (\<lambda>(i, v, _). (i, v)) ` set ?found" using f by force
      ultimately have "r = set_tree x" using old by simp
      with kx show ?thesis by (simp add: set_tree_def ssvc_key_def v)
    next
      case new
      obtain i' v' tr' d' where x: "x = (i', v', tr', d')" by (cases x)
      with new k have "i' = i" "v' = v" by (simp_all add: ssvc_key_def)
      moreover have "ssvc_tree (Some v') = Some (v', tr', d')" using new x trees by (auto simp: list_all_iff)
      ultimately show ?thesis using new x v by simp
    qed
  qed
  ultimately show ?thesis by blast
qed

text \<open>
  C33: collecting SSVC trees, when it does not fail, leaves one row for every vector of a latest advisory
  that parses, with its tree and decision and related to every other advisory, latest or not, that has
  the identifier of its source as identifier or alias; other rows of the table keep their keys.
\<close>

theorem ssvc_trees_exact:
  assumes "collect_ssvc_data db t = Inr t'" "distinct (map ssvc_key t)"
  shows "distinct (map ssvc_key t') \<and> ssvc_key ` set t' = ssvc_key ` set t \<union> (\<lambda>(i, v, _). (i, v)) ` set (ssvc_found db) \<and>
    (\<forall>(i, v, tr, d)\<in>set (ssvc_found db). \<exists>r\<in>set t'. ssvc_key r = (i, v) \<and> sv_options r = tr \<and> sv_decision r = d \<and>
       set (ssvc_related db (av_advisory_id (t_advisories db ! i))) - {i} \<subseteq> set (sv_related r))"
proof -
  from assms(1) obtain t1 where t1: "store_ssvc (ssvc_found db) t = Inr t1" "t' = relate_ssvc db t1"
    by (auto simp: collect_ssvc_data_def map_sum_Inr)
  note rows = store_ssvc_rows [OF t1(1) assms(2)]
  have keys: "map ssvc_key t' = map ssvc_key t1" by (auto simp: t1(2) relate_ssvc_def)
  then have "ssvc_key ` set t' = ssvc_key ` set t1" by (metis set_map)
  moreover have "\<exists>r\<in>set t'. ssvc_key r = (i, v) \<and> sv_options r = tr \<and> sv_decision r = d \<and>
       set (ssvc_related db (av_advisory_id (t_advisories db ! i))) - {i} \<subseteq> set (sv_related r)"
    if f: "(i, v, tr, d) \<in> set (ssvc_found db)" for i v tr d
  proof -
    have "(i, v) \<in> (\<lambda>(i, v, _). (i, v)) ` set (ssvc_found db)" using f by force
    with rows have "(i, v) \<in> ssvc_key ` set t1" by simp
    then obtain r where r: "r \<in> set t1" "ssvc_key r = (i, v)" by force
    from rows f r have "sv_options r = tr \<and> sv_decision r = d" by blast
    moreover have source: "sv_source r = i" using r(2) by (simp add: ssvc_key_def)
    moreover have "i \<in> set (ssvc_advisories db)" using ssvc_found_tree [OF f] by blast
    let ?new = "filter (\<lambda>j. j \<noteq> i) (ssvc_related db (av_advisory_id (t_advisories db ! i)))"
    let ?r = "r\<lparr>sv_related := bulk_create (=) ?new (sv_related r)\<rparr>"
    have "?r \<in> set t'" using r(1) source \<open>i \<in> set (ssvc_advisories db)\<close> unfolding t1(2) relate_ssvc_def by (force simp: Let_def)
    moreover have "set (ssvc_related db (av_advisory_id (t_advisories db ! i))) - {i} \<subseteq> set (sv_related ?r)"
      by (auto simp: set_bulk_create_eq)
    ultimately show ?thesis using r(2) by (intro bexI [of _ ?r]) simp_all
  qed
  ultimately show ?thesis using rows keys by auto
qed

section \<open>A concrete database\<close>

definition demo_vector :: string where
  "demo_vector = ''SSVCv2/E:A/A:Y/T:T/P:E/B:I/M:H/D:C/2024-01-01T00:00:00Z/''"

definition demo_ssvc_db :: "string \<Rightarrow> nat import_db" where
  "demo_ssvc_db url = \<lparr>t_aliases = [''A''], t_references = [],
     t_severities = [\<lparr>sr_url = Some ''u'', sr_system = ''ssvc'', sr_value = None, sr_elements = Some demo_vector, sr_published = None\<rparr>,
       \<lparr>sr_url = Some url, sr_system = ''ssvc'', sr_value = None, sr_elements = Some demo_vector, sr_published = None\<rparr>],
     t_weaknesses = [], t_patches = [], t_commits = [], t_packages = [],
     t_advisories = [(demo_fix_row ''A'')\<lparr>av_severities := (if url = ''u'' then [0] else [0, 1])\<rparr>, (demo_fix_row ''B'')\<lparr>av_aliases := [0]\<rparr>],
     t_impacts = []\<rparr>"

lemma ssvc_trees_exact_witness:
  "\<exists>t'. collect_ssvc_data (demo_ssvc_db ''u'') [] = Inr t' \<and>
     (\<exists>r\<in>set t'. ssvc_key r = (0, demo_vector) \<and> sv_decision r = ''Act'' \<and> 1 \<in> set (sv_related r))"
proof -
  let ?db = "demo_ssvc_db ''u''"
  have "(case collect_ssvc_data ?db [] of Inl _ \<Rightarrow> False | Inr _ \<Rightarrow> True) \<and>
      list_all (\<lambda>(i, v, tr, d). i = 0 \<and> v = demo_vector \<and> d = ''Act'') (ssvc_found ?db) \<and> ssvc_found ?db \<noteq> [] \<and>
      1 \<in> set (ssvc_related ?db (av_advisory_id (t_advisories ?db ! 0)))" by code_simp
  then obtain t' tr where t': "collect_ssvc_data ?db [] = Inr t'" and f: "(0, demo_vector, tr, ''Act'') \<in> set (ssvc_found ?db)"
    and rel: "1 \<in> set (ssvc_related ?db (av_advisory_id (t_advisories ?db ! 0)))"
    by (cases "collect_ssvc_data ?db []"; cases "ssvc_found ?db") auto
  from ssvc_trees_exact [OF t'] f rel show ?thesis by (intro exI [of _ t']) (force simp: t')
qed

text \<open>
  Two severities of one advisory with the same vector and different sources: the insertion of both rows fails,
  although the loop over the vectors catches every exception.
\<close>

lemma ssvc_vector_twice: "collect_ssvc_data (demo_ssvc_db ''w'') [] = Inl IntegrityError"
  by code_simp

end
